(* ===== verification/Prelude.thy ===== *)
theory Prelude
  imports Main "HOL-Library.Word" "HOL-Library.FSet" "HOL-Library.Finite_Map" "HOL-Library.Multiset"
begin

unbundle bit_operations_syntax

text \<open>
  Shared vocabulary of the development: the machine types of the Rust sources, \<open>Result\<close> as a
  sum, the little-endian and big-endian codecs of \<open>u16\<close> and \<open>u32\<close>, the byte reader behind every
  \<open>u32::from_le_bytes([b[p], .., b[p + 3]])\<close>, and the length-prefixed record format
  \<open>[u32 LE length][payload]\<close> that the ring buffer, the deletion log and the cache batches share.

  Conventions. \<open>usize\<close> values are lengths and positions in buffers held in memory; they are
  \<open>nat\<close>. Every value that is stored or sent at a fixed width (\<open>u8\<close>, \<open>u16\<close>, \<open>u32\<close>, \<open>u64\<close>,
  \<open>i32\<close>) is a word, and a cast of a length to such a width is the truncating \<open>of_nat\<close>.
  A \<open>HashMap\<close> is a finite map and a \<open>HashSet\<close> a finite set; a Rust \<open>String\<close> is a \<open>string\<close>.
\<close>

section \<open>Machine types and results\<close>

type_synonym u8 = "8 word"
type_synonym u16 = "16 word"
type_synonym u32 = "32 word"
type_synonym u64 = "64 word"
type_synonym i32 = "32 word"
type_synonym bytes = "u8 list"

abbreviation Ok :: "'a \<Rightarrow> 'e + 'a" where "Ok \<equiv> Inr"
abbreviation Err :: "'e \<Rightarrow> 'e + 'a" where "Err \<equiv> Inl"

named_theorems frame_simps \<open>rewriting of length-prefixed records\<close>
named_theorems codec_simps \<open>fixed-width integer codecs\<close>

section \<open>Fixed-width codecs\<close>

definition u16_to_be_bytes :: "u16 \<Rightarrow> bytes" where
  "u16_to_be_bytes w = [ucast (drop_bit 8 w), ucast w]"

definition u16_from_be_bytes :: "u8 \<Rightarrow> u8 \<Rightarrow> u16" where
  "u16_from_be_bytes a b = push_bit 8 (ucast a) OR ucast b"

definition u32_to_be_bytes :: "u32 \<Rightarrow> bytes" where
  "u32_to_be_bytes w =
     [ucast (drop_bit 24 w), ucast (drop_bit 16 w), ucast (drop_bit 8 w), ucast w]"

definition u32_from_be_bytes :: "u8 \<Rightarrow> u8 \<Rightarrow> u8 \<Rightarrow> u8 \<Rightarrow> u32" where
  "u32_from_be_bytes a b c d =
     push_bit 24 (ucast a) OR push_bit 16 (ucast b) OR push_bit 8 (ucast c) OR ucast d"

definition u32_to_le_bytes :: "u32 \<Rightarrow> bytes" where
  "u32_to_le_bytes w = rev (u32_to_be_bytes w)"

definition u32_from_le_bytes :: "u8 \<Rightarrow> u8 \<Rightarrow> u8 \<Rightarrow> u8 \<Rightarrow> u32" where
  "u32_from_le_bytes a b c d = u32_from_be_bytes d c b a"

lemma length_u16_to_be_bytes [simp]: "length (u16_to_be_bytes w) = 2"
  by (simp add: u16_to_be_bytes_def)

lemma length_u32_to_be_bytes [simp]: "length (u32_to_be_bytes w) = 4"
  by (simp add: u32_to_be_bytes_def)

lemma length_u32_to_le_bytes [simp]: "length (u32_to_le_bytes w) = 4"
  by (simp add: u32_to_le_bytes_def)

lemma u8_bit_beyond [simp]: "8 \<le> k \<Longrightarrow> \<not> bit (w :: u8) (k + n)"
  using bit_imp_le_length [of w "k + n"] by auto

lemma u16_be_join [codec_simps]: "u16_from_be_bytes (ucast (drop_bit 8 w)) (ucast w) = w"
  unfolding u16_from_be_bytes_def
  by (rule bit_word_eqI) (auto simp: bit_simps)

lemma u32_be_join [codec_simps]:
  "u32_from_be_bytes (ucast (drop_bit 24 w)) (ucast (drop_bit 16 w)) (ucast (drop_bit 8 w)) (ucast w) = w"
  (is "?l = w")
proof (rule bit_word_eqI)
  fix n assume "n < LENGTH(32)"
  then consider "n < 8" | "8 \<le> n \<and> n < 16" | "16 \<le> n \<and> n < 24" | "24 \<le> n \<and> n < 32" by fastforce
  then show "bit ?l n = bit w n"
    unfolding u32_from_be_bytes_def by cases (auto simp: bit_simps)
qed

lemma u16_be_split:
  "u16_to_be_bytes (u16_from_be_bytes a b) = [a, b]"
  unfolding u16_from_be_bytes_def u16_to_be_bytes_def
  by (auto intro!: bit_word_eqI simp: bit_simps)

lemma u32_be_split:
  "u32_to_be_bytes (u32_from_be_bytes a b c d) = [a, b, c, d]"
  unfolding u32_from_be_bytes_def u32_to_be_bytes_def
  by (auto intro!: bit_word_eqI simp: bit_simps)

lemma u32_le_split: "u32_to_le_bytes (u32_from_le_bytes a b c d) = [a, b, c, d]"
  by (simp add: u32_to_le_bytes_def u32_from_le_bytes_def u32_be_split)

section \<open>Length-prefixed records\<close>

text \<open>
  \<open>read_le32 b p\<close> is the source's \<open>u32::from_le_bytes([b[p], b[p + 1], b[p + 2], b[p + 3]]) as usize\<close>;
  every caller has checked \<open>p + 4 \<le> b.len()\<close> before, as the source has.
\<close>

definition read_le32 :: "bytes \<Rightarrow> nat \<Rightarrow> nat" where
  "read_le32 b p = unat (u32_from_le_bytes (b ! p) (b ! (p + 1)) (b ! (p + 2)) (b ! (p + 3)))"

definition subslice :: "'a list \<Rightarrow> nat \<Rightarrow> nat \<Rightarrow> 'a list" where
  "subslice xs i j = take (j - i) (drop i xs)"

definition lp_record :: "bytes \<Rightarrow> bytes" where
  "lp_record e = u32_to_le_bytes (of_nat (length e)) @ e"

definition lp_stream :: "bytes list \<Rightarrow> bytes" where
  "lp_stream es = concat (map lp_record es)"

abbreviation fits_u32 :: "bytes \<Rightarrow> bool" where
  "fits_u32 e \<equiv> length e < 2 ^ 32"

lemma length_lp_record [simp]: "length (lp_record e) = 4 + length e"
  by (simp add: lp_record_def)

lemma lp_stream_Nil [simp]: "lp_stream [] = []"
  by (simp add: lp_stream_def)

lemma lp_stream_Cons [simp]: "lp_stream (e # es) = lp_record e @ lp_stream es"
  by (simp add: lp_stream_def)

lemma lp_stream_append [simp]: "lp_stream (xs @ ys) = lp_stream xs @ lp_stream ys"
  by (simp add: lp_stream_def)

lemma lp_stream_empty_iff [simp]: "lp_stream es = [] \<longleftrightarrow> es = []"
  by (cases es) (auto simp: lp_record_def u32_to_le_bytes_def u32_to_be_bytes_def)

lemma read_le32_append [frame_simps]:
  "length pre = p \<Longrightarrow> read_le32 (pre @ u32_to_le_bytes w @ suf) p = unat w"
  by (simp add: read_le32_def u32_to_le_bytes_def u32_to_be_bytes_def nth_append
      u32_from_le_bytes_def codec_simps)

lemma read_le32_record [frame_simps]:
  assumes "fits_u32 e" "length pre = p"
  shows "read_le32 (pre @ lp_record e @ suf) p = length e"
  using assms read_le32_append [of pre p "of_nat (length e)" "e @ suf"]
  by (simp add: lp_record_def unat_of_nat)

lemma read_le32_bound: "read_le32 b p < 2 ^ 32"
  using unsigned_less [where 'a = nat and 'b = 32] unfolding read_le32_def by simp

lemma subslice_record [frame_simps]:
  assumes "length pre = p"
  shows "subslice (pre @ lp_record e @ suf) (p + 4) (p + 4 + length e) = e"
  using assms by (simp add: subslice_def lp_record_def)

lemma length_subslice [simp]: "j \<le> length xs \<Longrightarrow> length (subslice xs i j) = j - i"
  by (simp add: subslice_def)

text \<open>Bytes that start with a size prefix and hold that many bytes after it are one record and a rest.\<close>

lemma split_record:
  assumes "p + 4 + read_le32 b p \<le> length b"
  shows "drop p b = lp_record (subslice b (p + 4) (p + 4 + read_le32 b p)) @ drop (p + 4 + read_le32 b p) b"
proof -
  let ?n = "read_le32 b p"
  have four: "drop p b = [b ! p, b ! (p + 1), b ! (p + 2), b ! (p + 3)] @ drop (p + 4) b"
    using assms by (simp add: Cons_nth_drop_Suc [symmetric] numeral_eq_Suc)
  have len: "length (subslice b (p + 4) (p + 4 + ?n)) = ?n"
    using assms by simp
  have "(of_nat ?n :: u32) = u32_from_le_bytes (b ! p) (b ! (p + 1)) (b ! (p + 2)) (b ! (p + 3))"
    by (simp add: read_le32_def)
  then have "lp_record (subslice b (p + 4) (p + 4 + ?n)) =
      [b ! p, b ! (p + 1), b ! (p + 2), b ! (p + 3)] @ subslice b (p + 4) (p + 4 + ?n)"
    by (simp only: lp_record_def len u32_le_split)
  moreover have "drop (p + 4) b = subslice b (p + 4) (p + 4 + ?n) @ drop (p + 4 + ?n) b"
    by (simp add: subslice_def) (metis append_take_drop_id drop_drop add.commute)
  ultimately show ?thesis using four by simp
qed

text \<open>The records of a stream, read back by the length prefixes.\<close>

function lp_parse :: "bytes \<Rightarrow> bytes list" where
  "lp_parse b =
     (if 4 \<le> length b \<and> 4 + read_le32 b 0 \<le> length b
      then subslice b 4 (4 + read_le32 b 0) # lp_parse (drop (4 + read_le32 b 0) b)
      else [])"
  by pat_completeness auto
termination
  by (relation "measure length") auto

declare lp_parse.simps [simp del]

lemma lp_parse_stream: "\<forall>e \<in> set es. fits_u32 e \<Longrightarrow> lp_parse (lp_stream es) = es"
proof (induction es)
  case Nil
  show ?case by (subst lp_parse.simps) simp
next
  case (Cons e es)
  then have "read_le32 (lp_stream (e # es)) 0 = length e"
    using read_le32_record [of e "[]" 0 "lp_stream es"] by simp
  moreover have "subslice (lp_stream (e # es)) 4 (4 + length e) = e"
    using subslice_record [of "[]" 0 e "lp_stream es"] by simp
  ultimately show ?case using Cons by (subst lp_parse.simps) simp
qed

text \<open>Evaluation of the codecs on concrete bytes.\<close>

lemmas codec_eval =
  lp_stream_def lp_record_def subslice_def read_le32_def u32_to_le_bytes_def u32_to_be_bytes_def
  u32_from_le_bytes_def u32_from_be_bytes_def u16_to_be_bytes_def u16_from_be_bytes_def

section \<open>UTF-8\<close>

text \<open>\<open>std::str::from_utf8\<close>: the byte sequences Rust accepts as UTF-8.\<close>

fun utf8_cont :: "u8 \<Rightarrow> bool" where
  "utf8_cont c = (0x80 \<le> c \<and> c \<le> 0xBF)"

fun utf8_valid :: "bytes \<Rightarrow> bool" where
  "utf8_valid [] = True"
| "utf8_valid (b # bs) =
     (if b < 0x80 then utf8_valid bs
      else if 0xC2 \<le> b \<and> b \<le> 0xDF then
        (case bs of c # r \<Rightarrow> utf8_cont c \<and> utf8_valid r | _ \<Rightarrow> False)
      else if 0xE0 \<le> b \<and> b \<le> 0xEF then
        (case bs of
           c1 # c2 # r \<Rightarrow> utf8_cont c1 \<and> (b = 0xE0 \<longrightarrow> 0xA0 \<le> c1) \<and> (b = 0xED \<longrightarrow> c1 \<le> 0x9F)
             \<and> utf8_cont c2 \<and> utf8_valid r
         | _ \<Rightarrow> False)
      else if 0xF0 \<le> b \<and> b \<le> 0xF4 then
        (case bs of
           c1 # c2 # c3 # r \<Rightarrow> utf8_cont c1 \<and> (b = 0xF0 \<longrightarrow> 0x90 \<le> c1) \<and> (b = 0xF4 \<longrightarrow> c1 \<le> 0x8F)
             \<and> utf8_cont c2 \<and> utf8_cont c3 \<and> utf8_valid r
         | _ \<Rightarrow> False)
      else False)"

section \<open>JSON values\<close>

text \<open>\<open>serde_json::Value\<close> with integral numbers; an object is the list of its entries.\<close>

datatype json =
    JNull
  | JBool bool
  | JNum int
  | JStr string
  | JArr "json list"
  | JObj "(string \<times> json) list"

end
