(* ===== verification/Db_Types.thy ===== *)
theory Db_Types
  imports Prelude
begin

text \<open>
  The shared types of the event database, after \<open>storage/db/types.rs\<close>: the configuration, the
  error values, the query filter and its result, the deletion tombstones, the index record and the
  set of in-memory indexes with the one operation that creates or refreshes a record. The source
  formats its storage errors as text; here each message is a constructor of \<open>storage_fault\<close>
  with the values the text shows.
\<close>

section \<open>Configuration and errors\<close>

record database_config =
  max_events_in_storage :: nat
  batch_size :: nat

definition default_config :: database_config where
  "default_config = \<lparr>max_events_in_storage = 25000, batch_size = 1000\<rparr>"

datatype load_fault =
    InvalidEventSize nat
  | IncompleteEvent nat nat nat
  | TrailingBytes nat nat

datatype storage_fault =
    EventTooLarge nat nat
  | ShardNotConfigured nat
  | ShardLoad nat load_fault
  | FbDecode

datatype database_error =
    NotInitialized
  | InvalidEventId string
  | InvalidPubkey string
  | StorageError storage_fault
  | FilterError string
  | ConcurrencyError string
  | LockError

section \<open>Queries\<close>

record query_filter =
  qf_ids :: "string list option"
  qf_authors :: "string list option"
  qf_kinds :: "u16 list option"
  qf_e_tags :: "string list option"
  qf_E_tags :: "string list option"
  qf_p_tags :: "string list option"
  qf_P_tags :: "string list option"
  qf_a_tags :: "string list option"
  qf_d_tags :: "string list option"
  qf_q_tags :: "string list option"
  qf_since :: "u32 option"
  qf_until :: "u32 option"
  qf_limit :: "nat option"
  qf_search :: "string option"

definition query_filter_new :: query_filter where
  "query_filter_new = \<lparr>qf_ids = None, qf_authors = None, qf_kinds = None, qf_e_tags = None,
     qf_E_tags = None, qf_p_tags = None, qf_P_tags = None, qf_a_tags = None, qf_d_tags = None,
     qf_q_tags = None, qf_since = None, qf_until = None, qf_limit = None, qf_search = None\<rparr>"

text \<open>The elapsed-time field of a result is a clock reading and is left out.\<close>

record query_result =
  qr_events :: "bytes list"
  qr_total_found :: nat
  qr_has_more :: bool

section \<open>Tombstones and indexes\<close>

type_synonym event_key = u32

record tombstones =
  deleted_keys :: "event_key fset"
  pending_ids :: "(string, string \<times> u32) fmap"
  deleted_addresses :: "(string, u32) fmap"

definition tombstones_clear :: tombstones where
  "tombstones_clear = \<lparr>deleted_keys = {||}, pending_ids = fmempty, deleted_addresses = fmempty\<rparr>"

definition tombstones_is_empty :: "tombstones \<Rightarrow> bool" where
  "tombstones_is_empty t \<longleftrightarrow> deleted_keys t = {||} \<and> pending_ids t = fmempty \<and> deleted_addresses t = fmempty"

record event_record =
  er_key :: event_key
  er_offset :: u64
  er_created_at :: u32

record database_indexes =
  events_by_id :: "(string, event_record) fmap"
  events_by_key :: "(event_key, event_record) fmap"
  next_event_key :: event_key
  events_by_kind :: "(u16, event_key fset) fmap"
  events_by_pubkey :: "(string, event_key fset) fmap"
  events_by_e_tag :: "(string, event_key fset) fmap"
  events_by_E_tag :: "(string, event_key fset) fmap"
  events_by_p_tag :: "(string, event_key fset) fmap"
  events_by_P_tag :: "(string, event_key fset) fmap"
  events_by_a_tag :: "(string, event_key fset) fmap"
  events_by_d_tag :: "(string, event_key fset) fmap"
  events_by_q_tag :: "(string, event_key fset) fmap"

definition indexes_new :: database_indexes where
  "indexes_new = \<lparr>events_by_id = fmempty, events_by_key = fmempty, next_event_key = 0,
     events_by_kind = fmempty, events_by_pubkey = fmempty, events_by_e_tag = fmempty,
     events_by_E_tag = fmempty, events_by_p_tag = fmempty, events_by_P_tag = fmempty,
     events_by_a_tag = fmempty, events_by_d_tag = fmempty, events_by_q_tag = fmempty\<rparr>"

definition indexes_clear :: "database_indexes \<Rightarrow> database_indexes" where
  "indexes_clear idx = idx\<lparr>events_by_id := fmempty, events_by_key := fmempty, next_event_key := 0,
     events_by_kind := fmempty, events_by_pubkey := fmempty, events_by_e_tag := fmempty,
     events_by_E_tag := fmempty, events_by_p_tag := fmempty, events_by_P_tag := fmempty,
     events_by_a_tag := fmempty, events_by_d_tag := fmempty, events_by_q_tag := fmempty\<rparr>"

definition event_count :: "database_indexes \<Rightarrow> nat" where
  "event_count idx = fcard (fmdom (events_by_id idx))"

text \<open>\<open>None\<close> is the panic of \<open>expect("event key space exhausted")\<close>.\<close>

definition upsert_event_record ::
  "string \<Rightarrow> u64 \<Rightarrow> u32 \<Rightarrow> database_indexes \<Rightarrow> (database_indexes \<times> event_key) option" where
  "upsert_event_record event_id offset created_at idx =
     (case fmlookup (events_by_id idx) event_id of
        Some record \<Rightarrow>
          let record = record\<lparr>er_offset := offset, er_created_at := created_at\<rparr> in
          Some (idx\<lparr>events_by_id := fmupd event_id record (events_by_id idx),
                    events_by_key := fmupd (er_key record) record (events_by_key idx)\<rparr>,
                er_key record)
      | None \<Rightarrow>
          let key = next_event_key idx in
          if key = - 1 then None
          else let record = \<lparr>er_key = key, er_offset = offset, er_created_at = created_at\<rparr> in
            Some (idx\<lparr>next_event_key := key + 1,
                      events_by_id := fmupd event_id record (events_by_id idx),
                      events_by_key := fmupd key record (events_by_key idx)\<rparr>,
                  key))"

end
