(* ===== verification/Nostr_Event.thy ===== *)
theory Nostr_Event
  imports Db_Types
begin

text \<open>
  The FlatBuffers tables the database reads, after \<open>schemas/*.fbs\<close> as the generated accessors show
  them, and the decoding the index does on stored bytes. The generated reader is a parameter
  (\<open>fb_codec\<close>): its three functions are \<open>flatbuffers::root::<WorkerMessage>\<close>,
  \<open>root::<ParsedEvent>\<close> and \<open>root::<NostrEvent>\<close>, with \<open>None\<close> for a verifier error. A tag is an
  optional vector of strings, as \<open>StringVec::items\<close> gives it.
\<close>

type_synonym fb_tag = "string list option"

record nostr_event =
  ne_id :: string
  ne_pubkey :: string
  ne_kind :: u16
  ne_content :: string
  ne_tags :: "fb_tag list"
  ne_created_at :: i32
  ne_sig :: string

record relay_info =
  ri_url :: string
  ri_read :: bool
  ri_write :: bool

record parsed_event =
  pe_id :: string
  pe_pubkey :: string
  pe_kind :: u16
  pe_created_at :: u32
  pe_kind10002 :: "relay_info list option"
  pe_tags :: "fb_tag list"

datatype wm_content =
    WmParsed "parsed_event option"
  | WmNostr "nostr_event option"
  | WmOther

record fb_codec =
  root_worker_message :: "bytes \<Rightarrow> wm_content option"
  root_parsed_event :: "bytes \<Rightarrow> parsed_event option"
  root_nostr_event :: "bytes \<Rightarrow> nostr_event option"

record fb_request =
  rq_ids :: "string list option"
  rq_authors :: "string list option"
  rq_kinds :: "u16 list option"
  rq_tags :: "fb_tag list option"
  rq_limit :: i32
  rq_since :: i32
  rq_until :: i32
  rq_search :: "string option"
  rq_relays :: "string list option"
  rq_cache_first :: bool
  rq_no_cache :: bool
  rq_max_relays :: u16
  rq_cache_only :: bool
  rq_mesh_only :: bool

text \<open>\<open>created_at().max(0) as u32\<close> on an \<open>i32\<close>.\<close>

definition clamp_i32 :: "i32 \<Rightarrow> u32" where
  "clamp_i32 w = (if sint w < 0 then 0 else w)"

text \<open>The fields both event tables share, which is all the index uses of them.\<close>

record event_fields =
  ef_id :: string
  ef_pubkey :: string
  ef_kind :: u16
  ef_created_at :: u32
  ef_tags :: "fb_tag list"

definition parsed_fields :: "parsed_event \<Rightarrow> event_fields" where
  "parsed_fields p = \<lparr>ef_id = pe_id p, ef_pubkey = pe_pubkey p, ef_kind = pe_kind p,
     ef_created_at = pe_created_at p, ef_tags = pe_tags p\<rparr>"

definition nostr_fields :: "nostr_event \<Rightarrow> event_fields" where
  "nostr_fields n = \<lparr>ef_id = ne_id n, ef_pubkey = ne_pubkey n, ef_kind = ne_kind n,
     ef_created_at = clamp_i32 (ne_created_at n), ef_tags = ne_tags n\<rparr>"

text \<open>
  What the cascade \<open>WorkerMessage\<close>, then \<open>ParsedEvent\<close>, then \<open>NostrEvent\<close> makes of some bytes. The
  cascade appears in \<open>add_worker_message_bytes\<close> and in \<open>build_indexes_from_events\<close>.
\<close>

datatype decoded =
    DecEvent event_fields
  | DecSkip
  | DecFail

definition decode_event :: "fb_codec \<Rightarrow> bytes \<Rightarrow> decoded" where
  "decode_event fb bs =
     (case root_worker_message fb bs of
        Some (WmParsed (Some p)) \<Rightarrow> DecEvent (parsed_fields p)
      | Some (WmNostr (Some n)) \<Rightarrow> DecEvent (nostr_fields n)
      | Some _ \<Rightarrow> DecSkip
      | None \<Rightarrow>
          (case root_parsed_event fb bs of
             Some p \<Rightarrow> DecEvent (parsed_fields p)
           | None \<Rightarrow>
               (case root_nostr_event fb bs of
                  Some n \<Rightarrow> DecEvent (nostr_fields n)
                | None \<Rightarrow> DecFail)))"

definition extract_parsed_event :: "fb_codec \<Rightarrow> bytes \<Rightarrow> parsed_event option" where
  "extract_parsed_event fb bs =
     (case root_worker_message fb bs of
        Some (WmParsed p) \<Rightarrow> p
      | Some _ \<Rightarrow> None
      | None \<Rightarrow> root_parsed_event fb bs)"

definition extract_created_at :: "fb_codec \<Rightarrow> bytes \<Rightarrow> u32 option" where
  "extract_created_at fb bs =
     (case root_worker_message fb bs of
        Some (WmParsed (Some p)) \<Rightarrow> Some (pe_created_at p)
      | Some (WmNostr (Some n)) \<Rightarrow> Some (clamp_i32 (ne_created_at n))
      | Some _ \<Rightarrow> None
      | None \<Rightarrow>
          (case root_parsed_event fb bs of
             Some p \<Rightarrow> Some (pe_created_at p)
           | None \<Rightarrow>
               (case root_nostr_event fb bs of
                  Some n \<Rightarrow> Some (clamp_i32 (ne_created_at n))
                | None \<Rightarrow> None)))"

lemma extract_created_at_decode:
  "extract_created_at fb bs = (case decode_event fb bs of DecEvent f \<Rightarrow> Some (ef_created_at f) | _ \<Rightarrow> None)"
  by (simp add: extract_created_at_def decode_event_def parsed_fields_def nostr_fields_def
      split: option.splits wm_content.splits)

section \<open>Text helpers of the standard library\<close>

text \<open>\<open>str::splitn(3, ':')\<close> and its first three \<open>next()\<close> calls.\<close>

definition split_once :: "string \<Rightarrow> (string \<times> string) option" where
  "split_once s =
     (case dropWhile (\<lambda>c. c \<noteq> CHR '':'') s of
        [] \<Rightarrow> None
      | _ # rest \<Rightarrow> Some (takeWhile (\<lambda>c. c \<noteq> CHR '':'') s, rest))"

definition splitn3 :: "string \<Rightarrow> (string \<times> string \<times> string) option" where
  "splitn3 s =
     (case split_once s of
        None \<Rightarrow> None
      | Some (a, r) \<Rightarrow>
          (case split_once r of None \<Rightarrow> None | Some (b, c) \<Rightarrow> Some (a, b, c)))"

definition is_digit :: "char \<Rightarrow> bool" where
  "is_digit c \<longleftrightarrow> 48 \<le> (of_char c :: nat) \<and> (of_char c :: nat) \<le> 57"

definition digit_value :: "char \<Rightarrow> nat" where
  "digit_value c = of_char c - 48"

definition digits_value :: "string \<Rightarrow> nat" where
  "digits_value s = foldl (\<lambda>n c. 10 * n + digit_value c) 0 s"

text \<open>\<open>str::parse::<u16>\<close>: one optional plus sign, then at least one digit, below \<open>2 ^ 16\<close>.\<close>

definition parse_u16 :: "string \<Rightarrow> u16 option" where
  "parse_u16 s =
     (let ds = (case s of c # r \<Rightarrow> if c = CHR ''+'' then r else s | [] \<Rightarrow> s)
      in if ds \<noteq> [] \<and> list_all is_digit ds \<and> digits_value ds < 2 ^ 16
         then Some (of_nat (digits_value ds)) else None)"

text \<open>\<open>format!("{}", n)\<close> for an unsigned integer.\<close>

fun show_nat :: "nat \<Rightarrow> string" where
  "show_nat n =
     (if n < 10 then [char_of (48 + n)] else show_nat (n div 10) @ [char_of (48 + n mod 10)])"

declare show_nat.simps [simp del]

definition show_u16 :: "u16 \<Rightarrow> string" where
  "show_u16 w = show_nat (unat w)"

text \<open>\<open>format!("{}:{}:{}", kind, author, d)\<close>.\<close>

definition event_address :: "u16 \<Rightarrow> string \<Rightarrow> string \<Rightarrow> string" where
  "event_address kind author d = show_u16 kind @ '':'' @ author @ '':'' @ d"

lemma digit_char:
  assumes "n < 10" shows "is_digit (char_of (48 + n :: nat))" "digit_value (char_of (48 + n :: nat)) = n"
using assms by (simp_all add: is_digit_def digit_value_def)

lemma show_nat_digits: "list_all is_digit (show_nat n) \<and> show_nat n \<noteq> [] \<and> digits_value (show_nat n) = n"
proof (induction n rule: show_nat.induct)
  case (1 n)
  show ?case
  proof (cases "n < 10")
    case True
    then show ?thesis using digit_char [of n]
      by (simp add: show_nat.simps [of n] digits_value_def)
  next
    case False
    have "n mod 10 < 10" by simp
    from digit_char [OF this] False 1 show ?thesis
      by (simp add: show_nat.simps [of n] digits_value_def)
  qed
qed

lemma digit_not_punct: "is_digit c \<Longrightarrow> c \<noteq> CHR '':'' \<and> c \<noteq> CHR ''+''"
  by (auto simp: is_digit_def)

lemma parse_show_u16 [simp]: "parse_u16 (show_u16 k) = Some k"
proof -
  obtain c r where cr: "show_u16 k = c # r" using show_nat_digits by (metis list.exhaust show_u16_def)
  have d: "list_all is_digit (show_u16 k)" "digits_value (show_u16 k) = unat k"
    using show_nat_digits by (simp_all add: show_u16_def)
  then have "c \<noteq> CHR ''+''" using digit_not_punct [of c] cr by simp
  moreover have "unat k < 2 ^ 16" using unsigned_less [of k] by simp
  ultimately show ?thesis using cr d by (simp add: parse_u16_def Let_def)
qed

lemma split_once_append: "CHR '':'' \<notin> set a \<Longrightarrow> split_once (a @ '':'' @ b) = Some (a, b)"
  by (induction a) (auto simp: split_once_def split: list.splits)

lemma splitn3_address:
  assumes "CHR '':'' \<notin> set author"
  shows "splitn3 (event_address kind author d) = Some (show_u16 kind, author, d)"
proof -
  have "CHR '':'' \<notin> set (show_u16 kind)"
    using show_nat_digits [of "unat kind"] digit_not_punct by (auto simp: show_u16_def list_all_iff)
  then show ?thesis
    using split_once_append [of "show_u16 kind" "author @ '':'' @ d"] split_once_append [OF assms, of d]
    by (simp add: splitn3_def event_address_def)
qed

end
