(* ===== verification/Event_Storage.thy ===== *)
theory Event_Storage
  imports Db_Types
begin

text \<open>
  The storage interface of the database, the trait \<open>EventStorage\<close> of \<open>storage/db/types.rs\<close>, as a
  locale. A provider gives the operations and, for the specification, the set of live records, the
  offsets known to be evicted, the records it can accept and its invariant. The client lemmas say
  what an offset that was once handed out can still read after any further run of additions.
\<close>

section \<open>Runs of accepted additions\<close>

text \<open>\<open>storage_run add accepts s h s'\<close>: from \<open>s\<close>, the additions recorded in \<open>h\<close> (offset given, bytes
  stored) were made in this order and led to \<open>s'\<close>.\<close>

inductive storage_run ::
  "('d \<Rightarrow> 's \<Rightarrow> 's \<times> (database_error + u64)) \<Rightarrow> ('d \<Rightarrow> 's \<Rightarrow> bool) \<Rightarrow>
   's \<Rightarrow> (u64 \<times> 'd) list \<Rightarrow> 's \<Rightarrow> bool"
  for add accepts
where
  run_start: "storage_run add accepts s [] s"
| run_add: "storage_run add accepts s h s' \<Longrightarrow> accepts d s' \<Longrightarrow> add d s' = (s'', Ok off) \<Longrightarrow>
    storage_run add accepts s (h @ [(off, d)]) s''"

section \<open>The interface and its client lemmas\<close>

text \<open>
  \<open>add\<close> takes what the provider needs to place a record (the bytes alone, or a kind and the bytes);
  \<open>payload\<close> is the bytes it stores.
\<close>

locale event_storage =
  fixes add :: "'d \<Rightarrow> 's \<Rightarrow> 's \<times> (database_error + u64)"
    and payload :: "'d \<Rightarrow> bytes"
    and get :: "u64 \<Rightarrow> 's \<Rightarrow> database_error + bytes option"
    and contains :: "u64 \<Rightarrow> 's \<Rightarrow> bool"
    and live :: "'s \<Rightarrow> (u64 \<times> bytes) set"
    and gone :: "u64 \<Rightarrow> 's \<Rightarrow> bool"
    and accepts :: "'d \<Rightarrow> 's \<Rightarrow> bool"
    and invar :: "'s \<Rightarrow> bool"
  assumes add_accepts: "invar s \<Longrightarrow> accepts d s \<Longrightarrow>
      \<exists>s' off. add d s = (s', Ok off) \<and> invar s' \<and> (off, payload d) \<in> live s' \<and>
        live s' \<subseteq> insert (off, payload d) (live s) \<and> off \<notin> fst ` live s \<and>
        (\<forall>(o', d') \<in> live s - live s'. gone o' s')"
    and gone_add: "invar s \<Longrightarrow> accepts d s \<Longrightarrow> gone off s \<Longrightarrow> gone off (fst (add d s))"
    and get_live: "invar s \<Longrightarrow> (off, e) \<in> live s \<Longrightarrow> get off s = Ok (Some e)"
    and get_gone: "invar s \<Longrightarrow> gone off s \<Longrightarrow> get off s = Ok None"
    and contains_get: "contains off s \<longleftrightarrow> (\<exists>e. get off s = Ok (Some e))"
begin

lemma run_invar: "storage_run add accepts s h s' \<Longrightarrow> invar s \<Longrightarrow> invar s'"
proof (induction rule: storage_run.induct)
  case (run_add s h s' d s'' off)
  then show ?case using add_accepts [of s' d] by auto
qed simp

text \<open>What was live before a run, or was added during it, is live after it or known to be evicted.\<close>

lemma run_live_or_gone:
  assumes "storage_run add accepts s h s'" "invar s"
    and "(off, e) \<in> live s \<or> (\<exists>d. (off, d) \<in> set h \<and> e = payload d)"
  shows "(off, e) \<in> live s' \<or> gone off s'"
  using assms
proof (induction rule: storage_run.induct)
  case (run_add s h s' d' s'' off')
  have inv: "invar s'" using run_invar run_add by blast
  from add_accepts [OF inv run_add.hyps(2)] run_add.hyps(3)
  have new: "(off', payload d') \<in> live s''" and dropped: "\<forall>(o', e) \<in> live s' - live s''. gone o' s''"
    by auto
  have keep: "gone off s' \<Longrightarrow> gone off s''"
    using gone_add [OF inv run_add.hyps(2)] run_add.hyps(3) by auto
  from run_add.prems(2) consider "(off, e) = (off', payload d')"
    | "(off, e) \<in> live s \<or> (\<exists>d. (off, d) \<in> set h \<and> e = payload d)" by auto
  then show ?case
  proof cases
    case 1
    with new show ?thesis by simp
  next
    case 2
    then have "(off, e) \<in> live s' \<or> gone off s'" using run_add.IH run_add.prems(1) by blast
    then show ?thesis using dropped keep by auto
  qed
qed simp

text \<open>A stored record is read back unchanged or not at all, whatever was added after it.\<close>

lemma run_get:
  assumes "storage_run add accepts s h s'" "invar s" "(off, d) \<in> set h"
  shows "get off s' = Ok (Some (payload d)) \<or> get off s' = Ok None"
  using run_live_or_gone [OF assms(1,2), of off "payload d"] assms get_live get_gone run_invar by blast

lemma run_contains:
  assumes "storage_run add accepts s h s'" "invar s" "(off, d) \<in> set h"
  shows "contains off s' \<longleftrightarrow> get off s' = Ok (Some (payload d))"
  using run_get [OF assms] contains_get by auto

lemma add_get:
  assumes "invar s" "accepts d s" "add d s = (s', Ok off)"
  shows "get off s' = Ok (Some (payload d))"
  using add_accepts [OF assms(1,2)] assms(3) get_live by auto

end

end
