(* ===== verification/Ring_Buffer.thy ===== *)
theory Ring_Buffer
  imports Event_Storage
begin

text \<open>
  The byte ring behind every cache shard, after \<open>storage/db/ring_buffer.rs\<close>. The state is the
  buffer of length-prefixed events and \<open>head_offset\<close>, the number of bytes evicted so far, which
  makes the offsets handed out stable. The theory shows that the scan-and-drain eviction is the
  bounded queue \<open>fifo_fit\<close>, that a live offset always reads back its own bytes, that an evicted
  offset reads nothing, and what a snapshot can be reloaded from.
\<close>

section \<open>State and operations\<close>

record ring_buffer_storage =
  db_name :: string
  buffer_key :: string
  max_buffer_size :: nat
  config :: database_config
  buffer :: bytes
  initialized :: bool
  head_offset :: u64

definition ring_new :: "string \<Rightarrow> string \<Rightarrow> nat \<Rightarrow> database_config \<Rightarrow> ring_buffer_storage" where
  "ring_new name key cap cfg =
     \<lparr>db_name = name, buffer_key = key, max_buffer_size = cap, config = cfg, buffer = [],
      initialized = False, head_offset = 0\<rparr>"

definition ring_initialize ::
  "ring_buffer_storage \<Rightarrow> ring_buffer_storage \<times> (database_error + unit)" where
  "ring_initialize r = (if initialized r then (r, Ok ()) else (r\<lparr>initialized := True\<rparr>, Ok ()))"

text \<open>The eviction scan: \<open>p\<close> runs over whole events from the front until enough bytes are free.\<close>

function evict_scan :: "bytes \<Rightarrow> nat \<Rightarrow> nat \<Rightarrow> nat" where
  "evict_scan b must_free p =
     (if 0 < must_free \<and> p + 4 \<le> length b then
        let total = 4 + read_le32 b p in
        if total > length b - p then length b
        else evict_scan b (if must_free \<ge> total then must_free - total else 0) (p + total)
      else p)"
  by pat_completeness auto
termination
  by (relation "measure (\<lambda>(b, m, p). length b - p)") auto

declare evict_scan.simps [simp del]

definition evict_to_fit :: "nat \<Rightarrow> ring_buffer_storage \<Rightarrow> ring_buffer_storage" where
  "evict_to_fit needed r =
     (let cur_len = length (buffer r) in
      if cur_len + needed \<le> max_buffer_size r then r
      else let p = evict_scan (buffer r) (cur_len + needed - max_buffer_size r) 0 in
        if 0 < p
        then r\<lparr>buffer := drop p (buffer r), head_offset := head_offset r + of_nat p\<rparr>
        else r)"

definition add_event ::
  "bytes \<Rightarrow> ring_buffer_storage \<Rightarrow> ring_buffer_storage \<times> (database_error + u64)" where
  "add_event event_data r =
     (let event_size = length event_data; total_size = 4 + event_size in
      if total_size > max_buffer_size r
      then (r, Err (StorageError (EventTooLarge total_size (max_buffer_size r))))
      else let r1 = evict_to_fit total_size r;
               new_event_offset = head_offset r1 + of_nat (length (buffer r1)) in
        (r1\<lparr>buffer := buffer r1 @ u32_to_le_bytes (of_nat event_size) @ event_data\<rparr>,
         Ok new_event_offset))"

definition get_event_at_offset ::
  "u64 \<Rightarrow> ring_buffer_storage \<Rightarrow> database_error + bytes option" where
  "get_event_at_offset offset r =
     (if \<not> initialized r then Err NotInitialized
      else if offset < head_offset r then Ok None
      else let rel = unat (offset - head_offset r) in
        if rel + 4 > length (buffer r) then Ok None
        else let size = read_le32 (buffer r) rel in
          if size = 0 then Ok None
          else let data_start = rel + 4; data_end = data_start + size in
            if data_end > length (buffer r) then Ok None
            else Ok (Some (subslice (buffer r) data_start data_end)))"

definition contains_offset :: "u64 \<Rightarrow> ring_buffer_storage \<Rightarrow> bool" where
  "contains_offset offset r =
     (if \<not> initialized r then False
      else if offset < head_offset r then False
      else let rel = unat (offset - head_offset r) in
        if rel + 4 > length (buffer r) then False
        else let size = read_le32 (buffer r) rel in
          if size = 0 then False else rel + 4 + size \<le> length (buffer r))"

definition remove_first_event :: "ring_buffer_storage \<Rightarrow> ring_buffer_storage \<times> bool" where
  "remove_first_event r =
     (if length (buffer r) < 4 then (r, False)
      else let total_size = 4 + read_le32 (buffer r) 0 in
        if total_size > length (buffer r) then (r\<lparr>buffer := []\<rparr>, False)
        else (r\<lparr>buffer := drop total_size (buffer r),
               head_offset := head_offset r + of_nat total_size\<rparr>, True))"

function extract_scan :: "bytes \<Rightarrow> u64 \<Rightarrow> nat \<Rightarrow> u64 list" where
  "extract_scan b head p =
     (if p + 4 \<le> length b then
        let size = read_le32 b p in
        if size = 0 \<or> p + 4 + size > length b then []
        else (head + of_nat p) # extract_scan b head (p + 4 + size)
      else [])"
  by pat_completeness auto
termination
  by (relation "measure (\<lambda>(b, h, p). length b - p)") auto

declare extract_scan.simps [simp del]

definition extract_events_from_buffer :: "ring_buffer_storage \<Rightarrow> u64 list" where
  "extract_events_from_buffer r = extract_scan (buffer r) (head_offset r) 0"

definition ring_load_events :: "ring_buffer_storage \<Rightarrow> database_error + u64 list" where
  "ring_load_events r = Ok (extract_events_from_buffer r)"

definition save_to_bytes :: "ring_buffer_storage \<Rightarrow> bytes" where
  "save_to_bytes r = buffer r"

text \<open>The validation loop of \<open>load_from_bytes\<close>: the position after the last whole event, or a fault.\<close>

function load_scan :: "bytes \<Rightarrow> nat \<Rightarrow> load_fault + nat" where
  "load_scan b p =
     (if p + 4 \<le> length b then
        let size = read_le32 b p in
        if size = 0 then Err (InvalidEventSize p)
        else if p + 4 + size > length b then Err (IncompleteEvent p (4 + size) (length b - p))
        else load_scan b (p + 4 + size)
      else Ok p)"
  by pat_completeness auto
termination
  by (relation "measure (\<lambda>(b, p). length b - p)") auto

declare load_scan.simps [simp del]

definition load_from_bytes ::
  "bytes \<Rightarrow> ring_buffer_storage \<Rightarrow> ring_buffer_storage \<times> (load_fault + unit)" where
  "load_from_bytes bs r =
     (case load_scan bs 0 of
        Err e \<Rightarrow> (r, Err e)
      | Ok p \<Rightarrow>
          if p \<noteq> length bs then (r, Err (TrailingBytes p (length bs - p)))
          else (r\<lparr>buffer := bs, head_offset := 0\<rparr>, Ok ()))"

definition clear_storage ::
  "ring_buffer_storage \<Rightarrow> ring_buffer_storage \<times> (database_error + unit)" where
  "clear_storage r = (r\<lparr>buffer := [], head_offset := 0\<rparr>, Ok ())"

section \<open>The bounded queue the ring implements\<close>

fun fifo_fit :: "nat \<Rightarrow> bytes list \<Rightarrow> bytes list" where
  "fifo_fit room [] = []"
| "fifo_fit room (e # es) = (if length (lp_stream (e # es)) \<le> room then e # es else fifo_fit room es)"

definition ring_holds :: "ring_buffer_storage \<Rightarrow> bytes list \<Rightarrow> bool" where
  "ring_holds r es \<longleftrightarrow> buffer r = lp_stream es \<and> (\<forall>e \<in> set es. fits_u32 e)"

lemma fifo_fit_suffix: "\<exists>k. k \<le> length es \<and> fifo_fit room es = drop k es"
proof (induction es)
  case (Cons e es)
  then obtain k where "k \<le> length es" "fifo_fit room es = drop k es" by blast
  then have "Suc k \<le> length (e # es)" "fifo_fit room es = drop (Suc k) (e # es)" by auto
  moreover have "0 \<le> length (e # es)" "e # es = drop 0 (e # es)" by auto
  ultimately show ?case unfolding fifo_fit.simps by (metis (full_types))
qed simp

lemma fifo_fit_length: "length (lp_stream (fifo_fit room es)) \<le> room"
  by (induction es) auto

lemma fifo_fit_all: "length (lp_stream es) \<le> room \<Longrightarrow> fifo_fit room es = es"
  by (cases es) auto

lemma fifo_fit_longest:
  assumes "length (lp_stream (drop j es)) \<le> room"
  shows "length (drop j es) \<le> length (fifo_fit room es)"
  using assms
proof (induction es arbitrary: j)
  case (Cons e es)
  then show ?case by (cases j) auto
qed simp

lemma fifo_fit_le: "length (lp_stream (fifo_fit room es)) \<le> length (lp_stream es)"
  by (induction es) auto

lemma evict_scan_stream:
  assumes "\<forall>e \<in> set ys. fits_u32 e"
  shows "evict_scan (lp_stream (xs @ ys)) m (length (lp_stream xs)) =
    length (lp_stream xs) +
    (length (lp_stream ys) - length (lp_stream (fifo_fit (length (lp_stream ys) - m) ys)))"
  using assms
proof (induction ys arbitrary: xs m)
  case Nil
  then show ?case by (subst evict_scan.simps) simp
next
  case (Cons e ys)
  let ?b = "lp_stream (xs @ e # ys)" and ?p = "length (lp_stream xs)" and ?n = "4 + length e"
  let ?room = "length (lp_stream (e # ys)) - m"
  have rd: "read_le32 ?b ?p = length e"
    using Cons.prems by (simp add: frame_simps)
  show ?case
  proof (cases "m = 0")
    case True
    then show ?thesis by (subst evict_scan.simps) simp
  next
    case False
    then have "evict_scan ?b m ?p = evict_scan ?b (m - ?n) (?p + ?n)"
      by (subst evict_scan.simps) (simp add: Let_def rd [unfolded lp_stream_append lp_stream_Cons])
    also have "\<dots> = evict_scan (lp_stream ((xs @ [e]) @ ys)) (m - ?n) (length (lp_stream (xs @ [e])))"
      by (simp add: add.assoc)
    also have "\<dots> = ?p + ?n + (length (lp_stream ys) -
        length (lp_stream (fifo_fit (length (lp_stream ys) - (m - ?n)) ys)))"
      using Cons.IH [of "xs @ [e]" "m - ?n"] Cons.prems by simp
    also have "fifo_fit (length (lp_stream ys) - (m - ?n)) ys = fifo_fit ?room (e # ys)"
      using False by (cases "m \<ge> ?n") (auto simp: fifo_fit_all ac_simps)
    also have whole: "fifo_fit ?room (e # ys) = fifo_fit ?room ys"
      using False by (subst fifo_fit.simps, subst if_not_P) (auto simp del: fifo_fit.simps)
    finally show ?thesis
      unfolding whole using fifo_fit_le [of ?room ys] by simp
  qed
qed

lemma ring_holds_drop:
  "buffer r = lp_stream es \<Longrightarrow> k \<le> length es \<Longrightarrow>
   drop (length (buffer r) - length (lp_stream (drop k es))) (buffer r) = lp_stream (drop k es)"
  by (metis (no_types, lifting) add_diff_cancel_right' append_eq_conv_conj append_take_drop_id length_append lp_stream_append)

lemma evict_to_fit_holds:
  assumes h: "ring_holds r es" and cap: "needed \<le> max_buffer_size r"
  defines "kept \<equiv> fifo_fit (max_buffer_size r - needed) es"
  shows "evict_to_fit needed r = r\<lparr>buffer := lp_stream kept,
      head_offset := head_offset r + of_nat (length (buffer r) - length (lp_stream kept))\<rparr>"
proof -
  let ?room = "max_buffer_size r - needed"
  have b: "buffer r = lp_stream es" and f: "\<forall>e \<in> set es. fits_u32 e"
    using h by (auto simp: ring_holds_def)
  show ?thesis
  proof (cases "length (buffer r) + needed \<le> max_buffer_size r")
    case True
    then have "kept = es" unfolding kept_def using b by (intro fifo_fit_all) simp
    with True b show ?thesis by (simp add: evict_to_fit_def)
  next
    case False
    have room: "length (buffer r) - (length (buffer r) + needed - max_buffer_size r) = ?room"
      using False cap by simp
    have p: "evict_scan (buffer r) (length (buffer r) + needed - max_buffer_size r) 0 =
        length (buffer r) - length (lp_stream kept)"
      using evict_scan_stream [OF f, of "[]" "length (buffer r) + needed - max_buffer_size r"]
      by (simp add: room [unfolded b] b kept_def)
    have "length (lp_stream kept) \<le> ?room" unfolding kept_def by (rule fifo_fit_length)
    then have pos: "0 < length (buffer r) - length (lp_stream kept)" using False cap by linarith
    obtain k where "k \<le> length es" "kept = drop k es"
      using fifo_fit_suffix [of es ?room] unfolding kept_def by blast
    then have "drop (length (buffer r) - length (lp_stream kept)) (buffer r) = lp_stream kept"
      using ring_holds_drop b by blast
    with False p pos show ?thesis by (simp add: evict_to_fit_def Let_def)
  qed
qed

theorem add_event_refines_fifo:
  assumes h: "ring_holds r es" and "4 + length d \<le> max_buffer_size r" and "fits_u32 d"
  defines "kept \<equiv> fifo_fit (max_buffer_size r - (4 + length d)) es"
  shows "ring_holds (fst (add_event d r)) (kept @ [d])"
    and "length (buffer (fst (add_event d r))) \<le> max_buffer_size r"
    and "head_offset (fst (add_event d r)) =
        head_offset r + of_nat (length (buffer r) - length (lp_stream kept))"
    and "snd (add_event d r) =
        Ok (head_offset (fst (add_event d r)) + of_nat (length (lp_stream kept)))"
proof -
  obtain k where k: "k \<le> length es" "kept = drop k es"
    using fifo_fit_suffix unfolding kept_def by blast
  have ev: "evict_to_fit (4 + length d) r = r\<lparr>buffer := lp_stream kept,
      head_offset := head_offset r + of_nat (length (buffer r) - length (lp_stream kept))\<rparr>"
    unfolding kept_def using assms by (intro evict_to_fit_holds) auto
  have add: "add_event d r = (r\<lparr>buffer := lp_stream kept @ u32_to_le_bytes (of_nat (length d)) @ d,
      head_offset := head_offset r + of_nat (length (buffer r) - length (lp_stream kept))\<rparr>,
      Ok (head_offset r + of_nat (length (buffer r) - length (lp_stream kept)) + of_nat (length (lp_stream kept))))"
    using assms(2) by (simp add: add_event_def Let_def ev)
  have "set kept \<subseteq> set es" using k set_drop_subset by metis
  then show "ring_holds (fst (add_event d r)) (kept @ [d])"
    using h assms(3) by (auto simp: add ring_holds_def lp_record_def)
  show "length (buffer (fst (add_event d r))) \<le> max_buffer_size r"
    using assms(2) fifo_fit_length [of "max_buffer_size r - (4 + length d)" es]
    by (simp add: add kept_def [symmetric])
  show "head_offset (fst (add_event d r)) =
        head_offset r + of_nat (length (buffer r) - length (lp_stream kept))"
    and "snd (add_event d r) =
        Ok (head_offset (fst (add_event d r)) + of_nat (length (lp_stream kept)))"
    by (simp_all add: add)
qed

lemma u64_offset_le:
  fixes h :: u64
  assumes "unat h + n < 2 ^ 64"
  shows "\<not> h + of_nat n < h" and "unat (h + of_nat n - h) = n" and "unat (h + of_nat n) = unat h + n"
proof -
  have n: "unat (of_nat n :: u64) = n" using assms by (simp add: unat_of_nat)
  show u: "unat (h + of_nat n) = unat h + n"
    using unat_add_lem [of h "of_nat n"] assms n by simp
  show "\<not> h + of_nat n < h" by (simp add: word_less_nat_alt u)
  show "unat (h + of_nat n - h) = n" using n by simp
qed

lemma get_event_holds:
  assumes "initialized r" "ring_holds r (xs @ e # ys)" "unat (head_offset r) + length (buffer r) < 2 ^ 64"
  shows "get_event_at_offset (head_offset r + of_nat (length (lp_stream xs))) r =
    Ok (if e = [] then None else Some e)"
proof -
  let ?n = "length (lp_stream xs)"
  have b: "buffer r = lp_stream xs @ lp_record e @ lp_stream ys" and f: "fits_u32 e"
    using assms(2) by (auto simp: ring_holds_def)
  have "unat (head_offset r) + ?n < 2 ^ 64" using assms(3) b by simp
  note off = u64_offset_le [OF this]
  have rd: "read_le32 (buffer r) ?n = length e"
    unfolding b using f by (rule read_le32_record) simp
  have sl: "subslice (buffer r) (?n + 4) (?n + 4 + length e) = e"
    unfolding b by (rule subslice_record) simp
  show ?thesis
    using assms(1) off sl by (simp add: get_event_at_offset_def Let_def rd) (simp add: b)
qed

lemma contains_offset_iff_get:
  "contains_offset off r \<longleftrightarrow> (\<exists>d. get_event_at_offset off r = Ok (Some d))"
  by (auto simp: contains_offset_def get_event_at_offset_def Let_def)

lemma get_event_evicted:
  "initialized r \<Longrightarrow> off < head_offset r \<Longrightarrow> get_event_at_offset off r = Ok None"
  by (simp add: get_event_at_offset_def)

section \<open>Live and evicted offsets\<close>

fun live_at :: "u64 \<Rightarrow> bytes list \<Rightarrow> (u64 \<times> bytes) list" where
  "live_at h [] = []"
| "live_at h (e # es) = (h, e) # live_at (h + of_nat (4 + length e)) es"

definition ring_live :: "ring_buffer_storage \<Rightarrow> (u64 \<times> bytes) set" where
  "ring_live r = set (live_at (head_offset r) (lp_parse (buffer r)))"

definition ring_tail :: "ring_buffer_storage \<Rightarrow> nat" where
  "ring_tail r = unat (head_offset r) + length (buffer r)"

definition ring_ok :: "ring_buffer_storage \<Rightarrow> bool" where
  "ring_ok r \<longleftrightarrow> initialized r \<and> max_buffer_size r < 2 ^ 32 \<and> ring_tail r < 2 ^ 64 \<and>
     (\<exists>es. ring_holds r es \<and> [] \<notin> set es)"

lemma live_at_append:
  "live_at h (xs @ ys) = live_at h xs @ live_at (h + of_nat (length (lp_stream xs))) ys"
  by (induction xs arbitrary: h) (simp_all add: algebra_simps)

lemma live_at_split:
  "(off, e) \<in> set (live_at h es) \<longleftrightarrow>
   (\<exists>xs ys. es = xs @ e # ys \<and> off = h + of_nat (length (lp_stream xs)))" (is "?l = ?r")
proof
  show "?l \<Longrightarrow> ?r"
  proof (induction es arbitrary: h)
    case (Cons x es)
    from Cons.prems consider "off = h" "e = x" | "(off, e) \<in> set (live_at (h + of_nat (4 + length x)) es)"
      by auto
    then show ?case
    proof cases
      case 1
      then have "x # es = [] @ e # es \<and> off = h + of_nat (length (lp_stream []))" by simp
      then show ?thesis by blast
    next
      case 2
      from Cons.IH [OF this] obtain xs ys where "es = xs @ e # ys"
        "off = h + of_nat (4 + length x) + of_nat (length (lp_stream xs))" by blast
      then have "x # es = (x # xs) @ e # ys \<and> off = h + of_nat (length (lp_stream (x # xs)))"
        by (simp add: algebra_simps)
      then show ?thesis by blast
    qed
  qed simp
qed (auto simp: live_at_append)

lemma ring_holds_live: "ring_holds r es \<Longrightarrow> ring_live r = set (live_at (head_offset r) es)"
  by (simp add: ring_holds_def ring_live_def lp_parse_stream)

lemma live_at_bounds:
  assumes "(off, e) \<in> set (live_at h es)" "unat h + length (lp_stream es) < 2 ^ 64"
  shows "unat h \<le> unat off" "unat off + 4 + length e \<le> unat h + length (lp_stream es)"
proof -
  from assms(1) obtain xs ys where es: "es = xs @ e # ys" and off: "off = h + of_nat (length (lp_stream xs))"
    by (auto simp: live_at_split)
  have "unat h + length (lp_stream xs) < 2 ^ 64" using assms(2) es by simp
  then have "unat off = unat h + length (lp_stream xs)" unfolding off by (rule u64_offset_le)
  with es show "unat h \<le> unat off" "unat off + 4 + length e \<le> unat h + length (lp_stream es)" by auto
qed

lemma ring_get_live:
  assumes "ring_ok r" "(off, d) \<in> ring_live r"
  shows "get_event_at_offset off r = Ok (Some d)"
proof -
  obtain es where es: "ring_holds r es" "[] \<notin> set es" using assms by (auto simp: ring_ok_def)
  with assms(2) obtain xs ys where s: "es = xs @ d # ys"
    and off: "off = head_offset r + of_nat (length (lp_stream xs))"
    by (auto simp: ring_holds_live live_at_split)
  have "d \<noteq> []" using es s by auto
  then show ?thesis
    using get_event_holds [of r xs d ys] assms(1) es(1) s off by (auto simp: ring_ok_def ring_tail_def)
qed

lemma ring_live_functional:
  "ring_ok r \<Longrightarrow> (off, d) \<in> ring_live r \<Longrightarrow> (off, d') \<in> ring_live r \<Longrightarrow> d = d'"
  by (metis Inr_inject option.inject ring_get_live)

lemma ring_live_below_tail:
  assumes "ring_ok r" "(off, d) \<in> ring_live r"
  shows "unat off < ring_tail r"
proof -
  obtain es where es: "ring_holds r es" using assms by (auto simp: ring_ok_def)
  then have "(off, d) \<in> set (live_at (head_offset r) es)" using assms by (simp add: ring_holds_live)
  moreover have "unat (head_offset r) + length (lp_stream es) = ring_tail r"
    using es by (simp add: ring_tail_def ring_holds_def)
  ultimately show ?thesis
    using live_at_bounds(2) [of off d "head_offset r" es] assms(1) by (simp add: ring_ok_def)
qed

text \<open>One accepted event: what stays, what goes and which offset it gets.\<close>

lemma ring_add:
  assumes ok: "ring_ok r" and d: "d \<noteq> []" "4 + length d \<le> max_buffer_size r"
    and room: "ring_tail r + 4 + length d < 2 ^ 64"
  shows "\<exists>r' off. add_event d r = (r', Ok off) \<and> ring_ok r' \<and> ring_tail r' = ring_tail r + 4 + length d
    \<and> unat off = ring_tail r \<and> (off, d) \<in> ring_live r' \<and> ring_live r' \<subseteq> insert (off, d) (ring_live r)
    \<and> (\<forall>(o', d') \<in> ring_live r - ring_live r'. o' < head_offset r') \<and> head_offset r \<le> head_offset r'
    \<and> max_buffer_size r' = max_buffer_size r"
proof -
  obtain es where es: "ring_holds r es" "[] \<notin> set es" using ok by (auto simp: ring_ok_def)
  define kept where "kept = fifo_fit (max_buffer_size r - (4 + length d)) es"
  obtain k where k: "kept = drop k es" using fifo_fit_suffix unfolding kept_def by blast
  define gone where "gone = take k es"
  have split: "es = gone @ kept" by (simp add: gone_def k)
  have b: "buffer r = lp_stream gone @ lp_stream kept" using es(1) split by (simp add: ring_holds_def)
  have fits: "fits_u32 d" using d ok by (simp add: ring_ok_def)
  obtain r' res where add: "add_event d r = (r', res)" by fastforce
  note ref = add_event_refines_fifo [OF es(1) d(2) fits, folded kept_def, unfolded add, simplified]
  let ?g = "length (lp_stream gone)" and ?n = "length (lp_stream kept)"
  have tl: "unat (head_offset r) + ?g + ?n + 4 + length d < 2 ^ 64"
    using room b by (simp add: ring_tail_def)
  have head: "head_offset r' = head_offset r + of_nat ?g" using ref(3) b by simp
  then have uhead: "unat (head_offset r') = unat (head_offset r) + ?g"
    using u64_offset_le(3) [of "head_offset r" ?g] tl by simp
  have uoff: "unat (head_offset r' + of_nat ?n) = unat (head_offset r') + ?n"
    using u64_offset_le(3) [of "head_offset r'" ?n] tl uhead by simp
  have buf: "buffer r' = lp_stream kept @ lp_record d" using ref(1) by (simp add: ring_holds_def)
  have fields: "initialized r' = initialized r" "max_buffer_size r' = max_buffer_size r"
    using add unfolding add_event_def evict_to_fit_def by (auto simp: Let_def split: if_splits)
  have tail: "ring_tail r' = ring_tail r + 4 + length d"
    using b by (simp add: ring_tail_def buf uhead)
  have ok': "ring_ok r'"
    unfolding ring_ok_def using ok fields tail room ref(1) es(2) d(1)
    by (auto simp: ring_ok_def split intro!: exI [of _ "kept @ [d]"])
  have live: "ring_live r = set (live_at (head_offset r) gone) \<union> set (live_at (head_offset r') kept)"
    using es(1) by (simp add: ring_holds_live split live_at_append head)
  have live': "ring_live r' = insert (head_offset r' + of_nat ?n, d) (set (live_at (head_offset r') kept))"
    using ref(1) by (simp add: ring_holds_live live_at_append)
  have gone_below: "o' < head_offset r'" if "(o', d') \<in> set (live_at (head_offset r) gone)" for o' d'
    using live_at_bounds(2) [OF that] tl by (simp add: word_less_nat_alt uhead)
  have "unat (head_offset r' + of_nat ?n) = ring_tail r" using uoff uhead b by (simp add: ring_tail_def)
  moreover have "head_offset r \<le> head_offset r'" by (simp add: word_le_nat_alt uhead)
  ultimately show ?thesis
    using add ref(4) ok' tail live live' gone_below fields by auto
qed

section \<open>The ring as an event storage\<close>

definition ring_accepts :: "bytes \<Rightarrow> ring_buffer_storage \<Rightarrow> bool" where
  "ring_accepts d r \<longleftrightarrow> d \<noteq> [] \<and> 4 + length d \<le> max_buffer_size r \<and> ring_tail r + 4 + length d < 2 ^ 64"

definition ring_gone :: "u64 \<Rightarrow> ring_buffer_storage \<Rightarrow> bool" where
  "ring_gone off r \<longleftrightarrow> off < head_offset r"

interpretation ring: event_storage add_event "\<lambda>d. d" get_event_at_offset contains_offset ring_live ring_gone
  ring_accepts ring_ok
proof unfold_locales
  fix s d assume a: "ring_ok s" "ring_accepts d s"
  then obtain s' off where add: "add_event d s = (s', Ok off)" "ring_ok s'" "unat off = ring_tail s"
    "(off, d) \<in> ring_live s'" "ring_live s' \<subseteq> insert (off, d) (ring_live s)"
    "\<forall>(o', d') \<in> ring_live s - ring_live s'. o' < head_offset s'" "head_offset s \<le> head_offset s'"
    using ring_add [of s d] unfolding ring_accepts_def by blast
  moreover have "off \<notin> fst ` ring_live s"
    using ring_live_below_tail [OF a(1)] add(3) by fastforce
  ultimately show "\<exists>s' off. add_event d s = (s', Ok off) \<and> ring_ok s' \<and> (off, d) \<in> ring_live s' \<and>
      ring_live s' \<subseteq> insert (off, d) (ring_live s) \<and> off \<notin> fst ` ring_live s \<and>
      (\<forall>(o', d') \<in> ring_live s - ring_live s'. ring_gone o' s')"
    by (auto simp: ring_gone_def)
  show "ring_gone o' (fst (add_event d s))" if "ring_gone o' s" for o'
    using that add(1,7) by (simp add: ring_gone_def)
qed (auto simp: ring_get_live contains_offset_iff_get ring_gone_def get_event_evicted ring_ok_def)

section \<open>Snapshots\<close>

lemma extract_scan_stream:
  assumes "\<forall>e \<in> set ys. fits_u32 e \<and> e \<noteq> []"
  shows "extract_scan (lp_stream (xs @ ys)) h (length (lp_stream xs)) =
    map fst (live_at (h + of_nat (length (lp_stream xs))) ys)"
  using assms
proof (induction ys arbitrary: xs)
  case Nil
  then show ?case by (subst extract_scan.simps) simp
next
  case (Cons e ys)
  let ?p = "length (lp_stream xs)"
  have rd: "read_le32 (lp_stream xs @ lp_record e @ lp_stream ys) ?p = length e"
    using Cons.prems by (simp add: frame_simps)
  have "extract_scan (lp_stream (xs @ e # ys)) h ?p =
      (h + of_nat ?p) # extract_scan (lp_stream ((xs @ [e]) @ ys)) h (length (lp_stream (xs @ [e])))"
    using Cons.prems by (subst extract_scan.simps) (simp add: Let_def rd add.assoc)
  also have "\<dots> = (h + of_nat ?p) # map fst (live_at (h + of_nat (length (lp_stream (xs @ [e])))) ys)"
    using Cons.IH [of "xs @ [e]"] Cons.prems by simp
  finally show ?case by (simp add: algebra_simps)
qed

lemma ring_load_events_live:
  assumes "ring_ok r"
  shows "\<exists>offs. ring_load_events r = Ok offs \<and> set offs = fst ` ring_live r"
proof -
  obtain es where es: "ring_holds r es" "[] \<notin> set es" using assms by (auto simp: ring_ok_def)
  then have "\<forall>e \<in> set es. fits_u32 e \<and> e \<noteq> []" by (auto simp: ring_holds_def)
  from extract_scan_stream [OF this, of "[]" "head_offset r"] es show ?thesis
    by (simp add: ring_load_events_def extract_events_from_buffer_def ring_holds_live)
      (simp add: ring_holds_def)
qed

lemma load_scan_stream:
  assumes "\<forall>e \<in> set ys. fits_u32 e \<and> e \<noteq> []"
  shows "load_scan (lp_stream (xs @ ys)) (length (lp_stream xs)) = Ok (length (lp_stream (xs @ ys)))"
  using assms
proof (induction ys arbitrary: xs)
  case Nil
  then show ?case by (subst load_scan.simps) simp
next
  case (Cons e ys)
  have rd: "read_le32 (lp_stream xs @ lp_record e @ lp_stream ys) (length (lp_stream xs)) = length e"
    using Cons.prems by (simp add: frame_simps)
  have "load_scan (lp_stream (xs @ e # ys)) (length (lp_stream xs)) =
      load_scan (lp_stream ((xs @ [e]) @ ys)) (length (lp_stream (xs @ [e])))"
    using Cons.prems by (subst load_scan.simps) (simp add: Let_def rd add.assoc)
  then show ?case using Cons.IH [of "xs @ [e]"] Cons.prems by simp
qed

lemma load_scan_sound:
  "load_scan b p = Ok q \<Longrightarrow> p \<le> length b \<Longrightarrow>
   \<exists>es. drop p b = lp_stream es @ drop q b \<and> q \<le> length b \<and> (\<forall>e \<in> set es. fits_u32 e \<and> e \<noteq> [])"
proof (induction b p rule: load_scan.induct)
  case (1 b p)
  let ?n = "read_le32 b p"
  show ?case
  proof (cases "p + 4 \<le> length b")
    case False
    then show ?thesis using 1 by (auto simp: load_scan.simps [of b p] intro!: exI [of _ "[]"])
  next
    case True
    then have n: "?n \<noteq> 0" "p + 4 + ?n \<le> length b" and q: "load_scan b (p + 4 + ?n) = Ok q"
      using 1(2) by (auto simp: load_scan.simps [of b p] Let_def split: if_splits)
    let ?e = "subslice b (p + 4) (p + 4 + ?n)"
    obtain es where es: "drop (p + 4 + ?n) b = lp_stream es @ drop q b" "q \<le> length b"
        "\<forall>e \<in> set es. fits_u32 e \<and> e \<noteq> []"
      using 1(1) [OF True refl] n q by auto
    have len: "length ?e = ?n" using n by simp
    then have "fits_u32 ?e \<and> ?e \<noteq> []" using n(1) read_le32_bound [of b p] by auto
    then show ?thesis
      using split_record [OF n(2)] es by (intro exI [of _ "?e # es"]) auto
  qed
qed

section \<open>Properties\<close>

text \<open>C1. Adding an event is first-in-first-out eviction by bytes: the ring drops the least number
  \<open>k\<close> of oldest events whose removal makes the new record fit the capacity, appends the new one,
  advances the head by exactly the bytes of the dropped records, and returns the offset at which
  the new record starts.\<close>
theorem ring_add_event_fifo:
  assumes "ring_holds r es" and "4 + length d \<le> max_buffer_size r" and "fits_u32 d"
  shows "\<exists>k \<le> length es. ring_holds (fst (add_event d r)) (drop k es @ [d])
    \<and> length (lp_stream (drop k es @ [d])) \<le> max_buffer_size r
    \<and> (\<forall>j < k. max_buffer_size r < length (lp_stream (drop j es @ [d])))
    \<and> head_offset (fst (add_event d r)) = head_offset r + of_nat (length (lp_stream (take k es)))
    \<and> snd (add_event d r) = Ok (head_offset (fst (add_event d r)) + of_nat (length (lp_stream (drop k es))))"
proof -
  let ?room = "max_buffer_size r - (4 + length d)"
  obtain k where k: "k \<le> length es" "fifo_fit ?room es = drop k es" using fifo_fit_suffix by blast
  note ref = add_event_refines_fifo [OF assms, unfolded k(2)]
  have "length (lp_stream (drop k es @ [d])) \<le> max_buffer_size r"
    using ref(1,2) by (simp add: ring_holds_def)
  moreover have "max_buffer_size r < length (lp_stream (drop j es @ [d]))" if "j < k" for j
  proof -
    have "\<not> length (drop j es) \<le> length (fifo_fit ?room es)" using that k by simp
    then have "?room < length (lp_stream (drop j es))" using fifo_fit_longest leI by blast
    then show ?thesis using assms(2) by simp
  qed
  moreover have "length (buffer r) - length (lp_stream (drop k es)) = length (lp_stream (take k es))"
    using assms(1) lp_stream_append [of "take k es" "drop k es"] by (simp add: ring_holds_def)
  ultimately show ?thesis using k(1) ref by auto
qed

definition example_ring :: ring_buffer_storage where
  "example_ring = (ring_new ''db'' ''rb:test'' 20 default_config)\<lparr>initialized := True,
     buffer := lp_stream [[1, 2], [3, 4, 5]]\<rparr>"

lemma example_ring_holds: "ring_holds example_ring [[1, 2], [3, 4, 5]]"
  by (simp add: ring_holds_def example_ring_def)

theorem ring_add_event_fifo_witness:
  "\<exists>k \<le> length [[1, 2], [3, 4, 5 :: u8]].
    ring_holds (fst (add_event [6, 7, 8, 9] example_ring)) (drop k [[1, 2], [3, 4, 5]] @ [[6, 7, 8, 9]])
    \<and> length (lp_stream (drop k [[1, 2], [3, 4, 5]] @ [[6, 7, 8, 9]])) \<le> 20
    \<and> (\<forall>j < k. 20 < length (lp_stream (drop j [[1, 2], [3, 4, 5]] @ [[6, 7, 8, 9]])))"
proof -
  have cap: "max_buffer_size example_ring = 20" by (simp add: example_ring_def ring_new_def)
  have "4 + length [6, 7, 8, 9 :: u8] \<le> max_buffer_size example_ring" "fits_u32 [6, 7, 8, 9]"
    by (simp_all add: cap)
  from ring_add_event_fifo [OF example_ring_holds this] show ?thesis unfolding cap by blast
qed

text \<open>Offsets are stable: after any run of accepted additions, an offset handed out during the
  run reads back exactly the bytes stored under it, or nothing once they are evicted; it never reads
  other bytes, and \<open>contains_offset\<close> is true exactly when the bytes are still there.\<close>
theorem ring_offsets_stable:
  assumes "ring_ok r" and "storage_run add_event ring_accepts r h r'" and "(off, d) \<in> set h"
  shows "(get_event_at_offset off r' = Ok (Some d) \<or> get_event_at_offset off r' = Ok None)
    \<and> (contains_offset off r' \<longleftrightarrow> get_event_at_offset off r' = Ok (Some d))"
  using ring.run_get [OF assms(2,1,3)] ring.run_contains [OF assms(2,1,3)] by blast

lemma example_ring_ok: "ring_ok example_ring"
  using example_ring_holds unfolding ring_ok_def
  by (auto simp: example_ring_def ring_new_def ring_tail_def)

lemma example_ring_scan: "evict_scan (lp_stream [[1, 2], [3, 4, 5]]) 1 0 = 6"
proof -
  have "evict_scan [2, 0, 0, 0, 1, 2, 3, 0, 0, 0, 3, 4, 5] 1 0 = 6"
    by (simp add: evict_scan.simps codec_eval)
  then show ?thesis by (simp add: codec_eval)
qed

lemma example_ring_run:
  "storage_run add_event ring_accepts example_ring [(13, [6, 7, 8, 9])] (fst (add_event [6, 7, 8, 9] example_ring))"
proof -
  have acc: "ring_accepts [6, 7, 8, 9] example_ring"
    by (simp add: ring_accepts_def example_ring_def ring_new_def ring_tail_def)
  have "snd (add_event [6, 7, 8, 9] example_ring) = Ok 13"
    using example_ring_scan
    by (simp add: add_event_def evict_to_fit_def example_ring_def ring_new_def)
  then have "add_event [6, 7, 8, 9] example_ring = (fst (add_event [6, 7, 8, 9] example_ring), Ok 13)"
    by (simp add: prod_eq_iff)
  from run_add [where add = add_event and accepts = ring_accepts, OF run_start acc this]
  show ?thesis by simp
qed

theorem ring_offsets_stable_witness:
  "get_event_at_offset 13 (fst (add_event [6, 7, 8, 9] example_ring)) \<in> {Ok (Some [6, 7, 8, 9]), Ok None}"
  using ring_offsets_stable [OF example_ring_ok example_ring_run, of 13 "[6, 7, 8, 9]"] by auto

text \<open>A snapshot survives a restart: loading the bytes saved from a well-formed ring succeeds,
  and every record that was live before is read back from the new ring at its offset minus the old
  head.\<close>
theorem ring_snapshot_roundtrip:
  assumes "ring_ok r"
  shows "\<exists>r2. load_from_bytes (save_to_bytes r) r' = (r2, Ok ()) \<and> buffer r2 = buffer r \<and> head_offset r2 = 0
    \<and> (initialized r' \<longrightarrow> (\<forall>(off, d) \<in> ring_live r. get_event_at_offset (off - head_offset r) r2 = Ok (Some d)))"
proof -
  obtain es where es: "ring_holds r es" "[] \<notin> set es" using assms by (auto simp: ring_ok_def)
  then have f: "\<forall>e \<in> set es. fits_u32 e \<and> e \<noteq> []" and b: "buffer r = lp_stream es"
    by (auto simp: ring_holds_def)
  let ?r2 = "r'\<lparr>buffer := buffer r, head_offset := 0\<rparr>"
  have load: "load_from_bytes (save_to_bytes r) r' = (?r2, Ok ())"
    using load_scan_stream [OF f, of "[]"] by (simp add: load_from_bytes_def save_to_bytes_def b)
  have "get_event_at_offset (off - head_offset r) ?r2 = Ok (Some d)"
    if i: "initialized r'" and l: "(off, d) \<in> ring_live r" for off d
  proof -
    obtain xs ys where s: "es = xs @ d # ys" and off: "off = head_offset r + of_nat (length (lp_stream xs))"
      using l es(1) by (auto simp: ring_holds_live live_at_split)
    have "ring_holds ?r2 (xs @ d # ys)" "unat (head_offset ?r2) + length (buffer ?r2) < 2 ^ 64"
      using es(1) s assms by (auto simp: ring_holds_def ring_ok_def ring_tail_def)
    from get_event_holds [OF _ this] i off f s show ?thesis by simp
  qed
  then show ?thesis using load by auto
qed

theorem ring_snapshot_roundtrip_witness:
  "\<exists>r2. load_from_bytes (save_to_bytes example_ring) example_ring = (r2, Ok ()) \<and> buffer r2 = buffer example_ring"
  using ring_snapshot_roundtrip [OF example_ring_ok, of example_ring] by auto

text \<open>\<open>load_from_bytes\<close> accepts exactly the concatenations of non-empty length-prefixed records;
  on any other input it reports a fault and leaves the ring as it was.\<close>
theorem load_from_bytes_accepts_iff:
  "(snd (load_from_bytes bs r) = Ok () \<longleftrightarrow> (\<exists>es. bs = lp_stream es \<and> (\<forall>e \<in> set es. fits_u32 e \<and> e \<noteq> [])))
   \<and> (snd (load_from_bytes bs r) \<noteq> Ok () \<longrightarrow> fst (load_from_bytes bs r) = r)"
proof (intro conjI iffI)
  assume "snd (load_from_bytes bs r) = Ok ()"
  then have "load_scan bs 0 = Ok (length bs)"
    by (auto simp: load_from_bytes_def split: sum.splits if_splits)
  from load_scan_sound [OF this] show "\<exists>es. bs = lp_stream es \<and> (\<forall>e \<in> set es. fits_u32 e \<and> e \<noteq> [])"
    by auto
next
  assume "\<exists>es. bs = lp_stream es \<and> (\<forall>e \<in> set es. fits_u32 e \<and> e \<noteq> [])"
  then obtain es where "bs = lp_stream es" "\<forall>e \<in> set es. fits_u32 e \<and> e \<noteq> []" by blast
  then show "snd (load_from_bytes bs r) = Ok ()"
    using load_scan_stream [of es "[]"] by (simp add: load_from_bytes_def)
qed (auto simp: load_from_bytes_def split: sum.splits if_splits)

theorem load_from_bytes_accepts_iff_witness:
  "snd (load_from_bytes [1, 0, 0, 0, 7] example_ring) = Ok ()
   \<and> snd (load_from_bytes [0, 0, 0, 0] example_ring) \<noteq> Ok ()
   \<and> fst (load_from_bytes [0, 0, 0, 0] example_ring) = example_ring"
proof -
  have "[1, 0, 0, 0, 7] = lp_stream [[7]] \<and> (\<forall>e \<in> set [[7 :: u8]]. fits_u32 e \<and> e \<noteq> [])"
    by (simp add: codec_eval)
  then have ok: "snd (load_from_bytes [1, 0, 0, 0, 7] example_ring) = Ok ()"
    using load_from_bytes_accepts_iff [of "[1, 0, 0, 0, 7]" example_ring] by blast
  have bad: "snd (load_from_bytes [0, 0, 0, 0] example_ring) \<noteq> Ok ()"
    by (simp add: load_from_bytes_def load_scan.simps codec_eval)
  then show ?thesis using ok load_from_bytes_accepts_iff [of "[0, 0, 0, 0]" example_ring] by blast
qed

text \<open>An offset that does not start a record can read bytes that were never stored as an event:
  the size prefix is taken from the middle of a payload.\<close>
theorem misaligned_offset_reads_payload:
  "\<exists>r. ring_ok r \<and> fst ` ring_live r = {0} \<and> get_event_at_offset 4 r = Ok (Some [9])"
proof -
  let ?r = "example_ring\<lparr>buffer := lp_stream [[1, 0, 0, 0, 9]]\<rparr>"
  have h: "ring_holds ?r [[1, 0, 0, 0, 9]]" by (simp add: ring_holds_def)
  then have "ring_ok ?r"
    unfolding ring_ok_def by (auto simp: example_ring_def ring_new_def ring_tail_def)
  moreover have "fst ` ring_live ?r = {0}"
    unfolding ring_holds_live [OF h] by (simp add: example_ring_def ring_new_def)
  moreover have "get_event_at_offset 4 ?r = Ok (Some [9])"
    by (simp add: get_event_at_offset_def example_ring_def ring_new_def codec_eval)
  ultimately show ?thesis by blast
qed
end
