(* ===== verification/Sharded_Storage.thy ===== *)
theory Sharded_Storage
  imports Ring_Buffer
begin

text \<open>
  The sharded storage, after \<open>storage/db/sharded_storage.rs\<close>: nine byte rings, one per semantic
  class of Nostr kinds, addressed by composite offsets whose top byte is the shard. The theory shows
  that the capacity split spends exactly the legacy budget, that composite offsets are injective
  below 56 bits, and that the sharded storage is again an \<open>event_storage\<close>, so that the client
  lemmas of the interface hold for it too.
\<close>

unbundle bit_operations_syntax

section \<open>Shards\<close>

datatype shard_id =
  Default | Profile | Kind4 | Kind7375 | Replaceable | Regular | Reaction | Ephemeral | Addressable

definition from_kind :: "u32 \<Rightarrow> shard_id" where
  "from_kind kind =
     (if kind = 0 then Profile
      else if kind = 3 then Replaceable
      else if kind = 4 then Kind4
      else if kind = 7 then Reaction
      else if kind = 7375 then Kind7375
      else if 1 \<le> kind \<and> kind \<le> 9999 then Regular
      else if 10000 \<le> kind \<and> kind \<le> 19999 then Replaceable
      else if 20000 \<le> kind \<and> kind \<le> 29999 then Ephemeral
      else if 30000 \<le> kind \<and> kind \<le> 39999 then Addressable
      else Default)"

fun as_u8 :: "shard_id \<Rightarrow> u8" where
  "as_u8 Default = 0" | "as_u8 Profile = 1" | "as_u8 Kind4 = 2" | "as_u8 Kind7375 = 3"
| "as_u8 Replaceable = 4" | "as_u8 Regular = 5" | "as_u8 Reaction = 6" | "as_u8 Ephemeral = 7"
| "as_u8 Addressable = 8"

definition from_u8 :: "u8 \<Rightarrow> shard_id option" where
  "from_u8 v =
     (if v = 0 then Some Default else if v = 1 then Some Profile else if v = 2 then Some Kind4
      else if v = 3 then Some Kind7375 else if v = 4 then Some Replaceable
      else if v = 5 then Some Regular else if v = 6 then Some Reaction
      else if v = 7 then Some Ephemeral else if v = 8 then Some Addressable else None)"

definition is_persistent :: "shard_id \<Rightarrow> bool" where
  "is_persistent s = (s \<noteq> Ephemeral)"

definition persistent_ids :: "shard_id list" where
  "persistent_ids =
     [Default, Profile, Kind4, Kind7375, Replaceable, Regular, Reaction, Addressable]"

fun persistence_key :: "shard_id \<Rightarrow> string option" where
  "persistence_key Default = Some ''shard:default''"
| "persistence_key Profile = Some ''shard:kind0''"
| "persistence_key Kind4 = Some ''shard:kind4''"
| "persistence_key Kind7375 = Some ''shard:kind7375''"
| "persistence_key Replaceable = Some ''shard:replaceable''"
| "persistence_key Regular = Some ''shard:regular''"
| "persistence_key Reaction = Some ''shard:reaction''"
| "persistence_key Addressable = Some ''shard:addressable''"
| "persistence_key Ephemeral = None"

lemma from_u8_as_u8 [simp]: "from_u8 (as_u8 s) = Some s"
  by (cases s) (simp_all add: from_u8_def)

lemma as_u8_inject [simp]: "as_u8 a = as_u8 b \<longleftrightarrow> a = b"
  by (metis from_u8_as_u8 option.inject)

text \<open>The derived \<open>Ord\<close> of the enum is the order of its discriminants; a \<open>BTreeMap\<close> iterates in it.\<close>

instantiation shard_id :: linorder
begin

definition less_eq_shard_id :: "shard_id \<Rightarrow> shard_id \<Rightarrow> bool" where
  "less_eq_shard_id a b = (as_u8 a \<le> as_u8 b)"

definition less_shard_id :: "shard_id \<Rightarrow> shard_id \<Rightarrow> bool" where
  "less_shard_id a b = (as_u8 a < as_u8 b)"

instance
  by standard (auto simp: less_eq_shard_id_def less_shard_id_def less_le_not_le)

end

lemma as_u8_bound: "unat (as_u8 s) < 9"
  by (cases s) simp_all

section \<open>Capacities\<close>

record shard_capacities =
  cap_default :: nat
  cap_profile :: nat
  cap_kind4 :: nat
  cap_kind7375 :: nat
  cap_replaceable :: nat
  cap_regular :: nat
  cap_reaction :: nat
  cap_ephemeral :: nat
  cap_addressable :: nat

definition LEGACY_DEDICATED_BYTES :: nat where
  "LEGACY_DEDICATED_BYTES = 6 * 1024 * 1024"

definition TOTAL_WEIGHT :: nat where
  "TOTAL_WEIGHT = 28"

definition usize_saturating_add :: "nat \<Rightarrow> nat \<Rightarrow> nat" where
  "usize_saturating_add a b = min (a + b) (2 ^ 64 - 1)"

definition weighted :: "nat \<Rightarrow> nat \<Rightarrow> nat" where
  "weighted budget weight =
     (budget div TOTAL_WEIGHT) * weight + ((budget mod TOTAL_WEIGHT) * weight) div TOTAL_WEIGHT"

definition from_legacy_default :: "nat \<Rightarrow> shard_capacities" where
  "from_legacy_default default_capacity =
     (let budget = usize_saturating_add default_capacity LEGACY_DEDICATED_BYTES;
          default = weighted budget 1; profile = weighted budget 2; kind4 = weighted budget 2;
          kind7375 = weighted budget 1; replaceable = weighted budget 4; regular = weighted budget 8;
          reaction = weighted budget 3; ephemeral = weighted budget 2;
          allocated = default + profile + kind4 + kind7375 + replaceable + regular + reaction + ephemeral
      in \<lparr>cap_default = default, cap_profile = profile, cap_kind4 = kind4, cap_kind7375 = kind7375,
          cap_replaceable = replaceable, cap_regular = regular, cap_reaction = reaction,
          cap_ephemeral = ephemeral, cap_addressable = budget - allocated\<rparr>)"

definition cap_total :: "shard_capacities \<Rightarrow> nat" where
  "cap_total c = cap_default c + cap_profile c + cap_kind4 c + cap_kind7375 c + cap_replaceable c
     + cap_regular c + cap_reaction c + cap_ephemeral c + cap_addressable c"

section \<open>Composite offsets\<close>

definition INNER_BITS :: nat where
  "INNER_BITS = 64 - 8"

definition INNER_MASK :: u64 where
  "INNER_MASK = push_bit INNER_BITS 1 - 1"

definition pack_offset :: "shard_id \<Rightarrow> u64 \<Rightarrow> u64" where
  "pack_offset shard inner = push_bit INNER_BITS (ucast (as_u8 shard)) OR (inner AND INNER_MASK)"

definition unpack_offset :: "u64 \<Rightarrow> shard_id \<times> u64" where
  "unpack_offset composite =
     (let shard = (ucast (drop_bit INNER_BITS composite AND 0xff) :: u8);
          inner = composite AND INNER_MASK
      in (case from_u8 shard of Some s \<Rightarrow> s | None \<Rightarrow> Default, inner))"

section \<open>Routing by bytes\<close>

fun find_bytes :: "bytes \<Rightarrow> bytes \<Rightarrow> nat option" where
  "find_bytes pat s =
     (if take (length pat) s = pat then Some 0
      else case s of [] \<Rightarrow> None | _ # t \<Rightarrow> map_option Suc (find_bytes pat t))"

definition is_ascii_digit :: "u8 \<Rightarrow> bool" where
  "is_ascii_digit c = (48 \<le> c \<and> c \<le> 57)"

text \<open>\<open>str::parse::<u32>\<close> on a run of ASCII digits: empty input and overflow are errors.\<close>

definition parse_u32_digits :: "bytes \<Rightarrow> u32 option" where
  "parse_u32_digits ds =
     (let n = foldl (\<lambda>acc c. 10 * acc + (unat c - 48)) 0 ds
      in if ds \<noteq> [] \<and> n < 2 ^ 32 then Some (of_nat n) else None)"

definition default_router :: "bytes \<Rightarrow> shard_id" where
  "default_router bs =
     (if utf8_valid bs then
        (case find_bytes [34, 107, 105, 110, 100, 34] bs of
           None \<Rightarrow> Default
         | Some i \<Rightarrow>
             let tail = dropWhile (\<lambda>c. \<not> is_ascii_digit c) (drop (i + 6) bs);
                 digits = takeWhile is_ascii_digit tail
             in case parse_u32_digits digits of None \<Rightarrow> Default | Some k \<Rightarrow> from_kind k)
      else Default)"

section \<open>The storage\<close>

record sharded_storage =
  shards :: "(shard_id, ring_buffer_storage) fmap"
  default_shard :: shard_id
  router :: "bytes \<Rightarrow> shard_id"

definition sharded_new_default :: "string \<Rightarrow> nat \<Rightarrow> database_config \<Rightarrow> sharded_storage" where
  "sharded_new_default name legacy_default_capacity cfg =
     (let c = from_legacy_default legacy_default_capacity in
      \<lparr>shards = fmap_of_list
         [(Default, ring_new name ''rb:default'' (cap_default c) cfg),
          (Profile, ring_new name ''rb:kind:0'' (cap_profile c) cfg),
          (Kind4, ring_new name ''rb:kind:4'' (cap_kind4 c) cfg),
          (Kind7375, ring_new name ''rb:kind:7375'' (cap_kind7375 c) cfg),
          (Replaceable, ring_new name ''rb:replaceable'' (cap_replaceable c) cfg),
          (Regular, ring_new name ''rb:regular'' (cap_regular c) cfg),
          (Reaction, ring_new name ''rb:reaction'' (cap_reaction c) cfg),
          (Ephemeral, ring_new name ''rb:ephemeral'' (cap_ephemeral c) cfg),
          (Addressable, ring_new name ''rb:addressable'' (cap_addressable c) cfg)],
       default_shard = Default, router = default_router\<rparr>)"

definition get_shard_storage :: "shard_id \<Rightarrow> sharded_storage \<Rightarrow> database_error + ring_buffer_storage" where
  "get_shard_storage shard st =
     (case fmlookup (shards st) shard of
        None \<Rightarrow> Err (StorageError (ShardNotConfigured (unat (as_u8 shard))))
      | Some r \<Rightarrow> Ok r)"

text \<open>The tail both \<open>add_event_for_kind\<close> and \<open>add_event_data\<close> share once the shard is chosen.\<close>

definition add_to_shard :: "shard_id \<Rightarrow> bytes \<Rightarrow> sharded_storage \<Rightarrow> sharded_storage \<times> (database_error + u64)" where
  "add_to_shard shard event_data st =
     (case get_shard_storage shard st of
        Err e \<Rightarrow> (st, Err e)
      | Ok r \<Rightarrow>
          (case add_event event_data r of
             (r', res) \<Rightarrow>
               (st\<lparr>shards := fmupd shard r' (shards st)\<rparr>,
                case res of Err e \<Rightarrow> Err e | Ok inner \<Rightarrow> Ok (pack_offset shard inner))))"

definition add_event_for_kind :: "u32 \<times> bytes \<Rightarrow> sharded_storage \<Rightarrow> sharded_storage \<times> (database_error + u64)" where
  "add_event_for_kind kd st = add_to_shard (from_kind (fst kd)) (snd kd) st"

definition add_event_data :: "bytes \<Rightarrow> sharded_storage \<Rightarrow> sharded_storage \<times> (database_error + u64)" where
  "add_event_data event_data st = add_to_shard (router st event_data) event_data st"

definition sharded_get_event :: "u64 \<Rightarrow> sharded_storage \<Rightarrow> database_error + bytes option" where
  "sharded_get_event event_offset st =
     (case unpack_offset event_offset of
        (shard, inner) \<Rightarrow>
          (case get_shard_storage shard st of
             Err e \<Rightarrow> Err e
           | Ok r \<Rightarrow> get_event_at_offset inner r))"

definition sharded_contains_offset :: "u64 \<Rightarrow> sharded_storage \<Rightarrow> bool" where
  "sharded_contains_offset event_offset st =
     (case unpack_offset event_offset of
        (shard, inner) \<Rightarrow>
          (case fmlookup (shards st) shard of Some r \<Rightarrow> contains_offset inner r | None \<Rightarrow> False))"

definition shard_entries :: "sharded_storage \<Rightarrow> (shard_id \<times> ring_buffer_storage) list" where
  "shard_entries st =
     map (\<lambda>s. (s, the (fmlookup (shards st) s))) (sorted_list_of_fset (fmdom (shards st)))"

definition sharded_load_events :: "sharded_storage \<Rightarrow> database_error + u64 list" where
  "sharded_load_events st =
     Ok (concat (map (\<lambda>(s, r). map (pack_offset s) (extract_events_from_buffer r)) (shard_entries st)))"

definition sharded_initialize :: "sharded_storage \<Rightarrow> sharded_storage \<times> (database_error + unit)" where
  "sharded_initialize st = (st\<lparr>shards := fmmap (fst \<circ> ring_initialize) (shards st)\<rparr>, Ok ())"

definition sharded_clear :: "sharded_storage \<Rightarrow> sharded_storage \<times> (database_error + unit)" where
  "sharded_clear st = (st\<lparr>shards := fmmap (fst \<circ> clear_storage) (shards st)\<rparr>, Ok ())"

definition save_all_shards :: "sharded_storage \<Rightarrow> (shard_id \<times> bytes) list" where
  "save_all_shards st =
     filter (\<lambda>(s, bs). bs \<noteq> [])
       (map (\<lambda>(s, r). (s, save_to_bytes r)) (filter (\<lambda>(s, r). is_persistent s) (shard_entries st)))"

text \<open>The map to load is given as its entries in the order they are iterated.\<close>

fun load_all_shards ::
  "(shard_id \<times> bytes) list \<Rightarrow> sharded_storage \<Rightarrow> sharded_storage \<times> (database_error + unit)" where
  "load_all_shards [] st = (st, Ok ())"
| "load_all_shards ((s, bs) # rest) st =
     (if \<not> is_persistent s then load_all_shards rest st
      else case get_shard_storage s st of
        Err e \<Rightarrow> (st, Err e)
      | Ok r \<Rightarrow>
          (case load_from_bytes bs r of
             (r', Err f) \<Rightarrow> (st\<lparr>shards := fmupd s r' (shards st)\<rparr>, Err (StorageError (ShardLoad (unat (as_u8 s)) f)))
           | (r', Ok _) \<Rightarrow> load_all_shards rest (st\<lparr>shards := fmupd s r' (shards st)\<rparr>)))"

section \<open>Facts about shards, capacities and offsets\<close>

lemma weighted_le: "28 * weighted b w \<le> w * b"
proof -
  have "28 * ((b mod 28 * w) div 28) \<le> b mod 28 * w" by simp
  moreover have "w * b = 28 * (b div 28 * w) + b mod 28 * w"
    by (metis add_mult_distrib mult.assoc mult.commute mult_div_mod_eq)
  ultimately show ?thesis by (simp add: weighted_def TOTAL_WEIGHT_def distrib_left)
qed

lemma from_legacy_default_sum:
  "cap_total (from_legacy_default c) = usize_saturating_add c LEGACY_DEDICATED_BYTES"
proof -
  define b where "b = usize_saturating_add c LEGACY_DEDICATED_BYTES"
  have "weighted b 1 + weighted b 2 + weighted b 2 + weighted b 1 + weighted b 4 + weighted b 8
      + weighted b 3 + weighted b 2 \<le> b"
    using weighted_le [of b 1] weighted_le [of b 2] weighted_le [of b 3] weighted_le [of b 4]
      weighted_le [of b 8] by linarith
  then show ?thesis
    by (simp add: cap_total_def from_legacy_default_def Let_def flip: b_def)
qed

lemma INNER_MASK_eq: "INNER_MASK = mask 56"
  by (simp add: INNER_MASK_def INNER_BITS_def mask_eq_decr_exp)

lemma unpack_pack: "unpack_offset (pack_offset s i) = (s, i AND INNER_MASK)"
proof -
  have byte: "(0xff :: u64) = mask 8" by (simp add: mask_eq_exp_minus_1)
  have sh: "(ucast (drop_bit INNER_BITS (pack_offset s i) AND 0xff) :: u8) = as_u8 s"
    unfolding pack_offset_def INNER_MASK_eq INNER_BITS_def
    unfolding byte by (rule bit_word_eqI) (auto simp: bit_simps)
  have inn: "pack_offset s i AND INNER_MASK = i AND INNER_MASK"
    unfolding pack_offset_def INNER_MASK_eq INNER_BITS_def
    by (rule bit_word_eqI) (auto simp: bit_simps)
  show ?thesis by (simp add: unpack_offset_def Let_def sh inn)
qed

lemma inner_fits: "unat i < 2 ^ 56 \<Longrightarrow> i AND INNER_MASK = i"
  unfolding INNER_MASK_eq by (rule less_mask_eq) (simp add: word_less_nat_alt)

section \<open>The sharded storage as an event storage\<close>

definition sharded_live :: "sharded_storage \<Rightarrow> (u64 \<times> bytes) set" where
  "sharded_live st = {(pack_offset s off, d) | s r off d. fmlookup (shards st) s = Some r \<and> (off, d) \<in> ring_live r}"

definition sharded_gone :: "u64 \<Rightarrow> sharded_storage \<Rightarrow> bool" where
  "sharded_gone off st \<longleftrightarrow>
     (\<exists>r. fmlookup (shards st) (fst (unpack_offset off)) = Some r \<and> ring_gone (snd (unpack_offset off)) r)"

definition sharded_ok :: "sharded_storage \<Rightarrow> bool" where
  "sharded_ok st \<longleftrightarrow> (\<forall>s r. fmlookup (shards st) s = Some r \<longrightarrow> ring_ok r \<and> ring_tail r < 2 ^ 56)"

definition shard_accepts :: "shard_id \<Rightarrow> bytes \<Rightarrow> sharded_storage \<Rightarrow> bool" where
  "shard_accepts s d st \<longleftrightarrow>
     (\<exists>r. fmlookup (shards st) s = Some r \<and> ring_accepts d r \<and> ring_tail r + 4 + length d < 2 ^ 56)"

lemma unpack_pack_fits: "unat i < 2 ^ 56 \<Longrightarrow> unpack_offset (pack_offset s i) = (s, i)"
  by (simp add: unpack_pack inner_fits)

lemma sharded_liveI:
  "fmlookup (shards st) s = Some r \<Longrightarrow> (i, d) \<in> ring_live r \<Longrightarrow> (pack_offset s i, d) \<in> sharded_live st"
  by (auto simp: sharded_live_def)

lemma sharded_liveE:
  assumes "sharded_ok st" "(off, d) \<in> sharded_live st"
  obtains s r i where "unpack_offset off = (s, i)" "off = pack_offset s i" "fmlookup (shards st) s = Some r"
    "(i, d) \<in> ring_live r" "ring_ok r" "unat i < 2 ^ 56"
proof -
  obtain s r i where *: "off = pack_offset s i" "fmlookup (shards st) s = Some r" "(i, d) \<in> ring_live r"
    using assms(2) by (auto simp: sharded_live_def)
  moreover have "ring_ok r" "ring_tail r < 2 ^ 56" using assms(1) * by (auto simp: sharded_ok_def)
  moreover have "unat i < 2 ^ 56" using calculation ring_live_below_tail [of r i d] by simp
  ultimately show ?thesis using that unpack_pack_fits by blast
qed

lemma sharded_get_live:
  "sharded_ok st \<Longrightarrow> (off, d) \<in> sharded_live st \<Longrightarrow> sharded_get_event off st = Ok (Some d)"
  by (erule (1) sharded_liveE) (simp add: sharded_get_event_def get_shard_storage_def ring_get_live)

lemma sharded_get_gone:
  assumes "sharded_ok st" "sharded_gone off st"
  shows "sharded_get_event off st = Ok None"
  using assms ring.get_gone
  by (auto simp: sharded_gone_def sharded_ok_def sharded_get_event_def get_shard_storage_def split: prod.splits)

lemma sharded_contains_iff_get:
  "sharded_contains_offset off st \<longleftrightarrow> (\<exists>d. sharded_get_event off st = Ok (Some d))"
  by (auto simp: sharded_contains_offset_def sharded_get_event_def get_shard_storage_def
      contains_offset_iff_get split: prod.splits option.splits)

lemma add_to_shard_ok:
  assumes ok: "sharded_ok st" and acc: "shard_accepts s d st"
  shows "\<exists>st' off. add_to_shard s d st = (st', Ok off) \<and> sharded_ok st' \<and> (off, d) \<in> sharded_live st' \<and>
    sharded_live st' \<subseteq> insert (off, d) (sharded_live st) \<and> off \<notin> fst ` sharded_live st \<and>
    (\<forall>(o', d') \<in> sharded_live st - sharded_live st'. sharded_gone o' st') \<and>
    (\<forall>o'. sharded_gone o' st \<longrightarrow> sharded_gone o' st') \<and> router st' = router st"
proof -
  obtain r where r: "fmlookup (shards st) s = Some r" "ring_accepts d r" "ring_tail r + 4 + length d < 2 ^ 56"
    using acc by (auto simp: shard_accepts_def)
  have okr: "ring_ok r" using ok r by (auto simp: sharded_ok_def)
  obtain r' i where add: "add_event d r = (r', Ok i)" "ring_ok r'" "ring_tail r' = ring_tail r + 4 + length d"
    "unat i = ring_tail r" "(i, d) \<in> ring_live r'" "ring_live r' \<subseteq> insert (i, d) (ring_live r)"
    "\<forall>(o', d') \<in> ring_live r - ring_live r'. o' < head_offset r'" "head_offset r \<le> head_offset r'"
    using ring_add [OF okr, of d] r(2) by (auto simp: ring_accepts_def)
  define st' where "st' = st\<lparr>shards := fmupd s r' (shards st)\<rparr>"
  have run: "add_to_shard s d st = (st', Ok (pack_offset s i))"
    by (simp add: add_to_shard_def get_shard_storage_def r(1) add(1) st'_def)
  have ok': "sharded_ok st'" using ok add(2,3) r(3) by (auto simp: sharded_ok_def st'_def)
  have new: "(pack_offset s i, d) \<in> sharded_live st'"
    using add(5) by (intro sharded_liveI) (auto simp: st'_def)
  have sub: "sharded_live st' \<subseteq> insert (pack_offset s i, d) (sharded_live st)"
    using add(6) r(1) by (fastforce simp: sharded_live_def st'_def split: if_splits)
  have "unpack_offset (pack_offset s i) = (s, i)"
    using add(4) r(3) by (intro unpack_pack_fits) simp
  then have fresh: "pack_offset s i \<notin> fst ` sharded_live st"
    using ring_live_below_tail [OF okr] r(1) add(4) by (force elim!: sharded_liveE [OF ok])
  have lost: "sharded_gone o' st'" if "(o', d') \<in> sharded_live st" "(o', d') \<notin> sharded_live st'" for o' d'
    using that(1)
  proof (rule sharded_liveE [OF ok])
    fix s2 r2 i2 assume *: "unpack_offset o' = (s2, i2)" "o' = pack_offset s2 i2"
      "fmlookup (shards st) s2 = Some r2" "(i2, d') \<in> ring_live r2"
    have "s2 = s"
      using that(2) * sharded_liveI [of st' s2 r2 i2 d'] by (cases "s2 = s") (auto simp: st'_def)
    moreover have "(i2, d') \<notin> ring_live r'"
      using that(2) * \<open>s2 = s\<close> sharded_liveI [of st' s r' i2 d'] by (auto simp: st'_def)
    ultimately have "(i2, d') \<in> ring_live r - ring_live r'" using * r(1) by simp
    then show ?thesis using add(7) * \<open>s2 = s\<close> by (auto simp: sharded_gone_def ring_gone_def st'_def)
  qed
  have keep: "sharded_gone o' st'" if "sharded_gone o' st" for o'
    using that r(1) add(8) by (auto simp: sharded_gone_def ring_gone_def st'_def)
  show ?thesis using run ok' new sub fresh lost keep by (auto simp: st'_def)
qed

definition kind_accepts :: "u32 \<times> bytes \<Rightarrow> sharded_storage \<Rightarrow> bool" where
  "kind_accepts kd st \<longleftrightarrow> shard_accepts (from_kind (fst kd)) (snd kd) st"

definition routed_accepts :: "bytes \<Rightarrow> sharded_storage \<Rightarrow> bool" where
  "routed_accepts d st \<longleftrightarrow> shard_accepts (router st d) d st"

lemmas sharded_laws = sharded_get_live sharded_get_gone sharded_contains_iff_get

interpretation by_kind: event_storage add_event_for_kind snd sharded_get_event sharded_contains_offset
  sharded_live sharded_gone kind_accepts sharded_ok
proof unfold_locales
  fix st kd assume "sharded_ok st" "kind_accepts kd st"
  note * = add_to_shard_ok [OF this [unfolded kind_accepts_def]]
  then show "\<exists>st' off. add_event_for_kind kd st = (st', Ok off) \<and> sharded_ok st' \<and> (off, snd kd) \<in> sharded_live st' \<and>
      sharded_live st' \<subseteq> insert (off, snd kd) (sharded_live st) \<and> off \<notin> fst ` sharded_live st \<and>
      (\<forall>(o', d') \<in> sharded_live st - sharded_live st'. sharded_gone o' st')"
    unfolding add_event_for_kind_def by blast
  show "sharded_gone o' (fst (add_event_for_kind kd st))" if "sharded_gone o' st" for o'
    using * that by (auto simp: add_event_for_kind_def)
qed (auto simp: sharded_laws)

interpretation routed: event_storage add_event_data "\<lambda>d. d" sharded_get_event sharded_contains_offset
  sharded_live sharded_gone routed_accepts sharded_ok
proof unfold_locales
  fix st d assume "sharded_ok st" "routed_accepts d st"
  note * = add_to_shard_ok [OF this [unfolded routed_accepts_def]]
  then show "\<exists>st' off. add_event_data d st = (st', Ok off) \<and> sharded_ok st' \<and> (off, d) \<in> sharded_live st' \<and>
      sharded_live st' \<subseteq> insert (off, d) (sharded_live st) \<and> off \<notin> fst ` sharded_live st \<and>
      (\<forall>(o', d') \<in> sharded_live st - sharded_live st'. sharded_gone o' st')"
    unfolding add_event_data_def by blast
  show "sharded_gone o' (fst (add_event_data d st))" if "sharded_gone o' st" for o'
    using * that by (auto simp: add_event_data_def)
qed (auto simp: sharded_laws)
section \<open>Loading and saving all shards\<close>

lemma shard_entries_set: "(s, r) \<in> set (shard_entries st) \<longleftrightarrow> fmlookup (shards st) s = Some r"
  by (auto simp: shard_entries_def sorted_list_of_fset_simps image_iff fmlookup_dom_iff)

lemma shard_entries_distinct: "distinct (map fst (shard_entries st))"
  by (simp add: shard_entries_def comp_def sorted_list_of_fset.rep_eq)

lemma save_all_shards_set:
  "(s, bs) \<in> set (save_all_shards st) \<longleftrightarrow>
   is_persistent s \<and> bs \<noteq> [] \<and> (\<exists>r. fmlookup (shards st) s = Some r \<and> buffer r = bs)"
  by (auto simp: save_all_shards_def save_to_bytes_def shard_entries_set)

lemma save_all_shards_distinct: "distinct (map fst (save_all_shards st))"
  unfolding save_all_shards_def
  by (intro distinct_map_filter)
    (simp add: comp_def case_prod_beta distinct_map_filter shard_entries_distinct)

lemma sharded_load_events_live:
  assumes "sharded_ok st"
  shows "\<exists>offs. sharded_load_events st = Ok offs \<and> set offs = fst ` sharded_live st"
proof -
  have ev: "set (extract_events_from_buffer r) = fst ` ring_live r" if "fmlookup (shards st) s = Some r" for s r
    using ring_load_events_live [of r] assms that by (auto simp: sharded_ok_def ring_load_events_def)
  have "set (concat (map (\<lambda>(s, r). map (pack_offset s) (extract_events_from_buffer r)) (shard_entries st)))
      = fst ` sharded_live st" (is "?l = ?r")
  proof
    show "?l \<subseteq> ?r" using ev by (force simp: shard_entries_set intro: sharded_liveI)
    show "?r \<subseteq> ?l"
    proof
      fix x assume "x \<in> ?r"
      then obtain s r i d where "x = pack_offset s i" "fmlookup (shards st) s = Some r" "(i, d) \<in> ring_live r"
        by (auto simp: sharded_live_def)
      then have "x \<in> pack_offset s ` set (extract_events_from_buffer r)" "(s, r) \<in> set (shard_entries st)"
        using ev [of s r] by (force simp: shard_entries_set)+
      then show "x \<in> ?l" by auto
    qed
  qed
  then show ?thesis by (simp add: sharded_load_events_def)
qed

definition loadable :: "bytes \<Rightarrow> bool" where
  "loadable bs \<longleftrightarrow> (\<exists>es. bs = lp_stream es \<and> (\<forall>e \<in> set es. fits_u32 e \<and> e \<noteq> []))"

lemma load_loadable: "loadable bs \<Longrightarrow> load_from_bytes bs r = (r\<lparr>buffer := bs, head_offset := 0\<rparr>, Ok ())"
  using load_scan_stream [of _ "[]"] by (auto simp: loadable_def load_from_bytes_def)

lemma ring_ok_loadable: "ring_ok r \<Longrightarrow> loadable (buffer r)"
  unfolding ring_ok_def ring_holds_def loadable_def by metis

lemma load_all_shards_ok:
  assumes "distinct (map fst entries)"
    and "\<forall>(s, bs) \<in> set entries. is_persistent s \<and> loadable bs \<and> s \<in> fmdom' (shards st)"
  shows "\<exists>st'. load_all_shards entries st = (st', Ok ()) \<and> router st' = router st \<and>
    (\<forall>s. fmlookup (shards st') s = (case map_of entries s of
        None \<Rightarrow> fmlookup (shards st) s
      | Some bs \<Rightarrow> map_option (\<lambda>r. r\<lparr>buffer := bs, head_offset := 0\<rparr>) (fmlookup (shards st) s)))"
  using assms
proof (induction entries arbitrary: st)
  case (Cons e entries)
  obtain s bs where e: "e = (s, bs)" by fastforce
  obtain r where r: "fmlookup (shards st) s = Some r" using Cons.prems(2) e by (auto simp: fmlookup_dom'_iff)
  define st1 where "st1 = st\<lparr>shards := fmupd s (r\<lparr>buffer := bs, head_offset := 0\<rparr>) (shards st)\<rparr>"
  have step: "load_all_shards (e # entries) st = load_all_shards entries st1"
    using Cons.prems(2) e r by (simp add: get_shard_storage_def load_loadable st1_def)
  have "s \<notin> fst ` set entries" using Cons.prems(1) e by simp
  then have none: "map_of entries s = None" by (simp add: map_of_eq_None_iff)
  have "\<forall>(s, bs) \<in> set entries. is_persistent s \<and> loadable bs \<and> s \<in> fmdom' (shards st1)"
    using Cons.prems(2) by (auto simp: st1_def)
  then obtain st' where st': "load_all_shards entries st1 = (st', Ok ())" "router st' = router st1"
    "\<forall>s. fmlookup (shards st') s = (case map_of entries s of
        None \<Rightarrow> fmlookup (shards st1) s
      | Some bs \<Rightarrow> map_option (\<lambda>r. r\<lparr>buffer := bs, head_offset := 0\<rparr>) (fmlookup (shards st1) s))"
    using Cons.IH [of st1] Cons.prems(1) by auto
  show ?case
    using step st' none r by (auto simp: e st1_def split: option.splits)
qed simp

section \<open>Properties\<close>

text \<open>The nine shard capacities together are exactly the legacy budget: the caller's capacity plus
  the former dedicated six mebibytes, saturated at the machine word; the weighted shares never
  exceed it, so the remainder given to the addressable shard does not underflow.\<close>
theorem shard_capacities_conserve_budget:
  "cap_total (from_legacy_default c) = usize_saturating_add c LEGACY_DEDICATED_BYTES"
  by (rule from_legacy_default_sum)

text \<open>A composite offset gives back its shard and its inner offset, as long as the inner offset
  stays below 56 bits; beyond that the shard is still right and the inner offset is truncated.\<close>
theorem composite_offset_roundtrip:
  "(unat i < 2 ^ 56 \<longrightarrow> unpack_offset (pack_offset s i) = (s, i))
   \<and> unpack_offset (pack_offset s i) = (s, of_nat (unat i mod 2 ^ 56))"
proof -
  have "unat (i AND INNER_MASK) = unat i mod 2 ^ 56"
    unfolding INNER_MASK_eq take_bit_eq_mask [symmetric] by (subst unsigned_take_bit_eq) (simp only: take_bit_eq_mod)
  then have "i AND INNER_MASK = of_nat (unat i mod 2 ^ 56)"
    by (metis of_nat_unat ucast_id)
  then show ?thesis using unpack_pack_fits unpack_pack by metis
qed

theorem composite_offset_roundtrip_witness:
  "unpack_offset (pack_offset Regular 4096) = (Regular, 4096)"
  using composite_offset_roundtrip [of 4096 Regular] by simp

text \<open>C2. Offsets of the sharded storage are stable across any interleaving of additions of any
  kinds: a composite offset handed out for an event reads back that event's bytes or nothing.\<close>
theorem sharded_offsets_stable:
  assumes "sharded_ok st" and "storage_run add_event_for_kind kind_accepts st h st'" and "(off, kd) \<in> set h"
  shows "(sharded_get_event off st' = Ok (Some (snd kd)) \<or> sharded_get_event off st' = Ok None)
    \<and> (sharded_contains_offset off st' \<longleftrightarrow> sharded_get_event off st' = Ok (Some (snd kd)))"
  using by_kind.run_get [OF assms(2,1,3)] by_kind.run_contains [OF assms(2,1,3)] by blast

definition example_shards :: sharded_storage where
  "example_shards = \<lparr>shards = fmap_of_list [(Regular, example_ring), (Ephemeral, example_ring)],
     default_shard = Default, router = default_router\<rparr>"

lemma example_shards_ok: "sharded_ok example_shards"
  using example_ring_ok
  by (auto simp: sharded_ok_def example_shards_def fmlookup_of_list ring_tail_def example_ring_def ring_new_def
      split: if_splits)

lemma example_shards_run:
  "storage_run add_event_for_kind kind_accepts example_shards
     [(pack_offset Regular 13, (1, [6, 7, 8, 9]))] (fst (add_event_for_kind (1, [6, 7, 8, 9]) example_shards))"
proof -
  have k: "from_kind 1 = Regular" by (simp add: from_kind_def)
  have acc: "kind_accepts (1, [6, 7, 8, 9]) example_shards"
    by (simp add: kind_accepts_def shard_accepts_def k example_shards_def fmlookup_of_list ring_accepts_def
        ring_tail_def example_ring_def ring_new_def)
  have "snd (add_event [6, 7, 8, 9] example_ring) = Ok 13"
    using example_ring_scan by (simp add: add_event_def evict_to_fit_def example_ring_def ring_new_def)
  then have "snd (add_event_for_kind (1, [6, 7, 8, 9]) example_shards) = Ok (pack_offset Regular 13)"
    by (auto simp: add_event_for_kind_def add_to_shard_def k get_shard_storage_def example_shards_def fmlookup_of_list
        split: prod.splits)
  then have "add_event_for_kind (1, [6, 7, 8, 9]) example_shards =
      (fst (add_event_for_kind (1, [6, 7, 8, 9]) example_shards), Ok (pack_offset Regular 13))"
    by (simp add: prod_eq_iff)
  from run_add [where add = add_event_for_kind and accepts = kind_accepts, OF run_start acc this]
  show ?thesis by simp
qed

theorem sharded_offsets_stable_witness:
  "sharded_get_event (pack_offset Regular 13) (fst (add_event_for_kind (1, [6, 7, 8, 9]) example_shards))
     \<in> {Ok (Some [6, 7, 8, 9]), Ok None}"
  using sharded_offsets_stable [OF example_shards_ok example_shards_run] by auto

text \<open>C3. A snapshot of all shards restores them: loading the saved entries, in whatever order the map
  yields them, into a storage with the same shards succeeds; every persistent shard gets its bytes
  back with offsets starting at zero, and the ephemeral shard is left as it was.\<close>
theorem sharded_snapshot_restores:
  assumes "sharded_ok st" and "mset entries = mset (save_all_shards st)" and "fmdom (shards st0) = fmdom (shards st)"
  shows "\<exists>st'. load_all_shards entries st0 = (st', Ok ()) \<and>
    (\<forall>s r. fmlookup (shards st) s = Some r \<longrightarrow> is_persistent s \<longrightarrow> buffer r \<noteq> [] \<longrightarrow>
       (\<exists>r'. fmlookup (shards st') s = Some r' \<and> buffer r' = buffer r \<and> head_offset r' = 0)) \<and>
    fmlookup (shards st') Ephemeral = fmlookup (shards st0) Ephemeral"
proof -
  have same: "set entries = set (save_all_shards st)" using assms(2) by (metis set_mset_mset)
  have "mset (map fst entries) = mset (map fst (save_all_shards st))" using assms(2) by simp
  then have dist: "distinct (map fst entries)"
    using save_all_shards_distinct mset_eq_imp_distinct_iff by blast
  have dom: "\<exists>r0. fmlookup (shards st0) s = Some r0" if "fmlookup (shards st) s = Some r" for s r
    using that assms(3) by (metis fmlookup_dom_iff)
  have "is_persistent s \<and> loadable bs \<and> s \<in> fmdom' (shards st0)" if "(s, bs) \<in> set entries" for s bs
  proof -
    obtain r where "is_persistent s" "fmlookup (shards st) s = Some r" "buffer r = bs"
      using \<open>(s, bs) \<in> set entries\<close> by (auto simp: same save_all_shards_set)
    then show ?thesis
      using assms(1) ring_ok_loadable dom [of s r] by (auto simp: sharded_ok_def fmlookup_dom'_iff)
  qed
  then have "\<forall>(s, bs) \<in> set entries. is_persistent s \<and> loadable bs \<and> s \<in> fmdom' (shards st0)" by blast
  from load_all_shards_ok [OF dist this] obtain st' where load: "load_all_shards entries st0 = (st', Ok ())"
    and look: "\<And>s. fmlookup (shards st') s = (case map_of entries s of
        None \<Rightarrow> fmlookup (shards st0) s
      | Some bs \<Rightarrow> map_option (\<lambda>r. r\<lparr>buffer := bs, head_offset := 0\<rparr>) (fmlookup (shards st0) s))" by blast
  have "\<exists>r'. fmlookup (shards st') s = Some r' \<and> buffer r' = buffer r \<and> head_offset r' = 0"
    if lk: "fmlookup (shards st) s = Some r" and "is_persistent s" "buffer r \<noteq> []" for s r
  proof -
    have "(s, buffer r) \<in> set entries" using that by (auto simp: same save_all_shards_set)
    then have "map_of entries s = Some (buffer r)" using dist by simp
    moreover obtain r0 where "fmlookup (shards st0) s = Some r0" using dom [OF lk] by blast
    ultimately show ?thesis by (simp add: look)
  qed
  moreover have "map_of entries Ephemeral = None"
    by (auto simp: map_of_eq_None_iff same save_all_shards_set is_persistent_def)
  ultimately show ?thesis using load by (auto simp: look)
qed

theorem sharded_snapshot_restores_witness:
  "\<exists>st'. load_all_shards (save_all_shards example_shards) example_shards = (st', Ok ())
     \<and> fmlookup (shards st') Ephemeral = Some example_ring"
proof -
  have "fmlookup (shards example_shards) Ephemeral = Some example_ring"
    by (simp add: example_shards_def fmlookup_of_list)
  then show ?thesis
    using sharded_snapshot_restores [OF example_shards_ok refl refl] by auto
qed
end
