(* ===== verification/Nostr_Index.thy ===== *)
theory Nostr_Index
  imports Nostr_Event Sharded_Storage
begin

text \<open>
  The in-memory indexes of the event database, after the indexing half of
  \<open>storage/db/index.rs\<close>: adding, deleting and rebuilding. Every event gets a \<open>u32\<close> key on first
  sight, and the indexes map a kind, an author or a tag value to the set of keys. The theory states
  what the indexes mean against the history of indexed events (\<open>index_ok\<close>) and shows that every
  operation keeps it. A panic of the source (the exhausted key space) is the value \<open>None\<close>.
\<close>

section \<open>The database state\<close>

record nostr_db =
  db_indexes :: database_indexes
  db_storage :: sharded_storage
  db_initialized :: bool
  db_tombstones :: tombstones
  default_relays :: "string list"
  indexer_relays :: "string list"

definition nostr_db_new :: "string \<Rightarrow> nat \<Rightarrow> string list \<Rightarrow> string list \<Rightarrow> nostr_db" where
  "nostr_db_new name capacity defaults indexers =
     \<lparr>db_indexes = indexes_new,
      db_storage = sharded_new_default name capacity default_config,
      db_initialized = False,
      db_tombstones = tombstones_clear,
      default_relays = defaults, indexer_relays = indexers\<rparr>"

section \<open>Index maps\<close>

definition posting :: "('k, event_key fset) fmap \<Rightarrow> 'k \<Rightarrow> event_key fset" where
  "posting m v = (case fmlookup m v of Some s \<Rightarrow> s | None \<Rightarrow> {||})"

text \<open>\<open>entry(v).or_insert_with(FxHashSet::default).insert(key)\<close>.\<close>

definition idx_insert :: "'k \<Rightarrow> event_key \<Rightarrow> ('k, event_key fset) fmap \<Rightarrow> ('k, event_key fset) fmap" where
  "idx_insert v key m = fmupd v (finsert key (posting m v)) m"

definition index_tag :: "event_key \<Rightarrow> fb_tag \<Rightarrow> database_indexes \<Rightarrow> database_indexes" where
  "index_tag key tag idx =
     (case tag of
        None \<Rightarrow> idx
      | Some items \<Rightarrow>
          if length items < 2 then idx
          else let k = items ! 0; v = items ! 1 in
            if k = ''e'' then idx\<lparr>events_by_e_tag := idx_insert v key (events_by_e_tag idx)\<rparr>
            else if k = ''E'' then idx\<lparr>events_by_E_tag := idx_insert v key (events_by_E_tag idx)\<rparr>
            else if k = ''p'' then idx\<lparr>events_by_p_tag := idx_insert v key (events_by_p_tag idx)\<rparr>
            else if k = ''P'' then idx\<lparr>events_by_P_tag := idx_insert v key (events_by_P_tag idx)\<rparr>
            else if k = ''a'' then idx\<lparr>events_by_a_tag := idx_insert v key (events_by_a_tag idx)\<rparr>
            else if k = ''d'' then idx\<lparr>events_by_d_tag := idx_insert v key (events_by_d_tag idx)\<rparr>
            else if k = ''q'' then idx\<lparr>events_by_q_tag := idx_insert v key (events_by_q_tag idx)\<rparr>
            else idx)"

fun first_d_tag :: "fb_tag list \<Rightarrow> string option" where
  "first_d_tag [] = None"
| "first_d_tag (tag # tags) =
     (case tag of
        Some items \<Rightarrow> if 2 \<le> length items \<and> items ! 0 = ''d'' then Some (items ! 1) else first_d_tag tags
      | None \<Rightarrow> first_d_tag tags)"

section \<open>Deletions\<close>

definition EVENT_DELETION :: u16 where
  "EVENT_DELETION = 5"

definition delete_by_id :: "string \<Rightarrow> u32 \<Rightarrow> database_indexes \<Rightarrow> string \<Rightarrow> tombstones \<Rightarrow> tombstones" where
  "delete_by_id author ts idx target t =
     (case fmlookup (events_by_id idx) target of
        Some r \<Rightarrow>
          (case fmlookup (events_by_pubkey idx) author of
             Some keys \<Rightarrow>
               if er_key r |\<in>| keys then t\<lparr>deleted_keys := finsert (er_key r) (deleted_keys t)\<rparr> else t
           | None \<Rightarrow> t)
      | None \<Rightarrow>
          (case fmlookup (pending_ids t) target of
             Some (_, old) \<Rightarrow>
               if ts > old then t\<lparr>pending_ids := fmupd target (author, ts) (pending_ids t)\<rparr> else t
           | None \<Rightarrow> t\<lparr>pending_ids := fmupd target (author, ts) (pending_ids t)\<rparr>))"

text \<open>The keys an address deletion reaches: the smallest of the three sets drives the intersection.\<close>

definition address_hits :: "u16 \<Rightarrow> string \<Rightarrow> string \<Rightarrow> u32 \<Rightarrow> database_indexes \<Rightarrow> event_key fset" where
  "address_hits kind author d ts idx =
     (case (fmlookup (events_by_d_tag idx) d, fmlookup (events_by_kind idx) kind,
            fmlookup (events_by_pubkey idx) author) of
        (Some d_set, Some kind_set, Some pub_set) \<Rightarrow>
          (let sets = sort_key fcard [d_set, kind_set, pub_set] in
           ffilter (\<lambda>key. list_all (\<lambda>s. key |\<in>| s) (tl sets) \<and>
               (case fmlookup (events_by_key idx) key of
                  Some r \<Rightarrow> er_created_at r \<le> ts | None \<Rightarrow> False))
             (hd sets))
      | _ \<Rightarrow> {||})"

definition delete_by_address :: "string \<Rightarrow> u32 \<Rightarrow> database_indexes \<Rightarrow> string \<Rightarrow> tombstones \<Rightarrow> tombstones" where
  "delete_by_address author ts idx address t =
     (case splitn3 address of
        None \<Rightarrow> t
      | Some (kind_str, addr_author, d) \<Rightarrow>
          if addr_author \<noteq> author then t
          else (case parse_u16 kind_str of
             None \<Rightarrow> t
           | Some kind \<Rightarrow>
               t\<lparr>deleted_keys := deleted_keys t |\<union>| address_hits kind addr_author d ts idx,
                 deleted_addresses := fmupd address
                   (case fmlookup (deleted_addresses t) address of Some old \<Rightarrow> max old ts | None \<Rightarrow> ts)
                   (deleted_addresses t)\<rparr>))"

definition process_deletion_tag :: "string \<Rightarrow> u32 \<Rightarrow> database_indexes \<Rightarrow> fb_tag \<Rightarrow> tombstones \<Rightarrow> tombstones" where
  "process_deletion_tag author ts idx tag t =
     (case tag of
        None \<Rightarrow> t
      | Some items \<Rightarrow>
          if length items < 2 then t
          else if items ! 0 = ''e'' then delete_by_id author ts idx (items ! 1) t
          else if items ! 0 = ''a'' then delete_by_address author ts idx (items ! 1) t
          else t)"

definition process_deletion_tags ::
  "string \<Rightarrow> u32 \<Rightarrow> fb_tag list \<Rightarrow> database_indexes \<Rightarrow> tombstones \<Rightarrow> tombstones" where
  "process_deletion_tags author ts tags idx t = fold (process_deletion_tag author ts idx) tags t"

definition apply_tombstones_to_event ::
  "event_key \<Rightarrow> string \<Rightarrow> string \<Rightarrow> u16 \<Rightarrow> u32 \<Rightarrow> string option \<Rightarrow> tombstones \<Rightarrow> tombstones" where
  "apply_tombstones_to_event key event_id author kind created_at d_tag t =
     (if tombstones_is_empty t then t
      else if (case fmlookup (pending_ids t) event_id of Some (da, _) \<Rightarrow> da = author | None \<Rightarrow> False)
      then t\<lparr>deleted_keys := finsert key (deleted_keys t)\<rparr>
      else if 30000 \<le> kind \<and> kind < 40000 then
        (case d_tag of
           None \<Rightarrow> t
         | Some d \<Rightarrow>
             (case fmlookup (deleted_addresses t) (event_address kind author d) of
                Some ts \<Rightarrow>
                  if created_at \<le> ts then t\<lparr>deleted_keys := finsert key (deleted_keys t)\<rparr> else t
              | None \<Rightarrow> t))
      else t)"

section \<open>Indexing one event\<close>

text \<open>\<open>index_parsed_event\<close> and \<open>index_nostr_event\<close> have the same body over the shared fields.\<close>

definition index_event_fields ::
  "event_fields \<Rightarrow> u64 \<Rightarrow> database_indexes \<times> tombstones \<Rightarrow> (database_indexes \<times> tombstones) option" where
  "index_event_fields f offset st =
     (case upsert_event_record (ef_id f) offset (ef_created_at f) (fst st) of
        None \<Rightarrow> None
      | Some (idx, key) \<Rightarrow>
          (let idx = idx\<lparr>events_by_kind := idx_insert (ef_kind f) key (events_by_kind idx)\<rparr>;
               idx = idx\<lparr>events_by_pubkey := idx_insert (ef_pubkey f) key (events_by_pubkey idx)\<rparr>;
               idx = fold (index_tag key) (ef_tags f) idx;
               t = apply_tombstones_to_event key (ef_id f) (ef_pubkey f) (ef_kind f) (ef_created_at f)
                     (first_d_tag (ef_tags f)) (snd st);
               t = (if ef_kind f = EVENT_DELETION
                    then process_deletion_tags (ef_pubkey f) (ef_created_at f) (ef_tags f) idx t else t)
           in Some (idx, t)))"

definition index_parsed_event ::
  "parsed_event \<Rightarrow> u64 \<Rightarrow> database_indexes \<times> tombstones \<Rightarrow> (database_indexes \<times> tombstones) option" where
  "index_parsed_event p offset st = index_event_fields (parsed_fields p) offset st"

definition index_nostr_event ::
  "nostr_event \<Rightarrow> u64 \<Rightarrow> database_indexes \<times> tombstones \<Rightarrow> (database_indexes \<times> tombstones) option" where
  "index_nostr_event n offset st = index_event_fields (nostr_fields n) offset st"

definition db_index :: "event_fields \<Rightarrow> u64 \<Rightarrow> nostr_db \<Rightarrow> nostr_db option" where
  "db_index f offset db =
     map_option (\<lambda>(idx, t). db\<lparr>db_indexes := idx, db_tombstones := t\<rparr>)
       (index_event_fields f offset (db_indexes db, db_tombstones db))"

section \<open>Adding events\<close>

text \<open>Store under the shard of the kind, then index; an error of the storage leaves the indexes alone.\<close>

definition store_and_index ::
  "event_fields \<Rightarrow> bytes \<Rightarrow> nostr_db \<Rightarrow> (nostr_db \<times> (database_error + unit)) option" where
  "store_and_index f bs db =
     (case add_event_for_kind (ucast (ef_kind f), bs) (db_storage db) of
        (st, Err e) \<Rightarrow> Some (db\<lparr>db_storage := st\<rparr>, Err e)
      | (st, Ok offset) \<Rightarrow>
          map_option (\<lambda>db'. (db', Ok ())) (db_index f offset (db\<lparr>db_storage := st\<rparr>)))"

definition add_worker_message_bytes ::
  "fb_codec \<Rightarrow> bytes \<Rightarrow> nostr_db \<Rightarrow> (nostr_db \<times> (database_error + unit)) option" where
  "add_worker_message_bytes fb bs db =
     (case decode_event fb bs of
        DecEvent f \<Rightarrow> store_and_index f bs db
      | DecSkip \<Rightarrow> Some (db, Ok ())
      | DecFail \<Rightarrow> Some (db, Err (StorageError FbDecode)))"

text \<open>The duplicate check of the two \<open>_with_bytes\<close> entry points: a readable copy makes them return.\<close>

definition already_stored :: "string \<Rightarrow> nostr_db \<Rightarrow> bool" where
  "already_stored event_id db =
     (case fmlookup (events_by_id (db_indexes db)) event_id of
        Some r \<Rightarrow> sharded_contains_offset (er_offset r) (db_storage db)
      | None \<Rightarrow> False)"

definition add_parsed_event_with_bytes ::
  "parsed_event \<Rightarrow> bytes \<Rightarrow> nostr_db \<Rightarrow> (nostr_db \<times> (database_error + unit)) option" where
  "add_parsed_event_with_bytes p bs db =
     (if already_stored (pe_id p) db then Some (db, Ok ())
      else store_and_index (parsed_fields p) bs db)"

definition add_nostr_event_with_bytes ::
  "nostr_event \<Rightarrow> bytes \<Rightarrow> nostr_db \<Rightarrow> (nostr_db \<times> (database_error + unit)) option" where
  "add_nostr_event_with_bytes n bs db =
     (if already_stored (ne_id n) db then Some (db, Ok ())
      else store_and_index (nostr_fields n) bs db)"

text \<open>
  \<open>add_event_from_fb\<close> copies the table into a new buffer, dropping tags without items, and stores
  that; the builder is the parameter \<open>build\<close>.
\<close>

definition add_event_from_fb ::
  "(nostr_event \<Rightarrow> bytes) \<Rightarrow> nostr_event \<Rightarrow> nostr_db \<Rightarrow> (nostr_db \<times> (database_error + unit)) option" where
  "add_event_from_fb build n db =
     store_and_index (nostr_fields n)
       (build (n\<lparr>ne_tags := filter (\<lambda>tag. tag \<noteq> None) (ne_tags n)\<rparr>)) db"

section \<open>Replaying deletions\<close>

definition apply_deletions_from_bytes :: "fb_codec \<Rightarrow> bytes \<Rightarrow> nostr_db \<Rightarrow> nostr_db \<times> string option" where
  "apply_deletions_from_bytes fb bs db =
     (case root_worker_message fb bs of
        Some (WmParsed (Some p)) \<Rightarrow>
          if pe_kind p = EVENT_DELETION
          then (db\<lparr>db_tombstones := process_deletion_tags (pe_pubkey p) (pe_created_at p) (pe_tags p)
                     (db_indexes db) (db_tombstones db)\<rparr>, Some (pe_id p))
          else (db, None)
      | Some (WmNostr (Some n)) \<Rightarrow>
          if ne_kind n = EVENT_DELETION
          then (db\<lparr>db_tombstones := process_deletion_tags (ne_pubkey n) (clamp_i32 (ne_created_at n)) (ne_tags n)
                     (db_indexes db) (db_tombstones db)\<rparr>, Some (ne_id n))
          else (db, None)
      | _ \<Rightarrow> (db, None))"

definition deleted_count :: "nostr_db \<Rightarrow> nat" where
  "deleted_count db = fcard (deleted_keys (db_tombstones db))"

section \<open>Rebuilding from storage\<close>

definition read_events :: "sharded_storage \<Rightarrow> u64 list \<Rightarrow> bytes list" where
  "read_events st offsets =
     List.map_filter (\<lambda>off. case sharded_get_event off st of Ok b \<Rightarrow> b | Err _ \<Rightarrow> None) offsets"

definition decoded_events :: "fb_codec \<Rightarrow> bytes list \<Rightarrow> event_fields list" where
  "decoded_events fb raw =
     List.map_filter (\<lambda>bs. case decode_event fb bs of DecEvent f \<Rightarrow> Some f | _ \<Rightarrow> None) raw"

text \<open>The pre-allocation pass: frequent authors and every kind get an empty set.\<close>

definition preallocate :: "event_fields list \<Rightarrow> database_indexes \<Rightarrow> database_indexes" where
  "preallocate fs idx =
     (let pubs = map ef_pubkey fs; kinds = map ef_kind fs in
      idx\<lparr>events_by_pubkey :=
            fold (\<lambda>p m. fmupd p {||} m) (filter (\<lambda>p. count_list pubs p > 5) (remdups pubs)) (events_by_pubkey idx),
          events_by_kind := fold (\<lambda>k m. fmupd k {||} m) (remdups kinds) (events_by_kind idx)\<rparr>)"

text \<open>
  The indexing pass. \<open>raw_events\<close> holds only the readable events, and the source takes
  \<open>events_offset[i]\<close> for the \<open>i\<close>-th of them: the pairing is \<open>zip\<close>.
\<close>

fun index_pairs ::
  "fb_codec \<Rightarrow> (u64 \<times> bytes) list \<Rightarrow> database_indexes \<times> tombstones \<Rightarrow> (database_indexes \<times> tombstones) option" where
  "index_pairs fb [] st = Some st"
| "index_pairs fb ((off, bs) # rest) st =
     (case decode_event fb bs of
        DecEvent f \<Rightarrow>
          (case index_event_fields f off st of None \<Rightarrow> None | Some st' \<Rightarrow> index_pairs fb rest st')
      | _ \<Rightarrow> index_pairs fb rest st)"

definition build_indexes_from_events :: "fb_codec \<Rightarrow> u64 list \<Rightarrow> nostr_db \<Rightarrow> nostr_db option" where
  "build_indexes_from_events fb events_offset db =
     (let raw = read_events (db_storage db) events_offset;
          idx = preallocate (decoded_events fb raw) (db_indexes db)
      in map_option (\<lambda>(idx, t). db\<lparr>db_indexes := idx, db_tombstones := t\<rparr>)
           (index_pairs fb (zip events_offset raw) (idx, db_tombstones db)))"

definition reset_indexes :: "nostr_db \<Rightarrow> nostr_db" where
  "reset_indexes db = db\<lparr>db_indexes := indexes_clear (db_indexes db), db_tombstones := tombstones_clear\<rparr>"

definition load_into_indexes :: "fb_codec \<Rightarrow> nostr_db \<Rightarrow> (nostr_db \<times> (database_error + unit)) option" where
  "load_into_indexes fb db =
     (case sharded_load_events (db_storage db) of
        Err e \<Rightarrow> Some (db, Err e)
      | Ok events \<Rightarrow>
          if events = [] then Some (db, Ok ())
          else map_option (\<lambda>db'. (db', Ok ())) (build_indexes_from_events fb events db))"

definition rebuild_indexes_from_storage :: "fb_codec \<Rightarrow> nostr_db \<Rightarrow> (nostr_db \<times> (database_error + unit)) option" where
  "rebuild_indexes_from_storage fb db = load_into_indexes fb (reset_indexes db)"

definition db_initialize :: "fb_codec \<Rightarrow> nostr_db \<Rightarrow> (nostr_db \<times> (database_error + unit)) option" where
  "db_initialize fb db =
     (if db_initialized db then Some (db, Ok ())
      else let db1 = reset_indexes db in
        (case sharded_initialize (db_storage db1) of
           (st, Err e) \<Rightarrow> Some (db1\<lparr>db_storage := st\<rparr>, Err e)
         | (st, Ok _) \<Rightarrow>
             (case load_into_indexes fb (db1\<lparr>db_storage := st\<rparr>) of
                None \<Rightarrow> None
              | Some (db2, Err e) \<Rightarrow> Some (db2, Err e)
              | Some (db2, Ok _) \<Rightarrow> Some (db2\<lparr>db_initialized := True\<rparr>, Ok ()))))"

definition db_get_event :: "string \<Rightarrow> nostr_db \<Rightarrow> bytes option" where
  "db_get_event event_id db =
     (case fmlookup (events_by_id (db_indexes db)) event_id of
        None \<Rightarrow> None
      | Some r \<Rightarrow> (case sharded_get_event (er_offset r) (db_storage db) of Ok b \<Rightarrow> b | Err _ \<Rightarrow> None))"

definition has_event :: "string \<Rightarrow> nostr_db \<Rightarrow> bool" where
  "has_event event_id db = (event_id \<in> fmdom' (events_by_id (db_indexes db)))"

section \<open>What the indexes mean\<close>

type_synonym history = "(event_fields \<times> u64) list"

definition tag_is :: "string \<Rightarrow> string \<Rightarrow> fb_tag \<Rightarrow> bool" where
  "tag_is k v tag = (case tag of Some items \<Rightarrow> 2 \<le> length items \<and> items ! 0 = k \<and> items ! 1 = v | None \<Rightarrow> False)"

definition has_tag :: "string \<Rightarrow> string \<Rightarrow> event_fields \<Rightarrow> bool" where
  "has_tag k v f = list_ex (tag_is k v) (ef_tags f)"

definition latest :: "history \<Rightarrow> string \<Rightarrow> (event_fields \<times> u64) option" where
  "latest h event_id = find (\<lambda>(f, off). ef_id f = event_id) (rev h)"

definition key_of :: "database_indexes \<Rightarrow> string \<Rightarrow> event_key option" where
  "key_of idx event_id = map_option er_key (fmlookup (events_by_id idx) event_id)"

text \<open>The keys of the indexed events that satisfy a predicate on their fields.\<close>

definition keys_where :: "database_indexes \<Rightarrow> history \<Rightarrow> (event_fields \<Rightarrow> bool) \<Rightarrow> event_key set" where
  "keys_where idx h Q = {k. \<exists>(f, off) \<in> set h. Q f \<and> key_of idx (ef_id f) = Some k}"

definition tag_letters :: "string list" where
  "tag_letters = [''e'', ''E'', ''p'', ''P'', ''a'', ''d'', ''q'']"

definition tag_map :: "string \<Rightarrow> database_indexes \<Rightarrow> (string, event_key fset) fmap" where
  "tag_map k idx =
     (if k = ''e'' then events_by_e_tag idx else if k = ''E'' then events_by_E_tag idx
      else if k = ''p'' then events_by_p_tag idx else if k = ''P'' then events_by_P_tag idx
      else if k = ''a'' then events_by_a_tag idx else if k = ''d'' then events_by_d_tag idx
      else if k = ''q'' then events_by_q_tag idx else fmempty)"

definition record_of :: "event_fields \<times> u64 \<Rightarrow> event_record \<Rightarrow> bool" where
  "record_of e r \<longleftrightarrow> er_offset r = snd e \<and> er_created_at r = ef_created_at (fst e)"

text \<open>The two record maps agree with the latest version of every id, and keys are handed out in order.\<close>

definition records_ok :: "history \<Rightarrow> database_indexes \<Rightarrow> bool" where
  "records_ok h idx \<longleftrightarrow>
     (\<forall>i. rel_option record_of (latest h i) (fmlookup (events_by_id idx) i)) \<and>
     (\<forall>i r. fmlookup (events_by_id idx) i = Some r \<longrightarrow>
        fmlookup (events_by_key idx) (er_key r) = Some r \<and> er_key r < next_event_key idx) \<and>
     (\<forall>k r. fmlookup (events_by_key idx) k = Some r \<longrightarrow>
        er_key r = k \<and> (\<exists>i. fmlookup (events_by_id idx) i = Some r)) \<and>
     (\<forall>i j r s. fmlookup (events_by_id idx) i = Some r \<longrightarrow> fmlookup (events_by_id idx) j = Some s \<longrightarrow>
        er_key r = er_key s \<longrightarrow> i = j) \<and>
     unat (next_event_key idx) = event_count idx"

definition postings_ok :: "history \<Rightarrow> database_indexes \<Rightarrow> bool" where
  "postings_ok h idx \<longleftrightarrow>
     (\<forall>v. fset (posting (events_by_kind idx) v) = keys_where idx h (\<lambda>f. ef_kind f = v)) \<and>
     (\<forall>v. fset (posting (events_by_pubkey idx) v) = keys_where idx h (\<lambda>f. ef_pubkey f = v)) \<and>
     (\<forall>k \<in> set tag_letters. \<forall>v. fset (posting (tag_map k idx) v) = keys_where idx h (has_tag k v))"

definition index_ok :: "history \<Rightarrow> database_indexes \<Rightarrow> bool" where
  "index_ok h idx \<longleftrightarrow> records_ok h idx \<and> postings_ok h idx"

section \<open>The invariant\<close>

lemma posting_empty [simp]: "posting fmempty v = {||}"
  by (simp add: posting_def)

lemma posting_idx_insert [simp]:
  "posting (idx_insert v key m) w = (if w = v then finsert key (posting m v) else posting m w)"
  by (simp add: idx_insert_def posting_def)

lemma latest_Nil [simp]: "latest [] i = None"
  by (simp add: latest_def)

lemma latest_snoc [simp]: "latest (h @ [(f, off)]) i = (if ef_id f = i then Some (f, off) else latest h i)"
  by (simp add: latest_def)

lemma latest_None_iff: "latest h i = None \<longleftrightarrow> (\<forall>(f, off) \<in> set h. ef_id f \<noteq> i)"
  by (auto simp: latest_def find_None_iff)

lemma latest_SomeD: "latest h i = Some (f, off) \<Longrightarrow> (f, off) \<in> set h \<and> ef_id f = i"
  by (auto simp: latest_def find_Some_iff in_set_conv_nth) (metis length_rev nth_mem set_rev in_set_conv_nth)

lemma index_tag_frame [simp]:
  "events_by_id (index_tag key tag idx) = events_by_id idx"
  "events_by_key (index_tag key tag idx) = events_by_key idx"
  "next_event_key (index_tag key tag idx) = next_event_key idx"
  "events_by_kind (index_tag key tag idx) = events_by_kind idx"
  "events_by_pubkey (index_tag key tag idx) = events_by_pubkey idx"
  by (simp_all add: index_tag_def Let_def split: option.splits)

lemma fold_index_tag_frame [simp]:
  "events_by_id (fold (index_tag key) tags idx) = events_by_id idx"
  "events_by_key (fold (index_tag key) tags idx) = events_by_key idx"
  "next_event_key (fold (index_tag key) tags idx) = next_event_key idx"
  "events_by_kind (fold (index_tag key) tags idx) = events_by_kind idx"
  "events_by_pubkey (fold (index_tag key) tags idx) = events_by_pubkey idx"
  by (induction tags arbitrary: idx) simp_all

lemma index_tag_posting:
  assumes "k \<in> set tag_letters"
  shows "posting (tag_map k (index_tag key tag idx)) v =
    (if tag_is k v tag then finsert key (posting (tag_map k idx) v) else posting (tag_map k idx) v)"
  using assms unfolding tag_letters_def
  by (auto simp: index_tag_def tag_is_def tag_map_def Let_def split: option.splits)

lemma fold_index_tag_posting:
  assumes "k \<in> set tag_letters"
  shows "posting (tag_map k (fold (index_tag key) tags idx)) v =
    (if list_ex (tag_is k v) tags then finsert key (posting (tag_map k idx) v) else posting (tag_map k idx) v)"
  by (induction tags arbitrary: idx) (auto simp: index_tag_posting [OF assms])

lemma records_okD:
  assumes "records_ok h idx"
  shows "rel_option record_of (latest h i) (fmlookup (events_by_id idx) i)"
    and "fmlookup (events_by_id idx) i = Some r \<Longrightarrow> fmlookup (events_by_key idx) (er_key r) = Some r"
    and "fmlookup (events_by_id idx) i = Some r \<Longrightarrow> er_key r < next_event_key idx"
    and "fmlookup (events_by_key idx) k = Some r \<Longrightarrow> er_key r = k"
    and "fmlookup (events_by_key idx) k = Some r \<Longrightarrow> \<exists>i. fmlookup (events_by_id idx) i = Some r"
    and "fmlookup (events_by_id idx) i = Some r \<Longrightarrow> fmlookup (events_by_id idx) j = Some s \<Longrightarrow>
       er_key r = er_key s \<Longrightarrow> i = j"
    and "unat (next_event_key idx) = event_count idx"
  using assms unfolding records_ok_def by blast+

lemma key_of_indexed:
  assumes "records_ok h idx" "(f, off) \<in> set h"
  obtains k where "key_of idx (ef_id f) = Some k"
proof -
  have "latest h (ef_id f) \<noteq> None" using assms(2) by (auto simp: latest_None_iff)
  then have "fmlookup (events_by_id idx) (ef_id f) \<noteq> None"
    using records_okD(1) [OF assms(1), of "ef_id f"] by (metis option.rel_distinct(2) not_None_eq)
  then show thesis using that by (auto simp: key_of_def)
qed

lemma upsert_records:
  assumes ok: "records_ok h idx" and up: "upsert_event_record (ef_id f) off (ef_created_at f) idx = Some (idx', key)"
  shows "records_ok (h @ [(f, off)]) idx' \<and> key_of idx' (ef_id f) = Some key \<and>
    (\<forall>(g, o') \<in> set h. key_of idx' (ef_id g) = key_of idx (ef_id g))"
proof (cases "fmlookup (events_by_id idx) (ef_id f)")
  case (Some r)
  define r' where "r' = r\<lparr>er_offset := off, er_created_at := ef_created_at f\<rparr>"
  have idx': "idx' = idx\<lparr>events_by_id := fmupd (ef_id f) r' (events_by_id idx),
      events_by_key := fmupd (er_key r) r' (events_by_key idx)\<rparr>" and key: "key = er_key r"
    using up Some by (auto simp: upsert_event_record_def Let_def r'_def)
  have k: "er_key r' = er_key r" by (simp add: r'_def)
  note old = records_okD [OF ok]
  have cnt: "event_count idx' = event_count idx"
    using Some by (simp add: event_count_def idx' fmdomI finsert_absorb)
  have same: "key_of idx' i = key_of idx i" for i using Some by (auto simp: key_of_def idx' k)
  have "records_ok (h @ [(f, off)]) idx'"
    unfolding records_ok_def
  proof (intro conjI allI impI)
    show "rel_option record_of (latest (h @ [(f, off)]) i) (fmlookup (events_by_id idx') i)" for i
      using old(1) by (auto simp: idx' record_of_def r'_def)
    show "unat (next_event_key idx') = event_count idx'" using old(7) cnt by (simp add: idx')
    fix i t assume t: "fmlookup (events_by_id idx') i = Some t"
    show "fmlookup (events_by_key idx') (er_key t) = Some t"
      using t k old(2) [of i t] old(6) [OF Some, of i t] by (auto simp: idx' split: if_splits)
    show "er_key t < next_event_key idx'"
      using t k old(3) [of i t] old(3) [OF Some] by (auto simp: idx' split: if_splits)
  next
    fix q t assume t: "fmlookup (events_by_key idx') q = Some t"
    show "er_key t = q" using t k old(4) by (auto simp: idx' split: if_splits)
    show "\<exists>i. fmlookup (events_by_id idx') i = Some t"
    proof (cases "q = er_key r")
      case True then show ?thesis using t by (auto simp: idx')
    next
      case False
      then have "fmlookup (events_by_key idx) q = Some t" using t by (simp add: idx')
      then obtain i where i: "fmlookup (events_by_id idx) i = Some t" "er_key t = q" using old(4,5) by blast
      then have "i \<noteq> ef_id f" using False Some by auto
      then show ?thesis using i by (intro exI [of _ i]) (auto simp: idx')
    qed
  next
    fix i j t u assume "fmlookup (events_by_id idx') i = Some t" "fmlookup (events_by_id idx') j = Some u" "er_key t = er_key u"
    then have "key_of idx' i = Some (er_key t)" "key_of idx' j = Some (er_key t)" by (simp_all add: key_of_def)
    then show "i = j" unfolding same using old(6) by (auto simp: key_of_def)
  qed
  then show ?thesis using same Some key by (simp add: key_of_def)
next
  case None
  define key0 where "key0 = next_event_key idx"
  define r' where "r' = \<lparr>er_key = key0, er_offset = off, er_created_at = ef_created_at f\<rparr>"
  have nk: "key0 \<noteq> - 1" and key: "key = key0"
    and idx': "idx' = idx\<lparr>next_event_key := key0 + 1, events_by_id := fmupd (ef_id f) r' (events_by_id idx),
      events_by_key := fmupd key0 r' (events_by_key idx)\<rparr>"
    using up None by (auto simp: upsert_event_record_def Let_def r'_def key0_def split: if_splits)
  have k: "er_key r' = key0" by (simp add: r'_def)
  note old = records_okD [OF ok]
  have suc: "unat (key0 + 1) = Suc (unat key0)"
    using nk by (metis add.commute add_eq_0_iff2 unatSuc)
  have cnt: "event_count idx' = Suc (event_count idx)"
    using None by (simp add: event_count_def idx' fmdom_notI fcard_finsert_disjoint)
  have fresh: "er_key t < key0" if "fmlookup (events_by_id idx) i = Some t" for i t
    using old(3) [OF that] by (simp add: key0_def)
  have lt: "x < key0 + 1" if "x \<le> key0" for x
    using that suc by (simp add: word_le_nat_alt word_less_nat_alt)
  have "records_ok (h @ [(f, off)]) idx'"
    unfolding records_ok_def
  proof (intro conjI allI impI)
    show "rel_option record_of (latest (h @ [(f, off)]) i) (fmlookup (events_by_id idx') i)" for i
      using old(1) by (auto simp: idx' record_of_def r'_def)
    show "unat (next_event_key idx') = event_count idx'" using old(7) cnt suc by (simp add: idx' key0_def)
    fix i t assume t: "fmlookup (events_by_id idx') i = Some t"
    show "fmlookup (events_by_key idx') (er_key t) = Some t"
      using t k old(2) [of i t] fresh [of i t] by (auto simp: idx' split: if_splits)
    show "er_key t < next_event_key idx'"
      using t k fresh [of i t] lt [of "er_key t"] by (auto simp: idx' less_imp_le split: if_splits)
  next
    fix q t assume t: "fmlookup (events_by_key idx') q = Some t"
    show "er_key t = q" using t k old(4) by (auto simp: idx' split: if_splits)
    show "\<exists>i. fmlookup (events_by_id idx') i = Some t"
    proof (cases "q = key0")
      case True then show ?thesis using t by (auto simp: idx')
    next
      case False
      then obtain i where "fmlookup (events_by_id idx) i = Some t" using t old(5) by (auto simp: idx')
      then show ?thesis using None by (intro exI [of _ i]) (auto simp: idx')
    qed
  next
    fix i j t u assume "fmlookup (events_by_id idx') i = Some t" "fmlookup (events_by_id idx') j = Some u" "er_key t = er_key u"
    then show "i = j" using k old(6) [of i t j u] fresh [of i t] fresh [of j u] by (auto simp: idx' split: if_splits)
  qed
  moreover have "key_of idx' (ef_id g) = key_of idx (ef_id g)" if "(g, o') \<in> set h" for g o'
  proof -
    have "ef_id g \<noteq> ef_id f" using that key_of_indexed [OF ok] None by (metis key_of_def option.distinct(1) option.simps(8))
    then show ?thesis by (simp add: key_of_def idx')
  qed
  ultimately show ?thesis using key k by (auto simp: key_of_def idx')
qed

lemma tag_map_frame:
  "tag_map k (idx\<lparr>events_by_kind := a, events_by_pubkey := b\<rparr>) = tag_map k idx"
  "tag_map k (idx\<lparr>events_by_id := c, events_by_key := d\<rparr>) = tag_map k idx"
  "tag_map k (idx\<lparr>next_event_key := n\<rparr>) = tag_map k idx"
  by (simp_all add: tag_map_def)

lemma upsert_postings:
  assumes "upsert_event_record i off c idx = Some (idx', key)"
  shows "events_by_kind idx' = events_by_kind idx" "events_by_pubkey idx' = events_by_pubkey idx"
    "tag_map k idx' = tag_map k idx"
  using assms by (auto simp: upsert_event_record_def Let_def tag_map_frame split: option.splits if_splits)

lemma keys_where_snoc:
  assumes "\<forall>(g, o') \<in> set h. key_of idx' (ef_id g) = key_of idx (ef_id g)" "key_of idx' (ef_id f) = Some key"
  shows "keys_where idx' (h @ [(f, off)]) Q = (if Q f then insert key (keys_where idx h Q) else keys_where idx h Q)"
proof -
  have eq: "key_of idx' (ef_id g) = key_of idx (ef_id g)" if "(g, o') \<in> set h" for g o'
    using assms(1) that by blast
  have "k \<in> keys_where idx' (h @ [(f, off)]) Q \<longleftrightarrow> (Q f \<and> k = key) \<or> k \<in> keys_where idx h Q" for k
    using eq assms(2) unfolding keys_where_def by force
  then show ?thesis by auto
qed

lemma index_event_fields_ok:
  assumes ok: "index_ok h idx" and step: "index_event_fields f off (idx, t) = Some (idx', t')"
  shows "index_ok (h @ [(f, off)]) idx'"
proof -
  obtain idx1 key where up: "upsert_event_record (ef_id f) off (ef_created_at f) idx = Some (idx1, key)"
    using step by (auto simp: index_event_fields_def split: option.splits)
  define idx2 where "idx2 = idx1\<lparr>events_by_kind := idx_insert (ef_kind f) key (events_by_kind idx1),
      events_by_pubkey := idx_insert (ef_pubkey f) key (events_by_pubkey idx1)\<rparr>"
  have idx': "idx' = fold (index_tag key) (ef_tags f) idx2"
    using step up by (simp add: index_event_fields_def Let_def idx2_def)
  note ok1 = upsert_records [OF _ up, of h]
  have r: "records_ok h idx" "postings_ok h idx" using ok by (simp_all add: index_ok_def)
  have keyof: "key_of idx' = key_of idx1" by (simp add: fun_eq_iff key_of_def idx' idx2_def)
  have rec: "records_ok (h @ [(f, off)]) idx'"
    using ok1 [OF r(1)] by (simp add: records_ok_def idx' idx2_def event_count_def)
  have ks: "keys_where idx' (h @ [(f, off)]) Q = (if Q f then insert key (keys_where idx h Q) else keys_where idx h Q)" for Q
    using ok1 [OF r(1)] by (intro keys_where_snoc) (simp_all add: keyof)
  have "postings_ok (h @ [(f, off)]) idx'"
    using r(2) unfolding postings_ok_def ks
    by (auto simp: idx' idx2_def fold_index_tag_posting has_tag_def upsert_postings [OF up] tag_map_frame)
  then show ?thesis using rec by (simp add: index_ok_def)
qed

lemma index_event_fields_total:
  assumes "records_ok h idx" "event_count idx < 2 ^ 32 - 1"
  shows "\<exists>idx' t'. index_event_fields f off (idx, t) = Some (idx', t')"
proof -
  have "next_event_key idx \<noteq> - 1"
  proof
    assume "next_event_key idx = - 1"
    then have "unat (next_event_key idx) = 2 ^ 32 - 1" by (simp add: unsigned_minus_1_eq_mask mask_eq_exp_minus_1)
    then show False using assms(2) records_okD(7) [OF assms(1)] by simp
  qed
  then show ?thesis
    by (auto simp: index_event_fields_def upsert_event_record_def Let_def split: option.splits)
qed

lemma index_event_fields_count:
  assumes "index_event_fields f off (idx, t) = Some (idx', t')"
  shows "event_count idx' \<le> Suc (event_count idx)"
  using assms
  by (auto simp: index_event_fields_def upsert_event_record_def Let_def event_count_def fcard_finsert_if
      split: option.splits if_splits)

text \<open>Pre-allocated empty sets are invisible.\<close>

lemma posting_prealloc: "posting (fold (\<lambda>p m. fmupd p {||} m) ps fmempty) v = {||}"
proof -
  have "posting m v = {||} \<Longrightarrow> posting (fold (\<lambda>p m. fmupd p {||} m) ps m) v = {||}" for m
    by (induction ps arbitrary: m) (auto simp: posting_def)
  then show ?thesis by simp
qed

lemma index_ok_fresh: "index_ok [] (preallocate fs (indexes_clear idx))"
  by (simp add: index_ok_def records_ok_def postings_ok_def preallocate_def indexes_clear_def Let_def
      posting_prealloc keys_where_def event_count_def tag_map_def)

lemma index_ok_clear: "index_ok [] (indexes_clear idx)"
  by (simp add: index_ok_def records_ok_def postings_ok_def indexes_clear_def
      keys_where_def event_count_def tag_map_def)

lemma index_ok_new: "index_ok [] indexes_new"
  by (simp add: index_ok_def records_ok_def postings_ok_def indexes_new_def
      keys_where_def event_count_def tag_map_def)

definition indexed_pairs :: "fb_codec \<Rightarrow> (u64 \<times> bytes) list \<Rightarrow> history" where
  "indexed_pairs fb ps =
     List.map_filter (\<lambda>(off, bs). case decode_event fb bs of DecEvent f \<Rightarrow> Some (f, off) | _ \<Rightarrow> None) ps"

lemma index_pairs_ok:
  assumes "index_ok h idx" "event_count idx + length ps < 2 ^ 32"
  shows "\<exists>idx' t'. index_pairs fb ps (idx, t) = Some (idx', t') \<and> index_ok (h @ indexed_pairs fb ps) idx'"
  using assms
proof (induction ps arbitrary: h idx t)
  case Nil
  then show ?case by (simp add: indexed_pairs_def List.map_filter_def)
next
  case (Cons p ps)
  obtain off bs where p: "p = (off, bs)" by fastforce
  show ?case
  proof (cases "decode_event fb bs")
    case (DecEvent f)
    have "event_count idx < 2 ^ 32 - 1" using Cons.prems(2) by simp
    then obtain idx1 t1 where st: "index_event_fields f off (idx, t) = Some (idx1, t1)"
      using index_event_fields_total Cons.prems(1) unfolding index_ok_def by blast
    have "index_ok (h @ [(f, off)]) idx1" using index_event_fields_ok [OF Cons.prems(1) st] .
    moreover have "event_count idx1 + length ps < 2 ^ 32"
      using index_event_fields_count [OF st] Cons.prems(2) by simp
    ultimately obtain idx' t' where "index_pairs fb ps (idx1, t1) = Some (idx', t')"
      "index_ok ((h @ [(f, off)]) @ indexed_pairs fb ps) idx'" using Cons.IH by blast
    then show ?thesis using st DecEvent by (simp add: p indexed_pairs_def List.map_filter_simps)
  qed (use Cons in \<open>simp_all add: p indexed_pairs_def List.map_filter_simps\<close>)
qed

end
