(* ===== verification/Nostr_Query.thy ===== *)
theory Nostr_Query
  imports Nostr_Index
begin

text \<open>
  Queries over the indexes, after the query half of \<open>storage/db/index.rs\<close>. A filter is answered by
  intersecting the candidate sets of its indexed fields, driving from the smallest, then pruning by
  tombstone, time window and readability, selecting the newest \<open>limit\<close> and reading only those. The
  theory shows that this equals a scan of the indexed events with the filter's meaning.

  Two behaviours of the standard library are unspecified and are parameters (\<open>platform\<close>): the order
  in which a hash set yields its keys, and the arrangement \<open>select_nth_unstable_by\<close> leaves;
  \<open>platform_ok\<close> is their documented contract.
\<close>

section \<open>The query\<close>

record platform =
  iter_order :: "event_key fset \<Rightarrow> event_key list"
  select_nth :: "nat \<Rightarrow> (u32 \<times> u64) list \<Rightarrow> (u32 \<times> u64) list"

definition platform_ok :: "platform \<Rightarrow> bool" where
  "platform_ok pf \<longleftrightarrow>
     (\<forall>s. distinct (iter_order pf s) \<and> set (iter_order pf s) = fset s) \<and>
     (\<forall>n xs. n < length xs \<longrightarrow> mset (select_nth pf n xs) = mset xs \<and>
        (\<forall>i \<le> n. \<forall>j < length xs. n \<le> j \<longrightarrow> fst (select_nth pf n xs ! j) \<le> fst (select_nth pf n xs ! i)))"

fun retain_first :: "'a list \<Rightarrow> 'a list \<Rightarrow> 'a list" where
  "retain_first seen [] = []"
| "retain_first seen (x # xs) =
     (if x \<in> set seen then retain_first seen xs else x # retain_first (x # seen) xs)"

text \<open>\<open>dedup_strings\<close> and \<open>dedup_kinds\<close>.\<close>

definition dedup_values :: "'a list option \<Rightarrow> 'a list option" where
  "dedup_values values = map_option (\<lambda>vs. if length vs < 2 then vs else retain_first [] vs) values"

definition normalize_query_filter :: "query_filter \<Rightarrow> query_filter" where
  "normalize_query_filter flt = flt
     \<lparr>qf_ids := dedup_values (qf_ids flt), qf_authors := dedup_values (qf_authors flt),
      qf_kinds := dedup_values (qf_kinds flt), qf_e_tags := dedup_values (qf_e_tags flt),
      qf_E_tags := dedup_values (qf_E_tags flt), qf_p_tags := dedup_values (qf_p_tags flt),
      qf_P_tags := dedup_values (qf_P_tags flt), qf_a_tags := dedup_values (qf_a_tags flt),
      qf_d_tags := dedup_values (qf_d_tags flt), qf_q_tags := dedup_values (qf_q_tags flt)\<rparr>"

datatype gathered_candidates = Absent | Empty | Candidates "event_key fset"

definition gather_candidates :: "'k list option \<Rightarrow> ('k, event_key fset) fmap \<Rightarrow> gathered_candidates" where
  "gather_candidates values m =
     (case values of
        None \<Rightarrow> Absent
      | Some [v] \<Rightarrow>
          (case fmlookup m v of
             Some s \<Rightarrow> if s \<noteq> {||} then Candidates s else Empty
           | None \<Rightarrow> Empty)
      | Some vs \<Rightarrow>
          (let u = fold (\<lambda>v u. case fmlookup m v of Some s \<Rightarrow> u |\<union>| s | None \<Rightarrow> u) vs {||}
           in if u = {||} then Empty else Candidates u))"

definition gather_ids :: "string list option \<Rightarrow> database_indexes \<Rightarrow> gathered_candidates" where
  "gather_ids values idx =
     (case values of
        None \<Rightarrow> Absent
      | Some ids \<Rightarrow>
          (let s = fold (\<lambda>i s. case fmlookup (events_by_id idx) i of Some r \<Rightarrow> finsert (er_key r) s | None \<Rightarrow> s) ids {||}
           in if s = {||} then Empty else Candidates s))"

text \<open>The macro \<open>push_candidates!\<close> over the fields in order; \<open>None\<close> is its early return.\<close>

fun push_candidates :: "gathered_candidates list \<Rightarrow> event_key fset list option" where
  "push_candidates [] = Some []"
| "push_candidates (Absent # gs) = push_candidates gs"
| "push_candidates (Empty # gs) = None"
| "push_candidates (Candidates s # gs) = map_option (\<lambda>ss. s # ss) (push_candidates gs)"

definition gather_all :: "query_filter \<Rightarrow> database_indexes \<Rightarrow> gathered_candidates list" where
  "gather_all flt idx =
     [gather_ids (qf_ids flt) idx,
      gather_candidates (qf_kinds flt) (events_by_kind idx),
      gather_candidates (qf_authors flt) (events_by_pubkey idx),
      gather_candidates (qf_e_tags flt) (events_by_e_tag idx),
      gather_candidates (qf_E_tags flt) (events_by_E_tag idx),
      gather_candidates (qf_p_tags flt) (events_by_p_tag idx),
      gather_candidates (qf_P_tags flt) (events_by_P_tag idx),
      gather_candidates (qf_a_tags flt) (events_by_a_tag idx),
      gather_candidates (qf_d_tags flt) (events_by_d_tag idx),
      gather_candidates (qf_q_tags flt) (events_by_q_tag idx)]"

definition considered :: "query_filter \<Rightarrow> nostr_db \<Rightarrow> event_record \<Rightarrow> bool" where
  "considered flt db r \<longleftrightarrow>
     \<not> (deleted_keys (db_tombstones db) \<noteq> {||} \<and> er_key r |\<in>| deleted_keys (db_tombstones db)) \<and>
     (case qf_since flt of Some since \<Rightarrow> \<not> er_created_at r < since | None \<Rightarrow> True) \<and>
     (case qf_until flt of Some until \<Rightarrow> \<not> er_created_at r > until | None \<Rightarrow> True) \<and>
     sharded_contains_offset (er_offset r) (db_storage db)"

definition candidate_records :: "platform \<Rightarrow> event_key fset list \<Rightarrow> database_indexes \<Rightarrow> event_record list" where
  "candidate_records pf sets idx =
     (if sets = [] then List.map_filter (fmlookup (events_by_key idx)) (iter_order pf (fmdom (events_by_key idx)))
      else let order = sort_key fcard sets in
        List.map_filter (\<lambda>k. if list_all (\<lambda>s. k |\<in>| s) (tl order) then fmlookup (events_by_key idx) k else None)
          (iter_order pf (hd order)))"

definition newest_first :: "(u32 \<times> 'a) list \<Rightarrow> (u32 \<times> 'a) list" where
  "newest_first xs = sort_key (\<lambda>p. - uint (fst p)) xs"

definition apply_limit :: "platform \<Rightarrow> nat option \<Rightarrow> (u32 \<times> u64) list \<Rightarrow> (u32 \<times> u64) list" where
  "apply_limit pf limit survivors =
     (case limit of
        None \<Rightarrow> survivors
      | Some l \<Rightarrow>
          if l = 0 then []
          else if length survivors > l then take l (select_nth pf (l - 1) survivors)
          else survivors)"

definition empty_query_result :: query_result where
  "empty_query_result = \<lparr>qr_events = [], qr_total_found = 0, qr_has_more = False\<rparr>"

definition query_events_with_filter_inner ::
  "platform \<Rightarrow> query_filter \<Rightarrow> bool \<Rightarrow> nostr_db \<Rightarrow> database_error + query_result" where
  "query_events_with_filter_inner pf flt0 sort_results db =
     (let flt = normalize_query_filter flt0 in
      case push_candidates (gather_all flt (db_indexes db)) of
        None \<Rightarrow> Ok empty_query_result
      | Some sets \<Rightarrow>
          (let survivors = map (\<lambda>r. (er_created_at r, er_offset r))
                 (filter (considered flt db) (candidate_records pf sets (db_indexes db)));
               total_found = length survivors;
               chosen = apply_limit pf (qf_limit flt) survivors;
               chosen = (if sort_results then newest_first chosen else chosen)
           in Ok \<lparr>qr_events = read_events (db_storage db) (map snd chosen),
                  qr_total_found = total_found,
                  qr_has_more = (case qf_limit flt of Some l \<Rightarrow> total_found > l | None \<Rightarrow> False)\<rparr>))"

definition query_events_with_filter :: "platform \<Rightarrow> query_filter \<Rightarrow> nostr_db \<Rightarrow> database_error + query_result" where
  "query_events_with_filter pf flt db = query_events_with_filter_inner pf flt True db"

section \<open>The meaning of a filter\<close>

definition any_of :: "'a list option \<Rightarrow> ('a \<Rightarrow> bool) \<Rightarrow> bool" where
  "any_of values P = (case values of None \<Rightarrow> True | Some vs \<Rightarrow> list_ex P vs)"

definition matches_filter :: "query_filter \<Rightarrow> event_fields \<Rightarrow> bool" where
  "matches_filter flt f \<longleftrightarrow>
     any_of (qf_ids flt) (\<lambda>v. ef_id f = v) \<and> any_of (qf_kinds flt) (\<lambda>v. ef_kind f = v) \<and>
     any_of (qf_authors flt) (\<lambda>v. ef_pubkey f = v) \<and>
     any_of (qf_e_tags flt) (\<lambda>v. has_tag ''e'' v f) \<and> any_of (qf_E_tags flt) (\<lambda>v. has_tag ''E'' v f) \<and>
     any_of (qf_p_tags flt) (\<lambda>v. has_tag ''p'' v f) \<and> any_of (qf_P_tags flt) (\<lambda>v. has_tag ''P'' v f) \<and>
     any_of (qf_a_tags flt) (\<lambda>v. has_tag ''a'' v f) \<and> any_of (qf_d_tags flt) (\<lambda>v. has_tag ''d'' v f) \<and>
     any_of (qf_q_tags flt) (\<lambda>v. has_tag ''q'' v f) \<and>
     (\<forall>s. qf_since flt = Some s \<longrightarrow> s \<le> ef_created_at f) \<and>
     (\<forall>u. qf_until flt = Some u \<longrightarrow> ef_created_at f \<le> u)"

text \<open>The ids whose latest indexed version matches, is not deleted, and is still held by the storage.\<close>

definition is_deleted :: "string \<Rightarrow> nostr_db \<Rightarrow> bool" where
  "is_deleted i db \<longleftrightarrow> (\<exists>k. key_of (db_indexes db) i = Some k \<and> k |\<in>| deleted_keys (db_tombstones db))"

definition matching_ids :: "history \<Rightarrow> query_filter \<Rightarrow> nostr_db \<Rightarrow> string set" where
  "matching_ids h flt db =
     {i. \<exists>f off. latest h i = Some (f, off) \<and> matches_filter flt f \<and> \<not> is_deleted i db \<and>
        sharded_contains_offset off (db_storage db)}"

definition stamp :: "history \<Rightarrow> string \<Rightarrow> u32 \<times> u64" where
  "stamp h i = (case latest h i of Some (f, off) \<Rightarrow> (ef_created_at f, off) | None \<Rightarrow> (0, 0))"

text \<open>An id stands for one event: versions of the same id agree on what the indexes use.\<close>

definition ids_unique :: "history \<Rightarrow> bool" where
  "ids_unique h \<longleftrightarrow>
     (\<forall>(f, _) \<in> set h. \<forall>(g, _) \<in> set h. ef_id f = ef_id g \<longrightarrow>
        ef_kind f = ef_kind g \<and> ef_pubkey f = ef_pubkey g \<and> ef_tags f = ef_tags g)"

section \<open>Correctness of the candidate sets\<close>

definition admits :: "event_key \<Rightarrow> gathered_candidates \<Rightarrow> bool" where
  "admits k g = (case g of Absent \<Rightarrow> True | Empty \<Rightarrow> False | Candidates s \<Rightarrow> k |\<in>| s)"

lemma admits_simps [simp]: "admits k Absent" "\<not> admits k Empty" "admits k (Candidates s) \<longleftrightarrow> k |\<in>| s"
  by (simp_all add: admits_def)

lemma retain_first_set: "set (retain_first seen xs) = set xs - set seen"
  by (induction xs arbitrary: seen) auto

lemma any_of_dedup [simp]: "any_of (dedup_values vs) P = any_of vs P"
  by (cases vs) (auto simp: any_of_def dedup_values_def list_ex_iff retain_first_set)

lemma fold_union_mem:
  "k |\<in>| fold (\<lambda>v u. case fmlookup m v of Some s \<Rightarrow> u |\<union>| s | None \<Rightarrow> u) vs u \<longleftrightarrow>
   k |\<in>| u \<or> (\<exists>v \<in> set vs. k |\<in>| posting m v)"
  by (induction vs arbitrary: u) (auto simp: posting_def split: option.splits)

lemma admits_gather: "admits k (gather_candidates vs m) \<longleftrightarrow> any_of vs (\<lambda>v. k |\<in>| posting m v)"
proof -
  consider "vs = None" | v where "vs = Some [v]" | l where "vs = Some l" "\<forall>v. l \<noteq> [v]" by (cases vs) auto
  then show ?thesis
  proof cases
    case 1 then show ?thesis by (simp add: gather_candidates_def any_of_def)
  next
    case 2 then show ?thesis
      by (auto simp: gather_candidates_def any_of_def posting_def split: option.splits)
  next
    case 3
    define u where "u = fold (\<lambda>v u. case fmlookup m v of Some s \<Rightarrow> u |\<union>| s | None \<Rightarrow> u) l {||}"
    have "gather_candidates vs m = (if u = {||} then Empty else Candidates u)"
      using 3 by (auto simp: gather_candidates_def u_def Let_def split: list.splits)
    moreover have "k |\<in>| u \<longleftrightarrow> (\<exists>v \<in> set l. k |\<in>| posting m v)" by (simp add: u_def fold_union_mem)
    ultimately show ?thesis using 3 by (auto simp: any_of_def list_ex_iff)
  qed
qed

lemma fold_ids_mem:
  "k |\<in>| fold (\<lambda>i s. case fmlookup (events_by_id idx) i of Some r \<Rightarrow> finsert (er_key r) s | None \<Rightarrow> s) ids s \<longleftrightarrow>
   k |\<in>| s \<or> (\<exists>i \<in> set ids. key_of idx i = Some k)"
  by (induction ids arbitrary: s) (auto simp: key_of_def split: option.splits)

lemma admits_gather_ids: "admits k (gather_ids ids idx) \<longleftrightarrow> any_of ids (\<lambda>i. key_of idx i = Some k)"
proof (cases ids)
  case (Some l)
  define s where "s = fold (\<lambda>i s. case fmlookup (events_by_id idx) i of Some r \<Rightarrow> finsert (er_key r) s | None \<Rightarrow> s) l {||}"
  have "k |\<in>| s \<longleftrightarrow> (\<exists>i \<in> set l. key_of idx i = Some k)" by (simp add: s_def fold_ids_mem)
  moreover have "gather_ids ids idx = (if s = {||} then Empty else Candidates s)"
    by (simp add: gather_ids_def Some Let_def s_def)
  ultimately show ?thesis by (auto simp: Some any_of_def list_ex_iff)
qed (simp add: gather_ids_def any_of_def)

lemma push_candidates_None: "push_candidates gs = None \<Longrightarrow> \<exists>g \<in> set gs. \<not> admits k g"
  by (induction gs rule: push_candidates.induct) auto

lemma push_candidates_Some:
  "push_candidates gs = Some ss \<Longrightarrow> (\<forall>g \<in> set gs. admits k g) \<longleftrightarrow> (\<forall>s \<in> set ss. k |\<in>| s)"
  by (induction gs arbitrary: ss rule: push_candidates.induct) auto

lemma ids_uniqueD:
  "ids_unique h \<Longrightarrow> (f, a) \<in> set h \<Longrightarrow> (g, b) \<in> set h \<Longrightarrow> ef_id f = ef_id g \<Longrightarrow>
   ef_kind f = ef_kind g \<and> ef_pubkey f = ef_pubkey g \<and> ef_tags f = ef_tags g"
  unfolding ids_unique_def by blast

lemma keys_where_latest:
  assumes ok: "records_ok h idx" and uniq: "ids_unique h" and "latest h i = Some (f, off)" "key_of idx i = Some k"
    and resp: "\<And>g. ef_kind f = ef_kind g \<Longrightarrow> ef_pubkey f = ef_pubkey g \<Longrightarrow> ef_tags f = ef_tags g \<Longrightarrow> Q g \<longleftrightarrow> Q f"
  shows "k \<in> keys_where idx h Q \<longleftrightarrow> Q f"
proof
  assume "Q f"
  then show "k \<in> keys_where idx h Q" using assms(4) latest_SomeD [OF assms(3)] unfolding keys_where_def by blast
next
  assume "k \<in> keys_where idx h Q"
  then obtain g off' where g: "(g, off') \<in> set h" "Q g" "key_of idx (ef_id g) = Some k"
    by (auto simp: keys_where_def)
  have "ef_id g = i" using g(3) assms(4) records_okD(6) [OF ok] by (auto simp: key_of_def)
  moreover have "(f, off) \<in> set h \<and> ef_id f = i" using assms(3) by (rule latest_SomeD)
  ultimately have "ef_kind f = ef_kind g \<and> ef_pubkey f = ef_pubkey g \<and> ef_tags f = ef_tags g"
    using ids_uniqueD [OF uniq] g(1) by metis
  then show "Q f" using resp g(2) by blast
qed

lemma postings_okD:
  assumes "postings_ok h idx"
  shows "k |\<in>| posting (events_by_kind idx) c \<longleftrightarrow> k \<in> keys_where idx h (\<lambda>f. ef_kind f = c)"
    and "k |\<in>| posting (events_by_pubkey idx) v \<longleftrightarrow> k \<in> keys_where idx h (\<lambda>f. ef_pubkey f = v)"
    and "k |\<in>| posting (events_by_e_tag idx) v \<longleftrightarrow> k \<in> keys_where idx h (has_tag ''e'' v)"
    and "k |\<in>| posting (events_by_E_tag idx) v \<longleftrightarrow> k \<in> keys_where idx h (has_tag ''E'' v)"
    and "k |\<in>| posting (events_by_p_tag idx) v \<longleftrightarrow> k \<in> keys_where idx h (has_tag ''p'' v)"
    and "k |\<in>| posting (events_by_P_tag idx) v \<longleftrightarrow> k \<in> keys_where idx h (has_tag ''P'' v)"
    and "k |\<in>| posting (events_by_a_tag idx) v \<longleftrightarrow> k \<in> keys_where idx h (has_tag ''a'' v)"
    and "k |\<in>| posting (events_by_d_tag idx) v \<longleftrightarrow> k \<in> keys_where idx h (has_tag ''d'' v)"
    and "k |\<in>| posting (events_by_q_tag idx) v \<longleftrightarrow> k \<in> keys_where idx h (has_tag ''q'' v)"
  using assms by (simp_all add: postings_ok_def tag_letters_def tag_map_def)

definition matches_fields :: "query_filter \<Rightarrow> event_fields \<Rightarrow> bool" where
  "matches_fields flt f \<longleftrightarrow> matches_filter (flt\<lparr>qf_since := None, qf_until := None\<rparr>) f"

lemma admits_all:
  assumes ok: "index_ok h idx" and uniq: "ids_unique h"
    and l: "latest h i = Some (f, off)" "key_of idx i = Some k"
  shows "(\<forall>g \<in> set (gather_all flt idx). admits k g) \<longleftrightarrow> matches_fields flt f"
proof -
  have r: "records_ok h idx" "postings_ok h idx" using ok by (simp_all add: index_ok_def)
  note kw = keys_where_latest [OF r(1) uniq l]
  have tag: "k \<in> keys_where idx h (has_tag c v) \<longleftrightarrow> has_tag c v f" for c v
    by (rule kw) (simp add: has_tag_def)
  have kd: "k \<in> keys_where idx h (\<lambda>f. ef_kind f = v) \<longleftrightarrow> ef_kind f = v" for v
    by (rule kw) simp
  have pk: "k \<in> keys_where idx h (\<lambda>f. ef_pubkey f = v) \<longleftrightarrow> ef_pubkey f = v" for v
    by (rule kw) simp
  have i: "ef_id f = i" using latest_SomeD [OF l(1)] by simp
  have "key_of idx v = Some k \<longleftrightarrow> v = i" for v
    using l(2) records_okD(6) [OF r(1)] by (auto simp: key_of_def)
  then have "key_of idx v = Some k \<longleftrightarrow> ef_id f = v" for v using i by auto
  then show ?thesis
    by (simp add: gather_all_def admits_gather admits_gather_ids postings_okD [OF r(2)] tag kd pk
        matches_fields_def matches_filter_def)
qed

lemma sort_key_eq_Nil: "sort_key f xs = [] \<longleftrightarrow> xs = []"
  by (metis length_0_conv length_sort)

lemma map_filter_records:
  assumes "distinct ks" "\<And>k r. k \<in> set ks \<Longrightarrow> g k = Some r \<Longrightarrow> er_key r = k"
  shows "distinct (List.map_filter g ks) \<and> set (List.map_filter g ks) = {r. \<exists>k \<in> set ks. g k = Some r}"
  using assms
proof (induction ks)
  case (Cons k ks)
  have "distinct (List.map_filter g ks)" "set (List.map_filter g ks) = {r. \<exists>k \<in> set ks. g k = Some r}"
    using Cons by simp_all
  moreover have "r \<notin> {r. \<exists>k \<in> set ks. g k = Some r}" if "g k = Some r" for r
  proof
    assume "r \<in> {r. \<exists>k \<in> set ks. g k = Some r}"
    then obtain k' where "k' \<in> set ks" "g k' = Some r" by blast
    then have "k' = k" using Cons.prems(2) [of k' r] Cons.prems(2) [of k r] that by simp
    then show False using Cons.prems(1) \<open>k' \<in> set ks\<close> by simp
  qed
  ultimately show ?case by (cases "g k") (simp_all add: List.map_filter_simps, blast)
qed (simp add: List.map_filter_simps)

lemma candidate_records_set:
  assumes pf: "platform_ok pf" and ok: "records_ok h idx"
  shows "distinct (candidate_records pf sets idx) \<and>
    set (candidate_records pf sets idx) =
      {r. fmlookup (events_by_key idx) (er_key r) = Some r \<and> (\<forall>s \<in> set sets. er_key r |\<in>| s)}"
proof -
  have it: "distinct (iter_order pf s)" "set (iter_order pf s) = fset s" for s
    using pf by (simp_all add: platform_ok_def)
  note key = records_okD(4) [OF ok]
  show ?thesis
  proof (cases "sets = []")
    case True
    have "(\<exists>k \<in> fset (fmdom (events_by_key idx)). fmlookup (events_by_key idx) k = Some r) \<longleftrightarrow>
        fmlookup (events_by_key idx) (er_key r) = Some r" for r
      using key fmdomI by metis
    then show ?thesis
      using True map_filter_records [OF it(1) key, of "fmdom (events_by_key idx)"]
      by (simp add: candidate_records_def it(2))
  next
    case False
    define order where "order = sort_key fcard sets"
    have "order \<noteq> []" "set order = set sets"
      using False by (simp_all add: order_def sort_key_eq_Nil)
    then have all: "(\<forall>s \<in> set sets. k |\<in>| s) \<longleftrightarrow> k |\<in>| hd order \<and> list_all (\<lambda>s. k |\<in>| s) (tl order)" for k
      by (cases order) (auto simp: list_all_iff)
    define g where "g = (\<lambda>k. if list_all (\<lambda>s. k |\<in>| s) (tl order) then fmlookup (events_by_key idx) k else None)"
    have "candidate_records pf sets idx = List.map_filter g (iter_order pf (hd order))"
      using False by (simp add: candidate_records_def order_def g_def Let_def)
    moreover have "er_key r = k" if "g k = Some r" for k r using that key by (simp add: g_def split: if_splits)
    moreover have "(\<exists>k \<in> fset (hd order). g k = Some r) \<longleftrightarrow>
        fmlookup (events_by_key idx) (er_key r) = Some r \<and> (\<forall>s \<in> set sets. er_key r |\<in>| s)" for r
    proof
      assume "\<exists>k \<in> fset (hd order). g k = Some r"
      then obtain k where k: "k |\<in>| hd order" "list_all (\<lambda>s. k |\<in>| s) (tl order)" "fmlookup (events_by_key idx) k = Some r"
        by (auto simp: g_def split: if_splits)
      then show "fmlookup (events_by_key idx) (er_key r) = Some r \<and> (\<forall>s \<in> set sets. er_key r |\<in>| s)"
        unfolding all using key [OF k(3)] by simp
    next
      assume "fmlookup (events_by_key idx) (er_key r) = Some r \<and> (\<forall>s \<in> set sets. er_key r |\<in>| s)"
      then show "\<exists>k \<in> fset (hd order). g k = Some r"
        unfolding all g_def by auto
    qed
    ultimately show ?thesis using map_filter_records [OF it(1), of "hd order" g] by (simp add: it(2))
  qed
qed

lemma considered_iff:
  assumes "records_ok h (db_indexes db)" "fmlookup (events_by_id (db_indexes db)) i = Some r" "latest h i = Some (f, off)"
  shows "considered flt db r \<longleftrightarrow> \<not> is_deleted i db \<and> sharded_contains_offset off (db_storage db) \<and>
    (\<forall>s. qf_since flt = Some s \<longrightarrow> s \<le> ef_created_at f) \<and> (\<forall>u. qf_until flt = Some u \<longrightarrow> ef_created_at f \<le> u)"
proof -
  have "er_offset r = off" "er_created_at r = ef_created_at f"
    using records_okD(1) [OF assms(1), of i] assms(2,3) by (auto simp: record_of_def)
  then show ?thesis using assms(2)
    by (auto simp: considered_def is_deleted_def key_of_def not_less split: option.splits)
qed

lemma normalize_frame [simp]:
  "matches_fields (normalize_query_filter flt) f = matches_fields flt f"
  "considered (normalize_query_filter flt) db = considered flt db"
  "qf_limit (normalize_query_filter flt) = qf_limit flt"
  by (simp_all add: matches_fields_def matches_filter_def normalize_query_filter_def considered_def fun_eq_iff)

lemma matching_ids_iff:
  "i \<in> matching_ids h flt db \<longleftrightarrow> (\<exists>f off. latest h i = Some (f, off) \<and> matches_fields flt f \<and>
     (\<forall>s. qf_since flt = Some s \<longrightarrow> s \<le> ef_created_at f) \<and> (\<forall>u. qf_until flt = Some u \<longrightarrow> ef_created_at f \<le> u) \<and>
     \<not> is_deleted i db \<and> sharded_contains_offset off (db_storage db))"
  by (auto simp: matching_ids_def matches_fields_def matches_filter_def)

text \<open>The survivors of a query are, with their stamps, exactly the matching ids.\<close>

definition survivors :: "platform \<Rightarrow> query_filter \<Rightarrow> nostr_db \<Rightarrow> (u32 \<times> u64) list" where
  "survivors pf flt db =
     (case push_candidates (gather_all (normalize_query_filter flt) (db_indexes db)) of
        None \<Rightarrow> []
      | Some sets \<Rightarrow> map (\<lambda>r. (er_created_at r, er_offset r))
          (filter (considered flt db) (candidate_records pf sets (db_indexes db))))"

lemma query_inner_survivors:
  "query_events_with_filter_inner pf flt b db =
   Ok \<lparr>qr_events = read_events (db_storage db) (map snd
         ((if b then newest_first else (\<lambda>x. x)) (apply_limit pf (qf_limit flt) (survivors pf flt db)))),
       qr_total_found = length (survivors pf flt db),
       qr_has_more = (case qf_limit flt of Some l \<Rightarrow> length (survivors pf flt db) > l | None \<Rightarrow> False)\<rparr>"
proof (cases "push_candidates (gather_all (normalize_query_filter flt) (db_indexes db))")
  case None
  have "apply_limit pf (qf_limit flt) [] = []" "newest_first ([] :: (u32 \<times> u64) list) = []"
    by (auto simp: apply_limit_def newest_first_def split: option.splits)
  with None show ?thesis
    by (simp add: query_events_with_filter_inner_def survivors_def Let_def empty_query_result_def
        read_events_def List.map_filter_simps split: option.splits)
qed (simp add: query_events_with_filter_inner_def survivors_def Let_def split: option.splits)

lemma survivors_mset:
  assumes ok: "index_ok h (db_indexes db)" and uniq: "ids_unique h" and pf: "platform_ok pf"
  shows "mset (survivors pf flt db) = image_mset (stamp h) (mset_set (matching_ids h flt db))"
proof -
  define idx where "idx = db_indexes db"
  define M where "M = matching_ids h flt db"
  have r: "records_ok h idx" using ok by (simp add: index_ok_def idx_def)
  have rec: "\<exists>s. fmlookup (events_by_id idx) i = Some s \<and> record_of (f, off) s" if "latest h i = Some (f, off)" for i f off
    using records_okD(1) [OF r, of i] that by (auto simp: option_rel_Some1)
  have adm: "(\<forall>g \<in> set (gather_all (normalize_query_filter flt) idx). admits (er_key s) g) \<longleftrightarrow> matches_fields flt f"
    if "latest h i = Some (f, off)" "fmlookup (events_by_id idx) i = Some s" for i f off s
    using admits_all [OF ok [folded idx_def] uniq that(1), of "er_key s"] that(2) by (simp add: key_of_def)
  show ?thesis
  proof (cases "push_candidates (gather_all (normalize_query_filter flt) idx)")
    case None
    have "M = {}"
    proof (rule ccontr)
      assume "M \<noteq> {}"
      then obtain i f off where i: "latest h i = Some (f, off)" "matches_fields flt f"
        by (auto simp: M_def matching_ids_iff)
      then obtain s where "fmlookup (events_by_id idx) i = Some s" using rec by blast
      with adm [OF i(1) this] i(2) push_candidates_None [OF None, of "er_key s"] show False by blast
    qed
    then show ?thesis using None by (simp add: survivors_def M_def idx_def)
  next
    case (Some sets)
    define rs where "rs = filter (considered flt db) (candidate_records pf sets idx)"
    define rc where "rc = (\<lambda>i. the (fmlookup (events_by_id idx) i))"
    have cs: "distinct rs" "set rs = {s. fmlookup (events_by_key idx) (er_key s) = Some s \<and>
        (\<forall>t \<in> set sets. er_key s |\<in>| t) \<and> considered flt db s}"
      using candidate_records_set [OF pf r, of sets] by (auto simp: rs_def)
    have inM: "i \<in> M \<longleftrightarrow> (\<forall>t \<in> set sets. er_key s |\<in>| t) \<and> considered flt db s"
      if "latest h i = Some (f, off)" "fmlookup (events_by_id idx) i = Some s" for i f off s
      using adm [OF that] push_candidates_Some [OF Some, of "er_key s"]
        considered_iff [OF r [unfolded idx_def] that(2) [unfolded idx_def] that(1), of flt] that(1)
      by (auto simp: M_def matching_ids_iff)
    have "set rs = rc ` M"
    proof (intro equalityI subsetI)
      fix s assume "s \<in> set rs"
      then obtain i where i: "fmlookup (events_by_id idx) i = Some s"
        using cs(2) records_okD(5) [OF r] by blast
      then obtain f off where "latest h i = Some (f, off)"
        using records_okD(1) [OF r, of i] by (auto simp: option_rel_Some2)
      then have "i \<in> M" using inM i \<open>s \<in> set rs\<close> cs(2) by blast
      then show "s \<in> rc ` M" using i by (force simp: rc_def)
    next
      fix s assume "s \<in> rc ` M"
      then obtain i f off where i: "i \<in> M" "s = rc i" "latest h i = Some (f, off)"
        by (auto simp: M_def matching_ids_iff)
      then have "fmlookup (events_by_id idx) i = Some s" using rec [OF i(3)] by (auto simp: rc_def)
      then show "s \<in> set rs" using inM [OF i(3)] i(1) records_okD(2) [OF r] cs(2) by blast
    qed
    moreover have st: "fmlookup (events_by_id idx) i = Some (rc i) \<and> (er_created_at (rc i), er_offset (rc i)) = stamp h i"
      if "i \<in> M" for i
      using that rec by (fastforce simp: M_def matching_ids_iff rc_def stamp_def record_of_def)
    moreover have "inj_on rc M"
      using st records_okD(6) [OF r] by (intro inj_onI) metis
    ultimately have "mset rs = image_mset rc (mset_set M)"
      using cs(1) by (metis image_mset_mset_set mset_set_set)
    then have "mset (map (\<lambda>s. (er_created_at s, er_offset s)) rs) = image_mset (\<lambda>i. (er_created_at (rc i), er_offset (rc i))) (mset_set M)"
      by (simp add: multiset.map_comp comp_def)
    also have "\<dots> = image_mset (stamp h) (mset_set M)"
      using st by (intro image_mset_cong) (metis elem_mset_set empty_iff finite_set_mset_mset_set mset_set.infinite set_mset_empty)
    finally show ?thesis using Some by (simp add: survivors_def rs_def M_def idx_def)
  qed
qed

lemma newest_first_spec:
  "mset (newest_first xs) = mset xs" "sorted_wrt (\<lambda>a b. fst b \<le> fst a) (newest_first xs)"
proof -
  show "mset (newest_first xs) = mset xs" by (simp add: newest_first_def)
  have "sorted (map (\<lambda>p. - uint (fst p)) (newest_first xs))" by (simp add: newest_first_def)
  then have "sorted_wrt (\<lambda>a b. - uint (fst a) \<le> - uint (fst b)) (newest_first xs)"
    by (simp add: sorted_map)
  then show "sorted_wrt (\<lambda>a b. fst b \<le> fst a) (newest_first xs)"
    by (simp add: word_le_def)
qed

lemma apply_limit_spec:
  assumes pf: "platform_ok pf"
  shows "\<exists>rest. mset (apply_limit pf limit xs @ rest) = mset xs \<and>
    length (apply_limit pf limit xs) = (case limit of None \<Rightarrow> length xs | Some l \<Rightarrow> min l (length xs)) \<and>
    (\<forall>c \<in> set (apply_limit pf limit xs). \<forall>r \<in> set rest. fst r \<le> fst c)"
proof (cases "\<exists>l. limit = Some l \<and> l < length xs")
  case False
  then show ?thesis by (intro exI [of _ "[]"]) (auto simp: apply_limit_def min_def split: option.splits)
next
  case True
  then obtain l where l: "limit = Some l" "l < length xs" by blast
  show ?thesis
  proof (cases "l = 0")
    case True
    then show ?thesis using l by (intro exI [of _ xs]) (simp add: apply_limit_def)
  next
    case False
    define ys where "ys = select_nth pf (l - 1) xs"
    have ys: "mset ys = mset xs" "\<And>i j. i \<le> l - 1 \<Longrightarrow> l - 1 \<le> j \<Longrightarrow> j < length xs \<Longrightarrow> fst (ys ! j) \<le> fst (ys ! i)"
      using pf l False unfolding platform_ok_def ys_def by auto
    have len: "length ys = length xs" using ys(1) by (metis size_mset)
    have eq: "apply_limit pf limit xs = take l ys" using l False by (simp add: apply_limit_def ys_def)
    have "fst r \<le> fst c" if c: "c \<in> set (take l ys)" and r: "r \<in> set (drop l ys)" for c r
    proof -
      obtain i where "i < l" "c = ys ! i" using c by (auto simp: in_set_conv_nth)
      moreover obtain j where "l \<le> j" "j < length xs" "r = ys ! j"
        using r len by (auto simp: in_set_conv_nth) (metis add_diff_cancel_left' le_add1 less_diff_conv add.commute)
      ultimately show ?thesis using ys(2) [of i j] by simp
    qed
    then show ?thesis
      using eq l len by (intro exI [of _ "drop l ys"]) (auto simp: ys(1) simp flip: mset_append)
  qed
qed

lemma matching_ids_finite: "finite (matching_ids h flt db)"
proof (rule finite_subset)
  show "matching_ids h flt db \<subseteq> (\<lambda>(f, off). ef_id f) ` set h"
    using latest_SomeD by (fastforce simp: matching_ids_def)
qed simp

lemma read_events_live:
  assumes "\<forall>off \<in> set offs. sharded_contains_offset off st"
  shows "list_all2 (\<lambda>off b. sharded_get_event off st = Ok (Some b)) offs (read_events st offs)"
  using assms
proof (induction offs)
  case (Cons off offs)
  then obtain b where "sharded_get_event off st = Ok (Some b)"
    using sharded_contains_iff_get by auto
  then show ?case using Cons by (simp add: read_events_def List.map_filter_simps)
qed (simp add: read_events_def List.map_filter_simps)

lemma query_spec:
  assumes ok: "index_ok h (db_indexes db)" and uniq: "ids_unique h" and pf: "platform_ok pf"
  shows "\<exists>res chosen rest. query_events_with_filter_inner pf flt b db = Ok res \<and>
    mset (chosen @ rest) = image_mset (stamp h) (mset_set (matching_ids h flt db)) \<and>
    length chosen = (case qf_limit flt of None \<Rightarrow> card (matching_ids h flt db)
                     | Some l \<Rightarrow> min l (card (matching_ids h flt db))) \<and>
    (\<forall>c \<in> set chosen. \<forall>r \<in> set rest. fst r \<le> fst c) \<and>
    (b \<longrightarrow> sorted_wrt (\<lambda>x y. fst y \<le> fst x) chosen) \<and>
    list_all2 (\<lambda>x bs. sharded_get_event (snd x) (db_storage db) = Ok (Some bs)) chosen (qr_events res) \<and>
    qr_total_found res = card (matching_ids h flt db) \<and>
    (qr_has_more res \<longleftrightarrow> (\<exists>l. qf_limit flt = Some l \<and> l < card (matching_ids h flt db)))"
proof -
  define M where "M = matching_ids h flt db"
  define ss where "ss = survivors pf flt db"
  define lim where "lim = apply_limit pf (qf_limit flt) ss"
  define chosen where "chosen = (if b then newest_first lim else lim)"
  obtain rest where rest: "mset (lim @ rest) = mset ss"
    "length lim = (case qf_limit flt of None \<Rightarrow> length ss | Some l \<Rightarrow> min l (length ss))"
    "\<forall>c \<in> set lim. \<forall>r \<in> set rest. fst r \<le> fst c"
    using apply_limit_spec [OF pf, of "qf_limit flt" ss] unfolding lim_def by blast
  have ms: "mset ss = image_mset (stamp h) (mset_set M)"
    unfolding ss_def M_def by (rule survivors_mset [OF ok uniq pf])
  have len: "length ss = card M"
    using arg_cong [OF ms, of size] by (simp add: matching_ids_finite M_def)
  have ch: "mset chosen = mset lim" "set chosen = set lim" "length chosen = length lim"
    unfolding chosen_def using newest_first_spec(1) [of lim] by (auto dest: mset_eq_setD mset_eq_length)
  have "off \<in> snd ` set ss \<Longrightarrow> sharded_contains_offset off (db_storage db)" for off
    by (auto simp: ss_def survivors_def considered_def split: option.splits)
  moreover have "set lim \<subseteq> set ss" using rest(1) by (metis Un_upper1 set_append set_mset_mset)
  ultimately have "list_all2 (\<lambda>off bs. sharded_get_event off (db_storage db) = Ok (Some bs)) (map snd chosen)
      (read_events (db_storage db) (map snd chosen))"
    using ch(2) by (intro read_events_live) auto
  then have rd: "list_all2 (\<lambda>x bs. sharded_get_event (snd x) (db_storage db) = Ok (Some bs)) chosen
      (read_events (db_storage db) (map snd chosen))"
    by (simp add: list_all2_map1)
  show ?thesis
    unfolding query_inner_survivors
    by (rule exI, rule exI [of _ chosen], rule exI [of _ rest], intro conjI, rule refl)
      (use ch rest rd len ms newest_first_spec(2) [of lim] in
        \<open>auto simp: M_def chosen_def lim_def ss_def split: option.splits\<close>)
qed

section \<open>Requests\<close>

definition non_empty :: "'a list \<Rightarrow> 'a list option" where
  "non_empty vs = (if vs = [] then None else Some vs)"

definition positive_i32 :: "i32 \<Rightarrow> u32 option" where
  "positive_i32 w = (if sint w > 0 then Some w else None)"

definition strip_hash :: "string \<Rightarrow> string" where
  "strip_hash k = (case k of c # r \<Rightarrow> if c = CHR ''#'' then r else k | [] \<Rightarrow> k)"

text \<open>The values collected for one key: the source keeps one vector per key and extends them in order.\<close>

definition tag_values :: "string \<Rightarrow> fb_tag list \<Rightarrow> string list" where
  "tag_values k tags =
     concat (map (\<lambda>tag. case tag of
         Some items \<Rightarrow> if 2 \<le> length items \<and> strip_hash (items ! 0) = k then tl items else []
       | None \<Rightarrow> []) tags)"

definition request_tags :: "string \<Rightarrow> fb_request \<Rightarrow> string list option" where
  "request_tags k r = (case rq_tags r of None \<Rightarrow> None | Some tags \<Rightarrow> non_empty (tag_values k tags))"

definition query_filter_from_fb_request :: "fb_request \<Rightarrow> query_filter" where
  "query_filter_from_fb_request r =
     query_filter_new\<lparr>
       qf_ids := Option.bind (rq_ids r) non_empty,
       qf_authors := Option.bind (rq_authors r) non_empty,
       qf_kinds := Option.bind (rq_kinds r) non_empty,
       qf_e_tags := request_tags ''e'' r, qf_E_tags := request_tags ''E'' r,
       qf_p_tags := request_tags ''p'' r, qf_P_tags := request_tags ''P'' r,
       qf_a_tags := request_tags ''a'' r, qf_d_tags := request_tags ''d'' r,
       qf_q_tags := request_tags ''q'' r,
       qf_since := positive_i32 (rq_since r),
       qf_until := positive_i32 (rq_until r),
       qf_limit := map_option unat (positive_i32 (rq_limit r)),
       qf_search := (case rq_search r of Some s \<Rightarrow> if s = [] then None else Some s | None \<Rightarrow> None)\<rparr>"

definition query_events :: "platform \<Rightarrow> fb_request \<Rightarrow> nostr_db \<Rightarrow> database_error + query_result" where
  "query_events pf r db = query_events_with_filter pf (query_filter_from_fb_request r) db"

text \<open>The loop over the requests of a subscription: what is left for the network, what the cache gave.\<close>

fun requests_loop ::
  "platform \<Rightarrow> nostr_db \<Rightarrow> nat \<Rightarrow> fb_request list \<Rightarrow> nat list \<times> bytes list" where
  "requests_loop pf db i [] = ([], [])"
| "requests_loop pf db i (r # rs) =
     (case requests_loop pf db (Suc i) rs of
        (remaining, events) \<Rightarrow>
          if rq_no_cache r then (i # remaining, events)
          else (case query_events_with_filter_inner pf (query_filter_from_fb_request r) False db of
             Err _ \<Rightarrow> (i # remaining, events)
           | Ok res \<Rightarrow>
               (if rq_cache_only r then remaining
                else if \<not> rq_cache_first r \<or> qr_total_found res = 0 then i # remaining
                else remaining,
                qr_events res @ events)))"

definition with_time :: "fb_codec \<Rightarrow> bytes list \<Rightarrow> (u32 \<times> bytes) list" where
  "with_time fb bs = map (\<lambda>b. (case extract_created_at fb b of Some t \<Rightarrow> t | None \<Rightarrow> 0, b)) bs"

definition query_events_and_requests ::
  "platform \<Rightarrow> fb_codec \<Rightarrow> fb_request list option \<Rightarrow> nostr_db \<Rightarrow> nat list \<times> bytes list" where
  "query_events_and_requests pf fb reqs db =
     (case (case reqs of Some rs \<Rightarrow> requests_loop pf db 0 rs | None \<Rightarrow> ([], [])) of
        (remaining, events) \<Rightarrow> (remaining, map snd (newest_first (with_time fb events))))"

definition get_profile :: "platform \<Rightarrow> string \<Rightarrow> nostr_db \<Rightarrow> bytes option" where
  "get_profile pf pubkey db =
     (case query_events_with_filter pf
         (query_filter_new\<lparr>qf_kinds := Some [0], qf_authors := Some [pubkey], qf_limit := Some 1\<rparr>) db of
        Ok res \<Rightarrow> (case qr_events res of b # _ \<Rightarrow> Some b | [] \<Rightarrow> None)
      | Err _ \<Rightarrow> None)"

lemma requests_loop_forwarded:
  "i \<in> set (fst (requests_loop pf db n rs)) \<longleftrightarrow>
   n \<le> i \<and> i < n + length rs \<and> (let r = rs ! (i - n) in
     rq_no_cache r \<or> \<not> rq_cache_only r \<and> (\<not> rq_cache_first r \<or> survivors pf (query_filter_from_fb_request r) db = []))"
proof (induction rs arbitrary: n)
  case (Cons r rs)
  show ?case
  proof (cases "i = n")
    case True
    have "n \<notin> set (fst (requests_loop pf db (Suc n) rs))" using Cons.IH [of "Suc n"] True by simp
    then show ?thesis using True
      by (auto simp: query_inner_survivors Let_def split: prod.splits)
  next
    case False
    then have "i \<in> set (fst (requests_loop pf db n (r # rs))) \<longleftrightarrow> i \<in> set (fst (requests_loop pf db (Suc n) rs))"
      by (auto simp: query_inner_survivors split: prod.splits)
    also have "\<dots> \<longleftrightarrow> Suc n \<le> i \<and> i < n + length (r # rs) \<and> (let r = (r # rs) ! (i - n) in
       rq_no_cache r \<or> \<not> rq_cache_only r \<and> (\<not> rq_cache_first r \<or> survivors pf (query_filter_from_fb_request r) db = []))"
      unfolding Cons.IH Let_def by (cases "Suc n \<le> i") simp_all
    also have "Suc n \<le> i \<longleftrightarrow> n \<le> i" using False by linarith
    finally show ?thesis .
  qed
qed simp

section \<open>A small database for the examples\<close>

definition example_platform :: platform where
  "example_platform = \<lparr>iter_order = sorted_list_of_fset, select_nth = (\<lambda>n xs. newest_first xs)\<rparr>"

lemma example_platform_ok: "platform_ok example_platform"
proof -
  have "fst (newest_first xs ! j) \<le> fst (newest_first xs ! i)" if "i \<le> n" "n \<le> j" "j < length xs"
    for n i j and xs :: "(u32 \<times> u64) list"
  proof (cases "i = j")
    case False
    have "length (newest_first xs) = length xs" by (simp add: newest_first_def)
    then show ?thesis using newest_first_spec(2) [of xs] that False by (simp add: sorted_wrt_iff_nth_less)
  qed simp
  then show ?thesis
    by (auto simp: platform_ok_def example_platform_def newest_first_spec(1) sorted_list_of_fset_simps
        sorted_list_of_fset.rep_eq)
qed

definition example_note :: "string \<Rightarrow> u32 \<Rightarrow> event_fields" where
  "example_note i t = \<lparr>ef_id = i, ef_pubkey = ''alice'', ef_kind = 1, ef_created_at = t, ef_tags = [Some [''t'', ''x'']]\<rparr>"

definition example_parsed :: "string \<Rightarrow> u32 \<Rightarrow> parsed_event" where
  "example_parsed i t = \<lparr>pe_id = i, pe_pubkey = ''alice'', pe_kind = 1, pe_created_at = t, pe_kind10002 = None,
     pe_tags = [Some [''t'', ''x'']]\<rparr>"

definition example_codec :: fb_codec where
  "example_codec = \<lparr>root_worker_message = (\<lambda>bs.
       if bs = [1, 2] then Some (WmParsed (Some (example_parsed ''a'' 100)))
       else if bs = [3, 4, 5] then Some (WmParsed (Some (example_parsed ''b'' 200)))
       else if bs = [6, 7, 8, 9] then Some (WmParsed (Some (example_parsed ''n'' 300))) else None),
     root_parsed_event = (\<lambda>_. None), root_nostr_event = (\<lambda>_. None)\<rparr>"

definition example_history :: history where
  "example_history = [(example_note ''a'' 100, pack_offset Regular 0), (example_note ''b'' 200, pack_offset Regular 6)]"

definition index_history :: "history \<Rightarrow> database_indexes \<times> tombstones \<Rightarrow> (database_indexes \<times> tombstones) option" where
  "index_history h st = fold (\<lambda>(f, off) s. Option.bind s (index_event_fields f off)) h (Some st)"

definition example_db :: nostr_db where
  "example_db = (case index_history example_history (indexes_new, tombstones_clear) of
     Some (idx, t) \<Rightarrow> \<lparr>db_indexes = idx, db_storage = example_shards, db_initialized = True,
        db_tombstones = t, default_relays = [], indexer_relays = []\<rparr>
   | None \<Rightarrow> nostr_db_new [] 0 [] [])"

lemma index_history_ok:
  "index_ok h0 idx \<Longrightarrow> index_history h (idx, t) = Some (idx', t') \<Longrightarrow> index_ok (h0 @ h) idx'"
proof (induction h arbitrary: h0 idx t)
  case (Cons e h)
  obtain f off where e: "e = (f, off)" by fastforce
  have none: "fold (\<lambda>(f, off) s. Option.bind s (index_event_fields f off)) h None = None"
    for h :: history by (induction h) auto
  obtain idx1 t1 where 1: "index_event_fields f off (idx, t) = Some (idx1, t1)"
    "index_history h (idx1, t1) = Some (idx', t')"
    using Cons.prems(2) none by (cases "index_event_fields f off (idx, t)") (auto simp: index_history_def e)
  then show ?case using Cons.IH [OF index_event_fields_ok [OF Cons.prems(1) 1(1)] 1(2)] by (simp add: e)
qed (simp add: index_history_def)

lemma example_db_index:
  "index_history example_history (indexes_new, tombstones_clear) = Some (db_indexes example_db, tombstones_clear)"
  "db_tombstones example_db = tombstones_clear" "db_storage example_db = example_shards"
  by (simp_all add: example_db_def index_history_def example_history_def index_event_fields_def
      upsert_event_record_def indexes_new_def example_note_def Let_def apply_tombstones_to_event_def
      tombstones_is_empty_def tombstones_clear_def EVENT_DELETION_def)

lemma example_db_index_ok: "index_ok example_history (db_indexes example_db)"
  using index_history_ok [OF index_ok_new example_db_index(1)] by simp

lemma example_shards_contains:
  "sharded_get_event (pack_offset Regular 0) example_shards = Ok (Some [1, 2])"
  "sharded_get_event (pack_offset Regular 6) example_shards = Ok (Some [3, 4, 5])"
  by (simp_all add: sharded_get_event_def unpack_pack_fits get_shard_storage_def example_shards_def
      fmlookup_of_list get_event_at_offset_def example_ring_def ring_new_def codec_eval)

lemma example_matching:
  "matching_ids example_history (query_filter_new\<lparr>qf_kinds := Some [1], qf_limit := Some 1\<rparr>) example_db = {''a'', ''b''}"
proof -
  have "sharded_contains_offset (pack_offset Regular 0) example_shards"
    "sharded_contains_offset (pack_offset Regular 6) example_shards"
    using example_shards_contains by (auto simp: sharded_contains_iff_get)
  then show ?thesis
    by (auto simp: matching_ids_def latest_def example_history_def matches_filter_def query_filter_new_def any_of_def
        example_note_def is_deleted_def example_db_index tombstones_clear_def split: if_splits)
qed

section \<open>Properties\<close>

text \<open>C4. A query answers as a scan of the cache would: for indexes that describe the history of indexed
  events, the result lists the bytes of the newest \<open>limit\<close> events among those whose latest version
  matches the filter, is not deleted and is still in the ring, newest first; events left out are no
  newer than those returned; and the total and \<open>has_more\<close> count all matches.\<close>
theorem query_equals_scan:
  assumes "index_ok h (db_indexes db)" and "ids_unique h" and "platform_ok pf"
  shows "\<exists>res chosen rest. query_events_with_filter pf flt db = Ok res \<and>
    mset (chosen @ rest) = image_mset (stamp h) (mset_set (matching_ids h flt db)) \<and>
    length chosen = (case qf_limit flt of None \<Rightarrow> card (matching_ids h flt db)
                     | Some l \<Rightarrow> min l (card (matching_ids h flt db))) \<and>
    (\<forall>c \<in> set chosen. \<forall>r \<in> set rest. fst r \<le> fst c) \<and>
    sorted_wrt (\<lambda>x y. fst y \<le> fst x) chosen \<and>
    list_all2 (\<lambda>x bs. sharded_get_event (snd x) (db_storage db) = Ok (Some bs)) chosen (qr_events res) \<and>
    qr_total_found res = card (matching_ids h flt db) \<and>
    (qr_has_more res \<longleftrightarrow> (\<exists>l. qf_limit flt = Some l \<and> l < card (matching_ids h flt db)))"
  using query_spec [OF assms, of flt True] unfolding query_events_with_filter_def by simp

lemma example_ids_unique: "ids_unique example_history"
  by (auto simp: ids_unique_def example_history_def example_note_def)

lemma example_stamps:
  "image_mset (stamp example_history) (mset_set {''a'', ''b''}) = {#(100, pack_offset Regular 0), (200, pack_offset Regular 6)#}"
  by (simp add: stamp_def latest_def example_history_def example_note_def)

theorem query_equals_scan_witness:
  "\<exists>res. query_events_with_filter example_platform (query_filter_new\<lparr>qf_kinds := Some [1], qf_limit := Some 1\<rparr>) example_db
      = Ok res \<and> qr_events res = [[3, 4, 5]] \<and> qr_total_found res = 2 \<and> qr_has_more res"
proof -
  let ?flt = "query_filter_new\<lparr>qf_kinds := Some [1], qf_limit := Some 1\<rparr>"
  from query_equals_scan [OF example_db_index_ok example_ids_unique example_platform_ok, of ?flt]
  obtain res chosen rest where res: "query_events_with_filter example_platform ?flt example_db = Ok res"
    and ms: "mset (chosen @ rest) = {#(100 :: u32, pack_offset Regular 0), (200, pack_offset Regular 6)#}"
    and one: "length chosen = 1" and top: "\<forall>c \<in> set chosen. \<forall>r \<in> set rest. fst r \<le> fst c"
    and rd: "list_all2 (\<lambda>x bs. sharded_get_event (snd x) example_shards = Ok (Some bs)) chosen (qr_events res)"
    and tot: "qr_total_found res = 2" "qr_has_more res"
    unfolding example_matching example_stamps example_db_index(3) by auto
  obtain c where c: "chosen = [c]" using one by (auto simp: length_Suc_conv)
  have "c = (200, pack_offset Regular 6)"
  proof (rule ccontr)
    assume "c \<noteq> (200, pack_offset Regular 6)"
    moreover have "c \<in># {#(100, pack_offset Regular 0), (200, pack_offset Regular 6)#}" using ms c by (metis in_multiset_in_set list.set_intros(1) append_Cons)
    ultimately have "c = (100, pack_offset Regular 0)" by auto
    then have "mset rest = {#(200, pack_offset Regular 6)#}" using ms c by simp
    then have "(200, pack_offset Regular 6) \<in> set rest" by (metis set_mset_mset set_mset_single singletonI set_mset_add_mset_insert insertI1)
    then show False using top c \<open>c = (100, pack_offset Regular 0)\<close> by auto
  qed
  then have "qr_events res = [[3, 4, 5]]"
    using rd c example_shards_contains(2) by (auto simp: list_all2_Cons1)
  then show ?thesis using res tot by blast
qed

text \<open>The cache decides which requests go to the network: a request is forwarded exactly when it
  asks for no cache, or is not cache-only and either does not prefer the cache or the cache has no
  match for it; and the cached events of all requests come back together, newest first by the time
  they decode to.\<close>
theorem requests_forwarding:
  assumes "index_ok h (db_indexes db)" and "ids_unique h" and "platform_ok pf"
  shows "(i \<in> set (fst (query_events_and_requests pf fb (Some rs) db)) \<longleftrightarrow>
      i < length rs \<and> (rq_no_cache (rs ! i) \<or> \<not> rq_cache_only (rs ! i) \<and>
        (\<not> rq_cache_first (rs ! i) \<or> matching_ids h (query_filter_from_fb_request (rs ! i)) db = {}))) \<and>
    sorted_wrt (\<lambda>a b. (case extract_created_at fb b of Some t \<Rightarrow> t | None \<Rightarrow> 0)
          \<le> (case extract_created_at fb a of Some t \<Rightarrow> t | None \<Rightarrow> 0))
        (snd (query_events_and_requests pf fb (Some rs) db)) \<and>
    mset (snd (query_events_and_requests pf fb (Some rs) db)) = mset (snd (requests_loop pf db 0 rs))"
proof -
  have "survivors pf flt db = [] \<longleftrightarrow> matching_ids h flt db = {}" for flt
    using arg_cong [OF survivors_mset [OF assms, of flt], of size] matching_ids_finite [of h flt db] by auto
  then have fwd: "i \<in> set (fst (query_events_and_requests pf fb (Some rs) db)) \<longleftrightarrow>
      i < length rs \<and> (rq_no_cache (rs ! i) \<or> \<not> rq_cache_only (rs ! i) \<and>
        (\<not> rq_cache_first (rs ! i) \<or> matching_ids h (query_filter_from_fb_request (rs ! i)) db = {}))"
    using requests_loop_forwarded [of i pf db 0 rs]
    by (simp add: query_events_and_requests_def Let_def case_prod_beta)
  define ws where "ws = newest_first (with_time fb (snd (requests_loop pf db 0 rs)))"
  have ev: "snd (query_events_and_requests pf fb (Some rs) db) = map snd ws"
    by (simp add: query_events_and_requests_def ws_def split: prod.splits)
  have ms: "mset ws = mset (with_time fb (snd (requests_loop pf db 0 rs)))" by (simp add: ws_def newest_first_spec)
  then have "mset (map snd ws) = mset (map snd (with_time fb (snd (requests_loop pf db 0 rs))))" by (metis mset_map)
  then have perm: "mset (snd (query_events_and_requests pf fb (Some rs) db)) = mset (snd (requests_loop pf db 0 rs))"
    by (simp add: ev with_time_def comp_def)
  have "x \<in> set ws \<Longrightarrow> fst x = (case extract_created_at fb (snd x) of Some t \<Rightarrow> t | None \<Rightarrow> 0)" for x
    using mset_eq_setD [OF ms] by (auto simp: with_time_def)
  moreover have "sorted_wrt (\<lambda>a b. fst b \<le> fst a) ws" by (simp add: ws_def newest_first_spec)
  ultimately have "sorted_wrt (\<lambda>a b. (case extract_created_at fb b of Some t \<Rightarrow> t | None \<Rightarrow> 0)
          \<le> (case extract_created_at fb a of Some t \<Rightarrow> t | None \<Rightarrow> 0))
        (snd (query_events_and_requests pf fb (Some rs) db))"
    unfolding ev sorted_wrt_map by (smt (verit, best) sorted_wrt_mono_rel)
  then show ?thesis using fwd perm by blast
qed

definition example_request :: fb_request where
  "example_request = \<lparr>rq_ids = None, rq_authors = None, rq_kinds = Some [1], rq_tags = None, rq_limit = 1,
     rq_since = 0, rq_until = 0, rq_search = None, rq_relays = None, rq_cache_first = True, rq_no_cache = False,
     rq_max_relays = 0, rq_cache_only = False, rq_mesh_only = False\<rparr>"

lemma example_request_filter:
  "query_filter_from_fb_request example_request = query_filter_new\<lparr>qf_kinds := Some [1], qf_limit := Some 1\<rparr>"
  by (simp add: query_filter_from_fb_request_def example_request_def non_empty_def request_tags_def positive_i32_def
      query_filter_new_def)

theorem requests_forwarding_witness:
  "0 \<notin> set (fst (query_events_and_requests example_platform example_codec (Some [example_request]) example_db)) \<and>
   1 \<in> set (fst (query_events_and_requests example_platform example_codec
      (Some [example_request, example_request\<lparr>rq_no_cache := True\<rparr>]) example_db))"
proof -
  have "\<not> rq_no_cache example_request" "rq_cache_first example_request" by (simp_all add: example_request_def)
  then show ?thesis
    using requests_forwarding [OF example_db_index_ok example_ids_unique example_platform_ok, of 0 example_codec "[example_request]"]
      requests_forwarding [OF example_db_index_ok example_ids_unique example_platform_ok, of 1 example_codec
        "[example_request, example_request\<lparr>rq_no_cache := True\<rparr>]"]
    by (simp add: example_request_filter example_matching [unfolded One_nat_def])
qed

end
