(* ===== verification/Nostr_Deletion.thy ===== *)
theory Nostr_Deletion
  imports Nostr_Query
begin

text \<open>
  What NIP-09 deletions guarantee. The state machine \<open>tomb_run\<close> interleaves, in any order, the
  indexing of events and the replay of logged deletions, and keeps two ghost records: the history of
  indexed events and the list of deletion references (author, time, tag) processed so far. The
  theory shows that only an author's own deletions suppress an event, and that an author's deletion
  takes effect whichever of the event and the deletion is seen first.
\<close>

section \<open>Runs\<close>

type_synonym deletion_log = "(string \<times> u32 \<times> fb_tag) list"

definition deletion_refs :: "string \<Rightarrow> u32 \<Rightarrow> fb_tag list \<Rightarrow> deletion_log" where
  "deletion_refs author ts tags = map (\<lambda>tag. (author, ts, tag)) tags"

inductive tomb_run :: "history \<Rightarrow> deletion_log \<Rightarrow> database_indexes \<Rightarrow> tombstones \<Rightarrow> bool" where
  start: "index_ok [] idx \<Longrightarrow> tomb_run [] [] idx tombstones_clear"
| index: "tomb_run h log idx t \<Longrightarrow> index_event_fields f off (idx, t) = Some (idx', t') \<Longrightarrow>
    tomb_run (h @ [(f, off)])
      (if ef_kind f = EVENT_DELETION then log @ deletion_refs (ef_pubkey f) (ef_created_at f) (ef_tags f) else log)
      idx' t'"
| replay: "tomb_run h log idx t \<Longrightarrow>
    tomb_run h (log @ deletion_refs author ts tags) idx (process_deletion_tags author ts tags idx t)"

text \<open>An id is the hash of its event: two versions with the same id are the same event. Authors are
  hex strings and hold no colon.\<close>

definition events_by_hash :: "history \<Rightarrow> bool" where
  "events_by_hash h \<longleftrightarrow> (\<forall>(f, _) \<in> set h. \<forall>(g, _) \<in> set h. ef_id f = ef_id g \<longrightarrow> f = g)"

definition plain_authors :: "history \<Rightarrow> bool" where
  "plain_authors h \<longleftrightarrow> (\<forall>(f, _) \<in> set h. CHR '':'' \<notin> set (ef_pubkey f))"

text \<open>A reference that entitles its author to delete the event.\<close>

definition deletes :: "string \<times> u32 \<times> fb_tag \<Rightarrow> event_fields \<Rightarrow> bool" where
  "deletes ref f \<longleftrightarrow> (case ref of (author, ts, tag) \<Rightarrow>
     ef_pubkey f = author \<and>
     (tag_is ''e'' (ef_id f) tag \<or>
      (\<exists>address ks d. tag_is ''a'' address tag \<and> splitn3 address = Some (ks, author, d) \<and>
         parse_u16 ks = Some (ef_kind f) \<and> has_tag ''d'' d f \<and> ef_created_at f \<le> ts)))"

section \<open>Only the author deletes\<close>

definition justified :: "history \<Rightarrow> deletion_log \<Rightarrow> database_indexes \<Rightarrow> event_key \<Rightarrow> bool" where
  "justified h log idx k \<longleftrightarrow>
     (\<exists>f off ref. (f, off) \<in> set h \<and> key_of idx (ef_id f) = Some k \<and> ref \<in> set log \<and> deletes ref f)"

definition pending_from :: "deletion_log \<Rightarrow> string \<Rightarrow> string \<times> u32 \<Rightarrow> bool" where
  "pending_from log i at \<longleftrightarrow> (\<exists>tag. (fst at, snd at, tag) \<in> set log \<and> tag_is ''e'' i tag)"

definition address_from :: "deletion_log \<Rightarrow> string \<Rightarrow> u32 \<Rightarrow> bool" where
  "address_from log address ts \<longleftrightarrow>
     (\<exists>a tag ks d kind. (a, ts, tag) \<in> set log \<and> tag_is ''a'' address tag \<and>
        splitn3 address = Some (ks, a, d) \<and> parse_u16 ks = Some kind)"

definition tomb_sound :: "history \<Rightarrow> deletion_log \<Rightarrow> database_indexes \<Rightarrow> tombstones \<Rightarrow> bool" where
  "tomb_sound h log idx t \<longleftrightarrow>
     (\<forall>k. k |\<in>| deleted_keys t \<longrightarrow> justified h log idx k) \<and>
     (\<forall>i at. fmlookup (pending_ids t) i = Some at \<longrightarrow> pending_from log i at) \<and>
     (\<forall>address ts. fmlookup (deleted_addresses t) address = Some ts \<longrightarrow> address_from log address ts)"

lemma justified_mono: "justified h log idx k \<Longrightarrow> justified h (log @ log') idx k"
  unfolding justified_def by (metis UnI1 set_append)

lemma pending_from_mono: "pending_from log i at \<Longrightarrow> pending_from (log @ log') i at"
  unfolding pending_from_def by (metis UnI1 set_append)

lemma address_from_mono: "address_from log ad ts \<Longrightarrow> address_from (log @ log') ad ts"
  unfolding address_from_def by (metis UnI1 set_append)

lemmas sound_mono = justified_mono pending_from_mono address_from_mono

lemma tomb_soundI:
  assumes s: "tomb_sound h log idx t"
    and "\<And>k. k |\<in>| deleted_keys t' \<Longrightarrow> k |\<in>| deleted_keys t \<or> justified h (log @ log') idx k"
    and "\<And>i at. fmlookup (pending_ids t') i = Some at \<Longrightarrow> fmlookup (pending_ids t) i = Some at \<or> pending_from (log @ log') i at"
    and "\<And>ad ts. fmlookup (deleted_addresses t') ad = Some ts \<Longrightarrow>
      fmlookup (deleted_addresses t) ad = Some ts \<or> address_from (log @ log') ad ts"
  shows "tomb_sound h (log @ log') idx t'"
  unfolding tomb_sound_def
proof (intro conjI allI impI)
  show "justified h (log @ log') idx k" if "k |\<in>| deleted_keys t'" for k
    using assms(2) [OF that] s justified_mono unfolding tomb_sound_def by blast
  show "pending_from (log @ log') i at" if "fmlookup (pending_ids t') i = Some at" for i at
    using assms(3) [OF that] s pending_from_mono unfolding tomb_sound_def by blast
  show "address_from (log @ log') ad ts" if "fmlookup (deleted_addresses t') ad = Some ts" for ad ts
    using assms(4) [OF that] s address_from_mono unfolding tomb_sound_def by blast
qed

lemma events_by_hashD:
  "events_by_hash h \<Longrightarrow> (f, a) \<in> set h \<Longrightarrow> (g, b) \<in> set h \<Longrightarrow> ef_id f = ef_id g \<Longrightarrow> f = g"
  unfolding events_by_hash_def by blast

lemma events_by_hashI:
  "(\<And>f a g b. (f, a) \<in> set h \<Longrightarrow> (g, b) \<in> set h \<Longrightarrow> ef_id f = ef_id g \<Longrightarrow> f = g) \<Longrightarrow> events_by_hash h"
  unfolding events_by_hash_def by blast

lemma events_by_hash_prefix: "events_by_hash (h @ h') \<Longrightarrow> events_by_hash h"
  by (rule events_by_hashI) (auto dest: events_by_hashD)

lemma events_by_hash_unique: "events_by_hash h \<Longrightarrow> ids_unique h"
  unfolding events_by_hash_def ids_unique_def by blast

lemma keys_whereE:
  assumes "k \<in> keys_where idx h Q"
  obtains f off where "(f, off) \<in> set h" "Q f" "key_of idx (ef_id f) = Some k"
  using assms unfolding keys_where_def by blast

lemma keys_where_same:
  assumes "records_ok h idx" "events_by_hash h" "k \<in> keys_where idx h Q" "(f, off) \<in> set h" "key_of idx (ef_id f) = Some k"
  shows "Q f"
proof (rule keys_whereE [OF assms(3)])
  fix g o' assume g: "(g, o') \<in> set h" "Q g" "key_of idx (ef_id g) = Some k"
  have "ef_id g = ef_id f" using g(3) assms(5) records_okD(6) [OF assms(1)] by (auto simp: key_of_def)
  then have "g = f" using events_by_hashD [OF assms(2) g(1) assms(4)] by simp
  then show "Q f" using g(2) by simp
qed

lemma address_hits_iff:
  "k |\<in>| address_hits kind author d ts idx \<longleftrightarrow>
   k |\<in>| posting (events_by_d_tag idx) d \<and> k |\<in>| posting (events_by_kind idx) kind \<and>
   k |\<in>| posting (events_by_pubkey idx) author \<and>
   (\<exists>r. fmlookup (events_by_key idx) k = Some r \<and> er_created_at r \<le> ts)"
proof -
  have "(k |\<in>| hd sets \<and> list_all (\<lambda>s. k |\<in>| s) (tl sets)) \<longleftrightarrow> (\<forall>s \<in> {a, b, c}. k |\<in>| s)"
    if "sets = sort_key fcard [a, b, c]" for sets and a b c :: "event_key fset"
  proof -
    have "set sets = {a, b, c}" "sets \<noteq> []" using set_sort [of fcard "[a, b, c]"] that by (auto simp del: set_sort sort_key_simps)
    then show ?thesis by (cases sets) (auto simp: list_all_iff)
  qed
  then show ?thesis
    by (auto simp: address_hits_def posting_def Let_def split: option.splits)
qed

lemma index_ok_latest:
  assumes "index_ok h idx" "events_by_hash h" "fmlookup (events_by_key idx) k = Some r"
  obtains f off where "(f, off) \<in> set h" "key_of idx (ef_id f) = Some k" "er_created_at r = ef_created_at f"
proof -
  have ok: "records_ok h idx" using assms(1) by (simp add: index_ok_def)
  obtain i where i: "fmlookup (events_by_id idx) i = Some r" "er_key r = k"
    using records_okD(4,5) [OF ok assms(3)] by blast
  then obtain f off where f: "latest h i = Some (f, off)" "record_of (f, off) r"
    using records_okD(1) [OF ok, of i] by (auto simp: option_rel_Some2)
  then show thesis using that [of f off] latest_SomeD [OF f(1)] i by (simp add: key_of_def record_of_def)
qed

lemma sound_by_id:
  assumes ok: "index_ok h idx" and s: "tomb_sound h log idx t" and tag: "tag_is ''e'' target tag"
  shows "tomb_sound h (log @ [(author, ts, tag)]) idx (delete_by_id author ts idx target t)"
proof (cases "fmlookup (events_by_id idx) target")
  case None
  have "pending_from (log @ [(author, ts, tag)]) target (author, ts)" using tag by (auto simp: pending_from_def)
  with None show ?thesis
    by (intro tomb_soundI [OF s]) (auto simp: delete_by_id_def split: option.splits if_splits)
next
  case (Some r)
  have post: "postings_ok h idx" "records_ok h idx" using ok by (simp_all add: index_ok_def)
  have just: "justified h (log @ [(author, ts, tag)]) idx (er_key r)"
    if "er_key r |\<in>| posting (events_by_pubkey idx) author"
  proof -
    have "er_key r \<in> keys_where idx h (\<lambda>f. ef_pubkey f = author)" using that postings_okD(2) [OF post(1)] by blast
    then obtain f off where f: "(f, off) \<in> set h" "ef_pubkey f = author" "key_of idx (ef_id f) = Some (er_key r)"
      by (rule keys_whereE)
    then have "ef_id f = target" using Some records_okD(6) [OF post(2)] by (auto simp: key_of_def)
    then have "deletes (author, ts, tag) f" using f tag by (simp add: deletes_def)
    then show ?thesis using f unfolding justified_def by (metis in_set_conv_decomp)
  qed
  have "delete_by_id author ts idx target t =
      (if er_key r |\<in>| posting (events_by_pubkey idx) author then t\<lparr>deleted_keys := finsert (er_key r) (deleted_keys t)\<rparr> else t)"
    using Some by (auto simp: delete_by_id_def posting_def split: option.splits)
  then show ?thesis using just by (intro tomb_soundI [OF s]) (auto split: if_splits)
qed

lemma sound_by_address:
  assumes ok: "index_ok h idx" and hash: "events_by_hash h" and s: "tomb_sound h log idx t"
    and tag: "tag_is ''a'' address tag"
  shows "tomb_sound h (log @ [(author, ts, tag)]) idx (delete_by_address author ts idx address t)"
proof (cases "\<exists>ks d kind. splitn3 address = Some (ks, author, d) \<and> parse_u16 ks = Some kind")
  case False
  then have "delete_by_address author ts idx address t = t"
    by (auto simp: delete_by_address_def split: option.splits)
  then show ?thesis by (intro tomb_soundI [OF s]) auto
next
  case True
  then obtain ks d kind where sp: "splitn3 address = Some (ks, author, d)" "parse_u16 ks = Some kind" by blast
  have post: "postings_ok h idx" "records_ok h idx" using ok by (simp_all add: index_ok_def)
  have just: "justified h (log @ [(author, ts, tag)]) idx k" if hit: "k |\<in>| address_hits kind author d ts idx" for k
  proof -
    obtain r where r: "fmlookup (events_by_key idx) k = Some r" "er_created_at r \<le> ts"
      using hit by (auto simp: address_hits_iff)
    obtain f off where f: "(f, off) \<in> set h" "key_of idx (ef_id f) = Some k" "er_created_at r = ef_created_at f"
      by (rule index_ok_latest [OF ok hash r(1)])
    note same = keys_where_same [OF post(2) hash _ f(1,2)]
    have "has_tag ''d'' d f" "ef_kind f = kind" "ef_pubkey f = author"
      using hit same unfolding address_hits_iff postings_okD [OF post(1)] by blast+
    then have "deletes (author, ts, tag) f" using tag sp r(2) f(3) by (auto simp: deletes_def)
    then show ?thesis using f(1,2) unfolding justified_def by (metis in_set_conv_decomp)
  qed
  have "address_from (log @ [(author, ts, tag)]) address ts" using tag sp by (auto simp: address_from_def)
  with sp just show ?thesis
    by (intro tomb_soundI [OF s]) (auto simp: delete_by_address_def max_def split: option.splits if_splits)
qed

lemma sound_process_tag:
  assumes "index_ok h idx" "events_by_hash h" "tomb_sound h log idx t"
  shows "tomb_sound h (log @ [(author, ts, tag)]) idx (process_deletion_tag author ts idx tag t)"
proof -
  consider (e) v where "tag_is ''e'' v tag" "process_deletion_tag author ts idx tag t = delete_by_id author ts idx v t"
    | (a) v where "tag_is ''a'' v tag" "process_deletion_tag author ts idx tag t = delete_by_address author ts idx v t"
    | (n) "process_deletion_tag author ts idx tag t = t"
  proof (cases tag)
    case None then show thesis using n by (simp add: process_deletion_tag_def)
  next
    case (Some items)
    then show thesis using e [of "items ! 1"] a [of "items ! 1"] n
      by (cases "length items < 2"; cases "items ! 0 = ''e''"; cases "items ! 0 = ''a''")
        (simp_all add: process_deletion_tag_def tag_is_def)
  qed
  then show ?thesis
  proof cases
    case e then show ?thesis using sound_by_id [OF assms(1,3)] by simp
  next
    case a then show ?thesis using sound_by_address [OF assms] by simp
  next
    case n then show ?thesis by (intro tomb_soundI [OF assms(3)]) auto
  qed
qed

lemma sound_process_tags:
  assumes "index_ok h idx" "events_by_hash h" "tomb_sound h log idx t"
  shows "tomb_sound h (log @ deletion_refs author ts tags) idx (process_deletion_tags author ts tags idx t)"
  using assms(3)
proof (induction tags arbitrary: log t)
  case (Cons tag tags)
  from Cons.IH [OF sound_process_tag [OF assms(1,2) Cons.prems]] show ?case
    by (simp add: process_deletion_tags_def deletion_refs_def)
qed (simp add: process_deletion_tags_def deletion_refs_def)

abbreviation arrive :: "event_key \<Rightarrow> event_fields \<Rightarrow> tombstones \<Rightarrow> tombstones" where
  "arrive key f t \<equiv> apply_tombstones_to_event key (ef_id f) (ef_pubkey f) (ef_kind f) (ef_created_at f)
     (first_d_tag (ef_tags f)) t"

lemma index_event_split:
  assumes ok: "index_ok h idx" and step: "index_event_fields f off (idx, t) = Some (idx', t')"
  shows "\<exists>key. key_of idx' (ef_id f) = Some key \<and> (\<forall>i. i \<noteq> ef_id f \<longrightarrow> key_of idx' i = key_of idx i) \<and>
    (\<forall>k. key_of idx (ef_id f) = Some k \<longrightarrow> key = k) \<and>
    t' = (if ef_kind f = EVENT_DELETION
          then process_deletion_tags (ef_pubkey f) (ef_created_at f) (ef_tags f) idx' (arrive key f t) else arrive key f t)"
proof -
  obtain idx1 key where up: "upsert_event_record (ef_id f) off (ef_created_at f) idx = Some (idx1, key)"
    using step by (auto simp: index_event_fields_def split: option.splits)
  have same: "events_by_id idx' = events_by_id idx1"
    using step up by (auto simp: index_event_fields_def Let_def)
  have k: "key_of idx' (ef_id f) = Some key"
    using up by (auto simp: key_of_def same upsert_event_record_def Let_def split: option.splits if_splits)
  have o: "key_of idx' i = key_of idx i" if "i \<noteq> ef_id f" for i
    using up that by (auto simp: key_of_def same upsert_event_record_def Let_def split: option.splits if_splits)
  have e: "key = k" if "key_of idx (ef_id f) = Some k" for k
    using up that by (auto simp: key_of_def upsert_event_record_def Let_def split: option.splits if_splits)
  have "t' = (if ef_kind f = EVENT_DELETION
      then process_deletion_tags (ef_pubkey f) (ef_created_at f) (ef_tags f) idx' (arrive key f t) else arrive key f t)"
    using step up by (auto simp: index_event_fields_def Let_def)
  then show ?thesis using k o e by blast
qed

lemma key_of_kept:
  assumes "index_ok h idx" "\<And>i. i \<noteq> ef_id f \<Longrightarrow> key_of idx' i = key_of idx i"
    "\<And>k. key_of idx (ef_id f) = Some k \<Longrightarrow> key = k" "key_of idx' (ef_id f) = Some key" "key_of idx i = Some k"
  shows "key_of idx' i = Some k"
  using assms by (cases "i = ef_id f") auto

lemma first_d_tag_has: "first_d_tag tags = Some d \<Longrightarrow> list_ex (tag_is ''d'' d) tags"
  by (induction tags) (auto simp: tag_is_def split: option.splits if_splits)

lemma sound_apply:
  assumes s: "tomb_sound h log idx t"
    and key: "key_of idx' (ef_id f) = Some key" and kept: "\<And>i k. key_of idx i = Some k \<Longrightarrow> key_of idx' i = Some k"
    and plain: "CHR '':'' \<notin> set (ef_pubkey f)"
  shows "tomb_sound (h @ [(f, off)]) log idx' (arrive key f t)" (is "tomb_sound _ _ _ ?t'")
proof -
  have old: "justified (h @ [(f, off)]) log idx' k" if "justified h log idx k" for k
    using that kept unfolding justified_def by (metis UnI1 set_append)
  have rest: "pending_ids ?t' = pending_ids t" "deleted_addresses ?t' = deleted_addresses t"
    by (simp_all add: apply_tombstones_to_event_def split: option.splits)
  have new: "justified (h @ [(f, off)]) log idx' key" if "ref \<in> set log" "deletes ref f" for ref
    using that key unfolding justified_def by (metis in_set_conv_decomp)
  have "justified (h @ [(f, off)]) log idx' k" if k: "k |\<in>| deleted_keys ?t'" for k
  proof (cases "k |\<in>| deleted_keys t")
    case True
    then show ?thesis using s old by (simp add: tomb_sound_def)
  next
    case False
    then consider (p) ts where "k = key" "fmlookup (pending_ids t) (ef_id f) = Some (ef_pubkey f, ts)"
      | (a) d ts where "k = key" "first_d_tag (ef_tags f) = Some d" "ef_created_at f \<le> ts"
          "fmlookup (deleted_addresses t) (event_address (ef_kind f) (ef_pubkey f) d) = Some ts"
      using k by (auto simp: apply_tombstones_to_event_def split: if_splits option.splits)
    then show ?thesis
    proof cases
      case p
      then have "pending_from log (ef_id f) (ef_pubkey f, ts)" using s by (simp add: tomb_sound_def)
      then obtain tag where "(ef_pubkey f, ts, tag) \<in> set log" "tag_is ''e'' (ef_id f) tag"
        by (auto simp: pending_from_def)
      then show ?thesis using p(1) new [of "(ef_pubkey f, ts, tag)"] by (simp add: deletes_def)
    next
      case a
      then have "address_from log (event_address (ef_kind f) (ef_pubkey f) d) ts" using s by (simp add: tomb_sound_def)
      then obtain tag where "(ef_pubkey f, ts, tag) \<in> set log"
        "tag_is ''a'' (event_address (ef_kind f) (ef_pubkey f) d) tag"
        using splitn3_address [OF plain] by (auto simp: address_from_def)
      moreover have "has_tag ''d'' d f" using first_d_tag_has [OF a(2)] by (simp add: has_tag_def)
      ultimately have "deletes (ef_pubkey f, ts, tag) f"
        using a(3) splitn3_address [OF plain, of "ef_kind f" d] by (auto simp: deletes_def)
      then show ?thesis using a(1) new \<open>(ef_pubkey f, ts, tag) \<in> set log\<close> by blast
    qed
  qed
  then show ?thesis using s rest by (simp add: tomb_sound_def)
qed

lemma tomb_run_index_ok: "tomb_run h log idx t \<Longrightarrow> index_ok h idx"
  by (induction rule: tomb_run.induct) (auto intro: index_event_fields_ok)

lemma tomb_run_sound:
  "tomb_run h log idx t \<Longrightarrow> events_by_hash h \<Longrightarrow> plain_authors h \<Longrightarrow> tomb_sound h log idx t"
proof (induction rule: tomb_run.induct)
  case (start idx)
  then show ?case by (simp add: tomb_sound_def tombstones_clear_def)
next
  case (index h log idx t f off idx' t')
  have h: "events_by_hash h" using index.prems(1) by (rule events_by_hash_prefix)
  have p: "plain_authors h" "CHR '':'' \<notin> set (ef_pubkey f)" using index.prems(2) by (auto simp: plain_authors_def)
  have ok: "index_ok h idx" using index.hyps(1) by (rule tomb_run_index_ok)
  have ok': "index_ok (h @ [(f, off)]) idx'" using ok index.hyps(2) by (rule index_event_fields_ok)
  obtain key where k: "key_of idx' (ef_id f) = Some key" "\<And>i. i \<noteq> ef_id f \<Longrightarrow> key_of idx' i = key_of idx i"
      "\<And>k. key_of idx (ef_id f) = Some k \<Longrightarrow> key = k"
    and t': "t' = (if ef_kind f = EVENT_DELETION
      then process_deletion_tags (ef_pubkey f) (ef_created_at f) (ef_tags f) idx' (arrive key f t) else arrive key f t)"
    using index_event_split [OF ok index.hyps(2)] by blast
  have kept: "key_of idx' i = Some q" if "key_of idx i = Some q" for i q
    using key_of_kept [OF ok k(2,3,1) that] .
  note s = sound_apply [OF index.IH [OF h p(1)] k(1) kept p(2), of off]
  show ?case
  proof (cases "ef_kind f = EVENT_DELETION")
    case True show ?thesis unfolding t' if_P [OF True] by (rule sound_process_tags [OF ok' index.prems(1) s])
  next
    case False show ?thesis unfolding t' if_not_P [OF False] by (rule s)
  qed
next
  case (replay h log idx t author ts tags)
  then show ?case using sound_process_tags [OF tomb_run_index_ok] by blast
qed

section \<open>The author's deletion takes effect in either order\<close>

lemma by_id_grows: "deleted_keys t |\<subseteq>| deleted_keys (delete_by_id a ts idx i t)"
  by (auto simp: delete_by_id_def split: option.splits)

lemma by_address_grows: "deleted_keys t |\<subseteq>| deleted_keys (delete_by_address a ts idx ad t)"
  by (auto simp: delete_by_address_def split: option.splits)

lemma process_tag_grows: "deleted_keys t |\<subseteq>| deleted_keys (process_deletion_tag a ts idx tag t)"
  using by_id_grows by_address_grows
  by (auto simp: process_deletion_tag_def split: option.splits)

lemma apply_grows: "deleted_keys t |\<subseteq>| deleted_keys (apply_tombstones_to_event k i a kd c d t)"
  by (auto simp: apply_tombstones_to_event_def split: option.splits)

text \<open>For an id that only one author ever refers to, the reference is either waiting or has acted.\<close>

definition refers :: "deletion_log \<Rightarrow> string \<Rightarrow> string \<Rightarrow> bool" where
  "refers log i a \<longleftrightarrow> (\<exists>ts tag. (a, ts, tag) \<in> set log \<and> tag_is ''e'' i tag)"

definition acted :: "history \<Rightarrow> string \<Rightarrow> string \<Rightarrow> database_indexes \<Rightarrow> tombstones \<Rightarrow> bool" where
  "acted h i a idx t \<longleftrightarrow>
     (case key_of idx i of
        None \<Rightarrow> \<exists>ts. fmlookup (pending_ids t) i = Some (a, ts)
      | Some k \<Rightarrow> (\<forall>(f, off) \<in> set h. ef_id f = i \<longrightarrow> ef_pubkey f = a) \<longrightarrow> k |\<in>| deleted_keys t)"

definition id_done :: "history \<Rightarrow> deletion_log \<Rightarrow> string \<Rightarrow> string \<Rightarrow> database_indexes \<Rightarrow> tombstones \<Rightarrow> bool" where
  "id_done h log i a idx t \<longleftrightarrow>
     (\<forall>b ts. fmlookup (pending_ids t) i = Some (b, ts) \<longrightarrow> refers log i b) \<and>
     (refers log i a \<longrightarrow> (\<forall>b. refers log i b \<longrightarrow> b = a) \<longrightarrow> acted h i a idx t)"

lemma id_doneD:
  assumes "id_done h log i a idx t"
  shows "\<forall>b ts. fmlookup (pending_ids t) i = Some (b, ts) \<longrightarrow> refers log i b"
    and "refers log i a \<Longrightarrow> \<forall>b. refers log i b \<longrightarrow> b = a \<Longrightarrow> acted h i a idx t"
  using assms unfolding id_done_def by blast+

lemma acted_mono:
  assumes "acted h i a idx t" "key_of idx' i = key_of idx i" "fmlookup (pending_ids t') i = fmlookup (pending_ids t) i"
    "deleted_keys t |\<subseteq>| deleted_keys t'" "set h \<subseteq> set h'"
  shows "acted h' i a idx' t'"
proof (cases "key_of idx i")
  case None
  then show ?thesis using assms(1-3) by (simp add: acted_def)
next
  case (Some k)
  have "k |\<in>| deleted_keys t'" if "\<forall>(f, off) \<in> set h'. ef_id f = i \<longrightarrow> ef_pubkey f = a"
  proof -
    have "\<forall>(f, off) \<in> set h. ef_id f = i \<longrightarrow> ef_pubkey f = a" using that assms(5) by blast
    then have "k |\<in>| deleted_keys t" using assms(1) Some by (simp add: acted_def)
    then show ?thesis using assms(4) by blast
  qed
  then show ?thesis using Some assms(2) by (simp add: acted_def)
qed

lemma process_tag_pending:
  "fmlookup (pending_ids (process_deletion_tag author ts idx tag t)) i =
   (if tag_is ''e'' i tag \<and> key_of idx i = None then
      (case fmlookup (pending_ids t) i of
         Some (a, old) \<Rightarrow> if ts > old then Some (author, ts) else Some (a, old)
       | None \<Rightarrow> Some (author, ts))
    else fmlookup (pending_ids t) i)"
  by (auto simp: process_deletion_tag_def delete_by_id_def delete_by_address_def tag_is_def key_of_def
      split: option.splits)

lemma refers_snoc:
  "refers (log @ [(author, ts, tag)]) i b \<longleftrightarrow> refers log i b \<or> b = author \<and> tag_is ''e'' i tag"
  by (auto simp: refers_def)

lemma own_reference_deletes:
  assumes ok: "index_ok h idx" and tag: "tag_is ''e'' i tag" and k: "key_of idx i = Some k"
    and own: "\<forall>(f, off) \<in> set h. ef_id f = i \<longrightarrow> ef_pubkey f = a"
  shows "k |\<in>| deleted_keys (process_deletion_tag a ts idx tag t)"
proof -
  have post: "postings_ok h idx" "records_ok h idx" using ok by (simp_all add: index_ok_def)
  obtain r where r: "fmlookup (events_by_id idx) i = Some r" "er_key r = k" using k by (auto simp: key_of_def)
  then obtain f off where f: "latest h i = Some (f, off)"
    using records_okD(1) [OF post(2), of i] by (auto simp: option_rel_Some2)
  have "(f, off) \<in> set h" "ef_id f = i" "ef_pubkey f = a" using latest_SomeD [OF f] own by auto
  then have "k \<in> keys_where idx h (\<lambda>f. ef_pubkey f = a)" using k unfolding keys_where_def by blast
  then have "k |\<in>| posting (events_by_pubkey idx) a" using postings_okD(2) [OF post(1)] by blast
  then have "k |\<in>| deleted_keys (delete_by_id a ts idx i t)"
    using r by (auto simp: delete_by_id_def posting_def split: option.splits)
  moreover have "process_deletion_tag a ts idx tag t = delete_by_id a ts idx i t"
    using tag by (auto simp: process_deletion_tag_def tag_is_def split: option.splits)
  ultimately show ?thesis by simp
qed

lemma id_done_tag:
  assumes ok: "index_ok h idx" and d: "id_done h log i a idx t"
  shows "id_done h (log @ [(author, ts, tag)]) i a idx (process_deletion_tag author ts idx tag t)"
proof (cases "tag_is ''e'' i tag")
  case False
  then have ref: "refers (log @ [(author, ts, tag)]) i b \<longleftrightarrow> refers log i b" for b by (simp add: refers_snoc)
  have pend: "fmlookup (pending_ids (process_deletion_tag author ts idx tag t)) i = fmlookup (pending_ids t) i"
    using False by (simp add: process_tag_pending)
  show ?thesis
    unfolding id_done_def ref pend
  proof (intro conjI impI)
    show "\<forall>b ts. fmlookup (pending_ids t) i = Some (b, ts) \<longrightarrow> refers log i b" by (rule id_doneD(1) [OF d])
    assume "refers log i a" "\<forall>b. refers log i b \<longrightarrow> b = a"
    then have "acted h i a idx t" by (rule id_doneD(2) [OF d])
    then show "acted h i a idx (process_deletion_tag author ts idx tag t)"
      by (rule acted_mono [OF _ refl pend process_tag_grows order_refl])
  qed
next
  case True
  have pend: "refers log i b" if "fmlookup (pending_ids t) i = Some (b, ts')" for b ts'
    using id_doneD(1) [OF d] that by blast
  show ?thesis unfolding id_done_def
  proof (intro conjI allI impI)
    show "refers (log @ [(author, ts, tag)]) i b"
      if "fmlookup (pending_ids (process_deletion_tag author ts idx tag t)) i = Some (b, ts')" for b ts'
      using that True pend by (auto simp: process_tag_pending refers_snoc split: if_splits option.splits)
  next
    assume only: "\<forall>b. refers (log @ [(author, ts, tag)]) i b \<longrightarrow> b = a"
    then have au: "author = a" and old: "\<And>b. refers log i b \<Longrightarrow> b = a"
      using True unfolding refers_snoc by blast+
    show "acted h i a idx (process_deletion_tag author ts idx tag t)"
    proof (cases "key_of idx i")
      case None
      have "b = a" if "fmlookup (pending_ids t) i = Some (b, ts')" for b ts' using old pend that by blast
      then have "\<exists>ts'. fmlookup (pending_ids (process_deletion_tag author ts idx tag t)) i = Some (a, ts')"
        using True None au by (cases "fmlookup (pending_ids t) i") (auto simp: process_tag_pending)
      then show ?thesis using None by (simp add: acted_def)
    next
      case (Some k)
      then show ?thesis using own_reference_deletes [OF ok True Some] au by (simp add: acted_def)
    qed
  qed
qed

lemma id_done_tags:
  assumes "index_ok h idx" "id_done h log i a idx t"
  shows "id_done h (log @ deletion_refs author ts tags) i a idx (process_deletion_tags author ts tags idx t)"
  using assms(2)
proof (induction tags arbitrary: log t)
  case (Cons tag tags)
  from Cons.IH [OF id_done_tag [OF assms(1) Cons.prems]] show ?case
    by (simp add: process_deletion_tags_def deletion_refs_def)
qed (simp add: process_deletion_tags_def deletion_refs_def)

lemma id_done_apply:
  assumes d: "id_done h log i a idx t"
    and key: "key_of idx' (ef_id f) = Some key" "\<And>j. j \<noteq> ef_id f \<Longrightarrow> key_of idx' j = key_of idx j"
      "\<And>k. key_of idx (ef_id f) = Some k \<Longrightarrow> key = k"
  shows "id_done (h @ [(f, off)]) log i a idx' (arrive key f t)" (is "id_done _ _ _ _ _ ?t'")
proof -
  have p: "pending_ids ?t' = pending_ids t"
    by (simp add: apply_tombstones_to_event_def split: option.splits)
  show ?thesis
  proof (cases "i = ef_id f")
    case False
    have "acted (h @ [(f, off)]) i a idx' ?t'" if "acted h i a idx t"
      by (rule acted_mono [OF that key(2) [OF False] _ apply_grows]) (auto simp: p)
    then show ?thesis using id_doneD [OF d] unfolding id_done_def p by metis
  next
    case True
    have "key |\<in>| deleted_keys ?t'" if ac: "acted h i a idx t"
      and own: "\<forall>(g, off) \<in> set (h @ [(f, off)]). ef_id g = i \<longrightarrow> ef_pubkey g = a"
    proof (cases "key_of idx i")
      case None
      then obtain ts where ts: "fmlookup (pending_ids t) (ef_id f) = Some (ef_pubkey f, ts)"
        using ac own True by (auto simp: acted_def)
      then have "\<not> tombstones_is_empty t" by (auto simp: tombstones_is_empty_def)
      then show ?thesis using ts by (simp add: apply_tombstones_to_event_def)
    next
      case (Some k)
      then have "k |\<in>| deleted_keys t" using ac own by (simp add: acted_def)
      then have "k |\<in>| deleted_keys ?t'" using apply_grows [of t key "ef_id f"] by (rule fsubsetD [rotated])
      then show ?thesis using key(3) [of k] Some True by simp
    qed
    then have "acted h i a idx t \<Longrightarrow> acted (h @ [(f, off)]) i a idx' ?t'"
      using key(1) True by (simp add: acted_def)
    then show ?thesis using id_doneD [OF d] unfolding id_done_def p by metis
  qed
qed

lemma tomb_run_id_done: "tomb_run h log idx t \<Longrightarrow> id_done h log i a idx t"
proof (induction rule: tomb_run.induct)
  case (start idx)
  then show ?case by (simp add: id_done_def refers_def tombstones_clear_def)
next
  case (index h log idx t f off idx' t')
  have ok: "index_ok h idx" using index.hyps(1) by (rule tomb_run_index_ok)
  have ok': "index_ok (h @ [(f, off)]) idx'" using ok index.hyps(2) by (rule index_event_fields_ok)
  obtain key where k: "key_of idx' (ef_id f) = Some key" "\<And>i. i \<noteq> ef_id f \<Longrightarrow> key_of idx' i = key_of idx i"
      "\<And>k. key_of idx (ef_id f) = Some k \<Longrightarrow> key = k"
    and t': "t' = (if ef_kind f = EVENT_DELETION
      then process_deletion_tags (ef_pubkey f) (ef_created_at f) (ef_tags f) idx' (arrive key f t) else arrive key f t)"
    using index_event_split [OF ok index.hyps(2)] by blast
  note s = id_done_apply [OF index.IH k, of off]
  show ?case
  proof (cases "ef_kind f = EVENT_DELETION")
    case True show ?thesis unfolding t' if_P [OF True] by (rule id_done_tags [OF ok' s])
  next
    case False show ?thesis unfolding t' if_not_P [OF False] by (rule s)
  qed
next
  case (replay h log idx t author ts tags)
  then show ?case using id_done_tags [OF tomb_run_index_ok] by blast
qed

text \<open>Address deletions, for the parameterised replaceable kinds.\<close>

definition addressed :: "deletion_log \<Rightarrow> u16 \<Rightarrow> string \<Rightarrow> string \<Rightarrow> u32 \<Rightarrow> bool" where
  "addressed log kind author d ts \<longleftrightarrow>
     (\<exists>tag. (author, ts, tag) \<in> set log \<and> tag_is ''a'' (event_address kind author d) tag)"

definition at_address :: "u16 \<Rightarrow> string \<Rightarrow> string \<Rightarrow> event_fields \<Rightarrow> bool" where
  "at_address kind author d f \<longleftrightarrow> ef_kind f = kind \<and> ef_pubkey f = author \<and> first_d_tag (ef_tags f) = Some d"

definition covered :: "u16 \<Rightarrow> string \<Rightarrow> string \<Rightarrow> u32 \<Rightarrow> tombstones \<Rightarrow> bool" where
  "covered kind author d ts t \<longleftrightarrow>
     (\<exists>ts'. fmlookup (deleted_addresses t) (event_address kind author d) = Some ts' \<and> ts \<le> ts')"

definition address_done ::
  "history \<Rightarrow> deletion_log \<Rightarrow> u16 \<Rightarrow> string \<Rightarrow> string \<Rightarrow> database_indexes \<Rightarrow> tombstones \<Rightarrow> bool" where
  "address_done h log kind author d idx t \<longleftrightarrow>
     (\<forall>ts. addressed log kind author d ts \<longrightarrow> covered kind author d ts t \<and>
        (\<forall>f off k. (f, off) \<in> set h \<longrightarrow> at_address kind author d f \<longrightarrow> ef_created_at f \<le> ts \<longrightarrow>
           key_of idx (ef_id f) = Some k \<longrightarrow> k |\<in>| deleted_keys t))"

lemma address_doneD:
  assumes "address_done h log kind author d idx t" "addressed log kind author d ts"
  shows "covered kind author d ts t"
    and "(f, off) \<in> set h \<Longrightarrow> at_address kind author d f \<Longrightarrow> ef_created_at f \<le> ts \<Longrightarrow>
      key_of idx (ef_id f) = Some k \<Longrightarrow> k |\<in>| deleted_keys t"
  using assms unfolding address_done_def by blast+

lemma covered_process_tag: "covered kind author d ts t \<Longrightarrow> covered kind author d ts (process_deletion_tag a ts' idx tag t)"
  by (auto simp: covered_def process_deletion_tag_def delete_by_id_def delete_by_address_def max_def
      intro: order_trans split: option.splits)

lemma own_address_deletes:
  assumes ok: "index_ok h idx" and hash: "events_by_hash h" and plain: "CHR '':'' \<notin> set author"
    and tag: "tag_is ''a'' (event_address kind author d) tag"
  shows "covered kind author d ts (process_deletion_tag author ts idx tag t)"
    and "(f, off) \<in> set h \<Longrightarrow> at_address kind author d f \<Longrightarrow> ef_created_at f \<le> ts \<Longrightarrow>
      key_of idx (ef_id f) = Some k \<Longrightarrow> k |\<in>| deleted_keys (process_deletion_tag author ts idx tag t)"
proof -
  let ?A = "event_address kind author d"
  have p: "process_deletion_tag author ts idx tag t = delete_by_address author ts idx ?A t"
    using tag by (auto simp: process_deletion_tag_def tag_is_def split: option.splits)
  show "covered kind author d ts (process_deletion_tag author ts idx tag t)"
    by (auto simp: p covered_def delete_by_address_def splitn3_address [OF plain] split: option.splits)
  assume f: "(f, off) \<in> set h" and at: "at_address kind author d f" and c: "ef_created_at f \<le> ts"
    and k: "key_of idx (ef_id f) = Some k"
  have post: "postings_ok h idx" "records_ok h idx" using ok by (simp_all add: index_ok_def)
  have in_where: "k \<in> keys_where idx h Q" if "Q f" for Q using f k that unfolding keys_where_def by blast
  obtain r where r: "fmlookup (events_by_id idx) (ef_id f) = Some r" "er_key r = k" using k by (auto simp: key_of_def)
  then have rk: "fmlookup (events_by_key idx) k = Some r" using records_okD(2) [OF post(2)] by blast
  obtain g off' where g: "(g, off') \<in> set h" "key_of idx (ef_id g) = Some k" "er_created_at r = ef_created_at g"
    by (rule index_ok_latest [OF ok hash rk])
  have "ef_id g = ef_id f" using g(2) k records_okD(6) [OF post(2)] by (auto simp: key_of_def)
  then have "g = f" using events_by_hashD [OF hash g(1) f] by simp
  moreover have "has_tag ''d'' d f" using at first_d_tag_has by (auto simp: at_address_def has_tag_def)
  ultimately have "k |\<in>| address_hits kind author d ts idx"
    unfolding address_hits_iff postings_okD [OF post(1)] using at c g(3) rk
    by (auto simp: at_address_def intro!: in_where)
  then show "k |\<in>| deleted_keys (process_deletion_tag author ts idx tag t)"
    by (simp add: p delete_by_address_def splitn3_address [OF plain])
qed

lemma address_done_tag:
  assumes ok: "index_ok h idx" and hash: "events_by_hash h" and plain: "CHR '':'' \<notin> set author"
    and d: "address_done h log kind author d idx t"
  shows "address_done h (log @ [(a, ts, tag)]) kind author d idx (process_deletion_tag a ts idx tag t)"
  unfolding address_done_def
proof (intro allI impI)
  fix ts' assume "addressed (log @ [(a, ts, tag)]) kind author d ts'"
  then consider (old) "addressed log kind author d ts'"
    | (new) "a = author" "ts' = ts" "tag_is ''a'' (event_address kind author d) tag"
    by (auto simp: addressed_def)
  then show "covered kind author d ts' (process_deletion_tag a ts idx tag t) \<and>
    (\<forall>f off k. (f, off) \<in> set h \<longrightarrow> at_address kind author d f \<longrightarrow> ef_created_at f \<le> ts' \<longrightarrow>
       key_of idx (ef_id f) = Some k \<longrightarrow> k |\<in>| deleted_keys (process_deletion_tag a ts idx tag t))"
  proof cases
    case old
    then show ?thesis
      using address_doneD [OF d old] covered_process_tag process_tag_grows by (meson fsubsetD)
  next
    case new
    show ?thesis using own_address_deletes [OF ok hash plain new(3)] unfolding new(1,2) by blast
  qed
qed

lemma address_done_tags:
  assumes "index_ok h idx" "events_by_hash h" "CHR '':'' \<notin> set author" "address_done h log kind author d idx t"
  shows "address_done h (log @ deletion_refs a ts tags) kind author d idx (process_deletion_tags a ts tags idx t)"
  using assms(4)
proof (induction tags arbitrary: log t)
  case (Cons tag tags)
  from Cons.IH [OF address_done_tag [OF assms(1-3) Cons.prems]] show ?case
    by (simp add: process_deletion_tags_def deletion_refs_def)
qed (simp add: process_deletion_tags_def deletion_refs_def)

lemma arrive_covered:
  assumes "covered kind author d ts t" "at_address kind author d f" "ef_created_at f \<le> ts" "30000 \<le> kind" "kind < 40000"
  shows "key |\<in>| deleted_keys (arrive key f t)"
proof -
  obtain ts' where "fmlookup (deleted_addresses t) (event_address kind author d) = Some ts'" "ef_created_at f \<le> ts'"
    using assms(1,3) by (auto simp: covered_def)
  moreover from this have "\<not> tombstones_is_empty t" by (auto simp: tombstones_is_empty_def)
  ultimately show ?thesis using assms(2,4,5)
    by (auto simp: apply_tombstones_to_event_def at_address_def split: option.splits)
qed

lemma address_done_apply:
  assumes ok: "index_ok h idx" and d: "address_done h log kind author d idx t" and range: "30000 \<le> kind" "kind < 40000"
    and key: "key_of idx' (ef_id f) = Some key" "\<And>j. j \<noteq> ef_id f \<Longrightarrow> key_of idx' j = key_of idx j"
      "\<And>k. key_of idx (ef_id f) = Some k \<Longrightarrow> key = k"
  shows "address_done (h @ [(f, off)]) log kind author d idx' (arrive key f t)"
  unfolding address_done_def
proof (intro allI impI conjI)
  fix ts assume ad: "addressed log kind author d ts"
  have cov: "covered kind author d ts t" by (rule address_doneD(1) [OF d ad])
  then show "covered kind author d ts (arrive key f t)"
    by (auto simp: covered_def apply_tombstones_to_event_def split: option.splits)
  fix g off' k assume g: "(g, off') \<in> set (h @ [(f, off)])" "at_address kind author d g" "ef_created_at g \<le> ts"
    "key_of idx' (ef_id g) = Some k"
  show "k |\<in>| deleted_keys (arrive key f t)"
  proof (cases "(g, off') \<in> set h")
    case True
    obtain k0 where k0: "key_of idx (ef_id g) = Some k0"
      using key_of_indexed [OF _ True, of idx] ok by (auto simp: index_ok_def)
    have "key_of idx' (ef_id g) = Some k0" using key_of_kept [OF ok key(2,3,1) k0] .
    then have "k |\<in>| deleted_keys t" using address_doneD(2) [OF d ad True g(2,3) k0] g(4) by simp
    then show ?thesis by (rule fsubsetD [OF apply_grows])
  next
    case False
    then have "g = f" using g(1) by simp
    then show ?thesis using arrive_covered [OF cov g(2,3) range] g(4) key(1) by simp
  qed
qed

lemma tomb_run_address_done:
  assumes "30000 \<le> kind" "kind < 40000" "CHR '':'' \<notin> set author"
  shows "tomb_run h log idx t \<Longrightarrow> events_by_hash h \<Longrightarrow> address_done h log kind author d idx t"
proof (induction rule: tomb_run.induct)
  case (start idx)
  then show ?case by (simp add: address_done_def addressed_def)
next
  case (index h log idx t f off idx' t')
  have h: "events_by_hash h" using index.prems by (rule events_by_hash_prefix)
  have ok: "index_ok h idx" using index.hyps(1) by (rule tomb_run_index_ok)
  have ok': "index_ok (h @ [(f, off)]) idx'" using ok index.hyps(2) by (rule index_event_fields_ok)
  obtain key where k: "key_of idx' (ef_id f) = Some key" "\<And>i. i \<noteq> ef_id f \<Longrightarrow> key_of idx' i = key_of idx i"
      "\<And>k. key_of idx (ef_id f) = Some k \<Longrightarrow> key = k"
    and t': "t' = (if ef_kind f = EVENT_DELETION
      then process_deletion_tags (ef_pubkey f) (ef_created_at f) (ef_tags f) idx' (arrive key f t) else arrive key f t)"
    using index_event_split [OF ok index.hyps(2)] by blast
  note s = address_done_apply [OF ok index.IH [OF h] assms(1,2) k, of off]
  show ?case
  proof (cases "ef_kind f = EVENT_DELETION")
    case True show ?thesis unfolding t' if_P [OF True] by (rule address_done_tags [OF ok' index.prems assms(3) s])
  next
    case False show ?thesis unfolding t' if_not_P [OF False] by (rule s)
  qed
next
  case (replay h log idx t a ts tags)
  then show ?case using address_done_tags [OF tomb_run_index_ok _ assms(3)] by blast
qed

lemma own_id_deleted:
  assumes "tomb_run h log (db_indexes db) (db_tombstones db)" and "events_by_hash h" and "(f, off) \<in> set h"
    and "refers log (ef_id f) (ef_pubkey f)" and "\<forall>b. refers log (ef_id f) b \<longrightarrow> b = ef_pubkey f"
  shows "is_deleted (ef_id f) db"
proof -
  have "acted h (ef_id f) (ef_pubkey f) (db_indexes db) (db_tombstones db)"
    using id_doneD(2) [OF tomb_run_id_done [OF assms(1)] assms(4,5)] .
  moreover have "records_ok h (db_indexes db)" using tomb_run_index_ok [OF assms(1)] by (simp add: index_ok_def)
  then obtain k where "key_of (db_indexes db) (ef_id f) = Some k" by (rule key_of_indexed [OF _ assms(3)])
  moreover have "\<forall>(g, off') \<in> set h. ef_id g = ef_id f \<longrightarrow> ef_pubkey g = ef_pubkey f"
    using events_by_hashD [OF assms(2) _ assms(3)] by blast
  ultimately show ?thesis by (simp add: acted_def is_deleted_def)
qed

section \<open>Example histories\<close>

definition history_log :: "history \<Rightarrow> deletion_log" where
  "history_log h = concat (map (\<lambda>(f, off). if ef_kind f = EVENT_DELETION
     then deletion_refs (ef_pubkey f) (ef_created_at f) (ef_tags f) else []) h)"

lemma refers_Cons:
  "refers ((a, ts, tag) # log) i b \<longleftrightarrow> b = a \<and> tag_is ''e'' i tag \<or> refers log i b"
  "\<not> refers [] i b"
  by (auto simp: refers_def)

lemma index_history_Nil [simp]: "index_history [] st = Some st"
  by (simp add: index_history_def)

lemma index_history_Cons [simp]:
  "index_history ((f, off) # h) st = (case index_event_fields f off st of None \<Rightarrow> None | Some st' \<Rightarrow> index_history h st')"
proof -
  have "fold (\<lambda>(f, off) s. Option.bind s (index_event_fields f off)) h None = None" for h :: history
    by (induction h) auto
  then show ?thesis by (cases "index_event_fields f off st") (simp_all add: index_history_def)
qed

lemma index_history_run:
  assumes "tomb_run h0 log idx t" "index_history h (idx, t) = Some (idx', t')"
  shows "tomb_run (h0 @ h) (log @ history_log h) idx' t'"
  using assms
proof (induction h arbitrary: h0 log idx t)
  case (Cons e h)
  obtain f off where e: "e = (f, off)" by fastforce
  obtain idx1 t1 where 1: "index_event_fields f off (idx, t) = Some (idx1, t1)" "index_history h (idx1, t1) = Some (idx', t')"
    using Cons.prems(2) by (auto simp: e split: option.splits)
  note 2 = Cons.IH [OF tomb_run.index [OF Cons.prems(1) 1(1)] 1(2)]
  show ?case using 2 by (cases "ef_kind f = EVENT_DELETION") (simp_all add: e history_log_def)
qed (simp add: history_log_def)

definition db_of :: "history \<Rightarrow> nostr_db" where
  "db_of h = (case index_history h (indexes_new, tombstones_clear) of
     Some (idx, t) \<Rightarrow> \<lparr>db_indexes = idx, db_storage = example_shards, db_initialized = True,
        db_tombstones = t, default_relays = [], indexer_relays = []\<rparr>
   | None \<Rightarrow> nostr_db_new [] 0 [] [])"

lemma db_of_run:
  assumes "index_history h (indexes_new, tombstones_clear) \<noteq> None"
  shows "tomb_run h (history_log h) (db_indexes (db_of h)) (db_tombstones (db_of h))"
  using assms index_history_run [OF tomb_run.start [OF index_ok_new], of h]
  by (auto simp: db_of_def split: option.splits)

definition deletion_of :: "string \<Rightarrow> string \<Rightarrow> u32 \<Rightarrow> fb_tag list \<Rightarrow> event_fields" where
  "deletion_of i author ts tags = \<lparr>ef_id = i, ef_pubkey = author, ef_kind = EVENT_DELETION, ef_created_at = ts, ef_tags = tags\<rparr>"

definition example_article :: event_fields where
  "example_article = \<lparr>ef_id = ''c'', ef_pubkey = ''alice'', ef_kind = 30023, ef_created_at = 120, ef_tags = [Some [''d'', ''s'']]\<rparr>"

text \<open>The deletion of both events is indexed before either of them.\<close>

definition early_deletion :: history where
  "early_deletion = [(deletion_of ''x'' ''alice'' 150 [Some [''e'', ''a''], Some [''a'', ''30023:alice:s'']], 0),
     (example_note ''a'' 100, 1), (example_article, 2)]"

text \<open>Another author refers to the same id, later than its author and before it arrives.\<close>

definition masked_deletion :: history where
  "masked_deletion = [(deletion_of ''x'' ''alice'' 150 [Some [''e'', ''a'']], 0),
     (deletion_of ''y'' ''mallory'' 200 [Some [''e'', ''a'']], 1), (example_note ''a'' 100, 2)]"

lemmas index_eval = index_event_fields_def upsert_event_record_def indexes_new_def Let_def
  apply_tombstones_to_event_def tombstones_is_empty_def tombstones_clear_def EVENT_DELETION_def
  process_deletion_tags_def process_deletion_tag_def delete_by_id_def deletion_of_def example_note_def
  example_article_def

lemma early_deletion_log:
  "history_log early_deletion = [(''alice'', 150, Some [''e'', ''a'']), (''alice'', 150, Some [''a'', ''30023:alice:s''])]"
  by (simp add: history_log_def early_deletion_def deletion_of_def example_note_def example_article_def
      deletion_refs_def EVENT_DELETION_def)

lemma early_deletion_hash: "events_by_hash early_deletion" "plain_authors early_deletion"
  by (rule events_by_hashI) (auto simp: early_deletion_def deletion_of_def example_note_def example_article_def plain_authors_def)

lemma early_deletion_run:
  "tomb_run early_deletion (history_log early_deletion) (db_indexes (db_of early_deletion)) (db_tombstones (db_of early_deletion))"
  by (rule db_of_run) (simp add: early_deletion_def index_eval split: option.splits)

lemma early_deletion_refers: "refers (history_log early_deletion) ''a'' b \<longleftrightarrow> b = ''alice''"
  by (simp add: early_deletion_log refers_Cons tag_is_def)

section \<open>Properties\<close>

text \<open>C5. Only its author can delete an event: whatever interleaving of indexed events and replayed
  deletions the database has seen, a suppressed event has a deletion by its own author that names
  its id, or names its address and is not older than the event.\<close>
theorem only_author_deletes:
  assumes "tomb_run h log (db_indexes db) (db_tombstones db)" and "events_by_hash h" and "plain_authors h"
    and "(f, off) \<in> set h" and "is_deleted (ef_id f) db"
  shows "\<exists>ref \<in> set log. deletes ref f"
proof -
  obtain k where k: "key_of (db_indexes db) (ef_id f) = Some k" "k |\<in>| deleted_keys (db_tombstones db)"
    using assms(5) by (auto simp: is_deleted_def)
  then have "justified h log (db_indexes db) k"
    using tomb_run_sound [OF assms(1-3)] by (simp add: tomb_sound_def)
  then obtain g off' ref where g: "(g, off') \<in> set h" "key_of (db_indexes db) (ef_id g) = Some k" "ref \<in> set log" "deletes ref g"
    by (auto simp: justified_def)
  have "records_ok h (db_indexes db)" using tomb_run_index_ok [OF assms(1)] by (simp add: index_ok_def)
  then have "ef_id g = ef_id f" using g(2) k(1) records_okD(6) by (fastforce simp: key_of_def)
  then have "g = f" using events_by_hashD [OF assms(2) g(1) assms(4)] by simp
  then show ?thesis using g by blast
qed

text \<open>C6. An author's deletion by id takes effect in either order: once the event is indexed and a
  deletion by its author that names it has been seen, before or after, no query returns the event,
  provided no one else has named that id in a deletion.\<close>
theorem own_id_deletion_effective:
  assumes "tomb_run h log (db_indexes db) (db_tombstones db)" and "events_by_hash h" and "(f, off) \<in> set h"
    and "refers log (ef_id f) (ef_pubkey f)" and "\<forall>b. refers log (ef_id f) b \<longrightarrow> b = ef_pubkey f"
  shows "is_deleted (ef_id f) db \<and> ef_id f \<notin> matching_ids h flt db"
  using own_id_deleted [OF assms] by (simp add: matching_ids_def)

text \<open>An author's deletion by address takes effect in either order, for every version that is not
  newer than the deletion.\<close>
theorem own_address_deletion_effective:
  assumes "tomb_run h log (db_indexes db) (db_tombstones db)" and "events_by_hash h" and "(f, off) \<in> set h"
    and "30000 \<le> ef_kind f" and "ef_kind f < 40000" and "CHR '':'' \<notin> set (ef_pubkey f)"
    and "first_d_tag (ef_tags f) = Some d"
    and "addressed log (ef_kind f) (ef_pubkey f) d ts" and "ef_created_at f \<le> ts"
  shows "is_deleted (ef_id f) db \<and> ef_id f \<notin> matching_ids h flt db"
proof -
  have "records_ok h (db_indexes db)" using tomb_run_index_ok [OF assms(1)] by (simp add: index_ok_def)
  then obtain k where k: "key_of (db_indexes db) (ef_id f) = Some k" by (rule key_of_indexed [OF _ assms(3)])
  have "at_address (ef_kind f) (ef_pubkey f) d f" using assms(7) by (simp add: at_address_def)
  then have "k |\<in>| deleted_keys (db_tombstones db)"
    using address_doneD(2) [OF tomb_run_address_done [OF assms(4-6,1,2)] assms(8) assms(3) _ assms(9) k] by blast
  then have "is_deleted (ef_id f) db" using k by (simp add: is_deleted_def)
  then show ?thesis by (simp add: matching_ids_def)
qed

theorem only_author_deletes_witness:
  "\<exists>ref \<in> set (history_log early_deletion). deletes ref (example_note ''a'' 100)"
proof -
  have n: "(example_note ''a'' 100, 1) \<in> set early_deletion" by (simp add: early_deletion_def)
  have i: "ef_id (example_note ''a'' 100) = ''a''" "ef_pubkey (example_note ''a'' 100) = ''alice''"
    by (simp_all add: example_note_def)
  have "is_deleted ''a'' (db_of early_deletion)"
    using own_id_deleted [OF early_deletion_run early_deletion_hash(1) n] by (simp add: i early_deletion_refers)
  then show ?thesis
    using only_author_deletes [OF early_deletion_run early_deletion_hash n] by (simp add: i)
qed

theorem own_id_deletion_effective_witness: "is_deleted ''a'' (db_of early_deletion)"
  using own_id_deletion_effective [OF early_deletion_run early_deletion_hash(1), of "example_note ''a'' 100" 1]
  by (simp add: early_deletion_def example_note_def early_deletion_refers [unfolded early_deletion_def example_note_def])

theorem own_address_deletion_effective_witness: "is_deleted ''c'' (db_of early_deletion)"
proof -
  have "event_address 30023 ''alice'' ''s'' = ''30023:alice:s''"
    by (simp add: event_address_def show_u16_def show_nat.simps char_of_def bit_0)
  then have "addressed (history_log early_deletion) 30023 ''alice'' ''s'' 150"
    by (auto simp: addressed_def early_deletion_log tag_is_def)
  then show ?thesis
    using own_address_deletion_effective [OF early_deletion_run early_deletion_hash(1), of example_article 2 "''s''" 150]
    by (simp add: early_deletion_def example_article_def)
qed

text \<open>The pending slot of an id holds one deletion: when a later deletion by someone else names the id
  before the event arrives, it overwrites the author's deletion, and the event is not suppressed
  although its author deleted it.\<close>
theorem foreign_deletion_masks_own:
  "refers (history_log masked_deletion) ''a'' ''alice'' \<and>
   ef_pubkey (example_note ''a'' 100) = ''alice'' \<and> has_event ''a'' (db_of masked_deletion) \<and>
   \<not> is_deleted ''a'' (db_of masked_deletion)"
proof -
  have "refers (history_log masked_deletion) ''a'' ''alice''"
    by (simp add: refers_Cons history_log_def masked_deletion_def deletion_of_def example_note_def
        deletion_refs_def EVENT_DELETION_def tag_is_def)
  moreover have "\<not> is_deleted ''a'' (db_of masked_deletion)" "has_event ''a'' (db_of masked_deletion)"
    by (simp_all add: is_deleted_def has_event_def db_of_def masked_deletion_def index_eval fmlookup_dom'_iff)
  ultimately show ?thesis by (simp add: example_note_def)
qed

end
