(* ===== verification/Nostr_Store.thy ===== *)
theory Nostr_Store
  imports Nostr_Query
begin

text \<open>
  The database as a store: the indexes of \<open>Nostr_Index\<close> on top of the sharded storage. A ghost list
  records every event that was stored and indexed, with its offset and bytes; the invariant
  \<open>store_ok\<close> says that the indexes describe that list and that every offset of it still reads its own
  bytes or has been evicted. It uses the storage only through the interface \<open>event_storage\<close>.
\<close>

type_synonym stored = "(event_fields \<times> u64 \<times> bytes) list"

definition stored_history :: "stored \<Rightarrow> history" where
  "stored_history w = map (\<lambda>(f, off, bs). (f, off)) w"

definition held :: "sharded_storage \<Rightarrow> u64 \<Rightarrow> bytes \<Rightarrow> bool" where
  "held st off bs \<longleftrightarrow> (off, bs) \<in> sharded_live st \<or> sharded_gone off st"

definition store_ok :: "stored \<Rightarrow> nostr_db \<Rightarrow> bool" where
  "store_ok w db \<longleftrightarrow> sharded_ok (db_storage db) \<and> index_ok (stored_history w) (db_indexes db) \<and>
     (\<forall>(f, off, bs) \<in> set w. held (db_storage db) off bs)"

definition event_accepts :: "event_fields \<Rightarrow> bytes \<Rightarrow> nostr_db \<Rightarrow> bool" where
  "event_accepts f bs db \<longleftrightarrow> kind_accepts (ucast (ef_kind f), bs) (db_storage db) \<and> event_count (db_indexes db) < 2 ^ 32 - 1"

lemma held_get: "sharded_ok st \<Longrightarrow> held st off bs \<Longrightarrow> sharded_get_event off st = Ok (Some bs) \<or> sharded_get_event off st = Ok None"
  using sharded_get_live sharded_get_gone by (auto simp: held_def)

lemma held_add:
  assumes ok: "sharded_ok st" "kind_accepts kd st" and add: "add_event_for_kind kd st = (st', Ok off)" and h: "held st o' bs"
  shows "held st' o' bs"
proof -
  obtain s2 o2 where a: "add_event_for_kind kd st = (s2, Ok o2)" "\<forall>(o', d') \<in> sharded_live st - sharded_live s2. sharded_gone o' s2"
    using by_kind.add_accepts [OF ok] by blast
  have "s2 = st'" using a(1) add by simp
  moreover have "sharded_gone o' st'" if "sharded_gone o' st" using by_kind.gone_add [OF ok that] add by simp
  ultimately show ?thesis using h a(2) unfolding held_def by blast
qed

lemma store_and_index_step:
  assumes ok: "store_ok w db" and acc: "event_accepts f bs db"
  shows "\<exists>db' off. store_and_index f bs db = Some (db', Ok ()) \<and> store_ok (w @ [(f, off, bs)]) db' \<and>
    sharded_get_event off (db_storage db') = Ok (Some bs)"
proof -
  have s: "sharded_ok (db_storage db)" "kind_accepts (ucast (ef_kind f), bs) (db_storage db)"
    and i: "index_ok (stored_history w) (db_indexes db)" "event_count (db_indexes db) < 2 ^ 32 - 1"
    using ok acc by (simp_all add: store_ok_def event_accepts_def)
  obtain st' off where add: "add_event_for_kind (ucast (ef_kind f), bs) (db_storage db) = (st', Ok off)"
    "sharded_ok st'" "(off, bs) \<in> sharded_live st'"
    using by_kind.add_accepts [OF s] by auto
  obtain idx' t' where ix: "index_event_fields f off (db_indexes db, db_tombstones db) = Some (idx', t')"
    using index_event_fields_total i unfolding index_ok_def by blast
  define db' where "db' = db\<lparr>db_storage := st', db_indexes := idx', db_tombstones := t'\<rparr>"
  have run: "store_and_index f bs db = Some (db', Ok ())"
    using add(1) ix by (simp add: store_and_index_def db_index_def db'_def)
  have "held st' o' b" if "(g, o', b) \<in> set w" for g o' b
  proof (rule held_add [OF s add(1)])
    show "held (db_storage db) o' b" using ok that by (auto simp: store_ok_def)
  qed
  moreover have "index_ok (stored_history w @ [(f, off)]) idx'" by (rule index_event_fields_ok [OF i(1) ix])
  ultimately have "store_ok (w @ [(f, off, bs)]) db'"
    using add(2,3) by (auto simp: store_ok_def db'_def stored_history_def held_def)
  moreover have "sharded_get_event off (db_storage db') = Ok (Some bs)"
    using sharded_get_live add(2,3) by (simp add: db'_def)
  ultimately show ?thesis using run by blast
qed

lemma store_get_event:
  assumes ok: "store_ok (w @ [(f, off, bs)]) db"
  shows "db_get_event (ef_id f) db = (case sharded_get_event off (db_storage db) of Ok b \<Rightarrow> b | Err _ \<Rightarrow> None)"
    and "already_stored (ef_id f) db = sharded_contains_offset off (db_storage db)"
proof -
  have "records_ok (stored_history w @ [(f, off)]) (db_indexes db)"
    using ok by (simp add: store_ok_def index_ok_def stored_history_def)
  from records_okD(1) [OF this, of "ef_id f"]
  obtain r where r: "fmlookup (events_by_id (db_indexes db)) (ef_id f) = Some r" "er_offset r = off"
    by (auto simp: option_rel_Some1 record_of_def)
  then show "db_get_event (ef_id f) db = (case sharded_get_event off (db_storage db) of Ok b \<Rightarrow> b | Err _ \<Rightarrow> None)"
    "already_stored (ef_id f) db = sharded_contains_offset off (db_storage db)"
    by (simp_all add: db_get_event_def already_stored_def)
qed

section \<open>Runs of additions\<close>

text \<open>The messages the storage has room for; each is any of the entry points that add an event.\<close>

datatype add_op =
    AddMessage bytes
  | AddParsed parsed_event bytes
  | AddNostr nostr_event bytes
  | AddTable "nostr_event \<Rightarrow> bytes" nostr_event

definition run_op :: "fb_codec \<Rightarrow> add_op \<Rightarrow> nostr_db \<Rightarrow> (nostr_db \<times> (database_error + unit)) option" where
  "run_op fb op db = (case op of
       AddMessage bs \<Rightarrow> add_worker_message_bytes fb bs db
     | AddParsed p bs \<Rightarrow> add_parsed_event_with_bytes p bs db
     | AddNostr n bs \<Rightarrow> add_nostr_event_with_bytes n bs db
     | AddTable build n \<Rightarrow> add_event_from_fb build n db)"

definition op_event :: "fb_codec \<Rightarrow> add_op \<Rightarrow> (event_fields \<times> bytes) option" where
  "op_event fb op = (case op of
       AddMessage bs \<Rightarrow> (case decode_event fb bs of DecEvent f \<Rightarrow> Some (f, bs) | _ \<Rightarrow> None)
     | AddParsed p bs \<Rightarrow> Some (parsed_fields p, bs)
     | AddNostr n bs \<Rightarrow> Some (nostr_fields n, bs)
     | AddTable build n \<Rightarrow> Some (nostr_fields n, build (n\<lparr>ne_tags := filter (\<lambda>tag. tag \<noteq> None) (ne_tags n)\<rparr>)))"

definition op_accepts :: "fb_codec \<Rightarrow> add_op \<Rightarrow> nostr_db \<Rightarrow> bool" where
  "op_accepts fb op db \<longleftrightarrow> (\<forall>f bs. op_event fb op = Some (f, bs) \<longrightarrow> event_accepts f bs db)"

inductive store_run :: "fb_codec \<Rightarrow> nostr_db \<Rightarrow> add_op list \<Rightarrow> nostr_db \<Rightarrow> bool" for fb where
  run_nil: "store_run fb db [] db"
| run_step: "store_run fb db ops db1 \<Longrightarrow> op_accepts fb op db1 \<Longrightarrow> run_op fb op db1 = Some (db2, res) \<Longrightarrow>
    store_run fb db (ops @ [op]) db2"

lemma run_op_cases:
  assumes "run_op fb op db = Some (db', res)"
  shows "db' = db \<or> (\<exists>f bs. op_event fb op = Some (f, bs) \<and> store_and_index f bs db = Some (db', res))"
  using assms
  by (cases op) (auto simp: run_op_def op_event_def add_worker_message_bytes_def add_parsed_event_with_bytes_def
      add_nostr_event_with_bytes_def add_event_from_fb_def split: decoded.splits if_splits)

lemma store_run_ok:
  assumes "store_run fb db ops db'" "store_ok w db"
  shows "\<exists>w'. store_ok (w @ w') db' \<and> (\<forall>(f, off, bs) \<in> set w'. Some (f, bs) \<in> op_event fb ` set ops)"
  using assms
proof (induction rule: store_run.induct)
  case (run_nil db)
  then show ?case by (intro exI [of _ "[]"]) simp
next
  case (run_step db ops db1 op db2 res)
  then obtain w' where w': "store_ok (w @ w') db1" "\<forall>(f, off, bs) \<in> set w'. Some (f, bs) \<in> op_event fb ` set ops" by blast
  from run_op_cases [OF run_step.hyps(3)] show ?case
  proof
    assume "db2 = db1"
    then show ?thesis using w' by (intro exI [of _ w']) auto
  next
    assume "\<exists>f bs. op_event fb op = Some (f, bs) \<and> store_and_index f bs db1 = Some (db2, res)"
    then obtain f bs where f: "op_event fb op = Some (f, bs)" "store_and_index f bs db1 = Some (db2, res)" by blast
    then have "event_accepts f bs db1" using run_step.hyps(2) by (simp add: op_accepts_def)
    from store_and_index_step [OF w'(1) this] f(2) obtain off where "store_ok ((w @ w') @ [(f, off, bs)]) db2" by auto
    then show ?thesis using w'(2) f(1) by (intro exI [of _ "w' @ [(f, off, bs)]"]) (auto simp: image_iff)
  qed
qed

lemma store_lookup:
  assumes ok: "store_ok w db" and get: "db_get_event i db = Some b"
  shows "\<exists>f off. (f, off, b) \<in> set w \<and> ef_id f = i"
proof -
  have s: "sharded_ok (db_storage db)" "records_ok (stored_history w) (db_indexes db)"
    using ok by (simp_all add: store_ok_def index_ok_def)
  obtain r where r: "fmlookup (events_by_id (db_indexes db)) i = Some r" "sharded_get_event (er_offset r) (db_storage db) = Ok (Some b)"
    using get by (auto simp: db_get_event_def split: option.splits sum.splits)
  then obtain f off where f: "latest (stored_history w) i = Some (f, off)" "er_offset r = off"
    using records_okD(1) [OF s(2), of i] by (auto simp: option_rel_Some2 record_of_def)
  have "(f, off) \<in> set (stored_history w)" "ef_id f = i" using latest_SomeD [OF f(1)] by simp_all
  then obtain bs where w: "(f, off, bs) \<in> set w" by (auto simp: stored_history_def)
  then have "held (db_storage db) off bs" using ok by (auto simp: store_ok_def)
  from held_get [OF s(1) this] have "bs = b" using r(2) f(2) by simp
  then show ?thesis using w \<open>ef_id f = i\<close> by blast
qed

section \<open>Rebuilding\<close>

definition live_events :: "fb_codec \<Rightarrow> sharded_storage \<Rightarrow> (event_fields \<times> u64 \<times> bytes) set" where
  "live_events fb st = {(f, off, bs). (off, bs) \<in> sharded_live st \<and> decode_event fb bs = DecEvent f}"

definition pair_events :: "fb_codec \<Rightarrow> (u64 \<times> bytes) list \<Rightarrow> stored" where
  "pair_events fb ps =
     List.map_filter (\<lambda>(off, bs). case decode_event fb bs of DecEvent f \<Rightarrow> Some (f, off, bs) | _ \<Rightarrow> None) ps"

lemma pair_events_history: "stored_history (pair_events fb ps) = indexed_pairs fb ps"
proof (induction ps)
  case (Cons p ps)
  obtain off bs where "p = (off, bs)" by fastforce
  then show ?case using Cons
    by (cases "decode_event fb bs") (simp_all add: stored_history_def pair_events_def indexed_pairs_def List.map_filter_simps)
qed (simp add: stored_history_def pair_events_def indexed_pairs_def List.map_filter_simps)

lemma pair_events_set: "set (pair_events fb ps) = {(f, off, bs). (off, bs) \<in> set ps \<and> decode_event fb bs = DecEvent f}"
proof (induction ps)
  case (Cons p ps)
  obtain off bs where p: "p = (off, bs)" by fastforce
  have "pair_events fb (p # ps) = (case decode_event fb bs of DecEvent f \<Rightarrow> (f, off, bs) # pair_events fb ps | _ \<Rightarrow> pair_events fb ps)"
    by (simp add: pair_events_def List.map_filter_simps p split: decoded.splits)
  then show ?case using Cons p by (cases "decode_event fb bs") auto
qed (simp add: pair_events_def List.map_filter_simps)

lemma read_events_zip:
  assumes "\<forall>off \<in> set offs. \<exists>b. (off, b) \<in> sharded_live st" "sharded_ok st"
  shows "(off, b) \<in> set (zip offs (read_events st offs)) \<longleftrightarrow> off \<in> set offs \<and> (off, b) \<in> sharded_live st"
  using assms(1)
proof (induction offs)
  case (Cons o1 offs)
  obtain b1 where b1: "(o1, b1) \<in> sharded_live st" using Cons.prems by auto
  then have g: "sharded_get_event o1 st = Ok (Some b1)" by (rule sharded_get_live [OF assms(2)])
  have uniq: "(o1, b) \<in> sharded_live st \<longleftrightarrow> b = b1" for b
    using sharded_get_live [OF assms(2), of o1 b] g b1 by auto
  have rd: "read_events st (o1 # offs) = b1 # read_events st offs" by (simp add: read_events_def List.map_filter_simps g)
  have ih: "(off, b) \<in> set (zip offs (read_events st offs)) \<longleftrightarrow> off \<in> set offs \<and> (off, b) \<in> sharded_live st"
    using Cons by simp
  show ?case
    unfolding rd zip_Cons_Cons list.set insert_iff ih by (cases "off = o1") (auto simp: uniq)
qed (simp add: read_events_def List.map_filter_simps)

lemma rebuild_ok:
  assumes ok: "sharded_ok (db_storage db)" and small: "\<forall>offs. sharded_load_events (db_storage db) = Ok offs \<longrightarrow> length offs < 2 ^ 32"
  shows "\<exists>db' w. rebuild_indexes_from_storage fb db = Some (db', Ok ()) \<and> store_ok w db' \<and>
    set w = live_events fb (db_storage db) \<and> db_storage db' = db_storage db"
proof -
  obtain offs where offs: "sharded_load_events (db_storage db) = Ok offs" "set offs = fst ` sharded_live (db_storage db)"
    using sharded_load_events_live [OF ok] by blast
  define raw where "raw = read_events (db_storage db) offs"
  define ps where "ps = zip offs raw"
  define idx0 where "idx0 = preallocate (decoded_events fb raw) (indexes_clear (db_indexes db))"
  have live: "(off, b) \<in> set ps \<longleftrightarrow> (off, b) \<in> sharded_live (db_storage db)" for off b
    unfolding ps_def raw_def using read_events_zip [OF _ ok, of offs off b] offs(2) by force
  have "event_count idx0 = 0" by (simp add: idx0_def preallocate_def indexes_clear_def event_count_def Let_def)
  moreover have "length ps < 2 ^ 32" using small offs(1) by (simp add: ps_def)
  ultimately obtain idx' t' where ix: "index_pairs fb ps (idx0, tombstones_clear) = Some (idx', t')"
      "index_ok ([] @ indexed_pairs fb ps) idx'"
    using index_pairs_ok [OF index_ok_fresh, of "decoded_events fb raw" "db_indexes db" ps fb tombstones_clear]
    by (auto simp: idx0_def)
  have w: "set (pair_events fb ps) = live_events fb (db_storage db)"
    by (auto simp: pair_events_set live_events_def live)
  show ?thesis
  proof (cases "offs = []")
    case True
    then have "ps = []" by (simp add: ps_def)
    then have "live_events fb (db_storage db) = {}" using w by (simp add: pair_events_def List.map_filter_simps)
    moreover have "rebuild_indexes_from_storage fb db = Some (reset_indexes db, Ok ())"
      using True offs(1) by (simp add: rebuild_indexes_from_storage_def load_into_indexes_def reset_indexes_def)
    moreover have "store_ok [] (reset_indexes db)"
      using ok index_ok_clear by (simp add: store_ok_def stored_history_def reset_indexes_def)
    ultimately show ?thesis by (auto simp: reset_indexes_def)
  next
    case False
    define db' where "db' = db\<lparr>db_indexes := idx', db_tombstones := t'\<rparr>"
    have "build_indexes_from_events fb offs (reset_indexes db) = Some db'"
      using ix(1) by (simp add: build_indexes_from_events_def reset_indexes_def db'_def idx0_def ps_def raw_def Let_def)
    then have "rebuild_indexes_from_storage fb db = Some (db', Ok ())"
      using offs(1) False by (simp add: rebuild_indexes_from_storage_def load_into_indexes_def reset_indexes_def)
    moreover have "store_ok (pair_events fb ps) db'"
      using ok ix(2) by (auto simp: store_ok_def db'_def pair_events_history pair_events_set live held_def)
    ultimately show ?thesis using w by (auto simp: db'_def)
  qed
qed

section \<open>Properties\<close>

text \<open>C7. An added event can be read back at once: when the storage has room for a message that decodes to
  an event, adding it succeeds without a panic and looking its id up returns exactly the bytes added.\<close>
theorem added_event_readable:
  assumes "store_ok w db" and "decode_event fb bs = DecEvent f" and "event_accepts f bs db"
  shows "\<exists>db'. add_worker_message_bytes fb bs db = Some (db', Ok ()) \<and> db_get_event (ef_id f) db' = Some bs \<and>
    has_event (ef_id f) db' \<and> (\<exists>off. store_ok (w @ [(f, off, bs)]) db')"
proof -
  obtain db' off where 1: "store_and_index f bs db = Some (db', Ok ())" "store_ok (w @ [(f, off, bs)]) db'"
    "sharded_get_event off (db_storage db') = Ok (Some bs)"
    using store_and_index_step [OF assms(1,3)] by blast
  then have "db_get_event (ef_id f) db' = Some bs" using store_get_event(1) [OF 1(2)] by simp
  moreover from this have "has_event (ef_id f) db'"
    by (auto simp: db_get_event_def has_event_def fmlookup_dom'_iff split: option.splits)
  ultimately show ?thesis using 1 assms(2) by (auto simp: add_worker_message_bytes_def)
qed

text \<open>C8. A lookup never returns another event's bytes: after any run of additions through any of the
  entry points, whatever evictions they caused, the bytes found under an id were added for an event
  with that id.\<close>
theorem lookup_returns_own_bytes:
  assumes "store_ok [] db" and "store_run fb db ops db'" and "db_get_event i db' = Some b"
  shows "\<exists>op f. op \<in> set ops \<and> op_event fb op = Some (f, b) \<and> ef_id f = i"
proof -
  obtain w where w: "store_ok ([] @ w) db'" "\<forall>(f, off, bs) \<in> set w. Some (f, bs) \<in> op_event fb ` set ops"
    using store_run_ok [OF assms(2,1)] by blast
  obtain f off where "(f, off, b) \<in> set w" "ef_id f = i" using store_lookup [OF w(1) assms(3)] by auto
  then show ?thesis using w(2) by (metis (mono_tags, lifting) case_prodD imageE)
qed

text \<open>Adding is idempotent while the copy is readable: a second addition of an event that the cache
  still holds returns success and changes nothing, whatever bytes it brings.\<close>
theorem duplicate_add_is_noop:
  assumes "store_ok w db" and "event_accepts (parsed_fields p) bs db" and "\<not> already_stored (pe_id p) db"
  shows "\<exists>db'. add_parsed_event_with_bytes p bs db = Some (db', Ok ()) \<and>
    add_parsed_event_with_bytes p bs2 db' = Some (db', Ok ())"
proof -
  obtain db' off where 1: "store_and_index (parsed_fields p) bs db = Some (db', Ok ())"
    "store_ok (w @ [(parsed_fields p, off, bs)]) db'" "sharded_get_event off (db_storage db') = Ok (Some bs)"
    using store_and_index_step [OF assms(1,2)] by blast
  have "already_stored (pe_id p) db'"
    using store_get_event(2) [OF 1(2)] 1(3) by (simp add: sharded_contains_iff_get parsed_fields_def)
  then show ?thesis using 1(1) assms(3) by (auto simp: add_parsed_event_with_bytes_def)
qed

text \<open>C9. Rebuilding restores the view of the storage: from any well-formed storage with fewer than
  \<open>2 ^ 32\<close> records the rebuild succeeds, leaves the storage as it is, and the new indexes describe
  exactly the events that the live records decode to, so every later query is a scan of those.\<close>
theorem rebuild_indexes_live_events:
  assumes "sharded_ok (db_storage db)"
    and "\<forall>offs. sharded_load_events (db_storage db) = Ok offs \<longrightarrow> length offs < 2 ^ 32"
  shows "\<exists>db' w. rebuild_indexes_from_storage fb db = Some (db', Ok ()) \<and> db_storage db' = db_storage db \<and>
    set w = live_events fb (db_storage db) \<and> index_ok (stored_history w) (db_indexes db') \<and>
    (\<forall>f off bs. (f, off, bs) \<in> live_events fb (db_storage db) \<longrightarrow> has_event (ef_id f) db')"
proof -
  obtain db' w where 1: "rebuild_indexes_from_storage fb db = Some (db', Ok ())" "store_ok w db'"
    "set w = live_events fb (db_storage db)" "db_storage db' = db_storage db"
    using rebuild_ok [OF assms] by blast
  have ok: "index_ok (stored_history w) (db_indexes db')" using 1(2) by (simp add: store_ok_def)
  have "has_event (ef_id f) db'" if "(f, off, bs) \<in> live_events fb (db_storage db)" for f off bs
  proof -
    have "(f, off) \<in> set (stored_history w)" using that 1(3) by (force simp: stored_history_def)
    then obtain k where "key_of (db_indexes db') (ef_id f) = Some k"
      using key_of_indexed ok unfolding index_ok_def by metis
    then show ?thesis by (auto simp: has_event_def key_of_def fmlookup_dom'_iff)
  qed
  then show ?thesis using 1 ok by blast
qed

definition empty_db :: nostr_db where
  "empty_db = \<lparr>db_indexes = indexes_new, db_storage = example_shards, db_initialized = True,
     db_tombstones = tombstones_clear, default_relays = [], indexer_relays = []\<rparr>"

lemma empty_db_ok: "store_ok [] empty_db"
  by (simp add: store_ok_def stored_history_def empty_db_def index_ok_new example_shards_ok)

lemma example_codec_decodes:
  "decode_event example_codec [6, 7, 8, 9] = DecEvent (example_note ''n'' 300)"
  "decode_event example_codec [1, 2] = DecEvent (example_note ''a'' 100)"
  "parsed_fields (example_parsed ''n'' 300) = example_note ''n'' 300"
  by (simp_all add: decode_event_def example_codec_def parsed_fields_def example_parsed_def example_note_def)

lemma example_accepts: "event_accepts (example_note ''n'' 300) [6, 7, 8, 9] empty_db"
  by (simp add: event_accepts_def kind_accepts_def shard_accepts_def from_kind_def example_note_def empty_db_def
      example_shards_def fmlookup_of_list ring_accepts_def ring_tail_def example_ring_def ring_new_def
      event_count_def indexes_new_def fcard.rep_eq)

theorem added_event_readable_witness:
  "\<exists>db'. add_worker_message_bytes example_codec [6, 7, 8, 9] empty_db = Some (db', Ok ()) \<and>
     db_get_event ''n'' db' = Some [6, 7, 8, 9]"
  using added_event_readable [OF empty_db_ok example_codec_decodes(1) example_accepts]
  by (auto simp: example_note_def)

lemma example_store_run:
  "\<exists>db'. store_run example_codec empty_db [AddMessage [6, 7, 8, 9]] db' \<and> db_get_event ''n'' db' = Some [6, 7, 8, 9]"
proof -
  obtain db' off where 1: "store_and_index (example_note ''n'' 300) [6, 7, 8, 9] empty_db = Some (db', Ok ())"
    "store_ok ([] @ [(example_note ''n'' 300, off, [6, 7, 8, 9])]) db'"
    "sharded_get_event off (db_storage db') = Ok (Some [6, 7, 8, 9])"
    using store_and_index_step [OF empty_db_ok example_accepts] by blast
  have "op_accepts example_codec (AddMessage [6, 7, 8, 9]) empty_db"
    using example_accepts by (simp add: op_accepts_def op_event_def example_codec_decodes)
  moreover have "run_op example_codec (AddMessage [6, 7, 8, 9]) empty_db = Some (db', Ok ())"
    using 1(1) by (simp add: run_op_def add_worker_message_bytes_def example_codec_decodes)
  ultimately have "store_run example_codec empty_db ([] @ [AddMessage [6, 7, 8, 9]]) db'"
    by (rule run_step [OF run_nil])
  moreover have "db_get_event ''n'' db' = Some [6, 7, 8, 9]"
    using store_get_event(1) [OF 1(2)] 1(3) by (simp add: example_note_def)
  ultimately show ?thesis by auto
qed

theorem lookup_returns_own_bytes_witness:
  "\<exists>db'. store_run example_codec empty_db [AddMessage [6, 7, 8, 9]] db' \<and>
     (\<exists>op f. op \<in> set [AddMessage [6, 7, 8, 9]] \<and> op_event example_codec op = Some (f, [6, 7, 8, 9]) \<and> ef_id f = ''n'')"
  using example_store_run lookup_returns_own_bytes [OF empty_db_ok] by blast

theorem duplicate_add_is_noop_witness:
  "\<exists>db'. add_parsed_event_with_bytes (example_parsed ''n'' 300) [6, 7, 8, 9] empty_db = Some (db', Ok ()) \<and>
    add_parsed_event_with_bytes (example_parsed ''n'' 300) [9] db' = Some (db', Ok ())"
proof -
  have "\<not> already_stored (pe_id (example_parsed ''n'' 300)) empty_db"
    by (simp add: already_stored_def empty_db_def indexes_new_def)
  then show ?thesis
    using duplicate_add_is_noop [OF empty_db_ok, of "example_parsed ''n'' 300" "[6, 7, 8, 9]" "[9]"] example_accepts
    by (simp add: example_codec_decodes)
qed

lemma example_shards_entries: "length (shard_entries example_shards) = 2"
  by (simp add: shard_entries_def example_shards_def sorted_list_of_fset.rep_eq)

lemma example_ring_events: "extract_events_from_buffer example_ring = [0, 6]"
  by (simp add: extract_events_from_buffer_def example_ring_def ring_new_def extract_scan.simps codec_eval)

lemma example_shards_small:
  "\<forall>offs. sharded_load_events example_shards = Ok offs \<longrightarrow> length offs < 2 ^ 32"
proof -
  have "snd e = example_ring" if "e \<in> set (shard_entries example_shards)" for e
  proof -
    have "fmlookup (shards example_shards) (fst e) = Some (snd e)"
      using that shard_entries_set [of "fst e" "snd e" example_shards] by simp
    then show ?thesis by (simp add: example_shards_def fmlookup_of_list split: if_splits)
  qed
  then have "map (length \<circ> (\<lambda>(s, r). map (pack_offset s) (extract_events_from_buffer r))) (shard_entries example_shards)
      = map (\<lambda>_. 2) (shard_entries example_shards)"
    by (auto simp: example_ring_events case_prod_beta)
  then have "length (concat (map (\<lambda>(s, r). map (pack_offset s) (extract_events_from_buffer r)) (shard_entries example_shards))) = 4"
    by (simp add: length_concat example_shards_entries map_replicate_const sum_list_replicate)
  then show ?thesis by (auto simp: sharded_load_events_def)
qed

theorem rebuild_indexes_live_events_witness:
  "\<exists>db'. rebuild_indexes_from_storage example_codec empty_db = Some (db', Ok ()) \<and> has_event ''a'' db'"
proof -
  have st: "db_storage empty_db = example_shards" by (simp add: empty_db_def)
  have "(0, [1, 2]) \<in> ring_live example_ring"
    using ring_holds_live [OF example_ring_holds] by (simp add: example_ring_def ring_new_def)
  then have "(pack_offset Regular 0, [1, 2]) \<in> sharded_live example_shards"
    by (intro sharded_liveI [of _ Regular example_ring]) (simp_all add: example_shards_def fmlookup_of_list)
  then have "(example_note ''a'' 100, pack_offset Regular 0, [1, 2]) \<in> live_events example_codec example_shards"
    by (simp add: live_events_def example_codec_decodes)
  then show ?thesis
    using rebuild_indexes_live_events [of empty_db example_codec, unfolded st, OF example_shards_ok example_shards_small]
    by (force simp: example_note_def)
qed

end
