(* ===== verification/Blob_Store.thy ===== *)
theory Blob_Store
  imports Sharded_Storage
begin

text \<open>
  The blob store that persistence writes to: the contract of the trait \<open>BlobStore\<close> of
  \<open>core/src/storage/persistent.rs\<close> as a locale, and the native implementation of
  \<open>native-ffi/src/storage.rs\<close>, which keeps one file per key and replaces it through a temporary file.
  The directory is a finite map from file names to contents; every \<open>put\<close> takes the next of a list of
  faults, so a statement about all stores covers every choice of failing file operations. The theory
  shows that a put is atomic, also when the process stops in the middle of it.
\<close>

section \<open>Keys\<close>

definition TOMBSTONES_KEY :: string where
  "TOMBSTONES_KEY = ''tombstones''"

definition ENCRYPTED_PARSE_CACHE_VERSION_KEY :: string where
  "ENCRYPTED_PARSE_CACHE_VERSION_KEY = ''encrypted-parse-cache-version''"

definition LEGACY_KIND10002_KEY :: string where
  "LEGACY_KIND10002_KEY = ''shard:kind10002''"

definition is_blob_key :: "string \<Rightarrow> bool" where
  "is_blob_key k =
     (k = TOMBSTONES_KEY \<or> k = ENCRYPTED_PARSE_CACHE_VERSION_KEY \<or> k = LEGACY_KIND10002_KEY
      \<or> Some k \<in> set (map persistence_key persistent_ids))"

text \<open>The one constructor \<open>StorageError::Other\<close>; a message formatted from a database error keeps the error.\<close>

datatype storage_error =
    Other string
  | OtherDb string database_error

section \<open>The contract\<close>

text \<open>
  \<open>stored b k\<close> is what the store holds durably under \<open>k\<close>. A successful read returns it; a successful
  write replaces it, a failed write leaves it; no write changes another key in use.
\<close>

locale blob_store =
  fixes get :: "string \<Rightarrow> 'b \<Rightarrow> storage_error + bytes option"
    and put :: "string \<Rightarrow> bytes \<Rightarrow> 'b \<Rightarrow> 'b \<times> (storage_error + unit)"
    and stored :: "'b \<Rightarrow> string \<Rightarrow> bytes option"
  assumes get_stored: "is_blob_key k \<Longrightarrow> get k b = Ok v \<Longrightarrow> v = stored b k"
    and put_ok: "is_blob_key k \<Longrightarrow> put k bs b = (b', Ok ()) \<Longrightarrow> stored b' k = Some bs"
    and put_err: "is_blob_key k \<Longrightarrow> put k bs b = (b', Err e) \<Longrightarrow> stored b' k = stored b k"
    and put_other: "is_blob_key k \<Longrightarrow> is_blob_key k' \<Longrightarrow> k' \<noteq> k \<Longrightarrow> put k bs b = (b', r) \<Longrightarrow> stored b' k' = stored b k'"

section \<open>Files\<close>

datatype io_fault = NoFault | CreateDirFails | WriteFails nat | RenameFails

record file_blob_store =
  fs_files :: "(string, bytes) fmap"
  fs_unreadable :: "string fset"
  fs_faults :: "io_fault list"

definition file_char :: "char \<Rightarrow> bool" where
  "file_char c =
     (c \<in> set ''abcdefghijklmnopqrstuvwxyzABCDEFGHIJKLMNOPQRSTUVWXYZ0123456789-_.'')"

definition path_for_key :: "string \<Rightarrow> string" where
  "path_for_key key = map (\<lambda>c. if file_char c then c else CHR ''_'') key"

text \<open>
  \<open>Path::with_extension\<close> on a file name other than \<open>..\<close>: the name up to its last dot, unless that is
  its first character, then a dot and the extension.
\<close>

definition file_stem :: "string \<Rightarrow> string" where
  "file_stem name =
     (let before = rev (tl (dropWhile (\<lambda>c. c \<noteq> CHR ''.'') (rev name)))
      in if CHR ''.'' \<notin> set name \<or> before = [] then name else before)"

definition with_extension :: "string \<Rightarrow> string \<Rightarrow> string" where
  "with_extension name ext = file_stem name @ ''.'' @ ext"

definition file_get :: "string \<Rightarrow> file_blob_store \<Rightarrow> storage_error + bytes option" where
  "file_get key s =
     (let path = path_for_key key
      in if path |\<in>| fs_unreadable s then Err (Other ''Failed to read native blob'')
         else Ok (fmlookup (fs_files s) path))"

text \<open>\<open>create_dir_all\<close>, then \<open>write\<close> to the temporary path, then \<open>rename\<close> over the path.\<close>

definition file_put :: "string \<Rightarrow> bytes \<Rightarrow> file_blob_store \<Rightarrow> file_blob_store \<times> (storage_error + unit)" where
  "file_put key bs s =
     (let path = path_for_key key;
          tmp_path = with_extension path ''tmp'';
          fault = (case fs_faults s of [] \<Rightarrow> NoFault | f # _ \<Rightarrow> f);
          s = s\<lparr>fs_faults := tl (fs_faults s)\<rparr>
      in case fault of
           CreateDirFails \<Rightarrow> (s, Err (Other ''Failed to create native blob dir''))
         | WriteFails n \<Rightarrow>
             (s\<lparr>fs_files := fmupd tmp_path (take n bs) (fs_files s)\<rparr>, Err (Other ''Failed to write native blob''))
         | RenameFails \<Rightarrow>
             (s\<lparr>fs_files := fmupd tmp_path bs (fs_files s)\<rparr>, Err (Other ''Failed to replace native blob''))
         | NoFault \<Rightarrow> (s\<lparr>fs_files := fmupd path bs (fmdrop tmp_path (fs_files s))\<rparr>, Ok ()))"

text \<open>
  A process that stops during a put leaves the files that \<open>file_put\<close> leaves when the operation that would come next
  fails; before the write, that is the directory as it was. What reaches the disk when the machine loses power is
  not modelled: the code calls no \<open>fsync\<close>.
\<close>

datatype crash_point = BeforeWrite | DuringWrite nat | BeforeRename | AfterRename

fun stopped_by :: "crash_point \<Rightarrow> io_fault" where
  "stopped_by BeforeWrite = CreateDirFails"
| "stopped_by (DuringWrite n) = WriteFails n"
| "stopped_by BeforeRename = RenameFails"
| "stopped_by AfterRename = NoFault"

definition crashed_put :: "crash_point \<Rightarrow> string \<Rightarrow> bytes \<Rightarrow> file_blob_store \<Rightarrow> file_blob_store" where
  "crashed_put cp key bs s =
     (fst (file_put key bs (s\<lparr>fs_faults := [stopped_by cp]\<rparr>)))\<lparr>fs_faults := fs_faults s\<rparr>"

definition file_stored :: "file_blob_store \<Rightarrow> string \<Rightarrow> bytes option" where
  "file_stored s key = fmlookup (fs_files s) (path_for_key key)"

section \<open>Atomicity\<close>

text \<open>The characters of the keys in use: of them only the colon is mapped to the underscore.\<close>

definition key_char :: "char \<Rightarrow> bool" where
  "key_char c = (c \<in> set ''abcdefghijklmnopqrstuvwxyz0123456789-:'')"

lemma blob_key_chars: "is_blob_key k \<Longrightarrow> \<forall>c \<in> set k. key_char c"
  by (auto simp: is_blob_key_def persistent_ids_def TOMBSTONES_KEY_def ENCRYPTED_PARSE_CACHE_VERSION_KEY_def
      LEGACY_KIND10002_KEY_def key_char_def)

lemma path_char_eq:
  "key_char c \<Longrightarrow> (if file_char c then c else CHR ''_'') = (if c = CHR '':'' then CHR ''_'' else c)"
  "\<not> key_char CHR ''_''" "\<not> key_char CHR ''.''"
  by (auto simp: key_char_def file_char_def)

lemma path_of_key:
  assumes "is_blob_key k"
  shows "path_for_key k = map (\<lambda>c. if c = CHR '':'' then CHR ''_'' else c) k"
  unfolding path_for_key_def using blob_key_chars [OF assms] path_char_eq(1) by (intro map_cong) auto

lemma path_inj:
  assumes "is_blob_key k" "is_blob_key k'" "path_for_key k = path_for_key k'"
  shows "k = k'"
proof (rule map_inj_on)
  show "map (\<lambda>c. if c = CHR '':'' then CHR ''_'' else c) k = map (\<lambda>c. if c = CHR '':'' then CHR ''_'' else c) k'"
    using assms path_of_key by simp
  show "inj_on (\<lambda>c. if c = CHR '':'' then CHR ''_'' else c) (set k \<union> set k')"
    using blob_key_chars [OF assms(1)] blob_key_chars [OF assms(2)] path_char_eq(2) by (auto simp: inj_on_def)
qed

lemma path_no_dot: "is_blob_key k \<Longrightarrow> CHR ''.'' \<notin> set (path_for_key k)"
  using blob_key_chars [of k] path_char_eq(3) by (auto simp: path_of_key split: if_splits)

lemma tmp_has_dot: "CHR ''.'' \<in> set (with_extension name ext)"
  by (simp add: with_extension_def)

lemma path_not_tmp: "is_blob_key k \<Longrightarrow> path_for_key k \<noteq> with_extension name ext"
  using path_no_dot [of k] tmp_has_dot [of name ext] by auto

lemmas tmp_not_path = path_not_tmp [symmetric]

lemma path_eq_iff: "is_blob_key k \<Longrightarrow> is_blob_key k' \<Longrightarrow> path_for_key k = path_for_key k' \<longleftrightarrow> k = k'"
  using path_inj by blast

lemma file_put_cases:
  assumes "is_blob_key k" "is_blob_key k'" "file_put k bs s = (s', r)"
  shows "file_stored s' k' = (if k' = k \<and> r = Ok () then Some bs else file_stored s k')"
  using assms
  by (auto simp: file_put_def Let_def file_stored_def path_eq_iff path_not_tmp tmp_not_path
      split: io_fault.splits list.splits)

interpretation files: blob_store file_get file_put file_stored
proof
  fix k :: string and b b' :: file_blob_store and v bs e k' r
  show "is_blob_key k \<Longrightarrow> file_get k b = Ok v \<Longrightarrow> v = file_stored b k"
    by (auto simp: file_get_def file_stored_def Let_def split: if_splits)
  show "is_blob_key k \<Longrightarrow> file_put k bs b = (b', Ok ()) \<Longrightarrow> file_stored b' k = Some bs"
    using file_put_cases [of k k bs b b' "Ok ()"] by simp
  show "is_blob_key k \<Longrightarrow> file_put k bs b = (b', Err e) \<Longrightarrow> file_stored b' k = file_stored b k"
    using file_put_cases [of k k bs b b' "Err e"] by simp
  show "is_blob_key k \<Longrightarrow> is_blob_key k' \<Longrightarrow> k' \<noteq> k \<Longrightarrow> file_put k bs b = (b', r)
      \<Longrightarrow> file_stored b' k' = file_stored b k'"
    using file_put_cases [of k k' bs b b' r] by simp
qed

text \<open>C15. A blob is replaced atomically. Whatever file operation of a put fails, and wherever the process
  stops during it, every key in use then reads its old contents, or the new contents if it is the key
  written; a put that reports success has stored the new contents, one that reports an error has left
  the old ones.\<close>

theorem file_put_atomic:
  assumes "is_blob_key k" "is_blob_key k'" "file_put k bs s = (s', r)"
  shows "file_stored s' k' = (if k' = k \<and> r = Ok () then Some bs else file_stored s k')
    \<and> file_stored (crashed_put cp k bs s) k' \<in> (if k' = k then {file_stored s k', Some bs} else {file_stored s k'})"
proof -
  have "file_stored (crashed_put cp k bs s) k' \<in> (if k' = k then {file_stored s k', Some bs} else {file_stored s k'})"
    using assms(1,2)
    by (cases cp) (auto simp: crashed_put_def file_put_def Let_def file_stored_def path_eq_iff path_not_tmp tmp_not_path)
  then show ?thesis using file_put_cases [OF assms] by simp
qed

definition example_files :: file_blob_store where
  "example_files = \<lparr>fs_files = fmap_of_list [(''tombstones'', [1])], fs_unreadable = {||}, fs_faults = [WriteFails 1]\<rparr>"

theorem file_put_atomic_witness:
  "snd (file_put ''tombstones'' [2, 3] example_files) = Err (Other ''Failed to write native blob'')
   \<and> file_stored (fst (file_put ''tombstones'' [2, 3] example_files)) ''tombstones'' = Some [1]"
proof -
  have k: "is_blob_key ''tombstones''" by (simp add: is_blob_key_def TOMBSTONES_KEY_def)
  have "snd (file_put ''tombstones'' [2, 3] example_files) = Err (Other ''Failed to write native blob'')"
    by (simp add: file_put_def Let_def example_files_def)
  moreover have "file_stored example_files ''tombstones'' = Some [1]"
    by (simp add: file_stored_def example_files_def fmlookup_of_list path_for_key_def file_char_def)
  ultimately show ?thesis
    using file_put_atomic [OF k k, of "[2, 3]" example_files] by (metis Inl_Inr_False prod.collapse)
qed

end
