(* ===== verification/Persistent_Storage.thy ===== *)
theory Persistent_Storage
  imports Nostr_Deletion Nostr_Store Blob_Store
begin

text \<open>
  The persistent database, after \<open>core/src/storage/persistent.rs\<close>: the in-memory database, a blob
  store, and the write-ahead log of deletion events. The blob operations are arguments of the
  definitions, and the lemmas about them are proved in the locale \<open>blob_store\<close>. The clock is an
  argument, and so is \<open>iter\<close>, the order in which the hash map of shard snapshots is iterated. An
  operation returns \<open>None\<close> for a panic, and otherwise the new state with the result. The theory shows
  that the log is what its counters say, that a persisted deletion is durable and survives a restart,
  and that a retry after a failed write reports success without having written the deletion.
\<close>

section \<open>Operations that can fail\<close>

type_synonym ('s, 'a) io = "'s \<Rightarrow> ('s \<times> (storage_error + 'a)) option"

definition io_return :: "'a \<Rightarrow> ('s, 'a) io" where
  "io_return a s = Some (s, Ok a)"

definition io_bind :: "('s, 'a) io \<Rightarrow> ('a \<Rightarrow> ('s, 'b) io) \<Rightarrow> ('s, 'b) io" where
  "io_bind m f s =
     (case m s of
        None \<Rightarrow> None
      | Some (s', Err e) \<Rightarrow> Some (s', Err e)
      | Some (s', Ok a) \<Rightarrow> f a s')"

lemma io_return_Ok [simp]: "io_return a s = Some (s', Ok b) \<longleftrightarrow> s' = s \<and> b = a"
  by (auto simp: io_return_def)

lemma io_bind_Err:
  "io_bind m f s = Some (s', Err e) \<longleftrightarrow>
     m s = Some (s', Err e) \<or> (\<exists>s1 a. m s = Some (s1, Ok a) \<and> f a s1 = Some (s', Err e))"
  by (auto simp: io_bind_def split: option.splits sum.splits prod.splits)

lemma io_bind_Ok:
  "io_bind m f s = Some (s', Ok b) \<longleftrightarrow> (\<exists>s1 a. m s = Some (s1, Ok a) \<and> f a s1 = Some (s', Ok b))"
  by (auto simp: io_bind_def split: option.splits sum.splits prod.splits)

section \<open>State\<close>

definition SYNC_INTERVAL_MS :: nat where
  "SYNC_INTERVAL_MS = 30000"

definition ENCRYPTED_PARSE_CACHE_VERSION :: bytes where
  "ENCRYPTED_PARSE_CACHE_VERSION = [0x31]"

definition MAX_WAL_ENTRIES :: nat where
  "MAX_WAL_ENTRIES = 8192"

record 'b persistent_storage =
  core :: nostr_db
  blob :: 'b
  last_sync_ms :: nat
  wal :: bytes
  wal_ids :: "string fset"
  wal_entries :: nat

definition persistent_new :: "nostr_db \<Rightarrow> 'b \<Rightarrow> 'b persistent_storage" where
  "persistent_new db b =
     \<lparr>core = db, blob = b, last_sync_ms = 0, wal = [], wal_ids = {||}, wal_entries = 0\<rparr>"

definition should_sync :: "nat \<Rightarrow> 'b persistent_storage \<Rightarrow> bool" where
  "should_sync now p = (now - last_sync_ms p > SYNC_INTERVAL_MS)"

definition mark_synced :: "nat \<Rightarrow> ('b persistent_storage, unit) io" where
  "mark_synced now p = Some (p\<lparr>last_sync_ms := now\<rparr>, Ok ())"

type_synonym 'b getter = "string \<Rightarrow> 'b \<Rightarrow> storage_error + bytes option"
type_synonym 'b putter = "string \<Rightarrow> bytes \<Rightarrow> 'b \<Rightarrow> 'b \<times> (storage_error + unit)"

definition blob_get :: "'b getter \<Rightarrow> string \<Rightarrow> ('b persistent_storage, bytes option) io" where
  "blob_get get k p = Some (p, get k (blob p))"

definition blob_put :: "'b putter \<Rightarrow> string \<Rightarrow> bytes \<Rightarrow> ('b persistent_storage, unit) io" where
  "blob_put put k bs p = (case put k bs (blob p) of (b, r) \<Rightarrow> Some (p\<lparr>blob := b\<rparr>, r))"

text \<open>\<open>persistence_key().expect(..)\<close>: a shard without a key is a panic.\<close>

definition with_key :: "shard_id \<Rightarrow> (string \<Rightarrow> ('s, 'a) io) \<Rightarrow> ('s, 'a) io" where
  "with_key s f = (case persistence_key s of Some k \<Rightarrow> f k | None \<Rightarrow> (\<lambda>_. None))"

section \<open>Hydration and snapshots\<close>

definition affected :: "shard_id list" where
  "affected = [Kind4, Kind7375, Replaceable, Regular]"

fun clear_shards :: "'b getter \<Rightarrow> 'b putter \<Rightarrow> shard_id list \<Rightarrow> bool \<Rightarrow> ('b persistent_storage, bool) io" where
  "clear_shards get put [] found = io_return found"
| "clear_shards get put (s # ss) found =
     with_key s (\<lambda>k. io_bind (blob_get get k) (\<lambda>v.
       if (case v of Some bs \<Rightarrow> bs \<noteq> [] | None \<Rightarrow> False)
       then io_bind (blob_put put k []) (\<lambda>_. clear_shards get put ss True)
       else clear_shards get put ss found))"

definition migrate_poisoned_encrypted_cache :: "'b getter \<Rightarrow> 'b putter \<Rightarrow> ('b persistent_storage, unit) io" where
  "migrate_poisoned_encrypted_cache get put =
     io_bind (blob_get get ENCRYPTED_PARSE_CACHE_VERSION_KEY) (\<lambda>v.
       if v = Some ENCRYPTED_PARSE_CACHE_VERSION then io_return ()
       else io_bind (clear_shards get put affected False) (\<lambda>found_old_data.
         if found_old_data then blob_put put ENCRYPTED_PARSE_CACHE_VERSION_KEY ENCRYPTED_PARSE_CACHE_VERSION
         else io_return ()))"

fun read_shards :: "'b getter \<Rightarrow> shard_id list \<Rightarrow> ('b persistent_storage, (shard_id \<times> bytes) list) io" where
  "read_shards get [] = io_return []"
| "read_shards get (s # ss) =
     with_key s (\<lambda>k. io_bind (blob_get get k) (\<lambda>v0.
       io_bind (if v0 = None \<and> s = Replaceable then blob_get get LEGACY_KIND10002_KEY else io_return v0) (\<lambda>v.
         io_bind (read_shards get ss) (\<lambda>rest.
           io_return (case v of Some bs \<Rightarrow> if bs \<noteq> [] then (s, bs) # rest else rest | None \<Rightarrow> rest)))))"

definition core_load_shards :: "(shard_id \<times> bytes) list \<Rightarrow> ('b persistent_storage, unit) io" where
  "core_load_shards entries p =
     (case load_all_shards entries (db_storage (core p)) of
        (st, r) \<Rightarrow>
          Some (p\<lparr>core := (core p)\<lparr>db_storage := st\<rparr>\<rparr>,
            case r of Ok _ \<Rightarrow> Ok () | Err e \<Rightarrow> Err (OtherDb ''Failed to load persisted shards: '' e)))"

definition core_rebuild :: "fb_codec \<Rightarrow> ('b persistent_storage, unit) io" where
  "core_rebuild fb p =
     (case rebuild_indexes_from_storage fb (core p) of
        None \<Rightarrow> None
      | Some (db, r) \<Rightarrow>
          Some (p\<lparr>core := db\<rparr>,
            case r of Ok _ \<Rightarrow> Ok () | Err e \<Rightarrow> Err (OtherDb ''Failed to index persisted shards: '' e)))"

type_synonym shard_order = "(shard_id \<times> bytes) list \<Rightarrow> (shard_id \<times> bytes) list"

definition hydrate_from_blob_store ::
  "shard_order \<Rightarrow> fb_codec \<Rightarrow> 'b getter \<Rightarrow> 'b putter \<Rightarrow> ('b persistent_storage, unit) io" where
  "hydrate_from_blob_store iter fb get put =
     io_bind (migrate_poisoned_encrypted_cache get put) (\<lambda>_.
     io_bind (read_shards get persistent_ids) (\<lambda>shard_bytes.
       if shard_bytes = [] then io_return ()
       else io_bind (core_load_shards (iter shard_bytes)) (\<lambda>_. core_rebuild fb)))"

fun put_shards :: "'b putter \<Rightarrow> (shard_id \<times> bytes) list \<Rightarrow> ('b persistent_storage, unit) io" where
  "put_shards put [] = io_return ()"
| "put_shards put ((s, bs) # rest) =
     with_key s (\<lambda>k. io_bind (blob_put put k bs) (\<lambda>_. put_shards put rest))"

definition sync_to_blob_store :: "shard_order \<Rightarrow> 'b putter \<Rightarrow> ('b persistent_storage, unit) io" where
  "sync_to_blob_store iter put p =
     io_bind (put_shards put (iter (save_all_shards (db_storage (core p)))))
       (\<lambda>_. blob_put put ENCRYPTED_PARSE_CACHE_VERSION_KEY ENCRYPTED_PARSE_CACHE_VERSION) p"

section \<open>The deletion log\<close>

definition deletion_event_id :: "fb_codec \<Rightarrow> bytes \<Rightarrow> string option" where
  "deletion_event_id fb bs =
     (case root_worker_message fb bs of
        Some (WmParsed (Some p)) \<Rightarrow> if pe_kind p = EVENT_DELETION then Some (pe_id p) else None
      | Some (WmNostr (Some n)) \<Rightarrow> if ne_kind n = EVENT_DELETION then Some (ne_id n) else None
      | _ \<Rightarrow> None)"

function wal_boundaries :: "bytes \<Rightarrow> nat \<Rightarrow> nat list" where
  "wal_boundaries w offset =
     (if offset + 4 \<le> length w then offset # wal_boundaries w (offset + 4 + read_le32 w offset) else [])"
  by pat_completeness auto
termination
  by (relation "measure (\<lambda>(w, offset). length w - offset)") auto

text \<open>The second pass slices the log: a record that runs past its end is a panic.\<close>

function wal_id_set :: "fb_codec \<Rightarrow> bytes \<Rightarrow> nat \<Rightarrow> string fset option" where
  "wal_id_set fb w offset =
     (if offset + 4 \<le> length w then
        (let len = read_le32 w offset
         in if offset + 4 + len \<le> length w then
              (case wal_id_set fb w (offset + 4 + len) of
                 None \<Rightarrow> None
               | Some ids \<Rightarrow>
                   (case deletion_event_id fb (subslice w (offset + 4) (offset + 4 + len)) of
                      Some i \<Rightarrow> Some (finsert i ids)
                    | None \<Rightarrow> Some ids))
            else None)
      else Some {||})"
  by pat_completeness auto
termination
  by (relation "measure (\<lambda>(fb, w, offset). length w - offset)") auto

declare wal_boundaries.simps [simp del] wal_id_set.simps [simp del]

definition compact_wal :: "fb_codec \<Rightarrow> bytes \<Rightarrow> nat \<Rightarrow> string fset \<Rightarrow> (bytes \<times> nat \<times> string fset) option" where
  "compact_wal fb w entries ids =
     (let boundaries = wal_boundaries w 0
      in if length boundaries \<le> MAX_WAL_ENTRIES then Some (w, entries, ids)
         else
           (let w' = drop (boundaries ! (length boundaries - MAX_WAL_ENTRIES)) w
            in map_option (\<lambda>ids'. (w', MAX_WAL_ENTRIES, ids')) (wal_id_set fb w' 0)))"

function replay_scan ::
  "fb_codec \<Rightarrow> bytes \<Rightarrow> nat \<Rightarrow> nat \<Rightarrow> nostr_db \<Rightarrow> string fset \<Rightarrow> nat \<times> nat \<times> nostr_db \<times> string fset" where
  "replay_scan fb bs valid_len entries db ids =
     (if valid_len + 4 \<le> length bs then
        (let start = valid_len + 4;
             stop = start + read_le32 bs valid_len
         in if stop > length bs then (valid_len, entries, db, ids)
            else
              (case apply_deletions_from_bytes fb (subslice bs start stop) db of
                 (db', i) \<Rightarrow>
                   replay_scan fb bs stop (entries + 1) db'
                     (case i of Some i \<Rightarrow> finsert i ids | None \<Rightarrow> ids)))
      else (valid_len, entries, db, ids))"
  by pat_completeness auto
termination
  by (relation "measure (\<lambda>(fb, bs, valid_len, _). length bs - valid_len)") auto

declare replay_scan.simps [simp del]

definition load_tombstones :: "fb_codec \<Rightarrow> 'b getter \<Rightarrow> ('b persistent_storage, unit) io" where
  "load_tombstones fb get =
     io_bind (blob_get get TOMBSTONES_KEY) (\<lambda>v p.
       case v of
         None \<Rightarrow> Some (p, Ok ())
       | Some bs \<Rightarrow>
           (case replay_scan fb bs 0 0 (core p) (wal_ids p) of
              (valid_len, entries, db, ids) \<Rightarrow>
                Some (p\<lparr>core := db, wal_ids := ids, wal := take valid_len bs, wal_entries := entries\<rparr>, Ok ())))"

section \<open>Entry points\<close>

definition core_persist :: "fb_codec \<Rightarrow> bytes \<Rightarrow> ('b persistent_storage, unit) io" where
  "core_persist fb bs p =
     (case add_worker_message_bytes fb bs (core p) of
        None \<Rightarrow> None
      | Some (db, r) \<Rightarrow>
          Some (p\<lparr>core := db\<rparr>,
            case r of Ok _ \<Rightarrow> Ok () | Err e \<Rightarrow> Err (OtherDb ''NostrDB persist failed: '' e)))"

definition core_initialize :: "fb_codec \<Rightarrow> ('b persistent_storage, unit) io" where
  "core_initialize fb p =
     (case db_initialize fb (core p) of
        None \<Rightarrow> None
      | Some (db, r) \<Rightarrow>
          Some (p\<lparr>core := db\<rparr>,
            case r of Ok _ \<Rightarrow> Ok () | Err e \<Rightarrow> Err (OtherDb ''NostrDB initialize failed: '' e)))"

definition append_deletion :: "fb_codec \<Rightarrow> 'b putter \<Rightarrow> bytes \<Rightarrow> string \<Rightarrow> ('b persistent_storage, unit) io" where
  "append_deletion fb put bs i p =
     (if i |\<in>| wal_ids p then Some (p, Ok ())
      else
        (let ids = finsert i (wal_ids p);
             w = wal p @ u32_to_le_bytes (of_nat (length bs)) @ bs;
             entries = wal_entries p + 1
         in case (if entries > MAX_WAL_ENTRIES then compact_wal fb w entries ids else Some (w, entries, ids)) of
              None \<Rightarrow> None
            | Some (w, entries, ids) \<Rightarrow>
                blob_put put TOMBSTONES_KEY w (p\<lparr>wal := w, wal_entries := entries, wal_ids := ids\<rparr>)))"

definition persist ::
  "shard_order \<Rightarrow> fb_codec \<Rightarrow> 'b putter \<Rightarrow> nat \<Rightarrow> bytes \<Rightarrow> ('b persistent_storage, unit) io" where
  "persist iter fb put now bs =
     io_bind (core_persist fb bs) (\<lambda>_.
     io_bind (case deletion_event_id fb bs of Some i \<Rightarrow> append_deletion fb put bs i | None \<Rightarrow> io_return ()) (\<lambda>_ p.
       if should_sync now p then io_bind (sync_to_blob_store iter put) (\<lambda>_. mark_synced now) p
       else Some (p, Ok ())))"

definition persistent_initialize ::
  "shard_order \<Rightarrow> fb_codec \<Rightarrow> 'b getter \<Rightarrow> 'b putter \<Rightarrow> nat \<Rightarrow> ('b persistent_storage, unit) io" where
  "persistent_initialize iter fb get put now =
     io_bind (core_initialize fb) (\<lambda>_.
     io_bind (hydrate_from_blob_store iter fb get put) (\<lambda>_.
     io_bind (load_tombstones fb get) (\<lambda>_. mark_synced now)))"

section \<open>The log as a list of records\<close>

definition ids_of :: "fb_codec \<Rightarrow> bytes list \<Rightarrow> string fset" where
  "ids_of fb es = fset_of_list (List.map_filter (deletion_event_id fb) es)"

definition replay :: "fb_codec \<Rightarrow> bytes list \<Rightarrow> nostr_db \<Rightarrow> nostr_db" where
  "replay fb es db = fold (\<lambda>e db. fst (apply_deletions_from_bytes fb e db)) es db"

lemma ids_of_simps [simp]:
  "ids_of fb [] = {||}"
  "ids_of fb (e # es) = (case deletion_event_id fb e of Some i \<Rightarrow> finsert i (ids_of fb es) | None \<Rightarrow> ids_of fb es)"
  "ids_of fb (xs @ ys) = ids_of fb xs |\<union>| ids_of fb ys"
  by (auto simp: ids_of_def List.map_filter_def split: option.split)

lemma ids_of_member: "e \<in> set es \<Longrightarrow> deletion_event_id fb e = Some i \<Longrightarrow> i |\<in>| ids_of fb es"
  by (induction es) (auto split: option.split)

lemma replay_simps [simp]:
  "replay fb [] db = db" "replay fb (e # es) db = replay fb es (fst (apply_deletions_from_bytes fb e db))"
  by (simp_all add: replay_def)

lemma apply_deletions_id: "snd (apply_deletions_from_bytes fb e db) = deletion_event_id fb e"
  by (auto simp: apply_deletions_from_bytes_def deletion_event_id_def split: option.splits wm_content.splits)

lemma lp_at:
  assumes "fits_u32 e"
  shows "read_le32 (pre @ lp_record e @ r) (length pre) = length e"
    "subslice (pre @ lp_record e @ r) (length pre + 4) (length pre + 4 + length e) = e"
    "length pre + 4 + length e \<le> length (pre @ lp_record e @ r)"
  using assms read_le32_record [of e pre "length pre" r] subslice_record [of pre "length pre" e r] by simp_all

lemma wal_boundaries_stream:
  "\<forall>e \<in> set es. fits_u32 e \<Longrightarrow>
   wal_boundaries (pre @ lp_stream es) (length pre) =
     map (\<lambda>j. length pre + length (lp_stream (take j es))) [0..<length es]"
proof (induction es arbitrary: pre)
  case Nil
  then show ?case by (subst wal_boundaries.simps) simp
next
  case (Cons e es)
  have "wal_boundaries (pre @ lp_stream (e # es)) (length pre) =
      length pre # wal_boundaries ((pre @ lp_record e) @ lp_stream es) (length (pre @ lp_record e))"
    using lp_at [of e pre "lp_stream es"] Cons.prems by (subst wal_boundaries.simps) (simp add: add.assoc)
  then show ?case
    using Cons.IH [of "pre @ lp_record e"] Cons.prems
    by (simp add: upt_conv_Cons map_Suc_upt [symmetric] add.assoc del: upt_Suc)
qed

lemma wal_id_set_stream:
  "\<forall>e \<in> set es. fits_u32 e \<Longrightarrow> wal_id_set fb (pre @ lp_stream es) (length pre) = Some (ids_of fb es)"
proof (induction es arbitrary: pre)
  case Nil
  then show ?case by (subst wal_id_set.simps) simp
next
  case (Cons e es)
  then show ?case
    using lp_at [of e pre "lp_stream es"] Cons.IH [of "pre @ lp_record e"]
    by (subst wal_id_set.simps) (simp add: Let_def add.assoc split: option.split)
qed

lemma compact_wal_stream:
  assumes "\<forall>e \<in> set es. fits_u32 e" "MAX_WAL_ENTRIES < length es"
  defines "kept \<equiv> drop (length es - MAX_WAL_ENTRIES) es"
  shows "compact_wal fb (lp_stream es) n ids = Some (lp_stream kept, MAX_WAL_ENTRIES, ids_of fb kept)"
proof -
  let ?j = "length es - MAX_WAL_ENTRIES"
  have b: "wal_boundaries (lp_stream es) 0 = map (\<lambda>j. length (lp_stream (take j es))) [0..<length es]"
    using wal_boundaries_stream [OF assms(1), of "[]"] by simp
  have "?j < length es" using assms(2) by (simp add: MAX_WAL_ENTRIES_def)
  then have at: "wal_boundaries (lp_stream es) 0 ! ?j = length (lp_stream (take ?j es))" by (simp add: b)
  have "lp_stream es = lp_stream (take ?j es) @ lp_stream kept"
    unfolding kept_def by (simp flip: lp_stream_append)
  then have d: "drop (length (lp_stream (take ?j es))) (lp_stream es) = lp_stream kept" by (metis append_eq_conv_conj)
  have "wal_id_set fb (lp_stream kept) 0 = Some (ids_of fb kept)"
    using wal_id_set_stream [of kept fb "[]"] assms(1) by (auto simp: kept_def dest: in_set_dropD)
  then show ?thesis using assms(2) at d by (simp add: compact_wal_def b Let_def)
qed

lemma lp_parse_fits: "e \<in> set (lp_parse b) \<Longrightarrow> fits_u32 e"
proof (induction b rule: lp_parse.induct)
  case (1 b)
  show ?case
  proof (cases "4 \<le> length b \<and> 4 + read_le32 b 0 \<le> length b")
    case True
    then have "e = subslice b 4 (4 + read_le32 b 0) \<or> e \<in> set (lp_parse (drop (4 + read_le32 b 0) b))"
      using "1.prems" by (subst (asm) lp_parse.simps) auto
    then show ?thesis using "1.IH" [OF True] True read_le32_bound [of b 0] by (auto simp: length_subslice)
  next
    case False
    then show ?thesis using "1.prems" by (subst (asm) lp_parse.simps) simp
  qed
qed

text \<open>Replaying some bytes replays the whole records they start with and keeps exactly those.\<close>

lemma replay_scan_records:
  assumes "v \<le> length bs"
  defines "es \<equiv> lp_parse (drop v bs)"
  shows "replay_scan fb bs v n db ids =
      (v + length (lp_stream es), n + length es, replay fb es db, ids |\<union>| ids_of fb es)
    \<and> take (v + length (lp_stream es)) bs = take v bs @ lp_stream es"
  using assms(1) unfolding es_def
proof (induction "length bs - v" arbitrary: v n db ids rule: less_induct)
  case less
  let ?l = "read_le32 bs v"
  show ?case
  proof (cases "v + 4 \<le> length bs \<and> v + 4 + ?l \<le> length bs")
    case True
    let ?e = "subslice bs (v + 4) (v + 4 + ?l)"
    have rl: "read_le32 (drop v bs) 0 = ?l" using less.prems by (simp add: read_le32_def)
    have p: "lp_parse (drop v bs) = ?e # lp_parse (drop (v + 4 + ?l) bs)"
      using True rl by (subst lp_parse.simps) (auto simp: subslice_def add.commute add.left_commute)
    obtain db1 i where a: "apply_deletions_from_bytes fb ?e db = (db1, i)" by force
    have i: "i = deletion_event_id fb ?e" using apply_deletions_id [of fb ?e db] a by simp
    have "length ?e = ?l" using True by simp
    then have len: "v + length (lp_record ?e) = v + 4 + ?l" by simp
    have tk: "take (v + 4 + ?l) bs = take v bs @ lp_record ?e"
    proof -
      have "take (4 + ?l) (drop v bs) = lp_record ?e"
        using split_record [of v bs] True len by simp
      then show ?thesis by (metis add.assoc take_add)
    qed
    have ih: "replay_scan fb bs (v + 4 + ?l) (n + 1) db1 ids' =
        (v + 4 + ?l + length (lp_stream (lp_parse (drop (v + 4 + ?l) bs))),
         n + 1 + length (lp_parse (drop (v + 4 + ?l) bs)),
         replay fb (lp_parse (drop (v + 4 + ?l) bs)) db1, ids' |\<union>| ids_of fb (lp_parse (drop (v + 4 + ?l) bs)))"
      "take (v + 4 + ?l + length (lp_stream (lp_parse (drop (v + 4 + ?l) bs)))) bs =
        take (v + 4 + ?l) bs @ lp_stream (lp_parse (drop (v + 4 + ?l) bs))" for ids'
      using less.hyps [of "v + 4 + ?l" "n + 1" db1] True by auto
    have "replay_scan fb bs v n db ids = replay_scan fb bs (v + 4 + ?l) (n + 1) db1
        (case i of Some i \<Rightarrow> finsert i ids | None \<Rightarrow> ids)"
      using True a by (subst replay_scan.simps) (simp add: Let_def)
    then show ?thesis
      using ih tk a i len by (auto simp: p add.assoc split: option.splits)
  next
    case False
    then have "lp_parse (drop v bs) = []"
      using less.prems by (subst lp_parse.simps) (auto simp: read_le32_def)
    moreover have "replay_scan fb bs v n db ids = (v, n, db, ids)"
      using False by (subst replay_scan.simps) (auto simp: Let_def)
    ultimately show ?thesis by simp
  qed
qed

section \<open>The log and its counters\<close>

text \<open>The records of the log; the ids seen cover theirs, and the counter is their number.\<close>

definition wal_holds :: "fb_codec \<Rightarrow> bytes list \<Rightarrow> 'b persistent_storage \<Rightarrow> bool" where
  "wal_holds fb es p =
     (wal p = lp_stream es \<and> (\<forall>e \<in> set es. fits_u32 e) \<and> wal_entries p = length es \<and> ids_of fb es |\<subseteq>| wal_ids p)"

definition newest :: "bytes list \<Rightarrow> bytes list" where
  "newest es = drop (length es - MAX_WAL_ENTRIES) es"

lemma wal_holds_cong:
  "wal p' = wal p \<Longrightarrow> wal_entries p' = wal_entries p \<Longrightarrow> wal_ids p' = wal_ids p \<Longrightarrow> wal_holds fb es p' = wal_holds fb es p"
  by (simp add: wal_holds_def)

text \<open>Operations that leave the log and its counters alone.\<close>

definition keeps_log :: "('b persistent_storage, 'a) io \<Rightarrow> bool" where
  "keeps_log m = (\<forall>p p' r. m p = Some (p', r) \<longrightarrow>
     wal p' = wal p \<and> wal_entries p' = wal_entries p \<and> wal_ids p' = wal_ids p)"

lemma keeps_logI:
  "(\<And>p p' r. m p = Some (p', r) \<Longrightarrow> wal p' = wal p \<and> wal_entries p' = wal_entries p \<and> wal_ids p' = wal_ids p)
   \<Longrightarrow> keeps_log m"
  by (auto simp: keeps_log_def)

lemma keeps_logD: "keeps_log m \<Longrightarrow> m p = Some (p', r) \<Longrightarrow> wal_holds fb es p' = wal_holds fb es p"
  by (rule wal_holds_cong) (simp_all add: keeps_log_def)

lemma keeps_log_bind: "keeps_log m \<Longrightarrow> (\<And>a. keeps_log (f a)) \<Longrightarrow> keeps_log (io_bind m f)"
  unfolding keeps_log_def io_bind_def by (auto split: option.splits sum.splits prod.splits)

lemma keeps_log_return: "keeps_log (io_return a)"
  by (auto simp: keeps_log_def io_return_def)

lemma keeps_log_get: "keeps_log (blob_get get k)"
  by (auto simp: keeps_log_def blob_get_def)

lemma keeps_log_put: "keeps_log (blob_put put k bs)"
  by (auto simp: keeps_log_def blob_put_def split: prod.splits)

lemma keeps_log_key: "(\<And>k. keeps_log (f k)) \<Longrightarrow> keeps_log (with_key s f)"
  by (auto simp: keeps_log_def with_key_def split: option.splits)

lemma keeps_log_if: "keeps_log m \<Longrightarrow> keeps_log m' \<Longrightarrow> keeps_log (if c then m else m')"
  by simp

lemmas keeps_log_intros = keeps_log_bind keeps_log_return keeps_log_get keeps_log_put keeps_log_key keeps_log_if

lemma keeps_log_clear: "keeps_log (clear_shards get put ss found)"
  by (induction ss arbitrary: found) (auto intro!: keeps_log_intros simp del: if_split_asm)

lemma keeps_log_read: "keeps_log (read_shards get ss)"
  by (induction ss) (auto intro!: keeps_log_intros)

lemma keeps_log_put_shards: "keeps_log (put_shards put es)"
  by (induction es) (auto intro!: keeps_log_intros)

lemma keeps_log_core:
  "keeps_log (core_load_shards es)" "keeps_log (core_rebuild fb)" "keeps_log (core_persist fb bs)"
  "keeps_log (core_initialize fb)" "keeps_log (mark_synced now)"
  by (auto simp: keeps_log_def core_load_shards_def core_rebuild_def core_persist_def core_initialize_def
      mark_synced_def split: prod.splits option.splits)

lemma keeps_log_hydrate: "keeps_log (hydrate_from_blob_store iter fb get put)"
  unfolding hydrate_from_blob_store_def migrate_poisoned_encrypted_cache_def
  by (intro keeps_log_intros keeps_log_clear keeps_log_read keeps_log_core)

lemma keeps_log_sync: "keeps_log (sync_to_blob_store iter put)"
proof (rule keeps_logI)
  fix p p' r
  assume "sync_to_blob_store iter put p = Some (p', r)"
  moreover have "keeps_log (io_bind (put_shards put es) (\<lambda>_. blob_put put k v))" for es k v
    by (intro keeps_log_intros keeps_log_put_shards)
  ultimately show "wal p' = wal p \<and> wal_entries p' = wal_entries p \<and> wal_ids p' = wal_ids p"
    unfolding sync_to_blob_store_def keeps_log_def by blast
qed

lemma append_deletion_log:
  assumes "wal_holds fb es p" "fits_u32 bs" "deletion_event_id fb bs = Some i"
  shows "\<exists>p' r. append_deletion fb put bs i p = Some (p', r) \<and>
    (if i |\<in>| wal_ids p then p' = p \<and> r = Ok ()
     else wal_holds fb (newest (es @ [bs])) p' \<and> put TOMBSTONES_KEY (lp_stream (newest (es @ [bs]))) (blob p) = (blob p', r)
       \<and> (length es < MAX_WAL_ENTRIES \<longrightarrow> wal_ids p' = finsert i (wal_ids p)))"
proof (cases "i |\<in>| wal_ids p")
  case True
  then show ?thesis by (simp add: append_deletion_def)
next
  case False
  let ?all = "es @ [bs]"
  have w: "wal p @ u32_to_le_bytes (of_nat (length bs)) @ bs = lp_stream ?all"
    using assms(1) by (simp add: wal_holds_def lp_record_def)
  have fits: "\<forall>e \<in> set ?all. fits_u32 e" using assms(1,2) by (auto simp: wal_holds_def)
  have n: "wal_entries p + 1 = length ?all" using assms(1) by (simp add: wal_holds_def)
  show ?thesis
  proof (cases "length ?all > MAX_WAL_ENTRIES")
    case True
    note compact_wal_stream [OF fits True, of fb "length ?all" "finsert i (wal_ids p)"]
    then show ?thesis
      using False True w n fits
      by (auto simp: append_deletion_def Let_def blob_put_def wal_holds_def newest_def MAX_WAL_ENTRIES_def
          dest: in_set_dropD split: prod.splits)
  next
    case small: False
    then have "newest ?all = ?all" by (simp add: newest_def)
    then show ?thesis
      using False small w n fits assms
      by (auto simp: append_deletion_def Let_def blob_put_def wal_holds_def split: prod.splits)
  qed
qed

section \<open>The stored log\<close>

text \<open>Operations that leave the stored log alone.\<close>

definition keeps_stored :: "('b \<Rightarrow> string \<Rightarrow> bytes option) \<Rightarrow> ('b persistent_storage, 'a) io \<Rightarrow> bool" where
  "keeps_stored st m = (\<forall>p p' r. m p = Some (p', r) \<longrightarrow> st (blob p') TOMBSTONES_KEY = st (blob p) TOMBSTONES_KEY)"

lemma keeps_storedD: "keeps_stored st m \<Longrightarrow> m p = Some (p', r) \<Longrightarrow> st (blob p') TOMBSTONES_KEY = st (blob p) TOMBSTONES_KEY"
  by (simp add: keeps_stored_def)

lemma keeps_stored_bind: "keeps_stored st m \<Longrightarrow> (\<And>a. keeps_stored st (f a)) \<Longrightarrow> keeps_stored st (io_bind m f)"
  unfolding keeps_stored_def io_bind_def by (auto split: option.splits sum.splits prod.splits)

lemma keeps_stored_return: "keeps_stored st (io_return a)"
  by (auto simp: keeps_stored_def io_return_def)

lemma keeps_stored_get: "keeps_stored st (blob_get get k)"
  by (auto simp: keeps_stored_def blob_get_def)

lemma keeps_stored_if: "keeps_stored st m \<Longrightarrow> keeps_stored st m' \<Longrightarrow> keeps_stored st (if c then m else m')"
  by simp

lemma shard_key_ok: "persistence_key s = Some k \<Longrightarrow> is_blob_key k \<and> k \<noteq> TOMBSTONES_KEY"
  by (cases s) (auto simp: is_blob_key_def persistent_ids_def TOMBSTONES_KEY_def)

lemma keeps_stored_key:
  "(\<And>k. is_blob_key k \<Longrightarrow> k \<noteq> TOMBSTONES_KEY \<Longrightarrow> keeps_stored st (f k)) \<Longrightarrow> keeps_stored st (with_key s f)"
  using shard_key_ok by (auto simp: keeps_stored_def with_key_def split: option.splits)

lemma keeps_stored_core:
  "keeps_stored st (core_load_shards es)" "keeps_stored st (core_rebuild fb)" "keeps_stored st (core_persist fb bs)"
  "keeps_stored st (core_initialize fb)" "keeps_stored st (mark_synced now)"
  by (auto simp: keeps_stored_def core_load_shards_def core_rebuild_def core_persist_def core_initialize_def
      mark_synced_def split: prod.splits option.splits)

lemma version_key_ok:
  "is_blob_key ENCRYPTED_PARSE_CACHE_VERSION_KEY" "ENCRYPTED_PARSE_CACHE_VERSION_KEY \<noteq> TOMBSTONES_KEY"
  "is_blob_key TOMBSTONES_KEY" "is_blob_key LEGACY_KIND10002_KEY"
  by (simp_all add: is_blob_key_def ENCRYPTED_PARSE_CACHE_VERSION_KEY_def TOMBSTONES_KEY_def)

context blob_store
begin

lemma keeps_stored_put: "is_blob_key k \<Longrightarrow> k \<noteq> TOMBSTONES_KEY \<Longrightarrow> keeps_stored stored (blob_put put k bs)"
  using put_other version_key_ok(3) by (fastforce simp: keeps_stored_def blob_put_def split: prod.splits)

lemmas keeps_stored_intros = keeps_stored_bind keeps_stored_return keeps_stored_get keeps_stored_if
  keeps_stored_key keeps_stored_put

lemma keeps_stored_clear: "keeps_stored stored (clear_shards get put ss found)"
proof (induction ss arbitrary: found)
  case (Cons s ss)
  show ?case unfolding clear_shards.simps by (intro keeps_stored_intros Cons)
qed (simp add: keeps_stored_return)

lemma keeps_stored_read: "keeps_stored stored (read_shards get ss)"
proof (induction ss)
  case (Cons s ss)
  show ?case unfolding read_shards.simps by (intro keeps_stored_intros Cons)
qed (simp add: keeps_stored_return)

lemma keeps_stored_put_shards: "keeps_stored stored (put_shards put es)"
proof (induction es)
  case (Cons e es)
  show ?case by (cases e) (simp, intro keeps_stored_intros Cons)
qed (simp add: keeps_stored_return)

lemma keeps_stored_hydrate: "keeps_stored stored (hydrate_from_blob_store iter fb get put)"
  unfolding hydrate_from_blob_store_def migrate_poisoned_encrypted_cache_def
  by (intro keeps_stored_intros keeps_stored_clear keeps_stored_read keeps_stored_core version_key_ok)

lemma keeps_stored_sync:
  assumes "sync_to_blob_store iter put p = Some (p', r)"
  shows "stored (blob p') TOMBSTONES_KEY = stored (blob p) TOMBSTONES_KEY"
proof -
  have "keeps_stored stored (io_bind (put_shards put es)
      (\<lambda>_. blob_put put ENCRYPTED_PARSE_CACHE_VERSION_KEY ENCRYPTED_PARSE_CACHE_VERSION))" for es
    by (intro keeps_stored_intros keeps_stored_put_shards version_key_ok)
  then show ?thesis using assms unfolding sync_to_blob_store_def keeps_stored_def by blast
qed

text \<open>Loading the log from the store.\<close>

lemma load_tombstones_log:
  assumes "load_tombstones fb get p = Some (p', Ok ())"
  shows "case stored (blob p) TOMBSTONES_KEY of
      None \<Rightarrow> p' = p
    | Some bs \<Rightarrow> p' = p\<lparr>core := replay fb (lp_parse bs) (core p), wal_ids := wal_ids p |\<union>| ids_of fb (lp_parse bs),
        wal := lp_stream (lp_parse bs), wal_entries := length (lp_parse bs)\<rparr>"
proof -
  obtain v where v: "get TOMBSTONES_KEY (blob p) = Ok v"
    using assms by (auto simp: load_tombstones_def io_bind_Ok blob_get_def)
  then have "v = stored (blob p) TOMBSTONES_KEY" by (rule get_stored [OF version_key_ok(3)])
  then show ?thesis
    using assms v replay_scan_records [of 0 _ fb 0 "core p" "wal_ids p"]
    by (auto simp: load_tombstones_def io_bind_Ok blob_get_def split: option.splits)
qed

lemma persist_new_deletion:
  assumes "wal_holds fb es p" "fits_u32 bs" "deletion_event_id fb bs = Some i" "i |\<notin>| wal_ids p"
    "persist iter fb put now bs p = Some (p', Ok ())"
  shows "wal_holds fb (newest (es @ [bs])) p' \<and> stored (blob p') TOMBSTONES_KEY = Some (wal p')"
proof -
  obtain p1 p2 where 1: "core_persist fb bs p = Some (p1, Ok ())" and 2: "append_deletion fb put bs i p1 = Some (p2, Ok ())"
    and 3: "(if should_sync now p2 then io_bind (sync_to_blob_store iter put) (\<lambda>_. mark_synced now) p2
        else Some (p2, Ok ())) = Some (p', Ok ())"
    using assms(3,5) by (auto simp: persist_def io_bind_Ok)
  have w1: "wal_holds fb es p1" using keeps_logD [OF keeps_log_core(3) 1] assms(1) by simp
  have "wal_ids p1 = wal_ids p" using keeps_log_core(3) 1 unfolding keeps_log_def by blast
  then have w2: "wal_holds fb (newest (es @ [bs])) p2" "put TOMBSTONES_KEY (wal p2) (blob p1) = (blob p2, Ok ())"
    using append_deletion_log [OF w1 assms(2,3), of put] assms(4) 2 by (auto simp: wal_holds_def)
  have s2: "stored (blob p2) TOMBSTONES_KEY = Some (wal p2)" by (rule put_ok [OF version_key_ok(3) w2(2)])
  show ?thesis
  proof (cases "should_sync now p2")
    case True
    then obtain p3 where 4: "sync_to_blob_store iter put p2 = Some (p3, Ok ())" "mark_synced now p3 = Some (p', Ok ())"
      using 3 by (auto simp: io_bind_Ok)
    have "wal p3 = wal p2" "wal p' = wal p3" "blob p' = blob p3"
      using keeps_log_sync 4 unfolding keeps_log_def by (blast, auto simp: mark_synced_def)
    then show ?thesis
      using keeps_logD [OF keeps_log_sync 4(1)] keeps_logD [OF keeps_log_core(5) 4(2)] keeps_stored_sync [OF 4(1)] w2(1) s2
      by simp
  next
    case False
    then show ?thesis using 3 w2(1) s2 by simp
  qed
qed

end

section \<open>Every operation keeps the log well formed\<close>

definition log_ok :: "fb_codec \<Rightarrow> 'b persistent_storage \<Rightarrow> bool" where
  "log_ok fb p = (\<exists>es. wal_holds fb es p)"

definition preserves :: "('s \<Rightarrow> bool) \<Rightarrow> ('s, 'a) io \<Rightarrow> bool" where
  "preserves P m = (\<forall>p p' r. P p \<longrightarrow> m p = Some (p', r) \<longrightarrow> P p')"

lemma preserves_bind:
  assumes "preserves P m" "\<And>a. preserves P (f a)"
  shows "preserves P (io_bind m f)"
  unfolding preserves_def
proof (intro allI impI)
  fix p p' r
  assume "P p" "io_bind m f p = Some (p', r)"
  then consider e where "m p = Some (p', Err e)" | p1 a where "m p = Some (p1, Ok a)" "f a p1 = Some (p', r)"
    by (auto simp: io_bind_def split: option.splits sum.splits prod.splits)
  then show "P p'" using \<open>P p\<close> assms unfolding preserves_def by cases blast+
qed

lemma preserves_keeps: "keeps_log m \<Longrightarrow> preserves (log_ok fb) m"
  unfolding preserves_def log_ok_def by (metis keeps_logD)

lemma preserves_append:
  assumes "fits_u32 bs" "deletion_event_id fb bs = Some i"
  shows "preserves (log_ok fb) (append_deletion fb put bs i)"
proof -
  have "log_ok fb p'" if "log_ok fb p" "append_deletion fb put bs i p = Some (p', r)" for p p' :: "'a persistent_storage" and r
    using that append_deletion_log [OF _ assms, of _ p put] by (fastforce simp: log_ok_def split: if_splits)
  then show ?thesis by (auto simp: preserves_def)
qed

lemma preserves_persist:
  assumes "fits_u32 bs"
  shows "preserves (log_ok fb) (persist iter fb put now bs)"
proof -
  have "keeps_log (io_bind (sync_to_blob_store iter put) (\<lambda>_. mark_synced now))"
    by (intro keeps_log_bind keeps_log_sync keeps_log_core)
  then have "keeps_log (\<lambda>p. if should_sync now p then io_bind (sync_to_blob_store iter put) (\<lambda>_. mark_synced now) p else Some (p, Ok ()))"
    by (simp add: keeps_log_def)
  then show ?thesis
    unfolding persist_def using preserves_append [OF assms]
    by (intro preserves_bind) (auto intro: preserves_keeps keeps_log_core keeps_log_return split: option.split)
qed

lemma preserves_load: "preserves (log_ok fb) (load_tombstones fb get)"
proof -
  have "log_ok fb p'" if "log_ok fb p" "load_tombstones fb get p = Some (p', r)" for p p' :: "'a persistent_storage" and r
  proof -
    consider "p' = p" | bs where "get TOMBSTONES_KEY (blob p) = Ok (Some bs)"
    proof (cases "get TOMBSTONES_KEY (blob p)")
      case (Inr v)
      then show ?thesis
        using that \<open>load_tombstones fb get p = Some (p', r)\<close>
        by (cases v) (auto simp: load_tombstones_def io_bind_def blob_get_def)
    qed (use \<open>load_tombstones fb get p = Some (p', r)\<close> in \<open>auto simp: load_tombstones_def io_bind_def blob_get_def intro: that\<close>)
    then show ?thesis
    proof cases
      case 2
      then have "wal_holds fb (lp_parse bs) p'"
        using that(2) replay_scan_records [of 0 bs fb 0 "core p" "wal_ids p"] lp_parse_fits
        by (auto simp: load_tombstones_def io_bind_def blob_get_def wal_holds_def)
      then show ?thesis by (auto simp: log_ok_def)
    qed (simp add: that(1))
  qed
  then show ?thesis by (auto simp: preserves_def)
qed

lemma preserves_initialize: "preserves (log_ok fb) (persistent_initialize iter fb get put now)"
  unfolding persistent_initialize_def
  by (intro preserves_bind preserves_load preserves_keeps keeps_log_core keeps_log_hydrate)

inductive storage_reach :: "shard_order \<Rightarrow> fb_codec \<Rightarrow> 'b getter \<Rightarrow> 'b putter \<Rightarrow> 'b persistent_storage \<Rightarrow> bool"
  for iter fb get put where
  reach_new: "storage_reach iter fb get put (persistent_new db b)"
| reach_init: "storage_reach iter fb get put p \<Longrightarrow> persistent_initialize iter fb get put now p = Some (p', r)
    \<Longrightarrow> storage_reach iter fb get put p'"
| reach_persist: "storage_reach iter fb get put p \<Longrightarrow> fits_u32 bs \<Longrightarrow> persist iter fb put now bs p = Some (p', r)
    \<Longrightarrow> storage_reach iter fb get put p'"

lemma reach_log_ok: "storage_reach iter fb get put p \<Longrightarrow> log_ok fb p"
proof (induction rule: storage_reach.induct)
  case (reach_new db b)
  have "wal_holds fb [] (persistent_new db b)" by (simp add: wal_holds_def persistent_new_def)
  then show ?case by (auto simp: log_ok_def)
next
  case (reach_init p now p' r)
  then show ?case using preserves_initialize unfolding preserves_def by blast
next
  case (reach_persist p bs now p' r)
  then show ?case using preserves_persist unfolding preserves_def by blast
qed

section \<open>What a restart replays\<close>

definition wal_deletion :: "fb_codec \<Rightarrow> bytes \<Rightarrow> event_fields option" where
  "wal_deletion fb e =
     (case root_worker_message fb e of
        Some (WmParsed (Some p)) \<Rightarrow> if pe_kind p = EVENT_DELETION then Some (parsed_fields p) else None
      | Some (WmNostr (Some n)) \<Rightarrow> if ne_kind n = EVENT_DELETION then Some (nostr_fields n) else None
      | _ \<Rightarrow> None)"

definition wal_refs :: "fb_codec \<Rightarrow> bytes list \<Rightarrow> deletion_log" where
  "wal_refs fb es = concat (map (\<lambda>e. case wal_deletion fb e of
     Some f \<Rightarrow> deletion_refs (ef_pubkey f) (ef_created_at f) (ef_tags f) | None \<Rightarrow> []) es)"

lemma wal_deletion_id: "deletion_event_id fb e = map_option ef_id (wal_deletion fb e)"
  by (auto simp: deletion_event_id_def wal_deletion_def parsed_fields_def nostr_fields_def
      split: option.splits wm_content.splits)

lemma apply_deletions_fields:
  "fst (apply_deletions_from_bytes fb e db) =
     (case wal_deletion fb e of
        Some f \<Rightarrow> db\<lparr>db_tombstones := process_deletion_tags (ef_pubkey f) (ef_created_at f) (ef_tags f)
                   (db_indexes db) (db_tombstones db)\<rparr>
      | None \<Rightarrow> db)"
  by (auto simp: apply_deletions_from_bytes_def wal_deletion_def parsed_fields_def nostr_fields_def
      split: option.splits wm_content.splits)

lemma replay_run:
  "tomb_run h log (db_indexes db) (db_tombstones db)
   \<Longrightarrow> tomb_run h (log @ wal_refs fb es) (db_indexes (replay fb es db)) (db_tombstones (replay fb es db))"
proof (induction es arbitrary: db log)
  case (Cons e es)
  show ?case
  proof (cases "wal_deletion fb e")
    case None
    then show ?thesis using Cons by (simp add: apply_deletions_fields wal_refs_def)
  next
    case (Some f)
    let ?db = "fst (apply_deletions_from_bytes fb e db)"
    have "tomb_run h (log @ deletion_refs (ef_pubkey f) (ef_created_at f) (ef_tags f)) (db_indexes ?db) (db_tombstones ?db)"
      using tomb_run.replay [OF Cons.prems] Some by (simp add: apply_deletions_fields)
    from Cons.IH [OF this] show ?thesis using Some by (simp add: wal_refs_def)
  qed
qed (simp add: wal_refs_def)

lemma index_pairs_run:
  "tomb_run h0 log idx t \<Longrightarrow> index_pairs fb ps (idx, t) = Some (idx', t')
   \<Longrightarrow> tomb_run (h0 @ indexed_pairs fb ps) (log @ history_log (indexed_pairs fb ps)) idx' t'"
proof (induction ps arbitrary: h0 log idx t)
  case (Cons p ps)
  obtain off bs where p: "p = (off, bs)" by force
  show ?case
  proof (cases "decode_event fb bs")
    case (DecEvent f)
    then obtain idx1 t1 where 1: "index_event_fields f off (idx, t) = Some (idx1, t1)" "index_pairs fb ps (idx1, t1) = Some (idx', t')"
      using Cons.prems(2) p by (auto split: option.splits)
    have "indexed_pairs fb (p # ps) = (f, off) # indexed_pairs fb ps"
      using DecEvent p by (simp add: indexed_pairs_def List.map_filter_simps)
    then show ?thesis
      using Cons.IH [OF tomb_run.index [OF Cons.prems(1) 1(1)] 1(2)]
      by (cases "ef_kind f = EVENT_DELETION") (simp_all add: history_log_def)
  qed (use Cons p in \<open>simp_all add: indexed_pairs_def List.map_filter_simps\<close>)
qed (simp add: indexed_pairs_def List.map_filter_simps history_log_def)

text \<open>Every event of the history was decoded from some record.\<close>

definition decoded_history :: "fb_codec \<Rightarrow> history \<Rightarrow> bool" where
  "decoded_history fb h = (\<forall>(f, off) \<in> set h. \<exists>bs. decode_event fb bs = DecEvent f)"

definition fresh_run :: "fb_codec \<Rightarrow> nostr_db \<Rightarrow> bool" where
  "fresh_run fb db = (\<exists>h. decoded_history fb h \<and> tomb_run h (history_log h) (db_indexes db) (db_tombstones db))"

lemma decoded_indexed_pairs: "decoded_history fb (indexed_pairs fb ps)"
  unfolding pair_events_history [symmetric] by (auto simp: decoded_history_def stored_history_def pair_events_set)

lemma load_into_indexes_run:
  assumes "load_into_indexes fb db = Some (db', Ok ())" "db_indexes db = indexes_clear idx" "db_tombstones db = tombstones_clear"
  shows "fresh_run fb db'"
proof -
  obtain offs where offs: "sharded_load_events (db_storage db) = Ok offs" by (simp add: sharded_load_events_def)
  show ?thesis
  proof (cases "offs = []")
    case True
    then have "db' = db" using assms(1) offs by (simp add: load_into_indexes_def)
    then show ?thesis
      using tomb_run.start [OF index_ok_clear] assms(2,3) unfolding fresh_run_def
      by (intro exI [of _ "[]"]) (simp add: history_log_def decoded_history_def)
  next
    case False
    then obtain fs ps idx' t' where "index_pairs fb ps (preallocate fs (indexes_clear idx), tombstones_clear) = Some (idx', t')"
      "db_indexes db' = idx'" "db_tombstones db' = t'"
      using assms offs by (auto simp: load_into_indexes_def build_indexes_from_events_def Let_def)
    then show ?thesis
      using index_pairs_run [OF tomb_run.start [OF index_ok_fresh]] decoded_indexed_pairs unfolding fresh_run_def by fastforce
  qed
qed

lemma rebuild_run:
  assumes "rebuild_indexes_from_storage fb db = Some (db', Ok ())"
  shows "fresh_run fb db'"
  using assms unfolding rebuild_indexes_from_storage_def
  by (rule load_into_indexes_run [where idx = "db_indexes db"]) (simp_all add: reset_indexes_def)

lemma initialize_run:
  assumes "db_initialize fb db = Some (db', Ok ())" "\<not> db_initialized db"
  shows "fresh_run fb db'"
proof -
  obtain st db2 where "load_into_indexes fb ((reset_indexes db)\<lparr>db_storage := st\<rparr>) = Some (db2, Ok ())"
    "db' = db2\<lparr>db_initialized := True\<rparr>"
    using assms by (auto simp: db_initialize_def Let_def split: prod.splits sum.splits option.splits)
  moreover from this(1) have "fresh_run fb db2"
    by (rule load_into_indexes_run [where idx = "db_indexes db"]) (simp_all add: reset_indexes_def)
  ultimately show ?thesis by (simp add: fresh_run_def)
qed

definition core_is :: "nostr_db \<Rightarrow> 'b persistent_storage \<Rightarrow> bool" where
  "core_is c p = (core p = c)"

lemma core_is_basic:
  "preserves (core_is c) (io_return a)" "preserves (core_is c) (blob_get get k)" "preserves (core_is c) (blob_put put k bs)"
  by (auto simp: preserves_def core_is_def io_return_def blob_get_def blob_put_def split: prod.splits)

lemma preserves_key: "(\<And>k. preserves P (f k)) \<Longrightarrow> preserves P (with_key s f)"
  by (auto simp: preserves_def with_key_def split: option.splits)

lemma preserves_if: "preserves P m \<Longrightarrow> preserves P m' \<Longrightarrow> preserves P (if c then m else m')"
  by simp

lemmas core_is_intros = core_is_basic preserves_bind preserves_key preserves_if

lemma core_is_clear: "preserves (core_is c) (clear_shards get put ss found)"
proof (induction ss arbitrary: found)
  case (Cons s ss)
  show ?case unfolding clear_shards.simps by (intro core_is_intros Cons)
qed (simp add: core_is_basic)

lemma core_is_read: "preserves (core_is c) (read_shards get ss)"
proof (induction ss)
  case (Cons s ss)
  show ?case unfolding read_shards.simps by (intro core_is_intros Cons)
qed (simp add: core_is_basic)

lemma preservesD: "preserves (core_is c) m \<Longrightarrow> m p = Some (p', r) \<Longrightarrow> core p = c \<Longrightarrow> core p' = c"
  unfolding preserves_def core_is_def by blast

lemma hydrate_run:
  assumes "hydrate_from_blob_store iter fb get put p = Some (p', Ok ())" "fresh_run fb (core p)"
  shows "fresh_run fb (core p')"
proof -
  obtain p1 u p2 es where 1: "migrate_poisoned_encrypted_cache get put p = Some (p1, Ok u)"
    "read_shards get persistent_ids p1 = Some (p2, Ok es)"
    "(if es = [] then io_return () else io_bind (core_load_shards (iter es)) (\<lambda>_. core_rebuild fb)) p2 = Some (p', Ok ())"
    using assms(1) by (simp only: hydrate_from_blob_store_def io_bind_Ok) blast
  have mig: "preserves (core_is (core p)) (migrate_poisoned_encrypted_cache get put)"
    unfolding migrate_poisoned_encrypted_cache_def by (intro core_is_intros core_is_clear)
  have c2: "core p2 = core p"
    using preservesD [OF core_is_read 1(2)] preservesD [OF mig 1(1)] by simp
  show ?thesis
  proof (cases "es = []")
    case True
    then show ?thesis using 1(3) c2 assms(2) by simp
  next
    case False
    then obtain p3 where "core_rebuild fb p3 = Some (p', Ok ())" using 1(3) by (auto simp: io_bind_Ok)
    then have "rebuild_indexes_from_storage fb (core p3) = Some (core p', Ok ())"
      by (auto simp: core_rebuild_def split: option.splits sum.splits)
    then show ?thesis by (rule rebuild_run)
  qed
qed

lemma core_persist_fields:
  assumes "core_persist fb bs p = Some (q, r)"
  shows "wal_ids q = wal_ids p" "last_sync_ms q = last_sync_ms p" "blob q = blob p" "r \<noteq> Err (Other m)"
    "wal_holds fb' es q = wal_holds fb' es p"
  using assms by (auto simp: core_persist_def wal_holds_def split: option.splits sum.splits)

lemma append_sync: "append_deletion fb put bs i p = Some (q, r) \<Longrightarrow> last_sync_ms q = last_sync_ms p"
  by (auto simp: append_deletion_def Let_def blob_put_def split: if_splits option.splits prod.splits)

context blob_store
begin

lemma restart_replays:
  assumes "persistent_initialize iter fb get put now (persistent_new (nostr_db_new name cap ds ix) b) = Some (p2, Ok ())"
    "stored b TOMBSTONES_KEY = Some (lp_stream es)" "\<forall>e \<in> set es. fits_u32 e"
  shows "wal_holds fb es p2 \<and> (\<exists>h. decoded_history fb h \<and> tomb_run h (history_log h @ wal_refs fb es) (db_indexes (core p2)) (db_tombstones (core p2)))"
proof -
  let ?p0 = "persistent_new (nostr_db_new name cap ds ix) b"
  obtain p1 p3 p4 where 1: "core_initialize fb ?p0 = Some (p1, Ok ())" and 2: "hydrate_from_blob_store iter fb get put p1 = Some (p3, Ok ())"
    and 3: "load_tombstones fb get p3 = Some (p4, Ok ())" and 4: "mark_synced now p4 = Some (p2, Ok ())"
    using assms(1) by (auto simp: persistent_initialize_def io_bind_Ok)
  have "db_initialize fb (nostr_db_new name cap ds ix) = Some (core p1, Ok ())"
    using 1 by (auto simp: core_initialize_def persistent_new_def split: option.splits sum.splits)
  then have "fresh_run fb (core p1)" by (rule initialize_run) (simp add: nostr_db_new_def)
  then obtain h where d: "decoded_history fb h" and h: "tomb_run h (history_log h) (db_indexes (core p3)) (db_tombstones (core p3))"
    using hydrate_run [OF 2] by (auto simp: fresh_run_def)
  have "stored (blob p3) TOMBSTONES_KEY = stored (blob ?p0) TOMBSTONES_KEY"
    using keeps_storedD [OF keeps_stored_core(4) 1] keeps_storedD [OF keeps_stored_hydrate 2] by simp
  then have s: "stored (blob p3) TOMBSTONES_KEY = Some (lp_stream es)" using assms(2) by (simp add: persistent_new_def)
  have p4: "p4 = p3\<lparr>core := replay fb es (core p3), wal_ids := wal_ids p3 |\<union>| ids_of fb es,
      wal := lp_stream es, wal_entries := length es\<rparr>"
    using load_tombstones_log [OF 3] s lp_parse_stream [OF assms(3)] by simp
  then have "wal_holds fb es p2" using 4 assms(3) by (auto simp: wal_holds_def mark_synced_def)
  moreover have "core p2 = replay fb es (core p3)" using 4 p4 by (auto simp: mark_synced_def)
  ultimately show ?thesis using replay_run [OF h, of fb es] d by auto
qed

lemma failed_then_retried:
  assumes "wal_holds fb es p" "fits_u32 bs" "deletion_event_id fb bs = Some i" "i |\<notin>| wal_ids p" "\<not> should_sync now p"
    "persist iter fb put now bs p = Some (p1, Err (Other msg))" "persist iter fb put now' bs p1 = Some (p2, Ok ())"
  shows "stored (blob p2) TOMBSTONES_KEY = stored (blob p) TOMBSTONES_KEY"
proof -
  obtain q u where q: "core_persist fb bs p = Some (q, Ok u)"
    "append_deletion fb put bs i q = Some (p1, Err (Other msg))
     \<or> (\<exists>q2 u. append_deletion fb put bs i q = Some (q2, Ok u) \<and>
          (if should_sync now q2 then io_bind (sync_to_blob_store iter put) (\<lambda>_. mark_synced now) q2
           else Some (q2, Ok ())) = Some (p1, Err (Other msg)))"
    using assms(6) core_persist_fields(4) unfolding persist_def assms(3) option.case io_bind_Err by blast
  note kept = core_persist_fields [OF q(1)]
  have "append_deletion fb put bs i q = Some (q2, r) \<Longrightarrow> \<not> should_sync now q2" for q2 r
    using append_sync [of fb put bs i q q2 r] assms(5) kept(2) by (simp add: should_sync_def)
  then have app: "append_deletion fb put bs i q = Some (p1, Err (Other msg))"
    using q(2) by auto
  then have w1: "wal_holds fb (newest (es @ [bs])) p1" "put TOMBSTONES_KEY (lp_stream (newest (es @ [bs]))) (blob q) = (blob p1, Err (Other msg))"
    using append_deletion_log [of fb es q bs i put] kept(5) [of fb es] assms(1-4) kept(1) by auto
  have s1: "stored (blob p1) TOMBSTONES_KEY = stored (blob p) TOMBSTONES_KEY"
    using put_err [OF version_key_ok(3) w1(2)] kept(3) by simp
  have "bs \<in> set (newest (es @ [bs]))" by (simp add: newest_def MAX_WAL_ENTRIES_def)
  then have "i |\<in>| ids_of fb (newest (es @ [bs]))" using assms(3) by (rule ids_of_member)
  then have i1: "i |\<in>| wal_ids p1" using w1(1) by (auto simp: wal_holds_def)
  obtain q1 u1 where q1: "core_persist fb bs p1 = Some (q1, Ok u1)"
    "(if should_sync now' q1 then io_bind (sync_to_blob_store iter put) (\<lambda>_. mark_synced now') q1 else Some (q1, Ok ())) = Some (p2, Ok ())"
  proof -
    obtain q1 u1 q2 u2 where 1: "core_persist fb bs p1 = Some (q1, Ok u1)" "append_deletion fb put bs i q1 = Some (q2, Ok u2)"
      "(if should_sync now' q2 then io_bind (sync_to_blob_store iter put) (\<lambda>_. mark_synced now') q2 else Some (q2, Ok ())) = Some (p2, Ok ())"
      using assms(7) unfolding persist_def assms(3) option.case io_bind_Ok by blast
    have "q2 = q1" using 1(2) i1 core_persist_fields(1) [OF 1(1)] by (simp add: append_deletion_def)
    then show thesis using 1 that by blast
  qed
  have "blob q1 = blob p1" by (rule core_persist_fields(3) [OF q1(1)])
  moreover have "stored (blob p2) TOMBSTONES_KEY = stored (blob q1) TOMBSTONES_KEY"
  proof (cases "should_sync now' q1")
    case True
    then obtain q3 where "sync_to_blob_store iter put q1 = Some (q3, Ok ())" "mark_synced now' q3 = Some (p2, Ok ())"
      using q1(2) by (auto simp: io_bind_Ok)
    then show ?thesis using keeps_stored_sync by (auto simp: mark_synced_def)
  qed (use q1(2) in simp)
  ultimately show ?thesis using s1 by simp
qed

end

section \<open>Properties\<close>

text \<open>C14. The deletion log is well formed in every reachable state. Whatever was initialized and
  persisted, with whatever file operations failing, the log in memory is a sequence of whole records,
  its counter is their number, the id set covers their ids, and adding a deletion does not panic and
  leaves at most 8192 records, the newest ones.\<close>

theorem deletion_log_invariant:
  assumes "storage_reach iter fb file_get file_put p"
  shows "\<exists>es. wal_holds fb es p \<and>
    (\<forall>bs i. fits_u32 bs \<longrightarrow> deletion_event_id fb bs = Some i \<longrightarrow> i |\<notin>| wal_ids p \<longrightarrow>
      (\<exists>p' r. append_deletion fb file_put bs i p = Some (p', r) \<and> wal_holds fb (newest (es @ [bs])) p'
         \<and> wal_entries p' \<le> MAX_WAL_ENTRIES))"
proof -
  obtain es where es: "wal_holds fb es p" using reach_log_ok [OF assms] by (auto simp: log_ok_def)
  have "\<exists>p' r. append_deletion fb file_put bs i p = Some (p', r) \<and> wal_holds fb (newest (es @ [bs])) p'
      \<and> wal_entries p' \<le> MAX_WAL_ENTRIES"
    if new: "fits_u32 bs" "deletion_event_id fb bs = Some i" "i |\<notin>| wal_ids p" for bs i
  proof -
    obtain p' r where "append_deletion fb file_put bs i p = Some (p', r)" "wal_holds fb (newest (es @ [bs])) p'"
      using append_deletion_log [OF es new(1,2), of file_put] new(3) by auto
    moreover from this(2) have "wal_entries p' \<le> MAX_WAL_ENTRIES" by (auto simp: wal_holds_def newest_def)
    ultimately show ?thesis by blast
  qed
  then show ?thesis using es by blast
qed

text \<open>C13. A new deletion that was persisted survives a restart. Let a deletion event whose id is not yet
  among the logged ids be persisted with success, and a database opened afterwards on the same blob store
  be initialized with success. Then it has the same log, and its state is that of a run that indexed
  events \<open>h\<close>, decoded from records, and saw every deletion of the log. Whatever events it indexes later,
  each event, reloaded or later, that an e tag of the persisted deletion names and that is by its author
  is suppressed, provided that ids identify events and that no deletion of another author names the same
  id. (A deletion whose first attempt failed is already among the logged ids: its retry is excluded
  here, and \<open>retried_deletion_not_stored\<close> below shows that it is indeed not stored.)\<close>

theorem deletion_survives_restart:
  assumes "wal_holds fb es p" "fits_u32 bs" "wal_deletion fb bs = Some del" "ef_id del |\<notin>| wal_ids p"
    "persist iter fb file_put now bs p = Some (p1, Ok ())"
    "persistent_initialize iter' fb file_get file_put now' (persistent_new (nostr_db_new name cap ds ix) (blob p1)) = Some (p2, Ok ())"
  shows "wal p2 = wal p1 \<and>
    (\<exists>h. decoded_history fb h \<and>
      tomb_run h (history_log h @ wal_refs fb (newest (es @ [bs]))) (db_indexes (core p2)) (db_tombstones (core p2)) \<and>
      (\<forall>later idx t. index_history later (db_indexes (core p2), db_tombstones (core p2)) = Some (idx, t) \<longrightarrow> events_by_hash (h @ later) \<longrightarrow>
        (\<forall>(f, off) \<in> set (h @ later). list_ex (tag_is ''e'' (ef_id f)) (ef_tags del) \<longrightarrow> ef_pubkey f = ef_pubkey del \<longrightarrow>
          (\<forall>b. refers ((history_log h @ wal_refs fb (newest (es @ [bs]))) @ history_log later) (ef_id f) b \<longrightarrow> b = ef_pubkey f) \<longrightarrow>
          is_deleted (ef_id f) ((core p2)\<lparr>db_indexes := idx, db_tombstones := t\<rparr>))))"
proof -
  let ?es = "newest (es @ [bs])"
  have i: "deletion_event_id fb bs = Some (ef_id del)" using assms(3) by (simp add: wal_deletion_id)
  have 1: "wal_holds fb ?es p1" "file_stored (blob p1) TOMBSTONES_KEY = Some (wal p1)"
    using files.persist_new_deletion [OF assms(1,2) i assms(4,5)] by simp_all
  then have s: "file_stored (blob p1) TOMBSTONES_KEY = Some (lp_stream ?es)" "\<forall>e \<in> set ?es. fits_u32 e"
    by (auto simp: wal_holds_def)
  obtain h where d: "decoded_history fb h"
    and h: "tomb_run h (history_log h @ wal_refs fb ?es) (db_indexes (core p2)) (db_tombstones (core p2))"
    and w: "wal_holds fb ?es p2"
    using files.restart_replays [OF assms(6) s] by blast
  have "bs \<in> set ?es" by (simp add: newest_def MAX_WAL_ENTRIES_def)
  then have refs: "set (deletion_refs (ef_pubkey del) (ef_created_at del) (ef_tags del)) \<subseteq> set (wal_refs fb ?es)"
    using assms(3) by (force simp: wal_refs_def)
  have "is_deleted (ef_id f) ((core p2)\<lparr>db_indexes := idx, db_tombstones := t\<rparr>)"
    if later: "index_history later (db_indexes (core p2), db_tombstones (core p2)) = Some (idx, t)"
      and f: "(f, off) \<in> set (h @ later)" "events_by_hash (h @ later)" "list_ex (tag_is ''e'' (ef_id f)) (ef_tags del)"
        "ef_pubkey f = ef_pubkey del"
      and only: "\<forall>b. refers ((history_log h @ wal_refs fb ?es) @ history_log later) (ef_id f) b \<longrightarrow> b = ef_pubkey f"
    for later idx t f off
  proof -
    have "refers ((history_log h @ wal_refs fb ?es) @ history_log later) (ef_id f) (ef_pubkey f)"
      using refs f(3,4) unfolding refers_def by (force simp: deletion_refs_def list_ex_iff)
    moreover have "tomb_run (h @ later) ((history_log h @ wal_refs fb ?es) @ history_log later) idx t"
      by (rule index_history_run [OF h later])
    ultimately show ?thesis using own_id_deleted [OF _ f(2,1) _ only] by simp
  qed
  moreover have "wal p2 = wal p1" using w 1(1) by (simp add: wal_holds_def)
  ultimately show ?thesis using d h by blast
qed

text \<open>A retry after a failed write reports success without writing. When persisting a new deletion
  failed in the blob store, a second attempt that succeeds leaves the stored log as it was before the
  first: the id was already counted as logged.\<close>

theorem retried_deletion_not_stored:
  assumes "wal_holds fb es p" "fits_u32 bs" "deletion_event_id fb bs = Some i" "i |\<notin>| wal_ids p" "\<not> should_sync now p"
    "persist iter fb file_put now bs p = Some (p1, Err (Other msg))" "persist iter fb file_put now' bs p1 = Some (p2, Ok ())"
  shows "file_stored (blob p2) TOMBSTONES_KEY = file_stored (blob p) TOMBSTONES_KEY"
  by (rule files.failed_then_retried [OF assms])

section \<open>Examples\<close>

definition wal_codec :: fb_codec where
  "wal_codec = \<lparr>root_worker_message = (\<lambda>bs. if bs = [5, 5] then Some (WmParsed (Some
       \<lparr>pe_id = ''x'', pe_pubkey = ''alice'', pe_kind = 5, pe_created_at = 150, pe_kind10002 = None,
        pe_tags = [Some [''e'', ''a'']]\<rparr>)) else None),
     root_parsed_event = (\<lambda>_. None), root_nostr_event = (\<lambda>_. None)\<rparr>"

definition wal_db :: nostr_db where
  "wal_db = \<lparr>db_indexes = indexes_new,
     db_storage = \<lparr>shards = fmap_of_list [(from_kind 5, ring_new [] [] 1000 default_config)],
       default_shard = Default, router = default_router\<rparr>,
     db_initialized = True, db_tombstones = tombstones_clear, default_relays = [], indexer_relays = []\<rparr>"

definition wal_storage :: "io_fault list \<Rightarrow> file_blob_store persistent_storage" where
  "wal_storage faults = persistent_new wal_db \<lparr>fs_files = fmempty, fs_unreadable = {||}, fs_faults = faults\<rparr>"

lemma wal_codec_deletion:
  "wal_deletion wal_codec [5, 5] = Some (deletion_of ''x'' ''alice'' 150 [Some [''e'', ''a'']])"
  "deletion_event_id wal_codec [5, 5] = Some ''x''"
  "decode_event wal_codec [5, 5] = DecEvent (deletion_of ''x'' ''alice'' 150 [Some [''e'', ''a'']])"
  by (simp_all add: wal_deletion_def deletion_event_id_def decode_event_def wal_codec_def EVENT_DELETION_def
      parsed_fields_def deletion_of_def)

lemma wal_db_adds:
  "\<exists>db1 db2. add_worker_message_bytes wal_codec [5, 5] wal_db = Some (db1, Ok ())
     \<and> add_worker_message_bytes wal_codec [5, 5] db1 = Some (db2, Ok ())"
  by (simp add: add_worker_message_bytes_def wal_codec_deletion store_and_index_def add_event_for_kind_def
      add_to_shard_def get_shard_storage_def wal_db_def deletion_of_def EVENT_DELETION_def add_event_def evict_to_fit_def
      ring_new_def db_index_def index_eval Let_def)

lemma wal_storage_holds: "wal_holds fb [] (wal_storage faults)" "wal_ids (wal_storage faults) = {||}"
  "\<not> should_sync 0 (wal_storage faults)"
  by (simp_all add: wal_holds_def wal_storage_def persistent_new_def should_sync_def)

lemma wal_persist:
  assumes "add_worker_message_bytes wal_codec [5, 5] (core p) = Some (db, Ok ())" "\<not> should_sync 0 p"
  shows "persist iter wal_codec put 0 [5, 5] p =
    (case append_deletion wal_codec put [5, 5] ''x'' (p\<lparr>core := db\<rparr>) of
       Some (q, Ok _) \<Rightarrow> Some (q, Ok ()) | r \<Rightarrow> r)"
proof -
  have c: "core_persist wal_codec [5, 5] p = Some (p\<lparr>core := db\<rparr>, Ok ())"
    using assms(1) by (simp add: core_persist_def)
  have "append_deletion wal_codec put [5, 5] ''x'' (p\<lparr>core := db\<rparr>) = Some (q, r) \<Longrightarrow> \<not> should_sync 0 q" for q r
    using append_sync [of wal_codec put "[5, 5]" "''x''" "p\<lparr>core := db\<rparr>" q r] assms(2) by (simp add: should_sync_def)
  then show ?thesis
    by (auto simp: persist_def io_bind_def c wal_codec_deletion split: option.splits sum.splits)
qed

theorem retried_deletion_not_stored_witness:
  "\<exists>p1 p2. persist (\<lambda>es. es) wal_codec file_put 0 [5, 5] (wal_storage [CreateDirFails])
       = Some (p1, Err (Other ''Failed to create native blob dir''))
     \<and> persist (\<lambda>es. es) wal_codec file_put 0 [5, 5] p1 = Some (p2, Ok ())
     \<and> file_stored (blob p2) TOMBSTONES_KEY = None"
proof -
  let ?p = "wal_storage [CreateDirFails]"
  obtain db1 db2 where db: "add_worker_message_bytes wal_codec [5, 5] wal_db = Some (db1, Ok ())"
    "add_worker_message_bytes wal_codec [5, 5] db1 = Some (db2, Ok ())" using wal_db_adds by blast
  have c: "core ?p = wal_db" by (simp add: wal_storage_def persistent_new_def)
  obtain p1 where p1: "append_deletion wal_codec file_put [5, 5] ''x'' (?p\<lparr>core := db1\<rparr>) = Some (p1, Err (Other ''Failed to create native blob dir''))"
    "core p1 = db1" "\<not> should_sync 0 p1" "''x'' |\<in>| wal_ids p1"
    by (simp add: append_deletion_def wal_storage_def persistent_new_def MAX_WAL_ENTRIES_def blob_put_def file_put_def
        should_sync_def Let_def)
  then have f: "persist (\<lambda>es. es) wal_codec file_put 0 [5, 5] ?p = Some (p1, Err (Other ''Failed to create native blob dir''))"
    using wal_persist [of ?p db1 "\<lambda>es. es" file_put] db(1) c wal_storage_holds(3) by simp
  have "append_deletion wal_codec file_put [5, 5] ''x'' (p1\<lparr>core := db2\<rparr>) = Some (p1\<lparr>core := db2\<rparr>, Ok ())"
    using p1(4) by (simp add: append_deletion_def)
  then have s: "persist (\<lambda>es. es) wal_codec file_put 0 [5, 5] p1 = Some (p1\<lparr>core := db2\<rparr>, Ok ())"
    using wal_persist [of p1 db2 "\<lambda>es. es" file_put] db(2) p1(2,3) by simp
  have "file_stored (blob ?p) TOMBSTONES_KEY = None"
    by (simp add: wal_storage_def persistent_new_def file_stored_def)
  then have "file_stored (blob (p1\<lparr>core := db2\<rparr>)) TOMBSTONES_KEY = None"
    using retried_deletion_not_stored [OF wal_storage_holds(1) _ wal_codec_deletion(2) _ wal_storage_holds(3) f s]
    by (simp add: wal_storage_holds(2))
  then show ?thesis using f s by blast
qed

lemma fresh_load_events:
  assumes "\<And>s r. fmlookup (shards st) s = Some r \<Longrightarrow> buffer r = []"
  shows "sharded_load_events st = Ok []"
proof -
  have "extract_events_from_buffer r = []" if "(s, r) \<in> set (shard_entries st)" for s r
    using that assms by (simp add: shard_entries_set extract_events_from_buffer_def extract_scan.simps)
  then show ?thesis by (auto simp: sharded_load_events_def)
qed

lemma new_db_initialize: "\<exists>db. db_initialize fb (nostr_db_new name cap ds ix) = Some (db, Ok ())
  \<and> db_indexes db = indexes_clear indexes_new \<and> db_tombstones db = tombstones_clear"
proof -
  let ?st = "sharded_new_default name cap default_config"
  have "buffer r = []" if r: "fmlookup (shards (fst (sharded_initialize ?st))) s = Some r" for s r
  proof -
    obtain r0 where r0: "fmlookup (shards ?st) s = Some r0" "r = fst (ring_initialize r0)"
      using r by (auto simp: sharded_initialize_def)
    have "buffer r0 = []"
      using r0(1) by (auto simp: sharded_new_default_def Let_def fmlookup_of_list ring_new_def split: if_splits)
    then show ?thesis using r0(2) by (simp add: ring_initialize_def)
  qed
  then have "sharded_load_events (fst (sharded_initialize ?st)) = Ok []" by (rule fresh_load_events)
  then show ?thesis
    by (simp add: db_initialize_def nostr_db_new_def reset_indexes_def load_into_indexes_def sharded_initialize_def)
qed

text \<open>A store that holds nothing but the log hydrates no shard.\<close>

lemma hydrate_nothing:
  assumes "\<And>k. is_blob_key k \<Longrightarrow> k \<noteq> TOMBSTONES_KEY \<Longrightarrow> get k (blob p) = Ok None"
  shows "hydrate_from_blob_store iter fb get put p = Some (p, Ok ())"
proof -
  have shard: "persistence_key s = Some k \<Longrightarrow> get k (blob p) = Ok None" for s k
    using assms shard_key_ok by blast
  have clear: "\<forall>s \<in> set ss. persistence_key s \<noteq> None \<Longrightarrow> clear_shards get put ss False p = Some (p, Ok False)" for ss
    by (induction ss) (auto simp: with_key_def io_bind_def blob_get_def io_return_def shard split: option.splits)
  have legacy: "get LEGACY_KIND10002_KEY (blob p) = Ok None"
    by (rule assms) (simp_all add: is_blob_key_def LEGACY_KIND10002_KEY_def TOMBSTONES_KEY_def)
  have read: "\<forall>s \<in> set ss. persistence_key s \<noteq> None \<Longrightarrow> read_shards get ss p = Some (p, Ok [])" for ss
    by (induction ss) (auto simp: with_key_def io_bind_def blob_get_def io_return_def shard legacy split: option.splits)
  have "\<forall>s \<in> set affected. persistence_key s \<noteq> None" "\<forall>s \<in> set persistent_ids. persistence_key s \<noteq> None"
    by (simp_all add: affected_def persistent_ids_def)
  then show ?thesis
    using clear read assms [OF version_key_ok(1,2)]
    by (simp add: hydrate_from_blob_store_def migrate_poisoned_encrypted_cache_def io_bind_def blob_get_def io_return_def)
qed

lemma log_only_get:
  assumes "fs_files b = fmupd (path_for_key TOMBSTONES_KEY) bs fmempty" "fs_unreadable b = {||}"
  shows "file_get TOMBSTONES_KEY b = Ok (Some bs)"
    "is_blob_key k \<Longrightarrow> k \<noteq> TOMBSTONES_KEY \<Longrightarrow> file_get k b = Ok None"
  using assms version_key_ok(3) by (simp_all add: file_get_def path_eq_iff)

lemma wal_persist_ok:
  "\<exists>p1. persist (\<lambda>es. es) wal_codec file_put 0 [5, 5] (wal_storage []) = Some (p1, Ok ())
     \<and> fs_files (blob p1) = fmupd (path_for_key TOMBSTONES_KEY) (wal p1) fmempty \<and> fs_unreadable (blob p1) = {||}
     \<and> wal p1 = lp_record [5, 5]"
proof -
  obtain db1 where db: "add_worker_message_bytes wal_codec [5, 5] wal_db = Some (db1, Ok ())"
    using wal_db_adds by blast
  have c: "core (wal_storage []) = wal_db" by (simp add: wal_storage_def persistent_new_def)
  obtain p1 where "append_deletion wal_codec file_put [5, 5] ''x'' ((wal_storage [])\<lparr>core := db1\<rparr>) = Some (p1, Ok ())"
    "fs_files (blob p1) = fmupd (path_for_key TOMBSTONES_KEY) (wal p1) fmempty" "fs_unreadable (blob p1) = {||}"
    "wal p1 = lp_record [5, 5]"
    by (simp add: append_deletion_def wal_storage_def persistent_new_def MAX_WAL_ENTRIES_def blob_put_def file_put_def
        lp_record_def Let_def)
  then show ?thesis
    using wal_persist [of "wal_storage []" db1 "\<lambda>es. es" file_put] db c wal_storage_holds(3) by simp
qed

lemma log_only_initialize:
  assumes "fs_files b = fmupd (path_for_key TOMBSTONES_KEY) (lp_stream es) fmempty" "fs_unreadable b = {||}" "\<forall>e \<in> set es. fits_u32 e"
  shows "\<exists>p2 db. persistent_initialize iter fb file_get file_put now (persistent_new (nostr_db_new name cap ds ix) b) = Some (p2, Ok ())
    \<and> core p2 = replay fb es db \<and> db_indexes db = indexes_clear indexes_new \<and> db_tombstones db = tombstones_clear"
proof -
  obtain db where db: "db_initialize fb (nostr_db_new name cap ds ix) = Some (db, Ok ())"
    "db_indexes db = indexes_clear indexes_new" "db_tombstones db = tombstones_clear" using new_db_initialize by blast
  then have "core_initialize fb (persistent_new (nostr_db_new name cap ds ix) b) = Some (persistent_new db b, Ok ())"
    by (simp add: core_initialize_def persistent_new_def)
  moreover have "hydrate_from_blob_store iter fb file_get file_put (persistent_new db b) = Some (persistent_new db b, Ok ())"
    using log_only_get(2) [OF assms(1,2)] by (intro hydrate_nothing) (simp add: persistent_new_def)
  moreover have "\<exists>p. load_tombstones fb file_get (persistent_new db b) = Some (p, Ok ()) \<and> core p = replay fb es db"
    using log_only_get(1) [OF assms(1,2)] replay_scan_records [of 0 "lp_stream es" fb 0 db "{||}"] lp_parse_stream [OF assms(3)]
    by (simp add: load_tombstones_def io_bind_def blob_get_def persistent_new_def)
  ultimately show ?thesis using db(2,3) by (auto simp: persistent_initialize_def io_bind_def mark_synced_def)
qed

text \<open>The note the deletion names is suppressed when a relay delivers it again after the restart.\<close>

lemma decoded_by_wal_codec: "decoded_history wal_codec h \<Longrightarrow> (f, off) \<in> set h \<Longrightarrow> f = deletion_of ''x'' ''alice'' 150 [Some [''e'', ''a'']]"
  by (auto simp: decoded_history_def decode_event_def wal_codec_def parsed_fields_def deletion_of_def EVENT_DELETION_def
      split: if_splits)

lemma note_indexed_after_replay:
  assumes "db_indexes db = indexes_clear indexes_new" "db_tombstones db = tombstones_clear"
  shows "index_history [(example_note ''a'' 100, 0)]
    (db_indexes (replay wal_codec [[5, 5]] db), db_tombstones (replay wal_codec [[5, 5]] db)) \<noteq> None"
  using assms by (simp add: apply_deletions_fields wal_codec_deletion indexes_clear_def index_eval example_note_def deletion_of_def Let_def
      split: option.split)

theorem deletion_survives_restart_witness:
  "\<exists>p1 p2 idx t. persist (\<lambda>es. es) wal_codec file_put 0 [5, 5] (wal_storage []) = Some (p1, Ok ())
     \<and> persistent_initialize (\<lambda>es. es) wal_codec file_get file_put 0 (persistent_new (nostr_db_new [] 0 [] []) (blob p1)) = Some (p2, Ok ())
     \<and> wal p2 = lp_record [5, 5]
     \<and> index_history [(example_note ''a'' 100, 0)] (db_indexes (core p2), db_tombstones (core p2)) = Some (idx, t)
     \<and> is_deleted ''a'' ((core p2)\<lparr>db_indexes := idx, db_tombstones := t\<rparr>)"
proof -
  let ?later = "[(example_note ''a'' 100, 0)]" and ?x = "deletion_of ''x'' ''alice'' 150 [Some [''e'', ''a'']]"
  obtain p1 where p1: "persist (\<lambda>es. es) wal_codec file_put 0 [5, 5] (wal_storage []) = Some (p1, Ok ())"
    "fs_files (blob p1) = fmupd (path_for_key TOMBSTONES_KEY) (wal p1) fmempty" "fs_unreadable (blob p1) = {||}"
    "wal p1 = lp_record [5, 5]" using wal_persist_ok by blast
  have s: "wal p1 = lp_stream [[5, 5]]" "\<forall>e \<in> set [[5, 5]]. fits_u32 e"
    using p1(4) by (simp_all add: lp_stream_def)
  obtain p2 db where p2: "persistent_initialize (\<lambda>es. es) wal_codec file_get file_put 0 (persistent_new (nostr_db_new [] 0 [] []) (blob p1)) = Some (p2, Ok ())"
    "core p2 = replay wal_codec [[5, 5]] db" "db_indexes db = indexes_clear indexes_new" "db_tombstones db = tombstones_clear"
    using log_only_initialize [OF p1(2) [unfolded s(1)] p1(3) s(2)] by blast
  obtain idx t where idx: "index_history ?later (db_indexes (core p2), db_tombstones (core p2)) = Some (idx, t)"
    using note_indexed_after_replay [OF p2(3,4)] p2(2) by (cases "index_history ?later (db_indexes (core p2), db_tombstones (core p2))") auto
  obtain h where h: "wal p2 = wal p1" "decoded_history wal_codec h"
    "\<forall>later idx t. index_history later (db_indexes (core p2), db_tombstones (core p2)) = Some (idx, t) \<longrightarrow> events_by_hash (h @ later) \<longrightarrow>
      (\<forall>(f, off) \<in> set (h @ later). list_ex (tag_is ''e'' (ef_id f)) (ef_tags ?x) \<longrightarrow> ef_pubkey f = ef_pubkey ?x \<longrightarrow>
        (\<forall>b. refers ((history_log h @ wal_refs wal_codec (newest ([] @ [[5, 5]]))) @ history_log later) (ef_id f) b \<longrightarrow> b = ef_pubkey f) \<longrightarrow>
        is_deleted (ef_id f) ((core p2)\<lparr>db_indexes := idx, db_tombstones := t\<rparr>))"
    using deletion_survives_restart [OF wal_storage_holds(1) _ wal_codec_deletion(1) _ p1(1) p2(1)]
    by (auto simp: wal_storage_holds(2) deletion_of_def)
  note only_x = decoded_by_wal_codec [OF h(2)]
  have "events_by_hash (h @ ?later)"
    by (rule events_by_hashI) (auto dest!: only_x simp: deletion_of_def example_note_def)
  moreover have "\<forall>b. refers ((history_log h @ wal_refs wal_codec (newest ([] @ [[5, 5]]))) @ history_log ?later) ''a'' b \<longrightarrow> b = ''alice''"
    by (auto simp: refers_def history_log_def wal_refs_def newest_def MAX_WAL_ENTRIES_def wal_codec_deletion deletion_refs_def
        example_note_def deletion_of_def EVENT_DELETION_def dest!: only_x split: if_splits)
  ultimately have "is_deleted ''a'' ((core p2)\<lparr>db_indexes := idx, db_tombstones := t\<rparr>)"
    using h(3) [rule_format, OF idx, of "(example_note ''a'' 100, 0)"]
    by (simp add: example_note_def deletion_of_def tag_is_def)
  then show ?thesis using p1 p2 h(1) idx by metis
qed

theorem deletion_log_invariant_witness:
  "\<exists>p es. storage_reach (\<lambda>es. es) wal_codec file_get file_put p \<and> wal_holds wal_codec es p \<and> wal p = lp_record [5, 5]"
proof -
  obtain p1 where p1: "persist (\<lambda>es. es) wal_codec file_put 0 [5, 5] (wal_storage []) = Some (p1, Ok ())"
    "wal p1 = lp_record [5, 5]" using wal_persist_ok by blast
  have "storage_reach (\<lambda>es. es) wal_codec file_get file_put p1"
    using reach_persist [OF reach_new _ p1(1) [unfolded wal_storage_def]] by simp
  then show ?thesis using deletion_log_invariant p1(2) by blast
qed

end
