(* ===== verification/Mesh_Framing.thy ===== *)
theory Mesh_Framing
  imports Prelude
begin

text \<open>
  Framing of messages over Bluetooth writes, after \<open>mesh/src/framing.rs\<close>: the seventeen-byte fragment
  header, the fragmenter, the reassembler with its limits and timeout, and the bounded outbound queue.
  An \<open>Instant\<close> is a natural number of ticks. The theory shows that the codec round-trips, that
  fragments in any order reassemble to the message, and that no input makes the reassembler hold
  more than its byte and message limits.
\<close>

datatype mesh_error =
    InvalidEventId string
  | InvalidEvent string
  | InvalidFrame
  | NegentropyError
  | JsonError
  | CacheChannelClosed
  | InvalidCacheResponse
  | InvalidCacheRecord
  | UnexpectedCacheResponse string string
  | UnknownSession string
  | UnexpectedSessionMessage string
  | Frame string

section \<open>Fragments\<close>

record fragment =
  fr_message_id :: u32
  fr_index :: u16
  fr_count :: u16
  fr_total_len :: u32
  fr_payload :: bytes

definition MAGIC :: bytes where
  "MAGIC = [0x4E, 0x4D]"

definition VERSION :: u8 where
  "VERSION = 1"

definition HEADER_LEN :: nat where
  "HEADER_LEN = 17"

definition fragment_encode :: "fragment \<Rightarrow> bytes" where
  "fragment_encode f =
     MAGIC @ [VERSION] @ u32_to_be_bytes (fr_message_id f) @ u16_to_be_bytes (fr_index f)
     @ u16_to_be_bytes (fr_count f) @ u32_to_be_bytes (fr_total_len f)
     @ u16_to_be_bytes (of_nat (length (fr_payload f))) @ fr_payload f"

definition fragment_decode :: "bytes \<Rightarrow> mesh_error + fragment" where
  "fragment_decode b =
     (if length b < HEADER_LEN \<or> take 2 b \<noteq> MAGIC \<or> b ! 2 \<noteq> VERSION then Err (Frame ''invalid header'')
      else
        (let message_id = u32_from_be_bytes (b ! 3) (b ! 4) (b ! 5) (b ! 6);
             index = u16_from_be_bytes (b ! 7) (b ! 8);
             count = u16_from_be_bytes (b ! 9) (b ! 10);
             total_len = u32_from_be_bytes (b ! 11) (b ! 12) (b ! 13) (b ! 14);
             payload_len = unat (u16_from_be_bytes (b ! 15) (b ! 16))
         in if count = 0 \<or> index \<ge> count \<or> length b \<noteq> HEADER_LEN + payload_len
            then Err (Frame ''invalid fragment metadata'')
            else Ok \<lparr>fr_message_id = message_id, fr_index = index, fr_count = count,
                     fr_total_len = total_len, fr_payload = drop HEADER_LEN b\<rparr>))"

section \<open>Fragmenter\<close>

record fragmenter =
  next_message_id :: u32
  fg_max_message_size :: nat

definition fragmenter_new :: "nat \<Rightarrow> fragmenter" where
  "fragmenter_new m = \<lparr>next_message_id = 1, fg_max_message_size = m\<rparr>"

text \<open>\<open>slice::chunks\<close>, for a positive size.\<close>

function chunks :: "nat \<Rightarrow> 'a list \<Rightarrow> 'a list list" where
  "chunks n xs = (if n = 0 \<or> xs = [] then [] else take n xs # chunks n (drop n xs))"
  by pat_completeness auto
termination by (relation "measure (\<lambda>(n, xs). length xs)") (auto simp: neq_Nil_conv)

declare chunks.simps [simp del]

definition div_ceil :: "nat \<Rightarrow> nat \<Rightarrow> nat" where
  "div_ceil a b = (a + b - 1) div b"

definition fragment_message :: "bytes \<Rightarrow> nat \<Rightarrow> fragmenter \<Rightarrow> fragmenter \<times> (mesh_error + bytes list)" where
  "fragment_message message mtu fg =
     (if message = [] \<or> length message > fg_max_message_size fg
      then (fg, Err (Frame ''message size outside limits''))
      else if mtu \<le> HEADER_LEN then (fg, Err (Frame ''MTU too small''))
      else
        (let payload_size = mtu - HEADER_LEN; count = div_ceil (length message) payload_size in
         if count > 65535 then (fg, Err (Frame ''too many fragments''))
         else
           (let message_id = next_message_id fg in
            (fg\<lparr>next_message_id := max (next_message_id fg + 1) 1\<rparr>,
             Ok (map (\<lambda>(index, payload). fragment_encode
                   \<lparr>fr_message_id = message_id, fr_index = of_nat index, fr_count = of_nat count,
                    fr_total_len = of_nat (length message), fr_payload = payload\<rparr>)
                 (enumerate 0 (chunks payload_size message)))))))"

section \<open>Reassembler\<close>

record assembly =
  as_created_at :: nat
  as_total_len :: nat
  as_fragments :: "bytes option list"
  as_received_bytes :: nat

record reassembler =
  assemblies :: "(u32, assembly) fmap"
  ra_timeout :: nat
  ra_max_message_size :: nat
  ra_max_inflight_messages :: nat
  ra_inflight_bytes :: nat
  ra_max_inflight_bytes :: nat

definition reassembler_new :: "nat \<Rightarrow> nat \<Rightarrow> nat \<Rightarrow> nat \<Rightarrow> reassembler" where
  "reassembler_new timeout max_size max_messages max_bytes =
     \<lparr>assemblies = fmempty, ra_timeout = timeout, ra_max_message_size = max_size,
      ra_max_inflight_messages = max_messages, ra_inflight_bytes = 0, ra_max_inflight_bytes = max_bytes\<rparr>"

definition expired :: "reassembler \<Rightarrow> nat \<Rightarrow> u32 fset" where
  "expired r now =
     ffilter (\<lambda>i. case fmlookup (assemblies r) i of
         Some a \<Rightarrow> now - as_created_at a \<ge> ra_timeout r | None \<Rightarrow> False) (fmdom (assemblies r))"

text \<open>
  Removing the expired assemblies one by one subtracts their bytes from the counter; the order of
  the removals does not show. The subtraction is exact for every reachable state (\<open>reassembler_ok\<close>).
\<close>

definition prune :: "nat \<Rightarrow> reassembler \<Rightarrow> reassembler \<times> nat" where
  "prune now r =
     (r\<lparr>assemblies := fmdrop_fset (expired r now) (assemblies r),
        ra_inflight_bytes := ra_inflight_bytes r
          - (\<Sum>i \<in> fset (expired r now). as_received_bytes (the (fmlookup (assemblies r) i)))\<rparr>,
      fcard (expired r now))"

definition insert_fragment ::
  "fragment \<Rightarrow> assembly \<Rightarrow> reassembler \<Rightarrow> reassembler \<times> (mesh_error + bytes option)" where
  "insert_fragment f a r =
     (if as_total_len a \<noteq> unat (fr_total_len f) \<or> length (as_fragments a) \<noteq> unat (fr_count f)
      then (r, Err (Frame ''inconsistent fragment stream''))
      else case as_fragments a ! unat (fr_index f) of
        Some existing \<Rightarrow>
          (if existing \<noteq> fr_payload f then (r, Err (Frame ''conflicting duplicate fragment'')) else (r, Ok None))
      | None \<Rightarrow>
          if ra_inflight_bytes r + length (fr_payload f) > ra_max_inflight_bytes r
          then (r, Err (Frame ''inflight byte limit exceeded''))
          else
            (let a = a\<lparr>as_received_bytes := as_received_bytes a + length (fr_payload f),
                       as_fragments := (as_fragments a)[unat (fr_index f) := Some (fr_payload f)]\<rparr>;
                 r = r\<lparr>ra_inflight_bytes := ra_inflight_bytes r + length (fr_payload f),
                       assemblies := fmupd (fr_message_id f) a (assemblies r)\<rparr>
             in if list_ex (\<lambda>s. s = None) (as_fragments a) then (r, Ok None)
                else if as_received_bytes a \<noteq> as_total_len a
                then (r, Err (Frame ''reassembled size mismatch''))
                else (r\<lparr>assemblies := fmdrop (fr_message_id f) (assemblies r),
                        ra_inflight_bytes := ra_inflight_bytes r - as_received_bytes a\<rparr>,
                      Ok (Some (concat (map the (as_fragments a)))))))"

definition push :: "bytes \<Rightarrow> nat \<Rightarrow> reassembler \<Rightarrow> reassembler \<times> (mesh_error + bytes option)" where
  "push b now r0 =
     (let r = fst (prune now r0) in
      case fragment_decode b of
        Err e \<Rightarrow> (r, Err e)
      | Ok f \<Rightarrow>
          if fr_total_len f = 0 \<or> unat (fr_total_len f) > ra_max_message_size r
          then (r, Err (Frame ''declared message size outside limits''))
          else case fmlookup (assemblies r) (fr_message_id f) of
            Some a \<Rightarrow> insert_fragment f a r
          | None \<Rightarrow>
              if fcard (fmdom (assemblies r)) \<ge> ra_max_inflight_messages r
              then (r, Err (Frame ''too many inflight messages''))
              else
                (let a = \<lparr>as_created_at = now, as_total_len = unat (fr_total_len f),
                          as_fragments = replicate (unat (fr_count f)) None, as_received_bytes = 0\<rparr>
                 in insert_fragment f a (r\<lparr>assemblies := fmupd (fr_message_id f) a (assemblies r)\<rparr>)))"

section \<open>Outbound queue\<close>

record outbound_queue =
  oq_frames :: "bytes list"
  oq_bytes :: nat
  oq_max_frames :: nat
  oq_max_bytes :: nat

definition outbound_new :: "nat \<Rightarrow> nat \<Rightarrow> outbound_queue" where
  "outbound_new mf mb = \<lparr>oq_frames = [], oq_bytes = 0, oq_max_frames = mf, oq_max_bytes = mb\<rparr>"

definition enqueue :: "bytes list \<Rightarrow> outbound_queue \<Rightarrow> outbound_queue \<times> (mesh_error + unit)" where
  "enqueue frames q =
     (let added = sum_list (map length frames) in
      if length (oq_frames q) + length frames > oq_max_frames q \<or> oq_bytes q + added > oq_max_bytes q
      then (q, Err (Frame ''outbound queue full''))
      else (q\<lparr>oq_bytes := oq_bytes q + added, oq_frames := oq_frames q @ frames\<rparr>, Ok ()))"

definition pop :: "outbound_queue \<Rightarrow> outbound_queue \<times> bytes option" where
  "pop q = (case oq_frames q of
       [] \<Rightarrow> (q, None)
     | f # fs \<Rightarrow> (q\<lparr>oq_frames := fs, oq_bytes := oq_bytes q - length f\<rparr>, Some f))"

section \<open>The codec\<close>

definition fragment_ok :: "fragment \<Rightarrow> bool" where
  "fragment_ok f \<longleftrightarrow> fr_index f < fr_count f \<and> length (fr_payload f) < 2 ^ 16"

lemma fragment_encode_length: "length (fragment_encode f) = HEADER_LEN + length (fr_payload f)"
  by (simp add: fragment_encode_def MAGIC_def HEADER_LEN_def)

lemma decode_encode:
  assumes "fragment_ok f"
  shows "fragment_decode (fragment_encode f) = Ok f"
proof -
  have "unat (of_nat (length (fr_payload f)) :: u16) = length (fr_payload f)"
    using assms by (simp add: fragment_ok_def unat_of_nat)
  moreover have "fr_count f \<noteq> 0" "\<not> fr_count f \<le> fr_index f" using assms by (auto simp: fragment_ok_def)
  ultimately show ?thesis
    by (simp add: fragment_decode_def fragment_encode_def MAGIC_def VERSION_def HEADER_LEN_def Let_def
        u32_to_be_bytes_def u16_to_be_bytes_def codec_simps)
qed

lemma list_17:
  assumes "17 \<le> length b"
  shows "b = [b ! 0, b ! 1, b ! 2, b ! 3, b ! 4, b ! 5, b ! 6, b ! 7, b ! 8, b ! 9, b ! 10, b ! 11, b ! 12,
    b ! 13, b ! 14, b ! 15, b ! 16] @ drop 17 b"
proof -
  have "take 17 b = map ((!) b) [0..<17]"
    using assms by (metis map_nth min.absorb2 take_map take_upt add_0 le_add1 length_map length_take nth_take_lemma map_eq_conv)
  then show ?thesis by (subst append_take_drop_id [of 17 b, symmetric]) (simp add: upt_rec eval_nat_numeral)
qed

lemma encode_decode:
  assumes "fragment_decode b = Ok f"
  shows "fragment_ok f \<and> fragment_encode f = b"
proof -
  have h: "17 \<le> length b" "take 2 b = MAGIC" "b ! 2 = VERSION"
    using assms by (auto simp: fragment_decode_def HEADER_LEN_def split: if_splits)
  have f: "f = \<lparr>fr_message_id = u32_from_be_bytes (b ! 3) (b ! 4) (b ! 5) (b ! 6),
      fr_index = u16_from_be_bytes (b ! 7) (b ! 8), fr_count = u16_from_be_bytes (b ! 9) (b ! 10),
      fr_total_len = u32_from_be_bytes (b ! 11) (b ! 12) (b ! 13) (b ! 14), fr_payload = drop 17 b\<rparr>"
    and c: "fr_index f < fr_count f" "length b = 17 + unat (u16_from_be_bytes (b ! 15) (b ! 16))"
    using assms h by (auto simp: fragment_decode_def HEADER_LEN_def Let_def split: if_splits)
  have len: "of_nat (length (drop 17 b)) = u16_from_be_bytes (b ! 15) (b ! 16)"
    using c(2) by simp
  have "length (drop 17 b) < 2 ^ 16" using c(2) unsigned_less [of "u16_from_be_bytes (b ! 15) (b ! 16)"] by simp
  then have ok: "fragment_ok f" using c(1) by (simp add: fragment_ok_def f)
  have m: "b ! 0 = 0x4E" "b ! 1 = 0x4D"
  proof -
    have "b ! 0 = take 2 b ! 0" "b ! 1 = take 2 b ! 1" by simp_all
    then show "b ! 0 = 0x4E" "b ! 1 = 0x4D" unfolding h(2) by (simp_all add: MAGIC_def)
  qed
  have "fragment_encode f = [b ! 0, b ! 1, b ! 2, b ! 3, b ! 4, b ! 5, b ! 6, b ! 7, b ! 8, b ! 9, b ! 10, b ! 11, b ! 12,
      b ! 13, b ! 14, b ! 15, b ! 16] @ drop 17 b"
    unfolding fragment_encode_def f fragment.simps len u32_be_split u16_be_split using m h(3) by (simp add: MAGIC_def)
  then show ?thesis using list_17 [OF h(1)] ok by simp
qed

lemma concat_chunks: "0 < n \<Longrightarrow> concat (chunks n xs) = xs"
  by (induction n xs rule: chunks.induct) (subst chunks.simps, auto)

lemma chunks_bound: "c \<in> set (chunks n xs) \<Longrightarrow> length c \<le> n"
  by (induction n xs rule: chunks.induct) (subst (asm) (2) chunks.simps, auto split: if_splits)

lemma div_add_self1': "0 < (n :: nat) \<Longrightarrow> (n + a) div n = Suc (a div n)"
  by simp

lemma length_chunks: "0 < n \<Longrightarrow> length (chunks n xs) = div_ceil (length xs) n"
proof (induction n xs rule: chunks.induct)
  case (1 n xs)
  show ?case
  proof (cases "xs = []")
    case True
    then show ?thesis using 1 by (simp add: chunks.simps [of n] div_ceil_def)
  next
    case False
    have "div_ceil (length xs) n = Suc (div_ceil (length xs - n) n)"
    proof (cases "length xs \<le> n")
      case True
      have "(length xs + n - 1) div n = (n + (length xs - 1)) div n" using False by (cases xs) (simp_all add: add.commute)
      also have "\<dots> = Suc ((length xs - 1) div n)" using 1(2) by simp
      also have "(length xs - 1) div n = 0" using True False by (intro div_less) (cases xs, simp_all)
      finally show ?thesis using True 1(2) by (simp add: div_ceil_def)
    next
      case long: False
      then have "length xs + n - 1 = n + (length xs - n + n - 1)" using 1(2) by simp
      then have "(length xs + n - 1) div n = (n + (length xs - n + n - 1)) div n" by (rule arg_cong)
      also have "\<dots> = Suc ((length xs - n + n - 1) div n)" using 1(2) by (rule div_add_self1')
      finally show ?thesis by (simp only: div_ceil_def)
    qed
    then show ?thesis using 1 False by (subst chunks.simps) simp
  qed
qed

section \<open>Limits of the reassembler\<close>

definition total_received :: "(u32, assembly) fmap \<Rightarrow> nat" where
  "total_received m = (\<Sum>i \<in> fset (fmdom m). as_received_bytes (the (fmlookup m i)))"

definition held_bytes :: "bytes option list \<Rightarrow> nat" where
  "held_bytes fs = sum_list (map (\<lambda>s. case s of Some p \<Rightarrow> length p | None \<Rightarrow> 0) fs)"

definition assembly_ok :: "assembly \<Rightarrow> bool" where
  "assembly_ok a \<longleftrightarrow> as_received_bytes a = held_bytes (as_fragments a)"

definition reassembler_ok :: "reassembler \<Rightarrow> bool" where
  "reassembler_ok r \<longleftrightarrow>
     ra_inflight_bytes r = total_received (assemblies r) \<and>
     (\<forall>i a. fmlookup (assemblies r) i = Some a \<longrightarrow> assembly_ok a) \<and>
     ra_inflight_bytes r \<le> ra_max_inflight_bytes r \<and>
     fcard (fmdom (assemblies r)) \<le> ra_max_inflight_messages r"

lemma total_received_upd: "total_received (fmupd k a m) = as_received_bytes a + total_received (fmdrop k m)"
proof -
  let ?g = "\<lambda>i. as_received_bytes (the (fmlookup (fmupd k a m) i))" and ?D = "fset (fmdom (fmdrop k m))"
  have "fset (fmdom (fmupd k a m)) = insert k ?D" by auto
  then have "total_received (fmupd k a m) = sum ?g (insert k ?D)" by (simp only: total_received_def)
  also have "\<dots> = ?g k + sum ?g ?D" by (rule sum.insert) simp_all
  also have "sum ?g ?D = total_received (fmdrop k m)" unfolding total_received_def by (rule sum.cong) auto
  finally show ?thesis by simp
qed

lemma total_received_drop:
  "fmlookup m k = Some a \<Longrightarrow> total_received m = as_received_bytes a + total_received (fmdrop k m)"
  using total_received_upd [of k a m] by (metis fmap_ext fmupd_lookup)

lemma held_bytes_update:
  "i < length fs \<Longrightarrow> fs ! i = None \<Longrightarrow> held_bytes (fs[i := Some p]) = held_bytes fs + length p"
  unfolding held_bytes_def
proof (induction fs arbitrary: i)
  case (Cons s fs)
  then show ?case by (cases i) auto
qed simp

lemma held_bytes_new [simp]: "held_bytes (replicate n None) = 0"
  by (simp add: held_bytes_def map_replicate_const sum_list_replicate)

lemma expired_subset: "expired r now |\<subseteq>| fmdom (assemblies r)"
  by (auto simp: expired_def)

lemma prune_ok:
  assumes "reassembler_ok r"
  shows "reassembler_ok (fst (prune now r))"
proof -
  let ?E = "fset (expired r now)" and ?D = "fset (fmdom (assemblies r))"
  have sub: "?E \<subseteq> ?D" using expired_subset by (simp add: less_eq_fset.rep_eq)
  have dom: "fmdom (fmdrop_fset (expired r now) (assemblies r)) = fmdom (assemblies r) |-| expired r now" by auto
  have "total_received (assemblies r) = (\<Sum>i \<in> ?E. as_received_bytes (the (fmlookup (assemblies r) i)))
      + (\<Sum>i \<in> ?D - ?E. as_received_bytes (the (fmlookup (assemblies r) i)))"
    unfolding total_received_def using sub by (simp add: sum.subset_diff add.commute)
  also have "(\<Sum>i \<in> ?D - ?E. as_received_bytes (the (fmlookup (assemblies r) i)))
      = total_received (fmdrop_fset (expired r now) (assemblies r))"
    unfolding total_received_def dom by (rule sum.cong) auto
  finally have "ra_inflight_bytes r - (\<Sum>i \<in> ?E. as_received_bytes (the (fmlookup (assemblies r) i)))
      = total_received (fmdrop_fset (expired r now) (assemblies r))"
    using assms by (simp add: reassembler_ok_def)
  moreover have "fcard (fmdom (assemblies r) |-| expired r now) \<le> fcard (fmdom (assemblies r))"
    by (rule fcard_mono) auto
  ultimately show ?thesis
    using assms by (auto simp: reassembler_ok_def prune_def dom split: if_splits)
qed

lemma insert_fragment_ok:
  assumes ok: "reassembler_ok r" and a: "fmlookup (assemblies r) (fr_message_id f) = Some a"
    and idx: "fr_index f < fr_count f"
  shows "reassembler_ok (fst (insert_fragment f a r))"
proof (cases "as_total_len a = unat (fr_total_len f) \<and> length (as_fragments a) = unat (fr_count f) \<and>
    as_fragments a ! unat (fr_index f) = None \<and> ra_inflight_bytes r + length (fr_payload f) \<le> ra_max_inflight_bytes r")
  case False
  then show ?thesis using ok by (auto simp: insert_fragment_def split: option.splits)
next
  case True
  let ?k = "fr_message_id f" and ?p = "fr_payload f"
  define a' where "a' = a\<lparr>as_received_bytes := as_received_bytes a + length ?p,
      as_fragments := (as_fragments a)[unat (fr_index f) := Some ?p]\<rparr>"
  define r' where "r' = r\<lparr>ra_inflight_bytes := ra_inflight_bytes r + length ?p, assemblies := fmupd ?k a' (assemblies r)\<rparr>"
  have "unat (fr_index f) < length (as_fragments a)" using True idx by (simp add: word_less_nat_alt)
  then have ok_a: "assembly_ok a'"
    using ok a True held_bytes_update by (simp add: assembly_ok_def a'_def reassembler_ok_def)
  have tr: "total_received (assemblies r) = as_received_bytes a + total_received (fmdrop ?k (assemblies r))"
    by (rule total_received_drop [OF a])
  have dom: "fmdom (fmupd ?k a' (assemblies r)) = fmdom (assemblies r)" using a by (auto intro: fmdomI)
  have r': "reassembler_ok r'"
    using ok True ok_a tr dom
    by (auto simp: reassembler_ok_def r'_def total_received_upd a'_def split: if_splits)
  have drop: "reassembler_ok (r'\<lparr>assemblies := fmdrop ?k (assemblies r'),
      ra_inflight_bytes := ra_inflight_bytes r' - as_received_bytes a'\<rparr>)"
  proof -
    have "fcard (fmdom (assemblies r) |-| {|?k|}) \<le> fcard (fmdom (assemblies r))" by (rule fcard_mono) auto
    moreover have "fmdrop ?k (fmupd ?k a' (assemblies r)) = fmdrop ?k (assemblies r)" by (rule fmap_ext) simp
    ultimately show ?thesis
      using ok True tr by (auto simp: reassembler_ok_def r'_def a'_def split: if_splits)
  qed
  have "insert_fragment f a r = (if list_ex (\<lambda>s. s = None) (as_fragments a') then (r', Ok None)
      else if as_received_bytes a' \<noteq> as_total_len a' then (r', Err (Frame ''reassembled size mismatch''))
      else (r'\<lparr>assemblies := fmdrop ?k (assemblies r'), ra_inflight_bytes := ra_inflight_bytes r' - as_received_bytes a'\<rparr>,
            Ok (Some (concat (map the (as_fragments a'))))))"
    using True by (simp add: insert_fragment_def Let_def a'_def r'_def)
  then show ?thesis using r' drop by (cases "as_received_bytes a' = as_total_len a'") auto
qed

lemma push_ok:
  assumes "reassembler_ok r"
  shows "reassembler_ok (fst (push b now r))"
proof -
  define r1 where "r1 = fst (prune now r)"
  have ok1: "reassembler_ok r1" unfolding r1_def using assms by (rule prune_ok)
  show ?thesis
  proof (cases "fragment_decode b")
    case (Inl e)
    then show ?thesis using ok1 by (simp add: push_def r1_def)
  next
    case (Inr f)
    then have idx: "fr_index f < fr_count f" using encode_decode by (auto simp: fragment_ok_def)
    show ?thesis
    proof (cases "fmlookup (assemblies r1) (fr_message_id f)")
      case (Some a)
      then show ?thesis using ok1 insert_fragment_ok [OF ok1 Some idx] Inr
        by (simp add: push_def Let_def r1_def [symmetric])
    next
      case None
      define a where "a = \<lparr>as_created_at = now, as_total_len = unat (fr_total_len f),
          as_fragments = replicate (unat (fr_count f)) None, as_received_bytes = 0\<rparr>"
      define r2 where "r2 = r1\<lparr>assemblies := fmupd (fr_message_id f) a (assemblies r1)\<rparr>"
      have "reassembler_ok r2" if room: "fcard (fmdom (assemblies r1)) < ra_max_inflight_messages r1"
      proof -
        have "fmdrop (fr_message_id f) (assemblies r1) = assemblies r1" using None by (intro fmap_ext) auto
        then have "total_received (assemblies r2) = total_received (assemblies r1)"
          by (simp add: r2_def total_received_upd a_def)
        moreover have "fcard (finsert (fr_message_id f) (fmdom (assemblies r1))) \<le> ra_max_inflight_messages r1"
          using room None by (simp add: fcard_finsert_if)
        ultimately show ?thesis
          using ok1 by (auto simp: reassembler_ok_def r2_def a_def assembly_ok_def split: if_splits)
      qed
      then have "reassembler_ok (fst (insert_fragment f a r2))" if "fcard (fmdom (assemblies r1)) < ra_max_inflight_messages r1"
        using insert_fragment_ok [of r2 f a] idx that by (simp add: r2_def)
      then show ?thesis using ok1 Inr None
        by (simp add: push_def Let_def r1_def [symmetric] a_def [symmetric] r2_def [symmetric] not_le)
    qed
  qed
qed

section \<open>Reassembly in any order\<close>

fun push_all :: "(bytes \<times> nat) list \<Rightarrow> reassembler \<Rightarrow> reassembler \<times> (mesh_error + bytes option) list" where
  "push_all [] r = (r, [])"
| "push_all ((b, now) # ps) r =
     (case push b now r of (r', res) \<Rightarrow> (case push_all ps r' of (r'', ress) \<Rightarrow> (r'', res # ress)))"

definition piece :: "u32 \<Rightarrow> bytes list \<Rightarrow> nat \<Rightarrow> fragment" where
  "piece mid cs i = \<lparr>fr_message_id = mid, fr_index = of_nat i, fr_count = of_nat (length cs),
     fr_total_len = of_nat (length (concat cs)), fr_payload = cs ! i\<rparr>"

text \<open>The assembly after the pieces with index in \<open>S\<close>, and the reassembler that holds it.\<close>

definition partial_fragments :: "bytes list \<Rightarrow> nat set \<Rightarrow> bytes option list" where
  "partial_fragments cs S = map (\<lambda>i. if i \<in> S then Some (cs ! i) else None) [0..<length cs]"

definition partial_assembly :: "nat \<Rightarrow> bytes list \<Rightarrow> nat set \<Rightarrow> assembly" where
  "partial_assembly t0 cs S = \<lparr>as_created_at = t0, as_total_len = length (concat cs),
     as_fragments = partial_fragments cs S, as_received_bytes = (\<Sum>i \<in> S. length (cs ! i))\<rparr>"

definition with_partial :: "u32 \<Rightarrow> nat \<Rightarrow> bytes list \<Rightarrow> nat set \<Rightarrow> reassembler \<Rightarrow> reassembler" where
  "with_partial mid t0 cs S r = r\<lparr>assemblies := fmupd mid (partial_assembly t0 cs S) (assemblies r),
     ra_inflight_bytes := ra_inflight_bytes r + (\<Sum>i \<in> S. length (cs ! i))\<rparr>"

definition fits_reassembler :: "u32 \<Rightarrow> bytes list \<Rightarrow> reassembler \<Rightarrow> bool" where
  "fits_reassembler mid cs r \<longleftrightarrow> fmlookup (assemblies r) mid = None \<and>
     fcard (fmdom (assemblies r)) < ra_max_inflight_messages r \<and>
     ra_inflight_bytes r + length (concat cs) \<le> ra_max_inflight_bytes r \<and>
     length (concat cs) \<le> ra_max_message_size r"

definition sendable :: "bytes list \<Rightarrow> bool" where
  "sendable cs \<longleftrightarrow> 0 < length (concat cs) \<and> length (concat cs) < 2 ^ 32 \<and> length cs \<le> 65535 \<and>
     (\<forall>c \<in> set cs. length c < 2 ^ 16)"

lemma prune_idle:
  assumes "\<And>i a. fmlookup (assemblies r) i = Some a \<Longrightarrow> now - as_created_at a < ra_timeout r"
  shows "fst (prune now r) = r"
proof -
  have "expired r now = {||}" using assms by (fastforce simp: expired_def split: option.splits)
  moreover have "fmdrop_fset {||} (assemblies r) = assemblies r" by (rule fmap_ext) simp
  ultimately show ?thesis by (simp add: prune_def)
qed

lemma sum_lengths: "(\<Sum>i \<in> {..<length cs}. length (cs ! i)) = length (concat cs)"
  by (simp add: length_concat sum_list_sum_nth atLeast0LessThan)

lemma sum_part_le: "S \<subseteq> {..<length cs} \<Longrightarrow> (\<Sum>i \<in> S. length (cs ! i)) \<le> length (concat cs)"
  unfolding sum_lengths [symmetric] by (rule sum_mono2) auto

lemma unat_small: "n < 2 ^ LENGTH('a :: len) \<Longrightarrow> unat (of_nat n :: 'a word) = n"
  by (simp add: unat_of_nat)

lemma piece_values:
  assumes "sendable cs" "i < length cs"
  shows "unat (fr_index (piece mid cs i)) = i" "unat (fr_count (piece mid cs i)) = length cs"
    "unat (fr_total_len (piece mid cs i)) = length (concat cs)" "fr_message_id (piece mid cs i) = mid"
    "fr_payload (piece mid cs i) = cs ! i" "fragment_ok (piece mid cs i)"
proof -
  have n: "length cs < 2 ^ 16" "i < 2 ^ 16" using assms by (auto simp: sendable_def)
  have u: "unat (of_nat i :: u16) = i" "unat (of_nat (length cs) :: u16) = length cs"
    using n by (auto intro: unat_small)
  then show "unat (fr_index (piece mid cs i)) = i" "unat (fr_count (piece mid cs i)) = length cs"
    by (simp_all add: piece_def)
  show "unat (fr_total_len (piece mid cs i)) = length (concat cs)"
    using assms(1) by (auto simp: piece_def sendable_def intro: unat_small)
  show "fr_message_id (piece mid cs i) = mid" "fr_payload (piece mid cs i) = cs ! i" by (simp_all add: piece_def)
  show "fragment_ok (piece mid cs i)"
    using assms u by (simp add: fragment_ok_def piece_def word_less_nat_alt sendable_def)
qed

lemma partial_fragments_update:
  "i < length cs \<Longrightarrow> (partial_fragments cs S)[i := Some (cs ! i)] = partial_fragments cs (insert i S)"
  by (rule nth_equalityI) (auto simp: partial_fragments_def nth_list_update)

lemma partial_fragments_full: "map the (partial_fragments cs {..<length cs}) = cs"
  by (rule nth_equalityI) (simp_all add: partial_fragments_def)

lemma partial_fragments_missing:
  "S \<subseteq> {..<length cs} \<Longrightarrow> list_ex (\<lambda>s. s = None) (partial_fragments cs S) \<longleftrightarrow> S \<noteq> {..<length cs}"
  by (auto simp: partial_fragments_def list_ex_iff)

lemma insert_piece:
  assumes send: "sendable cs" and fits: "fits_reassembler mid cs r" and i: "i < length cs" "i \<notin> S" and S: "S \<subseteq> {..<length cs}"
  shows "insert_fragment (piece mid cs i) (partial_assembly t0 cs S) (with_partial mid t0 cs S r) =
    (if insert i S = {..<length cs} then (r, Ok (Some (concat cs))) else (with_partial mid t0 cs (insert i S) r, Ok None))"
proof -
  note v = piece_values [OF send i(1), of mid]
  have fin: "finite S" using S finite_subset by blast
  have sum: "(\<Sum>j \<in> insert i S. length (cs ! j)) = (\<Sum>j \<in> S. length (cs ! j)) + length (cs ! i)"
    using fin i(2) by simp
  have S': "insert i S \<subseteq> {..<length cs}" using S i(1) by simp
  have lim: "ra_inflight_bytes r + (\<Sum>j \<in> S. length (cs ! j)) + length (cs ! i) \<le> ra_max_inflight_bytes r"
    using sum_part_le [OF S'] fits sum by (simp add: fits_reassembler_def)
  have none: "partial_fragments cs S ! i = None" "length (partial_fragments cs S) = length cs"
    using i by (simp_all add: partial_fragments_def)
  define r' where "r' = with_partial mid t0 cs (insert i S) r"
  have "insert_fragment (piece mid cs i) (partial_assembly t0 cs S) (with_partial mid t0 cs S r) =
      (if list_ex (\<lambda>s. s = None) (partial_fragments cs (insert i S)) then (r', Ok None)
       else if (\<Sum>j \<in> insert i S. length (cs ! j)) \<noteq> length (concat cs) then (r', Err (Frame ''reassembled size mismatch''))
       else (r'\<lparr>assemblies := fmdrop mid (assemblies r'), ra_inflight_bytes := ra_inflight_bytes r' - (\<Sum>j \<in> insert i S. length (cs ! j))\<rparr>,
          Ok (Some (concat (map the (partial_fragments cs (insert i S)))))))"
    using lim none v partial_fragments_update [OF i(1), of S]
    by (simp add: insert_fragment_def partial_assembly_def Let_def with_partial_def r'_def sum add.assoc)
  moreover have "r'\<lparr>assemblies := fmdrop mid (assemblies r'), ra_inflight_bytes := ra_inflight_bytes r' - (\<Sum>j \<in> insert i S. length (cs ! j))\<rparr> = r"
  proof -
    have "fmdrop mid (fmupd mid a (assemblies r)) = assemblies r" for a
      using fits by (intro fmap_ext) (auto simp: fits_reassembler_def)
    then show ?thesis by (simp add: r'_def with_partial_def)
  qed
  ultimately show ?thesis
    using partial_fragments_missing [OF S'] sum_lengths [of cs] partial_fragments_full [of cs]
    by (cases "insert i S = {..<length cs}") (simp_all add: r'_def)
qed

text \<open>No assembly expires before \<open>T + timeout\<close> when all were created at or after \<open>T\<close>.\<close>

definition fresh_from :: "nat \<Rightarrow> reassembler \<Rightarrow> bool" where
  "fresh_from T r \<longleftrightarrow> (\<forall>i a. fmlookup (assemblies r) i = Some a \<longrightarrow> T \<le> as_created_at a)"

lemma fresh_prune:
  assumes "fresh_from T r" "T \<le> now" "now < T + ra_timeout r"
  shows "fst (prune now r) = r"
proof (rule prune_idle)
  fix i a assume "fmlookup (assemblies r) i = Some a"
  then have "T \<le> as_created_at a" using assms(1) by (simp add: fresh_from_def)
  then show "now - as_created_at a < ra_timeout r" using assms(2,3) by linarith
qed

lemma fresh_with_partial: "fresh_from T r \<Longrightarrow> T \<le> t0 \<Longrightarrow> fresh_from T (with_partial mid t0 cs S r)"
  by (auto simp: fresh_from_def with_partial_def partial_assembly_def split: if_splits)

lemma piece_total:
  assumes "sendable cs" "i < length cs"
  shows "fr_total_len (piece mid cs i) \<noteq> 0"
proof
  assume "fr_total_len (piece mid cs i) = 0"
  then show False using piece_values(3) [OF assms, of mid] assms(1) by (simp add: sendable_def)
qed

lemma push_piece:
  assumes send: "sendable cs" and fits: "fits_reassembler mid cs r" and i: "i < length cs" "i \<notin> S" and S: "S \<subseteq> {..<length cs}"
    and win: "fresh_from T r" "T \<le> t0" "T \<le> now" "now < T + ra_timeout r"
  shows "push (fragment_encode (piece mid cs i)) now (with_partial mid t0 cs S r) =
    (if insert i S = {..<length cs} then (r, Ok (Some (concat cs))) else (with_partial mid t0 cs (insert i S) r, Ok None))"
proof -
  let ?w = "with_partial mid t0 cs S r"
  have "fst (prune now ?w) = ?w"
    using fresh_prune [OF fresh_with_partial [OF win(1,2)], of now mid cs S] win(3,4) by (simp add: with_partial_def)
  moreover have "fmlookup (assemblies ?w) mid = Some (partial_assembly t0 cs S)" by (simp add: with_partial_def)
  moreover have "ra_max_message_size ?w = ra_max_message_size r" by (simp add: with_partial_def)
  ultimately have "push (fragment_encode (piece mid cs i)) now ?w = insert_fragment (piece mid cs i) (partial_assembly t0 cs S) ?w"
    using decode_encode [OF piece_values(6) [OF send i(1)], of mid] piece_values [OF send i(1), of mid] piece_total [OF send i(1), of mid] fits
    by (simp add: push_def Let_def fits_reassembler_def)
  then show ?thesis using insert_piece [OF send fits i S] by simp
qed

lemma push_first:
  assumes send: "sendable cs" and fits: "fits_reassembler mid cs r" and i: "i < length cs"
    and win: "fresh_from T r" "T \<le> now" "now < T + ra_timeout r"
  shows "push (fragment_encode (piece mid cs i)) now r =
    (if {i} = {..<length cs} then (r, Ok (Some (concat cs))) else (with_partial mid now cs {i} r, Ok None))"
proof -
  have pr: "fst (prune now r) = r" by (rule fresh_prune [OF win])
  have emp: "partial_assembly now cs {} = \<lparr>as_created_at = now, as_total_len = length (concat cs),
      as_fragments = replicate (length cs) None, as_received_bytes = 0\<rparr>"
    by (simp add: partial_assembly_def partial_fragments_def map_replicate_const)
  have w: "with_partial mid now cs {} r = r\<lparr>assemblies := fmupd mid (partial_assembly now cs {}) (assemblies r)\<rparr>"
    by (simp add: with_partial_def)
  have "push (fragment_encode (piece mid cs i)) now r = insert_fragment (piece mid cs i) (partial_assembly now cs {}) (with_partial mid now cs {} r)"
    using decode_encode [OF piece_values(6) [OF send i], of mid] piece_values [OF send i, of mid] piece_total [OF send i, of mid] fits pr
    by (simp add: push_def Let_def fits_reassembler_def emp w)
  then show ?thesis using insert_piece [OF send fits i, of "{}" now] by simp
qed

lemma push_rest:
  assumes send: "sendable cs" and fits: "fits_reassembler mid cs r" and win: "fresh_from T r" "T \<le> t0"
  shows "distinct \<sigma> \<Longrightarrow> S \<subseteq> {..<length cs} \<Longrightarrow> set \<sigma> = {..<length cs} - S \<Longrightarrow> \<sigma> \<noteq> [] \<Longrightarrow> length ts = length \<sigma> \<Longrightarrow>
    (\<forall>t \<in> set ts. T \<le> t \<and> t < T + ra_timeout r) \<Longrightarrow>
    push_all (zip (map (\<lambda>i. fragment_encode (piece mid cs i)) \<sigma>) ts) (with_partial mid t0 cs S r) =
    (r, map Ok (replicate (length \<sigma> - 1) None @ [Some (concat cs)]))"
proof (induction \<sigma> arbitrary: S ts)
  case (Cons i \<sigma>)
  obtain t ts' where ts: "ts = t # ts'" using Cons.prems(5) by (cases ts) auto
  have i: "i < length cs" "i \<notin> S" using Cons.prems(3) by auto
  note p = push_piece [OF send fits i Cons.prems(2) win, of t]
  have eq: "set \<sigma> = {..<length cs} - insert i S" using Cons.prems(1,3) by auto
  show ?case
  proof (cases "\<sigma> = []")
    case True
    then have "insert i S = {..<length cs}" using eq i(1) Cons.prems(2) by auto
    then show ?thesis using p Cons.prems(5,6) True ts by simp
  next
    case False
    then have "insert i S \<noteq> {..<length cs}" using eq by (cases \<sigma>) auto
    moreover have "push_all (zip (map (\<lambda>i. fragment_encode (piece mid cs i)) \<sigma>) ts') (with_partial mid t0 cs (insert i S) r) =
        (r, map Ok (replicate (length \<sigma> - 1) None @ [Some (concat cs)]))"
      using Cons.prems i(1) eq False ts by (intro Cons.IH) auto
    ultimately show ?thesis using p Cons.prems(6) ts False by (cases \<sigma>) simp_all
  qed
qed simp

lemma push_permuted:
  assumes send: "sendable cs" and fits: "fits_reassembler mid cs r" and fresh: "fresh_from T r"
    and \<sigma>: "distinct \<sigma>" "set \<sigma> = {..<length cs}" "length ts = length \<sigma>"
    and win: "\<forall>t \<in> set ts. T \<le> t \<and> t < T + ra_timeout r"
  shows "push_all (zip (map (\<lambda>i. fragment_encode (piece mid cs i)) \<sigma>) ts) r =
    (r, map Ok (replicate (length cs - 1) None @ [Some (concat cs)]))"
proof -
  have "cs \<noteq> []" using send by (auto simp: sendable_def)
  moreover have len: "length \<sigma> = length cs" using distinct_card [OF \<sigma>(1)] unfolding \<sigma>(2) by simp
  ultimately have ne: "\<sigma> \<noteq> []" by (metis length_0_conv)
  obtain i \<tau> where s: "\<sigma> = i # \<tau>" using ne by (cases \<sigma>) auto
  obtain t ts' where ts: "ts = t # ts'" using \<sigma>(3) s by (cases ts) auto
  have i: "i < length cs" using \<sigma>(2) s by auto
  note p = push_first [OF send fits i fresh, of t]
  have eq: "set \<tau> = {..<length cs} - {i}" using \<sigma>(1,2) s by auto
  show ?thesis
  proof (cases "\<tau> = []")
    case True
    then have "{i} = {..<length cs}" using eq i by auto
    moreover have "length cs = 1" using len s True by simp
    ultimately have "push_all (zip (map (\<lambda>i. fragment_encode (piece mid cs i)) [i]) [t]) r = (r, [Ok (Some (concat cs))])"
      using p win ts by simp
    then show ?thesis using s ts True \<sigma>(3) \<open>length cs = 1\<close> by simp
  next
    case False
    then have "{i} \<noteq> {..<length cs}" using eq by (cases \<tau>) auto
    moreover have "push_all (zip (map (\<lambda>i. fragment_encode (piece mid cs i)) \<tau>) ts') (with_partial mid t cs {i} r) =
        (r, map Ok (replicate (length \<tau> - 1) None @ [Some (concat cs)]))"
    proof (rule push_rest [OF send fits fresh])
      show "T \<le> t" "\<forall>t \<in> set ts'. T \<le> t \<and> t < T + ra_timeout r" using win ts by simp_all
      show "distinct \<tau>" "length ts' = length \<tau>" using \<sigma> s ts by simp_all
      show "{i} \<subseteq> {..<length cs}" using i by simp
    qed (rule eq, rule False)
    moreover have "length cs - 1 = Suc (length \<tau> - 1)" using len s False by (cases \<tau>) simp_all
    moreover have "push (fragment_encode (piece mid cs i)) t r = (with_partial mid t cs {i} r, Ok None)"
      using p win ts \<open>{i} \<noteq> {..<length cs}\<close> by (simp only: if_False list.set_intros simp_thms)
    ultimately show ?thesis by (simp only: s ts list.map zip_Cons_Cons push_all.simps prod.case replicate_Suc append_Cons)
  qed
qed

lemma fragment_message_pieces:
  assumes ok: "fragment_message m mtu fg = (fg', Ok fs)" and small: "mtu \<le> HEADER_LEN + 65535" "length m < 2 ^ 32"
  defines "cs \<equiv> chunks (mtu - HEADER_LEN) m"
  shows "sendable cs \<and> concat cs = m \<and>
    fs = map (\<lambda>i. fragment_encode (piece (next_message_id fg) cs i)) [0..<length cs] \<and>
    length m \<le> fg_max_message_size fg \<and> fg' = fg\<lparr>next_message_id := max (next_message_id fg + 1) 1\<rparr>"
proof -
  have g: "m \<noteq> []" "length m \<le> fg_max_message_size fg" "HEADER_LEN < mtu" "div_ceil (length m) (mtu - HEADER_LEN) \<le> 65535"
    and fg': "fg' = fg\<lparr>next_message_id := max (next_message_id fg + 1) 1\<rparr>"
    and fs: "fs = map (\<lambda>(i, p). fragment_encode \<lparr>fr_message_id = next_message_id fg, fr_index = of_nat i,
        fr_count = of_nat (div_ceil (length m) (mtu - HEADER_LEN)), fr_total_len = of_nat (length m), fr_payload = p\<rparr>)
        (enumerate 0 (chunks (mtu - HEADER_LEN) m))"
    using ok by (auto simp: fragment_message_def Let_def not_le not_less split: if_splits)
  have pos: "0 < mtu - HEADER_LEN" using g(3) by simp
  have cc: "concat cs = m" unfolding cs_def by (rule concat_chunks [OF pos])
  have n: "length cs = div_ceil (length m) (mtu - HEADER_LEN)" unfolding cs_def by (rule length_chunks [OF pos])
  have "length c < 2 ^ 16" if "c \<in> set cs" for c
    using chunks_bound [of c "mtu - HEADER_LEN" m] that small(1) by (simp add: cs_def)
  then have "sendable cs" using g(1,4) small(2) by (simp add: sendable_def cc n)
  moreover have "fs = map (\<lambda>i. fragment_encode (piece (next_message_id fg) cs i)) [0..<length cs]"
    unfolding fs cs_def [symmetric] n [symmetric]
    by (rule nth_equalityI) (simp_all add: nth_enumerate_eq piece_def cc)
  ultimately show ?thesis using cc g(2) fg' by blast
qed

lemma piece_inj:
  assumes "sendable cs"
  shows "inj_on (\<lambda>i. fragment_encode (piece mid cs i)) {..<length cs}"
proof (rule inj_onI)
  fix i j assume ij: "i \<in> {..<length cs}" "j \<in> {..<length cs}"
    and eq: "fragment_encode (piece mid cs i) = fragment_encode (piece mid cs j)"
  have "piece mid cs i = piece mid cs j"
    using decode_encode [OF piece_values(6) [OF assms, of i mid]] decode_encode [OF piece_values(6) [OF assms, of j mid]] eq ij
    by (metis Inr_inject lessThan_iff)
  then have "unat (fr_index (piece mid cs i)) = unat (fr_index (piece mid cs j))" by (rule arg_cong)
  then show "i = j" using piece_values(1) [OF assms, of i mid] piece_values(1) [OF assms, of j mid] ij by (metis lessThan_iff)
qed

lemma unpermute:
  assumes "mset bs = mset (map g [0..<n])" "inj_on g {..<n}"
  obtains \<sigma> where "bs = map g \<sigma>" "distinct \<sigma>" "set \<sigma> = {..<n}"
proof -
  define \<sigma> where "\<sigma> = map (inv_into {..<n} g) bs"
  have set: "set bs = g ` {..<n}" using mset_eq_setD [OF assms(1)] by (simp add: atLeast0LessThan)
  have 1: "bs = map g \<sigma>"
    unfolding \<sigma>_def map_map comp_def by (rule map_idI [symmetric]) (simp add: set f_inv_into_f)
  have "mset \<sigma> = image_mset (inv_into {..<n} g) (mset (map g [0..<n]))"
    unfolding \<sigma>_def assms(1) [symmetric] by (rule mset_map)
  also have "\<dots> = mset (map (inv_into {..<n} g \<circ> g) [0..<n])" by (simp add: multiset.map_comp)
  also have "map (inv_into {..<n} g \<circ> g) [0..<n] = [0..<n]"
    by (rule map_idI) (simp add: assms(2))
  finally have ms: "mset \<sigma> = mset [0..<n]" .
  show thesis
    using that [OF 1] mset_eq_setD [OF ms] mset_eq_imp_distinct_iff [OF ms] by (simp add: atLeast0LessThan)
qed

lemma reassemble_any_order:
  assumes frag: "fragment_message m mtu fg = (fg', Ok fs)" and small: "mtu \<le> HEADER_LEN + 65535" "length m < 2 ^ 32"
    and fits: "fits_reassembler (next_message_id fg) [m] r" and fresh: "fresh_from T r"
    and perm: "mset bs = mset fs" "length ts = length bs" and win: "\<forall>t \<in> set ts. T \<le> t \<and> t < T + ra_timeout r"
  shows "push_all (zip bs ts) r = (r, map Ok (replicate (length fs - 1) None @ [Some m]))"
proof -
  define cs where "cs = chunks (mtu - HEADER_LEN) m"
  have p: "sendable cs" "concat cs = m" "fs = map (\<lambda>i. fragment_encode (piece (next_message_id fg) cs i)) [0..<length cs]"
    using fragment_message_pieces [OF frag small] unfolding cs_def by blast+
  obtain \<sigma> where s: "bs = map (\<lambda>i. fragment_encode (piece (next_message_id fg) cs i)) \<sigma>" "distinct \<sigma>" "set \<sigma> = {..<length cs}"
    using unpermute [OF perm(1) [unfolded p(3)] piece_inj [OF p(1)]] by blast
  have "fits_reassembler (next_message_id fg) cs r" using fits by (simp add: fits_reassembler_def p(2))
  from push_permuted [OF p(1) this fresh s(2,3) _ win] show ?thesis
    using perm(2) unfolding s(1) p(2) by (simp add: p(3))
qed

lemma oversized_payload_rejected:
  assumes "2 ^ 16 \<le> length (fr_payload f)"
  shows "\<exists>e. fragment_decode (fragment_encode f) = Err e"
proof (cases "fragment_decode (fragment_encode f)")
  case (Inr g)
  have "fragment_ok g" "fragment_encode g = fragment_encode f" using encode_decode [OF Inr] by simp_all
  then have "length (fr_payload g) = length (fr_payload f)" "length (fr_payload g) < 2 ^ 16"
    using fragment_encode_length [of f] fragment_encode_length [of g] by (simp_all add: fragment_ok_def)
  then show ?thesis using assms by simp
qed blast

lemma push_all_ok: "reassembler_ok r \<Longrightarrow> reassembler_ok (fst (push_all ps r))"
proof (induction ps arbitrary: r)
  case (Cons p ps)
  obtain b now where p: "p = (b, now)" by fastforce
  show ?case using Cons.IH [OF push_ok [OF Cons.prems, of b now]] by (simp add: p case_prod_beta)
qed simp

lemma push_limits:
  "ra_max_inflight_bytes (fst (push b now r)) = ra_max_inflight_bytes r"
  "ra_max_inflight_messages (fst (push b now r)) = ra_max_inflight_messages r"
  by (simp_all add: push_def prune_def insert_fragment_def Let_def split: sum.splits option.splits)

lemma push_all_limits:
  "ra_max_inflight_bytes (fst (push_all ps r)) = ra_max_inflight_bytes r \<and>
   ra_max_inflight_messages (fst (push_all ps r)) = ra_max_inflight_messages r"
  by (induction ps arbitrary: r) (auto simp: push_limits case_prod_beta)

section \<open>Properties\<close>

text \<open>The fragment codec is exact: some bytes decode to a fragment precisely when they are that
  fragment's encoding and the fragment is well formed, its index below its count and its payload
  length within sixteen bits. In particular no two byte strings decode alike.\<close>
theorem fragment_codec_exact:
  "fragment_decode b = Ok f \<longleftrightarrow> fragment_ok f \<and> fragment_encode f = b"
  using decode_encode encode_decode by metis

text \<open>C10. Fragments reassemble in any order: the fragments of a message, pushed in any permutation
  before they time out into a reassembler that has room for the message, give the message with the
  last of them and nothing before, and leave the reassembler exactly as it was.\<close>
theorem fragments_reassemble:
  assumes "fragment_message m mtu fg = (fg', Ok fs)" and "mtu \<le> HEADER_LEN + 65535" and "length m < 2 ^ 32"
    and "fits_reassembler (next_message_id fg) [m] r" and "fresh_from T r"
    and "mset bs = mset fs" and "length ts = length bs" and "\<forall>t \<in> set ts. T \<le> t \<and> t < T + ra_timeout r"
  shows "push_all (zip bs ts) r = (r, map Ok (replicate (length fs - 1) None @ [Some m]))"
  by (rule reassemble_any_order [OF assms])

definition example_fragmenter :: fragmenter where
  "example_fragmenter = fragmenter_new 100"

lemma example_fragments:
  "\<exists>a b. fragment_message [1, 2, 3] 19 example_fragmenter =
     (example_fragmenter\<lparr>next_message_id := 2\<rparr>, Ok [a, b])"
proof -
  have "chunks 2 [1, 2, 3 :: u8] = [[1, 2], [3]]" by (simp add: chunks.simps)
  then show ?thesis
    by (simp add: fragment_message_def example_fragmenter_def fragmenter_new_def HEADER_LEN_def div_ceil_def Let_def)
qed

theorem fragments_reassemble_witness:
  "\<exists>a b. snd (fragment_message [1, 2, 3] 19 example_fragmenter) = Ok [a, b] \<and>
     push_all [(b, 5), (a, 6)] (reassembler_new 10 100 4 1000) = (reassembler_new 10 100 4 1000, [Ok None, Ok (Some [1, 2, 3])])"
proof -
  obtain a b where ab: "fragment_message [1, 2, 3] 19 example_fragmenter =
      (example_fragmenter\<lparr>next_message_id := 2\<rparr>, Ok [a, b])" using example_fragments by blast
  have "fits_reassembler (next_message_id example_fragmenter) [[1, 2, 3]] (reassembler_new 10 100 4 1000)"
    "fresh_from 5 (reassembler_new 10 100 4 1000)"
    by (simp_all add: fits_reassembler_def fresh_from_def reassembler_new_def fcard.rep_eq)
  from fragments_reassemble [OF ab _ _ this, of "[b, a]" "[5, 6]"] ab show ?thesis
    by (simp add: HEADER_LEN_def reassembler_new_def)
qed

text \<open>C11. The reassembler stays within its limits whatever it is fed: after any sequence of byte strings
  at any times, valid or not, the payload bytes it holds add up to its counter, the counter is at
  most the byte limit, and the messages in flight are at most the message limit.\<close>
theorem reassembler_bounded:
  "reassembler_ok (fst (push_all ps (reassembler_new timeout max_size max_messages max_bytes))) \<and>
   (\<Sum>i \<in> fset (fmdom (assemblies (fst (push_all ps (reassembler_new timeout max_size max_messages max_bytes))))).
      held_bytes (as_fragments (the (fmlookup (assemblies (fst (push_all ps
        (reassembler_new timeout max_size max_messages max_bytes)))) i)))) \<le> max_bytes \<and>
   fcard (fmdom (assemblies (fst (push_all ps (reassembler_new timeout max_size max_messages max_bytes))))) \<le> max_messages"
proof -
  define r where "r = fst (push_all ps (reassembler_new timeout max_size max_messages max_bytes))"
  have "reassembler_ok (reassembler_new timeout max_size max_messages max_bytes)"
    by (simp add: reassembler_ok_def reassembler_new_def total_received_def fcard.rep_eq)
  then have ok: "reassembler_ok r" unfolding r_def by (rule push_all_ok)
  have lim: "ra_max_inflight_bytes r = max_bytes" "ra_max_inflight_messages r = max_messages"
    using push_all_limits [of ps] by (simp_all add: r_def reassembler_new_def)
  have "(\<Sum>i \<in> fset (fmdom (assemblies r)). held_bytes (as_fragments (the (fmlookup (assemblies r) i)))) = total_received (assemblies r)"
    unfolding total_received_def
    by (rule sum.cong) (use ok in \<open>auto simp: reassembler_ok_def assembly_ok_def fmlookup_dom_iff\<close>)
  then show ?thesis using ok lim unfolding r_def [symmetric] by (simp add: reassembler_ok_def)
qed

end
