(* ===== verification/Mesh_Transport.thy ===== *)
theory Mesh_Transport
  imports Mesh_Framing
begin

text \<open>
  The peer byte transport, after \<open>mesh/src/transport.rs\<close>: one shared fragmenter and, for each connected
  peer, a reassembler and a bounded outbound queue. A \<open>NostrFrame\<close> is its UTF-8 bytes. The JSON reader
  is a parameter: \<open>json_array b\<close> is \<open>None\<close> when \<open>serde_json::from_str\<close> fails on the text \<open>b\<close>, and
  otherwise says whether the value is an array. The theory composes fragmenter, queue and
  reassembler: what one side sends, the other receives.
\<close>

section \<open>State and operations\<close>

record transport_config =
  tc_max_message_size :: nat
  tc_reassembly_timeout :: nat
  tc_max_inflight_messages :: nat
  tc_max_inflight_bytes :: nat
  tc_max_outbound_frames :: nat
  tc_max_outbound_bytes :: nat

text \<open>The default, with a millisecond as the tick.\<close>

definition transport_config_default :: transport_config where
  "transport_config_default = \<lparr>tc_max_message_size = 64 * 1024, tc_reassembly_timeout = 30000,
     tc_max_inflight_messages = 8, tc_max_inflight_bytes = 256 * 1024, tc_max_outbound_frames = 1024,
     tc_max_outbound_bytes = 512 * 1024\<rparr>"

record peer_link =
  pl_mtu :: nat
  pl_reassembler :: reassembler
  pl_outbound :: outbound_queue

record mesh_byte_transport =
  mt_config :: transport_config
  mt_fragmenter :: fragmenter
  mt_peers :: "(string, peer_link) fmap"

definition transport_new :: "transport_config \<Rightarrow> mesh_byte_transport" where
  "transport_new cfg = \<lparr>mt_config = cfg, mt_fragmenter = fragmenter_new (tc_max_message_size cfg), mt_peers = fmempty\<rparr>"

definition peer_connected :: "string \<Rightarrow> nat \<Rightarrow> mesh_byte_transport \<Rightarrow> mesh_byte_transport \<times> (mesh_error + unit)" where
  "peer_connected peer mtu t =
     (if mtu \<le> 17 then (t, Err (Frame ''peer MTU too small''))
      else let c = mt_config t in
        (t\<lparr>mt_peers := fmupd peer
             \<lparr>pl_mtu = mtu,
              pl_reassembler = reassembler_new (tc_reassembly_timeout c) (tc_max_message_size c)
                (tc_max_inflight_messages c) (tc_max_inflight_bytes c),
              pl_outbound = outbound_new (tc_max_outbound_frames c) (tc_max_outbound_bytes c)\<rparr>
             (mt_peers t)\<rparr>, Ok ()))"

definition peer_disconnected :: "string \<Rightarrow> mesh_byte_transport \<Rightarrow> mesh_byte_transport" where
  "peer_disconnected peer t = t\<lparr>mt_peers := fmdrop peer (mt_peers t)\<rparr>"

definition unknown_peer :: "string \<Rightarrow> mesh_error" where
  "unknown_peer peer = Frame (''unknown peer '' @ peer)"

definition send :: "string \<Rightarrow> bytes \<Rightarrow> mesh_byte_transport \<Rightarrow> mesh_byte_transport \<times> (mesh_error + unit)" where
  "send peer frame t =
     (case fmlookup (mt_peers t) peer of
        None \<Rightarrow> (t, Err (unknown_peer peer))
      | Some p \<Rightarrow>
          (case fragment_message frame (pl_mtu p) (mt_fragmenter t) of
             (fg, Err e) \<Rightarrow> (t\<lparr>mt_fragmenter := fg\<rparr>, Err e)
           | (fg, Ok fragments) \<Rightarrow>
               (case enqueue fragments (pl_outbound p) of
                  (q, res) \<Rightarrow>
                    (t\<lparr>mt_fragmenter := fg, mt_peers := fmupd peer (p\<lparr>pl_outbound := q\<rparr>) (mt_peers t)\<rparr>, res))))"

definition pop_outbound :: "string \<Rightarrow> mesh_byte_transport \<Rightarrow> mesh_byte_transport \<times> bytes option" where
  "pop_outbound peer t =
     (case fmlookup (mt_peers t) peer of
        None \<Rightarrow> (t, None)
      | Some p \<Rightarrow>
          (case pop (pl_outbound p) of
             (q, f) \<Rightarrow> (t\<lparr>mt_peers := fmupd peer (p\<lparr>pl_outbound := q\<rparr>) (mt_peers t)\<rparr>, f)))"

definition frame_from_string :: "(bytes \<Rightarrow> bool option) \<Rightarrow> bytes \<Rightarrow> mesh_error + bytes" where
  "frame_from_string json_array frame =
     (case json_array frame of
        None \<Rightarrow> Err JsonError
      | Some arr \<Rightarrow> if arr then Ok frame else Err InvalidFrame)"

definition receive ::
  "(bytes \<Rightarrow> bool option) \<Rightarrow> string \<Rightarrow> bytes \<Rightarrow> nat \<Rightarrow> mesh_byte_transport
   \<Rightarrow> mesh_byte_transport \<times> (mesh_error + bytes option)" where
  "receive json_array peer b now t =
     (case fmlookup (mt_peers t) peer of
        None \<Rightarrow> (t, Err (unknown_peer peer))
      | Some p \<Rightarrow>
          (case push b now (pl_reassembler p) of
             (r, res) \<Rightarrow>
               (t\<lparr>mt_peers := fmupd peer (p\<lparr>pl_reassembler := r\<rparr>) (mt_peers t)\<rparr>,
                case res of
                  Err e \<Rightarrow> Err e
                | Ok None \<Rightarrow> Ok None
                | Ok (Some message) \<Rightarrow>
                    if \<not> utf8_valid message then Err (Frame ''Nostr frame is not UTF-8'')
                    else (case frame_from_string json_array message of
                       Err e \<Rightarrow> Err e | Ok f \<Rightarrow> Ok (Some f)))))"

definition connected_peer_count :: "mesh_byte_transport \<Rightarrow> nat" where
  "connected_peer_count t = fcard (fmdom (mt_peers t))"

section \<open>Draining and delivering\<close>

fun pop_n :: "nat \<Rightarrow> string \<Rightarrow> mesh_byte_transport \<Rightarrow> mesh_byte_transport \<times> bytes list" where
  "pop_n 0 peer t = (t, [])"
| "pop_n (Suc n) peer t =
     (case pop_outbound peer t of
        (t', None) \<Rightarrow> (t', [])
      | (t', Some f) \<Rightarrow> (case pop_n n peer t' of (t'', fs) \<Rightarrow> (t'', f # fs)))"

fun receive_all ::
  "(bytes \<Rightarrow> bool option) \<Rightarrow> string \<Rightarrow> (bytes \<times> nat) list \<Rightarrow> mesh_byte_transport
   \<Rightarrow> mesh_byte_transport \<times> (mesh_error + bytes option) list" where
  "receive_all ja peer [] t = (t, [])"
| "receive_all ja peer ((b, now) # ps) t =
     (case receive ja peer b now t of (t', res) \<Rightarrow>
        (case receive_all ja peer ps t' of (t'', ress) \<Rightarrow> (t'', res # ress)))"

definition queue_ok :: "outbound_queue \<Rightarrow> bool" where
  "queue_ok q \<longleftrightarrow> oq_bytes q = sum_list (map length (oq_frames q)) \<and> oq_bytes q \<le> oq_max_bytes q \<and>
     length (oq_frames q) \<le> oq_max_frames q"

lemma enqueue_ok: "queue_ok q \<Longrightarrow> queue_ok (fst (enqueue fs q))"
  by (auto simp: queue_ok_def enqueue_def Let_def)

lemma pop_ok: "queue_ok q \<Longrightarrow> queue_ok (fst (pop q))"
  by (auto simp: queue_ok_def pop_def split: list.splits)

lemma pop_n_fifo:
  assumes "fmlookup (mt_peers t) peer = Some p" "oq_frames (pl_outbound p) = fs @ rest"
  shows "snd (pop_n (length fs) peer t) = fs \<and>
    (\<exists>p'. fmlookup (mt_peers (fst (pop_n (length fs) peer t))) peer = Some p' \<and> oq_frames (pl_outbound p') = rest)"
  using assms
proof (induction fs arbitrary: t p)
  case (Cons f fs)
  define p1 where "p1 = p\<lparr>pl_outbound := fst (pop (pl_outbound p))\<rparr>"
  define t1 where "t1 = t\<lparr>mt_peers := fmupd peer p1 (mt_peers t)\<rparr>"
  have step: "pop_outbound peer t = (t1, Some f)"
    using Cons.prems by (simp add: pop_outbound_def pop_def t1_def p1_def)
  have "fmlookup (mt_peers t1) peer = Some p1" "oq_frames (pl_outbound p1) = fs @ rest"
    using Cons.prems(2) by (simp_all add: t1_def p1_def pop_def)
  from Cons.IH [OF this] show ?case by (simp add: step case_prod_beta)
qed simp

lemma send_enqueues:
  assumes "send peer frame t = (t', Ok ())" "fmlookup (mt_peers t) peer = Some p"
  shows "\<exists>fg fs. fragment_message frame (pl_mtu p) (mt_fragmenter t) = (fg, Ok fs) \<and>
    (\<exists>p'. fmlookup (mt_peers t') peer = Some p' \<and> oq_frames (pl_outbound p') = oq_frames (pl_outbound p) @ fs)"
proof -
  obtain fg res where fr: "fragment_message frame (pl_mtu p) (mt_fragmenter t) = (fg, res)" by fastforce
  obtain fs where fs: "res = Ok fs" using assms fr by (cases res) (auto simp: send_def)
  have "oq_frames (fst (enqueue fs (pl_outbound p))) = oq_frames (pl_outbound p) @ fs"
    using assms fr fs by (auto simp: send_def enqueue_def Let_def split: if_splits prod.splits)
  then show ?thesis using assms fr fs by (auto simp: send_def split: prod.splits)
qed

lemma receive_all_push:
  assumes "fmlookup (mt_peers t) peer = Some p" "push_all ps (pl_reassembler p) = (r', ress)"
  shows "receive_all ja peer ps t =
    (t\<lparr>mt_peers := fmupd peer (p\<lparr>pl_reassembler := r'\<rparr>) (mt_peers t)\<rparr>,
     map (\<lambda>res. case res of Err e \<Rightarrow> Err e | Ok None \<Rightarrow> Ok None
        | Ok (Some m) \<Rightarrow> if \<not> utf8_valid m then Err (Frame ''Nostr frame is not UTF-8'')
            else (case frame_from_string ja m of Err e \<Rightarrow> Err e | Ok f \<Rightarrow> Ok (Some f))) ress)"
  using assms
proof (induction ps arbitrary: t p ress)
  case Nil
  moreover have "fmupd peer p (mt_peers t) = mt_peers t" using Nil.prems(1) by (intro fmap_ext) auto
  ultimately show ?case by auto
next
  case (Cons b ps)
  obtain x now where b: "b = (x, now)" by fastforce
  obtain r1 res where 1: "push x now (pl_reassembler p) = (r1, res)" by fastforce
  obtain ress' where 2: "push_all ps r1 = (r', ress')" "ress = res # ress'"
    using Cons.prems(2) by (auto simp: b 1 split: prod.splits)
  define p1 where "p1 = p\<lparr>pl_reassembler := r1\<rparr>"
  define t1 where "t1 = t\<lparr>mt_peers := fmupd peer p1 (mt_peers t)\<rparr>"
  have "fmlookup (mt_peers t1) peer = Some p1" "push_all ps (pl_reassembler p1) = (r', ress')"
    using 2(1) by (simp_all add: t1_def p1_def)
  note ih = Cons.IH [OF this]
  show ?case
    using Cons.prems(1) by (simp add: b receive_def 1 2(2) ih [unfolded t1_def p1_def])
qed

section \<open>Properties\<close>

text \<open>C12. A sent frame is delivered: when a side sends a well-formed frame to a peer whose queue was
  empty, draining the queue and handing the fragments to the other side before they time out gives
  exactly that frame with the last fragment and nothing before, and leaves the receiver as it was.\<close>
theorem sent_frame_delivered:
  assumes "send peer frame a = (a', Ok ())" and "fmlookup (mt_peers a) peer = Some la"
    and "oq_frames (pl_outbound la) = []" and "pl_mtu la \<le> HEADER_LEN + 65535" and "length frame < 2 ^ 32"
    and "utf8_valid frame" and "json_array frame = Some True"
    and "fmlookup (mt_peers b) self = Some lb" and "fresh_from T (pl_reassembler lb)"
    and "fits_reassembler (next_message_id (mt_fragmenter a)) [frame] (pl_reassembler lb)"
  shows "\<exists>fs. fs \<noteq> [] \<and> snd (pop_n (length fs) peer a') = fs \<and>
    (\<forall>ts. length ts = length fs \<longrightarrow> (\<forall>t \<in> set ts. T \<le> t \<and> t < T + ra_timeout (pl_reassembler lb)) \<longrightarrow>
       receive_all json_array self (zip fs ts) b = (b, map Ok (replicate (length fs - 1) None @ [Some frame])))"
proof -
  obtain fg fs p' where f: "fragment_message frame (pl_mtu la) (mt_fragmenter a) = (fg, Ok fs)"
    "fmlookup (mt_peers a') peer = Some p'" "oq_frames (pl_outbound p') = fs"
    using send_enqueues [OF assms(1,2)] assms(3) by auto
  have pop: "snd (pop_n (length fs) peer a') = fs" using pop_n_fifo [OF f(2), of fs "[]"] f(3) by simp
  have ne: "fs \<noteq> []"
    using fragment_message_pieces [OF f(1) assms(4,5)] by (auto simp: sendable_def)
  have "receive_all json_array self (zip fs ts) b = (b, map Ok (replicate (length fs - 1) None @ [Some frame]))"
    if ts: "length ts = length fs" "\<forall>t \<in> set ts. T \<le> t \<and> t < T + ra_timeout (pl_reassembler lb)" for ts
  proof -
    have "push_all (zip fs ts) (pl_reassembler lb) =
        (pl_reassembler lb, map Ok (replicate (length fs - 1) None @ [Some frame]))"
      by (rule reassemble_any_order [OF f(1) assms(4,5,10,9) refl ts])
    moreover have "fmupd self (lb\<lparr>pl_reassembler := pl_reassembler lb\<rparr>) (mt_peers b) = mt_peers b"
      using assms(8) by (intro fmap_ext) auto
    ultimately show ?thesis
      using assms(6,7) by (simp add: receive_all_push [OF assms(8)] frame_from_string_def)
  qed
  then show ?thesis using pop ne by blast
qed

definition example_transport :: mesh_byte_transport where
  "example_transport = fst (peer_connected ''peer'' 20 (transport_new transport_config_default))"

definition example_json :: "bytes \<Rightarrow> bool option" where
  "example_json b = (if b = [91, 49, 93] then Some True else None)"

lemma example_link:
  "fmlookup (mt_peers example_transport) ''peer'' = Some \<lparr>pl_mtu = 20, pl_reassembler = reassembler_new 30000 65536 8 262144,
     pl_outbound = outbound_new 1024 524288\<rparr>"
  "mt_fragmenter example_transport = fragmenter_new 65536"
  by (simp_all add: example_transport_def peer_connected_def transport_new_def transport_config_default_def Let_def)

lemma example_send: "\<exists>t'. send ''peer'' [91, 49, 93] example_transport = (t', Ok ())"
proof -
  have "chunks 3 [91, 49, 93 :: u8] = [[91, 49, 93]]" by (simp add: chunks.simps)
  then show ?thesis
    by (simp add: send_def example_link fragment_message_def fragmenter_new_def HEADER_LEN_def div_ceil_def Let_def
        enqueue_def outbound_new_def fragment_encode_length)
qed

theorem sent_frame_delivered_witness:
  "\<exists>a' fs. send ''peer'' [91, 49, 93] example_transport = (a', Ok ()) \<and> snd (pop_n (length fs) ''peer'' a') = fs \<and>
    receive_all example_json ''peer'' (zip fs (replicate (length fs) 7)) example_transport =
      (example_transport, map Ok (replicate (length fs - 1) None @ [Some [91, 49, 93]]))"
proof -
  obtain a' where a': "send ''peer'' [91, 49, 93] example_transport = (a', Ok ())" using example_send by blast
  have 1: "utf8_valid [91, 49, 93]" "example_json [91, 49, 93] = Some True" by (simp_all add: example_json_def)
  have 2: "fresh_from 7 (reassembler_new 30000 65536 8 262144)"
    "fits_reassembler (next_message_id (mt_fragmenter example_transport)) [[91, 49, 93]] (reassembler_new 30000 65536 8 262144)"
    by (simp_all add: fresh_from_def fits_reassembler_def reassembler_new_def fcard.rep_eq)
  have "\<exists>fs. fs \<noteq> [] \<and> snd (pop_n (length fs) ''peer'' a') = fs \<and>
    (\<forall>ts. length ts = length fs \<longrightarrow> (\<forall>t \<in> set ts. 7 \<le> t \<and> t < 7 + 30000) \<longrightarrow>
       receive_all example_json ''peer'' (zip fs ts) example_transport =
         (example_transport, map Ok (replicate (length fs - 1) None @ [Some [91, 49, 93]])))"
    using sent_frame_delivered [where json_array = example_json and T = 7, OF a' example_link(1) _ _ _ 1 example_link(1)] 2
    by (simp add: outbound_new_def HEADER_LEN_def reassembler_new_def)
  then show ?thesis using a' by (metis (no_types, lifting) in_set_replicate length_replicate le_refl less_add_same_cancel1 zero_less_numeral)
qed

end
