(* ===== verification/Utf8.thy ===== *)
theory Utf8
  imports Prelude
begin

text \<open>
  Lossy decoding of UTF-8, the behaviour of \<open>String::from_utf8_lossy\<close> of Rust's standard library: a
  Rust \<open>String\<close> is the list of its bytes, and every maximal ill-formed prefix of a character is
  replaced by the three bytes of U+FFFD. Shown are that valid text is unchanged and that the result is
  always valid.
\<close>

definition utf8_second_ok :: "u8 \<Rightarrow> u8 \<Rightarrow> bool" where
  "utf8_second_ok b c =
     (utf8_cont c \<and> (b = 0xE0 \<longrightarrow> 0xA0 \<le> c) \<and> (b = 0xED \<longrightarrow> c \<le> 0x9F)
      \<and> (b = 0xF0 \<longrightarrow> 0x90 \<le> c) \<and> (b = 0xF4 \<longrightarrow> c \<le> 0x8F))"

text \<open>
  \<open>utf8_head bs\<close> reads the first character of a non-empty \<open>bs\<close>: whether it is well formed, and how many
  bytes it or its ill-formed prefix takes.
\<close>

fun head_two :: "bytes \<Rightarrow> bool \<times> nat" where
  "head_two (c # _) = (if utf8_cont c then (True, 2) else (False, 1))"
| "head_two [] = (False, 1)"

fun head_three :: "u8 \<Rightarrow> bytes \<Rightarrow> bool \<times> nat" where
  "head_three b (c1 # c2 # _) =
     (if \<not> utf8_second_ok b c1 then (False, 1) else if \<not> utf8_cont c2 then (False, 2) else (True, 3))"
| "head_three b [c1] = (False, if utf8_second_ok b c1 then 2 else 1)"
| "head_three b [] = (False, 1)"

fun head_four :: "u8 \<Rightarrow> bytes \<Rightarrow> bool \<times> nat" where
  "head_four b (c1 # c2 # c3 # _) =
     (if \<not> utf8_second_ok b c1 then (False, 1) else if \<not> utf8_cont c2 then (False, 2)
      else if \<not> utf8_cont c3 then (False, 3) else (True, 4))"
| "head_four b [c1, c2] =
     (False, if \<not> utf8_second_ok b c1 then 1 else if \<not> utf8_cont c2 then 2 else 3)"
| "head_four b [c1] = (False, if utf8_second_ok b c1 then 2 else 1)"
| "head_four b [] = (False, 1)"

fun utf8_head :: "bytes \<Rightarrow> bool \<times> nat" where
  "utf8_head [] = (True, 0)"
| "utf8_head (b # bs) =
     (if b < 0x80 then (True, 1)
      else if 0xC2 \<le> b \<and> b \<le> 0xDF then head_two bs
      else if 0xE0 \<le> b \<and> b \<le> 0xEF then head_three b bs
      else if 0xF0 \<le> b \<and> b \<le> 0xF4 then head_four b bs
      else (False, 1))"

lemma head_pos [simp]: "0 < snd (head_two bs)" "0 < snd (head_three b bs)" "0 < snd (head_four b bs)"
  subgoal by (cases bs) simp_all
  subgoal by (cases "(b, bs)" rule: head_three.cases) simp_all
  subgoal by (cases "(b, bs)" rule: head_four.cases) simp_all
  done

lemma utf8_head_pos: "bs \<noteq> [] \<Longrightarrow> 0 < snd (utf8_head bs)"
  by (cases bs) auto

definition replacement :: bytes where
  "replacement = [0xEF, 0xBF, 0xBD]"

function from_utf8_lossy :: "bytes \<Rightarrow> bytes" where
  "from_utf8_lossy bs =
     (if bs = [] then []
      else (if fst (utf8_head bs) then take (snd (utf8_head bs)) bs else replacement)
           @ from_utf8_lossy (drop (snd (utf8_head bs)) bs))"
  by pat_completeness auto
termination
  by (relation "measure length") (auto simp: utf8_head_pos)

declare from_utf8_lossy.simps [simp del]

lemma from_utf8_lossy_Nil [simp]: "from_utf8_lossy [] = []"
  by (simp add: from_utf8_lossy.simps)

lemma second_ok_three:
  "b \<le> 0xEF \<Longrightarrow> utf8_second_ok b c =
     (utf8_cont c \<and> (b = 0xE0 \<longrightarrow> 0xA0 \<le> c) \<and> (b = 0xED \<longrightarrow> c \<le> 0x9F))"
  unfolding utf8_second_ok_def by (cases "b = 0xF0"; cases "b = 0xF4") simp_all

lemma second_ok_four:
  "0xF0 \<le> b \<Longrightarrow> utf8_second_ok b c =
     (utf8_cont c \<and> (b = 0xF0 \<longrightarrow> 0x90 \<le> c) \<and> (b = 0xF4 \<longrightarrow> c \<le> 0x8F))"
  unfolding utf8_second_ok_def by (cases "b = 0xE0"; cases "b = 0xED") simp_all

text \<open>The five kinds of lead byte, with the guards in the order the decoder tests them.\<close>

lemma utf8_lead_cases:
  obtains (ascii) "b < (0x80 :: u8)"
    | (two) "\<not> b < 0x80" "0xC2 \<le> b \<and> b \<le> 0xDF"
    | (three) "\<not> b < 0x80" "\<not> (0xC2 \<le> b \<and> b \<le> 0xDF)" "0xE0 \<le> b \<and> b \<le> 0xEF"
    | (four) "\<not> b < 0x80" "\<not> (0xC2 \<le> b \<and> b \<le> 0xDF)" "\<not> (0xE0 \<le> b \<and> b \<le> 0xEF)"
        "0xF0 \<le> b \<and> b \<le> 0xF4"
    | (bad) "\<not> b < 0x80" "\<not> (0xC2 \<le> b \<and> b \<le> 0xDF)" "\<not> (0xE0 \<le> b \<and> b \<le> 0xEF)"
        "\<not> (0xF0 \<le> b \<and> b \<le> 0xF4)"
  by blast

lemma utf8_valid_step:
  assumes "bs \<noteq> []"
  shows "utf8_valid bs = (fst (utf8_head bs) \<and> utf8_valid (drop (snd (utf8_head bs)) bs))"
proof -
  obtain b r where bs: "bs = b # r" using assms by (cases bs) auto
  note unf = bs utf8_valid.simps(2) utf8_head.simps(2)
  show ?thesis
  proof (cases b rule: utf8_lead_cases)
    case ascii
    then show ?thesis by (simp add: bs)
  next
    case two
    show ?thesis unfolding unf if_not_P [OF two(1)] if_P [OF two(2)]
      by (cases r) (simp_all del: utf8_cont.simps)
  next
    case three
    show ?thesis unfolding unf if_not_P [OF three(1)] if_not_P [OF three(2)] if_P [OF three(3)]
      by (cases "(b, r)" rule: head_three.cases)
        (simp_all add: second_ok_three [OF conjunct2 [OF three(3)]] del: utf8_cont.simps, blast)
  next
    case four
    show ?thesis
      unfolding unf if_not_P [OF four(1)] if_not_P [OF four(2)] if_not_P [OF four(3)] if_P [OF four(4)]
      by (cases "(b, r)" rule: head_four.cases)
        (simp_all add: second_ok_four [OF conjunct1 [OF four(4)]] del: utf8_cont.simps, blast)
  next
    case bad
    show ?thesis
      unfolding unf if_not_P [OF bad(1)] if_not_P [OF bad(2)] if_not_P [OF bad(3)] if_not_P [OF bad(4)] by simp
  qed
qed

lemma head_append:
  "fst (head_two s) \<Longrightarrow> head_two (take (snd (head_two s) - 1) s @ r) = head_two s \<and> snd (head_two s) \<le> Suc (length s)"
  "fst (head_three b s) \<Longrightarrow>
     head_three b (take (snd (head_three b s) - 1) s @ r) = head_three b s \<and> snd (head_three b s) \<le> Suc (length s)"
  "fst (head_four b s) \<Longrightarrow>
     head_four b (take (snd (head_four b s) - 1) s @ r) = head_four b s \<and> snd (head_four b s) \<le> Suc (length s)"
  subgoal by (cases s rule: head_two.cases) (simp_all del: utf8_cont.simps split: if_splits)
  subgoal by (cases "(b, s)" rule: head_three.cases) (simp_all del: utf8_cont.simps split: if_splits)
  subgoal by (cases "(b, s)" rule: head_four.cases) (simp_all del: utf8_cont.simps split: if_splits)
  done

lemma utf8_head_append:
  assumes "fst (utf8_head bs)" "bs \<noteq> []"
  shows "utf8_head (take (snd (utf8_head bs)) bs @ r) = utf8_head bs \<and> snd (utf8_head bs) \<le> length bs"
proof -
  obtain b s where bs: "bs = b # s" using assms(2) by (cases bs) auto
  have cons: "0 < n \<Longrightarrow> take n bs @ r = b # take (n - 1) s @ r" for n by (cases n) (simp_all add: bs)
  show ?thesis
  proof (cases b rule: utf8_lead_cases)
    case ascii
    then show ?thesis by (simp add: bs)
  next
    case two
    have "utf8_head (b # t) = head_two t" for t
      unfolding utf8_head.simps(2) if_not_P [OF two(1)] if_P [OF two(2)] ..
    then show ?thesis using assms(1) head_append(1) by (simp add: bs cons [unfolded bs] del: utf8_head.simps)
  next
    case three
    have "utf8_head (b # t) = head_three b t" for t
      unfolding utf8_head.simps(2) if_not_P [OF three(1)] if_not_P [OF three(2)] if_P [OF three(3)] ..
    then show ?thesis using assms(1) head_append(2) by (simp add: bs cons [unfolded bs] del: utf8_head.simps)
  next
    case four
    have "utf8_head (b # t) = head_four b t" for t
      unfolding utf8_head.simps(2) if_not_P [OF four(1)] if_not_P [OF four(2)] if_not_P [OF four(3)] if_P [OF four(4)] ..
    then show ?thesis using assms(1) head_append(3) by (simp add: bs cons [unfolded bs] del: utf8_head.simps)
  next
    case bad
    have "utf8_head bs = (False, 1)"
      unfolding bs utf8_head.simps(2) if_not_P [OF bad(1)] if_not_P [OF bad(2)] if_not_P [OF bad(3)] if_not_P [OF bad(4)] ..
    then show ?thesis using assms(1) by simp
  qed
qed

lemma utf8_valid_take_head:
  assumes "fst (utf8_head bs)" "bs \<noteq> []"
  shows "utf8_valid (take (snd (utf8_head bs)) bs @ r) = utf8_valid r"
proof -
  have "take (snd (utf8_head bs)) bs @ r \<noteq> []" using utf8_head_pos [OF assms(2)] assms(2) by auto
  then show ?thesis
    using utf8_head_append [OF assms, of r] assms(1) utf8_valid_step [of "take (snd (utf8_head bs)) bs @ r"]
    by simp
qed

lemma from_utf8_lossy_valid: "utf8_valid bs \<Longrightarrow> from_utf8_lossy bs = bs"
proof (induction bs rule: from_utf8_lossy.induct)
  case (1 bs)
  then show ?case
    using utf8_valid_step [of bs] by (cases "bs = []") (auto simp: from_utf8_lossy.simps [of bs])
qed

lemma utf8_valid_replacement: "utf8_valid (replacement @ r) = utf8_valid r"
  by (simp add: replacement_def)

lemma utf8_valid_lossy [simp]: "utf8_valid (from_utf8_lossy bs)"
proof (induction bs rule: from_utf8_lossy.induct)
  case (1 bs)
  then show ?case
    by (cases "bs = []")
      (auto simp: from_utf8_lossy.simps [of bs] utf8_valid_take_head utf8_valid_replacement)
qed

end
