(* ===== verification/Batch_Buffer.thy ===== *)
theory Batch_Buffer
  imports Utf8
begin

text \<open>
  Batching of frames on the worker channels, after \<open>core/src/worker/batch_buffer.rs\<close>: the
  per-subscription buffer with its size and age thresholds, the manager, the tagged and batched wire
  formats and the two magics of the connections channel. The clock value \<open>now_millis()\<close> is an argument,
  and the order in which the hash map yields its keys is chosen by the step. The theory shows that the
  formats round-trip, that a run of the manager delivers every message once and in order as long as no
  single frame reaches the threshold, that buffers and payloads stay below it, and that a larger frame
  loses what was buffered before it.
\<close>

section \<open>Buffers\<close>

definition BATCH_SIZE_THRESHOLD :: nat where
  "BATCH_SIZE_THRESHOLD = 16 * 1024"

definition BATCH_TIMEOUT_MS :: nat where
  "BATCH_TIMEOUT_MS = 8"

record batch_buffer =
  bb_buf :: bytes
  bb_first_at :: nat

definition batch_buffer_new :: batch_buffer where
  "batch_buffer_new = \<lparr>bb_buf = [], bb_first_at = 0\<rparr>"

definition add_frame :: "bytes \<Rightarrow> nat \<Rightarrow> batch_buffer \<Rightarrow> batch_buffer \<times> bytes option" where
  "add_frame frame now b =
     (let (pending, b) =
            (if bb_buf b \<noteq> [] \<and> length (bb_buf b) + length frame > BATCH_SIZE_THRESHOLD
             then (Some (bb_buf b), b\<lparr>bb_buf := []\<rparr>)
             else (None, b));
          b = (if bb_buf b = [] then b\<lparr>bb_first_at := now\<rparr> else b);
          b = b\<lparr>bb_buf := bb_buf b @ frame\<rparr>
      in if length (bb_buf b) \<ge> BATCH_SIZE_THRESHOLD then (b\<lparr>bb_buf := []\<rparr>, Some (bb_buf b))
         else (b, pending))"

definition timed_out :: "nat \<Rightarrow> batch_buffer \<Rightarrow> bool" where
  "timed_out now b = (bb_buf b \<noteq> [] \<and> now - bb_first_at b \<ge> BATCH_TIMEOUT_MS)"

definition take_buffer :: "batch_buffer \<Rightarrow> batch_buffer \<times> bytes option" where
  "take_buffer b = (if bb_buf b = [] then (b, None) else (b\<lparr>bb_buf := []\<rparr>, Some (bb_buf b)))"

section \<open>Tagged frames\<close>

definition encode_tagged :: "bytes \<Rightarrow> bytes \<Rightarrow> bytes" where
  "encode_tagged sub_id data = u32_to_le_bytes (of_nat (length sub_id)) @ sub_id @ data"

definition decode_tagged :: "bytes \<Rightarrow> (bytes \<times> bytes) option" where
  "decode_tagged b =
     (if length b < 4 then None
      else
        (let sub_len = read_le32 b 0
         in if length b < 4 + sub_len then None
            else Some (from_utf8_lossy (subslice b 4 (4 + sub_len)), drop (4 + sub_len) b)))"

function decode_batch_loop :: "bytes \<Rightarrow> nat \<Rightarrow> (bytes \<times> bytes) list \<Rightarrow> (bytes \<times> bytes) list" where
  "decode_batch_loop b offset frames =
     (if offset + 4 \<le> length b then
        (let len = read_le32 b offset
         in if len = 0 \<or> offset + 4 + len > length b then frames
            else decode_batch_loop b (offset + 4 + len)
                   (case decode_tagged (subslice b (offset + 4) (offset + 4 + len)) of
                      Some frame \<Rightarrow> frames @ [frame]
                    | None \<Rightarrow> frames))
      else frames)"
  by pat_completeness auto
termination
  by (relation "measure (\<lambda>(b, offset, _). length b - offset)") auto

declare decode_batch_loop.simps [simp del]

definition decode_tagged_batch :: "bytes \<Rightarrow> (bytes \<times> bytes) list" where
  "decode_tagged_batch b = decode_batch_loop b 0 []"

section \<open>The manager\<close>

type_synonym batch_buffer_manager = "(bytes, batch_buffer) fmap"

definition manager_new :: batch_buffer_manager where
  "manager_new = fmempty"

definition add_message :: "bytes \<Rightarrow> bytes \<Rightarrow> nat \<Rightarrow> batch_buffer_manager \<Rightarrow> batch_buffer_manager \<times> bytes option" where
  "add_message sub_id data now m =
     (let tagged = encode_tagged sub_id data;
          frame = u32_to_le_bytes (of_nat (length tagged)) @ tagged;
          entry = (case fmlookup m sub_id of Some b \<Rightarrow> b | None \<Rightarrow> batch_buffer_new);
          (entry', payload) = add_frame frame now entry
      in (fmupd sub_id entry' m, payload))"

definition flush_sub :: "bytes \<Rightarrow> batch_buffer_manager \<Rightarrow> batch_buffer_manager \<times> bytes option" where
  "flush_sub sub_id m =
     (case fmlookup m sub_id of
        None \<Rightarrow> (m, None)
      | Some b \<Rightarrow>
          (case take_buffer b of
             (_, Some payload) \<Rightarrow> (fmdrop sub_id m, Some payload)
           | (b', None) \<Rightarrow> (fmupd sub_id b' m, None)))"

fun flush_all :: "bytes list \<Rightarrow> batch_buffer_manager \<Rightarrow> batch_buffer_manager \<times> bytes list" where
  "flush_all [] m = (m, [])"
| "flush_all (k # ks) m =
     (let (m, payload) = flush_sub k m; (m, out) = flush_all ks m
      in (m, (case payload of Some p \<Rightarrow> p # out | None \<Rightarrow> out)))"

text \<open>\<open>order\<close> is the order in which the hash map yields its keys.\<close>

definition drain_timed_out :: "bytes list \<Rightarrow> nat \<Rightarrow> batch_buffer_manager \<Rightarrow> batch_buffer_manager \<times> bytes list" where
  "drain_timed_out order now m =
     flush_all (filter (\<lambda>k. case fmlookup m k of Some b \<Rightarrow> timed_out now b | None \<Rightarrow> False) order) m"

section \<open>The connections channel\<close>

definition CONN_BATCH_MAGIC :: bytes where
  "CONN_BATCH_MAGIC = [0xFF, 0xFF, 0xFF, 0xFF]"

definition CONN_RAW_BATCH_MAGIC :: bytes where
  "CONN_RAW_BATCH_MAGIC = [0xFE, 0xFF, 0xFF, 0xFF]"

record conn_batch =
  raw_events :: bool
  cb_frames :: "(bytes \<times> bytes) list"

definition wrap_conn_batch :: "bytes \<Rightarrow> bytes \<Rightarrow> bytes" where
  "wrap_conn_batch magic payload = magic @ payload"

definition encode_conn_batch :: "bytes \<Rightarrow> bytes" where
  "encode_conn_batch payload = wrap_conn_batch CONN_BATCH_MAGIC payload"

definition encode_raw_conn_batch :: "bytes \<Rightarrow> bytes" where
  "encode_raw_conn_batch payload = wrap_conn_batch CONN_RAW_BATCH_MAGIC payload"

definition decode_conn_batch :: "bytes \<Rightarrow> conn_batch option" where
  "decode_conn_batch b =
     (if length b < 4 then None
      else if take 4 b = CONN_BATCH_MAGIC
        then Some \<lparr>raw_events = False, cb_frames = decode_tagged_batch (drop 4 b)\<rparr>
      else if take 4 b = CONN_RAW_BATCH_MAGIC
        then Some \<lparr>raw_events = True, cb_frames = decode_tagged_batch (drop 4 b)\<rparr>
      else None)"

section \<open>Round trips\<close>

text \<open>A message that the formats can carry: a UTF-8 subscription id, and lengths that fit their fields.\<close>

definition carriable :: "bytes \<times> bytes \<Rightarrow> bool" where
  "carriable m = (utf8_valid (fst m) \<and> 4 + length (fst m) + length (snd m) < 2 ^ 32)"

definition frame_of :: "bytes \<times> bytes \<Rightarrow> bytes" where
  "frame_of m = lp_record (encode_tagged (fst m) (snd m))"

lemma length_encode_tagged [simp]: "length (encode_tagged s d) = 4 + length s + length d"
  by (simp add: encode_tagged_def)

lemma frame_of_nonempty [simp]: "frame_of m \<noteq> []"
  by (simp add: frame_of_def lp_record_def encode_tagged_def u32_to_le_bytes_def u32_to_be_bytes_def)

lemma encode_tagged_nonempty [simp]: "encode_tagged s d \<noteq> []"
  by (simp add: encode_tagged_def u32_to_le_bytes_def u32_to_be_bytes_def)

lemma frames_empty_iff [simp]: "concat (map frame_of ms) = [] \<longleftrightarrow> ms = []"
  by (cases ms) simp_all

lemma decode_encode_tagged: "carriable (s, d) \<Longrightarrow> decode_tagged (encode_tagged s d) = Some (s, d)"
  using read_le32_append [of "[]" 0 "of_nat (length s)" "s @ d"]
  by (simp add: decode_tagged_def carriable_def encode_tagged_def subslice_def unat_of_nat
      from_utf8_lossy_valid)

text \<open>The records that the batch decoder sees: it stops at an empty or truncated one.\<close>

function batch_records :: "bytes \<Rightarrow> bytes list" where
  "batch_records b =
     (if 4 \<le> length b \<and> read_le32 b 0 \<noteq> 0 \<and> 4 + read_le32 b 0 \<le> length b
      then subslice b 4 (4 + read_le32 b 0) # batch_records (drop (4 + read_le32 b 0) b)
      else [])"
  by pat_completeness auto
termination
  by (relation "measure length") auto

declare batch_records.simps [simp del]

lemma read_le32_drop: "p \<le> length b \<Longrightarrow> read_le32 (drop p b) 0 = read_le32 b p"
  by (simp add: read_le32_def)

lemma subslice_drop: "subslice (drop p b) i j = subslice b (p + i) (p + j)"
  by (simp add: subslice_def add.commute)

lemma decode_batch_loop_records:
  "offset \<le> length b \<Longrightarrow>
   decode_batch_loop b offset frames = frames @ List.map_filter decode_tagged (batch_records (drop offset b))"
proof (induction "length b - offset" arbitrary: offset frames rule: less_induct)
  case less
  let ?n = "read_le32 b offset"
  show ?case
  proof (cases "offset + 4 \<le> length b \<and> ?n \<noteq> 0 \<and> offset + 4 + ?n \<le> length b")
    case True
    let ?rec = "subslice b (offset + 4) (offset + 4 + ?n)"
    have rec: "batch_records (drop offset b) = ?rec # batch_records (drop (offset + 4 + ?n) b)"
      using True
      by (subst batch_records.simps) (auto simp: read_le32_drop subslice_drop add.commute add.left_commute)
    have "decode_batch_loop b offset frames =
        decode_batch_loop b (offset + 4 + ?n)
          (case decode_tagged ?rec of Some frame \<Rightarrow> frames @ [frame] | None \<Rightarrow> frames)"
      using True by (subst decode_batch_loop.simps) (simp add: Let_def)
    also have "\<dots> = (case decode_tagged ?rec of Some frame \<Rightarrow> frames @ [frame] | None \<Rightarrow> frames)
        @ List.map_filter decode_tagged (batch_records (drop (offset + 4 + ?n) b))"
      using True by (intro less) auto
    finally show ?thesis by (simp add: rec List.map_filter_simps split: option.split)
  next
    case False
    then have "batch_records (drop offset b) = []"
      using less.prems by (subst batch_records.simps) (auto simp: read_le32_drop)
    then show ?thesis
      using False by (subst decode_batch_loop.simps) (auto simp: Let_def List.map_filter_simps)
  qed
qed

lemma decode_tagged_batch_records: "decode_tagged_batch b = List.map_filter decode_tagged (batch_records b)"
  by (simp add: decode_tagged_batch_def decode_batch_loop_records)

lemma batch_records_stream:
  "\<forall>e \<in> set es. e \<noteq> [] \<and> fits_u32 e \<Longrightarrow> batch_records (lp_stream es @ r) = es @ batch_records r"
proof (induction es)
  case (Cons e es)
  then have "read_le32 (lp_stream (e # es) @ r) 0 = length e"
    using read_le32_record [of e "[]" 0 "lp_stream es @ r"] by simp
  moreover have "subslice (lp_stream (e # es) @ r) 4 (4 + length e) = e"
    using subslice_record [of "[]" 0 e "lp_stream es @ r"] by simp
  ultimately show ?case using Cons by (subst batch_records.simps) simp
qed simp

text \<open>Decoding distributes over whole frames in front of any bytes.\<close>

lemma decode_frames_append:
  assumes "\<forall>m \<in> set ms. carriable m"
  shows "decode_tagged_batch (concat (map frame_of ms) @ r) = ms @ decode_tagged_batch r"
proof -
  let ?es = "map (\<lambda>m. encode_tagged (fst m) (snd m)) ms"
  have "concat (map frame_of ms) = lp_stream ?es"
    by (simp add: lp_stream_def frame_of_def [abs_def] comp_def)
  moreover have "\<forall>e \<in> set ?es. e \<noteq> [] \<and> fits_u32 e"
    using assms by (auto simp: carriable_def)
  moreover have "List.map_filter decode_tagged ?es = ms"
    using assms by (induction ms) (auto simp: List.map_filter_simps decode_encode_tagged)
  ultimately show ?thesis
    by (simp add: decode_tagged_batch_records batch_records_stream List.map_filter_def)
qed

lemma decode_frames: "\<forall>m \<in> set ms. carriable m \<Longrightarrow> decode_tagged_batch (concat (map frame_of ms)) = ms"
  using decode_frames_append [of ms "[]"] by (simp add: decode_tagged_batch_def decode_batch_loop.simps)

text \<open>A strict prefix of a frame at the end is ignored.\<close>

lemma batch_records_truncated:
  assumes "fits_u32 e" "n < length (lp_record e)"
  shows "batch_records (take n (lp_record e)) = []"
proof (cases "4 \<le> n")
  case True
  have "take n (lp_record e) = u32_to_le_bytes (of_nat (length e)) @ take (n - 4) e"
    using True by (simp add: lp_record_def)
  then have "read_le32 (take n (lp_record e)) 0 = length e"
    using read_le32_append [of "[]" 0 "of_nat (length e)" "take (n - 4) e"] assms(1)
    by (simp add: unat_of_nat)
  then show ?thesis using assms by (subst batch_records.simps) simp
next
  case False
  then show ?thesis by (subst batch_records.simps) simp
qed

lemma decode_truncated:
  assumes "carriable m" "n < length (frame_of m)"
  shows "decode_tagged_batch (take n (frame_of m)) = []"
  using assms batch_records_truncated [of "encode_tagged (fst m) (snd m)" n]
  by (simp add: decode_tagged_batch_records frame_of_def carriable_def List.map_filter_simps)

section \<open>Runs of the manager\<close>

datatype batch_action = Add bytes bytes nat | Flush bytes | Drain nat

definition emitted :: "'a option \<Rightarrow> 'a list" where
  "emitted p = (case p of Some x \<Rightarrow> [x] | None \<Rightarrow> [])"

inductive batch_step :: "batch_buffer_manager \<Rightarrow> batch_action \<Rightarrow> bytes list \<Rightarrow> batch_buffer_manager \<Rightarrow> bool" where
  step_add: "add_message s d now m = (m', p) \<Longrightarrow> batch_step m (Add s d now) (emitted p) m'"
| step_flush: "flush_sub s m = (m', p) \<Longrightarrow> batch_step m (Flush s) (emitted p) m'"
| step_drain: "set order = fset (fmdom m) \<Longrightarrow> drain_timed_out order now m = (m', out)
    \<Longrightarrow> batch_step m (Drain now) out m'"

inductive batch_run :: "batch_buffer_manager \<Rightarrow> batch_action list \<Rightarrow> bytes list \<Rightarrow> batch_buffer_manager \<Rightarrow> bool" where
  batch_done: "batch_run m [] [] m"
| batch_more: "batch_step m a out m' \<Longrightarrow> batch_run m' as outs m'' \<Longrightarrow> batch_run m (a # as) (out @ outs) m''"

definition for_sub :: "bytes \<Rightarrow> (bytes \<times> bytes) list \<Rightarrow> (bytes \<times> bytes) list" where
  "for_sub s = filter (\<lambda>m. fst m = s)"

definition decoded :: "bytes list \<Rightarrow> (bytes \<times> bytes) list" where
  "decoded outs = concat (map decode_tagged_batch outs)"

definition buffer_of :: "batch_buffer_manager \<Rightarrow> bytes \<Rightarrow> bytes" where
  "buffer_of m s = (case fmlookup m s of Some b \<Rightarrow> bb_buf b | None \<Rightarrow> [])"

fun added :: "batch_action list \<Rightarrow> (bytes \<times> bytes) list" where
  "added [] = []"
| "added (Add s d _ # as) = (s, d) # added as"
| "added (_ # as) = added as"

fun small_action :: "batch_action \<Rightarrow> bool" where
  "small_action (Add s d _) = (utf8_valid s \<and> length (frame_of (s, d)) < BATCH_SIZE_THRESHOLD)"
| "small_action _ = True"

text \<open>The messages each buffer stands for.\<close>

definition holds :: "batch_buffer_manager \<Rightarrow> (bytes \<Rightarrow> (bytes \<times> bytes) list) \<Rightarrow> bool" where
  "holds m q = (\<forall>s.
     (\<forall>x \<in> set (q s). carriable x \<and> fst x = s) \<and> buffer_of m s = concat (map frame_of (q s)))"

lemma buffer_of_simps [simp]:
  "buffer_of (fmupd s b m) k = (if k = s then bb_buf b else buffer_of m k)"
  "buffer_of (fmdrop s m) k = (if k = s then [] else buffer_of m k)"
  "buffer_of fmempty k = []"
  by (simp_all add: buffer_of_def)

lemma flush_sub_buffer:
  assumes "flush_sub s m = (m', p)"
  shows "buffer_of m' k = (if k = s then [] else buffer_of m k)"
    "p = (if buffer_of m s = [] then None else Some (buffer_of m s))"
  using assms by (auto simp: flush_sub_def take_buffer_def buffer_of_def split: option.splits if_splits)

lemma small_carriable: "small_action (Add s d now) \<Longrightarrow> carriable (s, d)"
  by (simp add: carriable_def frame_of_def BATCH_SIZE_THRESHOLD_def)

lemma holds_new: "holds manager_new (\<lambda>_. [])"
  by (simp add: holds_def manager_new_def)

lemma holdsD:
  assumes "holds m q"
  shows "\<forall>x \<in> set (q s). carriable x" "\<And>x. x \<in> set (q s) \<Longrightarrow> fst x = s"
    "buffer_of m s = concat (map frame_of (q s))"
  using assms by (simp_all add: holds_def)

lemma holds_decode: "holds m q \<Longrightarrow> decode_tagged_batch (buffer_of m s) = q s"
  using holdsD(1,3) [of m q s] by (simp add: decode_frames)

lemma for_sub_queue: "holds m q \<Longrightarrow> for_sub s (q k) = (if s = k then q k else [])"
  using holdsD(2) [of m q _ k] by (auto simp: for_sub_def filter_empty_conv intro!: filter_True)

lemma decoded_simps [simp]:
  "decoded [] = []" "decoded (x @ y) = decoded x @ decoded y" "decoded [p] = decode_tagged_batch p"
  "decoded (p # x) = decode_tagged_batch p @ decoded x"
  by (simp_all add: decoded_def)

lemma for_sub_append [simp]: "for_sub s (x @ y) = for_sub s x @ for_sub s y" "for_sub s [] = []"
  by (simp_all add: for_sub_def)

lemma holds_update:
  assumes "holds m q" "\<forall>x \<in> set ms. carriable x \<and> fst x = s"
    "\<And>k. buffer_of m' k = (if k = s then concat (map frame_of ms) else buffer_of m k)"
  shows "holds m' (q(s := ms))"
  using assms by (simp add: holds_def)

lemma flush_sub_holds:
  assumes "holds m q" "flush_sub s m = (m', p)"
  shows "holds m' (q(s := []))" "decoded (emitted p) = q s"
proof -
  show "holds m' (q(s := []))"
    using assms(1) by (rule holds_update) (simp_all add: flush_sub_buffer(1) [OF assms(2)])
  show "decoded (emitted p) = q s"
    using holds_decode [OF assms(1), of s] holdsD(3) [OF assms(1), of s] flush_sub_buffer(2) [OF assms(2)]
    by (cases "q s") (simp_all add: emitted_def)
qed

lemma flush_all_holds:
  "holds m q \<Longrightarrow> flush_all ks m = (m', out)
   \<Longrightarrow> holds m' (\<lambda>s. if s \<in> set ks then [] else q s)
       \<and> for_sub s (decoded out) = (if s \<in> set ks then q s else [])"
proof (induction ks arbitrary: m q out)
  case (Cons k ks)
  obtain m1 p where 1: "flush_sub k m = (m1, p)" by force
  obtain out' where 2: "flush_all ks m1 = (m', out')"
    using Cons.prems(2) 1 by (auto split: prod.splits)
  have out: "decoded out = q k @ decoded out'"
    using Cons.prems(2) 1 2 flush_sub_holds(2) [OF Cons.prems(1) 1]
    by (auto simp: emitted_def split: option.splits)
  have h: "holds m' (\<lambda>s. if s \<in> set ks then [] else (q(k := [])) s)"
      "for_sub s (decoded out') = (if s \<in> set ks then (q(k := [])) s else [])"
    using Cons.IH [OF flush_sub_holds(1) [OF Cons.prems(1) 1] 2] out by auto
  have "(\<lambda>s. if s \<in> set ks then [] else (q(k := [])) s) = (\<lambda>s. if s \<in> set (k # ks) then [] else q s)"
    by auto
  then show ?case using h out for_sub_queue [OF Cons.prems(1), of s k] by auto
qed simp

lemma add_frame_small:
  assumes "length f < BATCH_SIZE_THRESHOLD" "add_frame f now b = (b', p)"
  shows "concat (emitted p) @ bb_buf b' = bb_buf b @ f"
    "p = None \<or> (p = Some (bb_buf b) \<and> bb_buf b' = f) \<or> (p = Some (bb_buf b @ f) \<and> bb_buf b' = [])"
  using assms by (auto simp: add_frame_def Let_def emitted_def split: if_splits)

lemma add_message_frame:
  "add_message s d now m =
     (let (b, p) = add_frame (frame_of (s, d)) now (case fmlookup m s of Some b \<Rightarrow> b | None \<Rightarrow> batch_buffer_new)
      in (fmupd s b m, p))"
  by (simp add: add_message_def frame_of_def lp_record_def Let_def)

lemma add_message_holds:
  assumes "holds m q" "small_action (Add s d now)" "add_message s d now m = (m', p)"
  shows "\<exists>q'. holds m' (q(s := q')) \<and> decoded (emitted p) @ q' = q s @ [(s, d)]"
proof -
  let ?b = "case fmlookup m s of Some b \<Rightarrow> b | None \<Rightarrow> batch_buffer_new"
  let ?f = "frame_of (s, d)"
  obtain b' where b': "add_frame ?f now ?b = (b', p)" "m' = fmupd s b' m"
    using assms(3) by (auto simp: add_message_frame split: prod.splits)
  have "bb_buf ?b = buffer_of m s"
    by (simp add: buffer_of_def batch_buffer_new_def split: option.split)
  then have buf: "bb_buf ?b = concat (map frame_of (q s))"
    using holdsD(3) [OF assms(1)] by simp
  have car: "\<forall>x \<in> set (q s @ [(s, d)]). carriable x \<and> fst x = s"
    using holdsD(1,2) [OF assms(1)] small_carriable [OF assms(2)] by auto
  have all: "decode_tagged_batch (concat (map frame_of (q s @ [(s, d)]))) = q s @ [(s, d)]"
    using car by (intro decode_frames) auto
  consider "p = None" "bb_buf b' = bb_buf ?b @ ?f" | "p = Some (bb_buf ?b)" "bb_buf b' = ?f"
    | "p = Some (bb_buf ?b @ ?f)" "bb_buf b' = []"
    using add_frame_small [OF _ b'(1)] assms(2) by (auto simp: emitted_def)
  then show ?thesis
  proof cases
    case 1
    then show ?thesis
      using holds_update [OF assms(1) car, of m'] buf b'(2) by (auto simp: emitted_def)
  next
    case 2
    then show ?thesis
      using holds_update [OF assms(1), of "[(s, d)]" s m'] car buf b'(2) holds_decode [OF assms(1), of s] holdsD(3) [OF assms(1), of s]
      by (auto simp: emitted_def)
  next
    case 3
    then show ?thesis
      using holds_update [OF assms(1), of "[]" s m'] buf b'(2) all by (auto simp: emitted_def)
  qed
qed

lemma batch_step_holds:
  assumes "batch_step m a out m'" "holds m q" "small_action a"
  shows "\<exists>q'. holds m' q' \<and> (\<forall>s. for_sub s (decoded out) @ q' s = q s @ for_sub s (added [a]))"
  using assms(1)
proof cases
  case (step_add k d now p)
  obtain q' where q': "holds m' (q(k := q'))" "decoded (emitted p) @ q' = q k @ [(k, d)]"
    using add_message_holds [OF assms(2) _ step_add(3)] assms(3) step_add(1) by auto
  have "for_sub s (decoded out) @ (q(k := q')) s = q s @ for_sub s (added [a])" for s
  proof -
    have "for_sub s q' = (if s = k then q' else [])"
      using for_sub_queue [OF q'(1), of s k] by simp
    then have "for_sub s (decoded (emitted p)) @ (if s = k then q' else []) =
        for_sub s (q k) @ for_sub s [(k, d)]"
      using arg_cong [OF q'(2), of "for_sub s"] unfolding for_sub_append by simp
    then show ?thesis
      unfolding for_sub_queue [OF assms(2), of s k] step_add(1,2) by (cases "s = k") (simp_all add: for_sub_def)
  qed
  then show ?thesis using q'(1) by blast
next
  case (step_flush k p)
  have "for_sub s (decoded out) @ (q(k := [])) s = q s @ for_sub s (added [a])" for s
    unfolding step_flush(1,2) flush_sub_holds(2) [OF assms(2) step_flush(3)] for_sub_queue [OF assms(2)]
    by (simp add: for_sub_def)
  then show ?thesis using flush_sub_holds(1) [OF assms(2) step_flush(3)] by blast
next
  case (step_drain order now)
  let ?ks = "filter (\<lambda>k. case fmlookup m k of Some b \<Rightarrow> timed_out now b | None \<Rightarrow> False) order"
  have fa: "flush_all ?ks m = (m', out)" using step_drain(3) by (simp add: drain_timed_out_def)
  have "for_sub s (decoded out) @ (if s \<in> set ?ks then [] else q s) = q s @ for_sub s (added [a])" for s
    using flush_all_holds [OF assms(2) fa, of s] step_drain(1) by (simp add: for_sub_def)
  then show ?thesis using flush_all_holds [OF assms(2) fa] by blast
qed

lemma added_Cons: "added (a # as) = added [a] @ added as"
  by (cases a) simp_all

lemma batch_run_holds:
  assumes "batch_run m as outs m'" "holds m q" "\<forall>a \<in> set as. small_action a"
  shows "for_sub s (decoded outs) @ decode_tagged_batch (buffer_of m' s) = q s @ for_sub s (added as)"
  using assms
proof (induction arbitrary: q rule: batch_run.induct)
  case (batch_done m)
  then show ?case by (simp add: holds_decode)
next
  case (batch_more m a out m' as outs m'')
  then obtain q' where "holds m' q'" "for_sub s (decoded out) @ q' s = q s @ for_sub s (added [a])"
    using batch_step_holds [OF batch_more.hyps(1), of q] by auto
  then show ?case
    using batch_more.IH [of q'] batch_more.prems(2) added_Cons [of a as]
    by simp
qed

text \<open>A sweep leaves no buffer that is due.\<close>

lemma flush_all_buffer: "flush_all ks m = (m', out) \<Longrightarrow> buffer_of m' s = (if s \<in> set ks then [] else buffer_of m s)"
proof (induction ks arbitrary: m out)
  case (Cons k ks)
  obtain m1 p where 1: "flush_sub k m = (m1, p)" by force
  obtain out' where "flush_all ks m1 = (m', out')"
    using Cons.prems 1 by (auto split: prod.splits)
  then show ?case using Cons.IH flush_sub_buffer(1) [OF 1, of s] by auto
qed simp

lemma drain_empties_due:
  assumes "batch_step m (Drain now) out m'" "fmlookup m s = Some b" "timed_out now b"
  shows "buffer_of m' s = []"
  using assms(1)
proof cases
  case (step_drain order)
  then have "s \<in> set order" using assms(2) by (simp add: fmlookup_dom_iff)
  then show ?thesis
    using flush_all_buffer [of _ m m' out s] step_drain(2) assms by (simp add: drain_timed_out_def)
qed

text \<open>Sizes of buffers and payloads, for frames of every size.\<close>

definition payload_ok :: "batch_action list \<Rightarrow> bytes \<Rightarrow> bool" where
  "payload_ok as p =
     (p \<noteq> [] \<and> (length p \<le> BATCH_SIZE_THRESHOLD \<or> (\<exists>s d now. Add s d now \<in> set as \<and> p = frame_of (s, d))))"

definition below_threshold :: "batch_buffer_manager \<Rightarrow> bool" where
  "below_threshold m = (\<forall>s. length (buffer_of m s) < BATCH_SIZE_THRESHOLD)"

lemma threshold_pos [simp]: "0 < BATCH_SIZE_THRESHOLD"
  by (simp add: BATCH_SIZE_THRESHOLD_def)

lemma add_frame_bounds:
  assumes "add_frame f now b = (b', p)" "f \<noteq> []" "length (bb_buf b) < BATCH_SIZE_THRESHOLD"
  shows "length (bb_buf b') < BATCH_SIZE_THRESHOLD"
    "p = Some x \<Longrightarrow> x \<noteq> [] \<and> (length x \<le> BATCH_SIZE_THRESHOLD \<or> x = f)"
  using assms by (auto simp: add_frame_def Let_def split: if_splits)

lemma add_message_bounds:
  assumes "below_threshold m" "add_message s d now m = (m', p)"
  shows "below_threshold m' \<and> (\<forall>x \<in> set (emitted p). payload_ok [Add s d now] x)"
proof -
  let ?b = "case fmlookup m s of Some b \<Rightarrow> b | None \<Rightarrow> batch_buffer_new"
  obtain b' where b': "add_frame (frame_of (s, d)) now ?b = (b', p)" "m' = fmupd s b' m"
    using assms(2) by (auto simp: add_message_frame split: prod.splits)
  have "bb_buf ?b = buffer_of m s"
    by (simp add: buffer_of_def batch_buffer_new_def split: option.split)
  then have "length (bb_buf ?b) < BATCH_SIZE_THRESHOLD"
    using assms(1) by (simp add: below_threshold_def)
  note bounds = add_frame_bounds [OF b'(1) frame_of_nonempty this]
  have "\<forall>x \<in> set (emitted p). payload_ok [Add s d now] x"
    using bounds(2) by (auto simp: emitted_def payload_ok_def split: option.splits)
  then show ?thesis using bounds(1) assms(1) b'(2) by (simp add: below_threshold_def)
qed

lemma flush_sub_bounds:
  assumes "below_threshold m" "flush_sub s m = (m', p)"
  shows "below_threshold m' \<and> (\<forall>x \<in> set (emitted p). payload_ok as x)"
  using assms(1) flush_sub_buffer [OF assms(2)]
  by (auto simp: below_threshold_def emitted_def payload_ok_def less_imp_le split: if_splits)

lemma flush_all_bounds:
  "below_threshold m \<Longrightarrow> flush_all ks m = (m', out) \<Longrightarrow> below_threshold m' \<and> (\<forall>x \<in> set out. payload_ok as x)"
proof (induction ks arbitrary: m out)
  case (Cons k ks)
  obtain m1 p where 1: "flush_sub k m = (m1, p)" by force
  obtain out' where 2: "flush_all ks m1 = (m', out')" "out = emitted p @ out'"
    using Cons.prems(2) 1 by (auto simp: emitted_def split: prod.splits option.splits)
  show ?case
    using flush_sub_bounds [OF Cons.prems(1) 1, of as] Cons.IH [OF _ 2(1)] 2(2) by auto
qed simp

lemma batch_step_bounds:
  assumes "batch_step m a out m'" "below_threshold m"
  shows "below_threshold m' \<and> (\<forall>x \<in> set out. payload_ok [a] x)"
  using assms(1)
proof cases
  case (step_add s d now p)
  show ?thesis unfolding step_add(1,2) by (rule add_message_bounds [OF assms(2) step_add(3)])
next
  case (step_flush s p)
  show ?thesis unfolding step_flush(1,2) by (rule flush_sub_bounds [OF assms(2) step_flush(3)])
next
  case (step_drain order now)
  show ?thesis by (rule flush_all_bounds [OF assms(2) step_drain(3) [unfolded drain_timed_out_def]])
qed

lemma payload_ok_mono: "payload_ok as p \<Longrightarrow> set as \<subseteq> set bs \<Longrightarrow> payload_ok bs p"
  by (auto simp: payload_ok_def)

lemma batch_run_bounds:
  "batch_run m as outs m' \<Longrightarrow> below_threshold m \<Longrightarrow> below_threshold m' \<and> (\<forall>x \<in> set outs. payload_ok as x)"
proof (induction rule: batch_run.induct)
  case (batch_more m a out m' as outs m'')
  have "below_threshold m'" "\<forall>x \<in> set out. payload_ok [a] x"
    using batch_step_bounds [OF batch_more.hyps(1) batch_more.prems] by auto
  moreover have "below_threshold m'' \<and> (\<forall>x \<in> set outs. payload_ok as x)"
    by (rule batch_more.IH) fact
  moreover have "payload_ok [a] x \<Longrightarrow> payload_ok (a # as) x" "payload_ok as x \<Longrightarrow> payload_ok (a # as) x" for x
    by (auto intro: payload_ok_mono)
  ultimately show ?case by (simp add: ball_Un)
qed simp

lemma batch_run_append:
  "batch_run m as1 outs1 m1 \<Longrightarrow> batch_run m1 as2 outs2 m2 \<Longrightarrow> batch_run m (as1 @ as2) (outs1 @ outs2) m2"
  by (induction rule: batch_run.induct) (simp_all add: batch_run.intros)

lemma added_drain [simp]: "added (as @ [Drain now]) = added as"
  by (induction as rule: added.induct) simp_all

section \<open>Properties\<close>

text \<open>C16. Messages are delivered once and in order. After any sequence of additions, flushes and
  sweeps in which every frame is smaller than the 16 KB threshold, and one more sweep, the messages
  decoded from the payloads sent so far that carry a subscription id, followed by those still in its
  buffer, are exactly the messages added for it, in the order of addition; and when the oldest frame
  of its buffer was at least 8 ms old, the sweep left nothing in the buffer.\<close>

theorem batched_messages_delivered:
  assumes "batch_run manager_new as outs m" "\<forall>a \<in> set as. small_action a" "batch_step m (Drain now) out m'"
  shows "for_sub s (decoded (outs @ out)) @ decode_tagged_batch (buffer_of m' s) = for_sub s (added as)
    \<and> ((\<exists>b. fmlookup m s = Some b \<and> timed_out now b) \<longrightarrow> for_sub s (decoded (outs @ out)) = for_sub s (added as))"
proof -
  have "batch_run manager_new (as @ [Drain now]) (outs @ (out @ [])) m'"
    by (rule batch_run_append [OF assms(1) batch_more [OF assms(3) batch_done]])
  then have "for_sub s (decoded (outs @ (out @ []))) @ decode_tagged_batch (buffer_of m' s) =
      [] @ for_sub s (added (as @ [Drain now]))"
    using holds_new by (rule batch_run_holds) (use assms(2) in auto)
  moreover have "\<exists>b. fmlookup m s = Some b \<and> timed_out now b \<Longrightarrow> buffer_of m' s = []"
    using drain_empties_due [OF assms(3)] by blast
  ultimately show ?thesis by (auto simp: decode_tagged_batch_def decode_batch_loop.simps)
qed

text \<open>Sizes. Whatever is added, no buffer ever reaches 16 KB, and every payload sent is non-empty
  and at most 16 KB long unless it is one single added frame.\<close>

theorem batch_sizes_bounded:
  assumes "batch_run manager_new as outs m"
  shows "(\<forall>s. length (buffer_of m s) < BATCH_SIZE_THRESHOLD) \<and> (\<forall>p \<in> set outs. payload_ok as p)"
  using batch_run_bounds [OF assms] by (simp add: below_threshold_def manager_new_def)

text \<open>The batch formats round-trip. A batch of messages under either magic, even when a last frame
  is cut off, decodes to exactly the messages of its whole frames and to the kind of the magic; bytes
  that start with neither magic are no batch.\<close>

theorem conn_batch_roundtrip:
  assumes "\<forall>m \<in> set ms. carriable m" "carriable x" "n < length (frame_of x)"
  defines "payload \<equiv> concat (map frame_of ms) @ take n (frame_of x)"
  shows "decode_conn_batch (encode_conn_batch payload) = Some \<lparr>raw_events = False, cb_frames = ms\<rparr>
    \<and> decode_conn_batch (encode_raw_conn_batch payload) = Some \<lparr>raw_events = True, cb_frames = ms\<rparr>
    \<and> (take 4 b \<notin> {CONN_BATCH_MAGIC, CONN_RAW_BATCH_MAGIC} \<longrightarrow> decode_conn_batch b = None)"
proof -
  have "decode_tagged_batch payload = ms"
    using decode_frames_append [OF assms(1)] decode_truncated [OF assms(2,3)] by (simp add: payload_def)
  then show ?thesis
    by (simp add: decode_conn_batch_def encode_conn_batch_def encode_raw_conn_batch_def wrap_conn_batch_def
        CONN_BATCH_MAGIC_def CONN_RAW_BATCH_MAGIC_def)
qed

text \<open>A frame of 16 KB or more loses the frames buffered before it: the payload sent is that frame
  alone, and the buffer is empty afterwards.\<close>

theorem large_frame_drops_buffer:
  assumes "buffer_of m s \<noteq> []" "BATCH_SIZE_THRESHOLD \<le> length (frame_of (s, d))"
    "add_message s d now m = (m', p)"
  shows "p = Some (frame_of (s, d)) \<and> buffer_of m' s = []"
proof -
  obtain b where b: "fmlookup m s = Some b" "bb_buf b \<noteq> []"
    using assms(1) by (auto simp: buffer_of_def split: option.splits)
  then have "BATCH_SIZE_THRESHOLD < length (bb_buf b) + length (frame_of (s, d))"
    using assms(2) by (cases "bb_buf b") simp_all
  then show ?thesis
    using b assms(2,3) by (auto simp: add_message_frame add_frame_def Let_def split: prod.splits if_splits)
qed

text \<open>A concrete run: one message for the subscription \<open>a\<close>, swept after eight milliseconds.\<close>

definition example_message :: "bytes \<times> bytes" where
  "example_message = ([0x61], [0x01])"

definition example_manager :: batch_buffer_manager where
  "example_manager = fmupd [0x61] \<lparr>bb_buf = frame_of example_message, bb_first_at = 0\<rparr> fmempty"

lemma example_frame: "frame_of example_message = [6, 0, 0, 0, 1, 0, 0, 0, 0x61, 1]"
  by (simp add: example_message_def frame_of_def encode_tagged_def codec_eval)

lemma example_add: "add_message [0x61] [0x01] 0 manager_new = (example_manager, None)"
  using example_frame
  by (simp add: add_message_frame manager_new_def add_frame_def batch_buffer_new_def BATCH_SIZE_THRESHOLD_def
      example_manager_def example_message_def)

lemma example_run: "batch_run manager_new [Add [0x61] [0x01] 0] [] example_manager"
  using batch_more [OF step_add [OF example_add] batch_done] by (simp add: emitted_def)

lemma example_drain: "batch_step example_manager (Drain 8) [frame_of example_message] fmempty"
proof (rule step_drain)
  show "set [[0x61]] = fset (fmdom example_manager)" by (simp add: example_manager_def)
  show "drain_timed_out [[0x61]] 8 example_manager = (fmempty, [frame_of example_message])"
    by (simp add: drain_timed_out_def example_manager_def timed_out_def BATCH_TIMEOUT_MS_def flush_sub_def
        take_buffer_def fmdrop_fmupd_same)
qed

theorem batched_messages_delivered_witness:
  "for_sub [0x61] (decoded ([] @ [frame_of example_message])) = [example_message]"
  using batched_messages_delivered [OF example_run _ example_drain, of "[0x61]"] example_frame
  by (simp add: for_sub_def example_manager_def timed_out_def BATCH_TIMEOUT_MS_def BATCH_SIZE_THRESHOLD_def
      example_message_def)

theorem batch_sizes_bounded_witness:
  "length (buffer_of example_manager [0x61]) < BATCH_SIZE_THRESHOLD \<and> buffer_of example_manager [0x61] \<noteq> []"
  using conjunct1 [OF batch_sizes_bounded [OF example_run], THEN spec, of "[0x61]"] by (simp add: example_manager_def)

theorem conn_batch_roundtrip_witness:
  "decode_conn_batch (encode_raw_conn_batch (frame_of example_message @ take 5 (frame_of example_message)))
     = Some \<lparr>raw_events = True, cb_frames = [example_message]\<rparr>"
  using conn_batch_roundtrip [of "[example_message]" example_message 5 "[]"] example_frame
  by (simp add: carriable_def example_message_def)

theorem large_frame_drops_buffer_witness:
  "buffer_of example_manager [0x61] = frame_of example_message
   \<and> snd (add_message [0x61] (replicate 16384 0) 5 example_manager) = Some (frame_of ([0x61], replicate 16384 0))
   \<and> buffer_of (fst (add_message [0x61] (replicate 16384 0) 5 example_manager)) [0x61] = []"
proof -
  have "buffer_of example_manager [0x61] = frame_of example_message" by (simp add: example_manager_def)
  moreover have "length (frame_of ([0x61], replicate 16384 0)) = 16393"
    by (simp add: frame_of_def)
  ultimately show ?thesis
    using large_frame_drops_buffer [of example_manager "[0x61]" "replicate 16384 0" 5]
    by (cases "add_message [0x61] (replicate 16384 0) 5 example_manager")
      (simp add: BATCH_SIZE_THRESHOLD_def)
qed

end
