(* ===== verification/Cache_Input.thy ===== *)
theory Cache_Input
  imports Prelude
begin

text \<open>
  Framing of the cache worker's input channel, after \<open>core/src/cache_input.rs\<close>: a tag byte, a
  little-endian length and the inner bytes. The splitter accepts exactly the framed messages.
\<close>

definition TAG_PERSIST :: u8 where
  "TAG_PERSIST = 0"

definition TAG_REQUEST :: u8 where
  "TAG_REQUEST = 1"

definition CACHE_HEADER_LEN :: nat where
  "CACHE_HEADER_LEN = 5"

definition frame :: "u8 \<Rightarrow> bytes \<Rightarrow> bytes" where
  "frame tag inner = [tag] @ u32_to_le_bytes (of_nat (length inner)) @ inner"

definition split_frame :: "bytes \<Rightarrow> (u8 \<times> bytes) option" where
  "split_frame b =
     (if length b < CACHE_HEADER_LEN then None
      else
        (let len = unat (u32_from_le_bytes (b ! 1) (b ! 2) (b ! 3) (b ! 4))
         in if len \<noteq> length b - CACHE_HEADER_LEN then None
            else Some (b ! 0, drop CACHE_HEADER_LEN b)))"

lemma read_le32_tail: "unat (u32_from_le_bytes (b ! Suc 0) (b ! 2) (b ! 3) (b ! 4)) = read_le32 b (Suc 0)"
  by (simp add: read_le32_def numeral_eq_Suc)

lemma split_frame_frame: "fits_u32 inner \<Longrightarrow> split_frame (frame tag inner) = Some (tag, inner)"
  using read_le32_append [of "[]" 0 "of_nat (length inner)" inner]
  by (simp add: split_frame_def frame_def CACHE_HEADER_LEN_def unat_of_nat read_le32_def del: add_2_eq_Suc add_2_eq_Suc')

text \<open>The splitter inverts the framing exactly: it yields a tag and inner bytes if and only if the
  message is their framing, and the inner bytes fit the length field.\<close>

theorem split_frame_exact:
  "split_frame b = Some (tag, inner) \<longleftrightarrow> b = frame tag inner \<and> fits_u32 inner"
proof
  assume s: "split_frame b = Some (tag, inner)"
  then have len: "5 \<le> length b" "read_le32 b (Suc 0) = length b - 5" "tag = b ! 0" "inner = drop 5 b"
    by (auto simp: split_frame_def CACHE_HEADER_LEN_def read_le32_tail Let_def split: if_splits)
  have "1 + 4 + read_le32 b 1 = length b" using len by simp
  then have "drop 1 b = lp_record inner"
    using split_record [of 1 b] len(4) by (simp add: subslice_def)
  moreover have "b = b ! 0 # drop 1 b" using len(1) by (cases b) simp_all
  ultimately have "b = frame tag inner" using len(3) by (simp add: frame_def lp_record_def)
  moreover have "fits_u32 inner" using len(2,4) read_le32_bound [of b 1] by simp
  ultimately show "b = frame tag inner \<and> fits_u32 inner" by simp
qed (simp add: split_frame_frame)

end
