(* ===== verification/Frame_Scan.thy ===== *)
theory Frame_Scan
  imports Utf8
begin

text \<open>
  The zero-copy scanner of relay frames, after \<open>core/src/transport/frame_scan.rs\<close>. The text is the
  list of its UTF-8 bytes and a slice of it a sublist. Every place where the source can panic is a
  \<open>None\<close>: a slice beyond the end, a slice of the text off a character boundary (Rust's test is that the
  byte there is no continuation byte), and the decrement of a zero depth. The byte searches of the
  crate \<open>memchr\<close> are a parameter (\<open>searcher\<close>) with the documented meaning as the hypothesis
  \<open>searcher_ok\<close>; loops whose progress rests on them are \<open>partial_function\<close>s, so that not ending is \<open>None\<close>
  too. The theory shows that the scanner ends without panic on every valid text, and that it returns
  exactly the elements of a frame written as JSON.
\<close>

section \<open>Bytes\<close>

abbreviation QUOTE :: u8 where "QUOTE \<equiv> 0x22"
abbreviation BACKSLASH :: u8 where "BACKSLASH \<equiv> 0x5C"
abbreviation COMMA :: u8 where "COMMA \<equiv> 0x2C"
abbreviation LBRACE :: u8 where "LBRACE \<equiv> 0x7B"
abbreviation RBRACE :: u8 where "RBRACE \<equiv> 0x7D"
abbreviation LBRACKET :: u8 where "LBRACKET \<equiv> 0x5B"
abbreviation RBRACKET :: u8 where "RBRACKET \<equiv> 0x5D"

definition is_ascii_whitespace :: "u8 \<Rightarrow> bool" where
  "is_ascii_whitespace c = (c \<in> {0x20, 0x09, 0x0A, 0x0C, 0x0D})"

text \<open>The index of the first byte that satisfies the predicate, and the searches of \<open>memchr\<close>.\<close>

fun position :: "(u8 \<Rightarrow> bool) \<Rightarrow> bytes \<Rightarrow> nat option" where
  "position P [] = None"
| "position P (c # cs) = (if P c then Some 0 else map_option Suc (position P cs))"

record searcher =
  memchr2 :: "u8 \<Rightarrow> u8 \<Rightarrow> bytes \<Rightarrow> nat option"
  memchr3 :: "u8 \<Rightarrow> u8 \<Rightarrow> u8 \<Rightarrow> bytes \<Rightarrow> nat option"

definition searcher_ok :: "searcher \<Rightarrow> bool" where
  "searcher_ok m =
     ((\<forall>a b hay. memchr2 m a b hay = position (\<lambda>c. c = a \<or> c = b) hay)
      \<and> (\<forall>a b d hay. memchr3 m a b d hay = position (\<lambda>c. c = a \<or> c = b \<or> c = d) hay))"

text \<open>\<open>str::is_char_boundary\<close> and slicing of a \<open>&str\<close>.\<close>

definition is_char_boundary :: "bytes \<Rightarrow> nat \<Rightarrow> bool" where
  "is_char_boundary text i = (i = 0 \<or> i = length text \<or> (i < length text \<and> \<not> utf8_cont (text ! i)))"

definition slice_str :: "bytes \<Rightarrow> nat \<Rightarrow> nat \<Rightarrow> bytes option" where
  "slice_str text i j =
     (if i \<le> j \<and> is_char_boundary text i \<and> is_char_boundary text j then Some (subslice text i j) else None)"

section \<open>The scanner\<close>

record scanned_value =
  sv_raw :: bytes
  sv_is_string :: bool

definition inner :: "scanned_value \<Rightarrow> bytes option" where
  "inner v =
     (if sv_is_string v
      then (if length (sv_raw v) < 1 then None else slice_str (sv_raw v) 1 (length (sv_raw v) - 1))
      else Some (sv_raw v))"

record scanned_frame =
  sf_kind :: bytes
  sf_args :: "scanned_value option list"

function skip_ws :: "bytes \<Rightarrow> nat \<Rightarrow> nat" where
  "skip_ws bs pos = (if pos < length bs \<and> is_ascii_whitespace (bs ! pos) then skip_ws bs (pos + 1) else pos)"
  by pat_completeness auto
termination
  by (relation "measure (\<lambda>(bs, pos). length bs - pos)") auto

declare skip_ws.simps [simp del]

text \<open>The loop of \<open>skip_string\<close>: the new position and whether the string was closed.\<close>

partial_function (option) skip_string_loop :: "searcher \<Rightarrow> bytes \<Rightarrow> nat \<Rightarrow> (nat \<times> bool) option" where
  "skip_string_loop m bs pos =
     (if pos > length bs then None
      else
        (let rest = drop pos bs
         in case memchr2 m QUOTE BACKSLASH rest of
              Some i \<Rightarrow>
                if i \<ge> length rest then None
                else if rest ! i = QUOTE then Some (pos + (i + 1), True)
                else skip_string_loop m bs (pos + min (i + 2) (length rest))
            | None \<Rightarrow> Some (length bs, False)))"

definition skip_string :: "searcher \<Rightarrow> bytes \<Rightarrow> nat \<Rightarrow> (nat \<times> bool) option" where
  "skip_string m bs pos = skip_string_loop m bs (pos + 1)"

definition find_structural :: "searcher \<Rightarrow> bytes \<Rightarrow> nat option" where
  "find_structural m hay =
     (case (memchr3 m QUOTE LBRACE LBRACKET hay, memchr2 m RBRACE RBRACKET hay) of
        (Some a, Some b) \<Rightarrow> Some (min a b)
      | (Some a, None) \<Rightarrow> Some a
      | (None, b) \<Rightarrow> b)"

text \<open>The container loop; the inner result is \<open>None\<close> for an unterminated element.\<close>

partial_function (option) scan_container ::
  "searcher \<Rightarrow> bytes \<Rightarrow> nat \<Rightarrow> nat \<Rightarrow> nat \<Rightarrow> (nat \<times> scanned_value option) option" where
  "scan_container m bs start pos depth =
     (if pos > length bs then None
      else
        (case find_structural m (drop pos bs) of
           None \<Rightarrow> Some (pos, None)
         | Some off \<Rightarrow>
             (let pos = pos + off
              in if pos \<ge> length bs then None
                 else if bs ! pos = QUOTE then
                   (case skip_string m bs pos of
                      None \<Rightarrow> None
                    | Some (pos', closed) \<Rightarrow>
                        if closed then scan_container m bs start pos' depth else Some (pos', None))
                 else if bs ! pos = LBRACE \<or> bs ! pos = LBRACKET then scan_container m bs start (pos + 1) (depth + 1)
                 else if depth = 0 then None
                 else if depth - 1 = 0 then
                   (case slice_str bs start (pos + 1) of
                      None \<Rightarrow> None
                    | Some raw \<Rightarrow> Some (pos + 1, Some \<lparr>sv_raw = raw, sv_is_string = False\<rparr>))
                 else scan_container m bs start (pos + 1) (depth - 1))))"

definition token_end :: "u8 \<Rightarrow> bool" where
  "token_end c = (c \<in> {COMMA, RBRACKET, 0x20, 0x09, 0x0A, 0x0D})"

function skip_token :: "bytes \<Rightarrow> nat \<Rightarrow> nat" where
  "skip_token bs pos = (if pos < length bs \<and> \<not> token_end (bs ! pos) then skip_token bs (pos + 1) else pos)"
  by pat_completeness auto
termination
  by (relation "measure (\<lambda>(bs, pos). length bs - pos)") auto

declare skip_token.simps [simp del]

definition scan_element :: "searcher \<Rightarrow> bytes \<Rightarrow> nat \<Rightarrow> (nat \<times> scanned_value option) option" where
  "scan_element m bs start =
     (if start \<ge> length bs then None
      else
        (let c = bs ! start
         in if c = QUOTE then
              (case skip_string m bs start of
                 None \<Rightarrow> None
               | Some (pos, False) \<Rightarrow> Some (pos, None)
               | Some (pos, True) \<Rightarrow>
                   (case slice_str bs start pos of
                      None \<Rightarrow> None
                    | Some raw \<Rightarrow> Some (pos, Some \<lparr>sv_raw = raw, sv_is_string = True\<rparr>)))
            else if c = LBRACE \<or> c = LBRACKET then scan_container m bs start start 0
            else
              (let pos = skip_token bs start
               in if pos = start then Some (pos, None)
                  else
                    (case slice_str bs start pos of
                       None \<Rightarrow> None
                     | Some raw \<Rightarrow> Some (pos, Some \<lparr>sv_raw = raw, sv_is_string = False\<rparr>)))))"

text \<open>The loop over the arguments: \<open>n\<close> slots are left.\<close>

fun scan_args :: "searcher \<Rightarrow> bytes \<Rightarrow> nat \<Rightarrow> nat \<Rightarrow> scanned_value list option" where
  "scan_args m bs 0 pos = Some []"
| "scan_args m bs (Suc n) pos =
     (let pos = skip_ws bs pos
      in if pos \<ge> length bs \<or> bs ! pos = RBRACKET then Some []
         else if bs ! pos \<noteq> COMMA then Some []
         else
           (let pos = skip_ws bs (pos + 1)
            in if pos \<ge> length bs \<or> bs ! pos = RBRACKET then Some []
               else
                 (case scan_element m bs pos of
                    None \<Rightarrow> None
                  | Some (_, None) \<Rightarrow> Some []
                  | Some (pos', Some v) \<Rightarrow> map_option ((#) v) (scan_args m bs n pos'))))"

definition scan_relay_frame :: "searcher \<Rightarrow> bytes \<Rightarrow> scanned_frame option option" where
  "scan_relay_frame m text =
     (let pos = skip_ws text 0
      in if pos \<ge> length text \<or> text ! pos \<noteq> LBRACKET then Some None
         else
           (let pos = skip_ws text (pos + 1)
            in if pos \<ge> length text \<or> text ! pos = RBRACKET then Some None
               else
                 (case scan_element m text pos of
                    None \<Rightarrow> None
                  | Some (_, None) \<Rightarrow> Some None
                  | Some (pos, Some first) \<Rightarrow>
                      (case (inner first, scan_args m text 3 pos) of
                         (Some kind, Some vs) \<Rightarrow>
                           Some (Some \<lparr>sf_kind = kind, sf_args = map Some vs @ replicate (3 - length vs) None\<rparr>)
                       | _ \<Rightarrow> None))))"

section \<open>Searches\<close>

lemma position_SomeD: "position P cs = Some i \<Longrightarrow> i < length cs \<and> P (cs ! i) \<and> (\<forall>j < i. \<not> P (cs ! j))"
proof (induction cs arbitrary: i)
  case (Cons c cs)
  show ?case
  proof (cases "P c")
    case False
    then obtain i' where "position P cs = Some i'" "i = Suc i'" using Cons.prems by auto
    then show ?thesis using Cons.IH [of i'] False by (auto simp: less_Suc_eq_0_disj)
  qed (use Cons.prems in simp)
qed simp

lemma position_disj:
  "position (\<lambda>c. P c \<or> Q c) cs =
     (case (position P cs, position Q cs) of
        (Some a, Some b) \<Rightarrow> Some (min a b) | (Some a, None) \<Rightarrow> Some a | (None, b) \<Rightarrow> b)"
  by (induction cs) (auto split: option.splits)

definition structural :: "u8 \<Rightarrow> bool" where
  "structural c = (c \<in> {QUOTE, LBRACE, LBRACKET, RBRACE, RBRACKET})"

lemma find_structural_eq:
  assumes "searcher_ok m"
  shows "find_structural m hay = position structural hay"
proof -
  have "structural = (\<lambda>c. (c = QUOTE \<or> c = LBRACE \<or> c = LBRACKET) \<or> (c = RBRACE \<or> c = RBRACKET))"
    by (auto simp: structural_def)
  then have "position structural hay = position (\<lambda>c. (c = QUOTE \<or> c = LBRACE \<or> c = LBRACKET) \<or> (c = RBRACE \<or> c = RBRACKET)) hay"
    by simp
  also have "\<dots> = find_structural m hay"
    using assms unfolding find_structural_def searcher_ok_def
    by (subst position_disj) simp
  finally show ?thesis ..
qed

lemma position_append:
  "\<forall>c \<in> set xs. \<not> P c \<Longrightarrow> position P (xs @ ys) = map_option (\<lambda>i. length xs + i) (position P ys)"
  by (induction xs; cases "position P ys") auto

section \<open>Character boundaries\<close>

lemma utf8_cont_ge: "utf8_cont c \<Longrightarrow> 0x80 \<le> c"
  by simp

lemma second_ok_ge: "utf8_second_ok b c \<Longrightarrow> 0x80 \<le> c"
  by (simp add: utf8_second_ok_def)

lemma head_bytes:
  "fst (head_two s) \<Longrightarrow> \<forall>j < snd (head_two s) - 1. 0x80 \<le> s ! j"
  "fst (head_three b s) \<Longrightarrow> \<forall>j < snd (head_three b s) - 1. 0x80 \<le> s ! j"
  "fst (head_four b s) \<Longrightarrow> \<forall>j < snd (head_four b s) - 1. 0x80 \<le> s ! j"
  subgoal by (cases s rule: head_two.cases)
      (auto simp: less_Suc_eq numeral_eq_Suc utf8_cont_ge simp del: utf8_cont.simps split: if_splits)
  subgoal by (cases "(b, s)" rule: head_three.cases)
      (auto simp: less_Suc_eq numeral_eq_Suc utf8_cont_ge second_ok_ge simp del: utf8_cont.simps split: if_splits)
  subgoal by (cases "(b, s)" rule: head_four.cases)
      (auto simp: less_Suc_eq numeral_eq_Suc utf8_cont_ge second_ok_ge simp del: utf8_cont.simps split: if_splits)
  done

lemma utf8_head_bytes:
  assumes "fst (utf8_head (b # s))"
  shows "(snd (utf8_head (b # s)) = 1 \<and> b < 0x80) \<or> (0x80 \<le> b \<and> (\<forall>j < snd (utf8_head (b # s)) - 1. 0x80 \<le> s ! j))"
proof (cases b rule: utf8_lead_cases)
  case two
  then have "utf8_head (b # s) = head_two s" "0x80 \<le> b" by simp_all
  then show ?thesis using head_bytes(1) [of s] assms by simp
next
  case three
  then have "0x80 \<le> b" by simp
  moreover have "utf8_head (b # s) = head_three b s"
    unfolding utf8_head.simps(2) if_not_P [OF three(1)] if_not_P [OF three(2)] if_P [OF three(3)] ..
  ultimately show ?thesis using head_bytes(2) [of b s] assms by simp
next
  case four
  then have "0x80 \<le> b" by simp
  moreover have "utf8_head (b # s) = head_four b s"
    unfolding utf8_head.simps(2) if_not_P [OF four(1)] if_not_P [OF four(2)] if_not_P [OF four(3)] if_P [OF four(4)] ..
  ultimately show ?thesis using head_bytes(3) [of b s] assms by simp
next
  case bad
  have "utf8_head (b # s) = (False, 1)"
    unfolding utf8_head.simps(2) if_not_P [OF bad(1)] if_not_P [OF bad(2)] if_not_P [OF bad(3)] if_not_P [OF bad(4)] ..
  then show ?thesis using assms by simp
qed simp

lemma utf8_valid_after_ascii:
  "utf8_valid bs \<Longrightarrow> i < length bs \<Longrightarrow> bs ! i < 0x80 \<Longrightarrow> utf8_valid (drop (Suc i) bs)"
proof (induction "length bs" arbitrary: bs i rule: less_induct)
  case less
  obtain b s where bs: "bs = b # s" using less.prems(2) by (cases bs) auto
  let ?n = "snd (utf8_head bs)"
  have h: "fst (utf8_head bs)" "utf8_valid (drop ?n bs)" using utf8_valid_step [of bs] less.prems(1) bs by auto
  have n: "0 < ?n" using utf8_head_pos [of bs] bs by simp
  show ?case
  proof (cases "i < ?n")
    case True
    then have "?n = 1 \<and> i = 0"
    proof (cases "?n = 1 \<and> b < 0x80")
      case False
      then have ge: "0x80 \<le> b" "\<forall>j < ?n - 1. 0x80 \<le> s ! j" using utf8_head_bytes [of b s] h(1) bs by auto
      have "0x80 \<le> bs ! i"
        using ge True bs by (cases i) auto
      then show ?thesis using less.prems(3) by (simp add: not_less [symmetric])
    qed (use True in simp)
    then show ?thesis using h(2) by simp
  next
    case False
    have "utf8_valid (drop (Suc (i - ?n)) (drop ?n bs))"
      by (rule less.hyps) (use n False less.prems h in auto)
    then show ?thesis using False by simp
  qed
qed

lemma utf8_valid_hd:
  assumes "utf8_valid (c # r)"
  shows "\<not> utf8_cont c"
proof
  assume "utf8_cont c"
  then have c: "\<not> c < 0x80" "c \<le> 0xBF" by auto
  then have "\<not> 0xC2 \<le> c" "\<not> 0xE0 \<le> c" "\<not> 0xF0 \<le> c"
    using order_trans [of "0xC2" c "0xBF"] order_trans [of "0xE0" c "0xBF"] order_trans [of "0xF0" c "0xBF"] by auto
  then show False using assms c(1) by simp
qed

lemma boundary_after_ascii:
  assumes "utf8_valid bs" "i < length bs" "bs ! i < 0x80"
  shows "is_char_boundary bs (Suc i)"
proof (cases "Suc i = length bs")
  case False
  then have "drop (Suc i) bs = bs ! Suc i # drop (Suc (Suc i)) bs" using assms(2) by (simp add: Cons_nth_drop_Suc)
  then have "\<not> utf8_cont (bs ! Suc i)" using utf8_valid_after_ascii [OF assms] utf8_valid_hd by metis
  then show ?thesis using assms(2) False by (simp add: is_char_boundary_def del: utf8_cont.simps)
qed (simp add: is_char_boundary_def)

lemma boundary_at_ascii: "i < length bs \<Longrightarrow> bs ! i < 0x80 \<Longrightarrow> is_char_boundary bs i"
  by (auto simp: is_char_boundary_def)

section \<open>The scanner ends and does not panic\<close>

lemma skip_string_loop_total:
  assumes "searcher_ok m"
  shows "pos \<le> length bs \<Longrightarrow> \<exists>pos' closed. skip_string_loop m bs pos = Some (pos', closed) \<and> pos' \<le> length bs
    \<and> (closed \<longrightarrow> pos < pos' \<and> bs ! (pos' - 1) = QUOTE)"
proof (induction "length bs - pos" arbitrary: pos rule: less_induct)
  case less
  have mem: "memchr2 m QUOTE BACKSLASH (drop pos bs) = position (\<lambda>c. c = QUOTE \<or> c = BACKSLASH) (drop pos bs)"
    using assms by (simp add: searcher_ok_def)
  show ?case
  proof (cases "position (\<lambda>c. c = QUOTE \<or> c = BACKSLASH) (drop pos bs)")
    case None
    then show ?thesis using less.prems mem by (subst skip_string_loop.simps) auto
  next
    case (Some i)
    have i: "i < length bs - pos" using position_SomeD [OF Some] by simp
    show ?thesis
    proof (cases "drop pos bs ! i = QUOTE")
      case True
      then have "skip_string_loop m bs pos = Some (pos + (i + 1), True)"
        using less.prems mem Some i by (subst skip_string_loop.simps) (simp add: Let_def)
      then show ?thesis using i True less.prems by auto
    next
      case False
      let ?p = "pos + min (i + 2) (length (drop pos bs))"
      have "skip_string_loop m bs pos = skip_string_loop m bs ?p"
        using less.prems mem Some i False by (subst skip_string_loop.simps) (simp add: Let_def)
      moreover have "length bs - ?p < length bs - pos" "?p \<le> length bs" using i less.prems by auto
      then obtain pos' closed where "skip_string_loop m bs ?p = Some (pos', closed)" "pos' \<le> length bs"
        "closed \<longrightarrow> ?p < pos' \<and> bs ! (pos' - 1) = QUOTE" using less.hyps by blast
      ultimately show ?thesis by fastforce
    qed
  qed
qed

lemma skip_string_total:
  assumes "searcher_ok m" "pos < length bs"
  obtains pos' closed where "skip_string m bs pos = Some (pos', closed)" "pos' \<le> length bs"
    "closed \<Longrightarrow> pos + 1 < pos' \<and> bs ! (pos' - 1) = QUOTE"
  using skip_string_loop_total [OF assms(1), of "pos + 1" bs] assms(2) by (auto simp: skip_string_def)

lemma slice_str_ascii_end:
  assumes "utf8_valid bs" "is_char_boundary bs i" "i \<le> j" "j < length bs" "bs ! j < 0x80"
  shows "slice_str bs i (j + 1) = Some (subslice bs i (j + 1))"
  using assms boundary_after_ascii [of bs j] by (simp add: slice_str_def)

definition openers_ok :: "bytes \<Rightarrow> nat \<Rightarrow> nat \<Rightarrow> bool" where
  "openers_ok bs pos depth = (0 < depth \<or> (pos < length bs \<and> bs ! pos \<in> {LBRACE, LBRACKET}))"

lemma scan_container_total:
  assumes "searcher_ok m" "utf8_valid bs" "is_char_boundary bs start"
  shows "pos \<le> length bs \<Longrightarrow> start \<le> pos \<Longrightarrow> openers_ok bs pos depth \<Longrightarrow>
    \<exists>pos' r. scan_container m bs start pos depth = Some (pos', r) \<and> pos' \<le> length bs
      \<and> (r \<noteq> None \<longrightarrow> pos < pos' \<and> r = Some \<lparr>sv_raw = subslice bs start pos', sv_is_string = False\<rparr> \<and> is_char_boundary bs pos')"
proof (induction "length bs - pos" arbitrary: pos depth rule: less_induct)
  case less
  show ?case
  proof (cases "position structural (drop pos bs)")
    case None
    then show ?thesis
      using less.prems by (subst scan_container.simps) (simp add: find_structural_eq [OF assms(1)])
  next
    case (Some off)
    let ?p = "pos + off"
    have off: "off < length bs - pos" "structural (bs ! ?p)" "\<forall>j < off. \<not> structural (bs ! (pos + j))"
      using position_SomeD [OF Some] by auto
    have p: "?p < length bs" "\<not> pos > length bs" using off(1) by auto
    have step: "scan_container m bs start pos depth =
      (if bs ! ?p = QUOTE then
         (case skip_string m bs ?p of
            None \<Rightarrow> None
          | Some (pos', closed) \<Rightarrow> if closed then scan_container m bs start pos' depth else Some (pos', None))
       else if bs ! ?p = LBRACE \<or> bs ! ?p = LBRACKET then scan_container m bs start (?p + 1) (depth + 1)
       else if depth = 0 then None
       else if depth - 1 = 0 then
         (case slice_str bs start (?p + 1) of
            None \<Rightarrow> None
          | Some raw \<Rightarrow> Some (?p + 1, Some \<lparr>sv_raw = raw, sv_is_string = False\<rparr>))
       else scan_container m bs start (?p + 1) (depth - 1))"
      using p Some by (subst scan_container.simps) (simp add: find_structural_eq [OF assms(1)] Let_def)
    have zero: "depth = 0 \<Longrightarrow> bs ! ?p \<in> {LBRACE, LBRACKET}"
    proof -
      assume "depth = 0"
      then have o: "bs ! pos \<in> {LBRACE, LBRACKET}" using less.prems(3) by (simp add: openers_ok_def)
      then have "structural (bs ! (pos + 0))" by (auto simp: structural_def)
      then have "off = 0" using off(3) by blast
      then show ?thesis using o by simp
    qed
    have ih: "\<exists>pos' r. scan_container m bs start q d = Some (pos', r) \<and> pos' \<le> length bs
      \<and> (r \<noteq> None \<longrightarrow> pos < pos' \<and> r = Some \<lparr>sv_raw = subslice bs start pos', sv_is_string = False\<rparr> \<and> is_char_boundary bs pos')"
      if "pos < q" "q \<le> length bs" "0 < d" for q d
    proof -
      have "length bs - q < length bs - pos" "start \<le> q" using that less.prems(2) by auto
      then obtain pos' r where "scan_container m bs start q d = Some (pos', r)" "pos' \<le> length bs"
        "r \<noteq> None \<longrightarrow> q < pos' \<and> r = Some \<lparr>sv_raw = subslice bs start pos', sv_is_string = False\<rparr> \<and> is_char_boundary bs pos'"
        using less.hyps [of q d] \<open>q \<le> length bs\<close> \<open>0 < d\<close> unfolding openers_ok_def by blast
      then show ?thesis using \<open>pos < q\<close> by (intro exI [of _ pos'] exI [of _ r]) auto
    qed
    consider (quote) "bs ! ?p = QUOTE" | (brace) "bs ! ?p = LBRACE \<or> bs ! ?p = LBRACKET"
      | (closing) "bs ! ?p = RBRACE \<or> bs ! ?p = RBRACKET"
      using off(2) by (auto simp: structural_def)
    then show ?thesis
    proof cases
      case quote
      obtain pos' closed where s: "skip_string m bs ?p = Some (pos', closed)" "pos' \<le> length bs"
        "closed \<Longrightarrow> ?p + 1 < pos' \<and> bs ! (pos' - 1) = QUOTE" using skip_string_total [OF assms(1) p(1)] by blast
      have "0 < depth" using zero quote by (cases depth) auto
      then show ?thesis using step quote s ih [of pos' depth] by (cases closed) auto
    next
      case brace
      have "bs ! ?p \<noteq> QUOTE" using brace by auto
      then show ?thesis using step brace ih [of "?p + 1" "depth + 1"] p(1) by simp
    next
      case closing
      have ne: "bs ! ?p \<noteq> QUOTE" "\<not> (bs ! ?p = LBRACE \<or> bs ! ?p = LBRACKET)" "bs ! ?p < 0x80" using closing by auto
      then have d: "0 < depth" using zero by (cases depth) auto
      show ?thesis
      proof (cases "depth - 1 = 0")
        case True
        have "slice_str bs start (?p + 1) = Some (subslice bs start (?p + 1))"
          using slice_str_ascii_end [OF assms(2,3) _ p(1) ne(3)] less.prems(2) by simp
        moreover have "is_char_boundary bs (?p + 1)" using boundary_after_ascii [OF assms(2) p(1) ne(3)] by simp
        ultimately show ?thesis using step ne d True p(1) by simp
      next
        case False
        then show ?thesis using step ne d ih [of "?p + 1" "depth - 1"] p(1) by simp
      qed
    qed
  qed
qed

lemma skip_ws_boundary:
  assumes "utf8_valid bs"
  shows "pos \<le> length bs \<Longrightarrow> is_char_boundary bs pos \<Longrightarrow>
    pos \<le> skip_ws bs pos \<and> skip_ws bs pos \<le> length bs \<and> is_char_boundary bs (skip_ws bs pos)"
proof (induction "length bs - pos" arbitrary: pos rule: less_induct)
  case less
  show ?case
  proof (cases "pos < length bs \<and> is_ascii_whitespace (bs ! pos)")
    case True
    then have "bs ! pos < 0x80" by (auto simp: is_ascii_whitespace_def)
    then have "is_char_boundary bs (pos + 1)" using boundary_after_ascii [OF assms] True by simp
    moreover have "skip_ws bs pos = skip_ws bs (pos + 1)" using True by (subst skip_ws.simps) simp
    moreover have "length bs - (pos + 1) < length bs - pos" "pos + 1 \<le> length bs" using True by auto
    ultimately show ?thesis using less.hyps [of "pos + 1"] by simp
  next
    case False
    then have "skip_ws bs pos = pos" by (subst skip_ws.simps) auto
    then show ?thesis using less.prems by simp
  qed
qed

lemma skip_token_bounds:
  "pos \<le> length bs \<Longrightarrow> pos \<le> skip_token bs pos \<and> skip_token bs pos \<le> length bs
     \<and> (skip_token bs pos < length bs \<longrightarrow> token_end (bs ! skip_token bs pos))"
proof (induction "length bs - pos" arbitrary: pos rule: less_induct)
  case less
  show ?case
  proof (cases "pos < length bs \<and> \<not> token_end (bs ! pos)")
    case True
    then have "skip_token bs pos = skip_token bs (pos + 1)" by (subst skip_token.simps) simp
    moreover have "length bs - (pos + 1) < length bs - pos" "pos + 1 \<le> length bs" using True by auto
    ultimately show ?thesis using less.hyps [of "pos + 1"] by simp
  next
    case False
    then have "skip_token bs pos = pos" by (subst skip_token.simps) auto
    then show ?thesis using less.prems False by auto
  qed
qed

lemma subslice_subslice: "i + b \<le> j \<Longrightarrow> subslice (subslice bs i j) a b = subslice bs (i + a) (i + b)"
  by (simp add: subslice_def drop_take add.commute)

lemma inner_quoted:
  assumes "utf8_valid bs" "start + 1 < pos" "pos \<le> length bs" "bs ! start = QUOTE" "bs ! (pos - 1) = QUOTE"
  shows "inner \<lparr>sv_raw = subslice bs start pos, sv_is_string = True\<rparr> = Some (subslice bs (start + 1) (pos - 1))"
proof -
  define raw where "raw = subslice bs start pos"
  have nth: "raw ! j = bs ! (start + j)" if "start + j < pos" for j
    using that assms(3) by (simp add: raw_def subslice_def)
  have len: "length raw = pos - start" using assms(3) by (simp add: raw_def)
  then have lt: "1 < length raw" using assms(2) by linarith
  then have ne: "raw \<noteq> []" by auto
  have "is_char_boundary bs (Suc start)" using boundary_after_ascii [OF assms(1), of start] assms by simp
  then have "\<not> utf8_cont (bs ! Suc start)"
    using assms(2,3) unfolding is_char_boundary_def by (metis Suc_eq_plus1 less_le_trans nat.distinct(1) less_irrefl)
  then have 1: "is_char_boundary raw 1"
    unfolding is_char_boundary_def using nth [of 1] lt assms(2) by simp
  have "raw ! (length raw - 1) = QUOTE" using nth [of "length raw - 1"] assms(2,5) len by simp
  then have 2: "is_char_boundary raw (length raw - 1)"
    using lt ne by (intro boundary_at_ascii) simp_all
  have "1 \<le> length raw - 1" "\<not> length raw < 1" using lt ne by simp_all
  then have "inner \<lparr>sv_raw = raw, sv_is_string = True\<rparr> = Some (subslice raw 1 (length raw - 1))"
    using 1 2 by (simp add: inner_def slice_str_def del: One_nat_def)
  also have "subslice raw 1 (length raw - 1) = subslice bs (start + 1) (pos - 1)"
    using assms(2) unfolding raw_def by (subst subslice_subslice) (simp_all add: len [unfolded raw_def])
  finally show ?thesis unfolding raw_def .
qed

lemma scan_element_total:
  assumes "searcher_ok m" "utf8_valid bs" "is_char_boundary bs start" "start < length bs"
  shows "\<exists>pos r. scan_element m bs start = Some (pos, r) \<and> pos \<le> length bs
    \<and> (\<forall>v. r = Some v \<longrightarrow> start < pos \<and> is_char_boundary bs pos \<and> inner v \<noteq> None \<and> sv_raw v = subslice bs start pos)"
proof -
  consider (quote) "bs ! start = QUOTE" | (brace) "bs ! start \<noteq> QUOTE" "bs ! start = LBRACE \<or> bs ! start = LBRACKET"
    | (token) "bs ! start \<noteq> QUOTE" "\<not> (bs ! start = LBRACE \<or> bs ! start = LBRACKET)" by blast
  then show ?thesis
  proof cases
    case quote
    obtain pos closed where s: "skip_string m bs start = Some (pos, closed)" "pos \<le> length bs"
      "closed \<Longrightarrow> start + 1 < pos \<and> bs ! (pos - 1) = QUOTE" using skip_string_total [OF assms(1,4)] by blast
    show ?thesis
    proof (cases closed)
      case True
      then have e: "start + 1 < pos" "bs ! (pos - 1) = QUOTE" "pos - 1 < length bs" using s by auto
      then have "slice_str bs start (pos - 1 + 1) = Some (subslice bs start (pos - 1 + 1))"
        by (intro slice_str_ascii_end [OF assms(2,3)]) auto
      then have sl: "slice_str bs start pos = Some (subslice bs start pos)" using e(1) by simp
      have "is_char_boundary bs (Suc (pos - 1))" using boundary_after_ascii [OF assms(2) e(3)] e(2) by simp
      then show ?thesis
        using inner_quoted [OF assms(2) e(1) s(2) quote e(2)] quote s True sl assms(4) e(1)
        by (simp add: scan_element_def Let_def)
    qed (use quote s assms(4) in \<open>simp add: scan_element_def Let_def\<close>)
  next
    case brace
    have "openers_ok bs start 0" using brace(2) assms(4) by (auto simp: openers_ok_def)
    then obtain pos r where "scan_container m bs start start 0 = Some (pos, r)" "pos \<le> length bs"
      "r \<noteq> None \<longrightarrow> start < pos \<and> r = Some \<lparr>sv_raw = subslice bs start pos, sv_is_string = False\<rparr> \<and> is_char_boundary bs pos"
      using scan_container_total [OF assms(1-3), of start 0] assms(4) by auto
    then show ?thesis using brace assms(4) by (auto simp: scan_element_def Let_def inner_def)
  next
    case token
    let ?pos = "skip_token bs start"
    have p: "start \<le> ?pos" "?pos \<le> length bs" "?pos < length bs \<longrightarrow> token_end (bs ! ?pos)"
      using skip_token_bounds [of start bs] assms(4) by auto
    have "is_char_boundary bs ?pos"
    proof (cases "?pos < length bs")
      case True
      then have "bs ! ?pos < 0x80" using p(3) by (auto simp: token_end_def)
      then show ?thesis by (rule boundary_at_ascii [OF True])
    qed (use p(2) in \<open>simp add: is_char_boundary_def\<close>)
    then show ?thesis
      using token assms(3,4) p by (cases "?pos = start") (auto simp: scan_element_def Let_def slice_str_def inner_def)
  qed
qed

lemma scan_args_total:
  assumes "searcher_ok m" "utf8_valid bs"
  shows "pos \<le> length bs \<Longrightarrow> is_char_boundary bs pos \<Longrightarrow>
    \<exists>vs. scan_args m bs n pos = Some vs \<and> length vs \<le> n \<and> list_all (\<lambda>v. inner v \<noteq> None) vs"
proof (induction n arbitrary: pos)
  case (Suc n)
  let ?p = "skip_ws bs pos"
  have p: "?p \<le> length bs" using skip_ws_boundary [OF assms(2)] Suc.prems by blast
  show ?case
  proof (cases "?p < length bs \<and> bs ! ?p = COMMA")
    case True
    have "is_char_boundary bs (?p + 1)" using boundary_after_ascii [OF assms(2)] True by simp
    then have q: "skip_ws bs (?p + 1) \<le> length bs" "is_char_boundary bs (skip_ws bs (?p + 1))"
      using skip_ws_boundary [OF assms(2), of "?p + 1"] True by auto
    show ?thesis
    proof (cases "skip_ws bs (?p + 1) < length bs")
      case lt: True
      obtain pos' r where e: "scan_element m bs (skip_ws bs (?p + 1)) = Some (pos', r)" "pos' \<le> length bs"
        "\<forall>v. r = Some v \<longrightarrow> is_char_boundary bs pos' \<and> inner v \<noteq> None"
        using scan_element_total [OF assms q(2) lt] by blast
      then show ?thesis using True Suc.IH [of pos'] by (cases r) (auto simp: Let_def)
    qed (use True in \<open>simp add: Let_def\<close>)
  qed (auto simp: Let_def)
qed simp

lemma scan_relay_frame_total:
  assumes "searcher_ok m" "utf8_valid text"
  shows "\<exists>r. scan_relay_frame m text = Some r \<and>
    (\<forall>scan. r = Some scan \<longrightarrow> length (sf_args scan) = 3 \<and> (\<forall>v. Some v \<in> set (sf_args scan) \<longrightarrow> inner v \<noteq> None))"
proof -
  let ?p = "skip_ws text 0"
  have p: "?p \<le> length text" using skip_ws_boundary [OF assms(2), of 0] by (simp add: is_char_boundary_def)
  show ?thesis
  proof (cases "?p < length text \<and> text ! ?p = LBRACKET")
    case True
    have "is_char_boundary text (?p + 1)" using boundary_after_ascii [OF assms(2)] True by simp
    then have q: "skip_ws text (?p + 1) \<le> length text" "is_char_boundary text (skip_ws text (?p + 1))"
      using skip_ws_boundary [OF assms(2), of "?p + 1"] True by auto
    show ?thesis
    proof (cases "skip_ws text (?p + 1) < length text")
      case lt: True
      obtain pos r where e: "scan_element m text (skip_ws text (?p + 1)) = Some (pos, r)" "pos \<le> length text"
        "\<forall>v. r = Some v \<longrightarrow> is_char_boundary text pos \<and> inner v \<noteq> None"
        using scan_element_total [OF assms q(2) lt] by blast
      show ?thesis
      proof (cases r)
        case (Some v)
        obtain vs where "scan_args m text 3 pos = Some vs" "length vs \<le> 3" "list_all (\<lambda>v. inner v \<noteq> None) vs"
          using scan_args_total [OF assms e(2)] e(3) Some by blast
        then show ?thesis using True e Some by (auto simp: scan_relay_frame_def list_all_iff Let_def)
      qed (use True e in \<open>auto simp: scan_relay_frame_def Let_def\<close>)
    qed (use True in \<open>auto simp: scan_relay_frame_def Let_def\<close>)
  qed (use p in \<open>auto simp: scan_relay_frame_def Let_def\<close>)
qed

section \<open>Frames written as JSON\<close>

text \<open>
  The text of a string, and of an object or array as far as the scanner can tell them apart: strings,
  nested groups, and all other bytes.
\<close>

datatype str_item = Plain u8 | Escaped u8

datatype json_part = Raw u8 | Quoted "str_item list" | Group u8 "json_part list" u8

datatype json_element = EString "str_item list" | EGroup u8 "json_part list" u8 | EToken bytes

fun item_text :: "str_item \<Rightarrow> bytes" where
  "item_text (Plain c) = [c]"
| "item_text (Escaped c) = [BACKSLASH, c]"

fun item_ok :: "str_item \<Rightarrow> bool" where
  "item_ok (Plain c) = (c \<noteq> QUOTE \<and> c \<noteq> BACKSLASH)"
| "item_ok (Escaped c) = True"

definition str_text :: "str_item list \<Rightarrow> bytes" where
  "str_text items = QUOTE # concat (map item_text items) @ [QUOTE]"

fun part_text :: "json_part \<Rightarrow> bytes" and parts_text :: "json_part list \<Rightarrow> bytes" where
  "part_text (Raw c) = [c]"
| "part_text (Quoted items) = str_text items"
| "part_text (Group a ps b) = a # parts_text ps @ [b]"
| "parts_text [] = []"
| "parts_text (p # ps) = part_text p @ parts_text ps"

fun part_ok :: "json_part \<Rightarrow> bool" and parts_ok :: "json_part list \<Rightarrow> bool" where
  "part_ok (Raw c) = (\<not> structural c)"
| "part_ok (Quoted items) = list_all item_ok items"
| "part_ok (Group a ps b) = (a \<in> {LBRACE, LBRACKET} \<and> b \<in> {RBRACE, RBRACKET} \<and> parts_ok ps)"
| "parts_ok [] = True"
| "parts_ok (p # ps) = (part_ok p \<and> parts_ok ps)"

fun element_text :: "json_element \<Rightarrow> bytes" where
  "element_text (EString items) = str_text items"
| "element_text (EGroup a ps b) = part_text (Group a ps b)"
| "element_text (EToken bs) = bs"

fun element_ok :: "json_element \<Rightarrow> bool" where
  "element_ok (EString items) = list_all item_ok items"
| "element_ok (EGroup a ps b) = part_ok (Group a ps b)"
| "element_ok (EToken bs) = (bs \<noteq> [] \<and> hd bs \<notin> {QUOTE, LBRACE, LBRACKET, 0x0C} \<and> list_all (\<lambda>c. \<not> token_end c) bs)"

definition element_value :: "json_element \<Rightarrow> scanned_value" where
  "element_value e = \<lparr>sv_raw = element_text e, sv_is_string = (case e of EString _ \<Rightarrow> True | _ \<Rightarrow> False)\<rparr>"

definition element_inner :: "json_element \<Rightarrow> bytes" where
  "element_inner e = (case e of EString items \<Rightarrow> concat (map item_text items) | _ \<Rightarrow> element_text e)"

text \<open>One step of the string loop per item.\<close>

lemma loop_eq:
  assumes "searcher_ok m" "pos \<le> length bs"
  shows "skip_string_loop m bs pos =
    (case position (\<lambda>c. c = QUOTE \<or> c = BACKSLASH) (drop pos bs) of
       Some i \<Rightarrow> if bs ! (pos + i) = QUOTE then Some (pos + (i + 1), True)
                 else skip_string_loop m bs (min (pos + i + 2) (length bs))
     | None \<Rightarrow> Some (length bs, False))"
proof -
  have mem: "memchr2 m QUOTE BACKSLASH (drop pos bs) = position (\<lambda>c. c = QUOTE \<or> c = BACKSLASH) (drop pos bs)"
    using assms(1) by (simp add: searcher_ok_def)
  show ?thesis
  proof (cases "position (\<lambda>c. c = QUOTE \<or> c = BACKSLASH) (drop pos bs)")
    case (Some i)
    have i: "i < length bs - pos" using position_SomeD [OF Some] by simp
    then have "pos + min (i + 2) (length (drop pos bs)) = min (pos + i + 2) (length bs)" by auto
    then show ?thesis using assms(2) mem Some i by (subst skip_string_loop.simps) (simp add: Let_def)
  qed (use assms(2) mem in \<open>subst skip_string_loop.simps, simp\<close>)
qed

lemma drop_at: "pos < length bs \<Longrightarrow> drop pos bs = bs ! pos # drop (Suc pos) bs"
  by (simp add: Cons_nth_drop_Suc)

lemma loop_plain:
  assumes "searcher_ok m" "pos < length bs" "bs ! pos \<noteq> QUOTE" "bs ! pos \<noteq> BACKSLASH"
  shows "skip_string_loop m bs pos = skip_string_loop m bs (Suc pos)"
  using assms loop_eq [OF assms(1), of pos bs] loop_eq [OF assms(1), of "Suc pos" bs] drop_at [OF assms(2)]
  by (auto split: option.splits)

lemma loop_escape:
  assumes "searcher_ok m" "Suc pos < length bs" "bs ! pos = BACKSLASH"
  shows "skip_string_loop m bs pos = skip_string_loop m bs (Suc (Suc pos))"
  using assms loop_eq [OF assms(1), of pos bs] drop_at [of pos bs] by (simp add: min_def)

lemma loop_quote:
  assumes "searcher_ok m" "pos < length bs" "bs ! pos = QUOTE"
  shows "skip_string_loop m bs pos = Some (Suc pos, True)"
  using assms loop_eq [OF assms(1), of pos bs] drop_at [of pos bs] by simp

lemma loop_items:
  assumes "searcher_ok m"
  shows "list_all item_ok items \<Longrightarrow>
    skip_string_loop m (pre @ concat (map item_text items) @ QUOTE # r) (length pre) =
      Some (length pre + length (concat (map item_text items)) + 1, True)"
proof (induction items arbitrary: pre)
  case Nil
  then show ?case using loop_quote [OF assms, of "length pre" "pre @ QUOTE # r"] by simp
next
  case (Cons x items)
  let ?bs = "pre @ concat (map item_text (x # items)) @ QUOTE # r"
  have "skip_string_loop m ?bs (length pre) = skip_string_loop m ?bs (length pre + length (item_text x))"
  proof (cases x)
    case (Plain c)
    then show ?thesis using loop_plain [OF assms, of "length pre" ?bs] Cons.prems by simp
  next
    case (Escaped c)
    then show ?thesis using loop_escape [OF assms, of "length pre" ?bs] by simp
  qed
  then show ?case using Cons.IH [of "pre @ item_text x"] Cons.prems by simp
qed

lemma skip_str_text:
  assumes "searcher_ok m" "list_all item_ok items"
  shows "skip_string m (pre @ str_text items @ r) (length pre) = Some (length pre + length (str_text items), True)"
  using loop_items [OF assms, of "pre @ [QUOTE]" r] by (simp add: skip_string_def str_text_def)

text \<open>One step of the container loop per part.\<close>

lemma position_None_iff: "position P cs = None \<longleftrightarrow> \<not> list_ex P cs"
  by (induction cs) auto

lemma container_raw:
  assumes "searcher_ok m" "pos < length bs" "\<not> structural (bs ! pos)" "list_ex structural (drop (Suc pos) bs)"
  shows "scan_container m bs start pos depth = scan_container m bs start (Suc pos) depth"
proof -
  obtain off where off: "position structural (drop (Suc pos) bs) = Some off"
    using assms(4) position_None_iff by blast
  then have "position structural (drop pos bs) = Some (Suc off)"
    using assms(3) drop_at [OF assms(2)] by simp
  with off show ?thesis
    using assms(2) by (subst (1 2) scan_container.simps) (simp add: find_structural_eq [OF assms(1)] Let_def)
qed

lemma container_at:
  assumes "searcher_ok m" "pos < length bs" "structural (bs ! pos)"
  shows "scan_container m bs start pos depth =
    (if bs ! pos = QUOTE then
       (case skip_string m bs pos of
          None \<Rightarrow> None
        | Some (pos', closed) \<Rightarrow> if closed then scan_container m bs start pos' depth else Some (pos', None))
     else if bs ! pos = LBRACE \<or> bs ! pos = LBRACKET then scan_container m bs start (Suc pos) (Suc depth)
     else if depth = 0 then None
     else if depth = 1 then
       (case slice_str bs start (Suc pos) of
          None \<Rightarrow> None
        | Some raw \<Rightarrow> Some (Suc pos, Some \<lparr>sv_raw = raw, sv_is_string = False\<rparr>))
     else scan_container m bs start (Suc pos) (depth - 1))"
proof -
  have "position structural (drop pos bs) = Some 0" using assms(3) drop_at [OF assms(2)] by simp
  moreover have "depth \<noteq> 0 \<Longrightarrow> (depth \<le> Suc 0) = (depth = Suc 0)" by auto
  ultimately show ?thesis
    using assms(2) by (subst scan_container.simps) (simp add: find_structural_eq [OF assms(1)] Let_def split: option.split)
qed

lemma str_text_hd: "str_text items = QUOTE # tl (str_text items)"
  by (simp add: str_text_def)

lemma container_parts:
  assumes "searcher_ok m"
  shows "part_ok p \<Longrightarrow> 0 < depth \<Longrightarrow> list_ex structural r \<Longrightarrow> scan_container m (pre @ part_text p @ r) start (length pre) depth =
      scan_container m (pre @ part_text p @ r) start (length pre + length (part_text p)) depth"
    and "parts_ok ps \<Longrightarrow> 0 < depth \<Longrightarrow> list_ex structural r \<Longrightarrow> scan_container m (pre @ parts_text ps @ r) start (length pre) depth =
      scan_container m (pre @ parts_text ps @ r) start (length pre + length (parts_text ps)) depth"
proof (induction p and ps arbitrary: pre r depth and pre r depth rule: part_text_parts_text.induct)
  case (1 c)
  then show ?case using container_raw [OF assms, of "length pre" "pre @ [c] @ r"] by simp
next
  case (2 items)
  have "(pre @ str_text items @ r) ! length pre = QUOTE" by (subst str_text_hd) (simp add: nth_append)
  then show ?case
    using container_at [OF assms, of "length pre" "pre @ str_text items @ r" start depth] 2 skip_str_text [OF assms, of items pre r]
    by (simp add: structural_def str_text_def)
next
  case (3 a ps b)
  let ?bs = "pre @ (a # parts_text ps @ [b]) @ r"
  let ?mid = "length pre + 1 + length (parts_text ps)"
  have a: "?bs ! length pre = a" "a \<in> {LBRACE, LBRACKET}" using 3 by (auto simp: nth_append)
  have b: "?bs ! ?mid = b" "b \<in> {RBRACE, RBRACKET}" using 3 by (auto simp: nth_append)
  have "scan_container m ?bs start (length pre) depth = scan_container m ?bs start (Suc (length pre)) (Suc depth)"
    using container_at [OF assms, of "length pre" ?bs start depth] a by (auto simp: structural_def)
  also have "\<dots> = scan_container m ?bs start ?mid (Suc depth)"
    using 3(1) [of "Suc depth" "[b] @ r" "pre @ [a]"] 3(2) b(2) by (auto simp: structural_def)
  also have "\<dots> = scan_container m ?bs start (Suc ?mid) depth"
    using container_at [OF assms, of ?mid ?bs start "Suc depth"] b 3(3) by (auto simp: structural_def)
  finally show ?case by simp
next
  case 4
  then show ?case by simp
next
  case (5 p ps)
  have "scan_container m (pre @ part_text p @ (parts_text ps @ r)) start (length pre) depth =
      scan_container m (pre @ part_text p @ (parts_text ps @ r)) start (length pre + length (part_text p)) depth"
    using 5(1) [of depth "parts_text ps @ r" pre] 5(3-5) by simp
  also have "\<dots> = scan_container m ((pre @ part_text p) @ parts_text ps @ r) start (length (pre @ part_text p) + length (parts_text ps)) depth"
    using 5(2) [of depth r "pre @ part_text p"] 5(3-5) by simp
  finally show ?case by (simp add: add.assoc)
qed

lemma container_text:
  assumes "searcher_ok m" "part_ok (Group a ps b)" "utf8_valid (pre @ part_text (Group a ps b) @ r)"
    "is_char_boundary (pre @ part_text (Group a ps b) @ r) (length pre)"
  shows "scan_container m (pre @ part_text (Group a ps b) @ r) (length pre) (length pre) 0 =
    Some (length pre + length (part_text (Group a ps b)), Some \<lparr>sv_raw = part_text (Group a ps b), sv_is_string = False\<rparr>)"
proof -
  let ?bs = "pre @ (a # parts_text ps @ [b]) @ r"
  let ?mid = "length pre + 1 + length (parts_text ps)"
  have a: "?bs ! length pre = a" "a \<in> {LBRACE, LBRACKET}" using assms(2) by (auto simp: nth_append)
  have b: "?bs ! ?mid = b" "b \<in> {RBRACE, RBRACKET}" "b < 0x80" using assms(2) by (auto simp: nth_append)
  have "scan_container m ?bs (length pre) (length pre) 0 = scan_container m ?bs (length pre) (Suc (length pre)) 1"
    using container_at [OF assms(1), of "length pre" ?bs "length pre" 0] a by (auto simp: structural_def)
  also have "\<dots> = scan_container m ?bs (length pre) ?mid 1"
    using container_parts(2) [OF assms(1), of ps 1 "[b] @ r" "pre @ [a]" "length pre"] assms(2) by (auto simp: structural_def)
  also have "\<dots> = (case slice_str ?bs (length pre) (Suc ?mid) of
      None \<Rightarrow> None | Some raw \<Rightarrow> Some (Suc ?mid, Some \<lparr>sv_raw = raw, sv_is_string = False\<rparr>))"
    using container_at [OF assms(1), of ?mid ?bs "length pre" 1] b by (auto simp: structural_def)
  also have "slice_str ?bs (length pre) (Suc ?mid) = Some (subslice ?bs (length pre) (Suc ?mid))"
    using slice_str_ascii_end [of ?bs "length pre" ?mid] assms(3,4) b by simp
  also have "subslice ?bs (length pre) (Suc ?mid) = a # parts_text ps @ [b]" by (simp add: subslice_def)
  finally show ?thesis by simp
qed

lemma skip_token_text:
  "list_all (\<lambda>c. \<not> token_end c) bs \<Longrightarrow> r = [] \<or> token_end (hd r)
   \<Longrightarrow> skip_token (pre @ bs @ r) (length pre) = length pre + length bs"
proof (induction bs arbitrary: pre)
  case Nil
  then show ?case by (subst skip_token.simps) (cases r; simp add: nth_append)
next
  case (Cons c bs)
  then have "skip_token (pre @ (c # bs) @ r) (length pre) = skip_token ((pre @ [c]) @ bs @ r) (length (pre @ [c]))"
    by (subst skip_token.simps) (simp add: nth_append)
  then show ?case using Cons.IH [of "pre @ [c]"] Cons.prems by simp
qed

lemma element_text_nonempty: "element_ok e \<Longrightarrow> element_text e \<noteq> []"
  by (cases e) (simp_all add: str_text_def)

lemma scan_element_text:
  assumes "searcher_ok m" "element_ok e" "utf8_valid (pre @ element_text e @ r)"
    "is_char_boundary (pre @ element_text e @ r) (length pre)" "r = [] \<or> token_end (hd r)"
  shows "scan_element m (pre @ element_text e @ r) (length pre) =
      Some (length pre + length (element_text e), Some (element_value e))"
proof -
  let ?bs = "pre @ element_text e @ r"
  have lt: "length pre < length ?bs" using element_text_nonempty [OF assms(2)] by simp
  have hd: "?bs ! length pre = hd (element_text e)"
    using element_text_nonempty [OF assms(2)] by (cases "element_text e") (simp_all add: nth_append)
  have slice: "subslice ?bs (length pre) (length pre + length (element_text e)) = element_text e"
    by (simp add: subslice_def)
  show ?thesis
  proof (cases e)
    case (EString items)
    let ?last = "length pre + length (str_text items) - 1"
    have "?bs ! ?last = QUOTE" using EString by (simp add: str_text_def nth_append)
    then have "slice_str ?bs (length pre) (?last + 1) = Some (subslice ?bs (length pre) (?last + 1))"
      using EString by (intro slice_str_ascii_end [OF assms(3,4)]) (auto simp: str_text_def)
    moreover have "?last + 1 = length pre + length (str_text items)" by (simp add: str_text_def)
    ultimately show ?thesis
      using skip_str_text [OF assms(1), of items pre r] lt hd slice assms(2) EString
      by (simp add: scan_element_def Let_def element_value_def str_text_def)
  next
    case (EGroup a ps b)
    then have "hd (element_text e) = LBRACE \<or> hd (element_text e) = LBRACKET" "hd (element_text e) \<noteq> QUOTE"
      using assms(2) by auto
    then show ?thesis
      using container_text [OF assms(1), of a ps b pre r] assms(2-4) lt hd EGroup
      by (simp add: scan_element_def Let_def element_value_def)
  next
    case (EToken bs)
    have st: "skip_token ?bs (length pre) = length pre + length bs"
      using skip_token_text [of bs r pre] assms(2,5) EToken by simp
    have "is_char_boundary ?bs (length pre + length bs)"
    proof (cases r)
      case Nil
      then show ?thesis using EToken by (simp add: is_char_boundary_def)
    next
      case (Cons c r')
      then have "c < 0x80" using assms(5) by (auto simp: token_end_def)
      then show ?thesis using Cons EToken by (intro boundary_at_ascii) (simp_all add: nth_append)
    qed
    then have "slice_str ?bs (length pre) (length pre + length bs) = Some bs"
      using assms(4) slice EToken by (simp add: slice_str_def)
    then show ?thesis
      using st hd lt assms(2) EToken by (simp add: scan_element_def Let_def element_value_def)
  qed
qed

text \<open>Separators: the four whitespace bytes of JSON around a comma.\<close>

definition json_ws :: "bytes \<Rightarrow> bool" where
  "json_ws w = list_all (\<lambda>c. c \<in> {0x20, 0x09, 0x0A, 0x0D}) w"

lemma skip_ws_text:
  "json_ws w \<Longrightarrow> r = [] \<or> \<not> is_ascii_whitespace (hd r) \<Longrightarrow> skip_ws (pre @ w @ r) (length pre) = length pre + length w"
proof (induction w arbitrary: pre)
  case Nil
  then show ?case by (subst skip_ws.simps) (cases r; simp add: nth_append)
next
  case (Cons c w)
  then have "skip_ws (pre @ (c # w) @ r) (length pre) = skip_ws ((pre @ [c]) @ w @ r) (length (pre @ [c]))"
    by (subst skip_ws.simps) (auto simp: nth_append json_ws_def is_ascii_whitespace_def)
  then show ?case using Cons.IH [of "pre @ [c]"] Cons.prems by (simp add: json_ws_def)
qed

definition arg_text :: "bytes \<times> bytes \<times> json_element \<Rightarrow> bytes" where
  "arg_text a = (case a of (w1, w2, e) \<Rightarrow> w1 @ COMMA # w2 @ element_text e)"

definition arg_ok :: "bytes \<times> bytes \<times> json_element \<Rightarrow> bool" where
  "arg_ok a = (case a of (w1, w2, e) \<Rightarrow> json_ws w1 \<and> json_ws w2 \<and> element_ok e)"

abbreviation arg_value :: "bytes \<times> bytes \<times> json_element \<Rightarrow> scanned_value" where
  "arg_value a \<equiv> element_value (snd (snd a))"

lemma element_hd:
  assumes "element_ok e"
  shows "\<not> is_ascii_whitespace (hd (element_text e))" "hd (element_text e) \<noteq> RBRACKET"
proof -
  have "\<not> is_ascii_whitespace (hd (element_text e)) \<and> hd (element_text e) \<noteq> RBRACKET"
  proof (cases e)
    case (EToken bs)
    then have "\<not> token_end (hd bs)" using assms by (cases bs) simp_all
    then show ?thesis using EToken assms by (simp add: token_end_def is_ascii_whitespace_def)
  qed (use assms in \<open>auto simp: str_text_def is_ascii_whitespace_def\<close>)
  then show "\<not> is_ascii_whitespace (hd (element_text e))" "hd (element_text e) \<noteq> RBRACKET" by simp_all
qed

definition rest_text :: "(bytes \<times> bytes \<times> json_element) list \<Rightarrow> bytes \<Rightarrow> bytes \<Rightarrow> bytes" where
  "rest_text as w tr = concat (map arg_text as) @ w @ RBRACKET # tr"

lemma ws_token_end: "json_ws w \<Longrightarrow> w \<noteq> [] \<Longrightarrow> token_end (hd w)"
  by (cases w) (auto simp: json_ws_def token_end_def)

lemma rest_text_hd:
  assumes "list_all arg_ok as" "json_ws w"
  shows "rest_text as w tr \<noteq> [] \<and> token_end (hd (rest_text as w tr))"
proof (cases as)
  case Nil
  then show ?thesis using ws_token_end [OF assms(2)] by (cases w) (auto simp: rest_text_def token_end_def)
next
  case (Cons a as')
  obtain w1 w2 e where a: "a = (w1, w2, e)" by (cases a)
  then have "json_ws w1" using Cons assms(1) by (simp add: arg_ok_def)
  then show ?thesis
    using Cons a ws_token_end [of w1] by (cases w1) (auto simp: rest_text_def arg_text_def token_end_def)
qed

lemma scan_args_text:
  assumes "searcher_ok m" "json_ws w"
  shows "list_all arg_ok as \<Longrightarrow> utf8_valid (pre @ rest_text as w tr) \<Longrightarrow>
    scan_args m (pre @ rest_text as w tr) n (length pre) = Some (map arg_value (take n as))"
proof (induction as arbitrary: pre n)
  case Nil
  have "skip_ws (pre @ w @ RBRACKET # tr) (length pre) = length pre + length w"
    using assms(2) by (intro skip_ws_text) (simp_all add: is_ascii_whitespace_def)
  then show ?case by (cases n) (simp_all add: rest_text_def Let_def nth_append)
next
  case (Cons a as)
  obtain w1 w2 e where a: "a = (w1, w2, e)" by (cases a)
  have ok: "json_ws w1" "json_ws w2" "element_ok e" "list_all arg_ok as" using Cons.prems(1) a by (simp_all add: arg_ok_def [of "(w1, w2, e)"])
  define r where "r = rest_text as w tr"
  define doc where "doc = pre @ rest_text (a # as) w tr"
  define q where "q = pre @ w1 @ COMMA # w2"
  have eqs: "doc = pre @ w1 @ (COMMA # w2 @ element_text e @ r)" "doc = (pre @ w1 @ [COMMA]) @ w2 @ (element_text e @ r)"
    "doc = q @ element_text e @ r"
    by (simp_all add: doc_def rest_text_def r_def a arg_text_def q_def)
  have valid: "utf8_valid doc" using Cons.prems(2) by (simp add: doc_def)
  have p1: "skip_ws doc (length pre) = length pre + length w1"
    unfolding eqs(1) by (rule skip_ws_text [OF ok(1)]) (simp add: is_ascii_whitespace_def)
  have comma: "doc ! (length pre + length w1) = COMMA" "length pre + length w1 < length doc" unfolding eqs(1) by (simp_all add: nth_append)
  have "skip_ws doc (length (pre @ w1 @ [COMMA])) = length (pre @ w1 @ [COMMA]) + length w2"
    unfolding eqs(2) by (rule skip_ws_text [OF ok(2)]) (use element_hd [OF ok(3)] element_text_nonempty [OF ok(3)] in simp)
  then have p2: "skip_ws doc (length pre + length w1 + 1) = length q" by (simp add: q_def)
  have "is_char_boundary doc (length pre + length w1 + 1)"
    using boundary_after_ascii [OF valid comma(2)] comma(1) by simp
  then have bnd: "is_char_boundary doc (length q)"
    using skip_ws_boundary [OF valid, of "length pre + length w1 + 1"] comma(2) p2 by simp
  have first: "doc ! length q = hd (element_text e)" "length q < length doc"
    unfolding eqs(3) using element_text_nonempty [OF ok(3)] by (cases "element_text e"; simp add: nth_append)+
  have el: "scan_element m doc (length q) = Some (length q + length (element_text e), Some (element_value e))"
    unfolding eqs(3) by (rule scan_element_text [OF assms(1) ok(3)])
      (use valid bnd rest_text_hd [OF ok(4) assms(2)] eqs(3) in \<open>simp_all add: r_def\<close>)
  have ih: "scan_args m doc k (length q + length (element_text e)) = Some (map arg_value (take k as))" for k
    using Cons.IH [of "q @ element_text e" k] ok(4) valid eqs(3) by (simp add: r_def)
  show ?case
  proof (cases n)
    case (Suc k)
    then show ?thesis
      unfolding doc_def [symmetric] using p1 comma p2 first element_hd(2) [OF ok(3)] el ih [of k] a by (simp add: Let_def)
  qed simp
qed

definition frame_text :: "bytes \<Rightarrow> bytes \<Rightarrow> json_element \<Rightarrow> (bytes \<times> bytes \<times> json_element) list \<Rightarrow> bytes \<Rightarrow> bytes \<Rightarrow> bytes" where
  "frame_text w0 w1 e as w tr = w0 @ LBRACKET # w1 @ element_text e @ rest_text as w tr"

lemma inner_element:
  assumes "element_ok e" "utf8_valid (pre @ element_text e @ r)"
  shows "inner (element_value e) = Some (element_inner e)"
proof (cases e)
  case (EString items)
  let ?bs = "pre @ str_text items @ r"
  have "inner \<lparr>sv_raw = subslice ?bs (length pre) (length pre + length (str_text items)), sv_is_string = True\<rparr> =
      Some (subslice ?bs (length pre + 1) (length pre + length (str_text items) - 1))"
    using assms(2) EString by (intro inner_quoted) (auto simp: str_text_def nth_append)
  moreover have "subslice ?bs (length pre) (length pre + length (str_text items)) = str_text items"
    "subslice ?bs (length pre + 1) (length pre + length (str_text items) - 1) = concat (map item_text items)"
    by (simp_all add: subslice_def str_text_def)
  ultimately show ?thesis by (simp add: element_value_def element_inner_def EString)
qed (simp_all add: element_value_def element_inner_def inner_def)

lemma scan_relay_frame_text:
  assumes "searcher_ok m" "json_ws w0" "json_ws w1" "element_ok e" "list_all arg_ok as" "json_ws w"
    "utf8_valid (frame_text w0 w1 e as w tr)"
  shows "scan_relay_frame m (frame_text w0 w1 e as w tr) =
    Some (Some \<lparr>sf_kind = element_inner e,
      sf_args = map (Some \<circ> arg_value) (take 3 as) @ replicate (3 - length as) None\<rparr>)"
proof -
  define r where "r = rest_text as w tr"
  define doc where "doc = frame_text w0 w1 e as w tr"
  define q where "q = w0 @ LBRACKET # w1"
  have eqs: "doc = [] @ w0 @ (LBRACKET # w1 @ element_text e @ r)" "doc = (w0 @ [LBRACKET]) @ w1 @ (element_text e @ r)"
    "doc = q @ element_text e @ r" "doc = (q @ element_text e) @ r"
    by (simp_all add: doc_def frame_text_def r_def q_def)
  have valid: "utf8_valid doc" using assms(7) by (simp add: doc_def)
  have "skip_ws doc (length ([] :: bytes)) = length ([] :: bytes) + length w0"
    unfolding eqs(1) by (rule skip_ws_text [OF assms(2)]) (simp add: is_ascii_whitespace_def)
  then have p1: "skip_ws doc 0 = length w0" by simp
  have brack: "doc ! length w0 = LBRACKET" "length w0 < length doc" unfolding eqs(1) by (simp_all add: nth_append)
  have "skip_ws doc (length (w0 @ [LBRACKET])) = length (w0 @ [LBRACKET]) + length w1"
    unfolding eqs(2) by (rule skip_ws_text [OF assms(3)]) (use element_hd [OF assms(4)] element_text_nonempty [OF assms(4)] in simp)
  then have p2: "skip_ws doc (length w0 + 1) = length q" by (simp add: q_def)
  have "is_char_boundary doc (length w0 + 1)" using boundary_after_ascii [OF valid brack(2)] brack(1) by simp
  then have bnd: "is_char_boundary doc (length q)"
    using skip_ws_boundary [OF valid, of "length w0 + 1"] brack(2) p2 by simp
  have first: "doc ! length q = hd (element_text e)" "length q < length doc"
    unfolding eqs(3) using element_text_nonempty [OF assms(4)] by (cases "element_text e"; simp add: nth_append)+
  have el: "scan_element m doc (length q) = Some (length q + length (element_text e), Some (element_value e))"
    unfolding eqs(3) by (rule scan_element_text [OF assms(1,4)])
      (use valid bnd rest_text_hd [OF assms(5,6)] eqs(3) in \<open>simp_all add: r_def\<close>)
  have args: "scan_args m doc 3 (length q + length (element_text e)) = Some (map arg_value (take 3 as))"
    using scan_args_text [OF assms(1,6,5), of "q @ element_text e" tr 3] valid eqs(4) by (simp add: r_def)
  have inn: "inner (element_value e) = Some (element_inner e)"
    using inner_element [OF assms(4)] valid eqs(3) by simp
  show ?thesis
    unfolding doc_def [symmetric] using p1 brack p2 first element_hd(2) [OF assms(4)] el args inn
    by (simp add: scan_relay_frame_def Let_def)
qed

section \<open>Properties\<close>

text \<open>C18. The scanner ends and never panics: on every valid UTF-8 text, well formed as JSON or not, each
  of its loops ends, no slice leaves the text or cuts a character, and the nesting depth never drops
  below zero.\<close>

theorem scan_relay_frame_terminates:
  assumes "searcher_ok m" "utf8_valid text"
  shows "\<exists>r. scan_relay_frame m text = Some r"
  using scan_relay_frame_total [OF assms] by blast

text \<open>C17. The scanner finds the elements of a frame. For an array of strings, objects, arrays and tokens
  with any JSON whitespace between them and anything after it, the kind is the first element, unquoted
  when it is a string, and the arguments are the texts of the next three elements, escaped quotes and
  brackets inside strings notwithstanding.\<close>

theorem scan_relay_frame_elements:
  assumes "searcher_ok m" "json_ws w0" "json_ws w1" "element_ok e" "list_all arg_ok as" "json_ws w"
    "utf8_valid (frame_text w0 w1 e as w tr)"
  shows "scan_relay_frame m (frame_text w0 w1 e as w tr) =
    Some (Some \<lparr>sf_kind = element_inner e,
      sf_args = map (Some \<circ> arg_value) (take 3 as) @ replicate (3 - length as) None\<rparr>)"
  by (rule scan_relay_frame_text [OF assms])

definition std_searcher :: searcher where
  "std_searcher = \<lparr>memchr2 = (\<lambda>a b. position (\<lambda>c. c = a \<or> c = b)), memchr3 = (\<lambda>a b d. position (\<lambda>c. c = a \<or> c = b \<or> c = d))\<rparr>"

lemma std_searcher_ok: "searcher_ok std_searcher"
  by (simp add: searcher_ok_def std_searcher_def)

theorem scan_relay_frame_terminates_witness: "\<exists>r. scan_relay_frame std_searcher [LBRACKET, QUOTE, BACKSLASH] = Some r"
  by (rule scan_relay_frame_terminates [OF std_searcher_ok]) simp

text \<open>The frame \<open>["A", {"\"":1}]\<close>.\<close>

theorem scan_relay_frame_elements_witness:
  "scan_relay_frame std_searcher [0x5B, 0x22, 0x41, 0x22, 0x2C, 0x20, 0x7B, 0x22, 0x5C, 0x22, 0x22, 0x3A, 0x31, 0x7D, 0x5D] =
    Some (Some \<lparr>sf_kind = [0x41],
      sf_args = [Some \<lparr>sv_raw = [0x7B, 0x22, 0x5C, 0x22, 0x22, 0x3A, 0x31, 0x7D], sv_is_string = False\<rparr>, None, None]\<rparr>)"
  using scan_relay_frame_elements [OF std_searcher_ok, of "[]" "[]" "EString [Plain 0x41]"
      "[([], [0x20], EGroup LBRACE [Quoted [Escaped 0x22], Raw 0x3A, Raw 0x31] RBRACE)]" "[]" "[]"]
  by (simp add: json_ws_def arg_ok_def structural_def frame_text_def rest_text_def arg_text_def str_text_def
      element_inner_def element_value_def numeral_3_eq_3)

end
