(* ===== verification/Sub_Dedup.thy ===== *)
theory Sub_Dedup
  imports Frame_Scan
begin

text \<open>
  Suppression of duplicate events per subscription, after \<open>core/src/transport/sub_dedup.rs\<close>: the bounded
  set of forwarded ids, and the extraction of the id from a scanned frame. The hex decoder of the crate
  \<open>hex\<close>, which fills a 32-byte array, is a parameter. The theory shows that the set is exactly the window
  of the last 4096 forwarded ids, and what the extraction takes for the id of an event.
\<close>

section \<open>The window of ids\<close>

definition MAX_DEDUP_IDS_PER_SUB :: nat where
  "MAX_DEDUP_IDS_PER_SUB = 4096"

record sub_dedup =
  sd_ids :: "bytes fset"
  sd_order :: "bytes list"

definition sub_dedup_new :: sub_dedup where
  "sub_dedup_new = \<lparr>sd_ids = {||}, sd_order = []\<rparr>"

definition mark :: "bytes \<Rightarrow> sub_dedup \<Rightarrow> sub_dedup \<times> bool" where
  "mark i d =
     (if i |\<in>| sd_ids d then (d, False)
      else
        (let d = d\<lparr>sd_ids := finsert i (sd_ids d), sd_order := sd_order d @ [i]\<rparr>;
             d = (if length (sd_order d) > MAX_DEDUP_IDS_PER_SUB then
                    (case sd_order d of
                       oldest # rest \<Rightarrow> d\<lparr>sd_order := rest, sd_ids := sd_ids d |-| {|oldest|}\<rparr>
                     | [] \<Rightarrow> d)
                  else d)
         in (d, True)))"

section \<open>Extraction of the id\<close>

definition id_pattern :: bytes where
  "id_pattern = [QUOTE, 0x69, 0x64, QUOTE]"

function find_id_pattern :: "bytes \<Rightarrow> nat \<Rightarrow> nat option" where
  "find_id_pattern bs i =
     (if i + length id_pattern \<le> length bs then
        (if subslice bs i (i + length id_pattern) = id_pattern then Some (i + length id_pattern)
         else find_id_pattern bs (i + 1))
      else None)"
  by pat_completeness auto
termination
  by (relation "measure (\<lambda>(bs, i). length bs - i)") (auto simp: id_pattern_def)

function skip_separator :: "bytes \<Rightarrow> nat \<Rightarrow> nat" where
  "skip_separator bs i = (if i < length bs \<and> bs ! i \<in> {0x20, 0x09, 0x3A} then skip_separator bs (i + 1) else i)"
  by pat_completeness auto
termination
  by (relation "measure (\<lambda>(bs, i). length bs - i)") auto

function find_string_end :: "bytes \<Rightarrow> nat \<Rightarrow> nat option" where
  "find_string_end bs i =
     (if i < length bs then
        (if bs ! i = BACKSLASH then find_string_end bs (i + 2)
         else if bs ! i = QUOTE then Some i
         else find_string_end bs (i + 1))
      else None)"
  by pat_completeness auto
termination
  by (relation "measure (\<lambda>(bs, i). length bs - i)") auto

declare find_id_pattern.simps [simp del] skip_separator.simps [simp del] find_string_end.simps [simp del]

text \<open>The outer \<open>None\<close> is the panic of a slice off a character boundary.\<close>

definition extract_event_id :: "bytes \<Rightarrow> bytes option option" where
  "extract_event_id json =
     (case find_id_pattern json 0 of
        None \<Rightarrow> Some None
      | Some i \<Rightarrow>
          (let i = skip_separator json i
           in if i \<ge> length json \<or> json ! i \<noteq> QUOTE then Some None
              else
                (case find_string_end json (i + 1) of
                   None \<Rightarrow> Some None
                 | Some j \<Rightarrow> map_option Some (slice_str json (i + 1) j))))"

definition EVENT_kind :: bytes where
  "EVENT_kind = [0x45, 0x56, 0x45, 0x4E, 0x54]"

definition scanned_event_id :: "(bytes \<Rightarrow> bytes option) \<Rightarrow> scanned_frame \<Rightarrow> bytes option option" where
  "scanned_event_id hex_decode scan =
     (if sf_kind scan \<noteq> EVENT_kind then Some None
      else
        (case sf_args scan ! 1 of
           None \<Rightarrow> Some None
         | Some v \<Rightarrow>
             (case extract_event_id (sv_raw v) of
                None \<Rightarrow> None
              | Some None \<Rightarrow> Some None
              | Some (Some id_hex) \<Rightarrow> Some (hex_decode id_hex))))"

definition event_frame_id :: "searcher \<Rightarrow> (bytes \<Rightarrow> bytes option) \<Rightarrow> bytes \<Rightarrow> bytes option option" where
  "event_frame_id m hex_decode frame =
     (case scan_relay_frame m frame of
        None \<Rightarrow> None
      | Some None \<Rightarrow> Some None
      | Some (Some scan) \<Rightarrow> scanned_event_id hex_decode scan)"

section \<open>The window is the last forwarded ids\<close>

fun mark_all :: "bytes list \<Rightarrow> sub_dedup \<Rightarrow> sub_dedup \<times> bytes list" where
  "mark_all [] d = (d, [])"
| "mark_all (i # is) d =
     (let (d, fresh) = mark i d; (d, fw) = mark_all is d in (d, if fresh then i # fw else fw))"

definition window :: "bytes list \<Rightarrow> bytes list" where
  "window fw = drop (length fw - MAX_DEDUP_IDS_PER_SUB) fw"

definition dedup_ok :: "bytes list \<Rightarrow> sub_dedup \<Rightarrow> bool" where
  "dedup_ok fw d = (sd_order d = window fw \<and> sd_ids d = fset_of_list (window fw) \<and> distinct (window fw))"

lemma window_snoc:
  "window (fw @ [i]) =
     (if length (window fw) < MAX_DEDUP_IDS_PER_SUB then window fw @ [i] else tl (window fw) @ [i])"
proof (cases "length fw < MAX_DEDUP_IDS_PER_SUB")
  case False
  then have "Suc (length fw) - MAX_DEDUP_IDS_PER_SUB = Suc (length fw - MAX_DEDUP_IDS_PER_SUB)"
    by (simp add: Suc_diff_le)
  moreover have "Suc 0 - MAX_DEDUP_IDS_PER_SUB = 0" by (simp add: MAX_DEDUP_IDS_PER_SUB_def)
  ultimately show ?thesis using False by (simp add: window_def tl_drop drop_Suc [symmetric])
qed (simp add: window_def)

lemma length_window: "length (window fw) \<le> MAX_DEDUP_IDS_PER_SUB"
  by (simp add: window_def)

lemma mark_ok:
  assumes "dedup_ok fw d" "mark i d = (d', fresh)"
  shows "fresh = (i \<notin> set (window fw)) \<and> dedup_ok (if fresh then fw @ [i] else fw) d'"
proof (cases "i \<in> set (window fw)")
  case True
  then have "mark i d = (d, False)" using assms(1) by (simp add: mark_def dedup_ok_def fset_of_list_elem)
  then show ?thesis using True assms by simp
next
  case False
  have ok: "sd_order d = window fw" "sd_ids d = fset_of_list (window fw)" "distinct (window fw)"
    using assms(1) by (simp_all add: dedup_ok_def)
  have new: "\<not> i |\<in>| sd_ids d" using False ok(2) by (simp add: fset_of_list_elem)
  show ?thesis
  proof (cases "length (window fw) < MAX_DEDUP_IDS_PER_SUB")
    case True
    then have "mark i d = (d\<lparr>sd_ids := finsert i (sd_ids d), sd_order := window fw @ [i]\<rparr>, True)"
      unfolding mark_def if_not_P [OF new] by (simp add: Let_def ok(1))
    then have "d' = d\<lparr>sd_ids := finsert i (sd_ids d), sd_order := window fw @ [i]\<rparr>" "fresh" using assms(2) by simp_all
    then show ?thesis using True False ok(2,3) window_snoc [of fw i] by (simp add: dedup_ok_def)
  next
    case full: False
    then obtain x xs where w: "window fw = x # xs" by (cases "window fw") (auto simp: MAX_DEDUP_IDS_PER_SUB_def)
    then have len: "length (window fw) = MAX_DEDUP_IDS_PER_SUB" using full length_window [of fw] by simp
    have x: "x \<noteq> i" "x \<notin> set xs" using False w ok(3) by auto
    have "mark i d = (d\<lparr>sd_ids := finsert i (sd_ids d) |-| {|x|}, sd_order := xs @ [i]\<rparr>, True)"
      unfolding mark_def if_not_P [OF new] using w len by (simp add: Let_def ok(1))
    then have d': "d' = d\<lparr>sd_ids := finsert i (sd_ids d) |-| {|x|}, sd_order := xs @ [i]\<rparr>" "fresh" using assms(2) by simp_all
    have "finsert i (sd_ids d) |-| {|x|} = fset_of_list (xs @ [i])"
      using x unfolding ok(2) w by (auto simp: fset_of_list_elem)
    moreover have "window (fw @ [i]) = xs @ [i]" using window_snoc [of fw i] full w by simp
    ultimately show ?thesis using d' False ok(3) w by (simp add: dedup_ok_def)
  qed
qed

lemma mark_all_ok:
  "dedup_ok fw d \<Longrightarrow> mark_all is d = (d', fw') \<Longrightarrow> dedup_ok (fw @ fw') d'"
proof (induction "is" arbitrary: fw d fw')
  case (Cons i "is")
  obtain d1 fresh where 1: "mark i d = (d1, fresh)" by force
  obtain fw1 where 2: "mark_all is d1 = (d', fw1)" "fw' = (if fresh then i # fw1 else fw1)"
    using Cons.prems(2) 1 by (auto split: prod.splits)
  show ?case using Cons.IH [OF conjunct2 [OF mark_ok [OF Cons.prems(1) 1]] 2(1)] 2(2) by (cases fresh) simp_all
qed simp

section \<open>What is taken for the id\<close>

lemma length_id_pattern [simp]: "length id_pattern = 4"
  by (simp add: id_pattern_def)

lemma find_id_pattern_first:
  assumes "\<forall>j < length pre. subslice (pre @ id_pattern @ r) j (j + 4) \<noteq> id_pattern"
  shows "i \<le> length pre \<Longrightarrow> find_id_pattern (pre @ id_pattern @ r) i = Some (length pre + 4)"
proof (induction "length pre - i" arbitrary: i)
  case 0
  then have "i = length pre" by simp
  moreover have "subslice (pre @ id_pattern @ r) (length pre) (length pre + length id_pattern) = id_pattern"
    by (simp add: subslice_def)
  ultimately show ?case by (subst find_id_pattern.simps) simp
next
  case (Suc n)
  then have "i < length pre" "n = length pre - (i + 1)" by auto
  then have "find_id_pattern (pre @ id_pattern @ r) i = find_id_pattern (pre @ id_pattern @ r) (i + 1)"
    using assms by (subst find_id_pattern.simps) simp
  then show ?case using Suc.hyps(1) [of "i + 1"] \<open>n = length pre - (i + 1)\<close> \<open>i < length pre\<close> by simp
qed

lemma skip_separator_text:
  "list_all (\<lambda>c. c \<in> {0x20, 0x09, 0x3A}) sep \<Longrightarrow> skip_separator (pre @ sep @ QUOTE # r) (length pre) = length pre + length sep"
proof (induction sep arbitrary: pre)
  case Nil
  then show ?case by (subst skip_separator.simps) simp
next
  case (Cons c sep)
  then have "skip_separator (pre @ (c # sep) @ QUOTE # r) (length pre) = skip_separator ((pre @ [c]) @ sep @ QUOTE # r) (length (pre @ [c]))"
    by (subst skip_separator.simps) (auto simp: nth_append)
  then show ?case using Cons.IH [of "pre @ [c]"] Cons.prems by simp
qed

lemma find_string_end_text:
  "list_all (\<lambda>c. c \<noteq> QUOTE \<and> c \<noteq> BACKSLASH) s \<Longrightarrow> find_string_end (pre @ s @ QUOTE # r) (length pre) = Some (length pre + length s)"
proof (induction s arbitrary: pre)
  case Nil
  then show ?case by (subst find_string_end.simps) simp
next
  case (Cons c s)
  then have "find_string_end (pre @ (c # s) @ QUOTE # r) (length pre) = find_string_end ((pre @ [c]) @ s @ QUOTE # r) (length (pre @ [c]))"
    by (subst find_string_end.simps) (simp add: nth_append)
  then show ?case using Cons.IH [of "pre @ [c]"] Cons.prems by simp
qed

definition first_id :: "bytes \<Rightarrow> bytes \<Rightarrow> bool" where
  "first_id obj s = (\<exists>pre sep r. obj = pre @ id_pattern @ sep @ QUOTE # s @ QUOTE # r
     \<and> list_all (\<lambda>j. subslice obj j (j + 4) \<noteq> id_pattern) [0..<length pre]
     \<and> list_all (\<lambda>c. c \<in> {0x20, 0x09, 0x3A}) sep
     \<and> list_all (\<lambda>c. c \<noteq> QUOTE \<and> c \<noteq> BACKSLASH \<and> c < 0x80) s)"

lemma extract_first_id:
  assumes "first_id obj s"
  shows "extract_event_id obj = Some (Some s)"
proof -
  obtain pre sep r where obj: "obj = pre @ id_pattern @ sep @ QUOTE # s @ QUOTE # r"
    and first: "list_all (\<lambda>j. subslice obj j (j + 4) \<noteq> id_pattern) [0..<length pre]"
    and sep: "list_all (\<lambda>c. c \<in> {0x20, 0x09, 0x3A}) sep"
    and s: "list_all (\<lambda>c. c \<noteq> QUOTE \<and> c \<noteq> BACKSLASH \<and> c < 0x80) s"
    using assms by (auto simp: first_id_def)
  define q where "q = pre @ id_pattern @ sep @ [QUOTE]"
  have len: "length q = length pre + 4 + length sep + 1" by (simp add: q_def)
  have oq: "obj = q @ s @ QUOTE # r" by (simp add: obj q_def)
  have 1: "find_id_pattern obj 0 = Some (length pre + 4)"
    unfolding obj by (rule find_id_pattern_first) (use first obj in \<open>auto simp: list_all_iff\<close>)
  have "skip_separator ((pre @ id_pattern) @ sep @ QUOTE # (s @ QUOTE # r)) (length (pre @ id_pattern)) = length (pre @ id_pattern) + length sep"
    by (rule skip_separator_text [OF sep])
  then have 2: "skip_separator obj (length pre + 4) = length pre + 4 + length sep" by (simp add: obj)
  have "list_all (\<lambda>c. c \<noteq> QUOTE \<and> c \<noteq> BACKSLASH) s" using s by (auto simp: list_all_iff)
  then have 3: "find_string_end obj (length q) = Some (length q + length s)"
    unfolding oq by (rule find_string_end_text)
  have at: "obj ! (length pre + 4 + length sep) = QUOTE" "length pre + 4 + length sep < length obj"
    by (simp_all add: obj nth_append)
  have "obj ! length q < 0x80"
    using s by (cases s) (simp_all add: oq)
  then have b1: "is_char_boundary obj (length q)" by (intro boundary_at_ascii) (simp_all add: oq)
  have b2: "is_char_boundary obj (length q + length s)" by (intro boundary_at_ascii) (simp_all add: oq nth_append)
  have 4: "slice_str obj (length q) (length q + length s) = Some s"
    using b1 b2 by (simp add: slice_str_def) (simp add: oq subslice_def)
  show ?thesis using 1 2 3 4 at len by (simp add: extract_event_id_def Let_def)
qed

section \<open>Properties\<close>

text \<open>Duplicates are suppressed within a window. After any sequence of ids the remembered ids are
  exactly the last 4096 forwarded ones, each once, and the next id is forwarded if and only if it is
  not among them: an id is never forwarded twice within 4096 forwarded ids, and the state is bounded.\<close>

theorem dedup_window:
  assumes "mark_all is sub_dedup_new = (d, fw)"
  shows "sd_order d = window fw \<and> sd_ids d = fset_of_list (window fw) \<and> distinct (window fw)
    \<and> length (sd_order d) \<le> MAX_DEDUP_IDS_PER_SUB \<and> snd (mark i d) = (i \<notin> set (window fw))"
proof -
  have "dedup_ok [] sub_dedup_new" by (simp add: dedup_ok_def sub_dedup_new_def window_def)
  from mark_all_ok [OF this assms] have ok: "dedup_ok fw d" by simp
  moreover have "snd (mark i d) = (i \<notin> set (window fw))"
    using mark_ok [OF ok, of i "fst (mark i d)" "snd (mark i d)"] by simp
  ultimately show ?thesis using length_window [of fw] by (simp add: dedup_ok_def)
qed

theorem dedup_window_witness:
  "mark_all [[1], [2], [1]] sub_dedup_new = (\<lparr>sd_ids = {|[2], [1]|}, sd_order = [[1], [2]]\<rparr>, [[1], [2]])
   \<and> snd (mark [1] \<lparr>sd_ids = {|[2], [1]|}, sd_order = [[1], [2]]\<rparr>) = False"
proof -
  have run: "mark_all [[1], [2], [1]] sub_dedup_new = (\<lparr>sd_ids = {|[2], [1]|}, sd_order = [[1], [2]]\<rparr>, [[1], [2]])"
    by (simp add: mark_def sub_dedup_new_def MAX_DEDUP_IDS_PER_SUB_def Let_def)
  have "[1] \<in> set (window [[1], [2]])" by (simp add: window_def MAX_DEDUP_IDS_PER_SUB_def)
  then have "snd (mark [1] \<lparr>sd_ids = {|[2], [1]|}, sd_order = [[1], [2]]\<rparr>) = False"
    using dedup_window [OF run, of "[1]"] by blast
  then show ?thesis using run by blast
qed

text \<open>The deduplication key of an event frame. For a frame whose kind is \<open>EVENT\<close> and whose third
  element has a first member or string \<open>"id"\<close> followed by a quoted text, the key is the hex decoding
  of that text, whatever whitespace and further elements the frame has.\<close>

theorem event_frame_id_key:
  assumes "searcher_ok m" "json_ws w0" "json_ws w1" "element_ok e" "element_inner e = EVENT_kind"
    "list_all arg_ok as" "json_ws w" "utf8_valid (frame_text w0 w1 e as w tr)"
    "2 \<le> length as" "first_id (sv_raw (arg_value (as ! 1))) s"
  shows "event_frame_id m hex_decode (frame_text w0 w1 e as w tr) = Some (hex_decode s)"
proof -
  let ?args = "map (Some \<circ> arg_value) (take 3 as) @ replicate (3 - length as) None"
  have "?args ! 1 = Some (arg_value (as ! 1))" using assms(9) by (simp add: nth_append)
  then show ?thesis
    using scan_relay_frame_text [OF assms(1-4,6-8)] assms(5) extract_first_id [OF assms(10)]
    by (simp add: event_frame_id_def scanned_event_id_def)
qed

text \<open>The id need not be the event's own: the extraction takes the first \<open>"id"\<close> in the text, also
  when it is the member of a nested object. Of \<open>{"a":{"id":"x"},"id":"y"}\<close> it returns \<open>x\<close>.\<close>

theorem nested_id_extracted:
  "extract_event_id [LBRACE, QUOTE, 0x61, QUOTE, 0x3A, LBRACE, QUOTE, 0x69, 0x64, QUOTE, 0x3A, QUOTE, 0x78, QUOTE, RBRACE,
     COMMA, QUOTE, 0x69, 0x64, QUOTE, 0x3A, QUOTE, 0x79, QUOTE, RBRACE] = Some (Some [0x78])"
proof (rule extract_first_id, unfold first_id_def, intro exI conjI)
  show "[LBRACE, QUOTE, 0x61, QUOTE, 0x3A, LBRACE, QUOTE, 0x69, 0x64, QUOTE, 0x3A, QUOTE, 0x78, QUOTE, RBRACE,
      COMMA, QUOTE, 0x69, 0x64, QUOTE, 0x3A, QUOTE, 0x79, QUOTE, RBRACE] =
    [LBRACE, QUOTE, 0x61, QUOTE, 0x3A, LBRACE] @ id_pattern @ [0x3A] @ QUOTE # [0x78] @ QUOTE #
      [RBRACE, COMMA, QUOTE, 0x69, 0x64, QUOTE, 0x3A, QUOTE, 0x79, QUOTE, RBRACE]"
    by (simp add: id_pattern_def)
qed (simp_all add: id_pattern_def subslice_def upt_rec)

text \<open>The frame \<open>["EVENT","s",{"id":"ab"}]\<close>.\<close>

definition example_event :: json_element where
  "example_event = EGroup LBRACE [Quoted [Plain 0x69, Plain 0x64], Raw 0x3A, Quoted [Plain 0x61, Plain 0x62]] RBRACE"

theorem event_frame_id_key_witness:
  "event_frame_id std_searcher (\<lambda>s. if s = [0x61, 0x62] then Some [0xAB] else None)
     [0x5B, 0x22, 0x45, 0x56, 0x45, 0x4E, 0x54, 0x22, 0x2C, 0x22, 0x73, 0x22, 0x2C,
      0x7B, 0x22, 0x69, 0x64, 0x22, 0x3A, 0x22, 0x61, 0x62, 0x22, 0x7D, 0x5D] = Some (Some [0xAB])"
proof -
  let ?e = "EString [Plain 0x45, Plain 0x56, Plain 0x45, Plain 0x4E, Plain 0x54]"
  let ?as = "[([], [], EString [Plain 0x73]), ([], [], example_event)]"
  have raw: "sv_raw (arg_value (?as ! 1)) = [0x7B, 0x22, 0x69, 0x64, 0x22, 0x3A, 0x22, 0x61, 0x62, 0x22, 0x7D]"
    by (simp add: element_value_def example_event_def str_text_def)
  have "first_id [0x7B, 0x22, 0x69, 0x64, 0x22, 0x3A, 0x22, 0x61, 0x62, 0x22, 0x7D] [0x61, 0x62]"
    unfolding first_id_def
    by (rule exI [of _ "[0x7B]"], rule exI [of _ "[0x3A]"], rule exI [of _ "[0x7D]"]) (simp add: id_pattern_def subslice_def upt_rec)
  then have id: "first_id (sv_raw (arg_value (?as ! 1))) [0x61, 0x62]" unfolding raw .
  show ?thesis
    using event_frame_id_key [OF std_searcher_ok, of "[]" "[]" ?e ?as "[]" "[]" "[0x61, 0x62]"
        "\<lambda>s. if s = [0x61, 0x62] then Some [0xAB] else None"] id
    by (simp add: json_ws_def arg_ok_def structural_def frame_text_def rest_text_def arg_text_def str_text_def
        element_inner_def EVENT_kind_def example_event_def)
qed

end
