(* ===== verification/Shared_Ring.thy ===== *)
theory Shared_Ring
  imports Prelude
begin

text \<open>
  The ring shared with the WebSocket worker, after \<open>core/src/parser_utils/ring_buffer.rs\<close>: a byte buffer
  with a 32-byte header (capacity, head, tail, sequence number) and a circular data region of framed
  records. A panic of the source is \<open>None\<close>; so is the loop that makes space when it does not end, which
  happens on no well-formed ring. A zero capacity, on which the source divides by zero, is excluded by
  every statement. The theory relates the ring to the queue of its records: reading takes the oldest,
  writing drops the fewest oldest ones that make room and appends, and a write that fills the ring to
  the last byte empties it.
\<close>

section \<open>The header\<close>

definition HEADER_SIZE :: nat where
  "HEADER_SIZE = 32"

definition data_start :: nat where
  "data_start = HEADER_SIZE"

record shared_ring =
  sr_buf :: bytes
  sr_capacity :: nat

datatype ring_error = BufferSmallerThanHeader | LengthMismatch | IncorrectTotalLength

text \<open>\<open>buf[i..i + src.len()].copy_from_slice(src)\<close>.\<close>

definition splice :: "bytes \<Rightarrow> nat \<Rightarrow> bytes \<Rightarrow> bytes" where
  "splice buf i src = take i buf @ src @ drop (i + length src) buf"

definition shared_ring_new :: "bytes \<Rightarrow> ring_error + shared_ring" where
  "shared_ring_new buf =
     (if length buf < HEADER_SIZE then Err BufferSmallerThanHeader
      else
        (let capacity = read_le32 buf 0
         in if length buf \<noteq> HEADER_SIZE + capacity then Err LengthMismatch
            else Ok \<lparr>sr_buf = buf, sr_capacity = capacity\<rparr>))"

definition initialize_header :: "bytes \<Rightarrow> nat \<Rightarrow> ring_error + bytes" where
  "initialize_header buf capacity =
     (if length buf \<noteq> HEADER_SIZE + capacity then Err IncorrectTotalLength
      else
        (let buf = splice buf 0 (u32_to_le_bytes (of_nat capacity));
             buf = splice buf 4 (u32_to_le_bytes 0);
             buf = splice buf 8 (u32_to_le_bytes 0);
             buf = splice buf 12 (u32_to_le_bytes 0)
         in Ok (splice buf 16 (replicate 16 0))))"

definition get_head :: "shared_ring \<Rightarrow> nat" where
  "get_head r = read_le32 (sr_buf r) 4 mod sr_capacity r"

definition set_head :: "nat \<Rightarrow> shared_ring \<Rightarrow> shared_ring" where
  "set_head head r = r\<lparr>sr_buf := splice (sr_buf r) 4 (u32_to_le_bytes (of_nat (head mod sr_capacity r)))\<rparr>"

definition get_tail :: "shared_ring \<Rightarrow> nat" where
  "get_tail r = read_le32 (sr_buf r) 8 mod sr_capacity r"

definition set_tail :: "nat \<Rightarrow> shared_ring \<Rightarrow> shared_ring" where
  "set_tail tail r = r\<lparr>sr_buf := splice (sr_buf r) 8 (u32_to_le_bytes (of_nat (tail mod sr_capacity r)))\<rparr>"

definition get_seq :: "shared_ring \<Rightarrow> u32" where
  "get_seq r = u32_from_le_bytes (sr_buf r ! 12) (sr_buf r ! 13) (sr_buf r ! 14) (sr_buf r ! 15)"

definition set_seq :: "u32 \<Rightarrow> shared_ring \<Rightarrow> shared_ring" where
  "set_seq s r = r\<lparr>sr_buf := splice (sr_buf r) 12 (u32_to_le_bytes s)\<rparr>"

definition has_records :: "shared_ring \<Rightarrow> bool" where
  "has_records r = (get_head r \<noteq> get_tail r)"

definition used :: "shared_ring \<Rightarrow> nat" where
  "used r = (get_head r + sr_capacity r - get_tail r) mod sr_capacity r"

definition free_bytes :: "shared_ring \<Rightarrow> nat" where
  "free_bytes r = sr_capacity r - used r"

section \<open>The circular region\<close>

function ring_read :: "shared_ring \<Rightarrow> nat \<Rightarrow> nat \<Rightarrow> bytes" where
  "ring_read r pos remaining =
     (if 0 < remaining \<and> 0 < sr_capacity r then
        (let to_end = sr_capacity r - pos mod sr_capacity r;
             chunk = min remaining to_end;
             start = data_start + pos mod sr_capacity r
         in subslice (sr_buf r) start (start + chunk)
            @ ring_read r ((pos + chunk) mod sr_capacity r) (remaining - chunk))
      else [])"
  by pat_completeness auto
termination
  by (relation "measure (\<lambda>(r, pos, remaining). remaining)") auto

function ring_write :: "shared_ring \<Rightarrow> nat \<Rightarrow> bytes \<Rightarrow> shared_ring" where
  "ring_write r pos src =
     (if 0 < length src \<and> 0 < sr_capacity r then
        (let to_end = sr_capacity r - pos mod sr_capacity r;
             chunk = min (length src) to_end;
             start = data_start + pos mod sr_capacity r
         in ring_write (r\<lparr>sr_buf := splice (sr_buf r) start (take chunk src)\<rparr>)
              ((pos + chunk) mod sr_capacity r) (drop chunk src))
      else r)"
  by pat_completeness auto
termination
  by (relation "measure (\<lambda>(r, pos, src). length src)") auto

declare ring_read.simps [simp del] ring_write.simps [simp del]

definition ring_read_u32 :: "shared_ring \<Rightarrow> nat \<Rightarrow> u32" where
  "ring_read_u32 r pos = (let tmp = ring_read r pos 4 in u32_from_le_bytes (tmp ! 0) (tmp ! 1) (tmp ! 2) (tmp ! 3))"

definition ring_write_u32 :: "nat \<Rightarrow> u32 \<Rightarrow> shared_ring \<Rightarrow> shared_ring" where
  "ring_write_u32 pos v r = ring_write r pos (u32_to_le_bytes v)"

definition skip_record :: "shared_ring \<Rightarrow> shared_ring \<times> bool" where
  "skip_record r =
     (let tail = get_tail r
      in if tail = get_head r then (r, False)
         else
           (let len = unat (ring_read_u32 r tail)
            in if len = 0 then (r, False)
               else if unat (ring_read_u32 r ((tail + 4 + len) mod sr_capacity r)) \<noteq> len then (r, False)
               else (set_tail ((tail + 4 + len + 4) mod sr_capacity r) r, True)))"

partial_function (option) make_space :: "nat \<Rightarrow> shared_ring \<Rightarrow> nat \<Rightarrow> (shared_ring \<times> nat) option" where
  "make_space needed r skipped =
     (if free_bytes r < needed \<and> has_records r then
        (case skip_record r of
           (r', ok) \<Rightarrow> if ok then make_space needed r' (skipped + 1) else Some (r', skipped))
      else Some (r, skipped))"

text \<open>The steps 1 to 4 of a write: the length, the zero type and pad, the sequence number, the payload, the trailer.\<close>

definition write_rec :: "nat \<Rightarrow> u32 \<Rightarrow> bytes \<Rightarrow> shared_ring \<Rightarrow> shared_ring" where
  "write_rec head my_seq payload r =
     (let var_len = 8 + length payload;
          r = ring_write_u32 head (of_nat var_len) r;
          var_pos = (head + 4) mod sr_capacity r;
          r = ring_write r var_pos [0, 0];
          r = ring_write r (var_pos + 2) [0, 0];
          r = ring_write r (var_pos + 4) (u32_to_le_bytes my_seq);
          r = ring_write r ((var_pos + 8) mod sr_capacity r) payload
      in ring_write_u32 ((head + 4 + var_len) mod sr_capacity r) (of_nat var_len) r)"

definition ring_write_record :: "bytes \<Rightarrow> shared_ring \<Rightarrow> (shared_ring \<times> bool) option" where
  "ring_write_record payload r =
     (let n = length payload; var_len = 8 + n; total = 4 + var_len + 4
      in if total > sr_capacity r then Some (r, False)
         else
           (case make_space total r 0 of
              None \<Rightarrow> None
            | Some (r, _) \<Rightarrow>
                if free_bytes r < total then Some (r, False)
                else
                  (let head = get_head r;
                       my_seq = get_seq r + 1;
                       r = write_rec head my_seq payload r;
                       r = set_head ((head + total) mod sr_capacity r) r
                   in Some (set_seq my_seq r, True))))"

definition read_next :: "shared_ring \<Rightarrow> (shared_ring \<times> bytes option) option" where
  "read_next r =
     (let tail = get_tail r
      in if tail = get_head r then Some (r, None)
         else
           (let len = unat (ring_read_u32 r tail)
            in if len = 0 then Some (r, None)
               else if unat (ring_read_u32 r ((tail + 4 + len) mod sr_capacity r)) \<noteq> len then Some (r, None)
               else if len < 8 then None
               else
                 (let var_pos = (tail + 4) mod sr_capacity r;
                      payload_pos = (var_pos + 8) mod sr_capacity r;
                      out = ring_read r payload_pos (len - 8)
                  in Some (set_tail ((tail + 4 + len + 4) mod sr_capacity r) r, Some out))))"

section \<open>The bridge\<close>

record ws_ring_bridge =
  in_ring :: shared_ring
  out_ring :: shared_ring

definition bridge_new :: "bytes \<Rightarrow> bytes \<Rightarrow> ring_error + ws_ring_bridge" where
  "bridge_new in_buf out_buf =
     (case shared_ring_new in_buf of
        Err e \<Rightarrow> Err e
      | Ok i \<Rightarrow>
          (case shared_ring_new out_buf of
             Err e \<Rightarrow> Err e
           | Ok out \<Rightarrow> Ok \<lparr>in_ring = i, out_ring = out\<rparr>))"

text \<open>Both headers; when the second fails the first has been written already.\<close>

definition initialize_buffers :: "bytes \<Rightarrow> nat \<Rightarrow> bytes \<Rightarrow> nat \<Rightarrow> (bytes \<times> bytes) \<times> (ring_error + unit)" where
  "initialize_buffers in_buf in_capacity out_buf out_capacity =
     (case initialize_header in_buf in_capacity of
        Err e \<Rightarrow> ((in_buf, out_buf), Err e)
      | Ok i \<Rightarrow>
          (case initialize_header out_buf out_capacity of
             Err e \<Rightarrow> ((i, out_buf), Err e)
           | Ok out \<Rightarrow> ((i, out), Ok ())))"

definition read_out :: "ws_ring_bridge \<Rightarrow> (ws_ring_bridge \<times> bytes option) option" where
  "read_out b = map_option (\<lambda>(r, out). (b\<lparr>out_ring := r\<rparr>, out)) (read_next (out_ring b))"

text \<open>The characters the envelope escapes are ASCII, so escaping works on the bytes of the text.\<close>

definition escape_byte :: "u8 \<Rightarrow> bytes" where
  "escape_byte c =
     (if c = 0x22 then [0x5C, 0x22]
      else if c = 0x5C then [0x5C, 0x5C]
      else if c = 0x0A then [0x5C, 0x6E]
      else if c = 0x0D then [0x5C, 0x72]
      else if c = 0x09 then [0x5C, 0x74]
      else [c])"

definition quoted :: "bytes \<Rightarrow> bytes" where
  "quoted s = [0x22] @ concat (map escape_byte s) @ [0x22]"

fun comma_list :: "bytes list \<Rightarrow> bytes" where
  "comma_list [] = []"
| "comma_list [s] = quoted s"
| "comma_list (s # ss) = quoted s @ [0x2C] @ comma_list ss"

definition envelope :: "bytes list \<Rightarrow> bytes list \<Rightarrow> bytes" where
  "envelope relays frames =
     [0x7B, 0x22, 0x72, 0x65, 0x6C, 0x61, 0x79, 0x73, 0x22, 0x3A, 0x5B] @ comma_list relays
     @ [0x5D, 0x2C, 0x22, 0x66, 0x72, 0x61, 0x6D, 0x65, 0x73, 0x22, 0x3A, 0x5B] @ comma_list frames
     @ [0x5D, 0x7D]"

definition write_in_envelope :: "bytes list \<Rightarrow> bytes list \<Rightarrow> ws_ring_bridge \<Rightarrow> (ws_ring_bridge \<times> bool) option" where
  "write_in_envelope relays frames b =
     map_option (\<lambda>(r, ok). (b\<lparr>in_ring := r\<rparr>, ok)) (ring_write_record (envelope relays frames) (in_ring b))"

section \<open>Slices of the buffer\<close>

lemma length_splice [simp]: "i + length src \<le> length buf \<Longrightarrow> length (splice buf i src) = length buf"
  by (simp add: splice_def)

lemma nth_splice:
  assumes "i + length src \<le> length buf" "j < length buf"
  shows "splice buf i src ! j = (if i \<le> j \<and> j < i + length src then src ! (j - i) else buf ! j)"
  using assms by (auto simp: splice_def nth_append min_def)

lemma read_le32_splice_same:
  assumes "i + 4 \<le> length buf"
  shows "read_le32 (splice buf i (u32_to_le_bytes v)) i = unat v"
  using read_le32_append [of "take i buf" i v "drop (i + 4) buf"] assms by (simp add: splice_def)

lemma read_le32_splice_other:
  assumes "i + length src \<le> length buf" "j + 4 \<le> length buf" "j + 4 \<le> i \<or> i + length src \<le> j"
  shows "read_le32 (splice buf i src) j = read_le32 buf j"
  using assms by (auto simp: read_le32_def nth_splice)

text \<open>A ring whose buffer has the right size, as \<open>SharedRing::new\<close> checks it.\<close>

definition shaped :: "shared_ring \<Rightarrow> bool" where
  "shaped r = (0 < sr_capacity r \<and> sr_capacity r < 2 ^ 32 \<and> length (sr_buf r) = HEADER_SIZE + sr_capacity r)"

text \<open>The byte of the data region at a position counted around the ring.\<close>

definition at :: "shared_ring \<Rightarrow> nat \<Rightarrow> u8" where
  "at r k = sr_buf r ! (HEADER_SIZE + k mod sr_capacity r)"

definition around :: "shared_ring \<Rightarrow> nat \<Rightarrow> nat \<Rightarrow> bytes" where
  "around r pos n = map (\<lambda>k. at r (pos + k)) [0..<n]"

lemma around_0 [simp]: "around r pos 0 = []"
  by (simp add: around_def)

lemma ring_write_capacity [simp]: "sr_capacity (ring_write r pos src) = sr_capacity r"
proof (induction r pos src rule: ring_write.induct)
  case (1 r pos src)
  then show ?case by (subst ring_write.simps) (simp add: Let_def)
qed

lemma length_around [simp]: "length (around r pos n) = n"
  by (simp add: around_def)

lemma at_mod [simp]: "at r (k mod sr_capacity r) = at r k"
  by (simp add: at_def)

lemma at_mod_add [simp]: "at r (k mod sr_capacity r + j) = at r (k + j)"
  by (simp add: at_def mod_simps)

lemma around_mod [simp]: "around r (pos mod sr_capacity r) n = around r pos n"
  by (simp add: around_def)

lemma nth_around: "k < n \<Longrightarrow> around r pos n ! k = at r (pos + k)"
  by (simp add: around_def)

lemma around_append: "around r pos (a + b) = around r pos a @ around r (pos + a) b"
proof (rule nth_equalityI)
  fix k assume "k < length (around r pos (a + b))"
  then have k: "k < a + b" by simp
  show "around r pos (a + b) ! k = (around r pos a @ around r (pos + a) b) ! k"
  proof (cases "k < a")
    case True
    then show ?thesis using k by (simp add: nth_append nth_around)
  next
    case False
    then have "k - a < b" "pos + a + (k - a) = pos + k" using k by auto
    then show ?thesis using False k by (simp add: nth_append nth_around)
  qed
qed simp

lemma around_start:
  assumes "shaped r" "n \<le> sr_capacity r - pos mod sr_capacity r"
  shows "subslice (sr_buf r) (data_start + pos mod sr_capacity r) (data_start + pos mod sr_capacity r + n) = around r pos n"
proof (rule nth_equalityI)
  have c: "0 < sr_capacity r" "length (sr_buf r) = HEADER_SIZE + sr_capacity r" using assms(1) by (simp_all add: shaped_def)
  have lt: "pos mod sr_capacity r < sr_capacity r" using c(1) by simp
  show "length (subslice (sr_buf r) (data_start + pos mod sr_capacity r) (data_start + pos mod sr_capacity r + n)) = length (around r pos n)"
    using c lt assms(2) by (simp add: data_start_def)
  fix j assume "j < length (subslice (sr_buf r) (data_start + pos mod sr_capacity r) (data_start + pos mod sr_capacity r + n))"
  then have j: "j < n" using c lt assms(2) by (simp add: data_start_def)
  have "(pos + j) mod sr_capacity r = (pos mod sr_capacity r + j) mod sr_capacity r" by (simp only: mod_add_left_eq)
  also have "\<dots> = pos mod sr_capacity r + j" using assms(2) lt j by (intro mod_less) linarith
  finally show "subslice (sr_buf r) (data_start + pos mod sr_capacity r) (data_start + pos mod sr_capacity r + n) ! j = around r pos n ! j"
    using j c lt assms(2) by (simp add: subslice_def around_def at_def data_start_def add.assoc)
qed

lemma ring_read_around: "shaped r \<Longrightarrow> ring_read r pos n = around r pos n"
proof (induction n arbitrary: pos rule: less_induct)
  case (less n)
  show ?case
  proof (cases "n = 0")
    case True
    then show ?thesis by (subst ring_read.simps) (simp add: around_def)
  next
    case False
    let ?N = "sr_capacity r"
    let ?c = "min n (?N - pos mod ?N)"
    have N: "0 < ?N" using less.prems by (simp add: shaped_def)
    have "0 < ?c" using False N by simp
    have "ring_read r pos n = around r pos ?c @ ring_read r ((pos + ?c) mod ?N) (n - ?c)"
      using False N around_start [OF less.prems, of ?c pos] by (subst ring_read.simps) (simp add: Let_def)
    also have "ring_read r ((pos + ?c) mod ?N) (n - ?c) = around r (pos + ?c) (n - ?c)"
      using less.IH [of "n - ?c"] less.prems \<open>0 < ?c\<close> False by simp
    finally show ?thesis using around_append [of r pos ?c "n - ?c"] by simp
  qed
qed

lemma at_wrap: "at r (k + sr_capacity r) = at r k"
  by (simp add: at_def)

text \<open>What a write does: the bytes from its position on, everything else as before.\<close>

definition written :: "shared_ring \<Rightarrow> nat \<Rightarrow> bytes \<Rightarrow> shared_ring \<Rightarrow> bool" where
  "written r pos src r' =
     (sr_capacity r' = sr_capacity r \<and> shaped r' \<and> take HEADER_SIZE (sr_buf r') = take HEADER_SIZE (sr_buf r)
      \<and> (\<forall>d < sr_capacity r. at r' (pos + d) = (if d < length src then src ! d else at r (pos + d))))"

lemma writtenD:
  assumes "written r pos src r'"
  shows "sr_capacity r' = sr_capacity r" "shaped r'" "take HEADER_SIZE (sr_buf r') = take HEADER_SIZE (sr_buf r)"
    and "d < sr_capacity r \<Longrightarrow> at r' (pos + d) = (if d < length src then src ! d else at r (pos + d))"
  using assms unfolding written_def by blast+

lemma written_chunk:
  assumes "shaped r" "length src \<le> sr_capacity r - pos mod sr_capacity r"
  shows "written r pos src (r\<lparr>sr_buf := splice (sr_buf r) (data_start + pos mod sr_capacity r) src\<rparr>)"
proof -
  let ?N = "sr_capacity r" and ?p = "pos mod sr_capacity r"
  let ?r = "r\<lparr>sr_buf := splice (sr_buf r) (data_start + ?p) src\<rparr>"
  have N: "0 < ?N" "length (sr_buf r) = HEADER_SIZE + ?N" using assms(1) by (simp_all add: shaped_def)
  then have p: "?p < ?N" by simp
  have fits: "data_start + ?p + length src \<le> length (sr_buf r)" using N p assms(2) by (simp add: data_start_def)
  have "at ?r (pos + d) = (if d < length src then src ! d else at r (pos + d))" if d: "d < ?N" for d
  proof -
    have m: "(pos + d) mod ?N = (?p + d) mod ?N" by (simp only: mod_add_left_eq)
    have "(?p + d) mod ?N = (if ?p + d < ?N then ?p + d else ?p + d - ?N)"
    proof (cases "?p + d < ?N")
      case False
      then have "(?p + d) mod ?N = (?p + d - ?N) mod ?N" by (simp only: le_mod_geq not_less)
      moreover have "?p + d - ?N < ?N" using p d by linarith
      ultimately show ?thesis using False by (simp only: mod_less if_False)
    qed simp
    then have j: "(pos + d) mod ?N = (if ?p + d < ?N then ?p + d else ?p + d - ?N)" using m by simp
    have lt: "HEADER_SIZE + (pos + d) mod ?N < length (sr_buf r)" using N by simp
    have new: "at ?r (pos + d) = (if data_start + ?p \<le> HEADER_SIZE + (pos + d) mod ?N
        \<and> HEADER_SIZE + (pos + d) mod ?N < data_start + ?p + length src
        then src ! (HEADER_SIZE + (pos + d) mod ?N - (data_start + ?p)) else at r (pos + d))"
      unfolding at_def using nth_splice [OF fits lt] by simp
    show ?thesis
    proof (cases "d < length src")
      case True
      then have "?p + d < ?N" using assms(2) p by linarith
      then have "(pos + d) mod ?N = ?p + d" using j by simp
      then show ?thesis using new True by (simp add: data_start_def)
    next
      case False
      then have "\<not> (?p \<le> (pos + d) mod ?N \<and> (pos + d) mod ?N < ?p + length src)" using j d by (cases "?p + d < ?N") auto
      then have "\<not> (data_start + ?p \<le> HEADER_SIZE + (pos + d) mod ?N
          \<and> HEADER_SIZE + (pos + d) mod ?N < data_start + ?p + length src)" by (simp add: data_start_def)
      then show ?thesis using new False by (simp only: if_not_P if_False)
    qed
  qed
  moreover have "take HEADER_SIZE (sr_buf ?r) = take HEADER_SIZE (sr_buf r)"
    using N by (simp add: splice_def data_start_def)
  ultimately show ?thesis using assms(1) fits by (simp add: written_def shaped_def)
qed

lemma written_compose:
  assumes "written r pos xs r1" "written r1 (pos + length xs) ys r2" "length xs + length ys \<le> sr_capacity r"
  shows "written r pos (xs @ ys) r2"
proof -
  let ?N = "sr_capacity r"
  have cap: "sr_capacity r1 = ?N" "sr_capacity r2 = ?N" using assms(1,2) by (simp_all add: written_def)
  have "at r2 (pos + d) = (if d < length (xs @ ys) then (xs @ ys) ! d else at r (pos + d))" if d: "d < ?N" for d
  proof (cases "d < length xs")
    case True
    let ?d = "d + ?N - length xs"
    have d': "?d < ?N" "\<not> ?d < length ys" "pos + length xs + ?d = pos + d + ?N" using True assms(3) by auto
    have "at r2 (pos + d) = at r2 (pos + length xs + ?d)" using at_wrap [of r2 "pos + d"] cap d'(3) by (simp only:)
    also have "\<dots> = at r1 (pos + length xs + ?d)" using writtenD(4) [OF assms(2), of ?d] d'(1,2) cap by simp
    also have "\<dots> = at r1 (pos + d)" using at_wrap [of r1 "pos + d"] cap d'(3) by (simp only:)
    also have "\<dots> = xs ! d" using assms(1) d True by (simp add: written_def)
    finally show ?thesis using True by (simp add: nth_append)
  next
    case False
    let ?d = "d - length xs"
    have d': "?d < ?N" "pos + length xs + ?d = pos + d" using False d by auto
    have "at r2 (pos + length xs + ?d) = (if ?d < length ys then ys ! ?d else at r1 (pos + length xs + ?d))"
      using writtenD(4) [OF assms(2), of ?d] d'(1) cap by simp
    moreover have "at r1 (pos + d) = at r (pos + d)" using assms(1) d False by (simp add: written_def)
    ultimately show ?thesis using False d'(2) by (auto simp: nth_append)
  qed
  then show ?thesis using assms(1,2) by (simp add: written_def)
qed

lemma written_mod: "written r (pos mod sr_capacity r) src r' = written r pos src r'"
proof (cases "sr_capacity r' = sr_capacity r")
  case True
  then have "at r' (pos mod sr_capacity r + d) = at r' (pos + d)" for d using at_mod_add [of r' pos d] by simp
  then show ?thesis by (simp add: written_def)
qed (simp add: written_def)

lemma ring_write_written:
  "shaped r \<Longrightarrow> length src \<le> sr_capacity r \<Longrightarrow> written r pos src (ring_write r pos src)"
proof (induction "length src" arbitrary: r pos src rule: less_induct)
  case less
  let ?N = "sr_capacity r"
  have N: "0 < ?N" using less.prems(1) by (simp add: shaped_def)
  show ?case
  proof (cases "src = []")
    case True
    then show ?thesis using less.prems(1) by (subst ring_write.simps) (simp add: written_def)
  next
    case False
    define c where "c = min (length src) (?N - pos mod ?N)"
    have c: "0 < c" "c \<le> length src" "c \<le> ?N - pos mod ?N" using False N by (simp_all add: c_def)
    define r1 where "r1 = r\<lparr>sr_buf := splice (sr_buf r) (data_start + pos mod ?N) (take c src)\<rparr>"
    have w1: "written r pos (take c src) r1"
      unfolding r1_def using written_chunk [OF less.prems(1), of "take c src" pos] c by simp
    have step: "ring_write r pos src = ring_write r1 ((pos + c) mod ?N) (drop c src)"
      using False N by (subst ring_write.simps) (simp add: Let_def r1_def c_def)
    have cap: "sr_capacity r1 = ?N" "shaped r1" using w1 by (simp_all add: written_def)
    have "written r1 ((pos + c) mod ?N) (drop c src) (ring_write r1 ((pos + c) mod ?N) (drop c src))"
      using less.hyps [of "drop c src" r1] cap c less.prems(2) by simp
    then have "written r1 (pos + c) (drop c src) (ring_write r pos src)"
      using written_mod [of r1 "pos + c"] step cap(1) by simp
    moreover have "length (take c src) = c" using c(2) by simp
    ultimately show ?thesis using written_compose [OF w1, of "drop c src"] c(2) less.prems(2) by simp
  qed
qed

lemma written_around:
  assumes "written r pos src r'" "length src \<le> sr_capacity r"
  shows "around r' pos (length src) = src"
    and "d + n \<le> sr_capacity r \<Longrightarrow> length src \<le> d \<Longrightarrow> around r' (pos + d) n = around r (pos + d) n"
proof -
  show "around r' pos (length src) = src"
    using assms by (intro nth_equalityI) (auto simp: nth_around written_def)
  assume d: "d + n \<le> sr_capacity r" "length src \<le> d"
  show "around r' (pos + d) n = around r (pos + d) n"
  proof (rule nth_equalityI)
    fix k assume k: "k < length (around r' (pos + d) n)"
    then have "d + k < sr_capacity r" "\<not> d + k < length src" using d by auto
    then have "at r' (pos + (d + k)) = at r (pos + (d + k))" using assms(1) by (simp add: written_def)
    then show "around r' (pos + d) n ! k = around r (pos + d) n ! k" using k by (simp add: nth_around add.assoc)
  qed simp
qed


section \<open>The header fields\<close>

lemma read_header:
  assumes "take HEADER_SIZE b' = take HEADER_SIZE b" "HEADER_SIZE \<le> length b" "HEADER_SIZE \<le> length b'" "i + 4 \<le> HEADER_SIZE"
  shows "read_le32 b' i = read_le32 b i"
proof -
  have "b' ! j = b ! j" if "j < HEADER_SIZE" for j
    using nth_take [OF that, of b'] nth_take [OF that, of b] assms(1) by simp
  then show ?thesis using assms(4) by (simp add: read_le32_def)
qed

lemma written_header:
  assumes "written r pos src r'" "shaped r"
  shows "get_head r' = get_head r" "get_tail r' = get_tail r"
  using writtenD(1-3) [OF assms(1)] assms(2) read_header [of "sr_buf r'" "sr_buf r"]
  by (simp_all add: get_head_def get_tail_def shaped_def HEADER_SIZE_def)

lemma unat_u32: "n < 2 ^ 32 \<Longrightarrow> unat (of_nat n :: u32) = n"
  by (simp add: unat_of_nat take_bit_nat_eq_self)

text \<open>A change of the header that touches none of the data bytes.\<close>

lemma header_splice:
  assumes "shaped r" "i + length src \<le> HEADER_SIZE"
  shows "shaped (r\<lparr>sr_buf := splice (sr_buf r) i src\<rparr>)" "at (r\<lparr>sr_buf := splice (sr_buf r) i src\<rparr>) k = at r k"
    "around (r\<lparr>sr_buf := splice (sr_buf r) i src\<rparr>) pos n = around r pos n"
proof -
  have "length (sr_buf r) = HEADER_SIZE + sr_capacity r" "0 < sr_capacity r" using assms(1) by (simp_all add: shaped_def)
  then have a: "at (r\<lparr>sr_buf := splice (sr_buf r) i src\<rparr>) k = at r k" for k
    using assms(2) by (simp add: at_def nth_splice)
  show "shaped (r\<lparr>sr_buf := splice (sr_buf r) i src\<rparr>)" using assms by (simp add: shaped_def)
  show "at (r\<lparr>sr_buf := splice (sr_buf r) i src\<rparr>) k = at r k" by (rule a)
  show "around (r\<lparr>sr_buf := splice (sr_buf r) i src\<rparr>) pos n = around r pos n" by (simp add: around_def a)
qed

lemma set_tail_fields:
  assumes "shaped r"
  shows "shaped (set_tail t r)" "sr_capacity (set_tail t r) = sr_capacity r" "get_head (set_tail t r) = get_head r"
    "get_tail (set_tail t r) = t mod sr_capacity r" "around (set_tail t r) pos n = around r pos n"
proof -
  have s: "0 < sr_capacity r" "sr_capacity r < 2 ^ 32" "length (sr_buf r) = 32 + sr_capacity r"
    using assms by (simp_all add: shaped_def HEADER_SIZE_def)
  then have "t mod sr_capacity r < 2 ^ 32" using mod_less_divisor [of "sr_capacity r" t] by linarith
  then show "get_tail (set_tail t r) = t mod sr_capacity r"
    using s by (simp add: get_tail_def set_tail_def read_le32_splice_same unat_u32)
  show "get_head (set_tail t r) = get_head r"
    using s by (simp add: get_head_def set_tail_def read_le32_splice_other)
  show "sr_capacity (set_tail t r) = sr_capacity r" by (simp add: set_tail_def)
  show "shaped (set_tail t r)" "around (set_tail t r) pos n = around r pos n"
    unfolding set_tail_def using header_splice [OF assms, of 8] by (simp_all add: HEADER_SIZE_def)
qed

lemma set_head_fields:
  assumes "shaped r"
  shows "shaped (set_head t r)" "sr_capacity (set_head t r) = sr_capacity r" "get_tail (set_head t r) = get_tail r"
    "get_head (set_head t r) = t mod sr_capacity r" "around (set_head t r) pos n = around r pos n"
proof -
  have s: "0 < sr_capacity r" "sr_capacity r < 2 ^ 32" "length (sr_buf r) = 32 + sr_capacity r"
    using assms by (simp_all add: shaped_def HEADER_SIZE_def)
  then have "t mod sr_capacity r < 2 ^ 32" using mod_less_divisor [of "sr_capacity r" t] by linarith
  then show "get_head (set_head t r) = t mod sr_capacity r"
    using s by (simp add: get_head_def set_head_def read_le32_splice_same unat_u32)
  show "get_tail (set_head t r) = get_tail r"
    using s by (simp add: get_tail_def set_head_def read_le32_splice_other)
  show "sr_capacity (set_head t r) = sr_capacity r" by (simp add: set_head_def)
  show "shaped (set_head t r)" "around (set_head t r) pos n = around r pos n"
    unfolding set_head_def using header_splice [OF assms, of 4] by (simp_all add: HEADER_SIZE_def)
qed

lemma set_seq_fields:
  assumes "shaped r"
  shows "shaped (set_seq s r)" "sr_capacity (set_seq s r) = sr_capacity r" "get_tail (set_seq s r) = get_tail r"
    "get_head (set_seq s r) = get_head r" "around (set_seq s r) pos n = around r pos n"
proof -
  have s: "0 < sr_capacity r" "sr_capacity r < 2 ^ 32" "length (sr_buf r) = 32 + sr_capacity r"
    using assms by (simp_all add: shaped_def HEADER_SIZE_def)
  show "get_tail (set_seq s r) = get_tail r" "get_head (set_seq s r) = get_head r" "sr_capacity (set_seq s r) = sr_capacity r"
    using s by (simp_all add: get_tail_def get_head_def set_seq_def read_le32_splice_other)
  show "shaped (set_seq s r)" "around (set_seq s r) pos n = around r pos n"
    unfolding set_seq_def using header_splice [OF assms, of 12] by (simp_all add: HEADER_SIZE_def)
qed

section \<open>The ring as a queue of records\<close>

definition rec_bytes :: "u32 \<times> bytes \<Rightarrow> bytes" where
  "rec_bytes x = (case x of (seq, p) \<Rightarrow>
     u32_to_le_bytes (of_nat (8 + length p)) @ [0, 0, 0, 0] @ u32_to_le_bytes seq @ p @ u32_to_le_bytes (of_nat (8 + length p)))"

definition recs_len :: "(u32 \<times> bytes) list \<Rightarrow> nat" where
  "recs_len xs = length (concat (map rec_bytes xs))"

definition queue_of :: "shared_ring \<Rightarrow> (u32 \<times> bytes) list \<Rightarrow> bool" where
  "queue_of r xs = (shaped r \<and> recs_len xs < sr_capacity r
     \<and> get_head r = (get_tail r + recs_len xs) mod sr_capacity r
     \<and> around r (get_tail r) (recs_len xs) = concat (map rec_bytes xs))"

lemma recs_len_simps [simp]:
  "recs_len [] = 0" "recs_len (x # xs) = 16 + length (snd x) + recs_len xs" "recs_len (xs @ ys) = recs_len xs + recs_len ys"
  by (simp_all add: recs_len_def rec_bytes_def split: prod.splits)

lemma around_mid:
  assumes "around r pos n = pre @ mid @ post"
  shows "around r (pos + length pre) (length mid) = mid"
proof (rule nth_equalityI)
  have n: "n = length pre + length mid + length post" using arg_cong [OF assms, of length] by simp
  fix k assume "k < length (around r (pos + length pre) (length mid))"
  then have k: "k < length mid" by simp
  then have "around r pos n ! (length pre + k) = mid ! k" using assms by (simp add: nth_append)
  then show "around r (pos + length pre) (length mid) ! k = mid ! k" using k n by (simp add: nth_around add.assoc)
qed simp

lemma read_u32_around:
  assumes "shaped r" "around r pos 4 = u32_to_le_bytes v"
  shows "ring_read_u32 r pos = v"
  unfolding ring_read_u32_def Let_def ring_read_around [OF assms(1)] assms(2)
  by (simp add: u32_to_le_bytes_def u32_to_be_bytes_def u32_from_le_bytes_def codec_simps)

lemma tail_bound: "shaped r \<Longrightarrow> get_tail r < sr_capacity r"
  by (simp add: get_tail_def shaped_def)

lemma used_queue:
  assumes "queue_of r xs"
  shows "used r = recs_len xs" "has_records r = (xs \<noteq> [])"
proof -
  let ?N = "sr_capacity r" and ?t = "get_tail r" and ?n = "recs_len xs"
  have h: "get_head r = (?t + ?n) mod ?N" "?n < ?N" "?t < ?N" using assms tail_bound by (auto simp: queue_of_def)
  have m: "(?t + ?n) mod ?N = (if ?t + ?n < ?N then ?t + ?n else ?t + ?n - ?N)"
    using h(2,3) by (cases "?t + ?n < ?N") (simp_all add: le_mod_geq)
  show u: "used r = ?n"
  proof (cases "?t + ?n < ?N")
    case True
    then have "get_head r + ?N - ?t = ?n + ?N" using h m by simp
    then show ?thesis using h(2) by (simp add: used_def)
  next
    case False
    then have "get_head r + ?N - ?t = ?n" using h m by simp
    then show ?thesis using h(2) by (simp add: used_def)
  qed
  have "?n = 0 \<longleftrightarrow> xs = []" by (cases xs) simp_all
  then show "has_records r = (xs \<noteq> [])"
    using h m by (cases "?t + ?n < ?N") (auto simp: has_records_def)
qed

lemma queue_head:
  assumes "queue_of r ((s, p) # xs)"
  defines "n \<equiv> length p" and "t \<equiv> get_tail r"
  shows "unat (ring_read_u32 r t) = 8 + n" "unat (ring_read_u32 r ((t + 4 + (8 + n)) mod sr_capacity r)) = 8 + n"
    "ring_read r (((t + 4) mod sr_capacity r + 8) mod sr_capacity r) n = p"
    "queue_of (set_tail ((t + 4 + (8 + n) + 4) mod sr_capacity r) r) xs"
    "t \<noteq> get_head r"
proof -
  let ?N = "sr_capacity r" and ?l = "u32_to_le_bytes (of_nat (8 + n))"
  have q: "shaped r" "recs_len ((s, p) # xs) < ?N" "get_head r = (t + recs_len ((s, p) # xs)) mod ?N"
    "around r t (recs_len ((s, p) # xs)) = concat (map rec_bytes ((s, p) # xs))"
    using assms(1) by (simp_all add: queue_of_def t_def)
  have N: "0 < ?N" "?N < 2 ^ 32" using q(1) by (simp_all add: shaped_def)
  then have small: "unat (of_nat (8 + n) :: u32) = 8 + n" using q(2) by (intro unat_u32) (simp add: n_def)
  have all: "around r t (recs_len ((s, p) # xs)) = ?l @ [0, 0, 0, 0] @ u32_to_le_bytes s @ p @ ?l @ concat (map rec_bytes xs)"
    using q(4) by (simp add: rec_bytes_def n_def)
  have "around r t 4 = ?l" using around_mid [of r t _ "[]" ?l] all by simp
  then show "unat (ring_read_u32 r t) = 8 + n" using read_u32_around [OF q(1)] small by simp
  have "around r (t + length (?l @ [0, 0, 0, 0] @ u32_to_le_bytes s @ p)) (length ?l) = ?l"
    using around_mid [of r t _ "?l @ [0, 0, 0, 0] @ u32_to_le_bytes s @ p" ?l] all by simp
  then have "around r ((t + 4 + (8 + n)) mod ?N) 4 = ?l" by (simp add: n_def add.commute add.left_commute)
  then show "unat (ring_read_u32 r ((t + 4 + (8 + n)) mod ?N)) = 8 + n" using read_u32_around [OF q(1)] small by simp
  have "around r (t + length (?l @ [0, 0, 0, 0] @ u32_to_le_bytes s)) (length p) = p"
    using around_mid [of r t _ "?l @ [0, 0, 0, 0] @ u32_to_le_bytes s" p] all by simp
  moreover have "((t + 4) mod ?N + 8) mod ?N = (t + 12) mod ?N" by (simp add: mod_simps add.commute)
  ultimately show "ring_read r (((t + 4) mod ?N + 8) mod ?N) n = p"
    using ring_read_around [OF q(1)] by (simp add: n_def)
  have rest: "around r (t + (16 + n)) (recs_len xs) = concat (map rec_bytes xs)"
    using around_mid [of r t _ "?l @ [0, 0, 0, 0] @ u32_to_le_bytes s @ p @ ?l" "concat (map rec_bytes xs)" "[]"] all
    by (simp add: recs_len_def n_def)
  have t': "(t + 4 + (8 + n) + 4) mod ?N = (t + (16 + n)) mod ?N" by (simp add: add.commute add.left_commute)
  have "get_head r = ((t + (16 + n)) mod ?N + recs_len xs) mod ?N"
    using q(3) by (simp add: mod_simps n_def add.assoc)
  then show "queue_of (set_tail ((t + 4 + (8 + n) + 4) mod ?N) r) xs"
    unfolding t' using q(2) rest by (simp add: queue_of_def set_tail_fields [OF q(1)])
  show "t \<noteq> get_head r" using used_queue(2) [OF assms(1)] by (simp add: has_records_def t_def)
qed

lemma skip_record_queue:
  assumes "queue_of r (x # xs)"
  shows "\<exists>r'. skip_record r = (r', True) \<and> queue_of r' xs \<and> sr_capacity r' = sr_capacity r"
proof -
  obtain s p where x: "x = (s, p)" by (cases x)
  have sh: "shaped r" using assms by (simp add: queue_of_def)
  show ?thesis using queue_head [OF assms [unfolded x]] set_tail_fields(2) [OF sh] by (simp add: skip_record_def Let_def)
qed

lemma read_next_queue:
  assumes "queue_of r ((s, p) # xs)"
  shows "\<exists>r'. read_next r = Some (r', Some p) \<and> queue_of r' xs \<and> sr_capacity r' = sr_capacity r"
proof -
  have sh: "shaped r" using assms by (simp add: queue_of_def)
  show ?thesis using queue_head [OF assms] set_tail_fields(2) [OF sh] by (simp add: read_next_def Let_def)
qed

lemma read_next_empty: "queue_of r [] \<Longrightarrow> read_next r = Some (r, None)"
  using used_queue(2) [of r "[]"] by (simp add: read_next_def has_records_def)

text \<open>The records left when the oldest ones have made room, and what a write makes of the queue.\<close>

fun room :: "nat \<Rightarrow> nat \<Rightarrow> (u32 \<times> bytes) list \<Rightarrow> (u32 \<times> bytes) list" where
  "room cap needed [] = []"
| "room cap needed (x # xs) = (if cap - recs_len (x # xs) < needed then room cap needed xs else x # xs)"

lemma room_suffix: "\<exists>k \<le> length xs. room cap needed xs = drop k xs"
proof (induction xs)
  case (Cons x xs)
  then obtain k where "k \<le> length xs" "room cap needed xs = drop k xs" by blast
  then show ?case by (cases "cap - recs_len (x # xs) < needed") (auto intro: exI [of _ "Suc k"] exI [of _ 0])
qed simp

lemma room_fits:
  assumes "needed \<le> cap" "recs_len xs < cap"
  shows "recs_len (room cap needed xs) + needed \<le> cap"
  using assms by (induction xs) auto

lemma make_space_queue:
  "queue_of r xs \<Longrightarrow> \<exists>r' k. make_space needed r k0 = Some (r', k) \<and> queue_of r' (room (sr_capacity r) needed xs)
     \<and> sr_capacity r' = sr_capacity r"
proof (induction xs arbitrary: r k0)
  case Nil
  then show ?case using used_queue(2) [OF Nil] by (subst make_space.simps) simp
next
  case (Cons x xs)
  have u: "free_bytes r = sr_capacity r - recs_len (x # xs)" "has_records r"
    using used_queue [OF Cons.prems] by (simp_all add: free_bytes_def)
  show ?case
  proof (cases "free_bytes r < needed")
    case True
    obtain r' where r': "skip_record r = (r', True)" "queue_of r' xs" "sr_capacity r' = sr_capacity r"
      using skip_record_queue [OF Cons.prems] by blast
    then have "make_space needed r k0 = make_space needed r' (k0 + 1)"
      using True u by (subst make_space.simps) simp
    then show ?thesis using Cons.IH [OF r'(2), of "k0 + 1"] r'(3) True u by simp
  next
    case False
    then have "make_space needed r k0 = Some (r, k0)" by (subst make_space.simps) simp
    then show ?thesis using False u Cons.prems by simp
  qed
qed

lemma written_write:
  assumes "written r pos xs r1" "length xs + length ys \<le> sr_capacity r" "q mod sr_capacity r = (pos + length xs) mod sr_capacity r"
  shows "written r pos (xs @ ys) (ring_write r1 q ys)"
proof -
  have c: "sr_capacity r1 = sr_capacity r" "shaped r1" using writtenD [OF assms(1)] by auto
  have "written r1 q ys (ring_write r1 q ys)" using ring_write_written [OF c(2), of ys q] c assms(2) by simp
  then have "written r1 (pos + length xs) ys (ring_write r1 q ys)"
    using written_mod [of r1 q] written_mod [of r1 "pos + length xs"] assms(3) c(1) by metis
  then show ?thesis using written_compose [OF assms(1)] assms(2) by blast
qed

lemma write_rec_written:
  assumes "shaped r" "16 + length p \<le> sr_capacity r"
  shows "written r head (rec_bytes (s, p)) (write_rec head s p r)"
proof -
  let ?N = "sr_capacity r" and ?l = "u32_to_le_bytes (of_nat (8 + length p))"
  define r1 where "r1 = ring_write r head ?l"
  define vp where "vp = (head + 4) mod ?N"
  define r2 where "r2 = ring_write r1 vp [0, 0]"
  define r3 where "r3 = ring_write r2 (vp + 2) [0, 0]"
  define r4 where "r4 = ring_write r3 (vp + 4) (u32_to_le_bytes s)"
  define r5 where "r5 = ring_write r4 ((vp + 8) mod ?N) p"
  define r6 where "r6 = ring_write r5 ((head + 4 + (8 + length p)) mod ?N) ?l"
  have w1: "written r head ?l r1" unfolding r1_def using ring_write_written [OF assms(1)] assms(2) by simp
  have w2: "written r head (?l @ [0, 0]) r2"
    unfolding r2_def vp_def by (rule written_write [OF w1]) (use assms(2) in simp_all)
  have w3: "written r head ((?l @ [0, 0]) @ [0, 0]) r3"
    unfolding r3_def vp_def by (rule written_write [OF w2]) (use assms(2) in \<open>simp_all add: mod_simps ac_simps\<close>)
  have w4: "written r head (((?l @ [0, 0]) @ [0, 0]) @ u32_to_le_bytes s) r4"
    unfolding r4_def vp_def by (rule written_write [OF w3]) (use assms(2) in \<open>simp_all add: mod_simps ac_simps\<close>)
  have w5: "written r head ((((?l @ [0, 0]) @ [0, 0]) @ u32_to_le_bytes s) @ p) r5"
    unfolding r5_def vp_def by (rule written_write [OF w4]) (use assms(2) in \<open>simp_all add: mod_simps ac_simps\<close>)
  have w6: "written r head (((((?l @ [0, 0]) @ [0, 0]) @ u32_to_le_bytes s) @ p) @ ?l) r6"
    unfolding r6_def by (rule written_write [OF w5]) (use assms(2) in \<open>simp_all add: mod_simps ac_simps\<close>)
  have "write_rec head s p r = r6"
    unfolding write_rec_def ring_write_u32_def Let_def r6_def r5_def r4_def r3_def r2_def r1_def vp_def
    by (simp only: ring_write_capacity)
  then show ?thesis using w6 by (simp add: rec_bytes_def)
qed

lemma append_queue:
  fixes s :: u32
  assumes "queue_of r xs" "recs_len xs + (16 + length p) \<le> sr_capacity r"
  defines "r' \<equiv> set_seq s (set_head ((get_head r + (16 + length p)) mod sr_capacity r) (write_rec (get_head r) s p r))"
  shows "sr_capacity r' = sr_capacity r"
    and "queue_of r' (if recs_len xs + (16 + length p) = sr_capacity r then [] else xs @ [(s, p)])"
proof -
  let ?N = "sr_capacity r" and ?n = "recs_len xs" and ?m = "16 + length p" and ?t = "get_tail r"
  define w where "w = write_rec (get_head r) s p r"
  have q: "shaped r" "get_head r = (?t + ?n) mod ?N" "around r ?t ?n = concat (map rec_bytes xs)" "?n < ?N"
    using assms(1) by (simp_all add: queue_of_def)
  have len: "length (rec_bytes (s, p)) = ?m" by (simp add: rec_bytes_def)
  have "written r (get_head r) (rec_bytes (s, p)) w" unfolding w_def using write_rec_written [OF q(1)] assms(2) by simp
  then have wr: "written r (?t + ?n) (rec_bytes (s, p)) w" using written_mod [of r "?t + ?n"] q(2) by simp
  note wc = writtenD(1,2) [OF wr] written_header [OF wr q(1)]
  note sh = set_head_fields [OF wc(2)] and sq = set_seq_fields [OF set_head_fields(1) [OF wc(2)]]
  have r': "r' = set_seq s (set_head ((get_head r + ?m) mod ?N) w)" by (simp add: r'_def w_def)
  show cap: "sr_capacity r' = ?N" using sh sq wc by (simp add: r')
  have old: "around w ?t ?n = around r ?t ?n"
  proof (rule nth_equalityI)
    fix k assume "k < length (around w ?t ?n)"
    then have k: "k < ?n" by simp
    let ?d = "?N - ?n + k"
    have d: "?d < ?N" "\<not> ?d < ?m" "?t + ?n + ?d = ?t + k + ?N" using k q(4) assms(2) by auto
    have "at w (?t + ?n + ?d) = at r (?t + ?n + ?d)" using writtenD(4) [OF wr, of ?d] d(1,2) len by simp
    then have "at w (?t + k) = at r (?t + k)"
      using at_wrap [of w "?t + k"] at_wrap [of r "?t + k"] wc(1) d(3) by (simp only:)
    then show "around w ?t ?n ! k = around r ?t ?n ! k" using k by (simp add: nth_around)
  qed simp
  have new: "around w (?t + ?n) ?m = rec_bytes (s, p)"
    using written_around(1) [OF wr] assms(2) len by simp
  have "around w ?t (?n + ?m) = concat (map rec_bytes (xs @ [(s, p)]))"
    using around_append [of w ?t ?n ?m] old new q(3) by simp
  moreover have head: "(get_head r + ?m) mod ?N = (?t + (?n + ?m)) mod ?N" using q(2) by (simp add: mod_simps add.assoc)
  ultimately show "queue_of r' (if ?n + ?m = ?N then [] else xs @ [(s, p)])"
    using sh sq wc assms(2) tail_bound [OF q(1)] by (auto simp: r' queue_of_def)
qed

lemma write_queue:
  assumes "queue_of r xs"
  shows "sr_capacity r < 16 + length p \<Longrightarrow> ring_write_record p r = Some (r, False)"
    and "16 + length p \<le> sr_capacity r \<Longrightarrow>
      \<exists>r' s. ring_write_record p r = Some (r', True) \<and> sr_capacity r' = sr_capacity r
        \<and> queue_of r' (let kept = room (sr_capacity r) (16 + length p) xs
                      in if recs_len kept + (16 + length p) = sr_capacity r then [] else kept @ [(s, p)])"
proof -
  show "sr_capacity r < 16 + length p \<Longrightarrow> ring_write_record p r = Some (r, False)" by (simp add: ring_write_record_def Let_def)
  let ?m = "16 + length p" and ?N = "sr_capacity r"
  let ?kept = "room ?N ?m xs"
  assume fits: "?m \<le> ?N"
  obtain r1 k where r1: "make_space ?m r 0 = Some (r1, k)" "queue_of r1 ?kept" "sr_capacity r1 = ?N"
    using make_space_queue [OF assms, of ?m 0] by blast
  have space: "recs_len ?kept + ?m \<le> ?N" using room_fits [OF fits] assms by (simp add: queue_of_def)
  define r' where "r' = set_seq (get_seq r1 + 1) (set_head ((get_head r1 + ?m) mod ?N) (write_rec (get_head r1) (get_seq r1 + 1) p r1))"
  have free: "\<not> free_bytes r1 < ?m" using used_queue(1) [OF r1(2)] r1(3) space by (simp add: free_bytes_def)
  have sh: "shaped r1" using r1(2) by (simp add: queue_of_def)
  have wcap: "sr_capacity (write_rec (get_head r1) (get_seq r1 + 1) p r1) = ?N"
    using writtenD(1) [OF write_rec_written [OF sh]] fits r1(3) by simp
  have "ring_write_record p r = Some (r', True)"
    using fits r1(1) free wcap
    by (simp add: ring_write_record_def Let_def r'_def)
  moreover note append_queue [OF r1(2), of p "get_seq r1 + 1"]
  ultimately show "\<exists>r' s. ring_write_record p r = Some (r', True) \<and> sr_capacity r' = ?N
        \<and> queue_of r' (let kept = ?kept in if recs_len kept + ?m = ?N then [] else kept @ [(s, p)])"
    using space r1(3) unfolding r'_def Let_def by auto
qed

section \<open>Runs\<close>

text \<open>
  The reference is a bounded queue of payloads, each costing its length and 16 bytes of framing: a put
  drops the oldest payloads until the new one fits and appends it (\<open>queue_put\<close>, \<open>queue_run\<close>). The ring
  departs from it in one case: a write that fills it to the last byte leaves head and tail equal, which is
  the empty ring (\<open>ring_put\<close>, \<open>ring_outs\<close>). \<open>never_fills\<close> says that no put of a run fills the queue exactly.
\<close>

datatype ring_op = Put bytes | Take

datatype ring_out = Wrote bool | Got "bytes option"

fun ring_run :: "ring_op list \<Rightarrow> shared_ring \<Rightarrow> (shared_ring \<times> ring_out list) option" where
  "ring_run [] r = Some (r, [])"
| "ring_run (Put p # ops) r =
     (case ring_write_record p r of
        None \<Rightarrow> None
      | Some (r, ok) \<Rightarrow> map_option (\<lambda>(r, outs). (r, Wrote ok # outs)) (ring_run ops r))"
| "ring_run (Take # ops) r =
     (case read_next r of
        None \<Rightarrow> None
      | Some (r, out) \<Rightarrow> map_option (\<lambda>(r, outs). (r, Got out # outs)) (ring_run ops r))"

definition framed_len :: "bytes list \<Rightarrow> nat" where
  "framed_len ps = sum_list (map (\<lambda>p. 16 + length p) ps)"

fun drop_oldest :: "nat \<Rightarrow> nat \<Rightarrow> bytes list \<Rightarrow> bytes list" where
  "drop_oldest cap needed [] = []"
| "drop_oldest cap needed (p # ps) =
     (if cap < framed_len (p # ps) + needed then drop_oldest cap needed ps else p # ps)"

definition queue_put :: "nat \<Rightarrow> bytes \<Rightarrow> bytes list \<Rightarrow> bytes list" where
  "queue_put cap p ps = drop_oldest cap (16 + length p) ps @ [p]"

fun queue_run :: "nat \<Rightarrow> ring_op list \<Rightarrow> bytes list \<Rightarrow> ring_out list" where
  "queue_run cap [] ps = []"
| "queue_run cap (Put p # ops) ps =
     (if cap < 16 + length p then Wrote False # queue_run cap ops ps
      else Wrote True # queue_run cap ops (queue_put cap p ps))"
| "queue_run cap (Take # ops) [] = Got None # queue_run cap ops []"
| "queue_run cap (Take # ops) (p # ps) = Got (Some p) # queue_run cap ops ps"

fun never_fills :: "nat \<Rightarrow> ring_op list \<Rightarrow> bytes list \<Rightarrow> bool" where
  "never_fills cap [] ps = True"
| "never_fills cap (Put p # ops) ps =
     (if cap < 16 + length p then never_fills cap ops ps
      else framed_len (queue_put cap p ps) \<noteq> cap \<and> never_fills cap ops (queue_put cap p ps))"
| "never_fills cap (Take # ops) ps = never_fills cap ops (drop 1 ps)"

definition ring_put :: "nat \<Rightarrow> bytes \<Rightarrow> bytes list \<Rightarrow> bytes list" where
  "ring_put cap p ps = (if framed_len (queue_put cap p ps) = cap then [] else queue_put cap p ps)"

fun ring_outs :: "nat \<Rightarrow> ring_op list \<Rightarrow> bytes list \<Rightarrow> ring_out list" where
  "ring_outs cap [] ps = []"
| "ring_outs cap (Put p # ops) ps =
     (if cap < 16 + length p then Wrote False # ring_outs cap ops ps
      else Wrote True # ring_outs cap ops (ring_put cap p ps))"
| "ring_outs cap (Take # ops) [] = Got None # ring_outs cap ops []"
| "ring_outs cap (Take # ops) (p # ps) = Got (Some p) # ring_outs cap ops ps"

lemma ring_outs_queue: "never_fills cap ops ps \<Longrightarrow> ring_outs cap ops ps = queue_run cap ops ps"
  by (induction cap ops ps rule: queue_run.induct) (auto simp: ring_put_def split: if_splits)

lemma recs_len_framed: "recs_len xs = framed_len (map snd xs)"
  by (induction xs) (simp_all add: framed_len_def)

lemma room_payloads:
  "recs_len xs < cap \<Longrightarrow> needed \<le> cap \<Longrightarrow> map snd (room cap needed xs) = drop_oldest cap needed (map snd xs)"
proof (induction xs)
  case (Cons x xs)
  have "recs_len (x # xs) = framed_len (map snd (x # xs))" by (rule recs_len_framed)
  then have "cap - recs_len (x # xs) < needed \<longleftrightarrow> cap < framed_len (map snd (x # xs)) + needed" using Cons.prems by auto
  then show ?case using Cons by simp
qed simp

lemma ring_put_refines:
  assumes "queue_of r xs" "16 + length p \<le> sr_capacity r"
  shows "\<exists>r' ys. ring_write_record p r = Some (r', True) \<and> sr_capacity r' = sr_capacity r
    \<and> queue_of r' ys \<and> map snd ys = ring_put (sr_capacity r) p (map snd xs)"
proof -
  let ?N = "sr_capacity r"
  let ?kept = "room ?N (16 + length p) xs"
  obtain r' s where w: "ring_write_record p r = Some (r', True)" "sr_capacity r' = ?N"
    "queue_of r' (if recs_len ?kept + (16 + length p) = ?N then [] else ?kept @ [(s, p)])"
    using write_queue(2) [OF assms] unfolding Let_def by blast
  have k: "map snd ?kept = drop_oldest ?N (16 + length p) (map snd xs)"
    using room_payloads assms by (simp add: queue_of_def)
  moreover have "recs_len ?kept + (16 + length p) = framed_len (map snd ?kept @ [p])"
    by (simp add: recs_len_framed framed_len_def)
  ultimately have "map snd (if recs_len ?kept + (16 + length p) = ?N then [] else ?kept @ [(s, p)])
      = ring_put ?N p (map snd xs)"
    by (simp add: ring_put_def queue_put_def)
  then show ?thesis using w by blast
qed

lemma ring_run_outs:
  "queue_of r xs \<Longrightarrow> \<exists>r'. ring_run ops r = Some (r', ring_outs (sr_capacity r) ops (map snd xs))"
proof (induction ops arbitrary: r xs)
  case (Cons op ops)
  show ?case
  proof (cases op)
    case (Put p)
    show ?thesis
    proof (cases "sr_capacity r < 16 + length p")
      case True
      then show ?thesis using write_queue(1) [OF Cons.prems] Cons.IH [OF Cons.prems] Put by auto
    next
      case False
      then obtain r' ys where "ring_write_record p r = Some (r', True)" "sr_capacity r' = sr_capacity r" "queue_of r' ys"
        "map snd ys = ring_put (sr_capacity r) p (map snd xs)"
        using ring_put_refines [OF Cons.prems, of p] by auto
      then show ?thesis using Cons.IH [of r' ys] False Put by auto
    qed
  next
    case Take
    show ?thesis
    proof (cases xs)
      case Nil
      then show ?thesis using read_next_empty [of r] Cons.IH [of r xs] Cons.prems Take by auto
    next
      case (Cons x ys)
      obtain s p where x: "x = (s, p)" by (cases x)
      obtain r' where "read_next r = Some (r', Some p)" "queue_of r' ys" "sr_capacity r' = sr_capacity r"
        using read_next_queue [of r s p ys] Cons.prems Cons x by auto
      then show ?thesis using Cons.IH [of r' ys] Cons x Take by auto
    qed
  qed
qed simp

lemma initialize_header_ok:
  assumes "0 < cap" "cap < 2 ^ 32" "length buf = HEADER_SIZE + cap"
  shows "\<exists>b r. initialize_header buf cap = Ok b \<and> shared_ring_new b = Ok r \<and> queue_of r [] \<and> sr_capacity r = cap"
proof -
  let ?w = "u32_to_le_bytes (of_nat cap)"
  define b where "b = splice (splice (splice (splice (splice buf 0 ?w) 4 (u32_to_le_bytes 0)) 8 (u32_to_le_bytes 0))
      12 (u32_to_le_bytes 0)) 16 (replicate 16 0)"
  have len: "length buf = 32 + cap" using assms(3) by (simp add: HEADER_SIZE_def)
  then have lb: "length b = 32 + cap" by (simp add: b_def)
  have h: "read_le32 b 0 = cap" "read_le32 b 4 = 0" "read_le32 b 8 = 0"
    using len assms(2) by (simp_all add: b_def read_le32_splice_other read_le32_splice_same unat_u32)
  have "initialize_header buf cap = Ok b" using assms(3) by (simp add: initialize_header_def b_def Let_def)
  moreover have "shared_ring_new b = Ok \<lparr>sr_buf = b, sr_capacity = cap\<rparr>"
    using lb h by (simp add: shared_ring_new_def HEADER_SIZE_def)
  moreover have "queue_of \<lparr>sr_buf = b, sr_capacity = cap\<rparr> []"
    using lb h assms by (simp add: queue_of_def shaped_def get_head_def get_tail_def HEADER_SIZE_def)
  ultimately show ?thesis by (metis shared_ring.select_convs(2))
qed

section \<open>Properties\<close>

text \<open>C19. On a ring initialised over any buffer of the right size no sequence of writes and reads panics
  or loops, and as long as no write fills the ring to its last byte every sequence answers exactly as the
  bounded queue that drops its oldest payloads: a read returns the oldest payload not yet read, intact
  wherever it wraps, a write that fits drops exactly the oldest payloads that have to go, and one larger
  than the ring is refused and changes nothing.\<close>

theorem shared_ring_fifo:
  assumes "0 < cap" "cap < 2 ^ 32" "length buf = HEADER_SIZE + cap"
  shows "\<exists>b r. initialize_header buf cap = Ok b \<and> shared_ring_new b = Ok r
    \<and> (\<forall>ops. \<exists>r' outs. ring_run ops r = Some (r', outs) \<and> (never_fills cap ops [] \<longrightarrow> outs = queue_run cap ops []))"
proof -
  obtain b r where br: "initialize_header buf cap = Ok b" "shared_ring_new b = Ok r" "queue_of r []" "sr_capacity r = cap"
    using initialize_header_ok [OF assms] by blast
  then have "\<exists>r' outs. ring_run ops r = Some (r', outs) \<and> (never_fills cap ops [] \<longrightarrow> outs = queue_run cap ops [])" for ops
    using ring_run_outs [OF br(3), of ops] ring_outs_queue [of cap ops "[]"] by auto
  then show ?thesis using br(1,2) by blast
qed

theorem shared_ring_fifo_witness:
  "\<exists>b r. initialize_header (replicate 72 0) 40 = Ok b \<and> shared_ring_new b = Ok r
    \<and> (\<exists>r'. ring_run [Put [1, 2], Put [3], Put [4, 5, 6], Put [7], Take, Put (replicate 30 9), Take, Take] r =
          Some (r', [Wrote True, Wrote True, Wrote True, Wrote True, Got (Some [4, 5, 6]), Wrote False,
                     Got (Some [7]), Got None]))"
proof -
  let ?ops = "[Put [1, 2], Put [3], Put [4, 5, 6], Put [7], Take, Put (replicate 30 9), Take, Take]"
  have q: "never_fills 40 ?ops []"
    "queue_run 40 ?ops [] = [Wrote True, Wrote True, Wrote True, Wrote True, Got (Some [4, 5, 6]), Wrote False,
       Got (Some [7]), Got None]"
    by (simp_all add: queue_put_def framed_len_def)
  obtain b r where br: "initialize_header (replicate 72 0) 40 = Ok b" "shared_ring_new b = Ok r"
    "\<forall>ops. \<exists>r' outs. ring_run ops r = Some (r', outs) \<and> (never_fills 40 ops [] \<longrightarrow> outs = queue_run 40 ops [])"
    using shared_ring_fifo [of 40 "replicate 72 0"] by (auto simp: HEADER_SIZE_def)
  from br(3) obtain r' outs where "ring_run ?ops r = Some (r', outs)" "never_fills 40 ?ops [] \<longrightarrow> outs = queue_run 40 ?ops []"
    by blast
  then show ?thesis using br(1,2) q by metis
qed

text \<open>A write that fills the ring to the last byte reports success and leaves the ring empty: head and
  tail coincide, so the record just written and every record still unread are lost.\<close>

theorem exact_fill_loses_records:
  assumes "queue_of r xs" "16 + length p \<le> sr_capacity r"
    "recs_len (room (sr_capacity r) (16 + length p) xs) + (16 + length p) = sr_capacity r"
  shows "\<exists>r'. ring_write_record p r = Some (r', True) \<and> read_next r' = Some (r', None)"
  using write_queue(2) [OF assms(1,2)] assms(3) read_next_empty by (auto simp: Let_def)

definition full_ring :: shared_ring where
  "full_ring = \<lparr>sr_buf = u32_to_le_bytes 18 @ replicate 46 0, sr_capacity = 18\<rparr>"

lemma full_ring_ok: "queue_of full_ring []"
  by (simp add: queue_of_def shaped_def get_head_def get_tail_def full_ring_def HEADER_SIZE_def read_le32_def nth_append
      u32_from_le_bytes_def u32_from_be_bytes_def)

theorem exact_fill_loses_records_witness:
  "\<exists>r'. ring_write_record [1, 2] full_ring = Some (r', True) \<and> read_next r' = Some (r', None)"
  using exact_fill_loses_records [OF full_ring_ok, of "[1, 2]"] by (simp add: full_ring_def)

end
