(* ===== verification/Json_Base.thy ===== *)
theory Json_Base
  imports Frame_Scan
begin

text \<open>
  The hand-written JSON reader, after \<open>BaseJsonParser\<close> of \<open>core/src/utils/mod.rs\<close>
  (\<open>core/src/parser_utils/json.rs\<close> is a copy of it). The parser is its bytes and a position; a method
  returns the new position with its result, and \<open>None\<close> where the source indexes out of bounds and
  panics. A text is the list of its UTF-8 bytes. The methods that walk over \<open>char\<close>s only test ASCII
  characters, so they are written over bytes; the exception is the four characters after \<open>\u\<close>.
\<close>

datatype parser_error = InvalidFormat string

section \<open>Texts\<close>

definition is_ascii_digit :: "u8 \<Rightarrow> bool" where
  "is_ascii_digit c = (0x30 \<le> c \<and> c \<le> 0x39)"

text \<open>\<open>str::find\<close> of a text and of an ASCII character.\<close>

fun find_str :: "bytes \<Rightarrow> bytes \<Rightarrow> nat option" where
  "find_str pat [] = (if pat = [] then Some 0 else None)"
| "find_str pat (c # cs) =
     (if take (length pat) (c # cs) = pat then Some 0 else map_option Suc (find_str pat cs))"

definition find_byte :: "u8 \<Rightarrow> bytes \<Rightarrow> nat option" where
  "find_byte b = position (\<lambda>c. c = b)"

definition starts_with :: "bytes \<Rightarrow> bytes \<Rightarrow> bool" where
  "starts_with bs p = (take (length p) bs = p)"

text \<open>\<open>str::trim\<close>: the characters with the Unicode property \<open>White_Space\<close>, by their encodings.\<close>

definition white_space :: "bytes list" where
  "white_space =
     map (\<lambda>c. [c]) [0x09, 0x0A, 0x0B, 0x0C, 0x0D, 0x20] @ [[0xC2, 0x85], [0xC2, 0xA0], [0xE1, 0x9A, 0x80]]
     @ map (\<lambda>c. [0xE2, 0x80, c]) [0x80, 0x81, 0x82, 0x83, 0x84, 0x85, 0x86, 0x87, 0x88, 0x89, 0x8A, 0xA8, 0xA9, 0xAF]
     @ [[0xE2, 0x81, 0x9F], [0xE3, 0x80, 0x80]]"

lemma white_space_nonempty: "w \<in> set white_space \<Longrightarrow> w \<noteq> []"
  by (auto simp: white_space_def)

function strip :: "bytes list \<Rightarrow> bytes \<Rightarrow> bytes" where
  "strip ws bs =
     (case find (\<lambda>w. w \<noteq> [] \<and> starts_with bs w) ws of
        Some w \<Rightarrow> strip ws (drop (length w) bs)
      | None \<Rightarrow> bs)"
  by pat_completeness auto
termination
proof (relation "measure (\<lambda>(ws, bs). length bs)")
  fix ws bs w
  assume "find (\<lambda>w. w \<noteq> [] \<and> starts_with bs w) ws = Some w"
  then have "w \<noteq> []" "take (length w) bs = w" by (auto simp: find_Some_iff starts_with_def)
  then have "bs \<noteq> []" "0 < length w" by auto
  then show "((ws, drop (length w) bs), ws, bs) \<in> measure (\<lambda>(ws, bs). length bs)" by simp
qed simp

declare strip.simps [simp del]

definition trim :: "bytes \<Rightarrow> bytes" where
  "trim bs = rev (strip (map rev white_space) (rev (strip white_space bs)))"

section \<open>Unescaping\<close>

definition unescape_char :: "u8 \<Rightarrow> u8 option" where
  "unescape_char c =
     (if c = QUOTE then Some QUOTE
      else if c = BACKSLASH then Some BACKSLASH
      else if c = 0x2F then Some 0x2F
      else if c = 0x6E then Some 0x0A
      else if c = 0x72 then Some 0x0D
      else if c = 0x74 then Some 0x09
      else if c = 0x62 then Some 0x08
      else if c = 0x66 then Some 0x0C
      else None)"

fun unescape_string :: "bytes \<Rightarrow> bytes" where
  "unescape_string [] = []"
| "unescape_string [c] = [c]"
| "unescape_string (c # d # r) =
     (if c = BACKSLASH then
        (case unescape_char d of
           Some e \<Rightarrow> e # unescape_string r
         | None \<Rightarrow> c # d # unescape_string r)
      else c # unescape_string (d # r))"

text \<open>The next \<open>n\<close> characters of a text, as bytes.\<close>

fun take_chars :: "nat \<Rightarrow> bytes \<Rightarrow> bytes" where
  "take_chars 0 bs = []"
| "take_chars (Suc n) bs =
     (if bs = [] then []
      else take (snd (utf8_head bs)) bs @ take_chars n (drop (snd (utf8_head bs)) bs))"

definition hex_digit :: "u8 \<Rightarrow> nat option" where
  "hex_digit c =
     (if is_ascii_digit c then Some (unat c - 0x30)
      else if 0x61 \<le> c \<and> c \<le> 0x66 then Some (unat c - 0x61 + 10)
      else if 0x41 \<le> c \<and> c \<le> 0x46 then Some (unat c - 0x41 + 10)
      else None)"

text \<open>\<open>u32::from_str_radix(_, 16)\<close> on at most four characters: a leading plus is accepted.\<close>

definition from_str_radix16 :: "bytes \<Rightarrow> nat option" where
  "from_str_radix16 s =
     (let ds = (case s of c # r \<Rightarrow> if c = 0x2B then r else s | [] \<Rightarrow> s)
      in if ds = [] \<or> \<not> list_all (\<lambda>c. hex_digit c \<noteq> None) ds then None
         else Some (foldl (\<lambda>n c. 16 * n + the (hex_digit c)) 0 ds))"

text \<open>\<open>char::from_u32\<close> and the encoding of the character, for code points below \<open>0x10000\<close>.\<close>

definition encode_char :: "nat \<Rightarrow> bytes option" where
  "encode_char cp =
     (if 0xD800 \<le> cp \<and> cp \<le> 0xDFFF then None
      else if cp < 0x80 then Some [of_nat cp]
      else if cp < 0x800 then Some [of_nat (0xC0 + cp div 64), of_nat (0x80 + cp mod 64)]
      else Some [of_nat (0xE0 + cp div 4096), of_nat (0x80 + cp div 64 mod 64), of_nat (0x80 + cp mod 64)])"

definition unicode_escape :: "bytes \<Rightarrow> bytes" where
  "unicode_escape hex =
     (case from_str_radix16 hex of
        Some cp \<Rightarrow> (case encode_char cp of Some ch \<Rightarrow> ch | None \<Rightarrow> [BACKSLASH, 0x75] @ hex)
      | None \<Rightarrow> [BACKSLASH, 0x75] @ hex)"

function unescape_json_fully :: "bytes \<Rightarrow> bytes" where
  "unescape_json_fully [] = []"
| "unescape_json_fully (c # r) =
     (if c \<noteq> BACKSLASH then c # unescape_json_fully r
      else
        (case r of
           [] \<Rightarrow> [c]
         | d # r' \<Rightarrow>
             (case unescape_char d of
                Some e \<Rightarrow> e # unescape_json_fully r'
              | None \<Rightarrow>
                  if d \<in> {LBRACE, RBRACE, LBRACKET, RBRACKET} then d # unescape_json_fully r'
                  else if d = 0x75 then
                    unicode_escape (take_chars 4 r') @ unescape_json_fully (drop (length (take_chars 4 r')) r')
                  else c # d # unescape_json_fully r')))"
  by pat_completeness auto
termination
  by (relation "measure length") auto

definition unescape_if_needed :: "bytes \<Rightarrow> parser_error + bytes option" where
  "unescape_if_needed bs =
     (if \<not> utf8_valid bs then Err (InvalidFormat ''Invalid UTF-8'')
      else
        (let trimmed = trim bs
         in if trimmed = [] then Ok None
            else if starts_with trimmed [BACKSLASH, LBRACE] \<or> starts_with trimmed [BACKSLASH, QUOTE]
            then Ok (Some (unescape_json_fully trimmed))
            else if starts_with trimmed [LBRACE] then
              (let i = skip_ws trimmed 1
               in if i + 1 < length trimmed \<and> trimmed ! i = BACKSLASH \<and> trimmed ! (i + 1) = QUOTE
                  then Ok (Some (unescape_json_fully trimmed))
                  else Ok None)
            else Ok None))"

section \<open>The parser\<close>

definition peek :: "bytes \<Rightarrow> nat \<Rightarrow> u8 option" where
  "peek bs pos = (if pos < length bs then Some (bs ! pos) else None)"

definition expect_byte :: "u8 \<Rightarrow> bytes \<Rightarrow> nat \<Rightarrow> nat \<times> (parser_error + unit)" where
  "expect_byte expected bs pos =
     (if pos \<ge> length bs \<or> bs ! pos \<noteq> expected then (pos, Err (InvalidFormat ''Unexpected byte''))
      else (pos + 1, Ok ()))"

function parse_string_loop :: "bytes \<Rightarrow> nat \<Rightarrow> nat \<Rightarrow> nat \<times> (parser_error + bytes)" where
  "parse_string_loop bs start pos =
     (if pos < length bs then
        (if bs ! pos = QUOTE then (pos + 1, Ok (subslice bs start pos))
         else if bs ! pos = BACKSLASH then
           parse_string_loop bs start (if pos + 1 < length bs then pos + 2 else pos + 1)
         else parse_string_loop bs start (pos + 1))
      else (pos, Err (InvalidFormat ''Unterminated string'')))"
  by pat_completeness auto
termination
  by (relation "measure (\<lambda>(bs, start, pos). length bs - pos)") auto

declare parse_string_loop.simps [simp del]

definition parse_string :: "bytes \<Rightarrow> nat \<Rightarrow> nat \<times> (parser_error + bytes)" where
  "parse_string bs pos =
     (case expect_byte QUOTE bs pos of
        (pos, Err e) \<Rightarrow> (pos, Err e)
      | (pos, Ok _) \<Rightarrow> parse_string_loop bs pos pos)"

definition parse_string_unescaped :: "bytes \<Rightarrow> nat \<Rightarrow> nat \<times> (parser_error + bytes)" where
  "parse_string_unescaped bs pos =
     (case parse_string bs pos of
        (pos, Err e) \<Rightarrow> (pos, Err e)
      | (pos, Ok raw) \<Rightarrow> (pos, Ok (unescape_string raw)))"

function skip_while :: "(u8 \<Rightarrow> bool) \<Rightarrow> bytes \<Rightarrow> nat \<Rightarrow> nat" where
  "skip_while P bs pos = (if pos < length bs \<and> P (bs ! pos) then skip_while P bs (pos + 1) else pos)"
  by pat_completeness auto
termination
  by (relation "measure (\<lambda>(P, bs, pos). length bs - pos)") auto

declare skip_while.simps [simp del]

text \<open>\<open>str::parse\<close> of a non-empty run of ASCII digits into an unsigned type with the given maximum.\<close>

definition dec_value :: "bytes \<Rightarrow> nat" where
  "dec_value ds = foldl (\<lambda>n c. 10 * n + (unat c - 0x30)) 0 ds"

definition parse_unsigned :: "nat \<Rightarrow> bytes \<Rightarrow> nat option" where
  "parse_unsigned limit ds = (if dec_value ds \<le> limit then Some (dec_value ds) else None)"

definition parse_u64 :: "bytes \<Rightarrow> nat \<Rightarrow> nat \<times> (parser_error + u64)" where
  "parse_u64 bs start =
     (let pos = skip_while is_ascii_digit bs start
      in if start = pos then (pos, Err (InvalidFormat ''Expected number''))
         else
           (case parse_unsigned (2 ^ 64 - 1) (subslice bs start pos) of
              None \<Rightarrow> (pos, Err (InvalidFormat ''Invalid number''))
            | Some n \<Rightarrow> (pos, Ok (of_nat n))))"

definition parse_i32 :: "bytes \<Rightarrow> nat \<Rightarrow> nat \<times> (parser_error + i32)" where
  "parse_i32 bs start =
     (case parse_u64 bs start of
        (pos, Err e) \<Rightarrow> (pos, Err e)
      | (pos, Ok n) \<Rightarrow> (pos, Ok (ucast n)))"

text \<open>The loops of \<open>skip_array\<close> and \<open>skip_object\<close>, with the two brackets as arguments.\<close>

function skip_nested :: "u8 \<Rightarrow> u8 \<Rightarrow> bytes \<Rightarrow> nat \<Rightarrow> int \<Rightarrow> nat" where
  "skip_nested a b bs pos depth =
     (if pos < length bs \<and> 0 < depth then
        skip_nested a b bs (pos + 1)
          (if bs ! pos = a then depth + 1 else if bs ! pos = b then depth - 1 else depth)
      else pos)"
  by pat_completeness auto
termination
  by (relation "measure (\<lambda>(a, b, bs, pos, depth). length bs - pos)") auto

declare skip_nested.simps [simp del]

definition skip_array :: "bytes \<Rightarrow> nat \<Rightarrow> nat \<times> (parser_error + unit)" where
  "skip_array bs pos =
     (case expect_byte LBRACKET bs pos of
        (pos, Err e) \<Rightarrow> (pos, Err e)
      | (pos, Ok _) \<Rightarrow> (skip_nested LBRACKET RBRACKET bs pos 1, Ok ()))"

definition skip_object :: "bytes \<Rightarrow> nat \<Rightarrow> nat \<times> (parser_error + unit)" where
  "skip_object bs pos =
     (case expect_byte LBRACE bs pos of
        (pos, Err e) \<Rightarrow> (pos, Err e)
      | (pos, Ok _) \<Rightarrow> (skip_nested LBRACE RBRACE bs pos 1, Ok ()))"

definition skip_bool :: "bytes \<Rightarrow> nat \<Rightarrow> (nat \<times> (parser_error + unit)) option" where
  "skip_bool bs pos =
     (if pos > length bs then None
      else if starts_with (drop pos bs) [0x74, 0x72, 0x75, 0x65] then Some (pos + 4, Ok ())
      else if starts_with (drop pos bs) [0x66, 0x61, 0x6C, 0x73, 0x65] then Some (pos + 5, Ok ())
      else Some (pos, Err (InvalidFormat ''Invalid boolean'')))"

definition skip_null :: "bytes \<Rightarrow> nat \<Rightarrow> (nat \<times> (parser_error + unit)) option" where
  "skip_null bs pos =
     (if pos > length bs then None
      else if starts_with (drop pos bs) [0x6E, 0x75, 0x6C, 0x6C] then Some (pos + 4, Ok ())
      else Some (pos, Err (InvalidFormat ''Invalid null'')))"

definition skip_number :: "bytes \<Rightarrow> nat \<Rightarrow> nat \<times> (parser_error + unit)" where
  "skip_number bs pos =
     (skip_while (\<lambda>c. is_ascii_digit c \<or> c = 0x2E \<or> c = 0x2D \<or> c = 0x2B) bs pos, Ok ())"

definition skip_value :: "bytes \<Rightarrow> nat \<Rightarrow> (nat \<times> (parser_error + unit)) option" where
  "skip_value bs pos =
     (case peek bs pos of
        None \<Rightarrow> None
      | Some c \<Rightarrow>
          if c = QUOTE then
            (case parse_string bs pos of (pos, Err e) \<Rightarrow> Some (pos, Err e) | (pos, Ok _) \<Rightarrow> Some (pos, Ok ()))
          else if c = LBRACKET then Some (skip_array bs pos)
          else if c = LBRACE then Some (skip_object bs pos)
          else if c = 0x74 \<or> c = 0x66 then skip_bool bs pos
          else if c = 0x6E then skip_null bs pos
          else Some (skip_number bs pos))"

definition skip_comma_or_end :: "bytes \<Rightarrow> nat \<Rightarrow> nat" where
  "skip_comma_or_end bs pos =
     (let pos = skip_ws bs pos in if pos < length bs \<and> bs ! pos = COMMA then pos + 1 else pos)"

function raw_value_loop :: "bytes \<Rightarrow> nat \<Rightarrow> nat \<Rightarrow> int \<Rightarrow> bool \<Rightarrow> bool \<Rightarrow> nat \<times> (parser_error + bytes)" where
  "raw_value_loop bs start pos depth in_string escaped =
     (if pos < length bs then
        (let ch = bs ! pos
         in if ch = QUOTE then
              raw_value_loop bs start (pos + 1) depth (if \<not> escaped then \<not> in_string else in_string) False
            else if ch = BACKSLASH then raw_value_loop bs start (pos + 1) depth in_string (\<not> escaped)
            else if (ch = LBRACE \<or> ch = LBRACKET) \<and> \<not> in_string then
              raw_value_loop bs start (pos + 1) (depth + 1) in_string False
            else if (ch = RBRACE \<or> ch = RBRACKET) \<and> \<not> in_string then
              (if depth - 1 = 0 then (pos + 1, Ok (subslice bs start (pos + 1)))
               else raw_value_loop bs start (pos + 1) (depth - 1) in_string False)
            else if ch = COMMA \<and> \<not> in_string \<and> depth = 0 then (pos, Ok (subslice bs start pos))
            else raw_value_loop bs start (pos + 1) depth in_string False)
      else (pos, Err (InvalidFormat ''Invalid JSON value'')))"
  by pat_completeness auto
termination
  by (relation "measure (\<lambda>(bs, start, pos, depth, in_string, escaped). length bs - pos)") auto

declare raw_value_loop.simps [simp del]

definition parse_raw_json_value :: "bytes \<Rightarrow> nat \<Rightarrow> nat \<times> (parser_error + bytes)" where
  "parse_raw_json_value bs pos = raw_value_loop bs pos pos 0 False False"

end
