(* ===== verification/Event_Json.thy ===== *)
theory Event_Json
  imports Json_Base "HOL-Library.Sublist"
begin

text \<open>
  Nostr events and templates as JSON, after \<open>core/src/types/nostr.rs\<close>. The writer puts the fields in a
  fixed order; the reader looks for the first occurrence of each quoted field name anywhere in the text.
  A panic is the outer \<open>None\<close>. The codec of the crate \<open>hex\<close> is a parameter.
\<close>

section \<open>Types\<close>

datatype types_error = TypesInvalidFormat string | TypesOther parser_error

record hex_codec =
  hex_encode :: "bytes \<Rightarrow> bytes"
  hex_decode :: "bytes \<Rightarrow> bytes option"

record template =
  tp_kind :: u16
  tp_content :: bytes
  tp_tags :: "bytes list list"
  tp_created_at :: u64

record event =
  ev_id :: bytes
  ev_pubkey :: bytes
  ev_created_at :: u64
  ev_kind :: u16
  ev_tags :: "bytes list list"
  ev_content :: bytes
  ev_sig :: bytes

definition key_from_hex :: "hex_codec \<Rightarrow> string \<Rightarrow> bytes \<Rightarrow> types_error + bytes" where
  "key_from_hex h msg s =
     (case hex_decode h s of
        None \<Rightarrow> Err (TypesInvalidFormat ''Invalid hex'')
      | Some bs \<Rightarrow> if length bs \<noteq> 32 then Err (TypesInvalidFormat msg) else Ok bs)"

definition event_id_from_hex :: "hex_codec \<Rightarrow> bytes \<Rightarrow> types_error + bytes" where
  "event_id_from_hex h = key_from_hex h ''Invalid event ID''"

definition public_key_from_hex :: "hex_codec \<Rightarrow> bytes \<Rightarrow> types_error + bytes" where
  "public_key_from_hex h = key_from_hex h ''Invalid pubkey''"

section \<open>Writing\<close>

definition escape_char :: "u8 \<Rightarrow> bytes" where
  "escape_char c =
     (if c = BACKSLASH then [BACKSLASH, BACKSLASH]
      else if c = QUOTE then [BACKSLASH, QUOTE]
      else if c = 0x0A then [BACKSLASH, 0x6E]
      else if c = 0x0D then [BACKSLASH, 0x72]
      else if c = 0x09 then [BACKSLASH, 0x74]
      else [c])"

definition escape_string :: "bytes \<Rightarrow> bytes" where
  "escape_string s = concat (map escape_char s)"

fun comma_separated :: "bytes list \<Rightarrow> bytes" where
  "comma_separated [] = []"
| "comma_separated [x] = x"
| "comma_separated (x # xs) = x @ [COMMA] @ comma_separated xs"

definition string_json :: "bytes \<Rightarrow> bytes" where
  "string_json s = [QUOTE] @ escape_string s @ [QUOTE]"

definition tag_json :: "bytes list \<Rightarrow> bytes" where
  "tag_json parts = [LBRACKET] @ comma_separated (map string_json parts) @ [RBRACKET]"

definition tags_to_json :: "bytes list list \<Rightarrow> bytes" where
  "tags_to_json tags = [LBRACKET] @ comma_separated (map tag_json tags) @ [RBRACKET]"

text \<open>\<open>Display\<close> of an unsigned integer.\<close>

fun dec_bytes :: "nat \<Rightarrow> bytes" where
  "dec_bytes n = (if n < 10 then [of_nat (0x30 + n)] else dec_bytes (n div 10) @ [of_nat (0x30 + n mod 10)])"

declare dec_bytes.simps [simp del]

text \<open>The field names of the format strings, in ASCII.\<close>

definition ascii :: "string \<Rightarrow> bytes" where
  "ascii s = map (\<lambda>c. of_nat (of_char c)) s"

definition field :: "string \<Rightarrow> bytes" where
  "field name = [QUOTE] @ ascii name @ [QUOTE]"

definition template_to_json :: "template \<Rightarrow> bytes" where
  "template_to_json t =
     ascii ''{'' @ field ''kind'' @ ascii '':'' @ dec_bytes (unat (tp_kind t))
     @ ascii '','' @ field ''content'' @ ascii '':'' @ string_json (tp_content t)
     @ ascii '','' @ field ''tags'' @ ascii '':'' @ tags_to_json (tp_tags t)
     @ ascii '','' @ field ''created_at'' @ ascii '':'' @ dec_bytes (unat (tp_created_at t)) @ ascii ''}''"

definition event_to_json :: "hex_codec \<Rightarrow> event \<Rightarrow> bytes" where
  "event_to_json h e =
     ascii ''{'' @ field ''id'' @ ascii '':'' @ [QUOTE] @ hex_encode h (ev_id e) @ [QUOTE]
     @ ascii '','' @ field ''pubkey'' @ ascii '':'' @ [QUOTE] @ hex_encode h (ev_pubkey e) @ [QUOTE]
     @ ascii '','' @ field ''created_at'' @ ascii '':'' @ dec_bytes (unat (ev_created_at e))
     @ ascii '','' @ field ''kind'' @ ascii '':'' @ dec_bytes (unat (ev_kind e))
     @ ascii '','' @ field ''tags'' @ ascii '':'' @ tags_to_json (ev_tags e)
     @ ascii '','' @ field ''content'' @ ascii '':'' @ string_json (ev_content e)
     @ ascii '','' @ field ''sig'' @ ascii '':'' @ [QUOTE] @ ev_sig e @ [QUOTE] @ ascii ''}''"

section \<open>Reading tags\<close>

lemma parse_string_loop_bounds:
  "pos \<le> length bs \<Longrightarrow> parse_string_loop bs start pos = (pos', Ok v) \<Longrightarrow> pos < pos' \<and> pos' \<le> length bs"
proof (induction bs start pos rule: parse_string_loop.induct)
  case (1 bs start pos)
  show ?case
  proof (cases "pos < length bs \<and> bs ! pos \<noteq> QUOTE")
    case True
    let ?q = "if bs ! pos = BACKSLASH \<and> pos + 1 < length bs then pos + 2 else pos + 1"
    have "parse_string_loop bs start pos = parse_string_loop bs start ?q"
      using True by (subst parse_string_loop.simps) simp
    then have eq: "parse_string_loop bs start ?q = (pos', Ok v)" using 1 by simp
    have q: "pos < ?q" "?q \<le> length bs" using True by auto
    have "?q < pos' \<and> pos' \<le> length bs"
    proof (cases "bs ! pos = BACKSLASH")
      case True
      then show ?thesis using "1.IH"(1) \<open>pos < length bs \<and> _\<close> q eq by (cases "pos + 1 < length bs") simp_all
    next
      case False
      then show ?thesis using "1.IH"(2) \<open>pos < length bs \<and> _\<close> q eq by simp
    qed
    then show ?thesis using q(1) by linarith
  next
    case False
    then show ?thesis using 1 by (subst (asm) parse_string_loop.simps) (auto split: if_splits)
  qed
qed

lemma parse_string_loop_mono: "parse_string_loop bs start pos = (pos', r) \<Longrightarrow> pos \<le> pos'"
proof (induction bs start pos rule: parse_string_loop.induct)
  case (1 bs start pos)
  then show ?case by (subst (asm) (2) parse_string_loop.simps) (auto split: if_splits)
qed

lemma parse_string_unescaped_bounds:
  assumes "parse_string_unescaped bs pos = (pos', Ok v)"
  shows "pos < pos' \<and> pos' \<le> length bs"
  using assms parse_string_loop_bounds [of "pos + 1" bs "pos + 1"]
  by (auto simp: parse_string_unescaped_def parse_string_def expect_byte_def split: if_splits prod.splits sum.splits)

lemma skip_ws_le: "pos \<le> skip_ws bs pos"
  by (induction bs pos rule: skip_ws.induct) (subst skip_ws.simps, force)

lemma skip_comma_le: "pos \<le> skip_comma_or_end bs pos"
  using skip_ws_le [of pos bs] by (simp add: skip_comma_or_end_def Let_def)

function parse_tag_loop :: "bytes \<Rightarrow> nat \<Rightarrow> bytes list \<Rightarrow> (nat \<times> (parser_error + bytes list)) option" where
  "parse_tag_loop bs pos tag =
     (if pos < length bs then
        (let pos = skip_ws bs pos
         in case peek bs pos of
              None \<Rightarrow> None
            | Some c \<Rightarrow>
                if c = RBRACKET then Some (pos + 1, Ok tag)
                else
                  (case parse_string_unescaped bs pos of
                     (pos, Err e) \<Rightarrow> Some (pos, Err e)
                   | (pos, Ok v) \<Rightarrow> parse_tag_loop bs (skip_comma_or_end bs pos) (tag @ [v])))
      else Some (pos, Ok tag))"
  by pat_completeness auto
termination
proof (relation "measure (\<lambda>(bs, pos, tag). length bs - pos)", goal_cases)
  case (2 bs pos tag p c pos' v)
  then have "p < pos'" using parse_string_unescaped_bounds [of bs p pos'] by (metis)
  moreover have "pos \<le> p" "pos' \<le> skip_comma_or_end bs pos'" using 2 skip_ws_le skip_comma_le by auto
  ultimately show ?case using 2 by simp
qed simp

declare parse_tag_loop.simps [simp del]

definition parse_tag :: "bytes \<Rightarrow> nat \<Rightarrow> (nat \<times> (parser_error + bytes list)) option" where
  "parse_tag bs pos =
     (case expect_byte LBRACKET bs pos of
        (pos, Err e) \<Rightarrow> Some (pos, Err e)
      | (pos, Ok _) \<Rightarrow> parse_tag_loop bs pos [])"

lemma parse_tag_loop_le: "parse_tag_loop bs pos tag = Some (pos', r) \<Longrightarrow> pos \<le> pos'"
proof (induction bs pos tag arbitrary: pos' r rule: parse_tag_loop.induct)
  case (1 bs pos tag)
  let ?p = "skip_ws bs pos"
  have le: "pos \<le> ?p" by (rule skip_ws_le)
  show ?case
  proof (cases "pos < length bs \<and> peek bs ?p \<noteq> None \<and> the (peek bs ?p) \<noteq> RBRACKET")
    case True
    then obtain c where c: "peek bs ?p = Some c" "c \<noteq> RBRACKET" "pos < length bs" by auto
    obtain q w where w: "parse_string_unescaped bs ?p = (q, w)" by (cases "parse_string_unescaped bs ?p")
    show ?thesis
    proof (cases w)
      case (Inl e)
      then have "pos' = q" using 1(2) c w by (subst (asm) parse_tag_loop.simps) simp
      moreover have "?p \<le> q"
        using w Inl parse_string_loop_mono [of bs "Suc ?p" "Suc ?p" q] by (auto simp: parse_string_unescaped_def parse_string_def expect_byte_def
            split: if_splits prod.splits sum.splits)
      ultimately show ?thesis using le by simp
    next
      case (Inr v)
      then have "parse_tag_loop bs (skip_comma_or_end bs q) (tag @ [v]) = Some (pos', r)"
        using 1(2) c w by (subst (asm) parse_tag_loop.simps) simp
      then have "skip_comma_or_end bs q \<le> pos'" using 1(1) c w Inr by simp
      moreover have "?p < q" using parse_string_unescaped_bounds w Inr by metis
      ultimately show ?thesis using le skip_comma_le [of q bs] by linarith
    qed
  next
    case False
    then show ?thesis using 1(2) le by (subst (asm) parse_tag_loop.simps) (auto simp: Let_def split: if_splits option.splits)
  qed
qed

lemma parse_tag_advances:
  assumes "parse_tag bs pos = Some (pos', Ok tag)"
  shows "pos < pos'"
  using assms parse_tag_loop_le [of bs "pos + 1" "[]"] by (auto simp: parse_tag_def expect_byte_def split: if_splits)

function parse_tags_loop :: "bytes \<Rightarrow> nat \<Rightarrow> bytes list list \<Rightarrow> (parser_error + bytes list list) option" where
  "parse_tags_loop bs pos tags =
     (if pos < length bs then
        (let pos = skip_ws bs pos
         in case peek bs pos of
              None \<Rightarrow> None
            | Some c \<Rightarrow>
                if c = RBRACKET then Some (Ok tags)
                else
                  (case parse_tag bs pos of
                     None \<Rightarrow> None
                   | Some (pos, Err e) \<Rightarrow> Some (Err e)
                   | Some (pos, Ok tag) \<Rightarrow> parse_tags_loop bs (skip_comma_or_end bs pos) (tags @ [tag])))
      else Some (Ok tags))"
  by pat_completeness auto
termination
proof (relation "measure (\<lambda>(bs, pos, tags). length bs - pos)", goal_cases)
  case (2 bs pos tags p c r pos' v)
  then have "p < pos'" using parse_tag_advances [of bs p pos'] by metis
  moreover have "pos \<le> p" "pos' \<le> skip_comma_or_end bs pos'" using 2 skip_ws_le skip_comma_le by auto
  ultimately show ?case using 2 by simp
qed simp

declare parse_tags_loop.simps [simp del]

definition tags_parse :: "bytes \<Rightarrow> (parser_error + bytes list list) option" where
  "tags_parse bs =
     (case unescape_if_needed bs of
        Err e \<Rightarrow> Some (Err e)
      | Ok unescaped \<Rightarrow>
          (let bs = (case unescaped of Some u \<Rightarrow> u | None \<Rightarrow> bs)
           in case expect_byte LBRACKET bs (skip_ws bs 0) of
                (pos, Err e) \<Rightarrow> Some (Err e)
              | (pos, Ok _) \<Rightarrow> parse_tags_loop bs pos []))"

definition tags_from_json :: "bytes \<Rightarrow> (types_error + bytes list list) option" where
  "tags_from_json json =
     map_option (\<lambda>r. case r of Err e \<Rightarrow> Err (TypesOther e) | Ok tags \<Rightarrow> Ok tags) (tags_parse json)"

section \<open>Reading fields\<close>

text \<open>\<open>&text[i..]\<close>.\<close>

definition slice_from :: "bytes \<Rightarrow> nat \<Rightarrow> bytes option" where
  "slice_from bs i = slice_str bs i (length bs)"

text \<open>The value between the next two quotes after the field name; \<open>Ok None\<close> when the name is missing.\<close>

definition quoted_field :: "string \<Rightarrow> bytes \<Rightarrow> (types_error + bytes option) option" where
  "quoted_field name json =
     (case find_str (field name) json of
        None \<Rightarrow> Some (Ok None)
      | Some i \<Rightarrow>
          (case slice_from json (i + length (field name)) of
             None \<Rightarrow> None
           | Some tail \<Rightarrow>
               (case find_byte QUOTE tail of
                  None \<Rightarrow> Some (Err (TypesInvalidFormat (''Invalid '' @ name @ '' format'')))
                | Some q1 \<Rightarrow>
                    (case slice_from tail (q1 + 1) of
                       None \<Rightarrow> None
                     | Some rest \<Rightarrow>
                         (case find_byte QUOTE rest of
                            None \<Rightarrow> Some (Err (TypesInvalidFormat (''Missing '' @ name @ '' value'')))
                          | Some q2 \<Rightarrow> map_option (\<lambda>v. Ok (Some v)) (slice_str tail (q1 + 1) (q1 + 1 + q2)))))))"

definition hex_field :: "string \<Rightarrow> (bytes \<Rightarrow> types_error + bytes) \<Rightarrow> bytes \<Rightarrow> (types_error + bytes) option" where
  "hex_field name dec json =
     (case quoted_field name json of
        None \<Rightarrow> None
      | Some (Err e) \<Rightarrow> Some (Err e)
      | Some (Ok None) \<Rightarrow> Some (Err (TypesInvalidFormat (''Missing '' @ name)))
      | Some (Ok (Some v)) \<Rightarrow> Some (dec v))"

definition number_sep :: "u8 \<Rightarrow> bool" where
  "number_sep c = (c = 0x20 \<or> c = 0x09 \<or> c = 0x3A)"

definition number_field :: "string \<Rightarrow> nat \<Rightarrow> bytes \<Rightarrow> (types_error + nat) option" where
  "number_field name limit json =
     (case find_str (field name) json of
        None \<Rightarrow> Some (Err (TypesInvalidFormat (''Missing '' @ name)))
      | Some i \<Rightarrow>
          (case slice_from json (i + length (field name)) of
             None \<Rightarrow> None
           | Some tail \<Rightarrow>
               (let start = skip_while number_sep tail 0;
                    j = skip_while is_ascii_digit tail start
                in if start = j then Some (Err (TypesInvalidFormat (''Invalid '' @ name)))
                   else
                     (case slice_str tail start j of
                        None \<Rightarrow> None
                      | Some num_str \<Rightarrow>
                          (case parse_unsigned limit num_str of
                             None \<Rightarrow> Some (Err (TypesInvalidFormat (''Invalid '' @ name)))
                           | Some n \<Rightarrow> Some (Ok n))))))"

text \<open>The end of the array that opens the list, counted in bytes; \<open>Ok None\<close> when it does not close.\<close>

fun tags_extent :: "nat \<Rightarrow> bool \<Rightarrow> bool \<Rightarrow> bytes \<Rightarrow> types_error + nat option" where
  "tags_extent depth in_string escaped [] = Ok None"
| "tags_extent depth in_string escaped (c # cs) =
     (let continue = (\<lambda>depth in_string escaped.
            case tags_extent depth in_string escaped cs of Err e \<Rightarrow> Err e | Ok n \<Rightarrow> Ok (map_option Suc n))
      in if in_string then
           (if escaped then continue depth True False
            else if c = BACKSLASH then continue depth True True
            else if c = QUOTE then continue depth False False
            else continue depth True False)
         else if c = QUOTE then continue depth True escaped
         else if c = LBRACKET then continue (depth + 1) False escaped
         else if c = RBRACKET then
           (if depth = 0 then Err (TypesInvalidFormat ''Unbalanced tags array'')
            else if depth - 1 = 0 then Ok (Some 1)
            else continue (depth - 1) False escaped)
         else continue depth False escaped)"

definition tags_field :: "bytes \<Rightarrow> (types_error + bytes list list) option" where
  "tags_field json =
     (case find_str (field ''tags'') json of
        None \<Rightarrow> Some (Err (TypesInvalidFormat ''Missing tags''))
      | Some i \<Rightarrow>
          (case slice_from json (i + length (field ''tags'')) of
             None \<Rightarrow> None
           | Some tail \<Rightarrow>
               (case find_byte LBRACKET tail of
                  None \<Rightarrow> Some (Err (TypesInvalidFormat ''Missing tags array''))
                | Some start_rel \<Rightarrow>
                    (let start = i + length (field ''tags'') + start_rel
                     in case tags_extent 0 False False (drop start json) of
                          Err e \<Rightarrow> Some (Err e)
                        | Ok None \<Rightarrow> Some (Err (TypesInvalidFormat ''Invalid tags array''))
                        | Ok (Some n) \<Rightarrow>
                            (case slice_str json start (start + n) of
                               None \<Rightarrow> None
                             | Some tags_str \<Rightarrow> tags_from_json tags_str)))))"

fun content_scan :: "bool \<Rightarrow> bytes \<Rightarrow> bytes" where
  "content_scan escaped [] = []"
| "content_scan escaped (c # cs) =
     (if escaped then
        (if c = QUOTE then QUOTE
         else if c = BACKSLASH then BACKSLASH
         else if c = 0x6E then 0x0A
         else if c = 0x72 then 0x0D
         else if c = 0x74 then 0x09
         else c) # content_scan False cs
      else if c = BACKSLASH then content_scan True cs
      else if c = QUOTE then []
      else c # content_scan False cs)"

definition content_field :: "bytes \<Rightarrow> (types_error + bytes) option" where
  "content_field json =
     (case find_str (field ''content'') json of
        None \<Rightarrow> Some (Err (TypesInvalidFormat ''Missing content''))
      | Some i \<Rightarrow>
          (case slice_from json (i + length (field ''content'')) of
             None \<Rightarrow> None
           | Some tail \<Rightarrow>
               (case find_byte QUOTE tail of
                  None \<Rightarrow> Some (Err (TypesInvalidFormat ''Missing content string''))
                | Some qpos \<Rightarrow>
                    (let raw_bytes = content_scan False (drop (qpos + 1) tail)
                     in if utf8_valid raw_bytes then Some (Ok raw_bytes)
                        else Some (Err (TypesInvalidFormat ''Invalid UTF-8 in content''))))))"

text \<open>The operator \<open>?\<close> between the fields, with the panic outside.\<close>

definition then_field :: "(types_error + 'a) option \<Rightarrow> ('a \<Rightarrow> (types_error + 'b) option) \<Rightarrow> (types_error + 'b) option" where
  "then_field x f = (case x of None \<Rightarrow> None | Some (Err e) \<Rightarrow> Some (Err e) | Some (Ok v) \<Rightarrow> f v)"

definition template_from_json :: "bytes \<Rightarrow> (types_error + template) option" where
  "template_from_json json =
     then_field (number_field ''kind'' (2 ^ 32 - 1) json) (\<lambda>kind.
     then_field (content_field json) (\<lambda>content.
     then_field (tags_field json) (\<lambda>tags.
     then_field (number_field ''created_at'' (2 ^ 64 - 1) json) (\<lambda>created_at.
       if kind > 65535 then Some (Err (TypesInvalidFormat ''Kind out of range''))
       else Some (Ok \<lparr>tp_kind = of_nat kind, tp_content = content, tp_tags = tags, tp_created_at = of_nat created_at\<rparr>)))))"

definition event_from_json :: "hex_codec \<Rightarrow> bytes \<Rightarrow> (types_error + event) option" where
  "event_from_json h json =
     then_field (hex_field ''id'' (event_id_from_hex h) json) (\<lambda>i.
     then_field (hex_field ''pubkey'' (public_key_from_hex h) json) (\<lambda>pubkey.
     then_field (number_field ''created_at'' (2 ^ 64 - 1) json) (\<lambda>created_at.
     then_field (number_field ''kind'' (2 ^ 32 - 1) json) (\<lambda>kind.
     then_field (tags_field json) (\<lambda>tags.
     then_field (content_field json) (\<lambda>content.
     then_field (quoted_field ''sig'' json) (\<lambda>s.
       if kind > 65535 then Some (Err (TypesInvalidFormat ''Kind out of range''))
       else Some (Ok \<lparr>ev_id = i, ev_pubkey = pubkey, ev_created_at = of_nat created_at, ev_kind = of_nat kind,
              ev_tags = tags, ev_content = content, ev_sig = (case s of Some v \<Rightarrow> v | None \<Rightarrow> [])\<rparr>))))))))"

section \<open>Valid texts\<close>

lemma utf8_valid_append: "utf8_valid a \<Longrightarrow> utf8_valid b \<Longrightarrow> utf8_valid (a @ b)"
proof (induction "length a" arbitrary: a rule: less_induct)
  case less
  show ?case
  proof (cases "a = []")
    case False
    let ?n = "snd (utf8_head a)"
    have h: "fst (utf8_head a)" "utf8_valid (drop ?n a)" using utf8_valid_step [OF False] less.prems(1) by auto
    have n: "0 < ?n" using utf8_head_pos [OF False] .
    have "utf8_valid (drop ?n a @ b)" by (rule less.hyps) (use h n False less.prems in auto)
    then have "utf8_valid (take ?n a @ drop ?n a @ b)" using utf8_valid_take_head [OF h(1) False] by simp
    then show ?thesis by (simp add: append_assoc [symmetric] del: append_assoc)
  qed (use less.prems in simp)
qed

lemma utf8_valid_ascii: "\<forall>c \<in> set a. c < 0x80 \<Longrightarrow> utf8_valid a"
  by (induction a) auto

lemma escape_char_ge: "0x80 \<le> c \<Longrightarrow> escape_char c = [c]"
  by (auto simp: escape_char_def)

lemma escape_char_ascii: "c < 0x80 \<Longrightarrow> \<forall>d \<in> set (escape_char c). d < 0x80"
  by (simp add: escape_char_def)

lemma escape_string_simps [simp]:
  "escape_string [] = []" "escape_string (c # s) = escape_char c @ escape_string s"
  "escape_string (a @ b) = escape_string a @ escape_string b"
  by (simp_all add: escape_string_def)

lemma escape_string_high: "\<forall>c \<in> set s. 0x80 \<le> c \<Longrightarrow> escape_string s = s"
  by (induction s) (simp_all add: escape_char_ge)

lemma utf8_valid_escape: "utf8_valid s \<Longrightarrow> utf8_valid (escape_string s)"
proof (induction "length s" arbitrary: s rule: less_induct)
  case less
  show ?case
  proof (cases s)
    case (Cons b r)
    let ?n = "snd (utf8_head s)"
    have h: "fst (utf8_head s)" "utf8_valid (drop ?n s)" using utf8_valid_step [of s] less.prems Cons by auto
    have n: "0 < ?n" "?n \<le> length s" using utf8_head_pos [of s] utf8_head_append [of s] h(1) Cons by auto
    have IH: "utf8_valid (escape_string (drop ?n s))" by (rule less.hyps) (use h n Cons in auto)
    have split: "escape_string s = escape_string (take ?n s) @ escape_string (drop ?n s)"
      using escape_string_simps(3) [of "take ?n s" "drop ?n s"] by simp
    consider "?n = 1" "b < 0x80" | "0x80 \<le> b" "\<forall>j < ?n - 1. 0x80 \<le> r ! j"
      using utf8_head_bytes [of b r] h(1) Cons by auto
    then show ?thesis
    proof cases
      case 1
      then have "escape_string s = escape_char b @ escape_string (drop ?n s)" using split Cons by simp
      then show ?thesis using utf8_valid_append [OF utf8_valid_ascii [OF escape_char_ascii [OF 1(2)]] IH] by simp
    next
      case 2
      have "\<forall>c \<in> set (take ?n s). 0x80 \<le> c"
      proof
        fix c assume "c \<in> set (take ?n s)"
        then obtain j where "j < ?n" "c = s ! j" using n(2) by (auto simp: in_set_conv_nth)
        then show "0x80 \<le> c" using 2 Cons by (cases j) auto
      qed
      then have "escape_string s = take ?n s @ escape_string (drop ?n s)" using split escape_string_high by simp
      then show ?thesis using utf8_valid_take_head [of s "escape_string (drop ?n s)"] h(1) Cons IH by simp
    qed
  qed simp
qed

lemma utf8_valid_cons_ascii: "c < 0x80 \<Longrightarrow> utf8_valid (c # bs) = utf8_valid bs"
  by simp

lemma utf8_valid_comma_separated:
  "\<forall>x \<in> set xs. utf8_valid x \<Longrightarrow> utf8_valid (comma_separated xs)"
  by (induction xs rule: comma_separated.induct) (auto intro!: utf8_valid_append)

lemma utf8_valid_string_json: "utf8_valid s \<Longrightarrow> utf8_valid (string_json s)"
  by (auto simp: string_json_def intro!: utf8_valid_append utf8_valid_escape)

lemma utf8_valid_tags:
  assumes "\<forall>tag \<in> set tags. \<forall>s \<in> set tag. utf8_valid s"
  shows "utf8_valid (tags_to_json tags)"
proof -
  have "\<forall>x \<in> set (map tag_json tags). utf8_valid x"
    using assms by (auto simp: tag_json_def intro!: utf8_valid_append utf8_valid_comma_separated utf8_valid_string_json)
  then have "utf8_valid (comma_separated (map tag_json tags))" by (rule utf8_valid_comma_separated)
  then show ?thesis by (simp add: tags_to_json_def utf8_valid_append)
qed

section \<open>Finding a field\<close>

lemma find_str_None_append:
  assumes "find_str pat a = None" "find_str pat b = None" "c \<notin> set pat"
  shows "find_str pat (a @ c # b) = None"
  using assms(1)
proof (induction a)
  case Nil
  then show ?case using assms by (cases pat) auto
next
  case (Cons x a)
  have "take (length pat) (x # a @ c # b) \<noteq> pat"
  proof
    assume eq: "take (length pat) (x # a @ c # b) = pat"
    show False
    proof (cases "length pat \<le> length (x # a)")
      case True
      then have "take (length pat) (x # a) = pat" using eq take_append [of "length pat" "x # a" "c # b"] by simp
      then show False using Cons.prems by simp
    next
      case False
      then have "pat ! length (x # a) = (x # a @ c # b) ! length (x # a)" using eq by (metis nth_take not_le)
      then have "pat ! length (x # a) = c" by (simp add: nth_append)
      then show False using assms(3) False nth_mem [of "length (x # a)" pat] by auto
    qed
  qed
  moreover have "find_str pat a = None" using Cons.prems by (simp split: if_splits)
  ultimately show ?case using Cons.IH by simp
qed

lemma find_str_skip: "c \<notin> set pat \<Longrightarrow> pat \<noteq> [] \<Longrightarrow> find_str pat (c # s) = map_option Suc (find_str pat s)"
  by (cases pat) auto

lemma find_str_at:
  assumes "find_str pat pre = None" "c \<notin> set pat" "pat \<noteq> []"
  shows "find_str pat (pre @ c # pat @ post) = Some (Suc (length pre))"
  using assms(1)
proof (induction pre)
  case Nil
  have "find_str pat (pat @ post) = Some 0" using assms(3) by (cases pat) auto
  then show ?case using find_str_skip [OF assms(2,3)] by simp
next
  case (Cons x a)
  have "take (length pat) (x # a @ c # pat @ post) \<noteq> pat"
  proof
    assume eq: "take (length pat) (x # a @ c # pat @ post) = pat"
    show False
    proof (cases "length pat \<le> length (x # a)")
      case True
      then have "take (length pat) (x # a) = pat" using eq take_append [of "length pat" "x # a" "c # pat @ post"] by simp
      then show False using Cons.prems by simp
    next
      case False
      then have "pat ! length (x # a) = (x # a @ c # pat @ post) ! length (x # a)" using eq by (metis nth_take not_le)
      then have "pat ! length (x # a) = c" by (simp add: nth_append)
      then show False using assms(2) False nth_mem [of "length (x # a)" pat] by auto
    qed
  qed
  moreover have "find_str pat a = None" using Cons.prems by (simp split: if_splits)
  ultimately show ?case using Cons.IH by simp
qed

text \<open>A quoted text contains the field only when it is the field name or an escaped quote before it ends it.\<close>

definition ends_field :: "string \<Rightarrow> bytes \<Rightarrow> bool" where
  "ends_field name s = (s = ascii name \<or> suffix (QUOTE # ascii name) s)"

definition plain_name :: "string \<Rightarrow> bool" where
  "plain_name name = (\<forall>c \<in> set (ascii name). c \<notin> {QUOTE, BACKSLASH, 0x0A, 0x0D, 0x09, COMMA, LBRACKET, RBRACKET, LBRACE, 0x3A})"

lemma find_quoted_skip:
  assumes "QUOTE \<notin> set b" "QUOTE \<notin> set k" "b \<noteq> k"
  shows "find_str (QUOTE # k @ [QUOTE]) (QUOTE # b @ QUOTE # r) = map_option (\<lambda>n. Suc (length b) + n) (find_str (QUOTE # k @ [QUOTE]) (QUOTE # r))"
proof -
  have ne: "take (Suc (length k)) (b @ QUOTE # r) \<noteq> k @ [QUOTE]"
  proof
    assume "take (Suc (length k)) (b @ QUOTE # r) = k @ [QUOTE]"
    then have "b @ QUOTE # r = k @ QUOTE # drop (Suc (length k)) (b @ QUOTE # r)"
      using append_take_drop_id [of "Suc (length k)" "b @ QUOTE # r"] by simp
    then have "takeWhile (\<lambda>c. c \<noteq> QUOTE) (b @ QUOTE # r) = takeWhile (\<lambda>c. c \<noteq> QUOTE) (k @ QUOTE # drop (Suc (length k)) (b @ QUOTE # r))"
      by (rule arg_cong)
    moreover have "takeWhile (\<lambda>c. c \<noteq> QUOTE) (x @ QUOTE # y) = x" if "QUOTE \<notin> set x" for x y
      using that by (induction x) auto
    ultimately show False using assms by metis
  qed
  have walk: "find_str (QUOTE # k @ [QUOTE]) (b @ QUOTE # r) = map_option (\<lambda>n. length b + n) (find_str (QUOTE # k @ [QUOTE]) (QUOTE # r))"
    using assms(1)
  proof (induction b)
    case Nil
    then show ?case by (simp add: option.map_id0 [unfolded id_def])
  next
    case (Cons x b)
    then have "find_str (QUOTE # k @ [QUOTE]) (x # b @ QUOTE # r) = map_option Suc (find_str (QUOTE # k @ [QUOTE]) (b @ QUOTE # r))"
      by simp
    then show ?case using Cons by (simp add: option.map_comp o_def del: find_str.simps)
  qed
  have "find_str (QUOTE # k @ [QUOTE]) (QUOTE # b @ QUOTE # r) = map_option Suc (find_str (QUOTE # k @ [QUOTE]) (b @ QUOTE # r))"
    using ne by simp
  then show ?thesis using walk by (simp add: option.map_comp o_def del: find_str.simps)
qed

lemma find_quoted_None:
  assumes "QUOTE \<notin> set b" "QUOTE \<notin> set k" "b \<noteq> k"
  shows "find_str (QUOTE # k @ [QUOTE]) (QUOTE # b @ [QUOTE]) = None"
  using find_quoted_skip [OF assms, of "[]"] by simp

lemma escape_char_quote: "c \<noteq> QUOTE \<Longrightarrow> QUOTE \<notin> set (escape_char c)"
  by (simp add: escape_char_def)

lemma escape_no_quote: "QUOTE \<notin> set s \<Longrightarrow> QUOTE \<notin> set (escape_string s)"
  by (induction s) (auto simp: escape_char_def)

lemma escape_plain: "BACKSLASH \<notin> set (escape_string s) \<Longrightarrow> escape_string s = s"
  by (induction s) (auto simp: escape_char_def split: if_splits)

lemma find_in_string_json:
  assumes "plain_name name"
  shows "\<not> ends_field name s \<Longrightarrow> find_str (field name) (string_json s) = None"
proof (induction "length s" arbitrary: s rule: less_induct)
  case less
  let ?k = "ascii name"
  have k: "QUOTE \<notin> set ?k" "BACKSLASH \<notin> set ?k" using assms by (auto simp: plain_name_def)
  have fk: "field name = QUOTE # ?k @ [QUOTE]" by (simp add: field_def)
  show ?case
  proof (cases "QUOTE \<in> set s")
    case False
    have "escape_string s \<noteq> ?k" using less.prems escape_plain [of s] k(2) by (auto simp: ends_field_def)
    then show ?thesis
      using find_quoted_None [OF escape_no_quote [OF False] k(1)] by (simp add: fk string_json_def)
  next
    case True
    then obtain a r where s: "s = a @ QUOTE # r" "QUOTE \<notin> set a" by (meson split_list_first)
    have "\<not> ends_field name r" using less.prems s(1) by (auto simp: ends_field_def suffix_def)
    then have IH: "find_str (field name) (string_json r) = None" using less.hyps [of r] s(1) by simp
    let ?b = "escape_string a @ [BACKSLASH]"
    have "string_json s = QUOTE # ?b @ QUOTE # escape_string r @ [QUOTE]"
      using s(1) by (simp add: string_json_def escape_char_def)
    moreover have "BACKSLASH \<in> set ?b" by simp
    then have "?b \<noteq> ?k" using k(2) by metis
    moreover have "QUOTE \<notin> set ?b" using escape_no_quote [OF s(2)] by simp
    ultimately show ?thesis
      using find_quoted_skip [of ?b ?k "escape_string r @ [QUOTE]"] k(1) IH by (simp add: fk string_json_def del: find_str.simps)
  qed
qed

lemma field_lacks:
  assumes "plain_name name" "c \<in> {COMMA, LBRACKET, RBRACKET, LBRACE, 0x3A}"
  shows "c \<notin> set (field name)"
proof -
  have "c \<notin> set (ascii name)" using assms unfolding plain_name_def by blast
  moreover have "c \<noteq> QUOTE" using assms(2) by auto
  ultimately show ?thesis by (simp add: field_def)
qed

lemma field_nonempty [simp]: "field name \<noteq> []"
  by (simp add: field_def)

lemma find_field_Nil [simp]: "find_str (field name) [] = None"
  by simp

declare find_str.simps(2) [simp del]

lemma find_field_comma_separated:
  assumes "plain_name name"
  shows "\<forall>x \<in> set xs. find_str (field name) x = None \<Longrightarrow> find_str (field name) (comma_separated xs) = None"
proof (induction xs rule: comma_separated.induct)
  case (3 x y ys)
  then have "find_str (field name) x = None" by simp
  moreover have "find_str (field name) (comma_separated (y # ys)) = None" by (rule 3(1)) (use 3(2) in simp)
  ultimately have "find_str (field name) (x @ COMMA # comma_separated (y # ys)) = None"
    using field_lacks [OF assms, of COMMA] by (intro find_str_None_append) blast+
  then show ?case by (simp only: comma_separated.simps append_Cons append_Nil)
qed simp_all

lemma find_field_enclosed:
  assumes "plain_name name" "find_str (field name) x = None"
  shows "find_str (field name) ([LBRACKET] @ x @ [RBRACKET]) = None"
proof -
  have "find_str (field name) (x @ RBRACKET # []) = None"
    using find_str_None_append [OF assms(2) find_field_Nil] field_lacks [OF assms(1)] by blast
  then show ?thesis
    using find_str_None_append [of "field name" "[]" "x @ [RBRACKET]" LBRACKET] field_lacks [OF assms(1), of LBRACKET]
    by (simp del: find_str.simps)
qed

lemma find_field_tags:
  assumes "plain_name name" "\<forall>tag \<in> set tags. \<forall>s \<in> set tag. \<not> ends_field name s"
  shows "find_str (field name) (tags_to_json tags) = None"
proof -
  have "find_str (field name) (tag_json tag) = None" if "tag \<in> set tags" for tag
    unfolding tag_json_def using that assms find_in_string_json [OF assms(1)]
    by (intro find_field_enclosed find_field_comma_separated) auto
  then show ?thesis
    unfolding tags_to_json_def using assms(1) by (intro find_field_enclosed find_field_comma_separated) auto
qed

lemma find_field_no_quote: "QUOTE \<notin> set x \<Longrightarrow> find_str (field name) x = None"
  by (induction x) (auto simp: field_def find_str.simps)

section \<open>Reading strings and tags back\<close>

lemma unescape_escape: "unescape_string (escape_string s) = s"
proof (induction s)
  case (Cons c s)
  have "unescape_string (escape_char c @ r) = c # unescape_string r" for r
  proof (cases "c \<in> {BACKSLASH, QUOTE, 0x0A, 0x0D, 0x09}")
    case True
    then show ?thesis by (auto simp: escape_char_def unescape_char_def)
  next
    case False
    then show ?thesis by (cases r) (auto simp: escape_char_def)
  qed
  then show ?case using Cons by simp
qed simp

lemma content_scan_escape: "content_scan False (escape_string s @ QUOTE # r) = s"
  by (induction s) (auto simp: escape_char_def)

lemma parse_string_loop_escape:
  "parse_string_loop (pre @ escape_string s @ QUOTE # r) start (length pre) =
     (length pre + length (escape_string s) + 1, Ok (subslice (pre @ escape_string s @ QUOTE # r) start (length pre + length (escape_string s))))"
proof (induction s arbitrary: pre)
  case Nil
  show ?case by (subst parse_string_loop.simps) simp
next
  case (Cons c s)
  let ?bs = "pre @ escape_string (c # s) @ QUOTE # r"
  have step: "parse_string_loop ?bs start (length pre) = parse_string_loop ?bs start (length (pre @ escape_char c))"
    by (subst parse_string_loop.simps) (auto simp: escape_char_def nth_append)
  show ?case using Cons.IH [of "pre @ escape_char c"] step by (simp add: add.assoc)
qed

lemma parse_string_json:
  "parse_string_unescaped (pre @ string_json s @ r) (length pre) = (length pre + length (string_json s), Ok s)"
proof -
  let ?bs = "pre @ string_json s @ r"
  have bs: "?bs = (pre @ [QUOTE]) @ escape_string s @ QUOTE # r" by (simp add: string_json_def)
  have e: "expect_byte QUOTE ?bs (length pre) = (length pre + 1, Ok ())"
    by (simp add: expect_byte_def string_json_def nth_append)
  have "subslice ?bs (length pre + 1) (length pre + 1 + length (escape_string s)) = escape_string s"
    unfolding bs by (simp add: subslice_def)
  then have "parse_string ?bs (length pre) = (length pre + length (string_json s), Ok (escape_string s))"
    using parse_string_loop_escape [of "pre @ [QUOTE]" s r "length pre + 1"] e
    by (simp add: parse_string_def bs [symmetric] string_json_def)
  then show ?thesis by (simp add: parse_string_unescaped_def unescape_escape)
qed

lemma skip_ws_at: "pos < length bs \<Longrightarrow> \<not> is_ascii_whitespace (bs ! pos) \<Longrightarrow> skip_ws bs pos = pos"
  by (subst skip_ws.simps) simp

lemma not_ws [simp]:
  "\<not> is_ascii_whitespace QUOTE" "\<not> is_ascii_whitespace LBRACKET" "\<not> is_ascii_whitespace RBRACKET" "\<not> is_ascii_whitespace COMMA"
  by (simp_all add: is_ascii_whitespace_def)

lemma skip_comma_at:
  "skip_comma_or_end (pre @ COMMA # r) (length pre) = length pre + 1"
  "skip_comma_or_end (pre @ RBRACKET # r) (length pre) = length pre"
  by (simp_all add: skip_comma_or_end_def Let_def skip_ws_at nth_append)

lemma parse_tag_loop_json:
  "parse_tag_loop (pre @ comma_separated (map string_json parts) @ RBRACKET # r) (length pre) acc =
     Some (length pre + length (comma_separated (map string_json parts)) + 1, Ok (acc @ parts))"
proof (induction "map string_json parts" arbitrary: pre parts acc rule: comma_separated.induct)
  case 1
  then show ?case by (subst parse_tag_loop.simps) (simp add: skip_ws_at nth_append peek_def)
next
  case (2 x)
  then obtain s where s: "parts = [s]" "x = string_json s" by auto
  let ?bs = "pre @ string_json s @ RBRACKET # r"
  have hd: "length pre < length ?bs" "?bs ! length pre = QUOTE" by (simp_all add: string_json_def nth_append)
  have c: "skip_comma_or_end ?bs (length pre + length (string_json s)) = length (pre @ string_json s)"
    using skip_comma_at(2) [of "pre @ string_json s" r] by simp
  have last: "parse_tag_loop ?bs (length (pre @ string_json s)) (acc @ [s]) = Some (length (pre @ string_json s) + 1, Ok (acc @ [s]))"
    by (subst parse_tag_loop.simps) (simp add: skip_ws_at nth_append peek_def)
  show ?case using hd parse_string_json [of pre s "RBRACKET # r"] c last
    by (subst parse_tag_loop.simps) (simp add: s skip_ws_at peek_def)
next
  case (3 x y ys)
  then obtain s ps where s: "parts = s # ps" "x = string_json s" "y # ys = map string_json ps" by auto
  let ?rest = "comma_separated (map string_json ps) @ RBRACKET # r"
  let ?bs = "pre @ string_json s @ COMMA # ?rest"
  have hd: "length pre < length ?bs" "?bs ! length pre = QUOTE" by (simp_all add: string_json_def nth_append)
  have c: "skip_comma_or_end ?bs (length pre + length (string_json s)) = length (pre @ string_json s @ [COMMA])"
    using skip_comma_at(1) [of "pre @ string_json s" ?rest] by simp
  have IH: "parse_tag_loop ?bs (length (pre @ string_json s @ [COMMA])) (acc @ [s]) =
      Some (length (pre @ string_json s @ [COMMA]) + length (comma_separated (map string_json ps)) + 1, Ok ((acc @ [s]) @ ps))"
    using 3(1) [OF s(3), of "pre @ string_json s @ [COMMA]" "acc @ [s]"] by simp
  have json: "comma_separated (map string_json parts) = string_json s @ [COMMA] @ comma_separated (map string_json ps)"
    using s by (cases ps) auto
  have "parse_tag_loop ?bs (length pre) acc =
      Some (length (pre @ string_json s @ [COMMA]) + length (comma_separated (map string_json ps)) + 1, Ok ((acc @ [s]) @ ps))"
    using hd parse_string_json [of pre s "COMMA # ?rest"] c IH by (subst parse_tag_loop.simps) (simp add: skip_ws_at peek_def)
  then show ?case unfolding json by (simp add: s(1))
qed

lemma parse_tag_json:
  "parse_tag (pre @ tag_json parts @ r) (length pre) = Some (length pre + length (tag_json parts), Ok parts)"
proof -
  let ?bs = "pre @ tag_json parts @ r"
  have bs: "?bs = (pre @ [LBRACKET]) @ comma_separated (map string_json parts) @ RBRACKET # r" by (simp add: tag_json_def)
  have "expect_byte LBRACKET ?bs (length pre) = (length pre + 1, Ok ())"
    by (simp add: expect_byte_def tag_json_def nth_append)
  then show ?thesis
    using parse_tag_loop_json [of "pre @ [LBRACKET]" parts r "[]"]
    by (simp add: parse_tag_def bs [symmetric] tag_json_def)
qed

lemma parse_tags_loop_json:
  "parse_tags_loop (pre @ comma_separated (map tag_json tags) @ RBRACKET # r) (length pre) acc = Some (Ok (acc @ tags))"
proof (induction "map tag_json tags" arbitrary: pre tags acc rule: comma_separated.induct)
  case 1
  then show ?case by (subst parse_tags_loop.simps) (simp add: skip_ws_at nth_append peek_def)
next
  case (2 x)
  then obtain s where s: "tags = [s]" "x = tag_json s" by auto
  let ?bs = "pre @ tag_json s @ RBRACKET # r"
  have hd: "length pre < length ?bs" "?bs ! length pre = LBRACKET" by (simp_all add: tag_json_def nth_append)
  have c: "skip_comma_or_end ?bs (length pre + length (tag_json s)) = length (pre @ tag_json s)"
    using skip_comma_at(2) [of "pre @ tag_json s" r] by simp
  have last: "parse_tags_loop ?bs (length (pre @ tag_json s)) (acc @ [s]) = Some (Ok (acc @ [s]))"
    by (subst parse_tags_loop.simps) (simp add: skip_ws_at nth_append peek_def)
  show ?case using hd parse_tag_json [of pre s "RBRACKET # r"] c last
    by (subst parse_tags_loop.simps) (simp add: s skip_ws_at peek_def)
next
  case (3 x y ys)
  then obtain s ps where s: "tags = s # ps" "x = tag_json s" "y # ys = map tag_json ps" by auto
  let ?rest = "comma_separated (map tag_json ps) @ RBRACKET # r"
  let ?bs = "pre @ tag_json s @ COMMA # ?rest"
  have hd: "length pre < length ?bs" "?bs ! length pre = LBRACKET" by (simp_all add: tag_json_def nth_append)
  have c: "skip_comma_or_end ?bs (length pre + length (tag_json s)) = length (pre @ tag_json s @ [COMMA])"
    using skip_comma_at(1) [of "pre @ tag_json s" ?rest] by simp
  have IH: "parse_tags_loop ?bs (length (pre @ tag_json s @ [COMMA])) (acc @ [s]) = Some (Ok ((acc @ [s]) @ ps))"
    using 3(1) [OF s(3), of "pre @ tag_json s @ [COMMA]" "acc @ [s]"] by simp
  have json: "comma_separated (map tag_json tags) = tag_json s @ [COMMA] @ comma_separated (map tag_json ps)"
    using s by (cases ps) auto
  have "parse_tags_loop ?bs (length pre) acc = Some (Ok ((acc @ [s]) @ ps))"
    using hd parse_tag_json [of pre s "COMMA # ?rest"] c IH by (subst parse_tags_loop.simps) (simp add: skip_ws_at peek_def)
  then show ?case unfolding json by (simp add: s(1))
qed

lemma strip_none: "\<forall>w \<in> set ws. w \<noteq> [] \<longrightarrow> \<not> starts_with bs w \<Longrightarrow> strip ws bs = bs"
proof -
  assume "\<forall>w \<in> set ws. w \<noteq> [] \<longrightarrow> \<not> starts_with bs w"
  then have "find (\<lambda>w. w \<noteq> [] \<and> starts_with bs w) ws = None" by (auto simp: find_None_iff)
  then show ?thesis by (subst strip.simps) simp
qed

lemma starts_with_hd: "starts_with (c # bs) (d # w) \<Longrightarrow> c = d"
  by (simp add: starts_with_def)

lemma white_space_ends: "LBRACKET \<notin> hd ` set white_space" "RBRACKET \<notin> last ` set white_space"
  by (simp_all add: white_space_def)

lemma trim_brackets:
  assumes "bs = LBRACKET # xs" "bs = ys @ [RBRACKET]"
  shows "trim bs = bs"
proof -
  have "\<not> starts_with bs w" if ws: "w \<in> set white_space" for w
  proof -
    obtain d w' where w: "w = d # w'" using white_space_nonempty [OF ws] by (cases w) auto
    then have "d \<noteq> LBRACKET" using white_space_ends(1) ws by (force simp: image_iff)
    then show ?thesis using starts_with_hd assms(1) w by metis
  qed
  then have a: "strip white_space bs = bs" by (intro strip_none) blast
  have "\<not> starts_with (rev bs) w" if ws: "w \<in> set (map rev white_space)" for w
  proof -
    obtain v where v: "v \<in> set white_space" "w = rev v" using ws by auto
    then have "w = last v # rev (butlast v)" using white_space_nonempty [OF v(1)] by (metis append_butlast_last_id rev_eq_Cons_iff rev_rev_ident)
    moreover have "last v \<noteq> RBRACKET" using white_space_ends(2) v(1) by (force simp: image_iff)
    ultimately show ?thesis using starts_with_hd [of RBRACKET "rev ys"] assms(2) by auto
  qed
  then have "strip (map rev white_space) (rev bs) = rev bs" by (intro strip_none) blast
  then show ?thesis using a by (simp add: trim_def)
qed

lemma unescape_brackets:
  assumes "utf8_valid bs" "bs = LBRACKET # xs" "bs = ys @ [RBRACKET]"
  shows "unescape_if_needed bs = Ok None"
  using assms(1) trim_brackets [OF assms(2,3)] assms(2) by (simp add: unescape_if_needed_def starts_with_def Let_def)

lemma tags_roundtrip:
  assumes "utf8_valid (tags_to_json tags)"
  shows "tags_from_json (tags_to_json tags) = Some (Ok tags)"
proof -
  let ?bs = "tags_to_json tags"
  let ?in = "comma_separated (map tag_json tags)"
  have bs: "?bs = LBRACKET # ?in @ [RBRACKET]" "?bs = (LBRACKET # ?in) @ [RBRACKET]" by (simp_all add: tags_to_json_def)
  have u: "unescape_if_needed ?bs = Ok None" by (rule unescape_brackets [OF assms bs])
  have "expect_byte LBRACKET ?bs (skip_ws ?bs 0) = (1, Ok ())" by (simp add: bs skip_ws_at expect_byte_def)
  moreover have "parse_tags_loop ?bs 1 [] = Some (Ok tags)"
    using parse_tags_loop_json [of "[LBRACKET]" tags "[]" "[]"] by (simp add: bs(1))
  ultimately show ?thesis using u by (simp add: tags_from_json_def tags_parse_def)
qed

section \<open>The extent of the tags\<close>

definition ext_shift :: "nat \<Rightarrow> types_error + nat option \<Rightarrow> types_error + nat option" where
  "ext_shift k x = (case x of Err e \<Rightarrow> Err e | Ok n \<Rightarrow> Ok (map_option (\<lambda>m. k + m) n))"

lemma ext_shift_shift: "ext_shift a (ext_shift b x) = ext_shift (a + b) x"
  by (auto simp: ext_shift_def option.map_comp o_def add.assoc split: sum.splits)

lemma ext_shift_Suc: "(case x of Err e \<Rightarrow> Err e | Ok n \<Rightarrow> Ok (map_option Suc n)) = ext_shift 1 x"
  by (simp add: ext_shift_def split: sum.splits)

lemma ext_in_string: "tags_extent d True False (escape_string s @ QUOTE # r) = ext_shift (length (escape_string s) + 1) (tags_extent d False False r)"
proof (induction s)
  case Nil
  show ?case by (simp add: ext_shift_Suc)
next
  case (Cons c s)
  have "tags_extent d True False (escape_char c @ t) = ext_shift (length (escape_char c)) (tags_extent d True False t)" for t
    by (auto simp: escape_char_def ext_shift_Suc ext_shift_shift)
  then show ?case using Cons by (simp add: ext_shift_shift add.assoc)
qed

lemma ext_string: "tags_extent d False False (string_json s @ r) = ext_shift (length (string_json s)) (tags_extent d False False r)"
  using ext_in_string [of d s r] by (simp add: string_json_def ext_shift_Suc ext_shift_shift)

lemma ext_comma_separated:
  assumes "\<And>x r. x \<in> set xs \<Longrightarrow> tags_extent d False False (x @ r) = ext_shift (length x) (tags_extent d False False r)"
  shows "tags_extent d False False (comma_separated xs @ r) = ext_shift (length (comma_separated xs)) (tags_extent d False False r)"
  using assms
proof (induction xs rule: comma_separated.induct)
  case 1
  have "map_option (\<lambda>m. m) n = n" for n :: "nat option" by (cases n) simp_all
  then show ?case by (simp add: ext_shift_def split: sum.splits)
next
  case (2 x)
  then show ?case by simp
next
  case (3 x y ys)
  have "tags_extent d False False (x @ COMMA # comma_separated (y # ys) @ r) =
      ext_shift (length x) (ext_shift 1 (tags_extent d False False (comma_separated (y # ys) @ r)))"
    using 3(2) [of x] by (simp add: ext_shift_Suc)
  also have "tags_extent d False False (comma_separated (y # ys) @ r) =
      ext_shift (length (comma_separated (y # ys))) (tags_extent d False False r)"
    by (rule 3(1)) (use 3(2) in simp)
  finally show ?case by (simp add: ext_shift_shift add.assoc)
qed

lemma ext_tag: "tags_extent (Suc d) False False (tag_json parts @ r) = ext_shift (length (tag_json parts)) (tags_extent (Suc d) False False r)"
proof -
  have "tags_extent (Suc (Suc d)) False False (comma_separated (map string_json parts) @ RBRACKET # r) =
      ext_shift (length (comma_separated (map string_json parts))) (tags_extent (Suc (Suc d)) False False (RBRACKET # r))"
    by (rule ext_comma_separated) (auto simp: ext_string)
  then show ?thesis by (simp add: tag_json_def ext_shift_Suc ext_shift_shift)
qed

lemma ext_tags: "tags_extent 0 False False (tags_to_json tags @ r) = Ok (Some (length (tags_to_json tags)))"
proof -
  have "tags_extent (Suc 0) False False (comma_separated (map tag_json tags) @ RBRACKET # r) =
      ext_shift (length (comma_separated (map tag_json tags))) (tags_extent (Suc 0) False False (RBRACKET # r))"
    by (rule ext_comma_separated) (auto simp: ext_tag)
  then show ?thesis by (simp add: tags_to_json_def ext_shift_Suc ext_shift_shift) (simp add: ext_shift_def)
qed

section \<open>Members of an object\<close>

definition member_text :: "u8 \<times> string \<times> bytes \<Rightarrow> bytes" where
  "member_text m = (case m of (c, name, v) \<Rightarrow> c # field name @ 0x3A # v)"

definition members_text :: "(u8 \<times> string \<times> bytes) list \<Rightarrow> bytes" where
  "members_text ms = concat (map member_text ms)"

lemma members_text_simps [simp]:
  "members_text [] = []" "members_text (m # ms) = member_text m @ members_text ms"
  "members_text (ms @ ms') = members_text ms @ members_text ms'"
  by (simp_all add: members_text_def)

definition member_lacks :: "string \<Rightarrow> u8 \<times> string \<times> bytes \<Rightarrow> bool" where
  "member_lacks name m = (case m of (c, n, v) \<Rightarrow>
     (c = LBRACE \<or> c = COMMA) \<and> find_str (field name) (field n) = None \<and> find_str (field name) v = None)"

lemma find_members_None:
  assumes "plain_name name"
  shows "\<forall>m \<in> set ms. member_lacks name m \<Longrightarrow> find_str (field name) (members_text ms) = None"
proof (induction ms rule: rev_induct)
  case (snoc m ms)
  obtain c n v where m: "m = (c, n, v)" by (cases m)
  have c: "c \<notin> set (field name)" "0x3A \<notin> set (field name)"
    using snoc.prems m field_lacks [OF assms, of c] field_lacks [OF assms, of "0x3A"] by (auto simp: member_lacks_def)
  have "find_str (field name) (field n @ 0x3A # v) = None"
    using find_str_None_append c(2) snoc.prems m by (simp add: member_lacks_def)
  then show ?case
    using find_str_None_append [of "field name" "members_text ms" "field n @ 0x3A # v" c] snoc c(1) m
    by (simp add: member_text_def)
qed simp

lemma find_member:
  assumes "plain_name name" "\<forall>m \<in> set ms. member_lacks name m" "c = LBRACE \<or> c = COMMA"
  shows "find_str (field name) (members_text ms @ member_text (c, name, v) @ r) = Some (Suc (length (members_text ms)))"
proof -
  have "c \<notin> set (field name)" using assms(3) field_lacks [OF assms(1), of c] by auto
  then show ?thesis
    using find_str_at [OF find_members_None [OF assms(1,2)], of c "0x3A # v @ r"] by (simp add: member_text_def)
qed

lemma slice_from_at:
  assumes "bs = a @ c # r" "i = length a" "\<not> utf8_cont c"
  shows "slice_from bs i = Some (c # r)"
  using assms by (simp add: slice_from_def slice_str_def is_char_boundary_def subslice_def nth_append del: utf8_cont.simps)

lemma member_tail:
  "slice_from (members_text ms @ member_text (c, name, v) @ r) (Suc (length (members_text ms)) + length (field name)) =
     Some (0x3A # v @ r)"
  by (rule slice_from_at [where a = "members_text ms @ c # field name"]) (simp_all add: member_text_def)

lemma find_byte_at: "c \<notin> set a \<Longrightarrow> find_byte c (a @ c # r) = Some (length a)"
  unfolding find_byte_def by (subst position_append) auto

lemma quoted_member:
  assumes "plain_name name" "\<forall>m \<in> set ms. member_lacks name m" "c = LBRACE \<or> c = COMMA"
    "QUOTE \<notin> set x" "utf8_valid x"
  shows "quoted_field name (members_text ms @ member_text (c, name, QUOTE # x @ [QUOTE]) @ r) = Some (Ok (Some x))"
proof -
  let ?tail = "0x3A # QUOTE # x @ QUOTE # r"
  have q1: "find_byte QUOTE ?tail = Some 1" using find_byte_at [of QUOTE "[0x3A]" "x @ QUOTE # r"] by simp
  have rest: "slice_from ?tail 2 = Some (x @ QUOTE # r)"
  proof (cases x)
    case Nil
    then show ?thesis using slice_from_at [of ?tail "[0x3A, QUOTE]" QUOTE r 2] by simp
  next
    case (Cons d y)
    then have "\<not> utf8_cont d" using utf8_valid_hd assms(5) by metis
    then show ?thesis using slice_from_at [of ?tail "[0x3A, QUOTE]" d "y @ QUOTE # r" 2] Cons by (simp del: utf8_cont.simps)
  qed
  have q2: "find_byte QUOTE (x @ QUOTE # r) = Some (length x)" by (rule find_byte_at [OF assms(4)])
  have "is_char_boundary ?tail 2" using rest by (auto simp: slice_from_def slice_str_def split: if_splits)
  moreover have "is_char_boundary ?tail (2 + length x)" by (rule boundary_at_ascii) (simp_all add: nth_append)
  ultimately have "slice_str ?tail 2 (2 + length x) = Some x" by (simp add: slice_str_def subslice_def)
  then show ?thesis
    using find_member [OF assms(1-3), of "QUOTE # x @ [QUOTE]" r] member_tail [of ms c name "QUOTE # x @ [QUOTE]" r] q1 rest q2
    by (simp add: quoted_field_def numeral_2_eq_2)
qed

lemma digit_byte:
  assumes "m < 10"
  shows "unat (of_nat (0x30 + m) :: u8) = 0x30 + m" "is_ascii_digit (of_nat (0x30 + m))"
proof -
  have "unat (of_nat k :: u8) = k" if "k < 256" for k using that by (simp add: unat_of_nat take_bit_nat_eq_self)
  from this [of "0x30 + m"] show u: "unat (of_nat (0x30 + m) :: u8) = 0x30 + m" using assms by linarith
  show "is_ascii_digit (of_nat (0x30 + m))"
    unfolding is_ascii_digit_def word_le_nat_alt u using assms by simp
qed

lemma dec_bytes_digits: "\<forall>c \<in> set (dec_bytes n). is_ascii_digit c"
proof (induction n rule: dec_bytes.induct)
  case (1 n)
  show ?case
  proof (cases "n < 10")
    case True
    then show ?thesis using digit_byte(2) [of n] by (subst dec_bytes.simps) simp
  next
    case False
    then show ?thesis using 1 digit_byte(2) [of "n mod 10"] by (subst dec_bytes.simps) auto
  qed
qed

lemma dec_value_dec_bytes: "dec_value (dec_bytes n) = n"
proof (induction n rule: dec_bytes.induct)
  case (1 n)
  show ?case
  proof (cases "n < 10")
    case True
    then have "dec_value [of_nat (0x30 + n)] = n" unfolding dec_value_def foldl.simps digit_byte(1) [OF True] by simp
    then show ?thesis using True by (subst dec_bytes.simps) simp
  next
    case False
    have "dec_value (dec_bytes (n div 10) @ [of_nat (0x30 + n mod 10)]) = 10 * dec_value (dec_bytes (n div 10)) + n mod 10"
      unfolding dec_value_def foldl_append foldl.simps by (subst digit_byte(1)) simp_all
    then show ?thesis using 1 False by (subst dec_bytes.simps) simp
  qed
qed

lemma dec_bytes_nonempty [simp]: "dec_bytes n \<noteq> []"
  by (subst dec_bytes.simps) simp

lemma skip_while_run:
  assumes "\<forall>c \<in> set ds. P c" "\<not> P d"
  shows "skip_while P (pre @ ds @ d # r) (length pre) = length pre + length ds"
  using assms(1)
proof (induction ds arbitrary: pre)
  case Nil
  then show ?case using assms(2) by (subst skip_while.simps) (simp add: nth_append)
next
  case (Cons c ds)
  then show ?case using Cons.IH [of "pre @ [c]"] by (subst skip_while.simps) (simp add: nth_append)
qed

lemma number_member:
  assumes "plain_name name" "\<forall>m \<in> set ms. member_lacks name m" "c = LBRACE \<or> c = COMMA"
    "n \<le> limit" "\<not> is_ascii_digit d" "d < 0x80"
  shows "number_field name limit (members_text ms @ member_text (c, name, dec_bytes n) @ d # r) = Some (Ok n)"
proof -
  let ?tail = "0x3A # dec_bytes n @ d # r"
  obtain b ds where b: "dec_bytes n = b # ds" by (cases "dec_bytes n") simp_all
  have dig: "is_ascii_digit b" using dec_bytes_digits [of n] b by simp
  then have nb: "\<not> number_sep b" by (auto simp: number_sep_def is_ascii_digit_def)
  have s: "skip_while number_sep ?tail 0 = 1"
    using skip_while_run [of "[0x3A]" number_sep b "[]" "ds @ d # r"] nb b by (simp add: number_sep_def)
  have e: "skip_while is_ascii_digit ?tail 1 = 1 + length (dec_bytes n)"
    using skip_while_run [of "dec_bytes n" is_ascii_digit d "[0x3A]" r] dec_bytes_digits assms(5) by simp
  have "b < 0x80" using dig le_less_trans [of b "0x39" "0x80"] by (simp add: is_ascii_digit_def)
  then have "is_char_boundary ?tail 1" by (intro boundary_at_ascii) (simp_all add: b)
  moreover have "is_char_boundary ?tail (1 + length (dec_bytes n))"
    by (rule boundary_at_ascii) (simp_all add: nth_append assms(6))
  ultimately have "slice_str ?tail 1 (1 + length (dec_bytes n)) = Some (dec_bytes n)"
    by (simp add: slice_str_def subslice_def)
  then show ?thesis
    using find_member [OF assms(1-3), of "dec_bytes n" "d # r"] member_tail [of ms c name "dec_bytes n" "d # r"] s e assms(4)
    by (simp add: number_field_def Let_def parse_unsigned_def dec_value_dec_bytes)
qed

lemma content_member:
  assumes "\<forall>m \<in> set ms. member_lacks ''content'' m" "c = LBRACE \<or> c = COMMA" "utf8_valid s" "plain_name ''content''"
  shows "content_field (members_text ms @ member_text (c, ''content'', string_json s) @ r) = Some (Ok s)"
proof -
  let ?tail = "0x3A # string_json s @ r"
  have q: "find_byte QUOTE ?tail = Some 1"
    using find_byte_at [of QUOTE "[0x3A]" "escape_string s @ [QUOTE] @ r"] by (simp add: string_json_def)
  have "content_scan False (drop 2 ?tail) = s" using content_scan_escape [of s r] by (simp add: string_json_def numeral_2_eq_2)
  then show ?thesis
    using find_member [OF assms(4,1,2), of "string_json s" r] member_tail [of ms c "''content''" "string_json s" r] q assms(3)
    by (simp add: content_field_def Let_def numeral_2_eq_2)
qed

lemma tags_member:
  assumes "\<forall>m \<in> set ms. member_lacks ''tags'' m" "c = LBRACE \<or> c = COMMA" "plain_name ''tags''"
    "utf8_valid (tags_to_json tags)" "d < 0x80"
  shows "tags_field (members_text ms @ member_text (c, ''tags'', tags_to_json tags) @ d # r) = Some (Ok tags)"
proof -
  let ?T = "tags_to_json tags"
  let ?json = "members_text ms @ member_text (c, ''tags'', ?T) @ d # r"
  let ?pre = "members_text ms @ c # field ''tags'' @ [0x3A]"
  have json: "?json = ?pre @ ?T @ d # r" by (simp add: member_text_def)
  obtain xs where T: "?T = LBRACKET # xs" by (simp add: tags_to_json_def)
  have q: "find_byte LBRACKET (0x3A # ?T @ d # r) = Some 1"
    using find_byte_at [of LBRACKET "[0x3A]" "xs @ d # r"] T by simp
  have start: "Suc (length (members_text ms)) + length (field ''tags'') + 1 = length ?pre" by simp
  have "is_char_boundary ?json (length ?pre)" unfolding json by (rule boundary_at_ascii) (simp_all add: nth_append T)
  moreover have "is_char_boundary ?json (length ?pre + length ?T)"
    unfolding json by (rule boundary_at_ascii) (simp_all add: nth_append assms(5))
  ultimately have sl: "slice_str ?json (length ?pre) (length ?pre + length ?T) = Some ?T"
    unfolding json by (simp add: slice_str_def subslice_def)
  have ext: "tags_extent 0 False False (drop (length ?pre) ?json) = Ok (Some (length ?T))"
    unfolding json using ext_tags [of tags "d # r"] by simp
  show ?thesis
    using find_member [OF assms(3,1,2), of ?T "d # r"] member_tail [of ms c "''tags''" ?T "d # r"] q sl ext
      tags_roundtrip [OF assms(4)] start
    unfolding tags_field_def Let_def by simp
qed

section \<open>Reading never panics\<close>

lemma find_str_SomeD:
  "find_str pat t = Some i \<Longrightarrow> pat \<noteq> [] \<Longrightarrow> i + length pat \<le> length t \<and> take (length pat) (drop i t) = pat"
proof (induction t arbitrary: i)
  case (Cons c t)
  show ?case
  proof (cases "take (length pat) (c # t) = pat")
    case True
    then have "i = 0" using Cons.prems(1) by (simp add: find_str.simps)
    moreover have "length pat \<le> length (c # t)" using arg_cong [OF True, of length] by simp
    ultimately show ?thesis using True by simp
  next
    case False
    then obtain j where "find_str pat t = Some j" "i = Suc j" using Cons.prems(1) by (auto simp: find_str.simps)
    then show ?thesis using Cons.IH [of j] Cons.prems(2) by simp
  qed
qed simp

lemma slice_from_after:
  assumes "utf8_valid t" "i < length t" "t ! i < 0x80"
  shows "slice_from t (Suc i) = Some (drop (Suc i) t)" "utf8_valid (drop (Suc i) t)"
  using boundary_after_ascii [OF assms] utf8_valid_after_ascii [OF assms] assms(2)
  by (simp_all add: slice_from_def slice_str_def subslice_def is_char_boundary_def)

lemma field_tail:
  assumes "utf8_valid t" "find_str (field name) t = Some i"
  shows "slice_from t (i + length (field name)) = Some (drop (i + length (field name)) t)"
    "utf8_valid (drop (i + length (field name)) t)" "i + length (field name) \<le> length t"
proof -
  let ?n = "length (ascii name) + 1"
  have f: "i + length (field name) \<le> length t" "take (length (field name)) (drop i t) = field name"
    using find_str_SomeD [OF assms(2)] by simp_all
  then have "t ! (i + ?n) = field name ! ?n"
    by (metis add.commute field_def length_Cons length_append list.size(3) nth_drop nth_take add_Suc_right lessI One_nat_def add_leD1 append_Cons append_Nil add.right_neutral)
  then have "t ! (i + ?n) < 0x80" by (simp add: field_def nth_append)
  moreover have "length (field name) = Suc ?n" by (simp add: field_def)
  ultimately show "slice_from t (i + length (field name)) = Some (drop (i + length (field name)) t)"
    "utf8_valid (drop (i + length (field name)) t)" "i + length (field name) \<le> length t"
    using slice_from_after [OF assms(1), of "i + ?n"] f(1) by simp_all
qed

lemma find_byte_SomeD: "find_byte c t = Some i \<Longrightarrow> i < length t \<and> t ! i = c"
  using position_SomeD unfolding find_byte_def by blast

lemma quoted_field_total:
  assumes "utf8_valid json"
  shows "quoted_field name json \<noteq> None"
proof (cases "find_str (field name) json")
  case (Some i)
  define tail where "tail = drop (i + length (field name)) json"
  have tl: "slice_from json (i + length (field name)) = Some tail" "utf8_valid tail"
    using field_tail [OF assms Some] by (simp_all add: tail_def)
  show ?thesis
  proof (cases "find_byte QUOTE tail")
    case q1: (Some q)
    have q: "q < length tail" "tail ! q = QUOTE" using find_byte_SomeD [OF q1] by auto
    have r: "slice_from tail (Suc q) = Some (drop (Suc q) tail)" "is_char_boundary tail (Suc q)"
      using slice_from_after [OF tl(2) q(1)] boundary_after_ascii [OF tl(2) q(1)] q(2) by simp_all
    show ?thesis
    proof (cases "find_byte QUOTE (drop (Suc q) tail)")
      case q2: (Some k)
      then have "k < length (drop (Suc q) tail)" "drop (Suc q) tail ! k = QUOTE" using find_byte_SomeD [OF q2] by simp_all
      then have "is_char_boundary tail (Suc q + k)" by (intro boundary_at_ascii) simp_all
      then have "slice_str tail (Suc q) (Suc (q + k)) \<noteq> None" using r(2) by (simp add: slice_str_def)
      then show ?thesis using Some tl(1) q1 r(1) q2 by (simp add: quoted_field_def)
    qed (use Some tl(1) q1 r(1) in \<open>simp add: quoted_field_def\<close>)
  qed (use Some tl(1) in \<open>simp add: quoted_field_def\<close>)
qed (simp add: quoted_field_def)

lemma skip_while_bound:
  "pos \<le> length bs \<Longrightarrow> skip_while P bs pos \<le> length bs \<and> pos \<le> skip_while P bs pos
     \<and> (pos < skip_while P bs pos \<longrightarrow> P (bs ! (skip_while P bs pos - 1)))"
proof (induction P bs pos rule: skip_while.induct)
  case (1 P bs pos)
  show ?case
  proof (cases "pos < length bs \<and> P (bs ! pos)")
    case True
    then have eq: "skip_while P bs pos = skip_while P bs (pos + 1)" by (subst skip_while.simps) simp
    have IH: "skip_while P bs (pos + 1) \<le> length bs" "pos + 1 \<le> skip_while P bs (pos + 1)"
      "pos + 1 < skip_while P bs (pos + 1) \<longrightarrow> P (bs ! (skip_while P bs (pos + 1) - 1))"
      using 1 True by auto
    show ?thesis
    proof (cases "skip_while P bs (pos + 1) = pos + 1")
      case t: True
      then show ?thesis unfolding eq using True by simp
    next
      case False
      then show ?thesis unfolding eq using IH by simp
    qed
  next
    case False
    then have "skip_while P bs pos = pos" by (subst skip_while.simps) auto
    then show ?thesis using 1 by simp
  qed
qed

lemma number_field_total:
  assumes "utf8_valid json"
  shows "number_field name limit json \<noteq> None"
proof (cases "find_str (field name) json")
  case (Some i)
  define tail where "tail = drop (i + length (field name)) json"
  have tl: "slice_from json (i + length (field name)) = Some tail" "utf8_valid tail"
    using field_tail [OF assms Some] by (simp_all add: tail_def)
  define s where "s = skip_while number_sep tail 0"
  define j where "j = skip_while is_ascii_digit tail s"
  have s: "s \<le> length tail" "0 < s \<longrightarrow> number_sep (tail ! (s - 1))"
    using skip_while_bound [of 0 tail number_sep] by (simp_all add: s_def)
  have j: "j \<le> length tail" "s \<le> j" "s < j \<longrightarrow> is_ascii_digit (tail ! (j - 1))"
    using skip_while_bound [OF s(1), of is_ascii_digit] by (simp_all add: j_def)
  have bnd: "is_char_boundary tail k" if "k \<le> length tail" "0 < k \<longrightarrow> tail ! (k - 1) < 0x80" for k
    using that boundary_after_ascii [OF tl(2), of "k - 1"] by (cases k) (simp_all add: is_char_boundary_def)
  have sep: "number_sep c \<Longrightarrow> c < 0x80" and dig: "is_ascii_digit c \<Longrightarrow> c < 0x80" for c
    using le_less_trans [of c "0x39" "0x80"] by (auto simp: number_sep_def is_ascii_digit_def)
  have "is_char_boundary tail s" using s sep by (intro bnd) auto
  moreover have "is_char_boundary tail j"
  proof (cases "s < j")
    case True
    then show ?thesis using j dig by (intro bnd) auto
  next
    case False
    then show ?thesis using j(2) \<open>is_char_boundary tail s\<close> by simp
  qed
  ultimately have "slice_str tail s j \<noteq> None" using j(2) by (simp add: slice_str_def)
  then show ?thesis using Some tl(1) by (auto simp: number_field_def Let_def s_def j_def split: option.splits)
qed (simp add: number_field_def)

lemma content_field_total: "utf8_valid json \<Longrightarrow> content_field json \<noteq> None"
  using field_tail(1) by (auto simp: content_field_def Let_def split: option.splits)

lemma skip_ws_inside:
  "bs \<noteq> [] \<Longrightarrow> \<not> is_ascii_whitespace (last bs) \<Longrightarrow> pos < length bs \<Longrightarrow> skip_ws bs pos < length bs"
proof (induction bs pos rule: skip_ws.induct)
  case (1 bs pos)
  show ?case
  proof (cases "is_ascii_whitespace (bs ! pos)")
    case True
    then have "pos \<noteq> length bs - 1" using 1(2,3) last_conv_nth [of bs] by auto
    then show ?thesis using 1 True by (subst skip_ws.simps) simp
  next
    case False
    then show ?thesis using 1(4) by (simp add: skip_ws_at)
  qed
qed

lemma parse_tag_loop_total:
  "bs \<noteq> [] \<Longrightarrow> \<not> is_ascii_whitespace (last bs) \<Longrightarrow> parse_tag_loop bs pos tag \<noteq> None"
proof (induction bs pos tag rule: parse_tag_loop.induct)
  case (1 bs pos tag)
  show ?case
  proof (cases "pos < length bs")
    case True
    let ?p = "skip_ws bs pos"
    have p: "?p < length bs" using skip_ws_inside 1(2,3) True by blast
    obtain q w where w: "parse_string_unescaped bs ?p = (q, w)" by (cases "parse_string_unescaped bs ?p")
    show ?thesis
    proof (cases "bs ! ?p = RBRACKET \<or> isl w")
      case False
      then obtain v where v: "w = Ok v" by (cases w) auto
      then have "parse_tag_loop bs (skip_comma_or_end bs q) (tag @ [v]) \<noteq> None"
        using 1 True p w False by (simp add: peek_def)
      then show ?thesis using True p w v False by (subst parse_tag_loop.simps) (simp add: peek_def)
    next
      case t: True
      then show ?thesis using True p w by (subst parse_tag_loop.simps) (auto simp: peek_def Let_def split: sum.splits)
    qed
  qed (subst parse_tag_loop.simps, simp)
qed

lemma parse_tags_loop_total:
  "bs \<noteq> [] \<Longrightarrow> \<not> is_ascii_whitespace (last bs) \<Longrightarrow> parse_tags_loop bs pos tags \<noteq> None"
proof (induction bs pos tags rule: parse_tags_loop.induct)
  case (1 bs pos tags)
  show ?case
  proof (cases "pos < length bs")
    case True
    let ?p = "skip_ws bs pos"
    have p: "?p < length bs" using skip_ws_inside 1(2,3) True by blast
    have "parse_tag bs ?p \<noteq> None"
      using parse_tag_loop_total [OF 1(2,3)] by (auto simp: parse_tag_def expect_byte_def)
    then obtain q w where w: "parse_tag bs ?p = Some (q, w)" by auto
    show ?thesis
    proof (cases "bs ! ?p = RBRACKET \<or> isl w")
      case False
      then obtain v where v: "w = Ok v" by (cases w) auto
      then have "parse_tags_loop bs (skip_comma_or_end bs q) (tags @ [v]) \<noteq> None"
        using 1 True p w False by (simp add: peek_def)
      then show ?thesis using True p w v False by (subst parse_tags_loop.simps) (simp add: peek_def)
    next
      case t: True
      then show ?thesis using True p w by (subst parse_tags_loop.simps) (auto simp: peek_def Let_def split: sum.splits)
    qed
  qed (subst parse_tags_loop.simps, simp)
qed

lemma tags_extent_ends:
  "tags_extent d ins esc bs = Ok (Some n) \<Longrightarrow> 0 < n \<and> n \<le> length bs \<and> bs ! (n - 1) = RBRACKET"
proof (induction d ins esc bs arbitrary: n rule: tags_extent.induct)
  case (2 d ins esc c cs)
  show ?case
  proof (cases "n = 1 \<and> c = RBRACKET")
    case False
    then obtain d' i' e' m where "tags_extent d' i' e' cs = Ok (Some m)" "n = Suc m"
      "0 < m \<and> m \<le> length cs \<and> cs ! (m - 1) = RBRACKET"
      using 2 by (simp add: Let_def split: if_splits sum.splits) (metis)+
    then show ?thesis by (cases m) auto
  qed simp
qed simp

lemma tags_field_total:
  assumes "utf8_valid json"
  shows "tags_field json \<noteq> None"
proof (cases "find_str (field ''tags'') json")
  case (Some i)
  let ?k = "i + length (field ''tags'')"
  have tl: "slice_from json ?k = Some (drop ?k json)" "utf8_valid (drop ?k json)" using field_tail [OF assms Some] by auto
  show ?thesis
  proof (cases "find_byte LBRACKET (drop ?k json)")
    case b: (Some s)
    let ?s = "?k + s"
    have s: "?s < length json" "json ! ?s = LBRACKET" using find_byte_SomeD [OF b] by auto
    show ?thesis
    proof (cases "\<exists>n. tags_extent 0 False False (drop ?s json) = Ok (Some n)")
      case True
      then obtain n where n: "tags_extent 0 False False (drop ?s json) = Ok (Some n)" by blast
      have e: "0 < n" "?s + n \<le> length json" "json ! (?s + n - 1) = RBRACKET"
        using tags_extent_ends [OF n] s(1) by (auto simp: add.assoc)
      let ?str = "subslice json ?s (?s + n)"
      have "is_char_boundary json ?s" using s by (intro boundary_at_ascii) simp_all
      moreover have "is_char_boundary json (?s + n)"
        using boundary_after_ascii [OF assms, of "?s + n - 1"] e by simp
      ultimately have sl: "slice_str json ?s (?s + n) = Some ?str" by (simp add: slice_str_def)
      have len: "length ?str = n" using e(2) by simp
      have last: "?str = butlast ?str @ [RBRACKET]"
      proof -
        have "last ?str = RBRACKET" using len e last_conv_nth [of ?str] by (auto simp: subslice_def)
        moreover have "?str \<noteq> []" using len e(1) by auto
        ultimately show ?thesis by (metis append_butlast_last_id)
      qed
      have hd: "?str = LBRACKET # tl ?str"
        using len e(1) s(2) by (cases ?str) (auto simp: subslice_def hd_drop_conv_nth dest!: arg_cong [of _ _ hd])
      have "tags_parse ?str \<noteq> None"
      proof (cases "utf8_valid ?str")
        case True
        have "unescape_if_needed ?str = Ok None" by (rule unescape_brackets [OF True hd last])
        moreover have "parse_tags_loop ?str p [] \<noteq> None" for p
          by (rule parse_tags_loop_total) (use last in \<open>metis append_is_Nil_conv not_Cons_self2 last_snoc not_ws(3)\<close>)+
        ultimately show ?thesis by (auto simp: tags_parse_def expect_byte_def Let_def)
      next
        case False
        then show ?thesis by (simp add: tags_parse_def unescape_if_needed_def)
      qed
      then show ?thesis using Some tl(1) b n sl by (simp add: tags_field_def Let_def tags_from_json_def)
    next
      case False
      then show ?thesis using Some tl(1) b by (auto simp: tags_field_def Let_def split: sum.splits option.splits)
    qed
  qed (use Some tl(1) in \<open>simp add: tags_field_def\<close>)
qed (simp add: tags_field_def)

lemma then_field_total: "x \<noteq> None \<Longrightarrow> (\<And>v. f v \<noteq> None) \<Longrightarrow> then_field x f \<noteq> None"
  by (auto simp: then_field_def split: sum.splits)

section \<open>The members of an event\<close>

text \<open>What the crate \<open>hex\<close> documents: lower-case digits, and decoding inverts encoding.\<close>

definition hex_ok :: "hex_codec \<Rightarrow> bool" where
  "hex_ok h = (\<forall>b. hex_decode h (hex_encode h b) = Some b
     \<and> (\<forall>c \<in> set (hex_encode h b). is_ascii_digit c \<or> (0x61 \<le> c \<and> c \<le> 0x66)))"

lemma plain_names:
  "plain_name ''id''" "plain_name ''pubkey''" "plain_name ''created_at''" "plain_name ''kind''"
  "plain_name ''tags''" "plain_name ''content''" "plain_name ''sig''"
  by (simp_all add: plain_name_def ascii_def)

lemma ascii_inject: "ascii a = ascii b \<longleftrightarrow> a = b"
proof -
  have "inj (\<lambda>c. of_nat (of_char c) :: u8)"
  proof (rule injI)
    fix c d :: char
    assume "(of_nat (of_char c) :: u8) = of_nat (of_char d)"
    then have "unat (of_nat (of_char c) :: u8) = unat (of_nat (of_char d) :: u8)" by simp
    then have "(of_char c :: nat) = of_char d" by (simp add: unat_of_nat take_bit_nat_eq_self)
    then show "c = d" by simp
  qed
  then show ?thesis by (simp add: ascii_def inj_map_eq_map)
qed

lemma field_lacks_field:
  assumes "plain_name name" "plain_name n" "n \<noteq> name"
  shows "find_str (field name) (field n) = None"
  unfolding field_def append_Cons append_Nil
  by (rule find_quoted_None) (use assms in \<open>auto simp: plain_name_def ascii_inject\<close>)

lemma hex_bytes:
  assumes "hex_ok h"
  shows "QUOTE \<notin> set (hex_encode h b)" "utf8_valid (hex_encode h b)"
    and "c \<in> set (ascii name) \<Longrightarrow> \<not> is_ascii_digit c \<Longrightarrow> \<not> (0x61 \<le> c \<and> c \<le> 0x66) \<Longrightarrow> hex_encode h b \<noteq> ascii name"
proof -
  have d: "is_ascii_digit c \<or> (0x61 \<le> c \<and> c \<le> 0x66)" if "c \<in> set (hex_encode h b)" for c
    using assms that by (auto simp: hex_ok_def)
  have "\<not> is_ascii_digit QUOTE" "\<not> (0x61 \<le> QUOTE)" by (simp_all add: is_ascii_digit_def)
  then show "QUOTE \<notin> set (hex_encode h b)" using d by blast
  have "c < 0x80" if "c \<in> set (hex_encode h b)" for c
    using d [OF that] le_less_trans [of c "0x39" "0x80"] le_less_trans [of c "0x66" "0x80"] by (auto simp: is_ascii_digit_def)
  then show "utf8_valid (hex_encode h b)" by (intro utf8_valid_ascii) blast
  show "c \<in> set (ascii name) \<Longrightarrow> \<not> is_ascii_digit c \<Longrightarrow> \<not> (0x61 \<le> c \<and> c \<le> 0x66) \<Longrightarrow> hex_encode h b \<noteq> ascii name"
    using d by metis
qed

lemma hex_lacks:
  assumes "hex_ok h" "name \<in> {''pubkey'', ''created_at'', ''kind'', ''tags'', ''content'', ''sig''}"
  shows "find_str (field name) (QUOTE # hex_encode h b @ [QUOTE]) = None"
proof -
  have "plain_name name" using assms(2) plain_names by auto
  then have q: "QUOTE \<notin> set (ascii name)" by (auto simp: plain_name_def)
  have "\<exists>c \<in> set (ascii name). \<not> is_ascii_digit c \<and> \<not> (0x61 \<le> c \<and> c \<le> 0x66)"
    using assms(2) by (auto simp: ascii_def is_ascii_digit_def)
  then have "hex_encode h b \<noteq> ascii name" using hex_bytes(3) [OF assms(1)] by blast
  then show ?thesis
    using find_quoted_None [OF hex_bytes(1) [OF assms(1)] q] by (simp add: field_def)
qed

lemma dec_lacks: "find_str (field name) (dec_bytes n) = None"
proof (rule find_field_no_quote)
  show "QUOTE \<notin> set (dec_bytes n)" using dec_bytes_digits [of n] by (auto simp: is_ascii_digit_def)
qed

lemma dec_separators [simp]: "\<not> is_ascii_digit COMMA" "\<not> is_ascii_digit RBRACE"
  by (simp_all add: is_ascii_digit_def)

definition event_ok :: "event \<Rightarrow> bool" where
  "event_ok e = (length (ev_id e) = 32 \<and> length (ev_pubkey e) = 32 \<and> utf8_valid (ev_content e) \<and> utf8_valid (ev_sig e)
     \<and> QUOTE \<notin> set (ev_sig e) \<and> (\<forall>tag \<in> set (ev_tags e). \<forall>s \<in> set tag. utf8_valid s))"

definition head_members :: "hex_codec \<Rightarrow> event \<Rightarrow> (u8 \<times> string \<times> bytes) list" where
  "head_members h e =
     [(LBRACE, ''id'', QUOTE # hex_encode h (ev_id e) @ [QUOTE]), (COMMA, ''pubkey'', QUOTE # hex_encode h (ev_pubkey e) @ [QUOTE]),
      (COMMA, ''created_at'', dec_bytes (unat (ev_created_at e))), (COMMA, ''kind'', dec_bytes (unat (ev_kind e)))]"

definition tags_json_member :: "event \<Rightarrow> u8 \<times> string \<times> bytes" where
  "tags_json_member e = (COMMA, ''tags'', tags_to_json (ev_tags e))"

definition content_json_member :: "event \<Rightarrow> u8 \<times> string \<times> bytes" where
  "content_json_member e = (COMMA, ''content'', string_json (ev_content e))"

lemmas member_defs = head_members_def tags_json_member_def content_json_member_def

lemma event_json_members:
  "event_to_json h e = members_text (head_members h e @ [tags_json_member e, content_json_member e,
     (COMMA, ''sig'', QUOTE # ev_sig e @ [QUOTE])]) @ [RBRACE]"
  by (simp add: event_to_json_def member_defs member_text_def) (simp add: ascii_def)

lemma head_lacks:
  assumes "hex_ok h" "name \<in> {''tags'', ''content'', ''sig''}"
  shows "\<forall>m \<in> set (head_members h e). member_lacks name m"
proof -
  have "plain_name name" using assms(2) plain_names by auto
  then have "find_str (field name) (field n) = None" if "n \<in> {''id'', ''pubkey'', ''created_at'', ''kind''}" for n
    using that assms(2) plain_names by (intro field_lacks_field) auto
  then show ?thesis
    using hex_lacks [OF assms(1), of name] assms(2) dec_lacks by (auto simp: head_members_def member_lacks_def)
qed

lemma head_fields:
  assumes "hex_ok h" "length (ev_id e) = 32" "length (ev_pubkey e) = 32" "d < 0x80" "\<not> is_ascii_digit d"
  defines "json \<equiv> \<lambda>r. members_text (head_members h e) @ d # r"
  shows "hex_field ''id'' (event_id_from_hex h) (json r) = Some (Ok (ev_id e))"
    "hex_field ''pubkey'' (public_key_from_hex h) (json r) = Some (Ok (ev_pubkey e))"
    "number_field ''created_at'' (2 ^ 64 - 1) (json r) = Some (Ok (unat (ev_created_at e)))"
    "number_field ''kind'' (2 ^ 32 - 1) (json r) = Some (Ok (unat (ev_kind e)))"
proof -
  let ?id = "(LBRACE, ''id'', QUOTE # hex_encode h (ev_id e) @ [QUOTE])"
  let ?pk = "(COMMA, ''pubkey'', QUOTE # hex_encode h (ev_pubkey e) @ [QUOTE])"
  let ?ca = "(COMMA, ''created_at'', dec_bytes (unat (ev_created_at e)))"
  let ?kd = "(COMMA, ''kind'', dec_bytes (unat (ev_kind e)))"
  have hx: "hex_decode h (hex_encode h b) = Some b" for b using assms(1) by (simp add: hex_ok_def)
  have json: "json r = members_text [?id, ?pk, ?ca, ?kd] @ d # r" by (simp add: json_def head_members_def)
  have lid: "member_lacks n ?id" if "n \<in> {''pubkey'', ''created_at'', ''kind''}" for n
    using hex_lacks [OF assms(1), of n] that plain_names field_lacks_field [of n "''id''"] by (auto simp: member_lacks_def)
  have lpk: "member_lacks n ?pk" if "n \<in> {''created_at'', ''kind''}" for n
    using hex_lacks [OF assms(1), of n] that plain_names field_lacks_field [of n "''pubkey''"] by (auto simp: member_lacks_def)
  have lca: "member_lacks ''kind'' ?ca"
    using plain_names field_lacks_field [of "''kind''" "''created_at''"] dec_lacks by (simp add: member_lacks_def)
  have "quoted_field ''id'' (json r) = Some (Ok (Some (hex_encode h (ev_id e))))"
    using quoted_member [OF plain_names(1), of "[]" LBRACE "hex_encode h (ev_id e)" "members_text [?pk, ?ca, ?kd] @ d # r"]
      hex_bytes [OF assms(1)] by (simp add: json)
  then show "hex_field ''id'' (event_id_from_hex h) (json r) = Some (Ok (ev_id e))"
    using hx assms(2) by (simp add: hex_field_def event_id_from_hex_def key_from_hex_def)
  have "quoted_field ''pubkey'' (json r) = Some (Ok (Some (hex_encode h (ev_pubkey e))))"
    using quoted_member [OF plain_names(2), of "[?id]" COMMA "hex_encode h (ev_pubkey e)" "members_text [?ca, ?kd] @ d # r"]
      hex_bytes [OF assms(1)] lid by (simp add: json)
  then show "hex_field ''pubkey'' (public_key_from_hex h) (json r) = Some (Ok (ev_pubkey e))"
    using hx assms(3) by (simp add: hex_field_def public_key_from_hex_def key_from_hex_def)
  have "unat (ev_created_at e) \<le> 2 ^ 64 - 1" using unsigned_less [of "ev_created_at e", where 'a = nat] by simp
  moreover obtain r' where "members_text [?kd] @ d # r = COMMA # r'" by (simp add: member_text_def)
  ultimately show "number_field ''created_at'' (2 ^ 64 - 1) (json r) = Some (Ok (unat (ev_created_at e)))"
    using number_member [OF plain_names(3), of "[?id, ?pk]" COMMA "unat (ev_created_at e)" "2 ^ 64 - 1" COMMA r'] lid lpk
    by (simp add: json)
  have "unat (ev_kind e) \<le> 2 ^ 32 - 1" using unsigned_less [of "ev_kind e", where 'a = nat] by simp
  then show "number_field ''kind'' (2 ^ 32 - 1) (json r) = Some (Ok (unat (ev_kind e)))"
    using number_member [OF plain_names(4), of "[?id, ?pk, ?ca]" COMMA "unat (ev_kind e)" "2 ^ 32 - 1" d r] lid lpk lca assms(4,5)
    by (simp add: json)
qed

lemma tags_lack:
  assumes "\<forall>tag \<in> set (ev_tags e). \<forall>s \<in> set tag. \<not> ends_field name s" "name \<in> {''content'', ''sig''}"
  shows "member_lacks name (tags_json_member e)"
proof -
  have p: "plain_name name" "name \<noteq> ''tags''" using assms(2) plain_names by auto
  then have "find_str (field name) (field ''tags'') = None" using plain_names by (intro field_lacks_field) auto
  then show ?thesis using find_field_tags [OF p(1) assms(1)] by (simp add: member_lacks_def tags_json_member_def)
qed

lemma content_lacks:
  assumes "\<not> ends_field ''sig'' (ev_content e)"
  shows "member_lacks ''sig'' (content_json_member e)"
  using find_in_string_json [OF plain_names(7) assms] field_lacks_field [OF plain_names(7,6)]
  by (simp add: member_lacks_def content_json_member_def)

lemma unat_kind: "\<not> 65535 < unat (k :: u16)"
  using unsigned_less [of k, where 'a = nat] by simp

section \<open>Properties\<close>

text \<open>C21. Reading an event as JSON never panics: on every valid text, whatever it contains, the readers of
  events and of templates return a value or an error.\<close>

theorem event_json_total:
  assumes "utf8_valid json"
  shows "event_from_json h json \<noteq> None \<and> template_from_json json \<noteq> None"
proof
  have hx: "hex_field name dec json \<noteq> None" for name dec
    using quoted_field_total [OF assms, of name] by (auto simp: hex_field_def split: sum.splits option.splits)
  show "event_from_json h json \<noteq> None"
    unfolding event_from_json_def
    by (intro then_field_total hx number_field_total [OF assms] tags_field_total [OF assms] content_field_total [OF assms]
        quoted_field_total [OF assms]) simp
  show "template_from_json json \<noteq> None"
    unfolding template_from_json_def
    by (intro then_field_total number_field_total [OF assms] tags_field_total [OF assms] content_field_total [OF assms]) simp
qed

lemma event_json_reads:
  assumes "hex_ok h" "event_ok e"
    "\<forall>tag \<in> set (ev_tags e). \<forall>s \<in> set tag. \<not> ends_field ''content'' s \<and> \<not> ends_field ''sig'' s"
    "\<not> ends_field ''sig'' (ev_content e)"
  shows "event_from_json h (event_to_json h e) = Some (Ok e)"
proof -
  let ?json = "event_to_json h e"
  let ?sig = "(COMMA, ''sig'', QUOTE # ev_sig e @ [QUOTE])"
  let ?H = "head_members h e" and ?T = "tags_json_member e" and ?C = "content_json_member e"
  have ok: "length (ev_id e) = 32" "length (ev_pubkey e) = 32" "utf8_valid (ev_content e)" "utf8_valid (ev_sig e)"
    "QUOTE \<notin> set (ev_sig e)" "\<forall>tag \<in> set (ev_tags e). \<forall>s \<in> set tag. utf8_valid s" using assms(2) by (auto simp: event_ok_def)
  obtain r where r: "?json = members_text ?H @ COMMA # r" by (simp add: event_json_members tags_json_member_def member_text_def)
  note hd = head_fields [OF assms(1) ok(1,2), of COMMA r, folded r, simplified]
  obtain r' where r': "members_text [?C, ?sig] @ [RBRACE] = COMMA # r'" by (simp add: content_json_member_def member_text_def)
  have lt: "\<forall>m \<in> set ?H. member_lacks ''tags'' m" by (rule head_lacks [OF assms(1)]) simp
  have tags: "tags_field ?json = Some (Ok (ev_tags e))"
    using tags_member [OF lt _ plain_names(5) utf8_valid_tags [OF ok(6)], of COMMA COMMA r'] r'
    by (simp add: event_json_members tags_json_member_def)
  have content: "content_field ?json = Some (Ok (ev_content e))"
    using content_member [of "?H @ [?T]" COMMA "ev_content e" "members_text [?sig] @ [RBRACE]"] head_lacks [OF assms(1), of "''content''" e]
      tags_lack [of e "''content''"] assms(3) ok(3) plain_names(6)
    by (simp add: event_json_members content_json_member_def ball_Un)
  have sig: "quoted_field ''sig'' ?json = Some (Ok (Some (ev_sig e)))"
    using quoted_member [OF plain_names(7), of "?H @ [?T, ?C]" COMMA "ev_sig e" "[RBRACE]"] head_lacks [OF assms(1), of "''sig''" e]
      tags_lack [of e "''sig''"] content_lacks [OF assms(4)] assms(3) ok(4,5)
    by (simp add: event_json_members ball_Un)
  show ?thesis
    using hd tags content sig unat_kind [of "ev_kind e"] by (simp add: event_from_json_def then_field_def)
qed

text \<open>C20. An event written as JSON is read back unchanged, as long as no tag item ends in a quoted \<open>content\<close>
  or \<open>sig\<close> and the content does not end in a quoted \<open>sig\<close>.\<close>

theorem event_json_roundtrip:
  assumes "hex_ok h" "event_ok e"
    "\<forall>tag \<in> set (ev_tags e). \<forall>s \<in> set tag. \<not> ends_field ''content'' s \<and> \<not> ends_field ''sig'' s"
    "\<not> ends_field ''sig'' (ev_content e)"
  shows "event_from_json h (event_to_json h e) = Some (Ok e)"
  using assms by (rule event_json_reads)

lemma content_from_tag:
  assumes "hex_ok h" "ev_tags e = [[ascii ''content'', x]]" "utf8_valid x"
  shows "content_field (event_to_json h e) = Some (Ok x)"
proof -
  let ?H = "head_members h e"
  let ?pre = "members_text ?H @ COMMA # field ''tags'' @ 0x3A # [LBRACKET]"
  let ?n = "''content''"
  have lt: "\<forall>m \<in> set ?H. member_lacks ?n m" by (rule head_lacks [OF assms(1)]) simp
  have sep: "c \<notin> set (field ?n)" if "c \<in> {COMMA, LBRACKET, 0x3A}" for c using field_lacks [OF plain_names(6), of c] that by auto
  have "find_str (field ?n) (field ''tags'' @ 0x3A # [LBRACKET]) = None"
    using find_str_None_append [OF field_lacks_field [OF plain_names(6,5)] find_field_no_quote [of "[LBRACKET]" ?n]] sep by simp
  then have "find_str (field ?n) ?pre = None"
    using find_str_None_append [OF find_members_None [OF plain_names(6) lt]] sep by simp
  moreover have str: "string_json (ascii ?n) = field ?n"
    by (simp add: string_json_def field_def ascii_def escape_string_def escape_char_def)
  then obtain r where json: "event_to_json h e = ?pre @ LBRACKET # field ?n @ COMMA # string_json x @ r"
    by (simp add: event_json_members tags_json_member_def member_text_def tags_to_json_def tag_json_def assms(2))
  ultimately have f: "find_str (field ?n) (event_to_json h e) = Some (Suc (length ?pre))"
    using find_str_at [of "field ?n" ?pre LBRACKET "COMMA # string_json x @ r"] sep by simp
  have sl: "slice_from (event_to_json h e) (Suc (length ?pre) + length (field ?n)) = Some (COMMA # string_json x @ r)"
    by (rule slice_from_at [where a = "?pre @ LBRACKET # field ?n"]) (simp_all add: json)
  have q: "find_byte QUOTE (COMMA # string_json x @ r) = Some 1"
    using find_byte_at [of QUOTE "[COMMA]" "escape_string x @ [QUOTE] @ r"] by (simp add: string_json_def)
  have "content_scan False (drop (Suc 1) (COMMA # string_json x @ r)) = x" using content_scan_escape [of x r] by (simp add: string_json_def)
  then show ?thesis using f sl q assms(3) by (simp add: content_field_def Let_def)
qed

text \<open>A tag whose first item is \<open>content\<close> replaces the content: the reader takes the next string of the
  tag for the content of the event, whatever the content was.\<close>

theorem tag_replaces_content:
  assumes "hex_ok h" "event_ok e" "ev_tags e = [[ascii ''content'', x]]"
    "\<not> ends_field ''sig'' x" "\<not> ends_field ''sig'' (ev_content e)"
  shows "event_from_json h (event_to_json h e) = Some (Ok (e\<lparr>ev_content := x\<rparr>))"
proof -
  let ?json = "event_to_json h e"
  let ?sig = "(COMMA, ''sig'', QUOTE # ev_sig e @ [QUOTE])"
  let ?H = "head_members h e" and ?T = "tags_json_member e" and ?C = "content_json_member e"
  have ok: "length (ev_id e) = 32" "length (ev_pubkey e) = 32" "utf8_valid (ev_sig e)"
    "QUOTE \<notin> set (ev_sig e)" "\<forall>tag \<in> set (ev_tags e). \<forall>s \<in> set tag. utf8_valid s" "utf8_valid x"
    using assms(2,3) by (auto simp: event_ok_def)
  obtain r where r: "?json = members_text ?H @ COMMA # r" by (simp add: event_json_members tags_json_member_def member_text_def)
  note hd = head_fields [OF assms(1) ok(1,2), of COMMA r, folded r, simplified]
  obtain r' where r': "members_text [?C, ?sig] @ [RBRACE] = COMMA # r'" by (simp add: content_json_member_def member_text_def)
  have lt: "\<forall>m \<in> set ?H. member_lacks ''tags'' m" by (rule head_lacks [OF assms(1)]) simp
  have tags: "tags_field ?json = Some (Ok (ev_tags e))"
    using tags_member [OF lt _ plain_names(5) utf8_valid_tags [OF ok(5)], of COMMA COMMA r'] r'
    by (simp add: event_json_members tags_json_member_def)
  have "\<not> ends_field ''sig'' (ascii ''content'')" by (simp add: ends_field_def ascii_def suffix_to_prefix)
  then have "member_lacks ''sig'' ?T" using assms(3,4) by (intro tags_lack) auto
  then have sig: "quoted_field ''sig'' ?json = Some (Ok (Some (ev_sig e)))"
    using quoted_member [OF plain_names(7), of "?H @ [?T, ?C]" COMMA "ev_sig e" "[RBRACE]"] head_lacks [OF assms(1), of "''sig''" e]
      content_lacks [OF assms(5)] ok(3,4)
    by (simp add: event_json_members ball_Un)
  show ?thesis
    using hd tags content_from_tag [OF assms(1,3) ok(6)] sig unat_kind [of "ev_kind e"]
    by (simp add: event_from_json_def then_field_def)
qed

text \<open>A hex codec with the documented behaviour, and two events.\<close>

definition hexdig :: "nat \<Rightarrow> u8" where
  "hexdig n = of_nat (if n < 10 then 0x30 + n else 0x57 + n)"

fun hex_pairs :: "bytes \<Rightarrow> bytes option" where
  "hex_pairs [] = Some []"
| "hex_pairs [_] = None"
| "hex_pairs (a # b # r) =
     (case (hex_digit a, hex_digit b, hex_pairs r) of
        (Some x, Some y, Some bs) \<Rightarrow> Some (of_nat (16 * x + y) # bs)
      | _ \<Rightarrow> None)"

definition std_hex :: hex_codec where
  "std_hex = \<lparr>hex_encode = (\<lambda>bs. concat (map (\<lambda>b. [hexdig (unat b div 16), hexdig (unat b mod 16)]) bs)),
     hex_decode = hex_pairs\<rparr>"

lemma hexdig_ok:
  "\<forall>n < 16. hex_digit (hexdig n) = Some n \<and> (is_ascii_digit (hexdig n) \<or> (0x61 \<le> hexdig n \<and> hexdig n \<le> 0x66))"
proof -
  have "list_all (\<lambda>n. hex_digit (hexdig n) = Some n \<and> (is_ascii_digit (hexdig n) \<or> (0x61 \<le> hexdig n \<and> hexdig n \<le> 0x66)))
      [0, 1, 2, 3, 4, 5, 6, 7, 8, 9, 10, 11, 12, 13, 14, 15]"
    by (simp add: hexdig_def hex_digit_def is_ascii_digit_def)
  moreover have "[0, 1, 2, 3, 4, 5, 6, 7, 8, 9, 10, 11, 12, 13, 14, 15] = [0..<16]" by (simp add: upt_rec)
  ultimately show ?thesis by (simp only: list_all_iff) auto
qed

lemma std_hex_ok: "hex_ok std_hex"
proof -
  have d: "unat b div 16 < 16" "unat b mod 16 < 16" for b :: u8 using unsigned_less [of b, where 'a = nat] by auto
  have "hex_pairs (hex_encode std_hex bs) = Some bs" for bs
    using hexdig_ok d by (induction bs) (simp_all add: std_hex_def)
  moreover have "\<forall>c \<in> set (hex_encode std_hex bs). is_ascii_digit c \<or> (0x61 \<le> c \<and> c \<le> 0x66)" for bs
    using hexdig_ok d by (auto simp: std_hex_def)
  ultimately show ?thesis by (simp add: hex_ok_def std_hex_def)
qed

definition sample_event :: event where
  "sample_event = \<lparr>ev_id = replicate 32 0x11, ev_pubkey = replicate 32 0xA2, ev_created_at = 1700000000, ev_kind = 1,
     ev_tags = [[ascii ''p'', ascii ''x''], []], ev_content = ascii ''say hi'', ev_sig = ascii ''c0ffee''\<rparr>"

lemma sample_event_ok: "event_ok sample_event"
  by (simp add: event_ok_def sample_event_def ascii_def)

theorem event_json_total_witness:
  "event_from_json std_hex (ascii ''{}'') \<noteq> None \<and> template_from_json (ascii ''{}'') \<noteq> None"
  by (rule event_json_total) (simp add: ascii_def)

theorem event_json_roundtrip_witness:
  "event_from_json std_hex (event_to_json std_hex sample_event) = Some (Ok sample_event)"
  by (rule event_json_roundtrip [OF std_hex_ok sample_event_ok])
    (simp_all add: sample_event_def ends_field_def ascii_def suffix_to_prefix)

definition spoof_event :: event where
  "spoof_event = sample_event\<lparr>ev_tags := [[ascii ''content'', ascii ''pay me'']]\<rparr>"

lemma spoof_event_ok: "event_ok spoof_event"
  by (simp add: event_ok_def spoof_event_def sample_event_def ascii_def)

theorem tag_replaces_content_witness:
  "event_from_json std_hex (event_to_json std_hex spoof_event) = Some (Ok (spoof_event\<lparr>ev_content := ascii ''pay me''\<rparr>))"
  by (rule tag_replaces_content [OF std_hex_ok spoof_event_ok])
    (simp_all add: spoof_event_def sample_event_def ends_field_def ascii_def suffix_to_prefix)

end
