(* ===== verification/Pipe_Types.thy ===== *)
theory Pipe_Types
  imports Event_Json Cache_Input Nostr_Event
begin

text \<open>
  What the pipes of a subscription share, after \<open>core/src/pipeline/mod.rs\<close>: the event that travels through
  them, their output, and the trait \<open>Pipe\<close> as a locale. Code that is not modelled is a field of the
  environment: the FlatBuffers reader and builders, the hex codec, the lower-casing of the standard
  library, and the parser of event kinds, whose answer may differ from call to call because it asks a
  signer; its first argument counts the calls.
\<close>

section \<open>Events in a pipeline\<close>

datatype witness = WitnessString bytes | WitnessP2PK "bytes list option" | WitnessHTLC bytes "bytes list option"

record dleq_proof =
  dl_e :: bytes
  dl_s :: bytes
  dl_r :: "bytes option"

record cashu_proof =
  pr_amount :: u64
  pr_secret :: bytes
  pr_c :: bytes
  pr_id :: "bytes option"
  pr_version :: "i32 option"
  pr_dleq :: "dleq_proof option"
  pr_witness :: "witness option"

text \<open>
  What the kind parsers produce: of the two kinds that carry proofs the fields a pipe reads, and the others
  as one type. The requests and relays of a parsed event, which only the FlatBuffers builder reads, are
  \<open>pv_rest\<close>.
\<close>

record kind9321_parsed =
  k9_mint_url :: bytes
  k9_proofs :: "cashu_proof list"

record kind7375_parsed =
  k7_mint_url :: bytes
  k7_proofs :: "cashu_proof list"
  k7_decrypted :: bool

datatype 'p parsed_data = Kind9321 kind9321_parsed | Kind7375 kind7375_parsed | OtherParsed 'p

record 'p parsed_ev =
  pv_event :: event
  pv_parsed :: "'p parsed_data option"
  pv_rest :: 'p

record 'p pipeline_event =
  px_raw :: "event option"
  px_parsed :: "'p parsed_ev option"
  px_id :: bytes
  px_source_relay :: "bytes option"
  px_serialized :: "bytes option"

definition from_raw :: "event \<Rightarrow> bytes option \<Rightarrow> 'p pipeline_event" where
  "from_raw e source_relay =
     \<lparr>px_raw = Some e, px_parsed = None, px_id = ev_id e, px_source_relay = source_relay, px_serialized = None\<rparr>"

definition from_parsed :: "'p parsed_ev \<Rightarrow> 'p pipeline_event" where
  "from_parsed p =
     \<lparr>px_raw = None, px_parsed = Some p, px_id = ev_id (pv_event p), px_source_relay = None, px_serialized = None\<rparr>"

definition is_parsed :: "'p pipeline_event \<Rightarrow> bool" where
  "is_parsed e = (px_parsed e \<noteq> None)"

datatype 'p pipe_output = POEvent "'p pipeline_event" | PODrop | PODirect bytes

datatype nostr_error = NostrOther string

text \<open>The event most pipes look at: the raw one, or else the one inside the parsed event.\<close>

definition nostr_event_of :: "'p pipeline_event \<Rightarrow> event option" where
  "nostr_event_of e =
     (case px_raw e of
        Some raw \<Rightarrow> Some raw
      | None \<Rightarrow> (case px_parsed e of Some p \<Rightarrow> Some (pv_event p) | None \<Rightarrow> None))"

datatype 'p parse_outcome = ParsedOk "'p parsed_ev" | ParseCrypto string | ParseFailed

record 'p pipe_env =
  pn_hex :: hex_codec
  pn_fb :: fb_codec
  pn_to_lowercase :: "bytes \<Rightarrow> bytes"
  pn_parse :: "nat \<Rightarrow> event \<Rightarrow> 'p parse_outcome"
  pn_build_parsed :: "string option \<Rightarrow> 'p parsed_ev \<Rightarrow> bytes option"
  pn_build_raw :: "string option \<Rightarrow> event \<Rightarrow> bytes"
  pn_count_response :: "u32 \<Rightarrow> u16 \<Rightarrow> bool \<Rightarrow> bytes"

text \<open>\<open>PublicKey::to_string\<close> and \<open>EventId::to_hex\<close>.\<close>

definition key_hex :: "'p pipe_env \<Rightarrow> bytes \<Rightarrow> bytes" where
  "key_hex env k = hex_encode (pn_hex env) k"

text \<open>The value of the first tag with the given name and at least one value.\<close>

fun first_tag_value :: "bytes \<Rightarrow> bytes list list \<Rightarrow> bytes option" where
  "first_tag_value name [] = None"
| "first_tag_value name (tag # tags) =
     (if length tag \<ge> 2 \<and> tag ! 0 = name then Some (tag ! 1) else first_tag_value name tags)"

section \<open>The trait\<close>

text \<open>
  A pipe takes an event and its own state to a new state and an output or an error. The contract: only a
  pipe that declares it produces direct output, an event that goes on keeps its id, and the state keeps its
  invariant and its declaration.
\<close>

type_synonym ('p, 's) processor = "'p pipeline_event \<Rightarrow> 's \<Rightarrow> 's \<times> (nostr_error + 'p pipe_output)"

fun pipe_run :: "('p, 's) processor \<Rightarrow> 'p pipeline_event list \<Rightarrow> 's \<Rightarrow> 's \<times> (nostr_error + 'p pipe_output) list" where
  "pipe_run process [] s = (s, [])"
| "pipe_run process (e # es) s =
     (let (s, r) = process e s; (s, rs) = pipe_run process es s in (s, r # rs))"

locale pipe =
  fixes process :: "('p, 's) processor"
    and can_direct_output :: "'s \<Rightarrow> bool"
    and inv :: "'s \<Rightarrow> bool"
  assumes direct_declared: "process e s = (s', Ok (PODirect d)) \<Longrightarrow> can_direct_output s"
    and keeps_declared: "process e s = (s', r) \<Longrightarrow> can_direct_output s' = can_direct_output s"
    and keeps_id: "process e s = (s', Ok (POEvent e')) \<Longrightarrow> px_id e' = px_id e"
    and keeps_inv: "inv s \<Longrightarrow> process e s = (s', r) \<Longrightarrow> inv s'"
begin

lemma run_inv: "inv s \<Longrightarrow> inv (fst (pipe_run process es s))"
proof (induction es arbitrary: s)
  case (Cons e es)
  obtain s1 r where "process e s = (s1, r)" by (cases "process e s")
  then show ?case using Cons keeps_inv [of s e s1 r] by (simp add: split_beta)
qed simp

lemma run_declared: "can_direct_output (fst (pipe_run process es s)) = can_direct_output s"
proof (induction es arbitrary: s)
  case (Cons e es)
  obtain s1 r where "process e s = (s1, r)" by (cases "process e s")
  then show ?case using Cons keeps_declared [of e s s1 r] by (simp add: split_beta)
qed simp

end

end
