(* ===== verification/Pipe_Filters.thy ===== *)
theory Pipe_Filters
  imports Pipe_Types "HOL-Library.List_Lexorder"
begin

text \<open>
  The pipes that let events through or drop them, after \<open>core/src/pipeline/pipes\<close>: \<open>kind_filter.rs\<close>,
  \<open>mute.rs\<close>, \<open>npub_limiter.rs\<close>, \<open>chat_limiter.rs\<close> and \<open>counter.rs\<close>. A hash map is a finite map; where the
  source iterates over one, the order is an argument.
\<close>

section \<open>Kind filter\<close>

record kind_filter_pipe =
  kf_kinds :: "u16 fset"

definition kind_filter_new :: "u16 list \<Rightarrow> kind_filter_pipe" where
  "kind_filter_new kinds = \<lparr>kf_kinds = fset_of_list kinds\<rparr>"

definition kind_filter_process :: "('p, kind_filter_pipe) processor" where
  "kind_filter_process e s =
     (case nostr_event_of e of
        None \<Rightarrow> (s, Ok PODrop)
      | Some ev \<Rightarrow> (s, Ok (if ev_kind ev |\<in>| kf_kinds s then POEvent e else PODrop)))"

section \<open>Mute filter\<close>

datatype mute_target = MuteContent | MuteTags | MuteBoth

record mute_filter_pipe =
  muted_pubkeys :: "bytes fset"
  muted_hashtags :: "bytes fset"
  muted_words :: "bytes list"
  muted_events :: "bytes fset"
  mute_to :: mute_target

definition mute_filter_new ::
  "'p pipe_env \<Rightarrow> bytes list \<Rightarrow> bytes list \<Rightarrow> bytes list \<Rightarrow> bytes list \<Rightarrow> mute_target \<Rightarrow> mute_filter_pipe" where
  "mute_filter_new env pubkeys hashtags words event_ids target =
     \<lparr>muted_pubkeys = fset_of_list pubkeys, muted_hashtags = fset_of_list (map (pn_to_lowercase env) hashtags),
      muted_words = map (pn_to_lowercase env) words, muted_events = fset_of_list event_ids, mute_to = target\<rparr>"

definition contains :: "bytes \<Rightarrow> bytes \<Rightarrow> bool" where
  "contains t w = (find_str w t \<noteq> None)"

definition should_drop :: "'p pipe_env \<Rightarrow> mute_filter_pipe \<Rightarrow> event \<Rightarrow> bool" where
  "should_drop env s ev =
     (if muted_pubkeys s \<noteq> {||} \<and> key_hex env (ev_pubkey ev) |\<in>| muted_pubkeys s then True
      else if muted_events s \<noteq> {||} \<and> key_hex env (ev_id ev) |\<in>| muted_events s then True
      else if muted_events s \<noteq> {||}
        \<and> list_ex (\<lambda>tag. length tag \<ge> 2 \<and> tag ! 0 = ascii ''e'' \<and> tag ! 1 |\<in>| muted_events s) (ev_tags ev) then True
      else if muted_hashtags s \<noteq> {||}
        \<and> list_ex (\<lambda>tag. length tag \<ge> 2 \<and> tag ! 0 = ascii ''t'' \<and> pn_to_lowercase env (tag ! 1) |\<in>| muted_hashtags s)
            (ev_tags ev) then True
      else if muted_words s \<noteq> [] \<and> mute_to s \<noteq> MuteTags \<and> ev_content ev \<noteq> []
        \<and> list_ex (contains (pn_to_lowercase env (ev_content ev))) (muted_words s) then True
      else if muted_words s \<noteq> [] \<and> mute_to s \<noteq> MuteContent
        \<and> list_ex (\<lambda>tag. list_ex (\<lambda>v. list_ex (contains (pn_to_lowercase env v)) (muted_words s)) (drop 1 tag)) (ev_tags ev) then True
      else False)"

definition mute_process :: "'p pipe_env \<Rightarrow> ('p, mute_filter_pipe) processor" where
  "mute_process env e s =
     (case nostr_event_of e of
        None \<Rightarrow> (s, Ok PODrop)
      | Some ev \<Rightarrow> (s, Ok (if should_drop env s ev then PODrop else POEvent e)))"

text \<open>Cached messages: only the author and the id are looked at.\<close>

definition mute_drops_message :: "'p pipe_env \<Rightarrow> mute_filter_pipe \<Rightarrow> bytes \<Rightarrow> bool" where
  "mute_drops_message env s msg =
     (case root_worker_message (pn_fb env) msg of
        Some (WmParsed (Some p)) \<Rightarrow> ascii (pe_pubkey p) |\<in>| muted_pubkeys s \<or> ascii (pe_id p) |\<in>| muted_events s
      | Some (WmNostr (Some n)) \<Rightarrow> ascii (ne_pubkey n) |\<in>| muted_pubkeys s \<or> ascii (ne_id n) |\<in>| muted_events s
      | _ \<Rightarrow> False)"

definition mute_cached_batch :: "'p pipe_env \<Rightarrow> mute_filter_pipe \<Rightarrow> bytes list \<Rightarrow> bytes list" where
  "mute_cached_batch env s messages = filter (\<lambda>m. \<not> mute_drops_message env s m) messages"

section \<open>Limiter per author or recipient\<close>

datatype npub_limiter_key = KeyAuthor | KeyPTag

record npub_tracker =
  nt_last_forwarded_timestamp :: "u64 option"
  nt_forwarded_count :: u32

record npub_limiter_pipe =
  nl_kind :: u16
  nl_limit_per_npub :: u32
  nl_key_by :: npub_limiter_key
  npub_trackers :: "(bytes, npub_tracker) fmap"

definition npub_limiter_new :: "u16 \<Rightarrow> u32 \<Rightarrow> npub_limiter_key \<Rightarrow> npub_limiter_pipe" where
  "npub_limiter_new kind limit key_by =
     \<lparr>nl_kind = kind, nl_limit_per_npub = limit, nl_key_by = key_by, npub_trackers = fmempty\<rparr>"

definition limiter_key :: "'p pipe_env \<Rightarrow> npub_limiter_pipe \<Rightarrow> event \<Rightarrow> bytes" where
  "limiter_key env s ev =
     (case nl_key_by s of
        KeyAuthor \<Rightarrow> key_hex env (ev_pubkey ev)
      | KeyPTag \<Rightarrow> (case first_tag_value (ascii ''p'') (ev_tags ev) of Some v \<Rightarrow> v | None \<Rightarrow> []))"

text \<open>The tracker after an event, and whether the event is forwarded.\<close>

definition npub_track :: "u32 \<Rightarrow> u64 \<Rightarrow> npub_tracker \<Rightarrow> npub_tracker \<times> bool" where
  "npub_track limit created_at t =
     (case nt_last_forwarded_timestamp t of
        None \<Rightarrow> (t\<lparr>nt_last_forwarded_timestamp := Some created_at, nt_forwarded_count := 1\<rparr>, True)
      | Some last_timestamp \<Rightarrow>
          if created_at > last_timestamp then
            (t\<lparr>nt_forwarded_count := (if nt_forwarded_count t \<ge> limit then limit else nt_forwarded_count t + 1)\<rparr>, True)
          else if nt_forwarded_count t < limit then
            (t\<lparr>nt_forwarded_count := nt_forwarded_count t + 1, nt_last_forwarded_timestamp := Some created_at\<rparr>, True)
          else (t, False))"

definition npub_entry :: "npub_limiter_pipe \<Rightarrow> bytes \<Rightarrow> npub_tracker" where
  "npub_entry s key =
     (case fmlookup (npub_trackers s) key of
        Some t \<Rightarrow> t
      | None \<Rightarrow> \<lparr>nt_last_forwarded_timestamp = None, nt_forwarded_count = 0\<rparr>)"

definition npub_limiter_process :: "'p pipe_env \<Rightarrow> ('p, npub_limiter_pipe) processor" where
  "npub_limiter_process env e s =
     (case nostr_event_of e of
        None \<Rightarrow> (s, Ok PODrop)
      | Some ev \<Rightarrow>
          (let key = limiter_key env s ev
           in if ev_kind ev \<noteq> nl_kind s then (s, Ok PODrop)
              else if key = [] then (s, Ok PODrop)
              else
                (let (t, forward) = npub_track (nl_limit_per_npub s) (ev_created_at ev) (npub_entry s key)
                 in (s\<lparr>npub_trackers := fmupd key t (npub_trackers s)\<rparr>, Ok (if forward then POEvent e else PODrop)))))"

section \<open>Limiter per chat\<close>

record chat_tracker =
  ct_accepted_count :: u32
  ct_oldest_forwarded_timestamp :: u64

record chat_limiter_pipe =
  cl_own_pubkey :: bytes
  cl_limit_per_chat :: u32
  cl_max_chats :: nat
  cl_kinds :: "u16 fset"
  chat_trackers :: "(bytes, chat_tracker) fmap"

definition chat_limiter_new :: "bytes \<Rightarrow> u32 \<Rightarrow> u32 \<Rightarrow> u16 list \<Rightarrow> chat_limiter_pipe" where
  "chat_limiter_new own_pubkey limit_per_chat max_chats kinds =
     \<lparr>cl_own_pubkey = own_pubkey, cl_limit_per_chat = max limit_per_chat 1, cl_max_chats = unat (max max_chats 1),
      cl_kinds = fset_of_list kinds, chat_trackers = fmempty\<rparr>"

definition should_limit_kind :: "chat_limiter_pipe \<Rightarrow> u16 \<Rightarrow> bool" where
  "should_limit_kind s kind = (cl_kinds s = {||} \<or> kind |\<in>| cl_kinds s)"

definition chat_id :: "chat_limiter_pipe \<Rightarrow> bytes \<Rightarrow> bytes list list \<Rightarrow> bytes option" where
  "chat_id s author tags = (if author \<noteq> cl_own_pubkey s then Some author else first_tag_value (ascii ''p'') tags)"

text \<open>
  \<open>min_by_key\<close> over the trackers in the iteration order \<open>ks\<close> of the hash map: the first key whose
  timestamp is least.
\<close>

definition oldest_chat :: "bytes list \<Rightarrow> (bytes, chat_tracker) fmap \<Rightarrow> bytes option" where
  "oldest_chat ks m =
     (case ks of
        [] \<Rightarrow> None
      | k # ks' \<Rightarrow>
          Some (fold (\<lambda>k' best.
            if ct_oldest_forwarded_timestamp (the (fmlookup m k')) < ct_oldest_forwarded_timestamp (the (fmlookup m best))
            then k' else best) ks' k))"

definition chat_allow ::
  "((bytes, chat_tracker) fmap \<Rightarrow> bytes list) \<Rightarrow> bytes \<Rightarrow> u64 \<Rightarrow> chat_limiter_pipe \<Rightarrow> chat_limiter_pipe \<times> bool" where
  "chat_allow order cid created_at s =
     (let m = chat_trackers s;
          m = (if fmlookup m cid = None \<and> fcard (fmdom m) \<ge> cl_max_chats s then
                 (case oldest_chat (order m) m of Some k \<Rightarrow> fmdrop k m | None \<Rightarrow> m)
               else m);
          t = (case fmlookup m cid of
                 Some t \<Rightarrow> t
               | None \<Rightarrow> \<lparr>ct_accepted_count = 0, ct_oldest_forwarded_timestamp = created_at\<rparr>)
      in if ct_accepted_count t < cl_limit_per_chat s then
           (s\<lparr>chat_trackers := fmupd cid
                \<lparr>ct_accepted_count = ct_accepted_count t + 1,
                 ct_oldest_forwarded_timestamp = min (ct_oldest_forwarded_timestamp t) created_at\<rparr> m\<rparr>, True)
         else (s\<lparr>chat_trackers := fmupd cid t m\<rparr>, created_at > ct_oldest_forwarded_timestamp t))"

definition chat_limiter_process ::
  "'p pipe_env \<Rightarrow> ((bytes, chat_tracker) fmap \<Rightarrow> bytes list) \<Rightarrow> ('p, chat_limiter_pipe) processor" where
  "chat_limiter_process env order e s =
     (case nostr_event_of e of
        None \<Rightarrow> (s, Ok PODrop)
      | Some ev \<Rightarrow>
          if \<not> should_limit_kind s (ev_kind ev) then (s, Ok (POEvent e))
          else
            (case chat_id s (key_hex env (ev_pubkey ev)) (ev_tags ev) of
               None \<Rightarrow> (s, Ok PODrop)
             | Some i \<Rightarrow>
                 (let (s, allow) = chat_allow order i (ev_created_at ev) s
                  in (s, Ok (if allow then POEvent e else PODrop)))))"

text \<open>Tags of a stored table: a missing vector has no items.\<close>

definition fb_tags :: "fb_tag list \<Rightarrow> bytes list list" where
  "fb_tags tags = map (\<lambda>t. case t of Some items \<Rightarrow> map ascii items | None \<Rightarrow> []) tags"

definition chat_cached_message ::
  "'p pipe_env \<Rightarrow> ((bytes, chat_tracker) fmap \<Rightarrow> bytes list) \<Rightarrow> bytes \<Rightarrow> chat_limiter_pipe \<Rightarrow> chat_limiter_pipe \<times> bool" where
  "chat_cached_message env order msg s =
     (case root_worker_message (pn_fb env) msg of
        Some (WmParsed (Some p)) \<Rightarrow>
          if \<not> should_limit_kind s (pe_kind p) then (s, True)
          else
            (case chat_id s (ascii (pe_pubkey p)) (fb_tags (pe_tags p)) of
               Some i \<Rightarrow> chat_allow order i (ucast (pe_created_at p)) s
             | None \<Rightarrow> (s, False))
      | Some (WmNostr (Some n)) \<Rightarrow>
          if \<not> should_limit_kind s (ne_kind n) then (s, True)
          else
            (case chat_id s (ascii (ne_pubkey n)) (fb_tags (ne_tags n)) of
               Some i \<Rightarrow> chat_allow order i (scast (ne_created_at n)) s
             | None \<Rightarrow> (s, False))
      | _ \<Rightarrow> (s, True))"

fun chat_cached_batch ::
  "'p pipe_env \<Rightarrow> ((bytes, chat_tracker) fmap \<Rightarrow> bytes list) \<Rightarrow> bytes list \<Rightarrow> chat_limiter_pipe \<Rightarrow> chat_limiter_pipe \<times> bytes list" where
  "chat_cached_batch env order [] s = (s, [])"
| "chat_cached_batch env order (m # ms) s =
     (let (s, allow) = chat_cached_message env order m s; (s, out) = chat_cached_batch env order ms s
      in (s, if allow then m # out else out))"

section \<open>Counter\<close>

record counter_pipe =
  co_kinds :: "u16 fset"
  co_counts :: "(u16, u64) fmap"
  co_you_by_kind :: "(u16, bool) fmap"
  co_pubkey :: bytes
  co_eosed :: bool

definition counter_new :: "u16 list \<Rightarrow> bytes \<Rightarrow> counter_pipe" where
  "counter_new kinds pubkey =
     \<lparr>co_kinds = fset_of_list kinds, co_counts = fmap_of_list (map (\<lambda>k. (k, 0)) kinds), co_you_by_kind = fmempty,
      co_pubkey = pubkey, co_eosed = False\<rparr>"

definition build_count_response :: "'p pipe_env \<Rightarrow> u16 \<Rightarrow> counter_pipe \<Rightarrow> bytes" where
  "build_count_response env kind s =
     pn_count_response env
       (ucast (case fmlookup (co_counts s) kind of Some n \<Rightarrow> n | None \<Rightarrow> 0)) kind
       (case fmlookup (co_you_by_kind s) kind of Some y \<Rightarrow> y | None \<Rightarrow> False)"

definition count_event :: "u16 \<Rightarrow> bytes \<Rightarrow> counter_pipe \<Rightarrow> counter_pipe" where
  "count_event kind pubkey s =
     (let s = s\<lparr>co_counts := fmupd kind ((case fmlookup (co_counts s) kind of Some n \<Rightarrow> n | None \<Rightarrow> 0) + 1) (co_counts s)\<rparr>
      in if co_pubkey s = pubkey then s\<lparr>co_you_by_kind := fmupd kind True (co_you_by_kind s)\<rparr> else s)"

definition counter_process :: "'p pipe_env \<Rightarrow> ('p, counter_pipe) processor" where
  "counter_process env e s =
     (case nostr_event_of e of
        None \<Rightarrow> (s, Ok PODrop)
      | Some ev \<Rightarrow>
          if ev_kind ev |\<notin>| co_kinds s then (s, Ok PODrop)
          else
            (let s = count_event (ev_kind ev) (key_hex env (ev_pubkey ev)) s
             in (s, Ok (if co_eosed s then PODirect (build_count_response env (ev_kind ev) s) else PODrop))))"

definition counter_cached_message :: "'p pipe_env \<Rightarrow> bytes \<Rightarrow> counter_pipe \<Rightarrow> counter_pipe" where
  "counter_cached_message env msg s =
     (case root_worker_message (pn_fb env) msg of
        Some (WmParsed (Some p)) \<Rightarrow> if pe_kind p |\<in>| co_kinds s then count_event (pe_kind p) (ascii (pe_pubkey p)) s else s
      | _ \<Rightarrow> s)"

definition counter_cached_batch :: "'p pipe_env \<Rightarrow> bytes list \<Rightarrow> counter_pipe \<Rightarrow> counter_pipe \<times> bytes list" where
  "counter_cached_batch env messages s = (fold (counter_cached_message env) messages s, [])"

text \<open>\<open>flush\<close> walks over the set of kinds in the order \<open>ks\<close>.\<close>

definition counter_flush :: "'p pipe_env \<Rightarrow> u16 list \<Rightarrow> counter_pipe \<Rightarrow> bytes list" where
  "counter_flush env ks s = map (\<lambda>k. build_count_response env k s) ks"

definition counter_on_eose :: "counter_pipe \<Rightarrow> counter_pipe" where
  "counter_on_eose s = s\<lparr>co_eosed := True\<rparr>"

section \<open>The pipes keep the contract\<close>

lemmas pipe_splits = option.splits if_splits prod.splits

interpretation kind_filter: pipe kind_filter_process "\<lambda>_. False" "\<lambda>_. True"
  by unfold_locales (auto simp: kind_filter_process_def split: pipe_splits)

interpretation mute: pipe "mute_process env" "\<lambda>_. False" "\<lambda>_. True" for env
  by unfold_locales (auto simp: mute_process_def split: pipe_splits)

definition npub_ok :: "npub_limiter_pipe \<Rightarrow> bool" where
  "npub_ok s = (\<forall>k t. fmlookup (npub_trackers s) k = Some t \<longrightarrow> nt_forwarded_count t \<le> max (nl_limit_per_npub s) 1)"

lemma npub_track_ok:
  assumes "nt_forwarded_count t \<le> max limit 1"
  shows "nt_forwarded_count (fst (npub_track limit now t)) \<le> max limit 1"
proof (cases "nt_forwarded_count t < limit")
  case True
  then have "nt_forwarded_count t + 1 \<le> limit" by (rule inc_le)
  then show ?thesis using True by (auto simp: npub_track_def max_def split: option.split)
next
  case False
  then show ?thesis using assms by (auto simp: npub_track_def max_def split: option.split)
qed

lemma npub_process_cases:
  "npub_limiter_process env e s = (s', r) \<Longrightarrow>
     s' = s \<or> (\<exists>k now. s' = s\<lparr>npub_trackers :=
       fmupd k (fst (npub_track (nl_limit_per_npub s) now (npub_entry s k))) (npub_trackers s)\<rparr>)"
  by (auto simp: npub_limiter_process_def Let_def split_beta split: option.splits if_splits)

interpretation npub: pipe "npub_limiter_process env" "\<lambda>_. False" npub_ok for env
proof (unfold_locales, goal_cases)
  case (4 s e s' r)
  have "nt_forwarded_count (npub_entry s k) \<le> max (nl_limit_per_npub s) 1" for k
    using 4(1) by (auto simp: npub_entry_def npub_ok_def split: option.split)
  then show ?case using npub_process_cases [OF 4(2)] 4(1) npub_track_ok by (auto simp: npub_ok_def split: if_splits)
qed (auto simp: npub_limiter_process_def Let_def split_beta split: option.splits if_splits)

definition chat_counts_ok :: "chat_limiter_pipe \<Rightarrow> bool" where
  "chat_counts_ok s = (\<forall>k t. fmlookup (chat_trackers s) k = Some t \<longrightarrow> ct_accepted_count t \<le> cl_limit_per_chat s)"

lemma fold_choice: "fold (\<lambda>x best. if P x best then x else best) xs k \<in> insert k (set xs)"
  by (induction xs arbitrary: k) auto

lemma oldest_chat_member: "oldest_chat ks m = Some k \<Longrightarrow> k \<in> set ks"
  using fold_choice [of "\<lambda>k' best. ct_oldest_forwarded_timestamp (the (fmlookup m k'))
      < ct_oldest_forwarded_timestamp (the (fmlookup m best))" "tl ks" "hd ks"]
  by (cases ks) (auto simp: oldest_chat_def)

lemma oldest_chat_Some: "ks \<noteq> [] \<Longrightarrow> \<exists>k. oldest_chat ks m = Some k"
  by (cases ks) (auto simp: oldest_chat_def)

text \<open>The trackers an event of a chat finds: after the eviction, when one is due.\<close>

definition chat_room ::
  "((bytes, chat_tracker) fmap \<Rightarrow> bytes list) \<Rightarrow> bytes \<Rightarrow> chat_limiter_pipe \<Rightarrow> (bytes, chat_tracker) fmap" where
  "chat_room order cid s =
     (let m = chat_trackers s
      in if fmlookup m cid = None \<and> fcard (fmdom m) \<ge> cl_max_chats s then
           (case oldest_chat (order m) m of Some k \<Rightarrow> fmdrop k m | None \<Rightarrow> m)
         else m)"

definition chat_entry :: "bytes \<Rightarrow> u64 \<Rightarrow> (bytes, chat_tracker) fmap \<Rightarrow> chat_tracker" where
  "chat_entry cid now m =
     (case fmlookup m cid of Some t \<Rightarrow> t | None \<Rightarrow> \<lparr>ct_accepted_count = 0, ct_oldest_forwarded_timestamp = now\<rparr>)"

definition chat_update :: "u32 \<Rightarrow> u64 \<Rightarrow> chat_tracker \<Rightarrow> chat_tracker" where
  "chat_update limit now t =
     (if ct_accepted_count t < limit
      then \<lparr>ct_accepted_count = ct_accepted_count t + 1,
            ct_oldest_forwarded_timestamp = min (ct_oldest_forwarded_timestamp t) now\<rparr>
      else t)"

lemma chat_allow_eq:
  "chat_allow order cid now s =
     (let m = chat_room order cid s; t = chat_entry cid now m
      in (s\<lparr>chat_trackers := fmupd cid (chat_update (cl_limit_per_chat s) now t) m\<rparr>,
          ct_accepted_count t < cl_limit_per_chat s \<or> now > ct_oldest_forwarded_timestamp t))"
  by (simp add: chat_allow_def chat_room_def chat_entry_def chat_update_def Let_def)

lemma chat_room_sub: "fmlookup (chat_room order cid s) k = Some t \<Longrightarrow> fmlookup (chat_trackers s) k = Some t"
  by (auto simp: chat_room_def Let_def split: if_splits option.splits)

lemma chat_allow_counts:
  assumes "chat_counts_ok s" shows "chat_counts_ok (fst (chat_allow order cid now s))"
proof -
  have "ct_accepted_count (chat_entry cid now (chat_room order cid s)) \<le> cl_limit_per_chat s"
    using assms by (auto simp: chat_entry_def chat_counts_ok_def dest: chat_room_sub split: option.split)
  then have "ct_accepted_count (chat_update (cl_limit_per_chat s) now (chat_entry cid now (chat_room order cid s)))
      \<le> cl_limit_per_chat s"
    by (simp add: chat_update_def inc_le)
  then show ?thesis using assms by (auto simp: chat_allow_eq Let_def chat_counts_ok_def dest: chat_room_sub)
qed

lemma chat_process_cases:
  "chat_limiter_process env order e s = (s', r) \<Longrightarrow>
     s' = s \<or> (\<exists>cid now. s' = fst (chat_allow order cid now s))"
  by (auto simp: chat_limiter_process_def split_beta split: option.splits if_splits)

interpretation chat: pipe "chat_limiter_process env order" "\<lambda>_. False" chat_counts_ok for env order
proof (unfold_locales, goal_cases)
  case (4 s e s' r)
  then show ?case using chat_process_cases chat_allow_counts by metis
qed (auto simp: chat_limiter_process_def split_beta split: option.splits if_splits)

definition counter_ok :: "counter_pipe \<Rightarrow> bool" where
  "counter_ok s = (fmdom (co_counts s) = co_kinds s \<and> fmdom (co_you_by_kind s) |\<subseteq>| co_kinds s)"

lemma count_event_fields [simp]:
  "co_kinds (count_event k p s) = co_kinds s" "co_pubkey (count_event k p s) = co_pubkey s"
  "co_eosed (count_event k p s) = co_eosed s"
  by (simp_all add: count_event_def Let_def)

lemma count_event_ok: "counter_ok s \<Longrightarrow> k |\<in>| co_kinds s \<Longrightarrow> counter_ok (count_event k p s)"
  by (auto simp: counter_ok_def count_event_def Let_def)

interpretation counter: pipe "counter_process env" "\<lambda>_. True" counter_ok for env
  by unfold_locales
    (auto simp: counter_process_def Let_def intro!: count_event_ok split: option.splits if_splits)

section \<open>What the limiters decide\<close>

text \<open>
  The chat limiter as a specification: of each chat the first \<open>limit\<close> events go through, and later ones
  when they are newer than the oldest of those.
\<close>

definition times_of :: "bytes \<Rightarrow> (bytes \<times> u64) list \<Rightarrow> u64 list" where
  "times_of c past = map snd (filter (\<lambda>x. fst x = c) past)"

definition chat_passes :: "nat \<Rightarrow> u64 list \<Rightarrow> u64 \<Rightarrow> bool" where
  "chat_passes limit earlier now = (length earlier < limit \<or> now > Min (set (take limit earlier)))"

fun chat_spec :: "nat \<Rightarrow> (bytes \<times> u64) list \<Rightarrow> (bytes \<times> u64) list \<Rightarrow> bool list" where
  "chat_spec limit past [] = []"
| "chat_spec limit past ((c, now) # rest) =
     chat_passes limit (times_of c past) now # chat_spec limit (past @ [(c, now)]) rest"

definition chat_holds :: "(bytes \<times> u64) list \<Rightarrow> chat_limiter_pipe \<Rightarrow> bool" where
  "chat_holds past s \<longleftrightarrow>
     fmdom (chat_trackers s) = fset_of_list (map fst past)
     \<and> (\<forall>c t. fmlookup (chat_trackers s) c = Some t \<longrightarrow>
          unat (ct_accepted_count t) = min (unat (cl_limit_per_chat s)) (length (times_of c past))
          \<and> ct_oldest_forwarded_timestamp t = Min (set (take (unat (cl_limit_per_chat s)) (times_of c past))))"

lemma times_of_simps [simp]:
  "times_of c [] = []"
  "times_of c (past @ [(c', now)]) = (if c' = c then times_of c past @ [now] else times_of c past)"
  by (simp_all add: times_of_def)

lemma times_of_empty_iff: "times_of c past = [] \<longleftrightarrow> c \<notin> fst ` set past"
  by (auto simp: times_of_def filter_empty_conv)

lemma chat_holds_allow:
  assumes holds: "chat_holds past s" and limit: "cl_limit_per_chat s > 0"
    and room: "card (insert c (fst ` set past)) \<le> cl_max_chats s"
  shows "chat_holds (past @ [(c, now)]) (fst (chat_allow order c now s))
    \<and> snd (chat_allow order c now s) = chat_passes (unat (cl_limit_per_chat s)) (times_of c past) now"
proof -
  let ?l = "unat (cl_limit_per_chat s)" and ?ts = "times_of c past"
  have l: "?l > 0" using limit by (simp add: unat_gt_0 word_neq_0_conv)
  have dom: "fset (fmdom (chat_trackers s)) = fst ` set past"
    using holds by (simp add: chat_holds_def fset_of_list.rep_eq)
  have no_eviction: "chat_room order c s = chat_trackers s"
  proof (cases "fmlookup (chat_trackers s) c = None")
    case True
    then have "c \<notin> fst ` set past" using dom by (metis fmdom_notI)
    then have "fcard (fmdom (chat_trackers s)) < cl_max_chats s"
      using room dom by (simp add: fcard.rep_eq)
    then show ?thesis by (simp add: chat_room_def Let_def)
  qed (auto simp: chat_room_def Let_def)
  define t where "t = chat_entry c now (chat_trackers s)"
  have count: "unat (ct_accepted_count t) = min ?l (length ?ts)"
    and oldest: "?ts \<noteq> [] \<Longrightarrow> ct_oldest_forwarded_timestamp t = Min (set (take ?l ?ts))"
    and fresh: "?ts = [] \<Longrightarrow> ct_oldest_forwarded_timestamp t = now"
  proof -
    have "?ts = []" if "fmlookup (chat_trackers s) c = None"
      using that dom unfolding times_of_empty_iff by (metis fmdom_notI)
    moreover have "?ts \<noteq> []" if "fmlookup (chat_trackers s) c = Some u" for u
      using that dom unfolding times_of_empty_iff by (metis fmdomI)
    ultimately show "unat (ct_accepted_count t) = min ?l (length ?ts)"
      "?ts \<noteq> [] \<Longrightarrow> ct_oldest_forwarded_timestamp t = Min (set (take ?l ?ts))"
      "?ts = [] \<Longrightarrow> ct_oldest_forwarded_timestamp t = now"
      using holds by (auto simp: t_def chat_entry_def chat_holds_def split: option.split)
  qed
  have below: "ct_accepted_count t < cl_limit_per_chat s \<longleftrightarrow> length ?ts < ?l"
    using count by (auto simp: word_less_nat_alt)
  have passes: "snd (chat_allow order c now s) = chat_passes ?l ?ts now"
  proof (cases "length ?ts < ?l")
    case False
    then have "?ts \<noteq> []" using l by auto
    then show ?thesis using below oldest False
      by (simp add: chat_allow_eq no_eviction t_def [symmetric] Let_def chat_passes_def)
  qed (use below in \<open>simp add: chat_allow_eq no_eviction t_def [symmetric] Let_def chat_passes_def\<close>)
  have upd: "unat (ct_accepted_count (chat_update (cl_limit_per_chat s) now t)) = min ?l (length (?ts @ [now]))
    \<and> ct_oldest_forwarded_timestamp (chat_update (cl_limit_per_chat s) now t) = Min (set (take ?l (?ts @ [now])))"
  proof (cases "length ?ts < ?l")
    case True
    have "unat (ct_accepted_count t + 1) = unat (ct_accepted_count t) + 1"
    proof -
      have "Suc (unat (ct_accepted_count t)) \<le> unat (cl_limit_per_chat s)" using True count by simp
      also have "\<dots> < 2 ^ 32" using unsigned_less [of "cl_limit_per_chat s"] by simp
      finally show ?thesis by (simp add: unat_word_ariths)
    qed
    moreover have "min (ct_oldest_forwarded_timestamp t) now = Min (set (?ts @ [now]))"
      using True oldest fresh by (cases "?ts = []") (auto simp: Min_insert2 min.commute)
    ultimately show ?thesis using True below count by (simp add: chat_update_def)
  next
    case False
    then have "?ts \<noteq> []" using l by auto
    then show ?thesis using False below count oldest by (simp add: chat_update_def)
  qed
  have "chat_holds (past @ [(c, now)]) (fst (chat_allow order c now s))"
    using holds upd by (auto simp: chat_allow_eq no_eviction t_def [symmetric] Let_def chat_holds_def)
  then show ?thesis using passes by simp
qed

fun allow_run ::
  "((bytes, chat_tracker) fmap \<Rightarrow> bytes list) \<Rightarrow> (bytes \<times> u64) list \<Rightarrow> chat_limiter_pipe \<Rightarrow> chat_limiter_pipe \<times> bool list" where
  "allow_run order [] s = (s, [])"
| "allow_run order ((c, now) # es) s =
     (let (s, a) = chat_allow order c now s; (s, as) = allow_run order es s in (s, a # as))"

lemma chat_allow_fields [simp]:
  "cl_limit_per_chat (fst (chat_allow order c now s)) = cl_limit_per_chat s"
  "cl_max_chats (fst (chat_allow order c now s)) = cl_max_chats s"
  "cl_kinds (fst (chat_allow order c now s)) = cl_kinds s"
  "cl_own_pubkey (fst (chat_allow order c now s)) = cl_own_pubkey s"
  by (simp_all add: chat_allow_eq Let_def)

lemma allow_run_spec:
  "chat_holds past s \<Longrightarrow> cl_limit_per_chat s > 0 \<Longrightarrow> card (fst ` set (past @ es)) \<le> cl_max_chats s \<Longrightarrow>
     snd (allow_run order es s) = chat_spec (unat (cl_limit_per_chat s)) past es"
proof (induction es arbitrary: past s)
  case (Cons e es)
  obtain c now where e: "e = (c, now)" by (cases e)
  have "card (insert c (fst ` set past)) \<le> card (fst ` set (past @ e # es))"
    by (rule card_mono) (auto simp: e)
  then have "chat_holds (past @ [(c, now)]) (fst (chat_allow order c now s))
    \<and> snd (chat_allow order c now s) = chat_passes (unat (cl_limit_per_chat s)) (times_of c past) now"
    using Cons.prems chat_holds_allow by (meson le_trans)
  then show ?case using Cons.IH [of "past @ [(c, now)]" "fst (chat_allow order c now s)"] Cons.prems
    by (simp add: e split_beta)
qed simp

text \<open>The chat and the time of an event that the limiter counts.\<close>

definition chat_of :: "'p pipe_env \<Rightarrow> chat_limiter_pipe \<Rightarrow> 'p pipeline_event \<Rightarrow> (bytes \<times> u64) option" where
  "chat_of env s e =
     (case nostr_event_of e of
        None \<Rightarrow> None
      | Some ev \<Rightarrow>
          if should_limit_kind s (ev_kind ev)
          then map_option (\<lambda>c. (c, ev_created_at ev)) (chat_id s (key_hex env (ev_pubkey ev)) (ev_tags ev))
          else None)"

lemma chat_of_allow: "chat_of env (fst (chat_allow order c now s)) = chat_of env s"
  by (rule ext) (simp add: chat_of_def should_limit_kind_def chat_id_def split: option.split)

lemma chat_process_of:
  "chat_of env s e = Some (c, now) \<Longrightarrow>
     chat_limiter_process env order e s =
       (fst (chat_allow order c now s), Ok (if snd (chat_allow order c now s) then POEvent e else PODrop))"
  by (auto simp: chat_of_def chat_limiter_process_def split_beta split: option.splits if_splits)

lemma chat_run_allow:
  "map (chat_of env s) es = map Some cs \<Longrightarrow>
     snd (pipe_run (chat_limiter_process env order) es s) =
       map2 (\<lambda>e a. Ok (if a then POEvent e else PODrop)) es (snd (allow_run order cs s))"
proof (induction es arbitrary: s cs)
  case (Cons e es)
  obtain c now cs' where cs: "cs = (c, now) # cs'" "chat_of env s e = Some (c, now)"
    "map (chat_of env s) es = map Some cs'"
    using Cons.prems by (cases cs) auto
  have "map (chat_of env (fst (chat_allow order c now s))) es = map Some cs'"
    using cs(3) by (simp add: chat_of_allow)
  from Cons.IH [OF this] show ?case by (simp add: cs chat_process_of split_beta)
qed simp

lemma chat_new_holds: "chat_holds [] (chat_limiter_new own l m ks)"
  by (simp add: chat_holds_def chat_limiter_new_def)

lemma chat_new_limit: "cl_limit_per_chat (chat_limiter_new own l m ks) > 0"
  by (cases "l = 0") (auto simp: chat_limiter_new_def max_def word_neq_0_conv [symmetric])

text \<open>As long as no more chats take part than it tracks, the chat limiter forwards exactly the first
  events of each chat up to the limit and later events that are newer than the oldest of those.\<close>

theorem chat_limiter_forwards:
  assumes "map (chat_of env s) es = map Some cs" "s = chat_limiter_new own limit max_chats kinds"
    "card (fst ` set cs) \<le> unat (max max_chats 1)"
  shows "snd (pipe_run (chat_limiter_process env order) es s) =
    map2 (\<lambda>e pass. Ok (if pass then POEvent e else PODrop)) es (chat_spec (unat (max limit 1)) [] cs)"
proof -
  have "snd (allow_run order cs s) = chat_spec (unat (cl_limit_per_chat s)) [] cs"
    by (rule allow_run_spec) (use assms chat_new_holds chat_new_limit in \<open>auto simp: chat_limiter_new_def\<close>)
  then show ?thesis
    using chat_run_allow [OF assms(1)] assms(2) by (simp add: chat_limiter_new_def)
qed

section \<open>The chat limiter stays small\<close>

datatype 'p chat_op = ChatEvent "'p pipeline_event" | ChatCached "bytes list"

fun chat_step ::
  "'p pipe_env \<Rightarrow> ((bytes, chat_tracker) fmap \<Rightarrow> bytes list) \<Rightarrow> 'p chat_op \<Rightarrow> chat_limiter_pipe \<Rightarrow> chat_limiter_pipe" where
  "chat_step env order (ChatEvent e) s = fst (chat_limiter_process env order e s)"
| "chat_step env order (ChatCached ms) s = fst (chat_cached_batch env order ms s)"

definition chat_ok :: "chat_limiter_pipe \<Rightarrow> bool" where
  "chat_ok s = (chat_counts_ok s \<and> 0 < cl_max_chats s \<and> fcard (fmdom (chat_trackers s)) \<le> cl_max_chats s)"

lemma chat_allow_ok:
  assumes order: "\<And>m. set (order m) = fset (fmdom m)" and ok: "chat_ok s"
  shows "chat_ok (fst (chat_allow order c now s))"
proof -
  let ?m = "chat_trackers s" and ?r = "chat_room order c s"
  have "fcard (finsert c (fmdom ?r)) \<le> cl_max_chats s"
  proof (cases "c |\<in>| fmdom ?r")
    case True
    moreover have "fmdom ?r |\<subseteq>| fmdom ?m"
      by (auto simp: chat_room_def Let_def split: option.split)
    ultimately show ?thesis using ok fcard_mono [of "fmdom ?r" "fmdom ?m"]
      by (simp add: chat_ok_def finsert_absorb)
  next
    case False
    have "fcard (fmdom ?r) < cl_max_chats s"
    proof (cases "fmlookup ?m c = None \<and> fcard (fmdom ?m) \<ge> cl_max_chats s")
      case True
      then have "fmdom ?m \<noteq> {||}" using ok by (auto simp: chat_ok_def fcard_fempty)
      then have "fset (fmdom ?m) \<noteq> {}" by (simp add: bot_fset.rep_eq [symmetric] fset_inject del: bot_fset.rep_eq)
      then have "order ?m \<noteq> []" using order [of ?m] by auto
      then obtain k where k: "oldest_chat (order ?m) ?m = Some k" using oldest_chat_Some by blast
      then have "k |\<in>| fmdom ?m" using oldest_chat_member order by blast
      moreover have "fmdom ?r = fmdom ?m |-| {|k|}" using True k by (simp add: chat_room_def)
      ultimately have "fcard (fmdom ?r) < fcard (fmdom ?m)" using fcard_fminus1_less [of k "fmdom ?m"] by simp
      then show ?thesis using ok by (simp add: chat_ok_def)
    next
      case False
      then show ?thesis using \<open>c |\<notin>| fmdom ?r\<close> by (auto simp: chat_room_def Let_def split: if_splits)
    qed
    then show ?thesis using False by (simp add: fcard_finsert_disjoint)
  qed
  then show ?thesis using ok chat_allow_counts [of s order c now]
    by (simp add: chat_ok_def chat_allow_eq Let_def)
qed

lemma chat_cached_message_cases:
  "fst (chat_cached_message env order msg s) = s
    \<or> (\<exists>c now. fst (chat_cached_message env order msg s) = fst (chat_allow order c now s))"
  by (auto simp: chat_cached_message_def split: option.splits wm_content.splits if_splits)

lemma chat_step_ok:
  assumes order: "\<And>m. set (order m) = fset (fmdom m)"
  shows "chat_ok s \<Longrightarrow> chat_ok (chat_step env order op s)"
proof (induction op)
  case (ChatEvent e)
  then show ?case using chat_process_cases [of env order e s "fst (chat_limiter_process env order e s)"
        "snd (chat_limiter_process env order e s)"] chat_allow_ok [OF order] by auto
next
  case (ChatCached ms)
  then show ?case
  proof (induction ms arbitrary: s)
    case (Cons m ms)
    have "chat_ok (fst (chat_cached_message env order m s))"
      using chat_cached_message_cases [of env order m s] chat_allow_ok [OF order Cons.prems] Cons.prems by auto
    then show ?case using Cons.IH by (simp add: split_beta)
  qed simp
qed

lemma chat_step_fields:
  "cl_max_chats (chat_step env order op s) = cl_max_chats s \<and> cl_limit_per_chat (chat_step env order op s) = cl_limit_per_chat s"
proof (induction op)
  case (ChatEvent e)
  then show ?case using chat_process_cases [of env order e s "fst (chat_limiter_process env order e s)"
        "snd (chat_limiter_process env order e s)"] by auto
next
  case (ChatCached ms)
  then show ?case
  proof (induction ms arbitrary: s)
    case (Cons m ms)
    then show ?case using chat_cached_message_cases [of env order m s] by (auto simp: split_beta)
  qed simp
qed

lemma chat_new_ok: "chat_ok (chat_limiter_new own limit max_chats kinds)"
proof -
  have "0 < unat (max max_chats (1 :: u32))" by (cases "max_chats = 0") (auto simp: max_def unat_gt_0)
  then show ?thesis by (simp add: chat_ok_def chat_counts_ok_def chat_limiter_new_def fcard_fempty)
qed

text \<open>However many chats and events arrive, live or from the cache, the chat limiter tracks at most
  \<open>max_chats\<close> chats and accepts at most \<open>limit_per_chat\<close> events of each before it compares times.\<close>

theorem chat_limiter_bounded:
  assumes order: "\<And>m. set (order m) = fset (fmdom m)"
    and s: "s = fold (chat_step env order) ops (chat_limiter_new own limit max_chats kinds)"
  shows "fcard (fmdom (chat_trackers s)) \<le> unat (max max_chats 1)
    \<and> (\<forall>c t. fmlookup (chat_trackers s) c = Some t \<longrightarrow> ct_accepted_count t \<le> max limit 1)"
proof -
  let ?s0 = "chat_limiter_new own limit max_chats kinds"
  have "chat_ok (fold (chat_step env order) ops s0) \<and> cl_max_chats (fold (chat_step env order) ops s0) = cl_max_chats s0
      \<and> cl_limit_per_chat (fold (chat_step env order) ops s0) = cl_limit_per_chat s0" if "chat_ok s0" for s0
    using that by (induction ops arbitrary: s0) (simp_all add: chat_step_ok [OF order] chat_step_fields)
  from this [OF chat_new_ok, of own limit max_chats kinds]
  have "chat_ok s \<and> cl_max_chats s = unat (max max_chats 1) \<and> cl_limit_per_chat s = max limit 1"
    by (simp add: s chat_limiter_new_def)
  then show ?thesis by (auto simp: chat_ok_def chat_counts_ok_def)
qed

section \<open>The counter counts\<close>

datatype 'p counter_op = CountEvent "'p pipeline_event" | CountCached "bytes list" | CountEose

fun counter_step :: "'p pipe_env \<Rightarrow> 'p counter_op \<Rightarrow> counter_pipe \<Rightarrow> counter_pipe" where
  "counter_step env (CountEvent e) s = fst (counter_process env e s)"
| "counter_step env (CountCached ms) s = fst (counter_cached_batch env ms s)"
| "counter_step env CountEose s = counter_on_eose s"

text \<open>The kinds and authors of the events an operation brings.\<close>

definition cached_kind :: "'p pipe_env \<Rightarrow> bytes \<Rightarrow> (u16 \<times> bytes) list" where
  "cached_kind env msg =
     (case root_worker_message (pn_fb env) msg of
        Some (WmParsed (Some p)) \<Rightarrow> [(pe_kind p, ascii (pe_pubkey p))]
      | _ \<Rightarrow> [])"

fun brought :: "'p pipe_env \<Rightarrow> 'p counter_op \<Rightarrow> (u16 \<times> bytes) list" where
  "brought env (CountEvent e) =
     (case nostr_event_of e of Some ev \<Rightarrow> [(ev_kind ev, key_hex env (ev_pubkey ev))] | None \<Rightarrow> [])"
| "brought env (CountCached ms) = concat (map (cached_kind env) ms)"
| "brought env CountEose = []"

definition counted :: "(u16 \<times> bytes) list \<Rightarrow> counter_pipe \<Rightarrow> bool" where
  "counted ps s \<longleftrightarrow>
     (\<forall>k. k |\<in>| co_kinds s \<longrightarrow>
        fmlookup (co_counts s) k = Some (of_nat (length (filter (\<lambda>p. fst p = k) ps)))
        \<and> (fmlookup (co_you_by_kind s) k = Some True) = ((k, co_pubkey s) \<in> set ps)
        \<and> fmlookup (co_you_by_kind s) k \<noteq> Some False)"

fun count_pair :: "u16 \<times> bytes \<Rightarrow> counter_pipe \<Rightarrow> counter_pipe" where
  "count_pair (k, p) s = (if k |\<in>| co_kinds s then count_event k p s else s)"

lemma count_pair_counted: "counted ps s \<Longrightarrow> counted (ps @ [x]) (count_pair x s)"
  by (cases x) (auto simp: counted_def count_event_def Let_def)

lemma count_pairs_counted: "counted ps s \<Longrightarrow> counted (ps @ xs) (fold count_pair xs s)"
proof (induction xs arbitrary: ps s)
  case (Cons x xs)
  from Cons.IH [OF count_pair_counted [OF Cons.prems]] show ?case by simp
qed simp

lemma count_pair_fields [simp]: "co_kinds (count_pair x s) = co_kinds s" "co_pubkey (count_pair x s) = co_pubkey s"
  by (cases x; simp)+

lemma count_pairs_fields [simp]:
  "co_kinds (fold count_pair xs s) = co_kinds s" "co_pubkey (fold count_pair xs s) = co_pubkey s"
  by (induction xs arbitrary: s) simp_all

lemma counter_cached_message_eq:
  "counter_cached_message env m s =
     fold count_pair (cached_kind env m) s"
  by (simp add: counter_cached_message_def cached_kind_def split: option.split wm_content.split)

lemma counter_step_eq:
  "\<exists>b. counter_step env op s =
     (fold count_pair (brought env op) s)\<lparr>co_eosed := b\<rparr>"
proof (cases op)
  case (CountEvent e)
  then show ?thesis
    by (intro exI [of _ "co_eosed s"]) (simp add: counter_process_def Let_def count_event_def split: option.split)
next
  case (CountCached ms)
  have "fold (counter_cached_message env) ms s =
      fold count_pair (concat (map (cached_kind env) ms)) s" for s
    by (induction ms arbitrary: s) (simp_all add: counter_cached_message_eq)
  then show ?thesis
    by (intro exI [of _ "co_eosed (fst (counter_cached_batch env ms s))"]) (simp add: CountCached counter_cached_batch_def)
next
  case CountEose
  then show ?thesis by (auto simp: counter_on_eose_def)
qed

lemma counter_step_counted:
  assumes "counted ps s"
  shows "counted (ps @ brought env op) (counter_step env op s)
    \<and> co_kinds (counter_step env op s) = co_kinds s \<and> co_pubkey (counter_step env op s) = co_pubkey s"
proof -
  obtain b where "counter_step env op s = (fold count_pair (brought env op) s)\<lparr>co_eosed := b\<rparr>"
    using counter_step_eq by blast
  then show ?thesis using count_pairs_counted [OF assms] by (simp add: counted_def)
qed

lemma counter_run_counted:
  "counted ps s \<Longrightarrow> counted (ps @ concat (map (brought env) ops)) (fold (counter_step env) ops s)
    \<and> co_kinds (fold (counter_step env) ops s) = co_kinds s \<and> co_pubkey (fold (counter_step env) ops s) = co_pubkey s"
proof (induction ops arbitrary: ps s)
  case (Cons op ops)
  then show ?case using Cons.IH [of "ps @ brought env op" "counter_step env op s"] counter_step_counted [OF Cons.prems, of env op]
    by simp
qed simp

lemma counter_new_counted: "counted [] (counter_new kinds pubkey)"
proof -
  have "map_of (map (\<lambda>k. (k, 0)) kinds) k = Some (0 :: u64)" if "k \<in> set kinds" for k
    using that by (induction kinds) auto
  then show ?thesis by (auto simp: counted_def counter_new_def fmlookup_of_list fset_of_list.rep_eq)
qed

text \<open>The count reported for a kind is the number of events of that kind that arrived, live or from the
  cache and before or after the end of stored events, modulo \<open>2\<^sup>3\<^sup>2\<close>, and the flag tells whether one of
  them was by the user.\<close>

theorem counter_exact:
  assumes "s = fold (counter_step env) ops (counter_new kinds pubkey)" "k \<in> set kinds"
    "ps = concat (map (brought env) ops)"
  shows "build_count_response env k s =
    pn_count_response env (of_nat (length (filter (\<lambda>p. fst p = k) ps))) k ((k, pubkey) \<in> set ps)"
proof -
  have c: "counted ps s" "co_kinds s = fset_of_list kinds" "co_pubkey s = pubkey"
    using counter_run_counted [OF counter_new_counted, of env ops kinds pubkey] assms
    by (simp_all add: counter_new_def)
  then have "fmlookup (co_counts s) k = Some (of_nat (length (filter (\<lambda>p. fst p = k) ps)))"
    "(fmlookup (co_you_by_kind s) k = Some True) = ((k, pubkey) \<in> set ps)" "fmlookup (co_you_by_kind s) k \<noteq> Some False"
    using assms(2) by (auto simp: counted_def fset_of_list.rep_eq)
  then show ?thesis
    by (cases "fmlookup (co_you_by_kind s) k")
      (auto simp: build_count_response_def unsigned_of_nat word_of_nat_eq_iff intro!: arg_cong2 [of _ _ _ _ "\<lambda>n. pn_count_response env n k"])
qed

section \<open>The author limiter after its limit\<close>

definition limited_by :: "'p pipe_env \<Rightarrow> npub_limiter_pipe \<Rightarrow> bytes \<Rightarrow> 'p pipeline_event \<Rightarrow> u64 \<Rightarrow> bool" where
  "limited_by env s key e now =
     (case nostr_event_of e of
        None \<Rightarrow> False
      | Some ev \<Rightarrow> ev_kind ev = nl_kind s \<and> limiter_key env s ev = key \<and> key \<noteq> [] \<and> ev_created_at ev = now)"

text \<open>Once an author has a recorded time, every event newer than it is forwarded, whatever the limit and
  however many have been: the recorded time does not move forward with them.\<close>

theorem npub_limit_not_enforced:
  assumes "fmlookup (npub_trackers s) key = Some t" "nt_last_forwarded_timestamp t = Some t0"
    "\<forall>e \<in> set es. \<exists>now > t0. limited_by env s key e now"
  shows "snd (pipe_run (npub_limiter_process env) es s) = map (\<lambda>e. Ok (POEvent e)) es"
  using assms
proof (induction es arbitrary: s t)
  case (Cons e es)
  then obtain now where e: "now > t0" "limited_by env s key e now" by auto
  define s1 where "s1 = fst (npub_limiter_process env e s)"
  have step: "npub_limiter_process env e s = (s1, Ok (POEvent e))"
    and t1: "\<exists>t1. fmlookup (npub_trackers s1) key = Some t1 \<and> nt_last_forwarded_timestamp t1 = Some t0"
    and keep: "limited_by env s1 key = limited_by env s key"
    using e Cons.prems(1,2)
    by (auto simp: s1_def limited_by_def npub_limiter_process_def npub_entry_def npub_track_def Let_def limiter_key_def
        fun_eq_iff split: option.splits if_splits)
  obtain t1 where "fmlookup (npub_trackers s1) key = Some t1" "nt_last_forwarded_timestamp t1 = Some t0"
    using t1 by blast
  then have "snd (pipe_run (npub_limiter_process env) es s1) = map (\<lambda>e. Ok (POEvent e)) es"
    by (rule Cons.IH) (use Cons.prems(3) in \<open>simp add: keep\<close>)
  then show ?case by (simp add: step split_beta)
qed simp

section \<open>Examples\<close>

definition example_env :: "unit pipe_env" where
  "example_env =
     \<lparr>pn_hex = std_hex,
      pn_fb = \<lparr>root_worker_message = (\<lambda>_. None), root_parsed_event = (\<lambda>_. None), root_nostr_event = (\<lambda>_. None)\<rparr>,
      pn_to_lowercase = id, pn_parse = (\<lambda>_ _. ParseFailed), pn_build_parsed = (\<lambda>_ _. None),
      pn_build_raw = (\<lambda>_ _. []), pn_count_response = (\<lambda>n k y. [ucast n, ucast k, of_bool y])\<rparr>"

definition text_note :: "u8 \<Rightarrow> u64 \<Rightarrow> unit pipeline_event" where
  "text_note author now = from_raw (sample_event\<lparr>ev_pubkey := [author], ev_created_at := now\<rparr>) None"

lemma text_note_simps [simp]:
  "nostr_event_of (text_note a now) = Some (sample_event\<lparr>ev_pubkey := [a], ev_created_at := now\<rparr>)"
  by (simp add: text_note_def from_raw_def nostr_event_of_def)

lemma example_key: "key_hex example_env [a] = hex_encode std_hex [a]"
  by (simp add: key_hex_def example_env_def)

lemma example_key_simps:
  "key_hex example_env [1] = [0x30, 0x31]" "key_hex example_env [2] = [0x30, 0x32]"
  by code_simp+

theorem chat_limiter_forwards_witness:
  "snd (pipe_run (chat_limiter_process example_env (\<lambda>_. [])) [text_note 1 5, text_note 2 6, text_note 1 4] (chat_limiter_new [] 1 2 [])) =
     [Ok (POEvent (text_note 1 5)), Ok (POEvent (text_note 2 6)), Ok PODrop]"
proof -
  have "map (chat_of example_env (chat_limiter_new [] 1 2 [])) [text_note 1 5, text_note 2 6, text_note 1 4] =
      map Some [([0x30, 0x31], 5), ([0x30, 0x32], 6), ([0x30, 0x31], 4)]"
    by (simp add: chat_of_def should_limit_kind_def chat_id_def chat_limiter_new_def example_key_simps)
  note run = chat_limiter_forwards [OF this refl, of "\<lambda>_. []"]
  have two: "max 2 (1 :: u32) = 2" by code_simp
  show ?thesis
    by (rule trans [OF run]) (simp_all add: two card_insert_if chat_passes_def times_of_def)
qed

theorem chat_limiter_bounded_witness:
  "fcard (fmdom (chat_trackers (fold (chat_step example_env (\<lambda>m. sorted_list_of_fset (fmdom m)))
      [ChatEvent (text_note 1 5), ChatEvent (text_note 2 6)] (chat_limiter_new [] 1 1 [])))) \<le> 1"
  using chat_limiter_bounded [of "\<lambda>m. sorted_list_of_fset (fmdom m)", OF _ refl, of example_env
      "[ChatEvent (text_note 1 5), ChatEvent (text_note 2 6)]" "[]" 1 1 "[]"]
  by simp

theorem counter_exact_witness:
  "build_count_response example_env 1
     (fold (counter_step example_env) [CountEvent (text_note 1 5), CountEose, CountEvent (text_note 2 6)] (counter_new [1] [0x30, 0x31])) =
   [2, 1, 1]"
  using counter_exact [OF refl _ refl, of 1 "[1]" example_env
      "[CountEvent (text_note 1 5), CountEose, CountEvent (text_note 2 6)]" "[0x30, 0x31]"]
  by (simp add: sample_event_def example_key_simps) (simp add: example_env_def)

theorem npub_limit_not_enforced_witness:
  "snd (pipe_run (npub_limiter_process example_env) [text_note 1 30, text_note 1 20]
     (fst (npub_limiter_process example_env (text_note 1 10) (npub_limiter_new 1 1 KeyAuthor)))) =
   [Ok (POEvent (text_note 1 30)), Ok (POEvent (text_note 1 20))]"
  using npub_limit_not_enforced [of "fst (npub_limiter_process example_env (text_note 1 10) (npub_limiter_new 1 1 KeyAuthor))"
      "[0x30, 0x31]" "\<lparr>nt_last_forwarded_timestamp = Some 10, nt_forwarded_count = 1\<rparr>" 10 "[text_note 1 30, text_note 1 20]" example_env]
  by (simp add: npub_limiter_process_def npub_limiter_new_def npub_entry_def npub_track_def limited_by_def limiter_key_def
      sample_event_def example_key_simps)

end
