(* ===== verification/Proof_Pipe.thy ===== *)
theory Proof_Pipe
  imports Pipe_Types
begin

text \<open>
  The pipe that verifies the proofs of Cashu events, after \<open>core/src/pipeline/pipes/proof_verification.rs\<close>.
  Parameters: the clock and the HTTP request for the keys of a mint, both indexed by the number of the
  call (the clock is read before and after a request); the DLEQ check of one proof, which is curve arithmetic of the \<open>k256\<close> crate; the FlatBuffers
  accessors and builder; and the iteration orders of the hash maps.
\<close>

section \<open>State and environment\<close>

record proof_verification_pipe =
  pf_seen_proofs :: "bytes fset"
  pf_pending_verifications :: "(bytes, bytes) fmap"
  pf_pending_proofs :: "(bytes, (bytes, cashu_proof) fmap) fmap"
  pf_max_proofs :: nat
  pf_verification_running :: bool
  pf_mint_keys_cache :: "(bytes, bytes) fmap"
  pf_mint_key_failures :: "(bytes, u64) fmap"
  pf_calls :: nat

record proof_env =
  vn_fb :: fb_codec
  vn_kind_9321 :: "bytes \<Rightarrow> (bytes \<times> cashu_proof list) option"
  vn_kind_7375 :: "bytes \<Rightarrow> (bytes \<times> cashu_proof list \<times> bool) option"
  vn_now_millis :: "nat \<Rightarrow> u64"
  vn_fetch :: "nat \<Rightarrow> bytes \<Rightarrow> nostr_error + bytes"
  vn_verify :: "cashu_proof \<Rightarrow> bytes \<Rightarrow> nostr_error + bytes"
  vn_any_secret :: "bytes fset \<Rightarrow> bytes option"
  vn_mint_order :: "(bytes, (bytes, cashu_proof) fmap) fmap \<Rightarrow> bytes list"
  vn_secret_order :: "(bytes, cashu_proof) fmap \<Rightarrow> bytes list"
  vn_valid_order :: "(bytes, cashu_proof list) fmap \<Rightarrow> bytes list"
  vn_build_valid_proofs :: "(bytes \<times> cashu_proof list) list \<Rightarrow> bytes"

definition MINT_KEY_FAILURE_BACKOFF_MS :: u64 where
  "MINT_KEY_FAILURE_BACKOFF_MS = 30000"

definition proof_verification_new :: "nat \<Rightarrow> proof_verification_pipe" where
  "proof_verification_new max_proofs =
     \<lparr>pf_seen_proofs = {||}, pf_pending_verifications = fmempty, pf_pending_proofs = fmempty,
      pf_max_proofs = max_proofs, pf_verification_running = False, pf_mint_keys_cache = fmempty,
      pf_mint_key_failures = fmempty, pf_calls = 0\<rparr>"

section \<open>Mint keys\<close>

definition in_backoff :: "proof_env \<Rightarrow> bytes \<Rightarrow> proof_verification_pipe \<Rightarrow> bool" where
  "in_backoff env mint_url s =
     (case fmlookup (pf_mint_key_failures s) mint_url of
        Some retry_after_ms \<Rightarrow> vn_now_millis env (2 * pf_calls s) < retry_after_ms
      | None \<Rightarrow> False)"

definition fetch_mint_keys_json ::
  "proof_env \<Rightarrow> bytes \<Rightarrow> proof_verification_pipe \<Rightarrow> proof_verification_pipe \<times> (nostr_error + bytes)" where
  "fetch_mint_keys_json env mint_url s =
     (case fmlookup (pf_mint_keys_cache s) mint_url of
        Some keys \<Rightarrow> (s, Ok keys)
      | None \<Rightarrow>
          if in_backoff env mint_url s then
            (s\<lparr>pf_calls := pf_calls s + 1\<rparr>, Err (NostrOther ''mint key fetch recently failed''))
          else
            (case vn_fetch env (pf_calls s) mint_url of
               Err e \<Rightarrow>
                 (s\<lparr>pf_calls := pf_calls s + 1,
                    pf_mint_key_failures := fmupd mint_url
                      (vn_now_millis env (2 * pf_calls s + 1) + MINT_KEY_FAILURE_BACKOFF_MS) (pf_mint_key_failures s)\<rparr>, Err e)
             | Ok keys \<Rightarrow>
                 (s\<lparr>pf_calls := pf_calls s + 1,
                    pf_mint_keys_cache := fmupd mint_url keys (pf_mint_keys_cache s),
                    pf_mint_key_failures := fmdrop mint_url (pf_mint_key_failures s)\<rparr>, Ok keys)))"

section \<open>Adding proofs\<close>

definition evict_seen :: "proof_env \<Rightarrow> proof_verification_pipe \<Rightarrow> proof_verification_pipe" where
  "evict_seen env s =
     (if fcard (pf_seen_proofs s) \<ge> pf_max_proofs s then
        (case vn_any_secret env (pf_seen_proofs s) of
           None \<Rightarrow> s
         | Some old \<Rightarrow>
             s\<lparr>pf_seen_proofs := pf_seen_proofs s |-| {|old|},
               pf_pending_verifications := fmdrop old (pf_pending_verifications s),
               pf_pending_proofs := fmmap (fmdrop old) (pf_pending_proofs s)\<rparr>)
      else s)"

fun collect_new ::
  "proof_env \<Rightarrow> cashu_proof list \<Rightarrow> proof_verification_pipe \<Rightarrow> proof_verification_pipe \<times> cashu_proof list" where
  "collect_new env [] s = (s, [])"
| "collect_new env (p # ps) s =
     (if pr_secret p |\<in>| pf_seen_proofs s then collect_new env ps s
      else (let (s, new) = collect_new env ps (evict_seen env s) in (s, p # new)))"

definition mint_pending :: "bytes \<Rightarrow> proof_verification_pipe \<Rightarrow> (bytes, cashu_proof) fmap" where
  "mint_pending mint_url s = (case fmlookup (pf_pending_proofs s) mint_url of Some m \<Rightarrow> m | None \<Rightarrow> fmempty)"

definition record_result ::
  "bytes \<Rightarrow> cashu_proof \<times> (nostr_error + bytes) \<Rightarrow> proof_verification_pipe \<Rightarrow> proof_verification_pipe" where
  "record_result mint_url r s =
     (let (p, result) = r; secret = pr_secret p;
          seen = s\<lparr>pf_seen_proofs := finsert secret (pf_seen_proofs s)\<rparr>
      in case result of
           Err e \<Rightarrow> seen
         | Ok y \<Rightarrow>
             if y = [] then seen
             else seen\<lparr>pf_pending_verifications := fmupd secret y (pf_pending_verifications s),
                       pf_pending_proofs := fmupd mint_url (fmupd secret p (mint_pending mint_url s)) (pf_pending_proofs s)\<rparr>)"

definition add_proofs ::
  "proof_env \<Rightarrow> cashu_proof list \<Rightarrow> bytes \<Rightarrow> proof_verification_pipe \<Rightarrow> proof_verification_pipe \<times> (nostr_error + unit)" where
  "add_proofs env proofs mint_url s =
     (if proofs = [] then (s, Ok ())
      else
        (case fetch_mint_keys_json env mint_url s of
           (s, Err e) \<Rightarrow> (s, Err (NostrOther ''Failed to fetch mint keys''))
         | (s, Ok keys) \<Rightarrow>
             (let (s, new_proofs) = collect_new env proofs s;
                  results = map (\<lambda>p. (p, vn_verify env p keys)) new_proofs
              in (fold (record_result mint_url) results s, Ok ()))))"

section \<open>Emitting the verified proofs\<close>

definition verified_of :: "proof_env \<Rightarrow> proof_verification_pipe \<Rightarrow> bytes \<Rightarrow> cashu_proof list" where
  "verified_of env s mint_url =
     (let m = mint_pending mint_url s
      in List.map_filter (\<lambda>secret.
           case (fmlookup m secret, fmlookup (pf_pending_verifications s) secret) of
             (Some p, Some y) \<Rightarrow> if y \<noteq> [] then Some p else None
           | _ \<Rightarrow> None) (vn_secret_order env m))"

definition valid_proofs :: "proof_env \<Rightarrow> proof_verification_pipe \<Rightarrow> (bytes, cashu_proof list) fmap" where
  "valid_proofs env s =
     fold (\<lambda>mint m. if verified_of env s mint = [] then m else fmupd mint (verified_of env s mint) m)
       (vn_mint_order env (pf_pending_proofs s)) fmempty"

definition emitted_proofs :: "proof_env \<Rightarrow> proof_verification_pipe \<Rightarrow> (bytes \<times> cashu_proof list) list" where
  "emitted_proofs env s =
     (let v = valid_proofs env s
      in List.map_filter (\<lambda>mint. map_option (\<lambda>ps. (mint, ps)) (fmlookup v mint)) (vn_valid_order env v))"

definition verify_pending_proofs :: "proof_env \<Rightarrow> proof_verification_pipe \<Rightarrow> proof_verification_pipe \<times> bytes" where
  "verify_pending_proofs env s =
     (s\<lparr>pf_pending_proofs := fmempty, pf_pending_verifications := fmempty, pf_verification_running := False\<rparr>,
      vn_build_valid_proofs env (emitted_proofs env s))"

section \<open>The pipe\<close>

definition event_proofs :: "'p parsed_ev \<Rightarrow> cashu_proof list \<times> bytes" where
  "event_proofs p =
     (if ev_kind (pv_event p) = 9321 then
        (case pv_parsed p of Some (Kind9321 k) \<Rightarrow> (k9_proofs k, k9_mint_url k) | _ \<Rightarrow> ([], []))
      else if ev_kind (pv_event p) = 7375 then
        (case pv_parsed p of
           Some (Kind7375 k) \<Rightarrow> if k7_decrypted k then (k7_proofs k, k7_mint_url k) else ([], [])
         | _ \<Rightarrow> ([], []))
      else ([], []))"

definition track_proofs :: "proof_env \<Rightarrow> cashu_proof list \<times> bytes \<Rightarrow> proof_verification_pipe \<Rightarrow> proof_verification_pipe" where
  "track_proofs env x s =
     (let (proofs, mint_url) = x
      in if proofs \<noteq> [] \<and> mint_url \<noteq> [] then fst (add_proofs env proofs mint_url s) else s)"

definition emit_pending :: "proof_env \<Rightarrow> proof_verification_pipe \<Rightarrow> proof_verification_pipe \<times> bytes option" where
  "emit_pending env s =
     (if pf_pending_verifications s \<noteq> fmempty \<and> \<not> pf_verification_running s then
        (let (s, out) = verify_pending_proofs env s in (s, if out \<noteq> [] then Some out else None))
      else (s, None))"

definition proof_process :: "proof_env \<Rightarrow> ('p, proof_verification_pipe) processor" where
  "proof_process env e s =
     (let s = (case px_parsed e of Some p \<Rightarrow> track_proofs env (event_proofs p) s | None \<Rightarrow> s);
          (s, out) = emit_pending env s
      in (s, Ok (case out of Some d \<Rightarrow> PODirect d | None \<Rightarrow> PODrop)))"

definition cached_proofs :: "proof_env \<Rightarrow> bytes \<Rightarrow> cashu_proof list \<times> bytes" where
  "cached_proofs env msg =
     (case root_worker_message (vn_fb env) msg of
        Some (WmParsed (Some p)) \<Rightarrow>
          if pe_kind p = 9321 then
            (case vn_kind_9321 env msg of Some (mint_url, proofs) \<Rightarrow> (proofs, mint_url) | None \<Rightarrow> ([], []))
          else if pe_kind p = 7375 then
            (case vn_kind_7375 env msg of
               Some (mint_url, proofs, decrypted) \<Rightarrow> if decrypted then (proofs, mint_url) else ([], [])
             | None \<Rightarrow> ([], []))
          else ([], [])
      | _ \<Rightarrow> ([], []))"

definition proof_cached_batch ::
  "proof_env \<Rightarrow> bytes list \<Rightarrow> proof_verification_pipe \<Rightarrow> proof_verification_pipe \<times> bytes list" where
  "proof_cached_batch env messages s =
     (let (s, out) = emit_pending env (fold (\<lambda>m. track_proofs env (cached_proofs env m)) messages s)
      in (s, case out of Some d \<Rightarrow> [d] | None \<Rightarrow> []))"

section \<open>Only verified proofs are pending\<close>

definition verified :: "proof_env \<Rightarrow> bytes \<Rightarrow> cashu_proof \<Rightarrow> bool" where
  "verified env mint p = (\<exists>n keys y. vn_fetch env n mint = Ok keys \<and> vn_verify env p keys = Ok y \<and> y \<noteq> [])"

definition keys_ok :: "proof_env \<Rightarrow> proof_verification_pipe \<Rightarrow> bool" where
  "keys_ok env s = (\<forall>mint keys. fmlookup (pf_mint_keys_cache s) mint = Some keys \<longrightarrow> (\<exists>n. vn_fetch env n mint = Ok keys))"

definition pending_ok :: "proof_env \<Rightarrow> proof_verification_pipe \<Rightarrow> bool" where
  "pending_ok env s = (\<forall>mint secret p. fmlookup (mint_pending mint s) secret = Some p \<longrightarrow> verified env mint p)"

definition proof_ok :: "proof_env \<Rightarrow> proof_verification_pipe \<Rightarrow> bool" where
  "proof_ok env s = (keys_ok env s \<and> pending_ok env s)"

lemma fetch_ok:
  assumes "fetch_mint_keys_json env mint s = (s', r)" "proof_ok env s"
  shows "proof_ok env s' \<and> pf_seen_proofs s' = pf_seen_proofs s \<and> (\<forall>keys. r = Ok keys \<longrightarrow> (\<exists>n. vn_fetch env n mint = Ok keys))"
  using assms
  by (auto simp: fetch_mint_keys_json_def proof_ok_def keys_ok_def pending_ok_def mint_pending_def
      split: option.splits if_splits sum.splits)

lemma evict_ok: "proof_ok env s \<Longrightarrow> proof_ok env (evict_seen env s)"
  by (auto simp: evict_seen_def proof_ok_def keys_ok_def pending_ok_def mint_pending_def split: option.split if_splits)

lemma collect_ok: "proof_ok env s \<Longrightarrow> proof_ok env (fst (collect_new env ps s))"
  by (induction ps arbitrary: s) (auto simp: split_beta evict_ok)

lemma record_ok:
  assumes "proof_ok env s" "vn_fetch env n mint = Ok keys"
  shows "proof_ok env (record_result mint (p, vn_verify env p keys) s)"
proof (cases "\<exists>y. vn_verify env p keys = Ok y \<and> y \<noteq> []")
  case True
  then have v: "verified env mint p" using assms(2) by (auto simp: verified_def)
  from True obtain y where y: "vn_verify env p keys = Ok y" "y \<noteq> []" by blast
  let ?s' = "record_result mint (p, vn_verify env p keys) s"
  have "mint_pending m ?s' = (if m = mint then fmupd (pr_secret p) p (mint_pending mint s) else mint_pending m s)" for m
    by (simp add: record_result_def y mint_pending_def Let_def)
  moreover have "pf_mint_keys_cache ?s' = pf_mint_keys_cache s" by (simp add: record_result_def y Let_def)
  ultimately show ?thesis using assms(1) v by (auto simp: proof_ok_def keys_ok_def pending_ok_def split: if_splits)
next
  case False
  then show ?thesis using assms(1)
    by (auto simp: record_result_def Let_def proof_ok_def keys_ok_def pending_ok_def mint_pending_def split: sum.split)
qed

lemma records_ok:
  "proof_ok env s \<Longrightarrow> vn_fetch env n mint = Ok keys \<Longrightarrow>
     proof_ok env (fold (record_result mint) (map (\<lambda>p. (p, vn_verify env p keys)) ps) s)"
  by (induction ps arbitrary: s) (simp_all add: record_ok)

lemma add_proofs_ok:
  assumes "proof_ok env s" shows "proof_ok env (fst (add_proofs env proofs mint s))"
proof -
  obtain s1 r where f: "fetch_mint_keys_json env mint s = (s1, r)" by (cases "fetch_mint_keys_json env mint s")
  note ok = fetch_ok [OF f assms]
  show ?thesis
  proof (cases r)
    case (Inr keys)
    then obtain n where "vn_fetch env n mint = Ok keys" using ok by auto
    then show ?thesis using records_ok [of env "fst (collect_new env proofs s1)" n mint keys] ok assms
      by (simp add: add_proofs_def f Inr split_beta collect_ok)
  qed (use ok f assms in \<open>simp add: add_proofs_def\<close>)
qed

lemma track_ok: "proof_ok env s \<Longrightarrow> proof_ok env (track_proofs env x s)"
  by (simp add: track_proofs_def split_beta add_proofs_ok)

lemma emit_ok: "proof_ok env s \<Longrightarrow> proof_ok env (fst (emit_pending env s))"
  by (simp add: emit_pending_def verify_pending_proofs_def proof_ok_def keys_ok_def pending_ok_def mint_pending_def)

lemma proof_new_ok: "proof_ok env (proof_verification_new n)"
  by (simp add: proof_verification_new_def proof_ok_def keys_ok_def pending_ok_def mint_pending_def)

interpretation proof_pipe: pipe "proof_process env" "\<lambda>_. True" "proof_ok env" for env
  by unfold_locales
    (auto simp: proof_process_def split_beta Let_def intro!: emit_ok track_ok split: option.splits)

lemma fold_upd_lookup:
  "fmlookup (fold (\<lambda>x m. if f x = [] then m else fmupd x (f x) m) xs m0) k = Some v \<Longrightarrow>
     v = f k \<or> fmlookup m0 k = Some v"
proof (induction xs arbitrary: m0)
  case (Cons x xs)
  define m1 where "m1 = (if f x = [] then m0 else fmupd x (f x) m0)"
  have "v = f k \<or> fmlookup m1 k = Some v" by (rule Cons.IH) (use Cons.prems in \<open>simp add: m1_def\<close>)
  then show ?case by (auto simp: m1_def split: if_splits)
qed simp

lemma emitted_verified:
  assumes "proof_ok env s" "(mint, ps) \<in> set (emitted_proofs env s)" "p \<in> set ps"
  shows "verified env mint p"
proof -
  have "ps = verified_of env s mint"
    using assms(2) fold_upd_lookup [of "verified_of env s" _ fmempty mint ps]
    by (auto simp: emitted_proofs_def valid_proofs_def Let_def List.map_filter_def)
  then show ?thesis
    using assms(1,3) by (auto simp: verified_of_def Let_def proof_ok_def pending_ok_def List.map_filter_def
        split: option.splits if_splits)
qed

lemma emit_builds:
  assumes "proof_ok env s" "snd (emit_pending env s) = Some d"
  shows "\<exists>vs. d = vn_build_valid_proofs env vs \<and> (\<forall>(mint, ps) \<in> set vs. \<forall>p \<in> set ps. verified env mint p)"
  using assms emitted_verified [OF assms(1)]
  by (auto simp: emit_pending_def verify_pending_proofs_def split: if_splits)

datatype 'p proof_op = ProofEvent "'p pipeline_event" | ProofCached "bytes list"

fun proof_step :: "proof_env \<Rightarrow> 'p proof_op \<Rightarrow> proof_verification_pipe \<Rightarrow> proof_verification_pipe" where
  "proof_step env (ProofEvent e) s = fst (proof_process env e s)"
| "proof_step env (ProofCached ms) s = fst (proof_cached_batch env ms s)"

fun proof_outputs :: "proof_env \<Rightarrow> 'p proof_op \<Rightarrow> proof_verification_pipe \<Rightarrow> bytes set" where
  "proof_outputs env (ProofEvent e) s = {d. snd (proof_process env e s) = Ok (PODirect d)}"
| "proof_outputs env (ProofCached ms) s = set (snd (proof_cached_batch env ms s))"

lemma track_all_ok: "proof_ok env s \<Longrightarrow> proof_ok env (fold (\<lambda>m. track_proofs env (f m)) ms s)"
  by (induction ms arbitrary: s) (simp_all add: track_ok)

lemma proof_step_ok: "proof_ok env s \<Longrightarrow> proof_ok env (proof_step env op s)"
  by (cases op)
    (auto simp: proof_process_def proof_cached_batch_def split_beta Let_def intro!: emit_ok track_ok track_all_ok split: option.split)

lemma proof_outputs_emit:
  "d \<in> proof_outputs env op s \<Longrightarrow> proof_ok env s \<Longrightarrow>
     \<exists>s1. proof_ok env s1 \<and> snd (emit_pending env s1) = Some d"
  by (cases op)
    (auto simp: proof_process_def proof_cached_batch_def split_beta Let_def dest: track_ok track_all_ok split: option.splits)

text \<open>C23. Whatever events and cached messages arrive, a message of the pipe carries only proofs that the
  DLEQ check accepted under keys fetched from the mint they are listed for.\<close>

theorem only_verified_proofs_emitted:
  assumes "s = fold (proof_step env) ops (proof_verification_new max_proofs)" "d \<in> proof_outputs env op s"
  shows "\<exists>vs. d = vn_build_valid_proofs env vs \<and> (\<forall>(mint, ps) \<in> set vs. \<forall>p \<in> set ps. verified env mint p)"
proof -
  have "proof_ok env (fold (proof_step env) ops s0)" if "proof_ok env s0" for s0
    using that by (induction ops arbitrary: s0) (simp_all add: proof_step_ok)
  then have "proof_ok env s" by (simp add: assms(1) proof_new_ok)
  then show ?thesis using proof_outputs_emit [OF assms(2)] emit_builds by blast
qed

text \<open>
  \<open>max_proofs\<close> does not bound the remembered secrets: the room is made before any secret of the event is
  inserted, so an event of several new proofs leaves all of them in the set.
\<close>

lemma evict_seen_subset: "pf_seen_proofs (evict_seen env s) |\<subseteq>| pf_seen_proofs s"
  by (auto simp: evict_seen_def split: option.split)

lemma collect_all_new:
  "\<forall>p \<in> set ps. pr_secret p |\<notin>| pf_seen_proofs s \<Longrightarrow> snd (collect_new env ps s) = ps"
proof (induction ps arbitrary: s)
  case (Cons p ps)
  then have "\<forall>q \<in> set ps. pr_secret q |\<notin>| pf_seen_proofs (evict_seen env s)"
    using evict_seen_subset by fastforce
  from Cons.IH [OF this] Cons.prems show ?case by (simp add: split_beta)
qed simp

lemma record_seen:
  "pf_seen_proofs (record_result mint x s) = finsert (pr_secret (fst x)) (pf_seen_proofs s)"
  by (simp add: record_result_def split_beta Let_def split: sum.split)

lemma records_seen:
  "pf_seen_proofs (fold (record_result mint) xs s) = fset_of_list (map (pr_secret \<circ> fst) xs) |\<union>| pf_seen_proofs s"
  by (induction xs arbitrary: s) (auto simp: record_seen)

lemma seen_exceeds_limit:
  assumes "proof_ok env s" "fetch_mint_keys_json env mint s = (s1, Ok keys)" "proofs \<noteq> []"
    "\<forall>p \<in> set proofs. pr_secret p |\<notin>| pf_seen_proofs s"
  shows "fset_of_list (map pr_secret proofs) |\<subseteq>| pf_seen_proofs (fst (add_proofs env proofs mint s))"
proof -
  have "pf_seen_proofs s1 = pf_seen_proofs s" using fetch_ok [OF assms(2,1)] by simp
  then have "snd (collect_new env proofs s1) = proofs" using collect_all_new assms(4) by simp
  then show ?thesis by (auto simp: add_proofs_def assms split_beta records_seen comp_def)
qed

section \<open>Example\<close>

definition example_proof :: cashu_proof where
  "example_proof = \<lparr>pr_amount = 1, pr_secret = [7], pr_c = [], pr_id = None, pr_version = None, pr_dleq = None, pr_witness = None\<rparr>"

definition example_proof_env :: proof_env where
  "example_proof_env =
     \<lparr>vn_fb = \<lparr>root_worker_message = (\<lambda>_. None), root_parsed_event = (\<lambda>_. None), root_nostr_event = (\<lambda>_. None)\<rparr>,
      vn_kind_9321 = (\<lambda>_. None), vn_kind_7375 = (\<lambda>_. None), vn_now_millis = of_nat, vn_fetch = (\<lambda>_ _. Ok [1]),
      vn_verify = (\<lambda>p _. Ok (pr_secret p)), vn_any_secret = (\<lambda>_. None), vn_mint_order = (\<lambda>_. [[9]]),
      vn_secret_order = (\<lambda>_. [[7]]), vn_valid_order = (\<lambda>_. [[9]]),
      vn_build_valid_proofs = concat \<circ> map (\<lambda>(m, ps). m @ concat (map pr_secret ps))\<rparr>"

definition nutzap :: "unit pipeline_event" where
  "nutzap = from_parsed \<lparr>pv_event = sample_event\<lparr>ev_kind := 9321\<rparr>,
     pv_parsed = Some (Kind9321 \<lparr>k9_mint_url = [9], k9_proofs = [example_proof]\<rparr>), pv_rest = ()\<rparr>"

lemma nutzap_output:
  "[9, 7] \<in> proof_outputs example_proof_env (ProofEvent nutzap) (proof_verification_new 5)"
  by (simp add: proof_process_def nutzap_def from_parsed_def event_proofs_def track_proofs_def add_proofs_def
      fetch_mint_keys_json_def in_backoff_def emit_pending_def verify_pending_proofs_def emitted_proofs_def valid_proofs_def
      verified_of_def mint_pending_def record_result_def evict_seen_def Let_def List.map_filter_def
      proof_verification_new_def example_proof_env_def example_proof_def fcard_fempty)

theorem only_verified_proofs_emitted_witness:
  "\<exists>vs. [9, 7] = vn_build_valid_proofs example_proof_env vs
     \<and> (\<forall>(mint, ps) \<in> set vs. \<forall>p \<in> set ps. verified example_proof_env mint p)"
  by (rule only_verified_proofs_emitted [where ops = "[]" and max_proofs = 5, OF _ nutzap_output]) simp

end
