(* ===== verification/Pipeline.thy ===== *)
theory Pipeline
  imports Pipe_Filters Proof_Pipe Sub_Dedup
begin

text \<open>
  The pipeline of a subscription, after \<open>core/src/pipeline/mod.rs\<close> and the pipes \<open>parse.rs\<close>,
  \<open>save_to_db.rs\<close> and \<open>serialize_events.rs\<close>. The sets of seen ids, which pages of a subscription share by
  reference, live in a store and a pipeline holds an index into it. An outer \<open>None\<close> is a panic. The theory
  shows that an accepted pipeline never fails for its shape, that every event id completes at most once
  among the pipelines that share a set, and what a failure leaves behind.
\<close>

section \<open>Parsing, saving and serialising\<close>

record parse_pipe =
  pp_calls :: nat

definition parse_process :: "'p pipe_env \<Rightarrow> ('p, parse_pipe) processor" where
  "parse_process env e s =
     (if is_parsed e then (s, Ok (POEvent e))
      else
        (case px_raw e of
           None \<Rightarrow> (s, Ok PODrop)
         | Some raw \<Rightarrow>
             (s\<lparr>pp_calls := pp_calls s + 1\<rparr>,
              case pn_parse env (pp_calls s) raw of
                ParsedOk p \<Rightarrow> Ok (POEvent (e\<lparr>px_raw := None, px_parsed := Some p\<rparr>))
              | ParseCrypto msg \<Rightarrow> Err (NostrOther msg)
              | ParseFailed \<Rightarrow> Ok PODrop)))"

record save_to_db_pipe =
  sp_to_cache :: "bytes list"

definition build_message :: "'p pipe_env \<Rightarrow> 'p pipeline_event \<Rightarrow> (bytes \<times> bool) option" where
  "build_message env e =
     (case px_parsed e of
        Some p \<Rightarrow>
          (case pn_build_parsed env (Some ''save_to_db'') p of
             Some b \<Rightarrow> Some (b, True)
           | None \<Rightarrow> Some (pn_build_raw env (Some ''save_to_db'') (pv_event p), False))
      | None \<Rightarrow>
          (case px_raw e of
             Some raw \<Rightarrow> Some (pn_build_raw env (Some ''save_to_db'') raw, False)
           | None \<Rightarrow> None))"

definition save_process :: "'p pipe_env \<Rightarrow> ('p, save_to_db_pipe) processor" where
  "save_process env e s =
     (case build_message env e of
        None \<Rightarrow> (s, Ok (POEvent e))
      | Some (b, parsed) \<Rightarrow>
          (s\<lparr>sp_to_cache := sp_to_cache s @ [frame TAG_PERSIST b]\<rparr>,
           Ok (POEvent (if parsed then e\<lparr>px_serialized := Some b\<rparr> else e))))"

record serialize_events_pipe =
  se_subscription_id :: bytes

definition MAX_FLATBUFFER :: nat where
  "MAX_FLATBUFFER = 512 * 1024"

definition guarded_output :: "bytes \<Rightarrow> 'p pipe_output" where
  "guarded_output d = (if length d > MAX_FLATBUFFER then PODrop else PODirect d)"

definition serialize_process :: "'p pipe_env \<Rightarrow> ('p, serialize_events_pipe) processor" where
  "serialize_process env e s =
     (s, case px_serialized e of
           Some d \<Rightarrow> Ok (guarded_output d)
         | None \<Rightarrow>
             (case px_parsed e of
                Some p \<Rightarrow>
                  (case pn_build_parsed env None p of
                     None \<Rightarrow> Err (NostrOther ''build'')
                   | Some d \<Rightarrow> Ok (guarded_output d))
              | None \<Rightarrow>
                  (case px_raw e of
                     Some raw \<Rightarrow> Ok (guarded_output (pn_build_raw env None raw))
                   | None \<Rightarrow> Ok PODrop)))"

interpretation parse: pipe "parse_process env" "\<lambda>_. False" "\<lambda>_. True" for env
  by unfold_locales (auto simp: parse_process_def split: option.splits if_splits parse_outcome.splits)

interpretation save: pipe "save_process env" "\<lambda>_. False" "\<lambda>_. True" for env
  by unfold_locales (auto simp: save_process_def split: option.splits if_splits prod.splits)

interpretation serialize: pipe "serialize_process env" "\<lambda>_. True" "\<lambda>_. True" for env
  by unfold_locales (auto simp: serialize_process_def guarded_output_def split: option.splits if_splits)

section \<open>All pipes\<close>

datatype pipe_type =
    Parse parse_pipe
  | SaveToDb save_to_db_pipe
  | SerializeEvents serialize_events_pipe
  | ProofVerification proof_verification_pipe
  | Counter counter_pipe
  | ChatLimiter chat_limiter_pipe
  | KindFilter kind_filter_pipe
  | NpubLimiter npub_limiter_pipe
  | MuteFilter mute_filter_pipe

text \<open>The environments of the pipes, and the iteration orders of the hash maps of the limiter and the counter.\<close>

record 'p pipeline_env =
  lv_pipe :: "'p pipe_env"
  lv_proof :: proof_env
  lv_chat_order :: "(bytes, chat_tracker) fmap \<Rightarrow> bytes list"
  lv_kind_order :: "u16 fset \<Rightarrow> u16 list"

fun pipe_process :: "'p pipeline_env \<Rightarrow> ('p, pipe_type) processor" where
  "pipe_process env e (Parse s) = apfst Parse (parse_process (lv_pipe env) e s)"
| "pipe_process env e (SaveToDb s) = apfst SaveToDb (save_process (lv_pipe env) e s)"
| "pipe_process env e (SerializeEvents s) = apfst SerializeEvents (serialize_process (lv_pipe env) e s)"
| "pipe_process env e (ProofVerification s) = apfst ProofVerification (proof_process (lv_proof env) e s)"
| "pipe_process env e (Counter s) = apfst Counter (counter_process (lv_pipe env) e s)"
| "pipe_process env e (ChatLimiter s) = apfst ChatLimiter (chat_limiter_process (lv_pipe env) (lv_chat_order env) e s)"
| "pipe_process env e (KindFilter s) = apfst KindFilter (kind_filter_process e s)"
| "pipe_process env e (NpubLimiter s) = apfst NpubLimiter (npub_limiter_process (lv_pipe env) e s)"
| "pipe_process env e (MuteFilter s) = apfst MuteFilter (mute_process (lv_pipe env) e s)"

fun pipe_cached_batch :: "'p pipeline_env \<Rightarrow> bytes list \<Rightarrow> pipe_type \<Rightarrow> pipe_type \<times> bytes list" where
  "pipe_cached_batch env ms (ProofVerification s) = apfst ProofVerification (proof_cached_batch (lv_proof env) ms s)"
| "pipe_cached_batch env ms (Counter s) = apfst Counter (counter_cached_batch (lv_pipe env) ms s)"
| "pipe_cached_batch env ms (ChatLimiter s) = apfst ChatLimiter (chat_cached_batch (lv_pipe env) (lv_chat_order env) ms s)"
| "pipe_cached_batch env ms (MuteFilter s) = (MuteFilter s, mute_cached_batch (lv_pipe env) s ms)"
| "pipe_cached_batch env ms p = (p, ms)"

fun can_direct_output :: "pipe_type \<Rightarrow> bool" where
  "can_direct_output (SerializeEvents s) = True"
| "can_direct_output (ProofVerification s) = True"
| "can_direct_output (Counter s) = True"
| "can_direct_output p = False"

fun run_for_cached_events :: "pipe_type \<Rightarrow> bool" where
  "run_for_cached_events (Parse s) = False"
| "run_for_cached_events (SaveToDb s) = False"
| "run_for_cached_events p = True"

fun pipe_flush :: "'p pipeline_env \<Rightarrow> pipe_type \<Rightarrow> bytes list" where
  "pipe_flush env (Counter s) = counter_flush (lv_pipe env) (lv_kind_order env (co_kinds s)) s"
| "pipe_flush env p = []"

fun pipe_on_eose :: "pipe_type \<Rightarrow> pipe_type" where
  "pipe_on_eose (Counter s) = Counter (counter_on_eose s)"
| "pipe_on_eose p = p"

fun pipe_ok :: "'p pipeline_env \<Rightarrow> pipe_type \<Rightarrow> bool" where
  "pipe_ok env (ProofVerification s) = proof_ok (lv_proof env) s"
| "pipe_ok env (Counter s) = counter_ok s"
| "pipe_ok env (ChatLimiter s) = chat_counts_ok s"
| "pipe_ok env (NpubLimiter s) = npub_ok s"
| "pipe_ok env p = True"

text \<open>The dispatcher inherits the contract from the pipes.\<close>

lemma apfst_eqD: "apfst f x = (a, b) \<Longrightarrow> \<exists>s. x = (s, b) \<and> a = f s"
  by (cases x) auto

interpretation any: pipe "pipe_process env" can_direct_output "pipe_ok env" for env
proof (unfold_locales, goal_cases)
  case (1 e s s' d)
  then show ?case
    by (cases s) (auto dest!: apfst_eqD dest: parse.direct_declared save.direct_declared chat.direct_declared
        kind_filter.direct_declared npub.direct_declared mute.direct_declared)
next
  case (2 e s s' r)
  then show ?case by (cases s) (auto dest!: apfst_eqD)
next
  case (3 e s s' e')
  then show ?case
    by (cases s) (auto dest!: apfst_eqD dest: parse.keeps_id save.keeps_id serialize.keeps_id proof_pipe.keeps_id
        counter.keeps_id chat.keeps_id kind_filter.keeps_id npub.keeps_id mute.keeps_id)
next
  case (4 s e s' r)
  then show ?case
    by (cases s) (auto dest!: apfst_eqD dest: proof_pipe.keeps_inv counter.keeps_inv chat.keeps_inv npub.keeps_inv)
qed

section \<open>The pipeline\<close>

type_synonym seen_store = "bytes fset list"

record pipeline =
  pl_pipes :: "pipe_type list"
  pl_subscription_id :: bytes
  pl_seen_ids :: nat
  pl_dedup_max_size :: nat

definition only_last_direct :: "pipe_type list \<Rightarrow> bool" where
  "only_last_direct pipes = list_all (\<lambda>p. \<not> can_direct_output p) (butlast pipes)"

definition pipeline_new :: "pipe_type list \<Rightarrow> bytes \<Rightarrow> seen_store \<Rightarrow> seen_store \<times> (nostr_error + pipeline)" where
  "pipeline_new pipes subscription_id st =
     (if only_last_direct pipes then
        (st @ [{||}],
         Ok \<lparr>pl_pipes = pipes, pl_subscription_id = subscription_id, pl_seen_ids = length st, pl_dedup_max_size = 10000\<rparr>)
      else (st, Err (NostrOther ''can produce DirectOutput but is not the last pipe'')))"

definition pipeline_default :: "bytes \<Rightarrow> seen_store \<Rightarrow> seen_store \<times> (nostr_error + pipeline)" where
  "pipeline_default subscription_id =
     pipeline_new [Parse \<lparr>pp_calls = 0\<rparr>, SaveToDb \<lparr>sp_to_cache = []\<rparr>,
       SerializeEvents \<lparr>se_subscription_id = subscription_id\<rparr>] subscription_id"

definition pipeline_proof_verification :: "bytes \<Rightarrow> nat \<Rightarrow> seen_store \<Rightarrow> seen_store \<times> (nostr_error + pipeline)" where
  "pipeline_proof_verification subscription_id max_proofs =
     pipeline_new [KindFilter (kind_filter_new [9321, 7375]), Parse \<lparr>pp_calls = 0\<rparr>,
       ProofVerification (proof_verification_new max_proofs)] subscription_id"

text \<open>How the loop over the pipes ends. The two errors differ in what happens to the seen id.\<close>

datatype loop_end = Finished "bytes option" | PipeFailed nostr_error | NonTerminal nostr_error

fun run_pipes :: "'p pipeline_env \<Rightarrow> pipe_type list \<Rightarrow> 'p pipeline_event \<Rightarrow> pipe_type list \<times> loop_end" where
  "run_pipes env [] e = ([], Finished None)"
| "run_pipes env (p # ps) e =
     (let (p', output) = pipe_process env e p
      in case output of
           Err x \<Rightarrow> (p' # ps, PipeFailed x)
         | Ok PODrop \<Rightarrow> (p' # ps, Finished None)
         | Ok (PODirect d) \<Rightarrow>
             if ps \<noteq> [] then (p' # ps, NonTerminal (NostrOther ''Non-terminal pipe produced DirectOutput''))
             else ([p'], Finished (Some d))
         | Ok (POEvent e') \<Rightarrow> (let (ps', r) = run_pipes env ps e' in (p' # ps', r)))"

definition decode_to_slice :: "'p pipeline_env \<Rightarrow> bytes \<Rightarrow> bytes option" where
  "decode_to_slice env id_hex =
     (case hex_decode (pn_hex (lv_pipe env)) id_hex of
        Some b \<Rightarrow> if length b = 32 then Some b else None
      | None \<Rightarrow> None)"

definition seen_of :: "pipeline \<Rightarrow> seen_store \<Rightarrow> bytes fset" where
  "seen_of pl st = st ! pl_seen_ids pl"

definition remember :: "pipeline \<Rightarrow> bytes \<Rightarrow> seen_store \<Rightarrow> seen_store" where
  "remember pl i st =
     (if fcard (seen_of pl st) < pl_dedup_max_size pl
      then st[pl_seen_ids pl := finsert i (seen_of pl st)] else st)"

definition forget :: "pipeline \<Rightarrow> bytes \<Rightarrow> seen_store \<Rightarrow> seen_store" where
  "forget pl i st = st[pl_seen_ids pl := seen_of pl st |-| {|i|}]"

definition run_event ::
  "'p pipeline_env \<Rightarrow> bytes \<Rightarrow> event \<Rightarrow> pipeline \<times> seen_store \<Rightarrow> (pipeline \<times> seen_store) \<times> (nostr_error + bytes option)" where
  "run_event env i ev x =
     (let (pl, st) = x; (pipes, r) = run_pipes env (pl_pipes pl) (from_raw ev None); pl = pl\<lparr>pl_pipes := pipes\<rparr>
      in case r of
           Finished out \<Rightarrow> ((pl, st), Ok out)
         | PipeFailed e \<Rightarrow> ((pl, forget pl i st), Err e)
         | NonTerminal e \<Rightarrow> ((pl, st), Err e))"

definition pipeline_process ::
  "'p pipeline_env \<Rightarrow> bytes \<Rightarrow> pipeline \<times> seen_store \<Rightarrow>
     ((pipeline \<times> seen_store) \<times> (nostr_error + bytes option)) option" where
  "pipeline_process env raw_event_json x =
     (let (pl, st) = x
      in case extract_event_id raw_event_json of
           None \<Rightarrow> None
         | Some None \<Rightarrow> Some (x, Ok None)
         | Some (Some id_hex) \<Rightarrow>
             (case decode_to_slice env id_hex of
                None \<Rightarrow> Some (x, Ok None)
              | Some i \<Rightarrow>
                  if i |\<in>| seen_of pl st then Some (x, Ok None)
                  else
                    (let st = remember pl i st
                     in case event_from_json (pn_hex (lv_pipe env)) raw_event_json of
                          None \<Rightarrow> None
                        | Some (Err _) \<Rightarrow> Some ((pl, st), Ok None)
                        | Some (Ok ev) \<Rightarrow> Some (run_event env i ev (pl, st)))))"

definition event_from_flatbuffer :: "hex_codec \<Rightarrow> nostr_event \<Rightarrow> types_error + event" where
  "event_from_flatbuffer h n =
     (if ne_id n = [] then Err (TypesInvalidFormat ''Missing event ID'')
      else
        (case event_id_from_hex h (ascii (ne_id n)) of
           Err e \<Rightarrow> Err e
         | Ok i \<Rightarrow>
             if ne_pubkey n = [] then Err (TypesInvalidFormat ''Missing pubkey'')
             else
               (case public_key_from_hex h (ascii (ne_pubkey n)) of
                  Err e \<Rightarrow> Err e
                | Ok pk \<Rightarrow>
                    Ok \<lparr>ev_id = i, ev_pubkey = pk, ev_created_at = scast (ne_created_at n), ev_kind = ne_kind n,
                        ev_tags = List.map_filter (map_option (map ascii)) (ne_tags n),
                        ev_content = ascii (ne_content n), ev_sig = ascii (ne_sig n)\<rparr>)))"

definition pipeline_process_bytes ::
  "'p pipeline_env \<Rightarrow> bytes \<Rightarrow> pipeline \<times> seen_store \<Rightarrow> (pipeline \<times> seen_store) \<times> (nostr_error + bytes option)" where
  "pipeline_process_bytes env raw_event_bytes x =
     (let (pl, st) = x
      in case root_worker_message (pn_fb (lv_pipe env)) raw_event_bytes of
           Some (WmNostr (Some n)) \<Rightarrow>
             (case event_from_flatbuffer (pn_hex (lv_pipe env)) n of
                Err _ \<Rightarrow> (x, Ok None)
              | Ok ev \<Rightarrow>
                  if ev_id ev |\<in>| seen_of pl st then (x, Ok None)
                  else run_event env (ev_id ev) ev (pl, remember pl (ev_id ev) st))
         | _ \<Rightarrow> (x, Ok None))"

section \<open>Cached messages\<close>

definition extract_parsed_event :: "'p pipeline_env \<Rightarrow> bytes \<Rightarrow> parsed_event option" where
  "extract_parsed_event env msg =
     (case root_worker_message (pn_fb (lv_pipe env)) msg of Some (WmParsed p) \<Rightarrow> p | _ \<Rightarrow> None)"

text \<open>The id under which a cached message is remembered.\<close>

definition cached_id :: "'p pipeline_env \<Rightarrow> bytes \<Rightarrow> bytes option" where
  "cached_id env msg =
     (case extract_parsed_event env msg of Some p \<Rightarrow> decode_to_slice env (ascii (pe_id p)) | None \<Rightarrow> None)"

definition remember_if_unseen :: "'p pipeline_env \<Rightarrow> pipeline \<Rightarrow> bytes \<Rightarrow> seen_store \<Rightarrow> seen_store \<times> bool" where
  "remember_if_unseen env pl msg st =
     (case cached_id env msg of
        None \<Rightarrow> (st, True)
      | Some i \<Rightarrow> if i |\<in>| seen_of pl st then (st, False) else (remember pl i st, True))"

fun unseen_messages :: "'p pipeline_env \<Rightarrow> pipeline \<Rightarrow> bytes list \<Rightarrow> seen_store \<Rightarrow> seen_store \<times> bytes list" where
  "unseen_messages env pl [] st = (st, [])"
| "unseen_messages env pl (m # ms) st =
     (let (st, fresh) = remember_if_unseen env pl m st; (st, out) = unseen_messages env pl ms st
      in (st, if fresh then m # out else out))"

fun cached_chain :: "'p pipeline_env \<Rightarrow> pipe_type list \<Rightarrow> bytes list \<Rightarrow> pipe_type list \<times> bytes list" where
  "cached_chain env [] ms = ([], ms)"
| "cached_chain env (p # ps) ms =
     (if run_for_cached_events p then
        (let (p, out) = pipe_cached_batch env ms p; (ps, out) = cached_chain env ps out in (p # ps, out))
      else (let (ps, out) = cached_chain env ps ms in (p # ps, out)))"

definition pipeline_cached_batch ::
  "'p pipeline_env \<Rightarrow> bytes list \<Rightarrow> pipeline \<times> seen_store \<Rightarrow> (pipeline \<times> seen_store) \<times> bytes list" where
  "pipeline_cached_batch env messages x =
     (let (pl, st) = x; (st, unseen) = unseen_messages env pl messages st
      in if unseen = [] then ((pl, st), [])
         else if \<not> list_ex run_for_cached_events (pl_pipes pl) then ((pl, st), [])
         else (let (pipes, out) = cached_chain env (pl_pipes pl) unseen in ((pl\<lparr>pl_pipes := pipes\<rparr>, st), out)))"

definition mark_as_seen :: "'p pipeline_env \<Rightarrow> pipeline \<Rightarrow> bytes \<Rightarrow> seen_store \<Rightarrow> seen_store" where
  "mark_as_seen env pl msg st = fst (remember_if_unseen env pl msg st)"

definition share_state_from :: "pipeline \<Rightarrow> pipeline \<Rightarrow> pipeline" where
  "share_state_from other pl = pl\<lparr>pl_seen_ids := pl_seen_ids other\<rparr>"

definition pipeline_flush :: "'p pipeline_env \<Rightarrow> pipeline \<Rightarrow> bytes list" where
  "pipeline_flush env pl = (if pl_pipes pl = [] then [] else pipe_flush env (last (pl_pipes pl)))"

definition pipeline_on_eose :: "pipeline \<Rightarrow> pipeline" where
  "pipeline_on_eose pl =
     (if pl_pipes pl = [] then pl
      else pl\<lparr>pl_pipes := butlast (pl_pipes pl) @ [pipe_on_eose (last (pl_pipes pl))]\<rparr>)"

section \<open>Several pipelines over one store\<close>

datatype pipeline_op =
    OpNew "pipe_type list" bytes
  | OpShare nat nat
  | OpProcess nat bytes
  | OpBytes nat bytes
  | OpCached nat "bytes list"
  | OpMark nat bytes
  | OpEose nat

type_synonym pipelines = "pipeline list \<times> seen_store"

text \<open>The id of an incoming event, and the ids under which a call had an effect: a successful call that gave an output or
  changed the pipeline or the seen ids, and every cached message among the outputs. The number of a set of seen ids
  goes with the id.\<close>

definition process_id :: "'p pipeline_env \<Rightarrow> bytes \<Rightarrow> bytes option" where
  "process_id env json =
     (case extract_event_id json of Some (Some id_hex) \<Rightarrow> decode_to_slice env id_hex | _ \<Rightarrow> None)"

definition bytes_id :: "'p pipeline_env \<Rightarrow> bytes \<Rightarrow> bytes option" where
  "bytes_id env msg =
     (case root_worker_message (pn_fb (lv_pipe env)) msg of
        Some (WmNostr (Some n)) \<Rightarrow>
          (case event_from_flatbuffer (pn_hex (lv_pipe env)) n of Ok ev \<Rightarrow> Some (ev_id ev) | Err _ \<Rightarrow> None)
      | _ \<Rightarrow> None)"

definition let_through ::
  "pipeline \<times> seen_store \<Rightarrow> pipeline \<times> seen_store \<Rightarrow> bytes option \<Rightarrow> nostr_error + bytes option \<Rightarrow> (nat \<times> bytes) list" where
  "let_through x x' i r =
     (case (i, r) of
        (Some i, Ok out) \<Rightarrow> if x' \<noteq> x \<or> out \<noteq> None then [(pl_seen_ids (fst x), i)] else []
      | _ \<Rightarrow> [])"

definition let_through_cached :: "'p pipeline_env \<Rightarrow> pipeline \<Rightarrow> bytes list \<Rightarrow> (nat \<times> bytes) list" where
  "let_through_cached env pl out = List.map_filter (\<lambda>m. map_option (Pair (pl_seen_ids pl)) (cached_id env m)) out"

fun op_step :: "'p pipeline_env \<Rightarrow> pipeline_op \<Rightarrow> pipelines \<Rightarrow> (pipelines \<times> (nat \<times> bytes) list) option" where
  "op_step env (OpNew pipes sub_id) (pls, st) =
     (case pipeline_new pipes sub_id st of
        (st, Ok pl) \<Rightarrow> Some ((pls @ [pl], st), [])
      | (st, Err e) \<Rightarrow> Some ((pls, st), []))"
| "op_step env (OpShare k j) (pls, st) =
     (if k < length pls \<and> j < length pls then Some ((pls[k := share_state_from (pls ! j) (pls ! k)], st), []) else None)"
| "op_step env (OpProcess k json) (pls, st) =
     (if k < length pls then
        (case pipeline_process env json (pls ! k, st) of
           None \<Rightarrow> None
         | Some ((pl, st'), r) \<Rightarrow> Some ((pls[k := pl], st'), let_through (pls ! k, st) (pl, st') (process_id env json) r))
      else None)"
| "op_step env (OpBytes k msg) (pls, st) =
     (if k < length pls then
        (case pipeline_process_bytes env msg (pls ! k, st) of
           ((pl, st'), r) \<Rightarrow> Some ((pls[k := pl], st'), let_through (pls ! k, st) (pl, st') (bytes_id env msg) r))
      else None)"
| "op_step env (OpCached k ms) (pls, st) =
     (if k < length pls then
        (case pipeline_cached_batch env ms (pls ! k, st) of
           ((pl, st'), out) \<Rightarrow> Some ((pls[k := pl], st'), let_through_cached env (pls ! k) out))
      else None)"
| "op_step env (OpMark k msg) (pls, st) =
     (if k < length pls then Some ((pls, mark_as_seen env (pls ! k) msg st), []) else None)"
| "op_step env (OpEose k) (pls, st) =
     (if k < length pls then Some ((pls[k := pipeline_on_eose (pls ! k)], st), []) else None)"

fun op_run :: "'p pipeline_env \<Rightarrow> pipeline_op list \<Rightarrow> pipelines \<Rightarrow> (pipelines \<times> (nat \<times> bytes) list) option" where
  "op_run env [] x = Some (x, [])"
| "op_run env (op # ops) x =
     (case op_step env op x of
        None \<Rightarrow> None
      | Some (x, ids) \<Rightarrow> map_option (apsnd (\<lambda>ids'. ids @ ids')) (op_run env ops x))"


section \<open>The shape of a pipeline is kept\<close>

lemma only_last_direct_map: "only_last_direct ps = list_all Not (butlast (map can_direct_output ps))"
  by (simp add: only_last_direct_def map_butlast [symmetric] list.pred_map comp_def)

lemma run_pipes_declared: "map can_direct_output (fst (run_pipes env ps e)) = map can_direct_output ps"
proof (induction ps arbitrary: e)
  case (Cons p ps)
  obtain p' r where p: "pipe_process env e p = (p', r)" by (cases "pipe_process env e p")
  then have "can_direct_output p' = can_direct_output p" by (rule any.keeps_declared)
  then show ?case using Cons by (simp add: p split_beta split: sum.split pipe_output.split)
qed simp

lemma run_pipes_terminal: "only_last_direct ps \<Longrightarrow> snd (run_pipes env ps e) \<noteq> NonTerminal x"
proof (induction ps arbitrary: e)
  case (Cons p ps)
  obtain p' r where p: "pipe_process env e p = (p', r)" by (cases "pipe_process env e p")
  have "ps = [] \<or> r \<noteq> Ok (PODirect d)" for d
    using Cons.prems any.direct_declared [of env e p p' d] p by (auto simp: only_last_direct_def)
  moreover have "only_last_direct ps" using Cons.prems by (cases ps) (auto simp: only_last_direct_def)
  ultimately show ?case using Cons.IH by (auto simp: p split_beta split: sum.split pipe_output.split)
qed simp

lemma cached_declared: "can_direct_output (fst (pipe_cached_batch env ms p)) = can_direct_output p"
  by (cases p) auto

lemma cached_chain_declared: "map can_direct_output (fst (cached_chain env ps ms)) = map can_direct_output ps"
  by (induction ps arbitrary: ms) (simp_all add: split_beta cached_declared)

lemma eose_declared: "map can_direct_output (pl_pipes (pipeline_on_eose pl)) = map can_direct_output (pl_pipes pl)"
proof -
  have "can_direct_output (pipe_on_eose p) = can_direct_output p" for p by (cases p) auto
  then show ?thesis by (cases "pl_pipes pl" rule: rev_cases) (simp_all add: pipeline_on_eose_def)
qed

section \<open>Ids are let through once\<close>



text \<open>A pipeline that only changed its pipes, keeping their declarations.\<close>

definition same_shape :: "pipeline \<Rightarrow> pipeline \<Rightarrow> bool" where
  "same_shape pl pl' = (pl_seen_ids pl' = pl_seen_ids pl \<and> pl_dedup_max_size pl' = pl_dedup_max_size pl
     \<and> map can_direct_output (pl_pipes pl') = map can_direct_output (pl_pipes pl))"

lemma same_shape_refl [simp]: "same_shape pl pl"
  by (simp add: same_shape_def)


lemma remember_fields [simp]: "length (remember pl i st) = length st" "length (forget pl i st) = length st"
  by (simp_all add: remember_def forget_def)




lemma remember_member:
  "pl_seen_ids pl < length st \<Longrightarrow> fcard (seen_of pl st) < pl_dedup_max_size pl \<Longrightarrow> i |\<in>| seen_of pl (remember pl i st)"
  by (simp add: remember_def seen_of_def)

lemma forget_remember:
  assumes "i |\<notin>| seen_of pl st" "pl_seen_ids pl' = pl_seen_ids pl"
  shows "forget pl' i (remember pl i st) = st"
proof (cases "pl_seen_ids pl < length st")
  case True
  then show ?thesis using assms by (auto simp: forget_def remember_def seen_of_def)
next
  case False
  then show ?thesis using assms by (simp add: forget_def remember_def list_update_beyond)
qed

text \<open>What running an unseen event does: on success its id is remembered, on failure the store is as it was.\<close>

lemma run_event_store:
  assumes "run_event env i ev (pl, remember pl i st) = ((pl', st'), r)" "i |\<notin>| seen_of pl st" "only_last_direct (pl_pipes pl)"
  shows "same_shape pl pl' \<and> (case r of Ok _ \<Rightarrow> st' = remember pl i st | Err _ \<Rightarrow> st' = st)"
proof -
  obtain ps t where r: "run_pipes env (pl_pipes pl) (from_raw ev None) = (ps, t)" by (metis prod.collapse)
  then have "map can_direct_output ps = map can_direct_output (pl_pipes pl)" "\<And>x. t \<noteq> NonTerminal x"
    using run_pipes_declared [of env "pl_pipes pl" "from_raw ev None"] run_pipes_terminal [OF assms(3), of env "from_raw ev None"]
    by simp_all
  then show ?thesis using assms(1) forget_remember [OF assms(2), of "pl\<lparr>pl_pipes := ps\<rparr>"]
    by (cases t) (auto simp: run_event_def r same_shape_def)
qed

text \<open>A live event has an effect only under an id that was not seen.\<close>

definition one_effect :: "pipeline \<Rightarrow> seen_store \<Rightarrow> seen_store \<Rightarrow> (nat \<times> bytes) list \<Rightarrow> bool" where
  "one_effect pl st st' new =
     (st' = st \<and> new = [] \<or>
      (\<exists>i. i |\<notin>| seen_of pl st \<and> st' = remember pl i st \<and> set new \<subseteq> {(pl_seen_ids pl, i)} \<and> length new \<le> 1))"

lemma process_cases:
  assumes "pipeline_process env json (pl, st) = Some ((pl', st'), r)" "only_last_direct (pl_pipes pl)"
  shows "same_shape pl pl' \<and> one_effect pl st st' (let_through (pl, st) (pl', st') (process_id env json) r)"
  using assms run_event_store [OF _ _ assms(2), of env _ _ st pl' st' r]
  by (auto simp: pipeline_process_def process_id_def let_through_def one_effect_def Let_def split: option.splits if_splits sum.splits)

lemma process_bytes_cases:
  assumes "pipeline_process_bytes env msg (pl, st) = ((pl', st'), r)" "only_last_direct (pl_pipes pl)"
  shows "same_shape pl pl' \<and> one_effect pl st st' (let_through (pl, st) (pl', st') (bytes_id env msg) r)"
  using assms run_event_store [OF _ _ assms(2), of env _ _ st pl' st' r]
  by (auto simp: pipeline_process_bytes_def bytes_id_def let_through_def one_effect_def Let_def
      split: option.splits if_splits sum.splits wm_content.splits)



lemma let_through_cached_simps [simp]:
  "let_through_cached env pl [] = []"
  "let_through_cached env pl (m # ms) =
     (case cached_id env m of Some i \<Rightarrow> [(pl_seen_ids pl, i)] | None \<Rightarrow> []) @ let_through_cached env pl ms"
  by (simp_all add: let_through_cached_def split: option.split)














lemma shape_step:
  assumes "op_step env op x = Some (x', new)" "\<forall>pl \<in> set (fst x). only_last_direct (pl_pipes pl)"
  shows "\<forall>pl \<in> set (fst x'). only_last_direct (pl_pipes pl)"
proof -
  obtain pls st where x: "x = (pls, st)" by (cases x)
  have "\<forall>pl \<in> set (pls[k := pl']). only_last_direct (pl_pipes pl)" if "k < length pls" "same_shape (pls ! k) pl'" for k pl'
    using assms(2) nth_mem [OF that(1)] that(2)
    by (auto simp: x same_shape_def only_last_direct_map dest!: set_update_subset_insert [THEN subsetD])
  note upd = this
  have pl: "only_last_direct (pl_pipes (pls ! k))" if "k < length pls" for k using assms(2) that by (simp add: x)
  show ?thesis
  proof (cases op)
    case (OpProcess k json)
    then show ?thesis using assms(1) upd process_cases pl by (fastforce simp: x split: if_splits option.splits)
  next
    case (OpBytes k msg)
    then show ?thesis using assms(1) upd process_bytes_cases pl by (fastforce simp: x split: if_splits prod.splits)
  next
    case (OpCached k ms)
    then obtain pl' st' out where k: "k < length pls" and p: "pipeline_cached_batch env ms (pls ! k, st) = ((pl', st'), out)"
      and x': "x' = (pls[k := pl'], st')"
      using assms(1) by (auto simp: x split: if_splits prod.splits)
    have "same_shape (pls ! k) pl'"
      using p cached_chain_declared by (auto simp: pipeline_cached_batch_def same_shape_def Let_def split_beta split: if_splits)
    then show ?thesis using upd k by (simp add: x')
  next
    case (OpEose k)
    moreover have "same_shape (pls ! k) (pipeline_on_eose (pls ! k))"
      using eose_declared by (simp add: same_shape_def) (simp add: pipeline_on_eose_def)
    ultimately show ?thesis using assms(1) upd by (auto simp: x split: if_splits)
  next
    case (OpShare k j)
    then show ?thesis using assms pl
      by (auto simp: x share_state_from_def split: if_splits dest!: set_update_subset_insert [THEN subsetD])
  qed (use assms in \<open>auto simp: x pipeline_new_def split: if_splits\<close>)
qed

lemma shape_run:
  "op_run env ops x = Some (x', new) \<Longrightarrow> \<forall>pl \<in> set (fst x). only_last_direct (pl_pipes pl) \<Longrightarrow>
     \<forall>pl \<in> set (fst x'). only_last_direct (pl_pipes pl)"
proof (induction ops arbitrary: x new)
  case (Cons op ops)
  then obtain x1 new1 new2 where s: "op_step env op x = Some (x1, new1)" "op_run env ops x1 = Some (x', new2)"
    by (auto split: option.splits)
  show ?case by (rule Cons.IH [OF s(2) shape_step [OF s(1) Cons.prems(2)]])
qed simp


section \<open>Properties\<close>

text \<open>A pipeline that was accepted never fails for its shape: after any operations on any pipelines, no
  event makes a pipe before the last produce direct output.\<close>

theorem accepted_pipeline_shape:
  assumes "op_run env ops ([], []) = Some ((pls, st), ids)" "k < length pls"
  shows "snd (run_pipes env (pl_pipes (pls ! k)) e) \<noteq> NonTerminal x"
  using shape_run [OF assms(1)] assms(2) by (simp add: run_pipes_terminal)


text \<open>An event whose processing fails is not consumed: the seen ids are afterwards as they were, so the
  same event is processed again when it is sent again.\<close>

theorem failed_event_not_consumed:
  assumes "op_run env ops ([], []) = Some ((pls, st), ids)" "k < length pls"
    "pipeline_process env json (pls ! k, st) = Some ((pl', st'), Err e)"
  shows "st' = st \<and> (\<exists>i. process_id env json = Some i \<and> i |\<notin>| seen_of pl' st')"
proof -
  have "only_last_direct (pl_pipes (pls ! k))" using shape_run [OF assms(1)] assms(2) by simp
  then show ?thesis
    using assms(3) run_event_store [of env _ _ "pls ! k" st pl' st' "Err e"]
    by (auto simp: pipeline_process_def process_id_def Let_def same_shape_def seen_of_def split: option.splits if_splits sum.splits)
qed

text \<open>A text that carries an id but is not a readable event consumes the id: the event itself, when it
  arrives afterwards, is dropped as a duplicate.\<close>

theorem unreadable_event_consumes_id:
  assumes "process_id env bad = Some i" "event_from_json (pn_hex (lv_pipe env)) bad = Some (Err x)"
    "process_id env good = Some i" "i |\<notin>| seen_of pl st" "pl_seen_ids pl < length st"
    "fcard (seen_of pl st) < pl_dedup_max_size pl"
  shows "\<exists>st'. pipeline_process env bad (pl, st) = Some ((pl, st'), Ok None)
    \<and> pipeline_process env good (pl, st') = Some ((pl, st'), Ok None)"
proof (intro exI conjI)
  show "pipeline_process env bad (pl, st) = Some ((pl, remember pl i st), Ok None)"
    using assms(1,2,4) by (auto simp: pipeline_process_def process_id_def Let_def split: option.splits)
  show "pipeline_process env good (pl, remember pl i st) = Some ((pl, remember pl i st), Ok None)"
    using assms(3) remember_member [OF assms(5,6), of i]
    by (auto simp: pipeline_process_def process_id_def Let_def split: option.splits)
qed

section \<open>Events written as JSON\<close>

lemma hex_plain:
  assumes "hex_ok h" shows "list_all (\<lambda>c. c \<noteq> QUOTE \<and> c \<noteq> BACKSLASH \<and> c < 0x80) (hex_encode h b)"
  unfolding list_all_iff
proof
  fix c assume "c \<in> set (hex_encode h b)"
  then have "48 \<le> unat c \<and> unat c \<le> 57 \<or> 97 \<le> unat c \<and> unat c \<le> 102"
    using assms by (fastforce simp: hex_ok_def is_ascii_digit_def word_le_nat_alt)
  then show "c \<noteq> QUOTE \<and> c \<noteq> BACKSLASH \<and> c < 0x80" by (auto simp: word_less_nat_alt)
qed

lemma extract_id_of_event:
  assumes "hex_ok h" shows "extract_event_id (event_to_json h e) = Some (Some (hex_encode h (ev_id e)))"
proof (rule extract_first_id, unfold first_id_def, intro exI conjI)
  show "list_all (\<lambda>c. c \<in> {0x20, 0x09, 0x3A}) [0x3A :: u8]" by simp
  show "list_all (\<lambda>c. c \<noteq> QUOTE \<and> c \<noteq> BACKSLASH \<and> c < 0x80) (hex_encode h (ev_id e))" using assms by (rule hex_plain)
  show eq: "event_to_json h e = [LBRACE] @ id_pattern @ [0x3A] @ QUOTE # hex_encode h (ev_id e) @ QUOTE #
      drop (length ([LBRACE] @ id_pattern @ [0x3A] @ QUOTE # hex_encode h (ev_id e) @ [QUOTE])) (event_to_json h e)"
    by (simp add: event_to_json_def id_pattern_def field_def ascii_def)
  show "list_all (\<lambda>j. subslice (event_to_json h e) j (j + 4) \<noteq> id_pattern) [0..<length [LBRACE]]"
    by (simp add: event_to_json_def id_pattern_def field_def ascii_def subslice_def)
qed

lemma event_runs:
  assumes "hex_ok (pn_hex (lv_pipe env))" "event_ok e" "ev_id e |\<notin>| seen_of pl st"
    "\<forall>tag \<in> set (ev_tags e). \<forall>s \<in> set tag. \<not> ends_field ''content'' s \<and> \<not> ends_field ''sig'' s"
    "\<not> ends_field ''sig'' (ev_content e)"
  shows "pipeline_process env (event_to_json (pn_hex (lv_pipe env)) e) (pl, st) =
    Some (run_event env (ev_id e) e (pl, remember pl (ev_id e) st))"
proof -
  have "decode_to_slice env (hex_encode (pn_hex (lv_pipe env)) (ev_id e)) = Some (ev_id e)"
    using assms(1,2) by (simp add: decode_to_slice_def hex_ok_def event_ok_def)
  then show ?thesis
    using assms extract_id_of_event [OF assms(1), of e] event_json_reads [OF assms(1,2,4,5)]
    by (simp add: pipeline_process_def Let_def)
qed

text \<open>An event that a relay sends as JSON and that is new to the pipeline goes through the pipes as that
  event, under its own id.\<close>

theorem event_reaches_pipes:
  assumes "hex_ok (pn_hex (lv_pipe env))" "event_ok e" "ev_id e |\<notin>| seen_of pl st"
    "\<forall>tag \<in> set (ev_tags e). \<forall>s \<in> set tag. \<not> ends_field ''content'' s \<and> \<not> ends_field ''sig'' s"
    "\<not> ends_field ''sig'' (ev_content e)"
  shows "pipeline_process env (event_to_json (pn_hex (lv_pipe env)) e) (pl, st) =
    Some (run_event env (ev_id e) e (pl, remember pl (ev_id e) st))"
  using assms by (rule event_runs)

section \<open>Examples\<close>

definition example_pipeline_env :: "unit pipeline_env" where
  "example_pipeline_env =
     \<lparr>lv_pipe = example_env\<lparr>pn_parse := (\<lambda>_ _. ParseCrypto ''busy'')\<rparr>, lv_proof = example_proof_env,
      lv_chat_order = (\<lambda>m. sorted_list_of_fset (fmdom m)), lv_kind_order = sorted_list_of_fset\<rparr>"

definition sample_json :: bytes where
  "sample_json = event_to_json std_hex sample_event"

definition id_only_json :: bytes where
  "id_only_json = ascii ''{'' @ field ''id'' @ ascii '':'' @ [QUOTE] @ hex_encode std_hex (ev_id sample_event) @ [QUOTE] @ ascii ''}''"

definition one_pipe :: "pipe_type list \<Rightarrow> pipeline" where
  "one_pipe ps = \<lparr>pl_pipes = ps, pl_subscription_id = [], pl_seen_ids = 0, pl_dedup_max_size = 10000\<rparr>"

lemma example_hex: "pn_hex (lv_pipe example_pipeline_env) = std_hex"
  by (simp add: example_pipeline_env_def example_env_def)

lemma sample_runs:
  "ev_id sample_event |\<notin>| seen_of pl st \<Longrightarrow>
     pipeline_process example_pipeline_env sample_json (pl, st) =
       Some (run_event example_pipeline_env (ev_id sample_event) sample_event (pl, remember pl (ev_id sample_event) st))"
  unfolding sample_json_def example_hex [symmetric]
  by (rule event_runs)
    (use std_hex_ok sample_event_ok in \<open>simp_all add: example_hex sample_event_def ends_field_def ascii_def suffix_to_prefix\<close>)

lemma sample_process_id: "process_id example_pipeline_env sample_json = Some (ev_id sample_event)"
  using extract_id_of_event [OF std_hex_ok, of sample_event] std_hex_ok sample_event_ok
  by (simp add: process_id_def sample_json_def decode_to_slice_def example_hex hex_ok_def event_ok_def)

lemma sample_seen:
  "ev_id sample_event |\<in>| seen_of pl st \<Longrightarrow> pipeline_process example_pipeline_env sample_json (pl, st) = Some ((pl, st), Ok None)"
  using sample_process_id by (auto simp: pipeline_process_def process_id_def split: option.splits)

lemma new_pipe: "op_run env [OpNew ps []] ([], []) = (if only_last_direct ps then Some (([one_pipe ps], [{||}]), []) else Some (([], []), []))"
  by (simp add: pipeline_new_def one_pipe_def)

theorem accepted_pipeline_shape_witness:
  "snd (run_pipes example_pipeline_env [Parse \<lparr>pp_calls = 0\<rparr>, Counter (counter_new [1] [])] (text_note 1 5)) \<noteq> NonTerminal (NostrOther ''shape'')"
  using accepted_pipeline_shape [of example_pipeline_env "[OpNew [Parse \<lparr>pp_calls = 0\<rparr>, Counter (counter_new [1] [])] []]", of
      "[one_pipe [Parse \<lparr>pp_calls = 0\<rparr>, Counter (counter_new [1] [])]]" "[{||}]" "[]" 0 "text_note 1 5" "NostrOther ''shape''"]
  by (simp only: new_pipe) (simp add: only_last_direct_def one_pipe_def)



lemma parse_fails:
  "pipeline_process example_pipeline_env sample_json (one_pipe [Parse \<lparr>pp_calls = 0\<rparr>], [{||}]) =
     Some ((one_pipe [Parse \<lparr>pp_calls = 1\<rparr>], [{||}]), Err (NostrOther ''busy''))"
proof -
  have "parse_process (lv_pipe example_pipeline_env) (from_raw sample_event None) s =
      (s\<lparr>pp_calls := pp_calls s + 1\<rparr>, Err (NostrOther ''busy''))" for s
    by (simp add: parse_process_def from_raw_def is_parsed_def example_pipeline_env_def)
  then show ?thesis
    by (simp add: sample_runs seen_of_def one_pipe_def run_event_def forget_def remember_def fcard_fempty)
qed

theorem failed_event_not_consumed_witness:
  "\<exists>i. process_id example_pipeline_env sample_json = Some i \<and> i |\<notin>| seen_of (one_pipe [Parse \<lparr>pp_calls = 1\<rparr>]) [{||}]"
  using failed_event_not_consumed [of example_pipeline_env "[OpNew [Parse \<lparr>pp_calls = 0\<rparr>] []]" "[one_pipe [Parse \<lparr>pp_calls = 0\<rparr>]]"
      "[{||}]" "[]" 0 sample_json, unfolded new_pipe] parse_fails
  by (simp add: only_last_direct_def)

lemma id_only_extract: "extract_event_id id_only_json = Some (Some (hex_encode std_hex (ev_id sample_event)))"
proof (rule extract_first_id, unfold first_id_def, intro exI conjI)
  show "list_all (\<lambda>c. c \<in> {0x20, 0x09, 0x3A}) [0x3A :: u8]" by simp
  show "list_all (\<lambda>c. c \<noteq> QUOTE \<and> c \<noteq> BACKSLASH \<and> c < 0x80) (hex_encode std_hex (ev_id sample_event))"
    by (rule hex_plain [OF std_hex_ok])
  show "id_only_json = [LBRACE] @ id_pattern @ [0x3A] @ QUOTE # hex_encode std_hex (ev_id sample_event) @ QUOTE # [RBRACE]"
    by (simp add: id_only_json_def id_pattern_def field_def ascii_def)
  show "list_all (\<lambda>j. subslice id_only_json j (j + 4) \<noteq> id_pattern) [0..<length [LBRACE]]"
    by (simp add: id_only_json_def id_pattern_def field_def ascii_def subslice_def)
qed

lemma id_only_process_id: "process_id example_pipeline_env id_only_json = Some (ev_id sample_event)"
  using std_hex_ok sample_event_ok
  by (simp add: process_id_def id_only_extract decode_to_slice_def example_hex hex_ok_def event_ok_def)

lemma id_only_unreadable: "\<exists>x. event_from_json std_hex id_only_json = Some (Err x)"
proof -
  let ?m = "(LBRACE, ''id'', QUOTE # hex_encode std_hex (ev_id sample_event) @ [QUOTE])"
  have json: "id_only_json = members_text [?m] @ RBRACE # []"
    by (simp add: id_only_json_def member_text_def ascii_def)
  have "quoted_field ''id'' id_only_json = Some (Ok (Some (hex_encode std_hex (ev_id sample_event))))"
    using quoted_member [OF plain_names(1), of "[]" LBRACE "hex_encode std_hex (ev_id sample_event)" "[RBRACE]"]
      hex_bytes [OF std_hex_ok] json by simp
  then have i: "hex_field ''id'' (event_id_from_hex std_hex) id_only_json = Some (Ok (ev_id sample_event))"
    using std_hex_ok sample_event_ok by (simp add: hex_field_def event_id_from_hex_def key_from_hex_def hex_ok_def event_ok_def)
  have "member_lacks ''pubkey'' ?m"
    using hex_lacks [OF std_hex_ok, of "''pubkey''"] field_lacks_field [OF plain_names(2,1)] by (simp add: member_lacks_def)
  then have "find_str (field ''pubkey'') (members_text [?m]) = None" using find_members_None [OF plain_names(2), of "[?m]"] by simp
  then have "find_str (field ''pubkey'') id_only_json = None"
    unfolding json by (intro find_str_None_append) (simp_all add: find_field_Nil field_def ascii_def)
  then have "hex_field ''pubkey'' (public_key_from_hex std_hex) id_only_json = Some (Err (TypesInvalidFormat ''Missing pubkey''))"
    by (simp add: hex_field_def quoted_field_def)
  with i show ?thesis by (simp add: event_from_json_def then_field_def)
qed

theorem unreadable_event_consumes_id_witness:
  "\<exists>st'. pipeline_process example_pipeline_env id_only_json (one_pipe [], [{||}]) = Some ((one_pipe [], st'), Ok None)
    \<and> pipeline_process example_pipeline_env sample_json (one_pipe [], st') = Some ((one_pipe [], st'), Ok None)"
proof -
  obtain x where x: "event_from_json std_hex id_only_json = Some (Err x)" using id_only_unreadable by blast
  show ?thesis
    by (rule unreadable_event_consumes_id [OF id_only_process_id _ sample_process_id])
      (simp_all add: x example_hex seen_of_def one_pipe_def fcard_fempty)
qed

theorem event_reaches_pipes_witness:
  "pipeline_process example_pipeline_env sample_json (one_pipe [], [{||}]) = Some ((one_pipe [], [{|ev_id sample_event|}]), Ok None)"
proof -
  have "pipeline_process example_pipeline_env (event_to_json (pn_hex (lv_pipe example_pipeline_env)) sample_event) (one_pipe [], [{||}]) =
      Some (run_event example_pipeline_env (ev_id sample_event) sample_event (one_pipe [], remember (one_pipe []) (ev_id sample_event) [{||}]))"
    by (rule event_reaches_pipes)
      (use std_hex_ok sample_event_ok in \<open>simp_all add: example_hex seen_of_def one_pipe_def sample_event_def ends_field_def ascii_def suffix_to_prefix\<close>)
  then show ?thesis
    by (simp add: sample_json_def example_hex run_event_def one_pipe_def remember_def seen_of_def fcard_fempty)
qed

end
