(* ===== verification/Mesh_Session.thy ===== *)
theory Mesh_Session
  imports Mesh_Transport "HOL-Library.Char_ord" "HOL-Library.List_Lexorder"
begin

text \<open>
  Set reconciliation between mesh peers, after \<open>mesh/src/lib.rs\<close> and \<open>mesh/src/session.rs\<close>: the in-memory
  event store, the frames of a session, the sessions a peer keeps, and \<open>MeshNode::reconcile_with\<close>, which
  runs both ends of a reconciliation. Parameters: the crates \<open>serde_json\<close> (texts and JSON values), \<open>hex\<close>
  and \<open>negentropy\<close>, whose reconciler is a state of its own, and the iteration order of the store.
\<close>

section \<open>Parameters\<close>

record canonical_event =
  ce_id :: string
  ce_pubkey :: string
  ce_created_at :: u64
  ce_kind :: u16
  ce_tags :: "string list list"
  ce_content :: string
  ce_sig :: string

type_synonym memory_event_store = "(string, canonical_event) fmap"

record 'r mesh_env =
  me_parse :: "bytes \<Rightarrow> json option"
  me_print :: "json \<Rightarrow> bytes"
  me_event_of :: "json \<Rightarrow> canonical_event option"
  me_hex_encode :: "bytes \<Rightarrow> string"
  me_hex_decode :: "string \<Rightarrow> bytes option"
  me_order :: "memory_event_store \<Rightarrow> string list"
  ng_new :: "(u64 \<times> bytes) list \<Rightarrow> mesh_error + 'r"
  ng_initiate :: "'r \<Rightarrow> 'r \<times> (mesh_error + bytes)"
  ng_reconcile :: "'r \<Rightarrow> bytes \<Rightarrow> 'r \<times> (mesh_error + bytes)"
  ng_reconcile_with_ids :: "'r \<Rightarrow> bytes \<Rightarrow> 'r \<times> (mesh_error + bytes list \<times> bytes list \<times> bytes option)"

section \<open>Stores and frames\<close>

definition negentropy_id :: "'r mesh_env \<Rightarrow> canonical_event \<Rightarrow> mesh_error + bytes" where
  "negentropy_id env e =
     (case me_hex_decode env (ce_id e) of
        None \<Rightarrow> Err (InvalidEventId (ce_id e))
      | Some b \<Rightarrow> if length b = 32 then Ok b else Err NegentropyError)"

definition store_events :: "'r mesh_env \<Rightarrow> memory_event_store \<Rightarrow> canonical_event list" where
  "store_events env st = List.map_filter (fmlookup st) (me_order env st)"

definition store_persist :: "canonical_event \<Rightarrow> memory_event_store \<Rightarrow> memory_event_store \<times> bool" where
  "store_persist e st = (if fmlookup st (ce_id e) \<noteq> None then (st, False) else (fmupd (ce_id e) e st, True))"

fun negentropy_items :: "'r mesh_env \<Rightarrow> canonical_event list \<Rightarrow> mesh_error + (u64 \<times> bytes) list" where
  "negentropy_items env [] = Ok []"
| "negentropy_items env (e # es) =
     (case negentropy_id env e of
        Err x \<Rightarrow> Err x
      | Ok i \<Rightarrow> (case negentropy_items env es of Err x \<Rightarrow> Err x | Ok is \<Rightarrow> Ok ((ce_created_at e, i) # is)))"

definition negentropy_storage :: "'r mesh_env \<Rightarrow> memory_event_store \<Rightarrow> mesh_error + 'r" where
  "negentropy_storage env st =
     (case negentropy_items env (store_events env st) of Err x \<Rightarrow> Err x | Ok is \<Rightarrow> ng_new env is)"

definition event_json :: "canonical_event \<Rightarrow> json" where
  "event_json e =
     JObj [(''id'', JStr (ce_id e)), (''pubkey'', JStr (ce_pubkey e)), (''created_at'', JNum (uint (ce_created_at e))),
       (''kind'', JNum (uint (ce_kind e))), (''tags'', JArr (map (\<lambda>t. JArr (map JStr t)) (ce_tags e))),
       (''content'', JStr (ce_content e)), (''sig'', JStr (ce_sig e))]"

definition neg_open :: "'r mesh_env \<Rightarrow> string \<Rightarrow> json \<Rightarrow> bytes \<Rightarrow> bytes" where
  "neg_open env sub_id filt payload = me_print env (JArr [JStr ''NEG-OPEN'', JStr sub_id, filt, JStr (me_hex_encode env payload)])"

definition neg_msg :: "'r mesh_env \<Rightarrow> string \<Rightarrow> bytes \<Rightarrow> bytes" where
  "neg_msg env sub_id payload = me_print env (JArr [JStr ''NEG-MSG'', JStr sub_id, JStr (me_hex_encode env payload)])"

definition neg_close :: "'r mesh_env \<Rightarrow> string \<Rightarrow> bytes" where
  "neg_close env sub_id = me_print env (JArr [JStr ''NEG-CLOSE'', JStr sub_id])"

definition request_frame :: "'r mesh_env \<Rightarrow> string \<Rightarrow> string list \<Rightarrow> bytes" where
  "request_frame env sub_id ids = me_print env (JArr [JStr ''REQ'', JStr sub_id, JObj [(''ids'', JArr (map JStr ids))]])"

definition publish_frame :: "'r mesh_env \<Rightarrow> canonical_event \<Rightarrow> bytes" where
  "publish_frame env e = me_print env (JArr [JStr ''EVENT'', event_json e])"

definition response_frame :: "'r mesh_env \<Rightarrow> string \<Rightarrow> canonical_event \<Rightarrow> bytes" where
  "response_frame env sub_id e = me_print env (JArr [JStr ''EVENT'', JStr sub_id, event_json e])"

definition eose_frame :: "'r mesh_env \<Rightarrow> string \<Rightarrow> bytes" where
  "eose_frame env sub_id = me_print env (JArr [JStr ''EOSE'', JStr sub_id])"

section \<open>Sessions of a peer\<close>

datatype 'r sync_state = Initiator 'r | Responder 'r

type_synonym 'r peer_session = "(string, 'r sync_state) fmap"

record sync_difference =
  df_have :: "string list"
  df_need :: "string list"

record session_output =
  so_frames :: "bytes list"
  so_completed :: "sync_difference option"

definition active_sync_count :: "'r peer_session \<Rightarrow> nat" where
  "active_sync_count s = fcard (fmdom s)"

definition begin_sync ::
  "'r mesh_env \<Rightarrow> string \<Rightarrow> json \<Rightarrow> memory_event_store \<Rightarrow> 'r peer_session \<Rightarrow> 'r peer_session \<times> (mesh_error + bytes)" where
  "begin_sync env sub_id filt st s =
     (case negentropy_storage env st of
        Err x \<Rightarrow> (s, Err x)
      | Ok r \<Rightarrow>
          (case ng_initiate env r of
             (r, Err x) \<Rightarrow> (s, Err x)
           | (r, Ok initial) \<Rightarrow> (fmupd sub_id (Initiator r) s, Ok (neg_open env sub_id filt initial))))"

text \<open>\<open>array.get(i).and_then(Value::as_str)\<close>.\<close>

definition str_at :: "json list \<Rightarrow> nat \<Rightarrow> string option" where
  "str_at a i = (if i < length a then (case a ! i of JStr x \<Rightarrow> Some x | _ \<Rightarrow> None) else None)"

definition decode_payload :: "'r mesh_env \<Rightarrow> json list \<Rightarrow> nat \<Rightarrow> mesh_error + bytes" where
  "decode_payload env a i =
     (case str_at a i of
        None \<Rightarrow> Err InvalidFrame
      | Some x \<Rightarrow> (case me_hex_decode env x of None \<Rightarrow> Err InvalidFrame | Some b \<Rightarrow> Ok b))"

definition session_open ::
  "'r mesh_env \<Rightarrow> string \<Rightarrow> json list \<Rightarrow> memory_event_store \<Rightarrow> 'r peer_session \<Rightarrow> 'r peer_session \<times> (mesh_error + session_output)" where
  "session_open env sub_id a st s =
     (case decode_payload env a 3 of
        Err x \<Rightarrow> (s, Err x)
      | Ok payload \<Rightarrow>
          (case negentropy_storage env st of
             Err x \<Rightarrow> (s, Err x)
           | Ok r \<Rightarrow>
               (case ng_reconcile env r payload of
                  (r, Err x) \<Rightarrow> (s, Err x)
                | (r, Ok response) \<Rightarrow>
                    (fmupd sub_id (Responder r) s,
                     Ok \<lparr>so_frames = [neg_msg env sub_id response], so_completed = None\<rparr>))))"

definition session_msg ::
  "'r mesh_env \<Rightarrow> string \<Rightarrow> json list \<Rightarrow> 'r peer_session \<Rightarrow> 'r peer_session \<times> (mesh_error + session_output)" where
  "session_msg env sub_id a s =
     (case decode_payload env a 2 of
        Err x \<Rightarrow> (s, Err x)
      | Ok payload \<Rightarrow>
          (case fmlookup s sub_id of
             None \<Rightarrow> (s, Err (UnknownSession sub_id))
           | Some (Initiator r) \<Rightarrow>
               (case ng_reconcile_with_ids env r payload of
                  (r, Err x) \<Rightarrow> (fmupd sub_id (Initiator r) s, Err x)
                | (r, Ok (have, need, Some reply)) \<Rightarrow>
                    (fmupd sub_id (Initiator r) s,
                     Ok \<lparr>so_frames = [neg_msg env sub_id reply], so_completed = None\<rparr>)
                | (r, Ok (have, need, None)) \<Rightarrow>
                    (fmdrop sub_id s,
                     Ok \<lparr>so_frames = [neg_close env sub_id],
                         so_completed = Some \<lparr>df_have = map (me_hex_encode env) have, df_need = map (me_hex_encode env) need\<rparr>\<rparr>))
           | Some (Responder r) \<Rightarrow>
               (case ng_reconcile env r payload of
                  (r, Err x) \<Rightarrow> (fmupd sub_id (Responder r) s, Err x)
                | (r, Ok response) \<Rightarrow>
                    (fmupd sub_id (Responder r) s,
                     Ok \<lparr>so_frames = [neg_msg env sub_id response], so_completed = None\<rparr>))))"

definition session_handle ::
  "'r mesh_env \<Rightarrow> bytes \<Rightarrow> memory_event_store \<Rightarrow> 'r peer_session \<Rightarrow> 'r peer_session \<times> (mesh_error + session_output)" where
  "session_handle env frame st s =
     (case me_parse env frame of
        None \<Rightarrow> (s, Err JsonError)
      | Some (JArr a) \<Rightarrow>
          (case (str_at a 0, str_at a 1) of
             (Some kind, Some sub_id) \<Rightarrow>
               if kind = ''NEG-OPEN'' then session_open env sub_id a st s
               else if kind = ''NEG-MSG'' then session_msg env sub_id a s
               else if kind = ''NEG-CLOSE'' then (fmdrop sub_id s, Ok \<lparr>so_frames = [], so_completed = None\<rparr>)
               else (s, Err (UnexpectedSessionMessage kind))
           | _ \<Rightarrow> (s, Err InvalidFrame))
      | Some _ \<Rightarrow> (s, Err InvalidFrame))"

section \<open>Both ends in one process\<close>

record memory_link =
  lk_a_to_b :: "bytes list"
  lk_b_to_a :: "bytes list"

record reconciliation_result =
  rr_sent_to_remote :: nat
  rr_received_from_remote :: nat

definition a_to_b :: "bytes \<Rightarrow> memory_link \<Rightarrow> memory_link" where
  "a_to_b f l = l\<lparr>lk_a_to_b := lk_a_to_b l @ [f]\<rparr>"

definition b_to_a :: "bytes \<Rightarrow> memory_link \<Rightarrow> memory_link" where
  "b_to_a f l = l\<lparr>lk_b_to_a := lk_b_to_a l @ [f]\<rparr>"

text \<open>The loop of rounds; it need not end, and then has the value \<open>None\<close>.\<close>

partial_function (option) neg_loop ::
  "'r mesh_env \<Rightarrow> string \<Rightarrow> 'r \<Rightarrow> 'r \<Rightarrow> bytes \<Rightarrow> bytes list \<Rightarrow> bytes list \<Rightarrow> memory_link \<Rightarrow>
     (memory_link \<times> (mesh_error + bytes list \<times> bytes list)) option" where
  "neg_loop env sub_id ini resp query have need l =
     (case ng_reconcile env resp query of
        (resp, Err x) \<Rightarrow> Some (l, Err x)
      | (resp, Ok response) \<Rightarrow>
          (case ng_reconcile_with_ids env ini response of
             (ini, Err x) \<Rightarrow> Some (b_to_a (neg_msg env sub_id response) l, Err x)
           | (ini, Ok (h, n, Some reply)) \<Rightarrow>
               neg_loop env sub_id ini resp reply (have @ h) (need @ n)
                 (a_to_b (neg_msg env sub_id reply) (b_to_a (neg_msg env sub_id response) l))
           | (ini, Ok (h, n, None)) \<Rightarrow> Some (b_to_a (neg_msg env sub_id response) l, Ok (have @ h, need @ n))))"

text \<open>Transfer of the named events from one store to another, and how many were new there.\<close>

fun transfer ::
  "(canonical_event \<Rightarrow> memory_link \<Rightarrow> memory_link) \<Rightarrow> memory_event_store \<Rightarrow> string list \<Rightarrow> memory_event_store \<Rightarrow> memory_link \<Rightarrow>
     memory_event_store \<times> memory_link \<times> nat" where
  "transfer send_frame src [] dst l = (dst, l, 0)"
| "transfer send_frame src (i # is) dst l =
     (case fmlookup src i of
        None \<Rightarrow> transfer send_frame src is dst l
      | Some e \<Rightarrow>
          (let l = send_frame e l; (dst, new) = store_persist e dst; (dst, l, n) = transfer send_frame src is dst l
           in (dst, l, if new then Suc n else n)))"

definition reconcile_with ::
  "'r mesh_env \<Rightarrow> string \<Rightarrow> json \<Rightarrow> memory_event_store \<times> memory_event_store \<times> memory_link \<Rightarrow>
     ((memory_event_store \<times> memory_event_store \<times> memory_link) \<times> (mesh_error + reconciliation_result)) option" where
  "reconcile_with env sub_id filt x =
     (let (local, remote, l) = x
      in case (negentropy_storage env local, negentropy_storage env remote) of
           (Err e, _) \<Rightarrow> Some (x, Err e)
         | (Ok _, Err e) \<Rightarrow> Some (x, Err e)
         | (Ok ini, Ok resp) \<Rightarrow>
             (case ng_initiate env ini of
                (ini, Err e) \<Rightarrow> Some (x, Err e)
              | (ini, Ok initial) \<Rightarrow>
                  (case neg_loop env sub_id ini resp initial [] [] (a_to_b (neg_open env sub_id filt initial) l) of
                     None \<Rightarrow> None
                   | Some (l, Err e) \<Rightarrow> Some ((local, remote, l), Err e)
                   | Some (l, Ok (have_ids, need_ids)) \<Rightarrow>
                       (let have = map (me_hex_encode env) have_ids; need = map (me_hex_encode env) need_ids;
                            (remote, l, sent) = transfer (\<lambda>e. a_to_b (publish_frame env e)) local have remote l;
                            request_id = sub_id @ '':missing'';
                            l = (if need \<noteq> [] then a_to_b (request_frame env request_id need) l else l);
                            (local, l, received) = transfer (\<lambda>e. b_to_a (response_frame env request_id e)) remote need local l;
                            l = (if need \<noteq> [] then b_to_a (eose_frame env request_id) l else l);
                            l = a_to_b (neg_close env sub_id) l
                        in Some ((local, remote, l), Ok \<lparr>rr_sent_to_remote = sent, rr_received_from_remote = received\<rparr>)))))"

section \<open>What the reconciler promises\<close>

text \<open>
  A run of the two reconcilers from a query to the last round, with the ids the initiator reports. The
  crate \<open>negentropy\<close> documents that the reports of all rounds together are the items, pairs of time and
  id, that only one side has; a set with two equal ids is refused.
\<close>

inductive exchange :: "'r mesh_env \<Rightarrow> 'r \<Rightarrow> 'r \<Rightarrow> bytes \<Rightarrow> bytes list \<Rightarrow> bytes list \<Rightarrow> bool" where
  last_round: "ng_reconcile env r q = (r', Ok resp) \<Longrightarrow> ng_reconcile_with_ids env i resp = (i', Ok (h, n, None)) \<Longrightarrow>
    exchange env i r q h n"
| next_round: "ng_reconcile env r q = (r', Ok resp) \<Longrightarrow> ng_reconcile_with_ids env i resp = (i', Ok (h, n, Some q')) \<Longrightarrow>
    exchange env i' r' q' hs ns \<Longrightarrow> exchange env i r q (h @ hs) (n @ ns)"

definition negentropy_ok :: "'r mesh_env \<Rightarrow> bool" where
  "negentropy_ok env =
     (\<forall>L R. distinct (map snd L) \<longrightarrow> distinct (map snd R) \<longrightarrow> list_all (\<lambda>x. length (snd x) = 32) (L @ R) \<longrightarrow>
        (\<exists>i r i' q h n. ng_new env L = Ok i \<and> ng_new env R = Ok r \<and> ng_initiate env i = (i', Ok q)
           \<and> exchange env i' r q h n \<and> set h = snd ` (set L - set R) \<and> set n = snd ` (set R - set L)))"

definition order_ok :: "'r mesh_env \<Rightarrow> bool" where
  "order_ok env = (\<forall>st. set (me_order env st) = fset (fmdom st) \<and> distinct (me_order env st))"

text \<open>Events are stored under their ids, which are 32 bytes in the hex form that the encoder writes.\<close>

definition mesh_store_ok :: "'r mesh_env \<Rightarrow> memory_event_store \<Rightarrow> bool" where
  "mesh_store_ok env st =
     (\<forall>k e. fmlookup st k = Some e \<longrightarrow>
        ce_id e = k \<and> (\<exists>b. length b = 32 \<and> me_hex_decode env k = Some b \<and> me_hex_encode env b = k))"

section \<open>Convergence\<close>

lemma neg_loop_exchange:
  "exchange env i r q h n \<Longrightarrow> \<exists>l'. neg_loop env sub_id i r q hv nd l = Some (l', Ok (hv @ h, nd @ n))"
proof (induction arbitrary: hv nd l rule: exchange.induct)
  case (last_round env r q r' resp i i' h n)
  then show ?case by (subst neg_loop.simps) simp
next
  case (next_round env r q r' resp i i' h n q' hs ns)
  then show ?case by (subst neg_loop.simps) (simp, metis append.assoc)
qed

lemma store_events_facts:
  assumes "order_ok env" "mesh_store_ok env st"
  shows "map ce_id (store_events env st) = me_order env st"
    and "set (store_events env st) = {e. \<exists>k. fmlookup st k = Some e}"
proof -
  have dom: "fmlookup st k \<noteq> None" if "k \<in> set (me_order env st)" for k
    using assms(1) that by (auto simp: order_ok_def)
  have "map ce_id (List.map_filter (fmlookup st) ks) = ks" if "\<forall>k \<in> set ks. fmlookup st k \<noteq> None" for ks
    using that assms(2) by (induction ks) (auto simp: mesh_store_ok_def)
  then show "map ce_id (store_events env st) = me_order env st" using dom by (simp add: store_events_def)
  show "set (store_events env st) = {e. \<exists>k. fmlookup st k = Some e}"
    using assms(1) by (force simp: store_events_def order_ok_def List.map_filter_def fmlookup_dom_iff)
qed

definition item_of :: "'r mesh_env \<Rightarrow> canonical_event \<Rightarrow> u64 \<times> bytes" where
  "item_of env e = (ce_created_at e, the (me_hex_decode env (ce_id e)))"

lemma negentropy_items_map:
  "\<forall>e \<in> set es. \<exists>b. length b = 32 \<and> me_hex_decode env (ce_id e) = Some b \<Longrightarrow>
     negentropy_items env es = Ok (map (item_of env) es)"
  by (induction es) (auto simp: negentropy_id_def item_of_def)

lemma event_id_ok:
  assumes "order_ok env" "mesh_store_ok env st" "e \<in> set (store_events env st)"
  shows "fmlookup st (ce_id e) = Some e"
    "\<exists>b. length b = 32 \<and> me_hex_decode env (ce_id e) = Some b \<and> me_hex_encode env b = ce_id e"
  using assms(2,3) store_events_facts(2) [OF assms(1,2)] by (auto simp: mesh_store_ok_def)

lemma items_of_store:
  assumes "order_ok env" "mesh_store_ok env st"
  defines "items \<equiv> map (item_of env) (store_events env st)"
  shows "negentropy_items env (store_events env st) = Ok items" "distinct (map snd items)"
    "list_all (\<lambda>x. length (snd x) = 32) items"
    "me_hex_encode env ` snd ` set items = fset (fmdom st)"
proof -
  note ids = event_id_ok(2) [OF assms(1,2)]
  show "negentropy_items env (store_events env st) = Ok items"
    using negentropy_items_map ids unfolding items_def by blast
  have enc: "map (me_hex_encode env) (map snd items) = me_order env st"
    unfolding store_events_facts(1) [OF assms(1,2), symmetric] items_def using ids
    by (fastforce simp: item_of_def)
  then show "distinct (map snd items)" using assms(1) distinct_map by (metis order_ok_def)
  show "list_all (\<lambda>x. length (snd x) = 32) items" using ids by (fastforce simp: items_def item_of_def list_all_iff)
  show "me_hex_encode env ` snd ` set items = fset (fmdom st)"
    using arg_cong [OF enc, of set] assms(1) by (simp add: order_ok_def image_image)
qed

lemma transfer_spec:
  assumes "\<And>k e. fmlookup src k = Some e \<Longrightarrow> ce_id e = k"
  shows "transfer sf src is dst l = (dst', l', n) \<Longrightarrow>
    (\<forall>k. fmlookup dst' k = (case fmlookup dst k of Some e \<Rightarrow> Some e | None \<Rightarrow> if k \<in> set is then fmlookup src k else None))
    \<and> fcard (fmdom dst') = fcard (fmdom dst) + n"
proof (induction "is" arbitrary: dst l dst' l' n)
  case (Cons i "is")
  show ?case
  proof (cases "fmlookup src i")
    case None
    then have "transfer sf src is dst l = (dst', l', n)" using Cons.prems by simp
    from Cons.IH [OF this] show ?thesis using None by (auto split: option.split)
  next
    case (Some e)
    then have e: "ce_id e = i" by (rule assms)
    show ?thesis
    proof (cases "fmlookup dst i = None")
      case True
      then obtain m where m: "transfer sf src is (fmupd i e dst) (sf e l) = (dst', l', m)" "n = Suc m"
        using Cons.prems Some e by (auto simp: store_persist_def split: prod.splits)
      have "i |\<notin>| fmdom dst" using True by (simp add: fmdom_notI)
      then have "fcard (fmdom (fmupd i e dst)) = Suc (fcard (fmdom dst))" by (simp add: fcard_finsert_disjoint)
      with Cons.IH [OF m(1)] m(2) True Some show ?thesis by (auto split: option.split)
    next
      case False
      then have "transfer sf src is dst (sf e l) = (dst', l', n)"
        using Cons.prems Some e by (auto simp: store_persist_def split: prod.splits)
      from Cons.IH [OF this] False show ?thesis by (auto split: option.split)
    qed
  qed
qed (auto split: option.split)

text \<open>C24. Reconciling two stores ends, and afterwards both hold exactly the events of either, each store keeping
  its own version; the result counts the events that were new to each side.\<close>

theorem reconcile_converges:
  assumes "negentropy_ok env" "order_ok env" "mesh_store_ok env L" "mesh_store_ok env R"
  shows "\<exists>L' R' link' res. reconcile_with env sub_id filt (L, R, link) = Some ((L', R', link'), Ok res)
    \<and> (\<forall>k. fmlookup L' k = (case fmlookup L k of Some e \<Rightarrow> Some e | None \<Rightarrow> fmlookup R k))
    \<and> (\<forall>k. fmlookup R' k = (case fmlookup R k of Some e \<Rightarrow> Some e | None \<Rightarrow> fmlookup L k))
    \<and> fcard (fmdom R') = fcard (fmdom R) + rr_sent_to_remote res
    \<and> fcard (fmdom L') = fcard (fmdom L) + rr_received_from_remote res"
proof -
  define l r where "l = map (item_of env) (store_events env L)" and "r = map (item_of env) (store_events env R)"
  note il = items_of_store [OF assms(2,3), folded l_def] and ir = items_of_store [OF assms(2,4), folded r_def]
  obtain i rs i' q h n where ng: "ng_new env l = Ok i" "ng_new env r = Ok rs" "ng_initiate env i = (i', Ok q)"
    "exchange env i' rs q h n" "set h = snd ` (set l - set r)" "set n = snd ` (set r - set l)"
    using assms(1) il(2,3) ir(2,3) unfolding negentropy_ok_def by (metis list_all_append)
  let ?link = "a_to_b (neg_open env sub_id filt q) link"
  obtain l1 where loop: "neg_loop env sub_id i' rs q [] [] ?link = Some (l1, Ok (h, n))"
    using neg_loop_exchange [OF ng(4), of sub_id "[]" "[]" ?link] by auto
  define hv nd where "hv = map (me_hex_encode env) h" and "nd = map (me_hex_encode env) n"
  have only: "k \<in> me_hex_encode env ` snd ` (A - B)"
    if "k \<in> me_hex_encode env ` snd ` A" "k \<notin> me_hex_encode env ` snd ` B" for k A B
    using that by blast
  have hv: "\<And>k. k \<in> fset (fmdom L) \<Longrightarrow> k \<notin> fset (fmdom R) \<Longrightarrow> k \<in> set hv"
    using only [of _ "set l" "set r"] unfolding il(4) ir(4) hv_def set_map ng(5) by blast
  have nd: "\<And>k. k \<in> fset (fmdom R) \<Longrightarrow> k \<notin> fset (fmdom L) \<Longrightarrow> k \<in> set nd"
    using only [of _ "set r" "set l"] unfolding il(4) ir(4) nd_def set_map ng(6) by blast
  obtain R' l2 sent where t1: "transfer (\<lambda>e. a_to_b (publish_frame env e)) L hv R l1 = (R', l2, sent)"
    by (metis prod_cases3)
  have keysL: "\<And>k e. fmlookup L k = Some e \<Longrightarrow> ce_id e = k" and keysR: "\<And>k e. fmlookup R k = Some e \<Longrightarrow> ce_id e = k"
    using assms(3,4) by (auto simp: mesh_store_ok_def)
  note s1 = transfer_spec [OF keysL t1]
  have R': "fmlookup R' k = (case fmlookup R k of Some e \<Rightarrow> Some e | None \<Rightarrow> fmlookup L k)" for k
  proof (cases "fmlookup R k")
    case None
    then show ?thesis using s1 hv [of k] by (cases "fmlookup L k") (auto simp: fmlookup_dom_iff)
  qed (use s1 in auto)
  let ?rid = "sub_id @ '':missing''"
  obtain L' l3 received where t2: "transfer (\<lambda>e. b_to_a (response_frame env ?rid e)) R' nd L
      (if nd \<noteq> [] then a_to_b (request_frame env ?rid nd) l2 else l2) = (L', l3, received)"
    by (metis prod_cases3)
  have keysR': "\<And>k e. fmlookup R' k = Some e \<Longrightarrow> ce_id e = k" using keysL keysR R' by (auto split: option.splits)
  note s2 = transfer_spec [OF keysR' t2]
  have L': "fmlookup L' k = (case fmlookup L k of Some e \<Rightarrow> Some e | None \<Rightarrow> fmlookup R k)" for k
  proof (cases "fmlookup L k")
    case None
    then show ?thesis using s2 nd [of k] R' by (cases "fmlookup R k") (auto simp: fmlookup_dom_iff)
  qed (use s2 in auto)
  have storages: "negentropy_storage env L = Ok i" "negentropy_storage env R = Ok rs"
    using ng(1,2) by (simp_all add: negentropy_storage_def il(1) ir(1))
  have "\<exists>link'. reconcile_with env sub_id filt (L, R, link) =
      Some ((L', R', link'), Ok \<lparr>rr_sent_to_remote = sent, rr_received_from_remote = received\<rparr>)"
    using t1 t2 loop ng(3) storages by (cases "n = []") (simp_all add: reconcile_with_def hv_def nd_def Let_def split_beta)
  then show ?thesis using L' R' s1 s2 by auto
qed

text \<open>The difference a peer session reports at the end of a sync is what its reconciler found in the last
  round alone: ids found in an earlier round are dropped, whatever they were.\<close>

theorem session_reports_last_round:
  assumes "me_parse env f1 = Some (JArr [JStr ''NEG-MSG'', JStr sub_id, JStr p1])" "me_hex_decode env p1 = Some b1"
    "me_parse env f2 = Some (JArr [JStr ''NEG-MSG'', JStr sub_id, JStr p2])" "me_hex_decode env p2 = Some b2"
    "fmlookup s sub_id = Some (Initiator r)"
    "ng_reconcile_with_ids env r b1 = (r1, Ok (have1, need1, Some q))"
    "ng_reconcile_with_ids env r1 b2 = (r2, Ok (have2, need2, None))"
  shows "\<exists>s1 s2 out. session_handle env f1 st s = (s1, Ok out) \<and> so_completed out = None
    \<and> session_handle env f2 st s1 = (s2, Ok \<lparr>so_frames = [neg_close env sub_id],
        so_completed = Some \<lparr>df_have = map (me_hex_encode env) have2, df_need = map (me_hex_encode env) need2\<rparr>\<rparr>)"
  using assms by (simp add: session_handle_def str_at_def session_msg_def decode_payload_def)

section \<open>Examples\<close>

text \<open>A reconciler that sends its whole set, each time in unary: it keeps the promise in one round.\<close>

fun put_items :: "(u64 \<times> bytes) list \<Rightarrow> bytes" where
  "put_items [] = []"
| "put_items ((t, i) # is) = replicate (unat t) 1 @ [0] @ take 32 i @ put_items is"

function get_items :: "bytes \<Rightarrow> (u64 \<times> bytes) list" where
  "get_items b =
     (if b = [] then []
      else let t = takeWhile (\<lambda>x. x = 1) b; rest = drop (Suc (length t)) b
           in (of_nat (length t), take 32 rest) # get_items (drop 32 rest))"
  by pat_completeness auto
termination
  by (relation "measure length") auto

declare get_items.simps [simp del]

lemma get_put_items: "list_all (\<lambda>x. length (snd x) = 32) is \<Longrightarrow> get_items (put_items is) = is"
proof (induction "is")
  case (Cons x "is")
  obtain t i where x: "x = (t, i)" by (cases x)
  have "takeWhile (\<lambda>x. x = 1) (replicate (unat t) 1 @ [0] @ take 32 i @ put_items is) = replicate (unat t) (1 :: u8)"
    by (subst takeWhile_append2) simp_all
  then show ?case using Cons by (subst get_items.simps) (simp add: x Let_def)
qed (simp add: get_items.simps)

definition example_mesh_env :: "(u64 \<times> bytes) list mesh_env" where
  "example_mesh_env =
     \<lparr>me_parse = (\<lambda>_. None), me_print = (\<lambda>_. []), me_event_of = (\<lambda>_. None),
      me_hex_encode = map (\<lambda>b. char_of (unat b)), me_hex_decode = (\<lambda>s. Some (map (\<lambda>c. of_nat (of_char c)) s)),
      me_order = (\<lambda>st. sorted_list_of_fset (fmdom st)),
      ng_new = Ok, ng_initiate = (\<lambda>r. (r, Ok [])), ng_reconcile = (\<lambda>r _. (r, Ok (put_items r))),
      ng_reconcile_with_ids = (\<lambda>r b. (r, Ok (map snd (filter (\<lambda>x. x \<notin> set (get_items b)) r),
        map snd (filter (\<lambda>x. x \<notin> set r) (get_items b)), None)))\<rparr>"

lemma example_negentropy: "negentropy_ok example_mesh_env"
  unfolding negentropy_ok_def
proof (intro allI impI)
  fix L R :: "(u64 \<times> bytes) list"
  assume len: "list_all (\<lambda>x. length (snd x) = 32) (L @ R)"
  have "exchange example_mesh_env L R [] (map snd (filter (\<lambda>x. x \<notin> set R) L)) (map snd (filter (\<lambda>x. x \<notin> set L) R))"
    by (rule last_round [where r' = R and resp = "put_items R" and i' = L])
      (use len get_put_items [of R] in \<open>simp_all add: example_mesh_env_def\<close>)
  then show "\<exists>i r i' q h n. ng_new example_mesh_env L = Ok i \<and> ng_new example_mesh_env R = Ok r
      \<and> ng_initiate example_mesh_env i = (i', Ok q) \<and> exchange example_mesh_env i' r q h n
      \<and> set h = snd ` (set L - set R) \<and> set n = snd ` (set R - set L)"
    by (intro exI conjI) (assumption | simp add: example_mesh_env_def | auto)+
qed

definition mesh_note :: "char \<Rightarrow> canonical_event" where
  "mesh_note c = \<lparr>ce_id = replicate 32 c, ce_pubkey = [], ce_created_at = 1, ce_kind = 0, ce_tags = [], ce_content = [], ce_sig = []\<rparr>"

definition one_note :: "char \<Rightarrow> memory_event_store" where
  "one_note c = fmupd (replicate 32 c) (mesh_note c) fmempty"

lemma example_codec: "me_hex_encode example_mesh_env (map (\<lambda>c. of_nat (of_char c)) s) = s"
proof -
  have "unat (of_nat (of_char c) :: u8) = of_char c" for c :: char
  proof -
    have "(of_char c :: nat) < 256" by simp
    then show ?thesis by (simp add: unat_of_nat take_bit_nat_eq_self)
  qed
  then show ?thesis by (simp add: example_mesh_env_def comp_def)
qed

lemma example_store: "mesh_store_ok example_mesh_env (one_note c)"
  using example_codec [of "replicate 32 c"]
  by (auto simp: mesh_store_ok_def one_note_def mesh_note_def example_mesh_env_def)

lemma example_order: "order_ok example_mesh_env"
  by (simp add: order_ok_def example_mesh_env_def sorted_list_of_fset.rep_eq)

theorem reconcile_converges_witness:
  "\<exists>L' R' link' res. reconcile_with example_mesh_env ''s'' JNull (one_note CHR ''a'', one_note CHR ''b'', \<lparr>lk_a_to_b = [], lk_b_to_a = []\<rparr>)
      = Some ((L', R', link'), Ok res) \<and> fmlookup L' (replicate 32 CHR ''b'') = Some (mesh_note CHR ''b'')"
proof -
  have "fmlookup (one_note CHR ''a'') (replicate 32 CHR ''b'') = None"
    "fmlookup (one_note CHR ''b'') (replicate 32 CHR ''b'') = Some (mesh_note CHR ''b'')"
    by (simp_all add: one_note_def)
  then show ?thesis
    using reconcile_converges [OF example_negentropy example_order example_store example_store, of "''s''" JNull "CHR ''a''" "CHR ''b''"
        "\<lparr>lk_a_to_b = [], lk_b_to_a = []\<rparr>"]
    by fastforce
qed

definition two_rounds_env :: "nat mesh_env" where
  "two_rounds_env =
     \<lparr>me_parse = (\<lambda>_. Some (JArr [JStr ''NEG-MSG'', JStr ''s'', JStr []])), me_print = (\<lambda>_. []), me_event_of = (\<lambda>_. None),
      me_hex_encode = map (\<lambda>b. char_of (unat b)), me_hex_decode = (\<lambda>s. Some []), me_order = (\<lambda>st. sorted_list_of_fset (fmdom st)),
      ng_new = (\<lambda>_. Ok 0), ng_initiate = (\<lambda>r. (r, Ok [])), ng_reconcile = (\<lambda>r _. (r, Ok [])),
      ng_reconcile_with_ids = (\<lambda>r _. (Suc r, Ok (if r = 0 then ([[65]], [], Some []) else ([], [[66]], None))))\<rparr>"

theorem session_reports_last_round_witness:
  "\<exists>s1 s2 out. session_handle two_rounds_env [] fmempty (fmupd ''s'' (Initiator 0) fmempty) = (s1, Ok out)
    \<and> session_handle two_rounds_env [] fmempty s1 = (s2, Ok \<lparr>so_frames = [neg_close two_rounds_env ''s''],
        so_completed = Some \<lparr>df_have = [], df_need = [''B'']\<rparr>\<rparr>)"
proof -
  have "char_of (66 :: nat) = CHR ''B''" by code_simp
  then have "map (me_hex_encode two_rounds_env) [[66]] = [''B'']" by (simp add: two_rounds_env_def)
  then show ?thesis
    using session_reports_last_round [of two_rounds_env "[]" "''s''" "[]" "[]" "[]" "[]" "[]" "fmupd ''s'' (Initiator 0) fmempty"
        0 1 "[[65]]" "[]" "[]" 2 "[]" "[[66]]" fmempty]
    by (fastforce simp: two_rounds_env_def)
qed

end
