(* ===== verification/Mesh_Runtime.thy ===== *)
theory Mesh_Runtime
  imports Mesh_Session Nostr_Event Cache_Input
begin

text \<open>
  The mesh runtime and its cache client, after \<open>mesh/src/runtime.rs\<close> and \<open>mesh/src/cache.rs\<close>. The channel to
  the cache worker is a list of sent messages, a list of responses not yet read and whether it is open;
  \<open>rt_recv\<close> of an empty list is a closed channel. Parameters: the FlatBuffers readers and builders, the
  hash that labels a peer, and the computation of event ids and the signature check of \<open>nipworker_core\<close>.
\<close>

section \<open>Cache client\<close>

record mesh_request =
  mq_ids :: "string list"
  mq_authors :: "string list"
  mq_kinds :: "i32 list"
  mq_since :: "i32 option"
  mq_until :: "i32 option"
  mq_limit :: "i32 option"
  mq_cache_only :: bool

record cache_env =
  cn_fb :: fb_codec
  cn_cache_response :: "bytes \<Rightarrow> (string \<times> bytes option) option"
  cn_cache_request :: "string \<Rightarrow> mesh_request list \<Rightarrow> bytes"
  cn_worker_message :: "canonical_event \<Rightarrow> string \<Rightarrow> string \<Rightarrow> bytes"
  cn_clear_message :: "string \<Rightarrow> bytes"

record mesh_cache_client =
  mc_open :: bool
  mc_sent :: "bytes list"
  mc_inbox :: "bytes list"
  mc_next_request_id :: u64

definition channel_send :: "bytes \<Rightarrow> mesh_cache_client \<Rightarrow> mesh_cache_client \<times> (mesh_error + unit)" where
  "channel_send b c = (if mc_open c then (c\<lparr>mc_sent := mc_sent c @ [b]\<rparr>, Ok ()) else (c, Err CacheChannelClosed))"

definition build_worker_message :: "cache_env \<Rightarrow> canonical_event \<Rightarrow> string \<Rightarrow> string \<Rightarrow> bytes" where
  "build_worker_message env e sub_id source = frame TAG_PERSIST (cn_worker_message env e sub_id source)"

definition build_cache_request :: "cache_env \<Rightarrow> string \<Rightarrow> mesh_request list \<Rightarrow> bytes" where
  "build_cache_request env sub_id requests = frame TAG_REQUEST (cn_cache_request env sub_id requests)"

definition cache_persist :: "cache_env \<Rightarrow> canonical_event \<Rightarrow> string \<Rightarrow> mesh_cache_client \<Rightarrow> mesh_cache_client \<times> (mesh_error + unit)" where
  "cache_persist env e source = channel_send (build_worker_message env e ''save_to_db'' source)"

definition pin_profile :: "cache_env \<Rightarrow> canonical_event \<Rightarrow> mesh_cache_client \<Rightarrow> mesh_cache_client \<times> (mesh_error + unit)" where
  "pin_profile env e = channel_send (build_worker_message env e ''mesh_pin_profile'' ''local://mesh-profile'')"

definition clear_profile :: "cache_env \<Rightarrow> mesh_cache_client \<Rightarrow> mesh_cache_client \<times> (mesh_error + unit)" where
  "clear_profile env = channel_send (frame TAG_PERSIST (cn_clear_message env ''mesh_clear_profile''))"

definition canonical_event_of :: "nostr_event \<Rightarrow> canonical_event" where
  "canonical_event_of n =
     \<lparr>ce_id = ne_id n, ce_pubkey = ne_pubkey n, ce_created_at = ucast (clamp_i32 (ne_created_at n)), ce_kind = ne_kind n,
      ce_tags = map (\<lambda>t. case t of Some items \<Rightarrow> items | None \<Rightarrow> []) (ne_tags n), ce_content = ne_content n, ce_sig = ne_sig n\<rparr>"

function decode_batch :: "cache_env \<Rightarrow> bytes \<Rightarrow> nat \<Rightarrow> canonical_event list \<Rightarrow> mesh_error + canonical_event list" where
  "decode_batch env payload offset events =
     (if offset < length payload then
        (if length payload - offset < 4 then Err InvalidCacheResponse
         else
           (let end_pos = offset + 4 + read_le32 payload offset
            in if end_pos > length payload then Err InvalidCacheResponse
               else
                 (case root_worker_message (cn_fb env) (subslice payload (offset + 4) end_pos) of
                    None \<Rightarrow> Err InvalidCacheResponse
                  | Some (WmNostr (Some n)) \<Rightarrow> decode_batch env payload end_pos (events @ [canonical_event_of n])
                  | Some _ \<Rightarrow> Err InvalidCacheRecord)))
      else Ok events)"
  by pat_completeness auto
termination
  by (relation "measure (\<lambda>(env, payload, offset, events). length payload - offset)") auto

declare decode_batch.simps [simp del]

fun query_loop :: "cache_env \<Rightarrow> string \<Rightarrow> bytes list \<Rightarrow> canonical_event list \<Rightarrow> bytes list \<times> (mesh_error + canonical_event list)" where
  "query_loop env sub_id [] events = ([], Err CacheChannelClosed)"
| "query_loop env sub_id (b # inbox) events =
     (case cn_cache_response env b of
        None \<Rightarrow> (inbox, Err InvalidCacheResponse)
      | Some (actual, payload) \<Rightarrow>
          if actual \<noteq> sub_id then (inbox, Err (UnexpectedCacheResponse sub_id actual))
          else
            (case payload of
               None \<Rightarrow> (inbox, Err InvalidCacheResponse)
             | Some p \<Rightarrow>
                 if p = [] then (inbox, Ok events)
                 else
                   (case decode_batch env p 0 events of
                      Err x \<Rightarrow> (inbox, Err x)
                    | Ok events \<Rightarrow> query_loop env sub_id inbox events)))"

definition request_sub_id :: "u64 \<Rightarrow> string" where
  "request_sub_id n = ''mesh-cache:'' @ show_nat (unat n)"

definition cache_query ::
  "cache_env \<Rightarrow> mesh_request list \<Rightarrow> mesh_cache_client \<Rightarrow> mesh_cache_client \<times> (mesh_error + canonical_event list)" where
  "cache_query env requests c =
     (let sub_id = request_sub_id (mc_next_request_id c); c = c\<lparr>mc_next_request_id := mc_next_request_id c + 1\<rparr>
      in case channel_send (build_cache_request env sub_id requests) c of
           (c, Err x) \<Rightarrow> (c, Err x)
         | (c, Ok _) \<Rightarrow> (let (inbox, r) = query_loop env sub_id (mc_inbox c) [] in (c\<lparr>mc_inbox := inbox\<rparr>, r)))"

section \<open>Runtime\<close>

record 'r mesh_peer =
  mp_session :: "'r peer_session"
  mp_snapshot :: memory_event_store
  mp_next_subscription :: u64

record 'r mesh_runtime =
  rt_cache :: mesh_cache_client
  rt_transport :: mesh_byte_transport
  rt_peers :: "(string, 'r mesh_peer) fmap"

record 'r runtime_env =
  rv_mesh :: "'r mesh_env"
  rv_cache :: cache_env
  rv_label :: "string \<Rightarrow> string"
  rv_event_id :: "bytes \<Rightarrow> canonical_event \<Rightarrow> string"
  rv_verify :: "bytes \<Rightarrow> bytes \<Rightarrow> canonical_event \<Rightarrow> bool"

definition runtime_new :: "mesh_cache_client \<Rightarrow> 'r mesh_runtime" where
  "runtime_new cache = \<lparr>rt_cache = cache, rt_transport = transport_new transport_config_default, rt_peers = fmempty\<rparr>"

definition key32 :: "'r runtime_env \<Rightarrow> string \<Rightarrow> bytes option" where
  "key32 env x =
     (case me_hex_decode (rv_mesh env) x of Some b \<Rightarrow> if length b = 32 then Some b else None | None \<Rightarrow> None)"

definition validate_event :: "'r runtime_env \<Rightarrow> canonical_event \<Rightarrow> mesh_error + unit" where
  "validate_event env e =
     (case key32 env (ce_pubkey e) of
        None \<Rightarrow> Err (InvalidEvent ''pubkey'')
      | Some pk \<Rightarrow>
          if rv_event_id env pk e \<noteq> ce_id e then Err (InvalidEvent ''event id mismatch'')
          else
            (case key32 env (ce_id e) of
               None \<Rightarrow> Err (InvalidEvent ''id'')
             | Some i \<Rightarrow> if rv_verify env i pk e then Ok () else Err (InvalidEvent ''signature'')))"

definition kind_zero_snapshot :: "'r runtime_env \<Rightarrow> mesh_cache_client \<Rightarrow> mesh_cache_client \<times> (mesh_error + memory_event_store)" where
  "kind_zero_snapshot env c =
     (case cache_query (rv_cache env)
        [\<lparr>mq_ids = [], mq_authors = [], mq_kinds = [0], mq_since = None, mq_until = None, mq_limit = None, mq_cache_only = True\<rparr>] c of
        (c, Err x) \<Rightarrow> (c, Err x)
      | (c, Ok events) \<Rightarrow> (c, Ok (fold (\<lambda>e st. fst (store_persist e st)) events fmempty)))"

definition runtime_peer_connected ::
  "'r runtime_env \<Rightarrow> string \<Rightarrow> nat \<Rightarrow> 'r mesh_runtime \<Rightarrow> 'r mesh_runtime \<times> (mesh_error + unit)" where
  "runtime_peer_connected env peer_id mtu rt =
     (case peer_connected peer_id mtu (rt_transport rt) of
        (t, Err x) \<Rightarrow> (rt\<lparr>rt_transport := t\<rparr>, Err x)
      | (t, Ok _) \<Rightarrow>
          (case kind_zero_snapshot env (rt_cache rt) of
             (c, Err x) \<Rightarrow> (rt\<lparr>rt_transport := t, rt_cache := c\<rparr>, Err x)
           | (c, Ok snapshot) \<Rightarrow>
               (case begin_sync (rv_mesh env) (''mesh-kind0-'' @ rv_label env peer_id)
                  (JObj [(''kinds'', JArr [JNum 0])]) snapshot fmempty of
                  (session, Err x) \<Rightarrow> (rt\<lparr>rt_transport := t, rt_cache := c\<rparr>, Err x)
                | (session, Ok open_frame) \<Rightarrow>
                    (case send peer_id open_frame t of
                       (t, Err x) \<Rightarrow> (rt\<lparr>rt_transport := t, rt_cache := c\<rparr>, Err x)
                     | (t, Ok _) \<Rightarrow>
                         (rt\<lparr>rt_transport := t, rt_cache := c,
                            rt_peers := fmupd peer_id
                              \<lparr>mp_session = session, mp_snapshot = snapshot, mp_next_subscription = 0\<rparr> (rt_peers rt)\<rparr>, Ok ())))))"

definition runtime_peer_disconnected :: "string \<Rightarrow> 'r mesh_runtime \<Rightarrow> 'r mesh_runtime" where
  "runtime_peer_disconnected peer_id rt =
     rt\<lparr>rt_transport := peer_disconnected peer_id (rt_transport rt), rt_peers := fmdrop peer_id (rt_peers rt)\<rparr>"

definition set_local_profile :: "'r runtime_env \<Rightarrow> canonical_event \<Rightarrow> 'r mesh_runtime \<Rightarrow> 'r mesh_runtime \<times> (mesh_error + unit)" where
  "set_local_profile env e rt =
     (if ce_kind e \<noteq> 0 then (rt, Err (InvalidEvent ''mesh profile must be a kind 0 event''))
      else
        (case validate_event env e of
           Err x \<Rightarrow> (rt, Err x)
         | Ok _ \<Rightarrow> (let (c, r) = pin_profile (rv_cache env) e (rt_cache rt) in (rt\<lparr>rt_cache := c\<rparr>, r))))"

definition clear_local_profile :: "'r runtime_env \<Rightarrow> 'r mesh_runtime \<Rightarrow> 'r mesh_runtime \<times> (mesh_error + unit)" where
  "clear_local_profile env rt = (let (c, r) = clear_profile (rv_cache env) (rt_cache rt) in (rt\<lparr>rt_cache := c\<rparr>, r))"

definition runtime_pop_outbound :: "string \<Rightarrow> 'r mesh_runtime \<Rightarrow> 'r mesh_runtime \<times> bytes option" where
  "runtime_pop_outbound peer_id rt =
     (let (t, b) = pop_outbound peer_id (rt_transport rt) in (rt\<lparr>rt_transport := t\<rparr>, b))"

section \<open>Filters of a request\<close>

fun json_strings :: "json list \<Rightarrow> mesh_error + string list" where
  "json_strings [] = Ok []"
| "json_strings (JStr x # js) = (case json_strings js of Err e \<Rightarrow> Err e | Ok xs \<Rightarrow> Ok (x # xs))"
| "json_strings (j # js) = Err InvalidFrame"

definition i32_of :: "json \<Rightarrow> i32 option" where
  "i32_of j = (case j of JNum n \<Rightarrow> if - (2 ^ 31) \<le> n \<and> n < 2 ^ 31 then Some (of_int n) else None | _ \<Rightarrow> None)"

fun json_numbers :: "json list \<Rightarrow> mesh_error + i32 list" where
  "json_numbers [] = Ok []"
| "json_numbers (j # js) =
     (case i32_of j of
        None \<Rightarrow> Err InvalidFrame
      | Some n \<Rightarrow> (case json_numbers js of Err e \<Rightarrow> Err e | Ok ns \<Rightarrow> Ok (n # ns)))"

definition array_field :: "(json list \<Rightarrow> mesh_error + 'a list) \<Rightarrow> (string \<times> json) list \<Rightarrow> string \<Rightarrow> mesh_error + 'a list" where
  "array_field conv obj name =
     (case map_of obj name of None \<Rightarrow> Ok [] | Some (JArr js) \<Rightarrow> conv js | Some _ \<Rightarrow> Err InvalidFrame)"

definition request_from_filter :: "json \<Rightarrow> mesh_error + mesh_request" where
  "request_from_filter filt =
     (case filt of
        JObj obj \<Rightarrow>
          (case (array_field json_strings obj ''ids'', array_field json_strings obj ''authors'',
                 array_field json_numbers obj ''kinds'') of
             (Ok ids, Ok authors, Ok kinds) \<Rightarrow>
               Ok \<lparr>mq_ids = ids, mq_authors = authors, mq_kinds = kinds,
                   mq_since = Option.bind (map_of obj ''since'') i32_of, mq_until = Option.bind (map_of obj ''until'') i32_of,
                   mq_limit = Option.bind (map_of obj ''limit'') i32_of, mq_cache_only = True\<rparr>
           | _ \<Rightarrow> Err InvalidFrame)
      | _ \<Rightarrow> Err InvalidFrame)"

fun requests_from_filters :: "json list \<Rightarrow> mesh_error + mesh_request list" where
  "requests_from_filters [] = Ok []"
| "requests_from_filters (j # js) =
     (case request_from_filter j of
        Err e \<Rightarrow> Err e
      | Ok r \<Rightarrow> (case requests_from_filters js of Err e \<Rightarrow> Err e | Ok rs \<Rightarrow> Ok (r # rs)))"

section \<open>Frames of a peer\<close>

definition unknown_frame_peer :: "string \<Rightarrow> mesh_error" where
  "unknown_frame_peer peer_id = Frame (''frame from unknown peer '' @ peer_id)"

definition handle_open :: "'r runtime_env \<Rightarrow> string \<Rightarrow> bytes \<Rightarrow> 'r mesh_runtime \<Rightarrow> 'r mesh_runtime \<times> (mesh_error + bytes list)" where
  "handle_open env peer_id f rt =
     (case kind_zero_snapshot env (rt_cache rt) of
        (c, Err x) \<Rightarrow> (rt\<lparr>rt_cache := c\<rparr>, Err x)
      | (c, Ok snapshot) \<Rightarrow>
          (case fmlookup (rt_peers rt) peer_id of
             None \<Rightarrow> (rt\<lparr>rt_cache := c\<rparr>, Err (unknown_frame_peer peer_id))
           | Some p \<Rightarrow>
               (let (session, r) = session_handle (rv_mesh env) f snapshot (mp_session p)
                in (rt\<lparr>rt_cache := c,
                       rt_peers := fmupd peer_id (p\<lparr>mp_session := session, mp_snapshot := snapshot\<rparr>) (rt_peers rt)\<rparr>,
                    case r of Err x \<Rightarrow> Err x | Ok out \<Rightarrow> Ok (so_frames out)))))"

definition difference_frames :: "'r runtime_env \<Rightarrow> string \<Rightarrow> sync_difference \<Rightarrow> 'r mesh_peer \<Rightarrow> 'r mesh_peer \<times> bytes list" where
  "difference_frames env peer_id d p =
     (let published = map (publish_frame (rv_mesh env)) (List.map_filter (fmlookup (mp_snapshot p)) (df_have d))
      in if df_need d \<noteq> [] then
           (p\<lparr>mp_next_subscription := mp_next_subscription p + 1\<rparr>,
            published @ [request_frame (rv_mesh env)
              (''mesh-missing-'' @ rv_label env peer_id @ ''-'' @ show_nat (unat (mp_next_subscription p))) (df_need d)])
         else (p, published))"

definition handle_msg :: "'r runtime_env \<Rightarrow> string \<Rightarrow> bytes \<Rightarrow> 'r mesh_runtime \<Rightarrow> 'r mesh_runtime \<times> (mesh_error + bytes list)" where
  "handle_msg env peer_id f rt =
     (case fmlookup (rt_peers rt) peer_id of
        None \<Rightarrow> (rt, Err (unknown_frame_peer peer_id))
      | Some p \<Rightarrow>
          (case session_handle (rv_mesh env) f (mp_snapshot p) (mp_session p) of
             (session, Err x) \<Rightarrow> (rt\<lparr>rt_peers := fmupd peer_id (p\<lparr>mp_session := session\<rparr>) (rt_peers rt)\<rparr>, Err x)
           | (session, Ok out) \<Rightarrow>
               (let p = p\<lparr>mp_session := session\<rparr>;
                    (p, frames) = (case so_completed out of
                       None \<Rightarrow> (p, []) | Some d \<Rightarrow> difference_frames env peer_id d p)
                in (rt\<lparr>rt_peers := fmupd peer_id p (rt_peers rt)\<rparr>, Ok (so_frames out @ frames)))))"

definition handle_req :: "'r runtime_env \<Rightarrow> json list \<Rightarrow> 'r mesh_runtime \<Rightarrow> 'r mesh_runtime \<times> (mesh_error + bytes list)" where
  "handle_req env a rt =
     (case str_at a 1 of
        None \<Rightarrow> (rt, Err InvalidFrame)
      | Some sub_id \<Rightarrow>
          if drop 2 a = [] then (rt, Err InvalidFrame)
          else
            (case requests_from_filters (drop 2 a) of
               Err x \<Rightarrow> (rt, Err x)
             | Ok requests \<Rightarrow>
                 (case cache_query (rv_cache env) requests (rt_cache rt) of
                    (c, Err x) \<Rightarrow> (rt\<lparr>rt_cache := c\<rparr>, Err x)
                  | (c, Ok events) \<Rightarrow>
                      (rt\<lparr>rt_cache := c\<rparr>,
                       Ok (map (response_frame (rv_mesh env) sub_id) events @ [eose_frame (rv_mesh env) sub_id])))))"

definition handle_event :: "'r runtime_env \<Rightarrow> string \<Rightarrow> json list \<Rightarrow> 'r mesh_runtime \<Rightarrow> 'r mesh_runtime \<times> (mesh_error + bytes list)" where
  "handle_event env peer_id a rt =
     (case (if length a = 2 then Some (a ! 1) else if length a = 3 then Some (a ! 2) else None) of
        None \<Rightarrow> (rt, Err InvalidFrame)
      | Some j \<Rightarrow>
          (case me_event_of (rv_mesh env) j of
             None \<Rightarrow> (rt, Err JsonError)
           | Some e \<Rightarrow>
               (case validate_event env e of
                  Err x \<Rightarrow> (rt, Err x)
                | Ok _ \<Rightarrow>
                    if ce_kind e \<noteq> 0 then (rt, Err (InvalidEvent ''initial mesh policy only accepts kind 0''))
                    else
                      (case cache_persist (rv_cache env) e (''ble://'' @ peer_id) (rt_cache rt) of
                         (c, Err x) \<Rightarrow> (rt\<lparr>rt_cache := c\<rparr>, Err x)
                       | (c, Ok _) \<Rightarrow>
                           (case fmlookup (rt_peers rt) peer_id of
                              None \<Rightarrow> (rt\<lparr>rt_cache := c\<rparr>, Ok [])
                            | Some p \<Rightarrow>
                                (rt\<lparr>rt_cache := c,
                                   rt_peers := fmupd peer_id (p\<lparr>mp_snapshot := fst (store_persist e (mp_snapshot p))\<rparr>) (rt_peers rt)\<rparr>,
                                 Ok []))))))"

definition handle_frame ::
  "'r runtime_env \<Rightarrow> string \<Rightarrow> bytes \<Rightarrow> 'r mesh_runtime \<Rightarrow> 'r mesh_runtime \<times> (mesh_error + bytes list)" where
  "handle_frame env peer_id f rt =
     (case me_parse (rv_mesh env) f of
        None \<Rightarrow> (rt, Err JsonError)
      | Some (JArr a) \<Rightarrow>
          (case str_at a 0 of
             None \<Rightarrow> (rt, Err InvalidFrame)
           | Some kind \<Rightarrow>
               if kind = ''NEG-OPEN'' then handle_open env peer_id f rt
               else if kind = ''NEG-MSG'' \<or> kind = ''NEG-CLOSE'' then handle_msg env peer_id f rt
               else if kind = ''REQ'' then handle_req env a rt
               else if kind = ''EVENT'' then handle_event env peer_id a rt
               else if kind = ''EOSE'' then (rt, Ok [])
               else (rt, Err (UnexpectedSessionMessage kind)))
      | Some _ \<Rightarrow> (rt, Err InvalidFrame))"

fun send_all :: "string \<Rightarrow> bytes list \<Rightarrow> 'r mesh_runtime \<Rightarrow> 'r mesh_runtime \<times> (mesh_error + unit)" where
  "send_all peer_id [] rt = (rt, Ok ())"
| "send_all peer_id (f # fs) rt =
     (case send peer_id f (rt_transport rt) of
        (t, Err x) \<Rightarrow> (rt\<lparr>rt_transport := t\<rparr>, Err x)
      | (t, Ok _) \<Rightarrow> send_all peer_id fs (rt\<lparr>rt_transport := t\<rparr>))"

definition json_array :: "'r mesh_env \<Rightarrow> bytes \<Rightarrow> bool option" where
  "json_array env b = map_option (\<lambda>j. case j of JArr _ \<Rightarrow> True | _ \<Rightarrow> False) (me_parse env b)"

definition receive_fragment ::
  "'r runtime_env \<Rightarrow> string \<Rightarrow> bytes \<Rightarrow> nat \<Rightarrow> 'r mesh_runtime \<Rightarrow> 'r mesh_runtime \<times> (mesh_error + unit)" where
  "receive_fragment env peer_id b now rt =
     (case receive (json_array (rv_mesh env)) peer_id b now (rt_transport rt) of
        (t, Err x) \<Rightarrow> (rt\<lparr>rt_transport := t\<rparr>, Err x)
      | (t, Ok None) \<Rightarrow> (rt\<lparr>rt_transport := t\<rparr>, Ok ())
      | (t, Ok (Some f)) \<Rightarrow>
          (case handle_frame env peer_id f (rt\<lparr>rt_transport := t\<rparr>) of
             (rt, Err x) \<Rightarrow> (rt, Err x)
           | (rt, Ok responses) \<Rightarrow> send_all peer_id responses rt))"

section \<open>What reaches the cache\<close>

text \<open>The messages the runtime may send: valid events of kind 0, requests, and the clearing of the profile.\<close>

definition allowed_message :: "'r runtime_env \<Rightarrow> bytes \<Rightarrow> bool" where
  "allowed_message env m =
     ((\<exists>e sub_id source. m = build_worker_message (rv_cache env) e sub_id source \<and> validate_event env e = Ok () \<and> ce_kind e = 0)
      \<or> (\<exists>sub_id requests. m = build_cache_request (rv_cache env) sub_id requests)
      \<or> m = frame TAG_PERSIST (cn_clear_message (rv_cache env) ''mesh_clear_profile''))"

definition cache_ok :: "'r runtime_env \<Rightarrow> mesh_cache_client \<Rightarrow> bool" where
  "cache_ok env c = list_all (allowed_message env) (mc_sent c)"

lemma channel_send_ok: "cache_ok env c \<Longrightarrow> allowed_message env b \<Longrightarrow> cache_ok env (fst (channel_send b c))"
  by (simp add: channel_send_def cache_ok_def)

lemma query_ok: "cache_ok env c \<Longrightarrow> cache_ok env (fst (cache_query (rv_cache env) rs c))"
proof -
  assume ok: "cache_ok env c"
  have "allowed_message env (build_cache_request (rv_cache env) sub_id rs)" for sub_id by (auto simp: allowed_message_def)
  then show ?thesis using ok
    by (auto simp: cache_query_def channel_send_def cache_ok_def Let_def split_beta)
qed

lemma snapshot_ok:
  assumes "cache_ok env c" shows "cache_ok env (fst (kind_zero_snapshot env c))"
  using query_ok [OF assms] by (simp add: kind_zero_snapshot_def split: prod.split sum.split) (metis fst_conv)

lemma valid_message:
  "validate_event env e = Ok () \<Longrightarrow> ce_kind e = 0 \<Longrightarrow> allowed_message env (build_worker_message (rv_cache env) e sub_id source)"
  unfolding allowed_message_def by blast

lemma handle_event_ok:
  assumes "cache_ok env (rt_cache rt)" shows "cache_ok env (rt_cache (fst (handle_event env peer a rt)))"
  using channel_send_ok [OF assms valid_message]
  by (auto simp: handle_event_def cache_persist_def assms split: option.split sum.split prod.split) (metis fst_conv old.unit.exhaust)+

lemma handle_frame_ok:
  assumes "cache_ok env (rt_cache rt)" shows "cache_ok env (rt_cache (fst (handle_frame env peer f rt)))"
proof -
  have o: "cache_ok env (rt_cache (fst (handle_open env peer f rt)))"
    using snapshot_ok [OF assms] by (auto simp: handle_open_def Let_def split_beta split: option.split sum.split prod.split)
  have m: "cache_ok env (rt_cache (fst (handle_msg env peer f rt)))"
    using assms by (auto simp: handle_msg_def Let_def split_beta split: option.split sum.split prod.split)
  have r: "cache_ok env (rt_cache (fst (handle_req env a rt)))" for a
    using assms query_ok [OF assms] by (auto simp: handle_req_def split: option.split sum.split prod.split) (metis fst_conv)+
  show ?thesis using o m r handle_event_ok [OF assms] assms
    by (auto simp: handle_frame_def split: option.split json.split)
qed

lemma send_all_cache: "rt_cache (fst (send_all peer fs rt)) = rt_cache rt"
  by (induction fs arbitrary: rt) (auto split: prod.split sum.split)

lemma receive_fragment_ok:
  assumes "cache_ok env (rt_cache rt)" shows "cache_ok env (rt_cache (fst (receive_fragment env peer b now rt)))"
proof -
  have "cache_ok env (rt_cache rt')" if "handle_frame env peer f (rt\<lparr>rt_transport := t\<rparr>) = (rt', r)" for f t rt' r
    using handle_frame_ok [of env "rt\<lparr>rt_transport := t\<rparr>" peer f] assms that by simp
  then show ?thesis using assms
    by (auto simp: receive_fragment_def send_all_cache split: prod.split sum.split option.split)
qed

lemma connect_ok:
  assumes "cache_ok env (rt_cache rt)" shows "cache_ok env (rt_cache (fst (runtime_peer_connected env peer mtu rt)))"
proof -
  have "cache_ok env c" if "kind_zero_snapshot env (rt_cache rt) = (c, r)" for c r using snapshot_ok [OF assms] that by simp
  then show ?thesis using assms by (auto simp: runtime_peer_connected_def split: prod.split sum.split)
qed

datatype runtime_op =
    RtConnect string nat
  | RtDisconnect string
  | RtFragment string bytes nat
  | RtProfile canonical_event
  | RtClear
  | RtPop string
  | RtResponse bytes

fun runtime_step :: "'r runtime_env \<Rightarrow> runtime_op \<Rightarrow> 'r mesh_runtime \<Rightarrow> 'r mesh_runtime" where
  "runtime_step env (RtConnect peer mtu) rt = fst (runtime_peer_connected env peer mtu rt)"
| "runtime_step env (RtDisconnect peer) rt = runtime_peer_disconnected peer rt"
| "runtime_step env (RtFragment peer b now) rt = fst (receive_fragment env peer b now rt)"
| "runtime_step env (RtProfile e) rt = fst (set_local_profile env e rt)"
| "runtime_step env RtClear rt = fst (clear_local_profile env rt)"
| "runtime_step env (RtPop peer) rt = fst (runtime_pop_outbound peer rt)"
| "runtime_step env (RtResponse b) rt = rt\<lparr>rt_cache := (rt_cache rt)\<lparr>mc_inbox := mc_inbox (rt_cache rt) @ [b]\<rparr>\<rparr>"

lemma runtime_step_ok:
  assumes "cache_ok env (rt_cache rt)" shows "cache_ok env (rt_cache (runtime_step env op rt))"
proof (cases op)
  case (RtProfile e)
  have "cache_ok env (fst (pin_profile (rv_cache env) e (rt_cache rt)))" if "validate_event env e = Ok ()" "ce_kind e = 0"
    unfolding pin_profile_def by (rule channel_send_ok [OF assms valid_message [OF that]])
  then show ?thesis using assms
    by (auto simp: RtProfile set_local_profile_def Let_def split_beta split: sum.split)
next
  case RtClear
  have "cache_ok env (fst (clear_profile (rv_cache env) (rt_cache rt)))"
    unfolding clear_profile_def by (rule channel_send_ok [OF assms]) (simp add: allowed_message_def)
  then show ?thesis by (simp add: RtClear clear_local_profile_def Let_def split_beta)
next
  case (RtResponse b)
  then show ?thesis using assms by (simp add: cache_ok_def)
qed (use assms in \<open>simp_all add: connect_ok receive_fragment_ok runtime_peer_disconnected_def runtime_pop_outbound_def
    split_beta Let_def\<close>)

text \<open>C25. Whatever peers send and however operations interleave, an event goes to the mesh cache only when its id
  and signature check and it is of kind 0.\<close>

theorem mesh_cache_only_valid:
  assumes "rt = fold (runtime_step env) ops (runtime_new c)" "mc_sent c = []" "m \<in> set (mc_sent (rt_cache rt))"
  shows "allowed_message env m"
proof -
  have "cache_ok env (rt_cache (fold (runtime_step env) ops rt0))" if "cache_ok env (rt_cache rt0)" for rt0
    using that by (induction ops arbitrary: rt0) (simp_all add: runtime_step_ok)
  moreover have "cache_ok env (rt_cache (runtime_new c))" using assms(2) by (simp add: runtime_new_def cache_ok_def)
  ultimately show ?thesis using assms(1,3) by (auto simp: cache_ok_def list_all_iff)
qed

section \<open>Responses of the cache worker\<close>

lemma decode_batch_stream:
  assumes "\<forall>m \<in> set ms. fits_u32 m \<and> root_worker_message (cn_fb env) m = Some (WmNostr (Some (ev m)))"
  shows "decode_batch env (pre @ lp_stream ms) (length pre) events = Ok (events @ map (canonical_event_of \<circ> ev) ms)"
  using assms
proof (induction ms arbitrary: pre events)
  case Nil
  then show ?case by (subst decode_batch.simps) simp
next
  case (Cons m ms)
  have len: "read_le32 (pre @ lp_record m @ lp_stream ms) (length pre) = length m"
    using Cons.prems by (intro read_le32_record) auto
  have body: "subslice (pre @ lp_record m @ lp_stream ms) (length pre + 4) (length pre + 4 + length m) = m"
    by (rule subslice_record) simp
  have "decode_batch env (pre @ lp_stream (m # ms)) (length pre) events =
      decode_batch env ((pre @ lp_record m) @ lp_stream ms) (length (pre @ lp_record m)) (events @ [canonical_event_of (ev m)])"
    using Cons.prems len body by (subst decode_batch.simps) (simp add: Let_def add.assoc)
  also have "\<dots> = Ok (events @ map (canonical_event_of \<circ> ev) (m # ms))"
    using Cons.IH [of "pre @ lp_record m"] Cons.prems by simp
  finally show ?case .
qed

text \<open>A query whose answer arrives while it waits, and a sequence of such queries.\<close>

definition served ::
  "cache_env \<Rightarrow> (u64 \<Rightarrow> bytes list) \<Rightarrow> mesh_request list \<Rightarrow> mesh_cache_client \<Rightarrow> mesh_cache_client \<times> (mesh_error + canonical_event list)" where
  "served env answer rs c = cache_query env rs (c\<lparr>mc_inbox := mc_inbox c @ answer (mc_next_request_id c)\<rparr>)"

fun serve_all ::
  "cache_env \<Rightarrow> (u64 \<Rightarrow> bytes list) \<Rightarrow> mesh_request list list \<Rightarrow> mesh_cache_client \<Rightarrow>
     mesh_cache_client \<times> (mesh_error + canonical_event list) list" where
  "serve_all env answer [] c = (c, [])"
| "serve_all env answer (rs # rss) c =
     (let (c, r) = served env answer rs c; (c, results) = serve_all env answer rss c in (c, r # results))"

definition answers_ok :: "cache_env \<Rightarrow> (u64 \<Rightarrow> bytes list) \<Rightarrow> bool" where
  "answers_ok env answer =
     (\<forall>n. answer n \<noteq> [] \<and> (\<forall>b \<in> set (answer n). \<exists>p. cn_cache_response env b = Some (request_sub_id n, p)))"

definition stale :: "cache_env \<Rightarrow> mesh_cache_client \<Rightarrow> bool" where
  "stale env c =
     (mc_open c \<and> mc_inbox c \<noteq> []
      \<and> (\<forall>b \<in> set (mc_inbox c). \<exists>n p. n < mc_next_request_id c \<and> cn_cache_response env b = Some (request_sub_id n, p)))"

lemma request_sub_id_inj: "request_sub_id m = request_sub_id n \<longleftrightarrow> m = n"
proof
  assume "request_sub_id m = request_sub_id n"
  then have "digits_value (show_nat (unat m)) = digits_value (show_nat (unat n))" by (simp add: request_sub_id_def)
  then show "m = n" using show_nat_digits by (simp add: word_unat_eq_iff)
qed simp

lemma next_id: "unat (n :: u64) + 1 < 2 ^ 64 \<Longrightarrow> unat (n + 1) = unat n + 1"
  by (simp add: unat_word_ariths)

lemma stale_query:
  assumes "stale env c" "answers_ok env answer" "unat (mc_next_request_id c) + 1 < 2 ^ 64"
  shows "\<exists>c' x. served env answer rs c = (c', Err x) \<and> stale env c' \<and> mc_next_request_id c' = mc_next_request_id c + 1"
proof -
  let ?n = "mc_next_request_id c"
  obtain b inbox where inbox: "mc_inbox c = b # inbox" using assms(1) by (auto simp: stale_def neq_Nil_conv)
  obtain m p where m: "m < ?n" "cn_cache_response env b = Some (request_sub_id m, p)"
    using assms(1) inbox by (auto simp: stale_def)
  define c' where "c' = c\<lparr>mc_next_request_id := ?n + 1, mc_sent := mc_sent c @ [build_cache_request env (request_sub_id ?n) rs],
    mc_inbox := inbox @ answer ?n\<rparr>"
  have "served env answer rs c = (c', Err (UnexpectedCacheResponse (request_sub_id ?n) (request_sub_id m)))"
    using assms(1) m by (auto simp: served_def cache_query_def channel_send_def Let_def inbox c'_def stale_def request_sub_id_inj)
  moreover have lt: "n < ?n + 1" if "n \<le> ?n" for n
    using that next_id [OF assms(3)] by (simp add: word_less_nat_alt word_le_nat_alt)
  have "stale env c'"
    using assms(1,2) lt by (auto simp: stale_def c'_def inbox answers_ok_def dest!: less_imp_le) (blast intro: order.strict_implies_order)+
  ultimately show ?thesis by (auto simp: c'_def)
qed

lemma stale_forever:
  "stale env c \<Longrightarrow> answers_ok env answer \<Longrightarrow> unat (mc_next_request_id c) + length rss < 2 ^ 64 \<Longrightarrow>
     \<forall>r \<in> set (snd (serve_all env answer rss c)). \<exists>x. r = Err x"
proof (induction rss arbitrary: c)
  case (Cons rs rss)
  have small: "unat (mc_next_request_id c) + 1 < 2 ^ 64" using Cons.prems(3) by simp
  obtain c' x where s: "served env answer rs c = (c', Err x)" "stale env c'" "mc_next_request_id c' = mc_next_request_id c + 1"
    using stale_query [OF Cons.prems(1,2) small] by blast
  have "unat (mc_next_request_id c') + length rss < 2 ^ 64" using next_id [OF small] s(3) Cons.prems(3) by simp
  from Cons.IH [OF s(2) Cons.prems(2) this] show ?case by (simp add: s(1) split_beta)
qed simp

text \<open>A response that cannot be decoded, with more of the same answer behind it, ends the cache client for good:
  the query fails, and every later query reads the leftovers of an earlier one and fails too.\<close>

theorem failed_query_desynchronises:
  assumes "mc_open c" "mc_inbox c = []" "answers_ok env answer" "answer (mc_next_request_id c) = b # bs" "bs \<noteq> []"
    "cn_cache_response env b = Some (request_sub_id (mc_next_request_id c), Some p)" "p \<noteq> []" "decode_batch env p 0 [] = Err x"
    "unat (mc_next_request_id c) + Suc (length rss) < 2 ^ 64"
  shows "list_all isl (snd (serve_all env answer (rs # rss) c))"
proof -
  let ?n = "mc_next_request_id c"
  define c' where "c' = c\<lparr>mc_next_request_id := ?n + 1, mc_sent := mc_sent c @ [build_cache_request env (request_sub_id ?n) rs],
    mc_inbox := bs\<rparr>"
  have small: "unat ?n + 1 < 2 ^ 64" using assms(9) by simp
  have s: "served env answer rs c = (c', Err x)"
    using assms by (simp add: served_def cache_query_def channel_send_def Let_def c'_def)
  have "?n < ?n + 1" using next_id [OF small] by (simp add: word_less_nat_alt)
  moreover have "\<forall>b \<in> set bs. \<exists>p. cn_cache_response env b = Some (request_sub_id ?n, p)"
    using assms(3,4) by (metis answers_ok_def insertCI list.simps(15))
  ultimately have "stale env c'" using assms(1,5) by (auto simp: stale_def c'_def)
  moreover have "unat (mc_next_request_id c') + length rss < 2 ^ 64" using assms(9) next_id [OF small] by (simp add: c'_def)
  ultimately have "\<forall>r \<in> set (snd (serve_all env answer (rs # rss) c)). \<exists>x. r = Err x"
    using stale_forever assms(3) by (simp add: s split_beta)
  then show ?thesis unfolding list_all_iff by force
qed

section \<open>Examples\<close>

text \<open>An answer is the number of the query in unary, followed by the payload.\<close>

definition example_cache_env :: cache_env where
  "example_cache_env =
     \<lparr>cn_fb = \<lparr>root_worker_message = (\<lambda>_. None), root_parsed_event = (\<lambda>_. None), root_nostr_event = (\<lambda>_. None)\<rparr>,
      cn_cache_response = (\<lambda>b. Some (request_sub_id (of_nat (length (takeWhile (\<lambda>x. x = 1) b))), Some (dropWhile (\<lambda>x. x = 1) b))),
      cn_cache_request = (\<lambda>_ _. []), cn_worker_message = (\<lambda>_ _ _. []), cn_clear_message = (\<lambda>_. [])\<rparr>"

definition example_answer :: "u64 \<Rightarrow> bytes list" where
  "example_answer n = [replicate (unat n) 1 @ [9], replicate (unat n) 1]"

definition example_client :: mesh_cache_client where
  "example_client = \<lparr>mc_open = True, mc_sent = [], mc_inbox = [], mc_next_request_id = 0\<rparr>"

lemma example_answers: "answers_ok example_cache_env example_answer"
proof -
  have "takeWhile (\<lambda>x. x = 1) (replicate n 1 @ [9 :: u8]) = replicate n 1" for n by (subst takeWhile_append2) simp_all
  moreover have "takeWhile (\<lambda>x. x = 1) (replicate n (1 :: u8)) = replicate n 1" for n by (induction n) simp_all
  ultimately show ?thesis by (simp add: answers_ok_def example_answer_def example_cache_env_def)
qed

theorem failed_query_desynchronises_witness:
  "list_all isl (snd (serve_all example_cache_env example_answer [[], [], []] example_client))"
proof (rule failed_query_desynchronises [OF _ _ example_answers])
  show "decode_batch example_cache_env [9] 0 [] = Err InvalidCacheResponse" by (subst decode_batch.simps) simp
  show "example_answer (mc_next_request_id example_client) = [9] # [[]]" by (simp add: example_answer_def example_client_def)
qed (simp_all add: example_client_def example_cache_env_def)

definition example_runtime_env :: "(u64 \<times> bytes) list runtime_env" where
  "example_runtime_env =
     \<lparr>rv_mesh = example_mesh_env, rv_cache = example_cache_env, rv_label = id, rv_event_id = (\<lambda>_ e. ce_id e),
      rv_verify = (\<lambda>_ _ _. True)\<rparr>"

theorem mesh_cache_only_valid_witness:
  "allowed_message example_runtime_env (build_worker_message example_cache_env
     ((mesh_note CHR ''a'')\<lparr>ce_pubkey := replicate 32 CHR ''p''\<rparr>) ''mesh_pin_profile'' ''local://mesh-profile'')"
proof (rule mesh_cache_only_valid [OF refl, of example_client])
  show "build_worker_message example_cache_env ((mesh_note CHR ''a'')\<lparr>ce_pubkey := replicate 32 CHR ''p''\<rparr>)
      ''mesh_pin_profile'' ''local://mesh-profile''
    \<in> set (mc_sent (rt_cache (fold (runtime_step example_runtime_env)
        [RtProfile ((mesh_note CHR ''a'')\<lparr>ce_pubkey := replicate 32 CHR ''p''\<rparr>)] (runtime_new example_client))))"
    by (simp add: set_local_profile_def validate_event_def key32_def example_runtime_env_def example_mesh_env_def mesh_note_def
        pin_profile_def channel_send_def runtime_new_def example_client_def)
qed (simp add: example_client_def)

end
