(* ===== verification/Net_Request.thy ===== *)
theory Net_Request
  imports Nostr_Query "HOL-Library.Char_ord" "HOL-Library.List_Lexorder"
begin

text \<open>
  Subscription requests, after \<open>types/network.rs\<close>, the filter of \<open>types/nostr.rs\<close> and its translation in
  \<open>storage/db/nostr_db_storage.rs\<close>. A request arrives as a FlatBuffers table, becomes a \<open>Request\<close>, then a
  \<open>Filter\<close> with decoded keys, then the filter of the database. The database has a direct translation of
  its own (\<open>query_filter_from_fb_request\<close>); the theory shows when the two agree. Parameters: the hex
  crate (\<open>hex_text\<close>) and the order in which a hash map yields its entries (\<open>tag_order\<close>).
\<close>

section \<open>Requests\<close>

type_synonym request_tag_map = "(string, string list) fmap"
type_synonym tag_order = "request_tag_map \<Rightarrow> (string \<times> string list) list"

definition tag_order_ok :: "tag_order \<Rightarrow> bool" where
  "tag_order_ok ord \<longleftrightarrow> (\<forall>m. distinct (map fst (ord m)) \<and> map_of (ord m) = fmlookup m)"

record hex_text =
  ht_decode :: "string \<Rightarrow> bytes option"
  ht_encode :: "bytes \<Rightarrow> string"

record request =
  nr_ids :: "string list"
  nr_authors :: "string list"
  nr_kinds :: "i32 list"
  nr_tags :: request_tag_map
  nr_since :: "i32 option"
  nr_until :: "i32 option"
  nr_limit :: "i32 option"
  nr_search :: "string option"
  nr_relays :: "string list"
  nr_cache_first :: bool
  nr_no_cache :: bool
  nr_max_relays :: u32
  nr_cache_only :: bool
  nr_mesh_only :: bool

definition tag_entry :: "fb_tag \<Rightarrow> request_tag_map \<Rightarrow> request_tag_map" where
  "tag_entry tag m = (case tag of Some items \<Rightarrow> if 2 \<le> length items then fmupd (hd items) (tl items) m else m | None \<Rightarrow> m)"

definition or_default :: "'a list option \<Rightarrow> 'a list" where
  "or_default v = (case v of Some xs \<Rightarrow> xs | None \<Rightarrow> [])"

definition non_zero :: "i32 \<Rightarrow> i32 option" where
  "non_zero w = (if w \<noteq> 0 then Some w else None)"

definition from_flatbuffer :: "fb_request \<Rightarrow> request" where
  "from_flatbuffer r =
     \<lparr>nr_ids = or_default (rq_ids r), nr_authors = or_default (rq_authors r),
      nr_kinds = map ucast (or_default (rq_kinds r)), nr_tags = fold tag_entry (or_default (rq_tags r)) fmempty,
      nr_since = non_zero (rq_since r), nr_until = non_zero (rq_until r), nr_limit = non_zero (rq_limit r),
      nr_search = rq_search r, nr_relays = or_default (rq_relays r), nr_cache_first = rq_cache_first r,
      nr_no_cache = rq_no_cache r, nr_max_relays = ucast (rq_max_relays r), nr_cache_only = rq_cache_only r,
      nr_mesh_only = rq_mesh_only r\<rparr>"

definition or_zero :: "i32 option \<Rightarrow> i32" where
  "or_zero v = (case v of Some w \<Rightarrow> w | None \<Rightarrow> 0)"

definition build_flatbuffer :: "tag_order \<Rightarrow> request \<Rightarrow> fb_request" where
  "build_flatbuffer ord r =
     \<lparr>rq_ids = non_empty (nr_ids r), rq_authors = non_empty (nr_authors r),
      rq_kinds = non_empty (map ucast (nr_kinds r)),
      rq_tags = (if nr_tags r = fmempty then None else Some (map (\<lambda>(k, vs). Some (k # vs)) (ord (nr_tags r)))),
      rq_limit = or_zero (nr_limit r), rq_since = or_zero (nr_since r), rq_until = or_zero (nr_until r),
      rq_search = nr_search r, rq_relays = non_empty (nr_relays r), rq_cache_first = nr_cache_first r,
      rq_no_cache = nr_no_cache r, rq_max_relays = ucast (nr_max_relays r), rq_cache_only = nr_cache_only r,
      rq_mesh_only = nr_mesh_only r\<rparr>"

section \<open>Filters\<close>

record nostr_filter =
  fl_ids :: "bytes list option"
  fl_authors :: "bytes list option"
  fl_kinds :: "u16 list option"
  fl_since :: "u64 option"
  fl_until :: "u64 option"
  fl_limit :: "u32 option"
  fl_tags :: request_tag_map
  fl_search :: "string option"
  fl_e_tags :: "string list option"
  fl_p_tags :: "string list option"
  fl_d_tags :: "string list option"
  fl_a_tags :: "string list option"

definition nostr_filter_new :: nostr_filter where
  "nostr_filter_new = \<lparr>fl_ids = None, fl_authors = None, fl_kinds = None, fl_since = None, fl_until = None,
     fl_limit = None, fl_tags = fmempty, fl_search = None, fl_e_tags = None, fl_p_tags = None, fl_d_tags = None,
     fl_a_tags = None\<rparr>"

datatype hex_error = InvalidHex | InvalidLength

definition text_from_hex :: "hex_text \<Rightarrow> string \<Rightarrow> hex_error + bytes" where
  "text_from_hex hex x =
     (case ht_decode hex x of
        None \<Rightarrow> Err InvalidHex
      | Some b \<Rightarrow> if length b \<noteq> 32 then Err InvalidLength else Ok b)"

fun from_hex_all :: "hex_text \<Rightarrow> string list \<Rightarrow> hex_error + bytes list" where
  "from_hex_all hex [] = Ok []"
| "from_hex_all hex (x # xs) =
     (case text_from_hex hex x of
        Err e \<Rightarrow> Err e
      | Ok b \<Rightarrow> (case from_hex_all hex xs of Err e \<Rightarrow> Err e | Ok bs \<Rightarrow> Ok (b # bs)))"

definition key_field :: "hex_text \<Rightarrow> string list \<Rightarrow> hex_error + bytes list option" where
  "key_field hex xs =
     (if xs = [] then Ok None else (case from_hex_all hex xs of Err e \<Rightarrow> Err e | Ok bs \<Rightarrow> Ok (Some bs)))"

definition filter_tag :: "string \<times> string list \<Rightarrow> nostr_filter \<Rightarrow> nostr_filter" where
  "filter_tag kv f =
     (let k = fst kv; vs = snd kv in
      if k = ''#e'' then f\<lparr>fl_e_tags := Some vs\<rparr>
      else if k = ''#p'' then f\<lparr>fl_p_tags := Some vs\<rparr>
      else if k = ''#d'' then f\<lparr>fl_d_tags := Some vs\<rparr>
      else if k = ''#a'' then f\<lparr>fl_a_tags := Some vs\<rparr>
      else f\<lparr>fl_tags := fmupd (strip_hash k) vs (fl_tags f)\<rparr>)"

definition to_filter :: "hex_text \<Rightarrow> tag_order \<Rightarrow> request \<Rightarrow> hex_error + nostr_filter" where
  "to_filter hex ord r =
     (case key_field hex (nr_ids r) of
        Err e \<Rightarrow> Err e
      | Ok ids \<Rightarrow>
          (case key_field hex (nr_authors r) of
             Err e \<Rightarrow> Err e
           | Ok authors \<Rightarrow>
               Ok (fold filter_tag (ord (nr_tags r))
                 (nostr_filter_new\<lparr>fl_ids := ids, fl_authors := authors,
                    fl_kinds := (if nr_kinds r = [] then None else Some (map ucast (nr_kinds r))),
                    fl_since := map_option scast (nr_since r), fl_until := map_option scast (nr_until r),
                    fl_limit := nr_limit r, fl_search := nr_search r\<rparr>))))"

definition filter_to_query_filter :: "hex_text \<Rightarrow> nostr_filter \<Rightarrow> query_filter" where
  "filter_to_query_filter hex f =
     query_filter_new\<lparr>
       qf_ids := map_option (map (ht_encode hex)) (fl_ids f),
       qf_authors := map_option (map (ht_encode hex)) (fl_authors f),
       qf_kinds := fl_kinds f,
       qf_since := map_option ucast (fl_since f),
       qf_until := map_option ucast (fl_until f),
       qf_limit := map_option unat (fl_limit f),
       qf_search := fl_search f,
       qf_e_tags := fl_e_tags f, qf_p_tags := fl_p_tags f, qf_a_tags := fl_a_tags f, qf_d_tags := fl_d_tags f,
       qf_q_tags := fmlookup (fl_tags f) ''q'', qf_E_tags := fmlookup (fl_tags f) ''E'',
       qf_P_tags := fmlookup (fl_tags f) ''P''\<rparr>"

text \<open>\<open>fb_request_to_query_filter\<close>: unlike the translation of the index it knows only four tag letters.\<close>

definition fb_request_to_query_filter :: "fb_request \<Rightarrow> query_filter" where
  "fb_request_to_query_filter r =
     query_filter_new\<lparr>
       qf_ids := Option.bind (rq_ids r) non_empty,
       qf_authors := Option.bind (rq_authors r) non_empty,
       qf_kinds := Option.bind (rq_kinds r) non_empty,
       qf_since := positive_i32 (rq_since r),
       qf_until := positive_i32 (rq_until r),
       qf_limit := map_option unat (positive_i32 (rq_limit r)),
       qf_search := Option.bind (rq_search r) non_empty,
       qf_e_tags := request_tags ''e'' r, qf_p_tags := request_tags ''p'' r,
       qf_a_tags := request_tags ''a'' r, qf_d_tags := request_tags ''d'' r\<rparr>"

section \<open>The table round trip\<close>

lemma or_default_non_empty [simp]: "or_default (non_empty xs) = xs"
  by (simp add: or_default_def non_empty_def)

lemma non_zero_or_zero: "v \<noteq> Some 0 \<Longrightarrow> non_zero (or_zero v) = v"
  by (cases v) (simp_all add: non_zero_def or_zero_def)

lemma fold_tag_entry_alist:
  "list_all (\<lambda>(k, vs). vs \<noteq> []) xs \<Longrightarrow>
   fold tag_entry (map (\<lambda>(k, vs). Some (k # vs)) xs) m = fold (\<lambda>(k, vs). fmupd k vs) xs m"
  by (induction xs arbitrary: m) (auto simp: tag_entry_def Suc_le_eq)

lemma fold_fmupd_lookup:
  "distinct (map fst xs) \<Longrightarrow> fmlookup (fold (\<lambda>(k, vs). fmupd k vs) xs m) k = (case map_of xs k of Some v \<Rightarrow> Some v | None \<Rightarrow> fmlookup m k)"
proof (induction xs arbitrary: m)
  case (Cons x xs)
  obtain a b where x: "x = (a, b)" by fastforce
  have "map_of xs a = None" using Cons.prems by (simp add: x map_of_eq_None_iff)
  then show ?case using Cons by (cases "k = a") (simp_all add: x split: option.splits)
qed simp

definition wire_kind :: "i32 \<Rightarrow> bool" where
  "wire_kind k \<longleftrightarrow> unat k < 2 ^ 16"

lemma wire_kind_cast: "wire_kind k \<Longrightarrow> ucast (ucast k :: u16) = k"
  by (simp add: wire_kind_def word_unat_eq_iff unsigned_ucast_eq unsigned_take_bit_eq take_bit_nat_eq_self)

text \<open>What survives the table: kinds and the relay limit fit 16 bits, no bound is zero, no tag is empty.\<close>

definition wire_request :: "request \<Rightarrow> bool" where
  "wire_request r \<longleftrightarrow> list_all wire_kind (nr_kinds r) \<and> unat (nr_max_relays r) < 2 ^ 16 \<and>
     nr_since r \<noteq> Some 0 \<and> nr_until r \<noteq> Some 0 \<and> nr_limit r \<noteq> Some 0 \<and>
     (\<forall>k. fmlookup (nr_tags r) k \<noteq> Some [])"

lemma wire_tags:
  assumes "tag_order_ok ord" "\<forall>k. fmlookup m k \<noteq> Some []"
  shows "fold tag_entry (map (\<lambda>(k, vs). Some (k # vs)) (ord m)) fmempty = m"
proof (rule fmap_ext)
  fix k
  have o: "distinct (map fst (ord m))" "map_of (ord m) = fmlookup m" using assms(1) by (simp_all add: tag_order_ok_def)
  have "vs \<noteq> []" if "(j, vs) \<in> set (ord m)" for j vs
    using that o assms(2) by (metis map_of_is_SomeI)
  then have "list_all (\<lambda>(k, vs). vs \<noteq> []) (ord m)" by (auto simp: list_all_iff)
  then show "fmlookup (fold tag_entry (map (\<lambda>(k, vs). Some (k # vs)) (ord m)) fmempty) k = fmlookup m k"
    using o by (simp add: fold_tag_entry_alist fold_fmupd_lookup split: option.splits)
qed

text \<open>A request written as a table and read back is the request.\<close>

theorem request_roundtrip:
  assumes "tag_order_ok ord" "wire_request r"
  shows "from_flatbuffer (build_flatbuffer ord r) = r"
proof -
  have t: "fold tag_entry (or_default (if nr_tags r = fmempty then None
      else Some (map (\<lambda>(k, vs). Some (k # vs)) (ord (nr_tags r))))) fmempty = nr_tags r"
    using wire_tags [OF assms(1), of "nr_tags r"] assms(2) by (simp add: or_default_def wire_request_def)
  have "map ucast (map ucast (nr_kinds r) :: u16 list) = nr_kinds r"
    using assms(2) by (simp add: map_idI wire_request_def list_all_iff wire_kind_cast)
  moreover have "ucast (ucast (nr_max_relays r) :: u16) = nr_max_relays r"
    using assms(2) wire_kind_cast by (simp add: wire_request_def wire_kind_def)
  ultimately show ?thesis using assms(2) t
    by (simp add: from_flatbuffer_def build_flatbuffer_def wire_request_def non_zero_or_zero)
qed

section \<open>The two translations agree\<close>

definition canonical_key :: "hex_text \<Rightarrow> string \<Rightarrow> bool" where
  "canonical_key hex x = (case ht_decode hex x of Some b \<Rightarrow> length b = 32 \<and> ht_encode hex b = x | None \<Rightarrow> False)"

lemma key_field_canonical:
  assumes "list_all (canonical_key hex) xs"
  shows "\<exists>bs. key_field hex xs = Ok bs \<and> map_option (map (ht_encode hex)) bs = non_empty xs"
proof -
  have "\<exists>bs. from_hex_all hex xs = Ok bs \<and> map (ht_encode hex) bs = xs"
    using assms by (induction xs) (auto simp: canonical_key_def text_from_hex_def split: option.splits)
  then show ?thesis by (auto simp: key_field_def non_empty_def)
qed

text \<open>The keys of the tags that carry a value.\<close>

definition tag_keys :: "fb_tag list \<Rightarrow> string list" where
  "tag_keys tags = List.map_filter (\<lambda>tag. case tag of Some items \<Rightarrow> if 2 \<le> length items then Some (hd items) else None | None \<Rightarrow> None) tags"

definition hashed :: "string \<Rightarrow> bool" where
  "hashed k = (case k of [] \<Rightarrow> False | c # _ \<Rightarrow> c = CHR ''#'')"

lemma hashed_strip: "hashed k \<Longrightarrow> strip_hash k = j \<longleftrightarrow> k = CHR ''#'' # j"
  by (auto simp: hashed_def strip_hash_def split: list.splits)

lemma tag_values_Cons:
  "tag_values k (tag # tags) =
     (case tag of Some items \<Rightarrow> if 2 \<le> length items \<and> strip_hash (hd items) = k then tl items else [] | None \<Rightarrow> []) @ tag_values k tags"
proof (cases tag)
  case (Some items)
  then show ?thesis by (cases items) (simp_all add: tag_values_def)
qed (simp add: tag_values_def)

lemma tag_keys_Cons:
  "tag_keys (tag # tags) =
     (case tag of Some items \<Rightarrow> if 2 \<le> length items then hd items # tag_keys tags else tag_keys tags | None \<Rightarrow> tag_keys tags)"
  by (simp add: tag_keys_def List.map_filter_simps split: option.splits)

lemma tag_entry_other: "k \<notin> set (tag_keys tags) \<Longrightarrow> fmlookup (fold tag_entry tags m) k = fmlookup m k"
proof (induction tags arbitrary: m)
  case (Cons tag tags)
  then show ?case by (auto simp: tag_keys_Cons tag_entry_def split: option.splits if_splits)
qed simp

lemma tag_values_other: "list_all hashed (tag_keys tags) \<Longrightarrow> CHR ''#'' # k \<notin> set (tag_keys tags) \<Longrightarrow> tag_values k tags = []"
proof (induction tags)
  case (Cons tag tags)
  then show ?case
    by (auto simp: tag_keys_Cons tag_values_Cons hashed_strip split: option.splits if_splits)
qed (simp add: tag_values_def)

lemma tags_agree:
  "list_all hashed (tag_keys tags) \<Longrightarrow> distinct (tag_keys tags) \<Longrightarrow> fmlookup m (CHR ''#'' # k) = None \<Longrightarrow>
   fmlookup (fold tag_entry tags m) (CHR ''#'' # k) = non_empty (tag_values k tags)"
proof (induction tags arbitrary: m)
  case (Cons tag tags)
  show ?case
  proof (cases "\<exists>items. tag = Some items \<and> 2 \<le> length items")
    case False
    then have "tag_keys (tag # tags) = tag_keys tags" "tag_entry tag m = m" "tag_values k (tag # tags) = tag_values k tags"
      by (auto simp: tag_keys_Cons tag_entry_def tag_values_Cons split: option.splits)
    then show ?thesis using Cons by simp
  next
    case True
    then obtain items where tag: "tag = Some items" "2 \<le> length items" by blast
    then have ne: "items \<noteq> []" "tl items \<noteq> []" by (cases items; auto simp: Suc_le_eq)+
    have keys: "tag_keys (tag # tags) = hd items # tag_keys tags" using tag by (simp add: tag_keys_Cons)
    have hh: "hashed (hd items)" using Cons.prems(1) keys by simp
    show ?thesis
    proof (cases "hd items = CHR ''#'' # k")
      case True
      then have "CHR ''#'' # k \<notin> set (tag_keys tags)" using Cons.prems(2) keys by auto
      then show ?thesis
        using tag True ne hh Cons.prems(1) keys tag_values_other [of tags k]
        by (simp add: tag_entry_other hashed_strip tag_values_Cons non_empty_def) (simp add: tag_entry_def)
    next
      case False
      have "tag_values k (tag # tags) = tag_values k tags"
        using tag hh False by (simp add: tag_values_Cons hashed_strip)
      then show ?thesis using Cons tag keys False by (simp add: tag_entry_def)
    qed
  qed
qed (simp add: tag_values_def non_empty_def)

lemma filter_tag_sel:
  "fl_ids (filter_tag x f) = fl_ids f" "fl_authors (filter_tag x f) = fl_authors f" "fl_kinds (filter_tag x f) = fl_kinds f"
  "fl_since (filter_tag x f) = fl_since f" "fl_until (filter_tag x f) = fl_until f" "fl_limit (filter_tag x f) = fl_limit f"
  "fl_search (filter_tag x f) = fl_search f"
  "fl_e_tags (filter_tag x f) = (if fst x = ''#e'' then Some (snd x) else fl_e_tags f)"
  "fl_p_tags (filter_tag x f) = (if fst x = ''#p'' then Some (snd x) else fl_p_tags f)"
  "fl_d_tags (filter_tag x f) = (if fst x = ''#d'' then Some (snd x) else fl_d_tags f)"
  "fl_a_tags (filter_tag x f) = (if fst x = ''#a'' then Some (snd x) else fl_a_tags f)"
  by (simp_all add: filter_tag_def Let_def)

lemma fold_filter_tag_keeps:
  "(\<And>x f. sel (filter_tag x f) = sel f) \<Longrightarrow> sel (fold filter_tag xs f) = sel f"
  by (induction xs arbitrary: f) simp_all

lemma fold_filter_tag_sets:
  assumes "distinct (map fst xs)" "\<And>x f. sel (filter_tag x f) = (if fst x = k then Some (snd x) else sel f)" "sel f = None"
  shows "sel (fold filter_tag xs f) = map_of xs k"
proof -
  have "sel (fold filter_tag xs f) = (case map_of xs k of Some v \<Rightarrow> Some v | None \<Rightarrow> sel f)"
    using assms(1)
  proof (induction xs arbitrary: f)
    case (Cons x xs)
    then have "map_of xs (fst x) = None" by (simp add: map_of_eq_None_iff)
    then show ?case using Cons by (simp add: assms(2) split: option.splits)
  qed simp
  then show ?thesis by (simp add: assms(3) split: option.splits)
qed

lemma fold_filter_tag_other:
  assumes "distinct (map fst xs)" "list_all hashed (map fst xs)" "j \<notin> {''e'', ''p'', ''d'', ''a''}"
  shows "fmlookup (fl_tags (fold filter_tag xs f)) j =
    (case map_of xs (CHR ''#'' # j) of Some v \<Rightarrow> Some v | None \<Rightarrow> fmlookup (fl_tags f) j)"
  using assms
proof (induction xs arbitrary: f)
  case (Cons x xs)
  obtain k v where x: "x = (k, v)" by fastforce
  have no: "map_of xs k = None" using Cons.prems(1) by (simp add: x map_of_eq_None_iff)
  have sk: "strip_hash k = j \<longleftrightarrow> k = CHR ''#'' # j" using Cons.prems(2) by (simp add: x hashed_strip)
  have "fmlookup (fl_tags (filter_tag x f)) j = (if k = CHR ''#'' # j then Some v else fmlookup (fl_tags f) j)"
    using sk Cons.prems(3) by (auto simp: x filter_tag_def Let_def)
  then show ?case
    using Cons.IH [of "filter_tag x f"] Cons.prems no by (auto simp: x split: option.splits)
qed simp

text \<open>What the tags add to a filter without tags.\<close>

lemma query_filter_fold:
  assumes "distinct (map fst xs)" "list_all hashed (map fst xs)"
    and f: "fl_e_tags f = None" "fl_p_tags f = None" "fl_d_tags f = None" "fl_a_tags f = None" "fl_tags f = fmempty"
  shows "filter_to_query_filter hex (fold filter_tag xs f) = (filter_to_query_filter hex f)\<lparr>
      qf_e_tags := map_of xs ''#e'', qf_p_tags := map_of xs ''#p'', qf_a_tags := map_of xs ''#a'', qf_d_tags := map_of xs ''#d'',
      qf_q_tags := map_of xs ''#q'', qf_E_tags := map_of xs ''#E'', qf_P_tags := map_of xs ''#P''\<rparr>"
proof -
  let ?g = "fold filter_tag xs f"
  have "fl_e_tags ?g = map_of xs ''#e''" "fl_p_tags ?g = map_of xs ''#p''" "fl_d_tags ?g = map_of xs ''#d''" "fl_a_tags ?g = map_of xs ''#a''"
    using f by (simp_all add: fold_filter_tag_sets [OF assms(1), of _ _ f] filter_tag_sel)
  moreover have "fl_ids ?g = fl_ids f" "fl_authors ?g = fl_authors f" "fl_kinds ?g = fl_kinds f" "fl_since ?g = fl_since f"
      "fl_until ?g = fl_until f" "fl_limit ?g = fl_limit f" "fl_search ?g = fl_search f"
    using fold_filter_tag_keeps [of fl_ids] fold_filter_tag_keeps [of fl_authors] fold_filter_tag_keeps [of fl_kinds]
      fold_filter_tag_keeps [of fl_since] fold_filter_tag_keeps [of fl_until] fold_filter_tag_keeps [of fl_limit]
      fold_filter_tag_keeps [of fl_search]
    by (simp_all add: filter_tag_sel)
  moreover have "fmlookup (fl_tags ?g) j = map_of xs (CHR ''#'' # j)" if "j \<notin> {''e'', ''p'', ''d'', ''a''}" for j
    using fold_filter_tag_other [OF assms(1,2) that, of f] f(5) by (simp split: option.splits)
  ultimately show ?thesis by (simp add: filter_to_query_filter_def)
qed

text \<open>
  A request as a client writes it: keys in lower-case hex, tag names with their hash and each name once,
  bounds that are absent or positive, a search text that is absent or not empty.
\<close>

definition client_request :: "hex_text \<Rightarrow> fb_request \<Rightarrow> bool" where
  "client_request hex r \<longleftrightarrow>
     list_all (canonical_key hex) (or_default (rq_ids r)) \<and> list_all (canonical_key hex) (or_default (rq_authors r)) \<and>
     list_all hashed (tag_keys (or_default (rq_tags r))) \<and> distinct (tag_keys (or_default (rq_tags r))) \<and>
     0 \<le> sint (rq_since r) \<and> 0 \<le> sint (rq_until r) \<and> 0 \<le> sint (rq_limit r) \<and> rq_search r \<noteq> Some []"

lemma non_zero_positive: "0 \<le> sint w \<Longrightarrow> non_zero w = positive_i32 w"
proof -
  have "sint w = 0 \<longleftrightarrow> w = 0" by (metis sint_0 signed_word_eqI)
  then show "0 \<le> sint w \<Longrightarrow> non_zero w = positive_i32 w" by (auto simp: non_zero_def positive_i32_def order.order_iff_strict)
qed

lemma ucast_scast_i32: "ucast (scast (w :: i32) :: u64) = (w :: u32)"
  by (rule bit_word_eqI) (auto simp: bit_simps)

lemma bind_non_empty: "Option.bind v non_empty = non_empty (or_default v)"
  by (cases v) (auto simp: non_empty_def or_default_def)

lemma request_tags_default: "request_tags k r = non_empty (tag_values k (or_default (rq_tags r)))"
  by (auto simp: request_tags_def or_default_def non_empty_def tag_values_def split: option.splits)

lemma tag_keys_map: "fmdom' (fold tag_entry tags m) \<subseteq> set (tag_keys tags) \<union> fmdom' m"
proof
  fix k assume "k \<in> fmdom' (fold tag_entry tags m)"
  then show "k \<in> set (tag_keys tags) \<union> fmdom' m"
    using tag_entry_other [of k tags m] by (cases "k \<in> set (tag_keys tags)") (auto simp: fmlookup_dom'_iff)
qed

text \<open>C28. A request that a client writes (keys in canonical hex, hashed tag names each once, bounds not negative)
  means the same on both ways into the database: reading it as a request, converting it to a filter and that to
  the database's filter gives what the database's own translation of the table gives, whatever the order in which
  the tag map is iterated.\<close>

theorem filter_paths_agree:
  assumes "tag_order_ok ord" "client_request hex r"
  shows "\<exists>f. to_filter hex ord (from_flatbuffer r) = Ok f \<and> filter_to_query_filter hex f = query_filter_from_fb_request r"
proof -
  define tags where "tags = or_default (rq_tags r)"
  define m where "m = fold tag_entry tags fmempty"
  have ord: "distinct (map fst (ord m))" "map_of (ord m) = fmlookup m" using assms(1) by (simp_all add: tag_order_ok_def)
  have h: "list_all hashed (tag_keys tags)" "distinct (tag_keys tags)"
    using assms(2) by (simp_all add: client_request_def tags_def)
  have "set (map fst (ord m)) \<subseteq> set (tag_keys tags)"
    using tag_keys_map [of tags fmempty] ord(2) by (force simp: m_def fmlookup_dom'_iff dom_map_of_conv_image_fst [symmetric])
  then have hm: "list_all hashed (map fst (ord m))" using h(1) by (auto simp: list_all_iff)
  have look: "map_of (ord m) (CHR ''#'' # k) = request_tags k r" for k
    unfolding ord(2) unfolding m_def request_tags_default tags_def [symmetric] by (rule tags_agree [OF h]) simp
  obtain ids authors where ia: "key_field hex (or_default (rq_ids r)) = Ok ids"
      "map_option (map (ht_encode hex)) ids = non_empty (or_default (rq_ids r))"
      "key_field hex (or_default (rq_authors r)) = Ok authors"
      "map_option (map (ht_encode hex)) authors = non_empty (or_default (rq_authors r))"
    using key_field_canonical assms(2) unfolding client_request_def by meson
  define f0 where "f0 = nostr_filter_new\<lparr>fl_ids := ids, fl_authors := authors,
      fl_kinds := (if or_default (rq_kinds r) = [] then None else Some (map ucast (map ucast (or_default (rq_kinds r)) :: i32 list))),
      fl_since := map_option scast (non_zero (rq_since r)), fl_until := map_option scast (non_zero (rq_until r)),
      fl_limit := non_zero (rq_limit r), fl_search := rq_search r\<rparr>"
  define f where "f = fold filter_tag (ord m) f0"
  have run: "to_filter hex ord (from_flatbuffer r) = Ok f"
    using ia by (simp add: to_filter_def from_flatbuffer_def f_def f0_def m_def tags_def)
  have kinds: "map (ucast :: i32 \<Rightarrow> u16) (map ucast ks) = ks" for ks :: "u16 list"
  proof -
    have "ucast (ucast k :: i32) = k" for k :: u16 by (rule bit_word_eqI) (auto simp: bit_simps)
    then show ?thesis by (simp add: map_idI)
  qed
  have "fl_kinds f0 = non_empty (or_default (rq_kinds r))" using kinds by (simp add: f0_def non_empty_def del: map_map)
  moreover have "map_option ucast (fl_since f0) = positive_i32 (rq_since r)" "map_option ucast (fl_until f0) = positive_i32 (rq_until r)"
      "fl_limit f0 = positive_i32 (rq_limit r)"
    using assms(2) by (simp_all add: f0_def client_request_def non_zero_positive option.map_comp comp_def ucast_scast_i32 option.map_ident)
  moreover have "fl_search f0 = (case rq_search r of Some s \<Rightarrow> if s = [] then None else Some s | None \<Rightarrow> None)"
    using assms(2) by (simp add: f0_def client_request_def split: option.splits)
  moreover have "map_option (map (ht_encode hex)) (fl_ids f0) = non_empty (or_default (rq_ids r))"
      "map_option (map (ht_encode hex)) (fl_authors f0) = non_empty (or_default (rq_authors r))"
    using ia by (simp_all add: f0_def)
  moreover have "filter_to_query_filter hex f = (filter_to_query_filter hex f0)\<lparr>
      qf_e_tags := request_tags ''e'' r, qf_p_tags := request_tags ''p'' r, qf_a_tags := request_tags ''a'' r,
      qf_d_tags := request_tags ''d'' r, qf_q_tags := request_tags ''q'' r, qf_E_tags := request_tags ''E'' r,
      qf_P_tags := request_tags ''P'' r\<rparr>"
    using query_filter_fold [OF ord(1) hm, of f0 hex] by (simp add: f_def look) (simp add: f0_def nostr_filter_new_def)
  ultimately have "filter_to_query_filter hex f = query_filter_from_fb_request r"
    by (simp only: filter_to_query_filter_def query_filter_from_fb_request_def bind_non_empty query_filter_new_def) simp
  then show ?thesis using run by blast
qed

section \<open>Tags the database does not index\<close>

text \<open>A tag filter on any other letter, such as the hashtags, does not restrict the query.\<close>

lemma other_tag_ignored:
  assumes "tag_order_ok ord" "fmpred (\<lambda>k _. hashed k) (nr_tags r)" "to_filter hex ord r = Ok f"
    "hashed k" "strip_hash k \<notin> {''e'', ''p'', ''a'', ''d'', ''q'', ''E'', ''P''}"
  shows "\<exists>f'. to_filter hex ord (r\<lparr>nr_tags := fmupd k vs (nr_tags r)\<rparr>) = Ok f' \<and>
    filter_to_query_filter hex f' = filter_to_query_filter hex f"
proof -
  define m' where "m' = fmupd k vs (nr_tags r)"
  have o: "distinct (map fst (ord m))" "map_of (ord m) = fmlookup m" for m using assms(1) by (simp_all add: tag_order_ok_def)
  have h: "list_all hashed (map fst (ord m))" if "fmpred (\<lambda>k _. hashed k) m" for m
  proof -
    have "hashed j" if "(j, v) \<in> set (ord m)" for j v
      using that o \<open>fmpred (\<lambda>k _. hashed k) m\<close> by (metis fmpred_iff map_of_is_SomeI)
    then show ?thesis by (auto simp: list_all_iff)
  qed
  obtain f0 where f0: "f = fold filter_tag (ord (nr_tags r)) f0" "fl_e_tags f0 = None" "fl_p_tags f0 = None" "fl_d_tags f0 = None"
      "fl_a_tags f0 = None" "fl_tags f0 = fmempty"
      "to_filter hex ord (r\<lparr>nr_tags := m'\<rparr>) = Ok (fold filter_tag (ord m') f0)"
    using assms(3) by (auto simp: to_filter_def nostr_filter_new_def split: sum.splits)
  have "fmpred (\<lambda>k _. hashed k) m'" using assms(2,4) by (simp add: m'_def fmpred_iff)
  note q = query_filter_fold [OF o(1) h [OF this] f0(2-6), of hex] query_filter_fold [OF o(1) h [OF assms(2)] f0(2-6), of hex]
  have "k \<noteq> CHR ''#'' # j" if "j \<in> {''e'', ''p'', ''a'', ''d'', ''q'', ''E'', ''P''}" for j
    using assms(4,5) hashed_strip that by metis
  then have "filter_to_query_filter hex (fold filter_tag (ord m') f0) = filter_to_query_filter hex f"
    unfolding q f0(1) o(2) by (simp add: m'_def)
  then show ?thesis using f0(7) by (simp add: m'_def)
qed

section \<open>Examples\<close>

definition example_hex :: hex_text where
  "example_hex = \<lparr>ht_decode = (\<lambda>x. Some (map (\<lambda>c. of_nat (of_char c)) x)), ht_encode = map (\<lambda>b. char_of (unat b))\<rparr>"

definition example_tag_order :: tag_order where
  "example_tag_order m = map (\<lambda>k. (k, the (fmlookup m k))) (sorted_list_of_fset (fmdom m))"

lemma sorted_entries:
  fixes m :: "(string, 'v) fmap"
  defines "xs \<equiv> map (\<lambda>k. (k, the (fmlookup m k))) (sorted_list_of_fset (fmdom m))"
  shows "distinct (map fst xs)" "map_of xs = fmlookup m"
proof -
  have d: "distinct (sorted_list_of_fset (fmdom m))" "set (sorted_list_of_fset (fmdom m)) = fset (fmdom m)"
    by (simp_all add: sorted_list_of_fset.rep_eq)
  then show "distinct (map fst xs)" by (simp add: xs_def comp_def)
  have "map_of xs k = fmlookup m k" for k
    using d(2) by (cases "fmlookup m k") (auto simp: xs_def map_of_map_restrict [unfolded comp_def, of "\<lambda>k. the (fmlookup m k)"] restrict_map_def fmdomI
        intro: fmdom_notI)
  then show "map_of xs = fmlookup m" by blast
qed

lemma example_tag_order_ok: "tag_order_ok example_tag_order"
  unfolding tag_order_ok_def example_tag_order_def using sorted_entries by blast

definition example_client_request :: fb_request where
  "example_client_request = example_request\<lparr>rq_authors := Some [replicate 32 CHR ''a''],
     rq_tags := Some [Some [''#e'', ''x''], Some [''#t'', ''y'']]\<rparr>"

theorem filter_paths_agree_witness:
  "\<exists>f. to_filter example_hex example_tag_order (from_flatbuffer example_client_request) = Ok f \<and>
     filter_to_query_filter example_hex f = query_filter_from_fb_request example_client_request"
proof (rule filter_paths_agree [OF example_tag_order_ok])
  have "char_of (97 :: nat) = CHR ''a''" by code_simp
  then show "client_request example_hex example_client_request"
    by (simp add: client_request_def example_client_request_def example_request_def or_default_def tag_keys_def List.map_filter_simps
        hashed_def canonical_key_def example_hex_def)
qed

end
