(* ===== verification/Relay_Selection.thy ===== *)
theory Relay_Selection
  imports Net_Request "HOL-Library.Product_Lexorder"
begin

text \<open>
  The choice of relays from stored relay lists (kind 10002), after the last part of \<open>storage/db/index.rs\<close>: the
  relays a request is sent to, the read and write relays of one user, and the relays an event is published
  to. Hash maps and sets are iterated in an order that is a parameter (\<open>hash_orders\<close>).
\<close>

section \<open>Operations\<close>

record hash_orders =
  ho_latest :: "(string, bytes) fmap \<Rightarrow> (string \<times> bytes) list"
  ho_counts :: "(string, nat) fmap \<Rightarrow> (string \<times> nat) list"
  ho_relays :: "string fset \<Rightarrow> string list"

definition request_authors :: "fb_request \<Rightarrow> string list" where
  "request_authors r = or_default (rq_authors r)"

definition mentioned_pubkeys :: "fb_request \<Rightarrow> string list" where
  "mentioned_pubkeys r =
     List.map_filter (\<lambda>tag. case tag of
         Some items \<Rightarrow> if 1 < length items \<and> items ! 0 = ''p'' \<and> items ! 1 \<notin> set (request_authors r) then Some (items ! 1) else None
       | None \<Rightarrow> None) (or_default (rq_tags r))"

definition fallback_relays :: "fb_request \<Rightarrow> nostr_db \<Rightarrow> string list" where
  "fallback_relays r db =
     (if list_ex (\<lambda>k. k = 0 \<or> k = 3 \<or> k = 10002) (or_default (rq_kinds r)) then indexer_relays db else default_relays db)"

definition keep_latest :: "fb_codec \<Rightarrow> bytes \<Rightarrow> (string, bytes) fmap \<Rightarrow> (string, bytes) fmap" where
  "keep_latest fb bs m =
     (case extract_parsed_event fb bs of
        None \<Rightarrow> m
      | Some e \<Rightarrow>
          (case fmlookup m (pe_pubkey e) of
             None \<Rightarrow> fmupd (pe_pubkey e) bs m
           | Some old \<Rightarrow>
               (case extract_parsed_event fb old of
                  None \<Rightarrow> m
                | Some x \<Rightarrow> if pe_created_at x < pe_created_at e then fmupd (pe_pubkey e) bs m else m)))"

definition wanted_urls :: "fb_codec \<Rightarrow> string list \<Rightarrow> string \<times> bytes \<Rightarrow> string list" where
  "wanted_urls fb authors entry =
     (case extract_parsed_event fb (snd entry) of
        None \<Rightarrow> []
      | Some e \<Rightarrow>
          (case pe_kind10002 e of
             None \<Rightarrow> []
           | Some relays \<Rightarrow>
               map ri_url (filter (\<lambda>relay. if fst entry \<in> set authors then ri_write relay else ri_read relay) relays)))"

definition count_relay :: "string \<Rightarrow> (string, nat) fmap \<Rightarrow> (string, nat) fmap" where
  "count_relay url m = fmupd url (Suc (case fmlookup m url of Some n \<Rightarrow> n | None \<Rightarrow> 0)) m"

definition rank_relays :: "(string \<times> nat) list \<Rightarrow> (string \<times> nat) list" where
  "rank_relays xs = sort_key (\<lambda>(url, n). (- int n, url)) xs"

definition relay_counts :: "hash_orders \<Rightarrow> fb_codec \<Rightarrow> string list \<Rightarrow> bytes list \<Rightarrow> (string, nat) fmap" where
  "relay_counts ho fb authors events =
     fold count_relay (concat (map (wanted_urls fb authors) (ho_latest ho (fold (keep_latest fb) events fmempty)))) fmempty"

definition relay_list_filter :: "string list \<Rightarrow> nat option \<Rightarrow> query_filter" where
  "relay_list_filter pubkeys limit = query_filter_new\<lparr>qf_kinds := Some [10002], qf_authors := Some pubkeys, qf_limit := limit\<rparr>"

definition get_relays :: "platform \<Rightarrow> hash_orders \<Rightarrow> fb_codec \<Rightarrow> fb_request \<Rightarrow> nostr_db \<Rightarrow> string list" where
  "get_relays pf ho fb r db =
     (let pubkeys = request_authors r @ mentioned_pubkeys r
      in if pubkeys = [] then fallback_relays r db
         else
           (let counts = (case query_events_with_filter pf (relay_list_filter pubkeys None) db of
                  Ok res \<Rightarrow> relay_counts ho fb (request_authors r) (qr_events res)
                | Err _ \<Rightarrow> fmempty)
            in if counts = fmempty then fallback_relays r db
               else map fst (take 15 (rank_relays (ho_counts ho counts)))))"

definition newest_relay_list :: "platform \<Rightarrow> fb_codec \<Rightarrow> string \<Rightarrow> nostr_db \<Rightarrow> relay_info list option" where
  "newest_relay_list pf fb pubkey db =
     (case query_events_with_filter pf (relay_list_filter [pubkey] (Some 1)) db of
        Ok res \<Rightarrow>
          (case qr_events res of
             [] \<Rightarrow> None
           | b # _ \<Rightarrow> (case extract_parsed_event fb b of Some e \<Rightarrow> pe_kind10002 e | None \<Rightarrow> None))
      | Err _ \<Rightarrow> None)"

definition get_read_relays :: "platform \<Rightarrow> fb_codec \<Rightarrow> string \<Rightarrow> nostr_db \<Rightarrow> string list option" where
  "get_read_relays pf fb pubkey db = map_option (\<lambda>rs. map ri_url (filter ri_read rs)) (newest_relay_list pf fb pubkey db)"

definition get_write_relays :: "platform \<Rightarrow> fb_codec \<Rightarrow> string \<Rightarrow> nostr_db \<Rightarrow> string list option" where
  "get_write_relays pf fb pubkey db = map_option (\<lambda>rs. map ri_url (filter ri_write rs)) (newest_relay_list pf fb pubkey db)"

definition read_pubkeys :: "nostr_event \<Rightarrow> string list" where
  "read_pubkeys e =
     (if ne_kind e \<noteq> 3 \<and> ne_kind e < 10000 then
        List.map_filter (\<lambda>tag. case tag of
            Some items \<Rightarrow> if 2 \<le> length items \<and> items ! 0 = ''p'' then Some (items ! 1) else None
          | None \<Rightarrow> None) (ne_tags e)
      else [])"

definition determine_target_relays :: "platform \<Rightarrow> hash_orders \<Rightarrow> fb_codec \<Rightarrow> nostr_event \<Rightarrow> nostr_db \<Rightarrow> string list" where
  "determine_target_relays pf ho fb e db =
     ho_relays ho (fset_of_list (concat
       (map (\<lambda>p. or_default (get_read_relays pf fb p db)) (read_pubkeys e) @
        map (\<lambda>p. or_default (get_write_relays pf fb p db)) [ne_pubkey e])))"

section \<open>Ranking\<close>

definition orders_ok :: "hash_orders \<Rightarrow> bool" where
  "orders_ok ho \<longleftrightarrow>
     (\<forall>m. distinct (map fst (ho_latest ho m)) \<and> map_of (ho_latest ho m) = fmlookup m) \<and>
     (\<forall>m. distinct (map fst (ho_counts ho m)) \<and> map_of (ho_counts ho m) = fmlookup m) \<and>
     (\<forall>s. distinct (ho_relays ho s) \<and> set (ho_relays ho s) = fset s)"

lemma fold_count_relay:
  "fmlookup (fold count_relay us m) u =
     (let n = count_list us u + (case fmlookup m u of Some k \<Rightarrow> k | None \<Rightarrow> 0)
      in if u \<in> set us then Some n else fmlookup m u)"
  by (induction us arbitrary: m) (auto simp: count_relay_def Let_def split: option.splits)

lemma counts_lookup:
  "fmlookup (fold count_relay us fmempty) u = (if u \<in> set us then Some (count_list us u) else None)"
  by (simp add: fold_count_relay)

text \<open>One url stands before another when more users list it, or equally many and its text is smaller.\<close>

definition ranked_before :: "string list \<Rightarrow> string \<Rightarrow> string \<Rightarrow> bool" where
  "ranked_before us a b \<longleftrightarrow> count_list us b < count_list us a \<or> (count_list us a = count_list us b \<and> a < b)"

lemma rank_relays_spec:
  assumes "distinct (map fst xs)" "map_of xs = fmlookup (fold count_relay us fmempty)"
  defines "ranked \<equiv> map fst (rank_relays xs)"
  shows "distinct ranked" "set ranked = set us" "sorted_wrt (ranked_before us) ranked"
proof -
  define ys where "ys = rank_relays xs"
  have ms: "mset ys = mset xs" by (simp add: ys_def rank_relays_def)
  then have set_ys: "set ys = set xs" by (rule mset_eq_setD)
  have "mset (map fst ys) = mset (map fst xs)" using ms by simp
  then show d: "distinct ranked" using assms(1) by (metis mset_eq_imp_distinct_iff ranked_def ys_def)
  have count: "(u, n) \<in> set xs \<longleftrightarrow> u \<in> set us \<and> n = count_list us u" for u n
    using assms(1) by (auto simp: map_of_eq_Some_iff [symmetric] assms(2) counts_lookup split: if_splits)
  show "set ranked = set us"
  proof
    show "set ranked \<subseteq> set us" by (auto simp: ranked_def ys_def [symmetric] set_ys count)
    show "set us \<subseteq> set ranked" using count set_ys by (force simp: ranked_def ys_def [symmetric])
  qed
  have "sorted (map (\<lambda>(url, n). (- int n, url)) ys)" by (simp add: ys_def rank_relays_def)
  then have s: "sorted_wrt (\<lambda>a b. (- int (snd a), fst a) \<le> (- int (snd b), fst b)) ys"
    by (simp add: sorted_map case_prod_beta)
  have "sorted_wrt (\<lambda>a b. (- int (snd a), fst a) \<le> (- int (snd b), fst b) \<and> fst a \<noteq> fst b) ys"
    using s d by (auto simp: sorted_wrt_iff_nth_less ranked_def ys_def [symmetric] distinct_conv_nth)
  then have "sorted_wrt (\<lambda>a b. ranked_before us (fst a) (fst b)) ys"
    by (rule sorted_wrt_mono_rel [rotated]) (auto simp: set_ys count ranked_before_def less_eq_prod_def)
  then show "sorted_wrt (ranked_before us) ranked" by (simp add: ranked_def ys_def [symmetric] sorted_wrt_map)
qed

lemma ranked_before_linear: "a \<noteq> b \<Longrightarrow> ranked_before us a b \<or> ranked_before us b a"
  by (auto simp: ranked_before_def)

lemma ranked_before_asym: "ranked_before us a b \<Longrightarrow> \<not> ranked_before us b a"
  by (auto simp: ranked_before_def)

lemma rank_relays_mset: "mset xs = mset ys \<Longrightarrow> rank_relays xs = rank_relays ys"
proof -
  assume ms: "mset xs = mset ys"
  let ?f = "\<lambda>(url, n). (- int n, url) :: int \<times> string"
  have "map ?f (rank_relays xs) = map ?f (rank_relays ys)"
    using ms by (metis (no_types, lifting) mset_map mset_sort properties_for_sort rank_relays_def sorted_sort_key)
  moreover have "inj ?f" by (auto intro!: injI)
  ultimately show ?thesis by (simp add: inj_map_eq_map)
qed

lemma alist_mset:
  assumes "distinct (map fst xs)" "distinct (map fst ys)" "map_of xs = map_of ys"
  shows "mset xs = mset ys"
proof -
  have "set xs = set ys" using assms by (metis map_of_eq_Some_iff surj_pair subsetI subset_antisym)
  then show ?thesis using assms(1,2) by (metis distinct_map set_eq_iff_mset_eq_distinct)
qed

section \<open>The newest list of each user\<close>

text \<open>The newest event of a user among some events.\<close>

definition by_user :: "fb_codec \<Rightarrow> string \<Rightarrow> bytes \<Rightarrow> bool" where
  "by_user fb pubkey b = (case extract_parsed_event fb b of Some e \<Rightarrow> pe_pubkey e = pubkey | None \<Rightarrow> False)"

definition list_time :: "fb_codec \<Rightarrow> bytes \<Rightarrow> u32" where
  "list_time fb b = (case extract_parsed_event fb b of Some e \<Rightarrow> pe_created_at e | None \<Rightarrow> 0)"

definition newest_list :: "fb_codec \<Rightarrow> bytes list \<Rightarrow> string \<Rightarrow> bytes \<Rightarrow> bool" where
  "newest_list fb events pubkey b \<longleftrightarrow> b \<in> set events \<and> by_user fb pubkey b \<and>
     (\<forall>c \<in> set events. by_user fb pubkey c \<longrightarrow> list_time fb c \<le> list_time fb b)"

definition latest_ok :: "fb_codec \<Rightarrow> bytes list \<Rightarrow> (string, bytes) fmap \<Rightarrow> bool" where
  "latest_ok fb events m \<longleftrightarrow>
     (\<forall>p. case fmlookup m p of Some b \<Rightarrow> newest_list fb events p b | None \<Rightarrow> (\<forall>c \<in> set events. \<not> by_user fb p c))"

lemma latest_okD:
  assumes "latest_ok fb events m"
  shows "fmlookup m p = Some b \<Longrightarrow> newest_list fb events p b"
    and "fmlookup m p = None \<Longrightarrow> c \<in> set events \<Longrightarrow> \<not> by_user fb p c"
  using assms unfolding latest_ok_def by (force dest: spec [of _ p])+

lemma newest_list_snoc:
  "newest_list fb (events @ [b]) p c \<longleftrightarrow>
     (newest_list fb events p c \<and> (by_user fb p b \<longrightarrow> list_time fb b \<le> list_time fb c)) \<or>
     (c = b \<and> by_user fb p b \<and> (\<forall>d \<in> set events. by_user fb p d \<longrightarrow> list_time fb d \<le> list_time fb b))"
  by (auto simp: newest_list_def)

lemma keep_latest_other: "\<not> by_user fb p b \<Longrightarrow> fmlookup (keep_latest fb b m) p = fmlookup m p"
  by (auto simp: keep_latest_def by_user_def split: option.splits)

lemma keep_latest_step:
  assumes "latest_ok fb events m"
  shows "latest_ok fb (events @ [b]) (keep_latest fb b m)"
  unfolding latest_ok_def
proof
  fix p
  show "case fmlookup (keep_latest fb b m) p of Some c \<Rightarrow> newest_list fb (events @ [b]) p c
    | None \<Rightarrow> \<forall>c \<in> set (events @ [b]). \<not> by_user fb p c"
  proof (cases "by_user fb p b")
    case False
    then show ?thesis using latest_okD [OF assms, of p]
      by (auto simp: keep_latest_other newest_list_snoc split: option.splits)
  next
    case True
    then obtain e where e: "extract_parsed_event fb b = Some e" "pe_pubkey e = p" by (auto simp: by_user_def split: option.splits)
    show ?thesis
    proof (cases "fmlookup m p")
      case None
      then show ?thesis using latest_okD(2) [OF assms None] e True by (auto simp: keep_latest_def newest_list_snoc)
    next
      case (Some old)
      then have old: "newest_list fb events p old" using latest_okD(1) [OF assms] by blast
      then obtain x where "extract_parsed_event fb old = Some x" by (auto simp: newest_list_def by_user_def split: option.splits)
      then show ?thesis using old e True Some
        by (auto simp: keep_latest_def newest_list_snoc list_time_def newest_list_def not_less intro: order.trans less_imp_le)
    qed
  qed
qed

lemma keep_latest_ok: "latest_ok fb events (fold (keep_latest fb) events fmempty)"
  by (induction events rule: rev_induct) (simp add: latest_ok_def, simp add: keep_latest_step)

section \<open>Properties\<close>

definition wanted_by :: "fb_codec \<Rightarrow> string list \<Rightarrow> (string \<times> bytes) list \<Rightarrow> string list" where
  "wanted_by fb authors entries = concat (map (wanted_urls fb authors) entries)"

lemma relay_counts_lookup:
  "fmlookup (relay_counts ho fb authors events) u =
     (let us = wanted_by fb authors (ho_latest ho (fold (keep_latest fb) events fmempty))
      in if u \<in> set us then Some (count_list us u) else None)"
  by (simp add: relay_counts_def wanted_by_def counts_lookup Let_def)

lemma relay_counts_empty:
  "relay_counts ho fb authors events = fmempty \<longleftrightarrow>
     wanted_by fb authors (ho_latest ho (fold (keep_latest fb) events fmempty)) = []"
proof
  assume "relay_counts ho fb authors events = fmempty"
  then have "fmlookup (relay_counts ho fb authors events) u = None" for u by simp
  then show "wanted_by fb authors (ho_latest ho (fold (keep_latest fb) events fmempty)) = []"
    unfolding relay_counts_lookup Let_def by (metis last_in_set option.distinct(1))
qed (simp only: relay_counts_def wanted_by_def [symmetric], simp)

text \<open>C29. When a request names users, every user with a stored relay list contributes the list of the newest event,
  the write relays for an author and the read relays otherwise. The request goes to the first fifteen of the
  relays wanted, more wishes first and then by text, each once; to the fallback relays when none is wanted.\<close>

theorem relays_ranked:
  assumes "orders_ok ho" "request_authors r @ mentioned_pubkeys r \<noteq> []"
    and "query_events_with_filter pf (relay_list_filter (request_authors r @ mentioned_pubkeys r) None) db = Ok res"
  shows "\<exists>entries us. distinct (map fst entries) \<and> us = wanted_by fb (request_authors r) entries \<and>
     (\<forall>p. (\<exists>b. (p, b) \<in> set entries) \<longleftrightarrow> (\<exists>c \<in> set (qr_events res). by_user fb p c)) \<and>
     (\<forall>(p, b) \<in> set entries. newest_list fb (qr_events res) p b) \<and>
     (if us = [] then get_relays pf ho fb r db = fallback_relays r db
      else \<exists>ranked. get_relays pf ho fb r db = take 15 ranked \<and> distinct ranked \<and> set ranked = set us \<and>
        sorted_wrt (ranked_before us) ranked)"
proof -
  define m where "m = fold (keep_latest fb) (qr_events res) fmempty"
  define entries where "entries = ho_latest ho m"
  define us where "us = wanted_by fb (request_authors r) entries"
  define counts where "counts = relay_counts ho fb (request_authors r) (qr_events res)"
  have d: "distinct (map fst entries)" "map_of entries = fmlookup m"
    using assms(1) by (simp_all add: orders_ok_def entries_def)
  have mem: "(p, b) \<in> set entries \<longleftrightarrow> fmlookup m p = Some b" for p b
    using d by (metis map_of_eq_Some_iff)
  have ok: "latest_ok fb (qr_events res) m" by (simp add: m_def keep_latest_ok)
  have cover: "(\<exists>b. (p, b) \<in> set entries) \<longleftrightarrow> (\<exists>c \<in> set (qr_events res). by_user fb p c)" for p
    using latest_okD [OF ok, of p] unfolding mem by (cases "fmlookup m p") (auto simp: newest_list_def)
  have new: "\<forall>(p, b) \<in> set entries. newest_list fb (qr_events res) p b" using latest_okD(1) [OF ok] mem by auto
  have c: "counts = fold count_relay us fmempty"
    by (simp add: counts_def relay_counts_def us_def wanted_by_def entries_def m_def)
  have g: "get_relays pf ho fb r db =
      (if counts = fmempty then fallback_relays r db else map fst (take 15 (rank_relays (ho_counts ho counts))))"
    using assms(2,3) by (auto simp: get_relays_def Let_def counts_def)
  have e: "counts = fmempty \<longleftrightarrow> us = []"
    unfolding counts_def relay_counts_empty by (simp add: us_def entries_def m_def)
  have "distinct (map fst (ho_counts ho counts))" "map_of (ho_counts ho counts) = fmlookup (fold count_relay us fmempty)"
    using assms(1) c by (simp_all add: orders_ok_def)
  from rank_relays_spec [OF this]
  have "if us = [] then get_relays pf ho fb r db = fallback_relays r db
      else \<exists>ranked. get_relays pf ho fb r db = take 15 ranked \<and> distinct ranked \<and> set ranked = set us \<and>
        sorted_wrt (ranked_before us) ranked"
    unfolding g e take_map [symmetric] by auto
  then show ?thesis using d(1) us_def cover new by blast
qed

text \<open>The order in which the hash maps are iterated does not show.\<close>

theorem get_relays_deterministic:
  assumes "orders_ok ho" "orders_ok ho'"
  shows "get_relays pf ho fb r db = get_relays pf ho' fb r db"
proof -
  have "relay_counts ho fb authors events = relay_counts ho' fb authors events" for authors events
  proof (rule fmap_ext)
    fix u
    let ?m = "fold (keep_latest fb) events fmempty"
    have "mset (ho_latest ho ?m) = mset (ho_latest ho' ?m)"
      using assms by (intro alist_mset) (simp_all add: orders_ok_def)
    then have ms: "mset (wanted_by fb authors (ho_latest ho ?m)) = mset (wanted_by fb authors (ho_latest ho' ?m))"
      unfolding wanted_by_def mset_concat by (simp only: map_map comp_def sum_mset_sum_list [symmetric] mset_map)
    then show "fmlookup (relay_counts ho fb authors events) u = fmlookup (relay_counts ho' fb authors events) u"
      unfolding relay_counts_lookup Let_def by (metis count_mset mset_eq_setD)
  qed
  moreover have "rank_relays (ho_counts ho c) = rank_relays (ho_counts ho' c)" for c
    using assms by (intro rank_relays_mset alist_mset) (simp_all add: orders_ok_def)
  ultimately show ?thesis by (simp add: get_relays_def Let_def split: sum.splits)
qed

text \<open>A request that names users only in a tag filter with the name clients use, with its hash, never reads
  their relay lists: it goes to the fallback relays whatever the database holds.\<close>

theorem hashed_mentions_ignored:
  assumes "list_all hashed (tag_keys (or_default (rq_tags r)))" "request_authors r = []"
  shows "get_relays pf ho fb r db = fallback_relays r db"
proof -
  have "\<not> (1 < length items \<and> items ! 0 = ''p'')" if "Some items \<in> set (or_default (rq_tags r))" for items
  proof
    assume a: "1 < length items \<and> items ! 0 = ''p''"
    then have "hd items \<in> set (tag_keys (or_default (rq_tags r)))"
      using that by (force simp: tag_keys_def List.map_filter_def Suc_le_eq)
    then have "hashed (hd items)" using assms(1) by (simp add: list_all_iff)
    then show False using a by (cases items) (auto simp: hashed_def)
  qed
  then have "mentioned_pubkeys r = []"
    by (auto simp: mentioned_pubkeys_def List.map_filter_def filter_empty_conv split: option.splits)
  then show ?thesis using assms(2) by (simp add: get_relays_def)
qed

section \<open>Examples\<close>

definition example_orders :: hash_orders where
  "example_orders = \<lparr>ho_latest = (\<lambda>m. map (\<lambda>k. (k, the (fmlookup m k))) (sorted_list_of_fset (fmdom m))),
     ho_counts = (\<lambda>m. map (\<lambda>k. (k, the (fmlookup m k))) (sorted_list_of_fset (fmdom m))), ho_relays = sorted_list_of_fset\<rparr>"

lemma example_orders_ok: "orders_ok example_orders"
proof -
  have listed: "distinct (sorted_list_of_fset s) \<and> set (sorted_list_of_fset s) = fset s" for s :: "string fset"
    by (simp add: sorted_list_of_fset.rep_eq)
  show ?thesis unfolding orders_ok_def example_orders_def hash_orders.simps
    by (intro conjI allI; (rule sorted_entries(1) | rule sorted_entries(2) | simp only: listed))
qed

definition authors_request :: fb_request where
  "authors_request = example_request\<lparr>rq_authors := Some [''alice'', ''bob'']\<rparr>"

theorem relays_ranked_witness:
  "\<exists>res entries. query_events_with_filter example_platform (relay_list_filter [''alice'', ''bob''] None) example_db = Ok res \<and>
     distinct (map fst entries) \<and>
     (if wanted_by example_codec [''alice'', ''bob''] entries = []
      then get_relays example_platform example_orders example_codec authors_request example_db = fallback_relays authors_request example_db
      else \<exists>ranked. get_relays example_platform example_orders example_codec authors_request example_db = take 15 ranked \<and>
        distinct ranked)"
proof -
  have a: "mentioned_pubkeys authors_request = []" "request_authors authors_request = [''alice'', ''bob'']"
    by (simp_all add: request_authors_def mentioned_pubkeys_def authors_request_def example_request_def or_default_def List.map_filter_simps)
  obtain res where res: "query_events_with_filter example_platform (relay_list_filter [''alice'', ''bob''] None) example_db = Ok res"
    by (simp add: query_events_with_filter_def query_inner_survivors)
  have "request_authors authors_request @ mentioned_pubkeys authors_request \<noteq> []" by (simp add: a)
  from relays_ranked [OF example_orders_ok this, of example_platform example_db res example_codec] res
  obtain entries us where e: "distinct (map fst entries)" "us = wanted_by example_codec (request_authors authors_request) entries"
    "if us = [] then get_relays example_platform example_orders example_codec authors_request example_db = fallback_relays authors_request example_db
     else \<exists>ranked. get_relays example_platform example_orders example_codec authors_request example_db = take 15 ranked \<and>
       distinct ranked \<and> set ranked = set us \<and> sorted_wrt (ranked_before us) ranked"
    by (auto simp: a)
  show ?thesis
    by (rule exI [of _ res], rule exI [of _ entries]) (use res e in \<open>auto simp: a split: if_splits\<close>)
qed

theorem hashed_mentions_ignored_witness:
  "get_relays example_platform example_orders example_codec (example_request\<lparr>rq_tags := Some [Some [''#p'', ''bob'']]\<rparr>) example_db =
   fallback_relays (example_request\<lparr>rq_tags := Some [Some [''#p'', ''bob'']]\<rparr>) example_db"
  by (rule hashed_mentions_ignored)
    (simp_all add: example_request_def or_default_def tag_keys_def List.map_filter_simps hashed_def request_authors_def)

end
