(* ===== verification/Db_Facade.thy ===== *)
theory Db_Facade
  imports Relay_Selection Nostr_Store
begin

text \<open>
  The trait \<open>Storage\<close> of \<open>core/src/traits.rs\<close> as the locale \<open>storage\<close>, and its implementation over the
  database, after \<open>storage/db/nostr_db_storage.rs\<close>. The law of the interface is that a query returns only
  bytes that were persisted; the client lemma carries it over every sequence of calls.
\<close>

section \<open>The interface\<close>

datatype storage_failure = PersistFailed database_error | InitializeFailed database_error

locale storage =
  fixes query :: "nostr_filter list \<Rightarrow> 's \<Rightarrow> 'e + bytes list"
    and persist :: "bytes \<Rightarrow> 's \<Rightarrow> ('s \<times> ('e + unit)) option"
    and stored :: "'s \<Rightarrow> bytes set"
    and accepts :: "bytes \<Rightarrow> 's \<Rightarrow> bool"
    and invar :: "'s \<Rightarrow> bool"
  assumes persist_stored: "invar s \<Longrightarrow> accepts b s \<Longrightarrow>
      \<exists>s' r. persist b s = Some (s', r) \<and> invar s' \<and> stored s' \<subseteq> insert b (stored s)"
    and query_stored: "invar s \<Longrightarrow> query fs s = Ok es \<Longrightarrow> set es \<subseteq> stored s"
begin

lemma persist_query:
  assumes "invar s" "accepts b s" "persist b s = Some (s', r)" "query fs s' = Ok es"
  shows "set es \<subseteq> insert b (stored s)"
  using persist_stored [OF assms(1,2)] assms(3) query_stored [OF _ assms(4)] by auto

end

section \<open>The database as a storage\<close>

definition storage_query ::
  "platform \<Rightarrow> fb_codec \<Rightarrow> hex_text \<Rightarrow> nostr_filter list \<Rightarrow> nostr_db \<Rightarrow> storage_failure + bytes list" where
  "storage_query pf fb hex filters db =
     (let all_events = concat (map (\<lambda>f.
            case query_events_with_filter pf (filter_to_query_filter hex f) db of
              Ok res \<Rightarrow> qr_events res
            | Err _ \<Rightarrow> []) filters)
      in Ok (map snd (newest_first (with_time fb all_events))))"

definition storage_persist :: "fb_codec \<Rightarrow> bytes \<Rightarrow> nostr_db \<Rightarrow> (nostr_db \<times> (storage_failure + unit)) option" where
  "storage_persist fb bs db =
     (case add_worker_message_bytes fb bs db of
        None \<Rightarrow> None
      | Some (db, r) \<Rightarrow> Some (db, case r of Ok _ \<Rightarrow> Ok () | Err e \<Rightarrow> Err (PersistFailed e)))"

definition storage_initialize :: "fb_codec \<Rightarrow> nostr_db \<Rightarrow> (nostr_db \<times> (storage_failure + unit)) option" where
  "storage_initialize fb db =
     (case db_initialize fb db of
        None \<Rightarrow> None
      | Some (db, r) \<Rightarrow> Some (db, case r of Ok _ \<Rightarrow> Ok () | Err e \<Rightarrow> Err (InitializeFailed e)))"

definition storage_get_relays :: "platform \<Rightarrow> hash_orders \<Rightarrow> fb_codec \<Rightarrow> fb_request \<Rightarrow> nostr_db \<Rightarrow> string list option" where
  "storage_get_relays pf ho fb r db = Some (get_relays pf ho fb r db)"

section \<open>What a query returns\<close>

definition event_time :: "fb_codec \<Rightarrow> bytes \<Rightarrow> u32" where
  "event_time fb b = (case extract_created_at fb b of Some t \<Rightarrow> t | None \<Rightarrow> 0)"

definition db_stored :: "nostr_db \<Rightarrow> bytes set" where
  "db_stored db = snd ` sharded_live (db_storage db)"

definition db_ok :: "nostr_db \<Rightarrow> bool" where
  "db_ok db \<longleftrightarrow> (\<exists>w. store_ok w db)"

definition db_accepts :: "fb_codec \<Rightarrow> bytes \<Rightarrow> nostr_db \<Rightarrow> bool" where
  "db_accepts fb bs db \<longleftrightarrow> (\<forall>f. decode_event fb bs = DecEvent f \<longrightarrow> event_accepts f bs db)"

lemma store_and_index_live:
  assumes "store_ok w db" "event_accepts f bs db" "store_and_index f bs db = Some (db', r)"
  shows "db_stored db' \<subseteq> insert bs (db_stored db)"
proof -
  have s: "sharded_ok (db_storage db)" "kind_accepts (ucast (ef_kind f), bs) (db_storage db)"
    using assms(1,2) by (simp_all add: store_ok_def event_accepts_def)
  obtain st' off where add: "add_event_for_kind (ucast (ef_kind f), bs) (db_storage db) = (st', Ok off)"
    "sharded_live st' \<subseteq> insert (off, bs) (sharded_live (db_storage db))"
    using by_kind.add_accepts [OF s] by auto
  then have "db_storage db' = st'"
    using assms(3) by (auto simp: store_and_index_def db_index_def split: option.splits prod.splits)
  then show ?thesis using add(2) by (force simp: db_stored_def)
qed

lemma storage_persist_step:
  assumes "db_ok db" "db_accepts fb bs db"
  shows "\<exists>db' r. storage_persist fb bs db = Some (db', r) \<and> db_ok db' \<and> db_stored db' \<subseteq> insert bs (db_stored db)"
proof -
  obtain w where w: "store_ok w db" using assms(1) by (auto simp: db_ok_def)
  show ?thesis
  proof (cases "decode_event fb bs")
    case (DecEvent f)
    then have acc: "event_accepts f bs db" using assms(2) by (simp add: db_accepts_def)
    obtain db' off where st: "store_and_index f bs db = Some (db', Ok ())" "store_ok (w @ [(f, off, bs)]) db'"
      using store_and_index_step [OF w acc] by blast
    show ?thesis
      using st store_and_index_live [OF w acc st(1)] assms(1) DecEvent
      by (auto simp: storage_persist_def add_worker_message_bytes_def db_ok_def)
  qed (use assms(1) in \<open>auto simp: storage_persist_def add_worker_message_bytes_def\<close>)
qed

lemma survivor_stored:
  assumes "store_ok w db" "platform_ok pf" "(t, off) \<in> set (survivors pf flt db)" "sharded_get_event off (db_storage db) = Ok (Some b)"
  shows "b \<in> db_stored db"
proof -
  have ok: "sharded_ok (db_storage db)" "records_ok (stored_history w) (db_indexes db)"
    using assms(1) by (simp_all add: store_ok_def index_ok_def)
  obtain sets r where "r \<in> set (candidate_records pf sets (db_indexes db))" "er_offset r = off"
    using assms(3) by (auto simp: survivors_def split: option.splits)
  then have "fmlookup (events_by_key (db_indexes db)) (er_key r) = Some r"
    using candidate_records_set [OF assms(2) ok(2), of sets] by auto
  then obtain i where "fmlookup (events_by_id (db_indexes db)) i = Some r" using records_okD(5) [OF ok(2)] by blast
  then obtain f where f: "latest (stored_history w) i = Some (f, off)"
    using records_okD(1) [OF ok(2), of i] \<open>er_offset r = off\<close> by (auto simp: option_rel_Some2 record_of_def)
  then obtain bs where "(f, off, bs) \<in> set w" using latest_SomeD [OF f] by (auto simp: stored_history_def)
  then have "held (db_storage db) off bs" using assms(1) by (auto simp: store_ok_def)
  then have "(off, b) \<in> sharded_live (db_storage db)"
    using assms(4) ok(1) sharded_get_live sharded_get_gone by (fastforce simp: held_def)
  then show ?thesis by (force simp: db_stored_def)
qed

lemma query_result_stored:
  assumes "db_ok db" "platform_ok pf" "query_events_with_filter pf flt db = Ok res"
  shows "set (qr_events res) \<subseteq> db_stored db"
proof
  fix b assume b: "b \<in> set (qr_events res)"
  obtain w where w: "store_ok w db" using assms(1) by (auto simp: db_ok_def)
  define lim where "lim = apply_limit pf (qf_limit flt) (survivors pf flt db)"
  have "set (newest_first lim) = set lim" using newest_first_spec(1) [of lim] by (rule mset_eq_setD)
  moreover have "set lim \<subseteq> set (survivors pf flt db)"
    using apply_limit_spec [OF assms(2), of "qf_limit flt" "survivors pf flt db"] unfolding lim_def
    by (metis Un_upper1 set_append set_mset_mset)
  moreover have "qr_events res = read_events (db_storage db) (map snd (newest_first lim))"
    using assms(3) by (auto simp: query_events_with_filter_def query_inner_survivors lim_def)
  ultimately obtain t off where "(t, off) \<in> set (survivors pf flt db)" "sharded_get_event off (db_storage db) = Ok (Some b)"
    using b by (fastforce simp: read_events_def List.map_filter_def split: sum.splits)
  then show "b \<in> db_stored db" by (rule survivor_stored [OF w assms(2)])
qed

definition db_invar :: "platform \<Rightarrow> nostr_db \<Rightarrow> bool" where
  "db_invar pf db \<longleftrightarrow> platform_ok pf \<and> db_ok db"

lemma storage_query_perm:
  "\<exists>es. storage_query pf fb hex filters db = Ok es \<and>
     mset es = (\<Sum>f\<leftarrow>filters. case query_events_with_filter pf (filter_to_query_filter hex f) db of
       Ok res \<Rightarrow> mset (qr_events res) | Err _ \<Rightarrow> {#}) \<and>
     sorted_wrt (\<lambda>a b. event_time fb b \<le> event_time fb a) es"
proof -
  define evs where "evs = concat (map (\<lambda>f. case query_events_with_filter pf (filter_to_query_filter hex f) db of
      Ok res \<Rightarrow> qr_events res | Err _ \<Rightarrow> []) filters)"
  define ws where "ws = newest_first (with_time fb evs)"
  have ms: "mset ws = mset (with_time fb evs)" by (simp add: ws_def newest_first_spec)
  have "mset (map snd ws) = mset (map snd (with_time fb evs))" using ms by simp
  then have perm: "mset (map snd ws) = mset evs" by (simp add: with_time_def comp_def)
  have "fst x = event_time fb (snd x)" if "x \<in> set ws" for x
    using that mset_eq_setD [OF ms] by (auto simp: with_time_def event_time_def)
  moreover have "sorted_wrt (\<lambda>a b. fst b \<le> fst a) ws" by (simp add: ws_def newest_first_spec)
  ultimately have "sorted_wrt (\<lambda>a b. event_time fb (snd b) \<le> event_time fb (snd a)) ws"
    by (metis (no_types, lifting) sorted_wrt_mono_rel)
  then have "sorted_wrt (\<lambda>a b. event_time fb b \<le> event_time fb a) (map snd ws)" by (simp add: sorted_wrt_map)
  moreover have "mset evs = (\<Sum>f\<leftarrow>filters. case query_events_with_filter pf (filter_to_query_filter hex f) db of
       Ok res \<Rightarrow> mset (qr_events res) | Err _ \<Rightarrow> {#})"
    by (simp add: evs_def mset_concat comp_def) (intro arg_cong [where f = sum_list] map_cong refl, simp split: sum.splits)
  ultimately show ?thesis using perm
    by (simp add: storage_query_def evs_def [symmetric] ws_def [symmetric] del: mset_map)
qed

lemma storage_query_stored:
  assumes "db_invar pf db" "storage_query pf fb hex filters db = Ok es"
  shows "set es \<subseteq> db_stored db"
proof -
  have one: "set_mset (case query_events_with_filter pf flt db of Ok res \<Rightarrow> mset (qr_events res) | Err _ \<Rightarrow> {#}) \<subseteq> db_stored db" for flt
    using assms(1) query_result_stored [of db pf flt] by (simp add: db_invar_def split: sum.splits)
  have "set_mset (\<Sum>f\<leftarrow>filters. case query_events_with_filter pf (filter_to_query_filter hex f) db of
       Ok res \<Rightarrow> mset (qr_events res) | Err _ \<Rightarrow> {#}) \<subseteq> db_stored db"
    using one by (induction filters) simp_all
  then show ?thesis using storage_query_perm [of pf fb hex filters db] assms(2) by (metis Inr_inject set_mset_mset)
qed

interpretation db: storage "storage_query pf fb hex" "storage_persist fb" db_stored "db_accepts fb" "db_invar pf"
proof
  fix s b assume "db_invar pf s" "db_accepts fb b s"
  then show "\<exists>s' r. storage_persist fb b s = Some (s', r) \<and> db_invar pf s' \<and> db_stored s' \<subseteq> insert b (db_stored s)"
    using storage_persist_step by (simp add: db_invar_def)
next
  fix s fs es assume "db_invar pf s" "storage_query pf fb hex fs s = Ok es"
  then show "set es \<subseteq> db_stored s" by (rule storage_query_stored)
qed

end
