(* ===== verification/Cache_Worker.thy ===== *)
theory Cache_Worker
  imports Db_Facade Cache_Input
begin

text \<open>
  The cache worker, after \<open>worker/cache_worker.rs\<close>. Two endpoints run the same loop: the client endpoint answers
  the parser and forwards to the relay connections, the mesh endpoint answers the mesh runtime from a storage
  of its own. They share the registry of mesh watches and the index that lets mesh events expire. The
  handling of one message is one step; the time is read once per message. A message sent is appended to the
  list of its channel. Parameters: the FlatBuffers readers and builders, the JSON text of \<open>serde_json\<close>, the
  Unicode lower-casing, the hex crate, the iteration orders of the hash maps, and the storage.
\<close>

section \<open>Expiry of mesh events\<close>

definition MESH_EVENT_TTL :: nat where
  "MESH_EVENT_TTL = 10 * 60 * 1000"

record mesh_ttl_index =
  ttl_live :: "(string, nat) fmap"
  ttl_queue :: "(nat \<times> string) list"
  ttl_pinned :: "string option"

definition ttl_new :: mesh_ttl_index where
  "ttl_new = \<lparr>ttl_live = fmempty, ttl_queue = [], ttl_pinned = None\<rparr>"

definition observe :: "string \<Rightarrow> nat \<Rightarrow> mesh_ttl_index \<Rightarrow> mesh_ttl_index" where
  "observe event_id now ix =
     (let expires_at = now + MESH_EVENT_TTL
      in ix\<lparr>ttl_live := fmupd event_id expires_at (ttl_live ix), ttl_queue := ttl_queue ix @ [(expires_at, event_id)]\<rparr>)"

fun prune_loop :: "nat \<Rightarrow> (nat \<times> string) list \<Rightarrow> (string, nat) fmap \<Rightarrow> (nat \<times> string) list \<times> (string, nat) fmap" where
  "prune_loop now [] live = ([], live)"
| "prune_loop now ((expires_at, event_id) # queue) live =
     (if expires_at \<le> now
      then prune_loop now queue (if fmlookup live event_id = Some expires_at then fmdrop event_id live else live)
      else ((expires_at, event_id) # queue, live))"

definition ttl_prune :: "nat \<Rightarrow> mesh_ttl_index \<Rightarrow> mesh_ttl_index" where
  "ttl_prune now ix = (let (queue, live) = prune_loop now (ttl_queue ix) (ttl_live ix) in ix\<lparr>ttl_queue := queue, ttl_live := live\<rparr>)"

definition is_live :: "string \<Rightarrow> nat \<Rightarrow> mesh_ttl_index \<Rightarrow> mesh_ttl_index \<times> bool" where
  "is_live event_id now ix =
     (if ttl_pinned ix = Some event_id then (ix, True)
      else
        (let ix = ttl_prune now ix
         in (ix, case fmlookup (ttl_live ix) event_id of Some expires_at \<Rightarrow> now < expires_at | None \<Rightarrow> False)))"

definition pin :: "string \<Rightarrow> mesh_ttl_index \<Rightarrow> mesh_ttl_index" where
  "pin event_id ix = ix\<lparr>ttl_live := fmdrop event_id (ttl_live ix), ttl_pinned := Some event_id\<rparr>"

definition clear_pin :: "mesh_ttl_index \<Rightarrow> mesh_ttl_index" where
  "clear_pin ix = ix\<lparr>ttl_pinned := None\<rparr>"

section \<open>Watches\<close>

definition MAX_MESH_WATCHES :: nat where
  "MAX_MESH_WATCHES = 128"

definition MAX_DELIVERED_IDS_PER_WATCH :: nat where
  "MAX_DELIVERED_IDS_PER_WATCH = 4096"

record mesh_watch =
  mw_requests :: "request list"
  mw_delivered_ids :: "string fset"
  mw_delivered_order :: "string list"

definition mesh_watch_new :: "request list \<Rightarrow> mesh_watch" where
  "mesh_watch_new requests = \<lparr>mw_requests = requests, mw_delivered_ids = {||}, mw_delivered_order = []\<rparr>"

definition watch_remember :: "string \<Rightarrow> mesh_watch \<Rightarrow> mesh_watch \<times> bool" where
  "watch_remember i w =
     (if i |\<in>| mw_delivered_ids w then (w, False)
      else
        (let ids = finsert i (mw_delivered_ids w); order = mw_delivered_order w @ [i]
         in if length order > MAX_DELIVERED_IDS_PER_WATCH
            then (w\<lparr>mw_delivered_ids := ids |-| {|hd order|}, mw_delivered_order := tl order\<rparr>, True)
            else (w\<lparr>mw_delivered_ids := ids, mw_delivered_order := order\<rparr>, True)))"

section \<open>The worker\<close>

record 's storage_ops =
  so_query :: "nostr_filter list \<Rightarrow> 's \<Rightarrow> storage_failure + bytes list"
  so_persist :: "bytes \<Rightarrow> 's \<Rightarrow> ('s \<times> (storage_failure + unit)) option"
  so_get_relays :: "fb_request \<Rightarrow> 's \<Rightarrow> string list option"

record cache_request =
  cr_sub_id :: string
  cr_close :: bool
  cr_event :: "nostr_event option"
  cr_relays :: "string list option"
  cr_requests :: "fb_request list option"
  cr_keep_mesh_watch :: bool

record 's worker_env =
  we_fb :: fb_codec
  we_sub_id :: "bytes \<Rightarrow> string option"
  we_request :: "bytes \<Rightarrow> cache_request option"
  we_response :: "string \<Rightarrow> bytes \<Rightarrow> bytes"
  we_json :: "json \<Rightarrow> string"
  we_lower :: "string \<Rightarrow> string"
  we_hex :: hex_text
  we_tag_order :: tag_order
  we_watch_order :: "(string, mesh_watch) fmap \<Rightarrow> string list"
  we_ops :: "'s storage_ops"

text \<open>The arguments of \<open>spawn_cache_endpoint\<close>; a channel or a shared structure that is \<open>None\<close> is \<open>False\<close>.\<close>

record endpoint =
  ep_is_mesh :: bool
  ep_mesh_query :: bool
  ep_upstream :: bool
  ep_watches :: bool
  ep_allow_mesh_only :: bool
  ep_notify :: bool
  ep_ttl :: bool
  ep_track :: bool

definition client_endpoint :: endpoint where
  "client_endpoint = \<lparr>ep_is_mesh = False, ep_mesh_query = True, ep_upstream = True, ep_watches = True,
     ep_allow_mesh_only = True, ep_notify = False, ep_ttl = True, ep_track = False\<rparr>"

definition mesh_endpoint :: endpoint where
  "mesh_endpoint = \<lparr>ep_is_mesh = True, ep_mesh_query = False, ep_upstream = False, ep_watches = True,
     ep_allow_mesh_only = False, ep_notify = True, ep_ttl = True, ep_track = True\<rparr>"

definition single_endpoint :: endpoint where
  "single_endpoint = \<lparr>ep_is_mesh = False, ep_mesh_query = False, ep_upstream = True, ep_watches = False,
     ep_allow_mesh_only = False, ep_notify = False, ep_ttl = False, ep_track = False\<rparr>"

record 's cache_world =
  cw_client :: 's
  cw_mesh :: 's
  cw_watches :: "(string, mesh_watch) fmap"
  cw_ttl :: mesh_ttl_index
  cw_to_parser :: "bytes list"
  cw_to_mesh :: "bytes list"
  cw_upstream :: "string list"

definition endpoint_storage :: "endpoint \<Rightarrow> 's cache_world \<Rightarrow> 's" where
  "endpoint_storage ep w = (if ep_is_mesh ep then cw_mesh w else cw_client w)"

definition set_storage :: "endpoint \<Rightarrow> 's \<Rightarrow> 's cache_world \<Rightarrow> 's cache_world" where
  "set_storage ep s w = (if ep_is_mesh ep then w\<lparr>cw_mesh := s\<rparr> else w\<lparr>cw_client := s\<rparr>)"

definition send_result :: "endpoint \<Rightarrow> bytes \<Rightarrow> 's cache_world \<Rightarrow> 's cache_world" where
  "send_result ep b w = (if ep_is_mesh ep then w\<lparr>cw_to_mesh := cw_to_mesh w @ [b]\<rparr> else w\<lparr>cw_to_parser := cw_to_parser w @ [b]\<rparr>)"

definition send_upstream :: "endpoint \<Rightarrow> string \<Rightarrow> 's cache_world \<Rightarrow> 's cache_world" where
  "send_upstream ep x w = (if ep_upstream ep then w\<lparr>cw_upstream := cw_upstream w @ [x]\<rparr> else w)"

definition CACHE_DEFAULT_RELAYS :: "string list" where
  "CACHE_DEFAULT_RELAYS = [''wss://relay.snort.social'', ''wss://relay.damus.io'', ''wss://relay.primal.net'']"

definition resolve_publish_relays :: "string list option \<Rightarrow> string list" where
  "resolve_publish_relays requested =
     (case requested of Some relays \<Rightarrow> if relays \<noteq> [] then relays else CACHE_DEFAULT_RELAYS | None \<Rightarrow> CACHE_DEFAULT_RELAYS)"

definition worker_message_event_id :: "fb_codec \<Rightarrow> bytes \<Rightarrow> string option" where
  "worker_message_event_id fb b =
     (case root_worker_message fb b of
        Some (WmNostr n) \<Rightarrow> map_option ne_id n
      | Some (WmParsed p) \<Rightarrow> map_option pe_id p
      | _ \<Rightarrow> None)"

definition has_prefix :: "string \<Rightarrow> string \<Rightarrow> bool" where
  "has_prefix p x \<longleftrightarrow> take (length p) x = p"

fun has_infix :: "string \<Rightarrow> string \<Rightarrow> bool" where
  "has_infix p [] = (p = [])"
| "has_infix p (c # x) = (has_prefix p (c # x) \<or> has_infix p x)"

definition tag_matches :: "string \<Rightarrow> string list \<Rightarrow> fb_tag \<Rightarrow> bool" where
  "tag_matches key wanted tag =
     (case tag of
        None \<Rightarrow> False
      | Some items \<Rightarrow> 2 \<le> length items \<and> hd items = key \<and> list_ex (\<lambda>v. v \<in> set wanted) (tl items))"

definition request_matches_event :: "'s worker_env \<Rightarrow> request \<Rightarrow> nostr_event \<Rightarrow> bool" where
  "request_matches_event env r e \<longleftrightarrow>
     (nr_ids r = [] \<or> list_ex (\<lambda>i. has_prefix i (ne_id e)) (nr_ids r)) \<and>
     (nr_authors r = [] \<or> list_ex (\<lambda>a. has_prefix a (ne_pubkey e)) (nr_authors r)) \<and>
     (nr_kinds r = [] \<or> ucast (ne_kind e) \<in> set (nr_kinds r)) \<and>
     (case nr_since r of Some since \<Rightarrow> \<not> sint (ne_created_at e) < sint since | None \<Rightarrow> True) \<and>
     (case nr_until r of Some until \<Rightarrow> \<not> sint (ne_created_at e) > sint until | None \<Rightarrow> True) \<and>
     (case nr_search r of Some x \<Rightarrow> has_infix (we_lower env x) (we_lower env (ne_content e)) | None \<Rightarrow> True) \<and>
     list_all (\<lambda>(k, wanted). list_ex (tag_matches (strip_hash k) wanted) (ne_tags e)) (we_tag_order env (nr_tags r))"

definition notify_watch :: "'s worker_env \<Rightarrow> nostr_event \<Rightarrow> bytes \<Rightarrow> string \<Rightarrow> 's cache_world \<Rightarrow> 's cache_world" where
  "notify_watch env e b sub_id w =
     (case fmlookup (cw_watches w) sub_id of
        None \<Rightarrow> w
      | Some watch \<Rightarrow>
          if list_ex (\<lambda>r. request_matches_event env r e) (mw_requests watch) then
            (let (watch, new) = watch_remember (ne_id e) watch; w = w\<lparr>cw_watches := fmupd sub_id watch (cw_watches w)\<rparr>
             in if new then w\<lparr>cw_to_parser := cw_to_parser w @ [we_response env sub_id (lp_record b)]\<rparr> else w)
          else w)"

definition notify_mesh_watches :: "'s worker_env \<Rightarrow> bytes \<Rightarrow> 's cache_world \<Rightarrow> 's cache_world" where
  "notify_mesh_watches env b w =
     (case root_worker_message (we_fb env) b of
        Some (WmNostr (Some e)) \<Rightarrow> fold (notify_watch env e b) (we_watch_order env (cw_watches w)) w
      | _ \<Rightarrow> w)"

section \<open>Persisting\<close>

definition after_persist :: "'s worker_env \<Rightarrow> endpoint \<Rightarrow> (string \<Rightarrow> mesh_ttl_index \<Rightarrow> mesh_ttl_index) \<Rightarrow> bytes \<Rightarrow> 's cache_world \<Rightarrow> 's cache_world" where
  "after_persist env ep mark b w =
     (let w = (if ep_track ep \<and> ep_ttl ep
               then (case worker_message_event_id (we_fb env) b of
                       Some i \<Rightarrow> w\<lparr>cw_ttl := mark i (cw_ttl w)\<rparr>
                     | None \<Rightarrow> w)
               else w)
      in if ep_watches ep \<and> ep_notify ep then notify_mesh_watches env b w else w)"

definition handle_persist :: "'s worker_env \<Rightarrow> endpoint \<Rightarrow> nat \<Rightarrow> bytes \<Rightarrow> 's cache_world \<Rightarrow> 's cache_world option" where
  "handle_persist env ep now inner w =
     (case root_worker_message (we_fb env) inner of
        None \<Rightarrow> Some w
      | Some _ \<Rightarrow>
          if ep_track ep \<and> we_sub_id env inner = Some ''mesh_clear_profile''
          then Some (if ep_ttl ep then w\<lparr>cw_ttl := clear_pin (cw_ttl w)\<rparr> else w)
          else
            (let mark = (if ep_track ep \<and> we_sub_id env inner = Some ''mesh_pin_profile'' then pin else (\<lambda>i. observe i now))
             in case so_persist (we_ops env) inner (endpoint_storage ep w) of
                  None \<Rightarrow> None
                | Some (s, Err _) \<Rightarrow> Some (set_storage ep s w)
                | Some (s, Ok _) \<Rightarrow> Some (after_persist env ep mark inner (set_storage ep s w))))"

section \<open>Publishing\<close>

definition event_value :: "nostr_event \<Rightarrow> json" where
  "event_value e =
     JObj [(''id'', JStr (ne_id e)), (''pubkey'', JStr (ne_pubkey e)), (''kind'', JNum (uint (ne_kind e))),
           (''content'', JStr (ne_content e)), (''tags'', JArr (map (\<lambda>t. JArr (map JStr (or_default t))) (ne_tags e))),
           (''created_at'', JNum (sint (ne_created_at e))), (''sig'', JStr (ne_sig e))]"

definition relay_envelope :: "'s worker_env \<Rightarrow> string list \<Rightarrow> json \<Rightarrow> string" where
  "relay_envelope env relays frm =
     we_json env (JObj [(''relays'', JArr (map JStr relays)), (''frames'', JArr [JStr (we_json env frm)])])"

definition handle_publish :: "'s worker_env \<Rightarrow> endpoint \<Rightarrow> nostr_event \<Rightarrow> string list option \<Rightarrow> 's cache_world \<Rightarrow> 's cache_world" where
  "handle_publish env ep e relays w =
     send_upstream ep (relay_envelope env (resolve_publish_relays relays) (JArr [JStr ''EVENT'', event_value e])) w"

section \<open>Querying\<close>

definition obj_insert :: "string \<Rightarrow> json \<Rightarrow> (string \<times> json) list \<Rightarrow> (string \<times> json) list" where
  "obj_insert k v obj = (if k \<in> fst ` set obj then map (\<lambda>(j, x). (j, if j = k then v else x)) obj else obj @ [(k, v)])"

definition obj_strings :: "string \<Rightarrow> string list option \<Rightarrow> (string \<times> json) list \<Rightarrow> (string \<times> json) list" where
  "obj_strings k v obj = (if or_default v = [] then obj else obj_insert k (JArr (map JStr (or_default v))) obj)"

definition obj_bound :: "string \<Rightarrow> i32 \<Rightarrow> (string \<times> json) list \<Rightarrow> (string \<times> json) list" where
  "obj_bound k n obj = (if sint n > 0 then obj_insert k (JNum (sint n)) obj else obj)"

definition obj_tag :: "fb_tag \<Rightarrow> (string \<times> json) list \<Rightarrow> (string \<times> json) list" where
  "obj_tag tag obj =
     (case tag of
        Some items \<Rightarrow> if 2 \<le> length items then obj_insert (hd items) (JArr (map JStr (tl items))) obj else obj
      | None \<Rightarrow> obj)"

definition fb_request_to_json :: "fb_request \<Rightarrow> json" where
  "fb_request_to_json r =
     JObj (fold obj_tag (or_default (rq_tags r))
       (obj_bound ''until'' (rq_until r)
       (obj_bound ''since'' (rq_since r)
       (obj_bound ''limit'' (rq_limit r)
       ((\<lambda>obj. case rq_search r of Some x \<Rightarrow> if x \<noteq> [] then obj_insert ''search'' (JStr x) obj else obj | None \<Rightarrow> obj)
       ((\<lambda>obj. if or_default (rq_kinds r) = [] then obj
               else obj_insert ''kinds'' (JArr (map (\<lambda>k. JNum (uint k)) (or_default (rq_kinds r)))) obj)
       (obj_strings ''authors'' (rq_authors r)
       (obj_strings ''ids'' (rq_ids r) []))))))))"

definition register_watch :: "endpoint \<Rightarrow> string \<Rightarrow> bool \<Rightarrow> fb_request list \<Rightarrow> 's cache_world \<Rightarrow> 's cache_world" where
  "register_watch ep sub_id keep reqs w =
     (let live = filter nr_mesh_only (map from_flatbuffer reqs)
      in if ep_allow_mesh_only ep \<and> keep \<and> live \<noteq> [] \<and> ep_watches ep \<and>
           (fcard (fmdom (cw_watches w)) < MAX_MESH_WATCHES \<or> sub_id |\<in>| fmdom (cw_watches w))
         then w\<lparr>cw_watches := fmupd sub_id (mesh_watch_new live) (cw_watches w)\<rparr>
         else w)"

fun retain_live :: "fb_codec \<Rightarrow> nat \<Rightarrow> bytes list \<Rightarrow> mesh_ttl_index \<Rightarrow> mesh_ttl_index \<times> bytes list" where
  "retain_live fb now [] ix = (ix, [])"
| "retain_live fb now (b # bs) ix =
     (let (ix, keep) = (case worker_message_event_id fb b of Some i \<Rightarrow> is_live i now ix | None \<Rightarrow> (ix, False));
          (ix, rest) = retain_live fb now bs ix
      in (ix, if keep then b # rest else rest))"

fun retain_new :: "fb_codec \<Rightarrow> bytes list \<Rightarrow> mesh_watch \<Rightarrow> mesh_watch \<times> bytes list" where
  "retain_new fb [] watch = (watch, [])"
| "retain_new fb (b # bs) watch =
     (let (watch, keep) = (case worker_message_event_id fb b of Some i \<Rightarrow> watch_remember i watch | None \<Rightarrow> (watch, True));
          (watch, rest) = retain_new fb bs watch
      in (watch, if keep then b # rest else rest))"

definition lookup_events :: "'s worker_env \<Rightarrow> endpoint \<Rightarrow> request \<Rightarrow> nostr_filter \<Rightarrow> 's cache_world \<Rightarrow> storage_failure + bytes list" where
  "lookup_events env ep r f w =
     (if nr_mesh_only r then (if ep_mesh_query ep then so_query (we_ops env) [f] (cw_mesh w) else Ok [])
      else so_query (we_ops env) [f] (endpoint_storage ep w))"

text \<open>One request of the loop: the world after it, whether it is kept from the network, and its events.\<close>

definition query_request ::
  "'s worker_env \<Rightarrow> endpoint \<Rightarrow> nat \<Rightarrow> string \<Rightarrow> bool \<Rightarrow> fb_request \<Rightarrow> 's cache_world \<Rightarrow> 's cache_world \<times> bool \<times> bytes list" where
  "query_request env ep now sub_id keep fr w =
     (let r = from_flatbuffer fr; mesh = nr_mesh_only r
      in if nr_no_cache r then (w, mesh, [])
         else
           (case to_filter (we_hex env) (we_tag_order env) r of
              Err _ \<Rightarrow> (w, mesh, [])
            | Ok f \<Rightarrow>
                (case lookup_events env ep r f w of
                   Err _ \<Rightarrow> (w, mesh, [])
                 | Ok events \<Rightarrow>
                     (let (ix, events) = (if (ep_track ep \<or> mesh) \<and> ep_ttl ep
                            then retain_live (we_fb env) now events (cw_ttl w) else (cw_ttl w, events));
                          skip = mesh \<or> nr_cache_first r \<and> events \<noteq> [] \<or> nr_cache_only r;
                          (watches, events) = (if mesh \<and> keep \<and> ep_watches ep
                            then (case fmlookup (cw_watches w) sub_id of
                                    Some watch \<Rightarrow>
                                      (let (watch, events) = retain_new (we_fb env) events watch
                                       in (fmupd sub_id watch (cw_watches w), events))
                                  | None \<Rightarrow> (cw_watches w, events))
                            else (cw_watches w, events))
                      in (w\<lparr>cw_ttl := ix, cw_watches := watches\<rparr>, skip, events)))))"

fun query_requests ::
  "'s worker_env \<Rightarrow> endpoint \<Rightarrow> nat \<Rightarrow> string \<Rightarrow> bool \<Rightarrow> fb_request list \<Rightarrow> 's cache_world \<Rightarrow> 's cache_world \<times> bool list \<times> bytes list" where
  "query_requests env ep now sub_id keep [] w = (w, [], [])"
| "query_requests env ep now sub_id keep (r # rs) w =
     (let (w, skip, events) = query_request env ep now sub_id keep r w;
          (w, skips, rest) = query_requests env ep now sub_id keep rs w
      in (w, skip # skips, events @ rest))"

definition request_relays :: "'s worker_env \<Rightarrow> fb_request \<Rightarrow> 's \<Rightarrow> string list" where
  "request_relays env r s =
     (let explicit = Option.bind (rq_relays r) non_empty;
          chosen = (case explicit of Some v \<Rightarrow> Some v | None \<Rightarrow> so_get_relays (we_ops env) r s);
          relays = (case Option.bind chosen non_empty of Some v \<Rightarrow> v | None \<Rightarrow> CACHE_DEFAULT_RELAYS);
          max_relays = unat (rq_max_relays r)
      in if max_relays > 0 then take max_relays relays else relays)"

definition request_envelope :: "'s worker_env \<Rightarrow> string \<Rightarrow> 's \<Rightarrow> fb_request \<Rightarrow> string" where
  "request_envelope env sub_id s r =
     relay_envelope env (request_relays env r s) (JArr [JStr ''REQ'', JStr sub_id, fb_request_to_json r])"

definition forward_requests :: "'s worker_env \<Rightarrow> endpoint \<Rightarrow> string \<Rightarrow> (fb_request \<times> bool) list \<Rightarrow> 's cache_world \<Rightarrow> 's cache_world" where
  "forward_requests env ep sub_id rs w =
     fold (\<lambda>(r, skip) w. if skip then w
             else send_upstream ep (request_envelope env sub_id (endpoint_storage ep w) r) w) rs w"

definition handle_query :: "'s worker_env \<Rightarrow> endpoint \<Rightarrow> nat \<Rightarrow> string \<Rightarrow> bool \<Rightarrow> fb_request list \<Rightarrow> 's cache_world \<Rightarrow> 's cache_world" where
  "handle_query env ep now sub_id keep reqs w =
     (let w = register_watch ep sub_id keep reqs w;
          (w, skips, events) = query_requests env ep now sub_id keep reqs w;
          w = (if events \<noteq> [] then send_result ep (we_response env sub_id (lp_stream events)) w else w);
          w = forward_requests env ep sub_id (zip reqs skips) w
      in send_result ep (we_response env sub_id []) w)"

definition handle_request :: "'s worker_env \<Rightarrow> endpoint \<Rightarrow> nat \<Rightarrow> bytes \<Rightarrow> 's cache_world \<Rightarrow> 's cache_world" where
  "handle_request env ep now inner w =
     (case we_request env inner of
        None \<Rightarrow> w
      | Some c \<Rightarrow>
          if cr_close c then (if ep_watches ep then w\<lparr>cw_watches := fmdrop (cr_sub_id c) (cw_watches w)\<rparr> else w)
          else
            (case cr_event c of
               Some e \<Rightarrow> handle_publish env ep e (cr_relays c) w
             | None \<Rightarrow>
                 (case cr_requests c of
                    Some reqs \<Rightarrow> handle_query env ep now (cr_sub_id c) (cr_keep_mesh_watch c) reqs w
                  | None \<Rightarrow> w)))"

definition handle_message :: "'s worker_env \<Rightarrow> endpoint \<Rightarrow> nat \<Rightarrow> bytes \<Rightarrow> 's cache_world \<Rightarrow> 's cache_world option" where
  "handle_message env ep now b w =
     (case split_frame b of
        None \<Rightarrow> Some w
      | Some (tag, inner) \<Rightarrow>
          if tag = TAG_PERSIST then handle_persist env ep now inner w
          else if tag \<noteq> TAG_REQUEST then Some w
          else Some (handle_request env ep now inner w))"

section \<open>What each operation leaves alone\<close>

lemma query_request_frame:
  "\<exists>ix ws. fst (query_request env ep now sub_id keep r w) = w\<lparr>cw_ttl := ix, cw_watches := ws\<rparr>"
  by (rule exI [of _ "cw_ttl (fst (query_request env ep now sub_id keep r w))"],
      rule exI [of _ "cw_watches (fst (query_request env ep now sub_id keep r w))"])
    (simp add: query_request_def Let_def split: sum.splits prod.splits)

lemma query_requests_frame:
  "\<exists>ix ws. fst (query_requests env ep now sub_id keep rs w) = w\<lparr>cw_ttl := ix, cw_watches := ws\<rparr>"
proof (induction rs arbitrary: w)
  case Nil
  show ?case by (intro exI [of _ "cw_ttl w"] exI [of _ "cw_watches w"]) simp
next
  case (Cons r rs)
  obtain ix ws where a: "fst (query_request env ep now sub_id keep r w) = w\<lparr>cw_ttl := ix, cw_watches := ws\<rparr>"
    using query_request_frame by blast
  obtain ix2 ws2 where "fst (query_requests env ep now sub_id keep rs (w\<lparr>cw_ttl := ix, cw_watches := ws\<rparr>)) =
      w\<lparr>cw_ttl := ix2, cw_watches := ws2\<rparr>"
    using Cons [of "w\<lparr>cw_ttl := ix, cw_watches := ws\<rparr>"] by auto
  with a have "fst (query_requests env ep now sub_id keep (r # rs) w) = w\<lparr>cw_ttl := ix2, cw_watches := ws2\<rparr>"
    by (simp add: Let_def case_prod_beta)
  then show ?case by blast
qed

lemma endpoint_sel [simp]:
  "\<not> ep_is_mesh client_endpoint" "ep_mesh_query client_endpoint" "ep_upstream client_endpoint" "ep_watches client_endpoint"
  "ep_allow_mesh_only client_endpoint" "\<not> ep_notify client_endpoint" "ep_ttl client_endpoint" "\<not> ep_track client_endpoint"
  "ep_is_mesh mesh_endpoint" "\<not> ep_mesh_query mesh_endpoint" "\<not> ep_upstream mesh_endpoint" "ep_watches mesh_endpoint"
  "\<not> ep_allow_mesh_only mesh_endpoint" "ep_notify mesh_endpoint" "ep_ttl mesh_endpoint" "ep_track mesh_endpoint"
  by (simp_all add: client_endpoint_def mesh_endpoint_def)

lemma endpoint_storage_simps [simp]:
  "endpoint_storage ep (w\<lparr>cw_ttl := ix\<rparr>) = endpoint_storage ep w"
  "endpoint_storage ep (w\<lparr>cw_watches := ws\<rparr>) = endpoint_storage ep w"
  "endpoint_storage ep (w\<lparr>cw_upstream := us\<rparr>) = endpoint_storage ep w"
  "endpoint_storage ep (send_result ep' b w) = endpoint_storage ep w"
  by (simp_all add: endpoint_storage_def send_result_def)

lemma register_watch_frame: "\<exists>ws. register_watch ep sub_id keep rs w = w\<lparr>cw_watches := ws\<rparr>"
  by (rule exI [of _ "cw_watches (register_watch ep sub_id keep rs w)"]) (simp add: register_watch_def Let_def)

lemma forward_requests_eq:
  "forward_requests env ep sub_id rs w =
     w\<lparr>cw_upstream := cw_upstream w @ (if ep_upstream ep
        then map (\<lambda>(r, _). request_envelope env sub_id (endpoint_storage ep w) r) (filter (\<lambda>(_, skip). \<not> skip) rs) else [])\<rparr>"
proof (induction rs arbitrary: w)
  case (Cons x rs)
  then show ?case by (cases x) (auto simp: forward_requests_def send_upstream_def)
qed (simp add: forward_requests_def)

lemma length_skips: "length (fst (snd (query_requests env ep now sub_id keep rs w))) = length rs"
  by (induction rs arbitrary: w) (simp_all add: Let_def case_prod_beta)

section \<open>A query of the client\<close>

text \<open>A request goes to the relays unless the mesh or the cache is meant to answer it alone.\<close>

definition forwarded :: "'s worker_env \<Rightarrow> 's \<Rightarrow> fb_request \<Rightarrow> bool" where
  "forwarded env s fr \<longleftrightarrow>
     (let r = from_flatbuffer fr
      in \<not> nr_mesh_only r \<and>
         (nr_no_cache r \<or>
          (case to_filter (we_hex env) (we_tag_order env) r of
             Err _ \<Rightarrow> True
           | Ok f \<Rightarrow>
               (case so_query (we_ops env) [f] s of
                  Err _ \<Rightarrow> True
                | Ok events \<Rightarrow> \<not> (nr_cache_first r \<and> events \<noteq> []) \<and> \<not> nr_cache_only r))))"

lemma query_request_skip:
  assumes "\<not> ep_track ep" "\<not> ep_is_mesh ep"
  shows "fst (snd (query_request env ep now sub_id keep r w)) \<longleftrightarrow> \<not> forwarded env (cw_client w) r"
  using assms
  by (auto simp: query_request_def forwarded_def lookup_events_def endpoint_storage_def Let_def
      split: sum.splits prod.splits if_splits)

lemma query_requests_skips:
  assumes "\<not> ep_track ep" "\<not> ep_is_mesh ep"
  shows "fst (snd (query_requests env ep now sub_id keep rs w)) = map (\<lambda>r. \<not> forwarded env (cw_client w) r) rs"
proof (induction rs arbitrary: w)
  case (Cons r rs)
  obtain ix ws where "fst (query_request env ep now sub_id keep r w) = w\<lparr>cw_ttl := ix, cw_watches := ws\<rparr>"
    using query_request_frame by blast
  then have "cw_client (fst (query_request env ep now sub_id keep r w)) = cw_client w" by simp
  then show ?case using Cons query_request_skip [OF assms, of env now sub_id keep r w]
    by (simp add: Let_def case_prod_beta)
qed simp

lemma filter_zip_map: "filter (\<lambda>(_, skip). \<not> skip) (zip rs (map (\<lambda>r. \<not> P r) rs)) = map (\<lambda>r. (r, False)) (filter P rs)"
  by (induction rs) simp_all

lemma retain_new_sub: "set (snd (retain_new fb es watch)) \<subseteq> set es"
proof (induction es arbitrary: watch)
  case (Cons e es)
  show ?case by (auto simp: Let_def case_prod_beta dest: subsetD [OF Cons] split: if_splits)
qed simp

lemma retain_live_sub: "set (snd (retain_live fb now bs ix)) \<subseteq> set bs"
proof (induction bs arbitrary: ix)
  case (Cons b bs)
  show ?case by (auto simp: Let_def case_prod_beta dest: subsetD [OF Cons] split: if_splits)
qed simp

text \<open>
  What the client is promised for a request, said without the loop: the events that the query of a storage finds,
  none when the request bypasses the cache, has no filter or the query fails; whether the cache can answer at all;
  and whether the relays are to be asked.
\<close>

definition cached_answer :: "'s worker_env \<Rightarrow> 's \<Rightarrow> fb_request \<Rightarrow> bytes list" where
  "cached_answer env s fr =
     (let r = from_flatbuffer fr
      in if nr_no_cache r then []
         else (case to_filter (we_hex env) (we_tag_order env) r of
                 Ok f \<Rightarrow> (case so_query (we_ops env) [f] s of Ok events \<Rightarrow> events | Err _ \<Rightarrow> [])
               | Err _ \<Rightarrow> []))"

definition cache_can_answer :: "'s worker_env \<Rightarrow> 's \<Rightarrow> fb_request \<Rightarrow> bool" where
  "cache_can_answer env s fr =
     (let r = from_flatbuffer fr
      in \<not> nr_no_cache r \<and>
         (case to_filter (we_hex env) (we_tag_order env) r of
            Ok f \<Rightarrow> (case so_query (we_ops env) [f] s of Ok _ \<Rightarrow> True | Err _ \<Rightarrow> False)
          | Err _ \<Rightarrow> False))"

definition relays_wanted :: "'s worker_env \<Rightarrow> 's \<Rightarrow> fb_request \<Rightarrow> bool" where
  "relays_wanted env s fr =
     (let r = from_flatbuffer fr
      in \<not> nr_mesh_only r \<and> \<not> nr_cache_only r \<and> \<not> (nr_cache_first r \<and> cached_answer env s fr \<noteq> []))"

lemma forwarded_wanted:
  "(nr_cache_only (from_flatbuffer r) \<longrightarrow> cache_can_answer env s r \<or> nr_mesh_only (from_flatbuffer r)) \<Longrightarrow>
     forwarded env s r = relays_wanted env s r"
  by (auto simp: forwarded_def relays_wanted_def cache_can_answer_def cached_answer_def Let_def split: sum.splits if_splits)

definition answer_part :: "'s worker_env \<Rightarrow> 's cache_world \<Rightarrow> fb_request \<Rightarrow> bytes list \<Rightarrow> bool" where
  "answer_part env w r part =
     (if nr_mesh_only (from_flatbuffer r) then set part \<subseteq> set (cached_answer env (cw_mesh w) r)
      else part = cached_answer env (cw_client w) r)"

lemma query_request_part:
  "answer_part env w r (snd (snd (query_request env client_endpoint now sub_id keep r w)))"
proof (cases "nr_mesh_only (from_flatbuffer r)")
  case True
  have live: "set es \<subseteq> set events" if "retain_live fb now events ix = (ix', es)" for fb events ix ix' es
    using retain_live_sub [of fb now events ix] that by simp
  have new: "set es \<subseteq> set events" if "retain_new fb events watch = (watch', es)" for fb events watch watch' es
    using retain_new_sub [of fb events watch] that by simp
  show ?thesis using True
    by (auto simp: answer_part_def query_request_def lookup_events_def cached_answer_def Let_def
        split: sum.splits prod.splits option.splits if_splits dest!: new live)
next
  case False
  then show ?thesis
    by (simp add: answer_part_def query_request_def lookup_events_def cached_answer_def endpoint_storage_def Let_def
        split: sum.splits)
qed

lemma query_requests_parts:
  "\<exists>parts. snd (snd (query_requests env client_endpoint now sub_id keep rs w)) = concat parts \<and> list_all2 (answer_part env w) rs parts"
proof (induction rs arbitrary: w)
  case (Cons r rs)
  let ?q = "query_request env client_endpoint now sub_id keep r w"
  obtain ix ws where f: "fst ?q = w\<lparr>cw_ttl := ix, cw_watches := ws\<rparr>" using query_request_frame by blast
  obtain parts where p: "snd (snd (query_requests env client_endpoint now sub_id keep rs (fst ?q))) = concat parts"
    "list_all2 (answer_part env (fst ?q)) rs parts" using Cons by blast
  have "answer_part env (fst ?q) = answer_part env w" by (simp add: fun_eq_iff f answer_part_def)
  then show ?case using p query_request_part [of env w r now sub_id keep]
    by (intro exI [of _ "snd (snd ?q) # parts"]) (simp add: Let_def case_prod_beta)
qed simp

text \<open>C26. A query of the client is always answered: the parser receives one batch with the events of all its
  requests, in their order, if there are any, and then the empty response that ends them. The events of a request
  are those the query of the client storage finds, for a request limited to the mesh only events that the query of
  the mesh storage finds. The relays are sent, in order, exactly the requests that are neither limited to the mesh
  nor to the cache and that, if the cache comes first, it has no event for; both storages stay. It is assumed that
  the cache can answer the requests limited to it: they do not bypass it, have a filter, and the query succeeds.\<close>

theorem query_answered:
  assumes "split_frame b = Some (TAG_REQUEST, inner)" "we_request env inner = Some c" "\<not> cr_close c" "cr_event c = None"
    "cr_requests c = Some reqs"
    "list_all (\<lambda>r. nr_cache_only (from_flatbuffer r) \<longrightarrow> cache_can_answer env (cw_client w) r) reqs"
  shows "\<exists>w' parts. handle_message env client_endpoint now b w = Some w' \<and>
     list_all2 (\<lambda>r part. if nr_mesh_only (from_flatbuffer r) then set part \<subseteq> set (cached_answer env (cw_mesh w) r)
       else part = cached_answer env (cw_client w) r) reqs parts \<and>
     cw_to_parser w' = cw_to_parser w @
       (if concat parts = [] then [] else [we_response env (cr_sub_id c) (lp_stream (concat parts))]) @
       [we_response env (cr_sub_id c) []] \<and>
     cw_upstream w' = cw_upstream w @ map (request_envelope env (cr_sub_id c) (cw_client w)) (filter (relays_wanted env (cw_client w)) reqs) \<and>
     cw_client w' = cw_client w \<and> cw_mesh w' = cw_mesh w \<and> cw_to_mesh w' = cw_to_mesh w"
proof -
  let ?ep = client_endpoint and ?s = "cr_sub_id c" and ?k = "cr_keep_mesh_watch c"
  obtain ws where r: "register_watch ?ep ?s ?k reqs w = w\<lparr>cw_watches := ws\<rparr>" using register_watch_frame by blast
  let ?w = "w\<lparr>cw_watches := ws\<rparr>"
  obtain w1 skips events where q: "query_requests env ?ep now ?s ?k reqs ?w = (w1, skips, events)"
    by (metis prod_cases3)
  obtain ix ws1 where w1: "w1 = w\<lparr>cw_ttl := ix, cw_watches := ws1\<rparr>"
    using query_requests_frame [of env ?ep now ?s ?k reqs ?w] q by auto
  have "answer_part env ?w = answer_part env w" by (simp add: fun_eq_iff answer_part_def)
  then obtain parts where parts: "events = concat parts" "list_all2 (answer_part env w) reqs parts"
    using query_requests_parts [of env now ?s ?k reqs ?w] q by auto
  have "skips = map (\<lambda>r. \<not> forwarded env (cw_client w) r) reqs"
    using query_requests_skips [of ?ep env now ?s ?k reqs ?w] q by simp
  moreover have "forwarded env (cw_client w) r = relays_wanted env (cw_client w) r" if "r \<in> set reqs" for r
    using forwarded_wanted [of r env "cw_client w"] assms(6) that by (simp add: list_all_iff)
  then have "filter (forwarded env (cw_client w)) reqs = filter (relays_wanted env (cw_client w)) reqs"
    by (simp cong: filter_cong)
  ultimately have z: "filter (\<lambda>(_, skip). \<not> skip) (zip reqs skips) = map (\<lambda>r. (r, False)) (filter (relays_wanted env (cw_client w)) reqs)"
    by (simp add: filter_zip_map)
  define w' where "w' = handle_query env ?ep now ?s ?k reqs w"
  have h: "handle_message env ?ep now b w = Some w'"
    using assms by (simp add: handle_message_def handle_request_def w'_def TAG_REQUEST_def TAG_PERSIST_def)
  have "w' = (let w2 = (if events \<noteq> [] then send_result ?ep (we_response env ?s (lp_stream events)) w1 else w1)
      in send_result ?ep (we_response env ?s []) (w2\<lparr>cw_upstream := cw_upstream w2 @
        map (request_envelope env ?s (cw_client w)) (filter (relays_wanted env (cw_client w)) reqs)\<rparr>))"
    by (simp add: w'_def handle_query_def r q forward_requests_eq z w1 Let_def send_result_def endpoint_storage_def comp_def)
  then have "cw_to_parser w' = cw_to_parser w @ (if events = [] then [] else [we_response env ?s (lp_stream events)]) @ [we_response env ?s []]"
    "cw_upstream w' = cw_upstream w @ map (request_envelope env ?s (cw_client w)) (filter (relays_wanted env (cw_client w)) reqs)"
    "cw_client w' = cw_client w" "cw_mesh w' = cw_mesh w" "cw_to_mesh w' = cw_to_mesh w"
    by (simp_all add: send_result_def w1 Let_def)
  then show ?thesis using h parts unfolding answer_part_def by blast
qed

section \<open>Expiry\<close>

text \<open>
  The messages handled so far: whether the mesh endpoint took them, when, and their bytes. Said of the messages
  alone, a mesh event is fresh when it is pinned, by a pin message after which the mesh endpoint took neither a
  message that clears the pin nor one that pins another event, or when a message other than a pin brought it
  within the last ten minutes and none pinned it since.
\<close>

type_synonym cache_history = "(bool \<times> nat \<times> bytes) list"

definition mesh_persisted :: "cache_history \<Rightarrow> (nat \<times> bytes) set" where
  "mesh_persisted h = {(t, inner). \<exists>b. (True, t, b) \<in> set h \<and> split_frame b = Some (TAG_PERSIST, inner)}"

definition persisted_as :: "'s worker_env \<Rightarrow> bytes \<Rightarrow> (string option \<Rightarrow> bool) \<Rightarrow> bytes option" where
  "persisted_as env b sub =
     (case split_frame b of
        Some (tag, inner) \<Rightarrow>
          if tag = TAG_PERSIST \<and> root_worker_message (we_fb env) inner \<noteq> None \<and> sub (we_sub_id env inner) then Some inner else None
      | None \<Rightarrow> None)"

definition clears :: "'s worker_env \<Rightarrow> bytes \<Rightarrow> bool" where
  "clears env b \<longleftrightarrow> persisted_as env b (\<lambda>s. s = Some ''mesh_clear_profile'') \<noteq> None"

definition pins :: "'s worker_env \<Rightarrow> bytes \<Rightarrow> string option" where
  "pins env b = Option.bind (persisted_as env b (\<lambda>s. s = Some ''mesh_pin_profile'')) (worker_message_event_id (we_fb env))"

definition observes :: "'s worker_env \<Rightarrow> bytes \<Rightarrow> string option" where
  "observes env b =
     Option.bind (persisted_as env b (\<lambda>s. s \<noteq> Some ''mesh_clear_profile'' \<and> s \<noteq> Some ''mesh_pin_profile''))
       (worker_message_event_id (we_fb env))"

definition pinned_now :: "'s worker_env \<Rightarrow> cache_history \<Rightarrow> string \<Rightarrow> bool" where
  "pinned_now env h i \<longleftrightarrow>
     (\<exists>h1 t b h2. h = h1 @ (True, t, b) # h2 \<and> pins env b = Some i \<and>
        (\<forall>t' b'. (True, t', b') \<in> set h2 \<longrightarrow> \<not> clears env b' \<and> (\<forall>j. pins env b' = Some j \<longrightarrow> j = i)))"

definition seen_at :: "'s worker_env \<Rightarrow> cache_history \<Rightarrow> string \<Rightarrow> nat \<Rightarrow> bool" where
  "seen_at env h i t \<longleftrightarrow>
     (\<exists>h1 b h2. h = h1 @ (True, t, b) # h2 \<and> observes env b = Some i \<and>
        (\<forall>t' b'. (True, t', b') \<in> set h2 \<longrightarrow> pins env b' \<noteq> Some i))"

definition fresh_event :: "'s worker_env \<Rightarrow> cache_history \<Rightarrow> nat \<Rightarrow> string \<Rightarrow> bool" where
  "fresh_event env h now i \<longleftrightarrow> pinned_now env h i \<or> (\<exists>t. seen_at env h i t \<and> now < t + MESH_EVENT_TTL)"

definition ttl_ok :: "'s worker_env \<Rightarrow> cache_history \<Rightarrow> mesh_ttl_index \<Rightarrow> bool" where
  "ttl_ok env h ix \<longleftrightarrow>
     (\<forall>i e. fmlookup (ttl_live ix) i = Some e \<longrightarrow> (\<exists>t. seen_at env h i t \<and> e = t + MESH_EVENT_TTL)) \<and>
     (\<forall>i. ttl_pinned ix = Some i \<longrightarrow> pinned_now env h i)"

lemma ttl_okD:
  assumes "ttl_ok env h ix"
  shows "fmlookup (ttl_live ix) i = Some e \<Longrightarrow> \<exists>t. seen_at env h i t \<and> e = t + MESH_EVENT_TTL"
    and "ttl_pinned ix = Some i \<Longrightarrow> pinned_now env h i"
  using assms unfolding ttl_ok_def by blast+

lemma ttl_ok_sub:
  assumes "ttl_ok env h ix" "\<And>i e. fmlookup (ttl_live ix') i = Some e \<Longrightarrow> fmlookup (ttl_live ix) i = Some e"
    "\<And>i. ttl_pinned ix' = Some i \<Longrightarrow> ttl_pinned ix = Some i"
  shows "ttl_ok env h ix'"
  using assms unfolding ttl_ok_def by blast

lemma mesh_persisted_mono: "set h \<subseteq> set h' \<Longrightarrow> mesh_persisted h \<subseteq> mesh_persisted h'"
  by (auto simp: mesh_persisted_def)

text \<open>What one more message keeps and what it adds.\<close>

lemma seen_at_keep:
  assumes "seen_at env h i t" "m \<Longrightarrow> pins env b \<noteq> Some i"
  shows "seen_at env (h @ [(m, now, b)]) i t"
proof -
  obtain h1 b1 h2 where h: "h = h1 @ (True, t, b1) # h2" "observes env b1 = Some i"
    "\<forall>t' b'. (True, t', b') \<in> set h2 \<longrightarrow> pins env b' \<noteq> Some i"
    using assms(1) unfolding seen_at_def by blast
  then have "h @ [(m, now, b)] = h1 @ (True, t, b1) # (h2 @ [(m, now, b)])"
    "\<forall>t' b'. (True, t', b') \<in> set (h2 @ [(m, now, b)]) \<longrightarrow> pins env b' \<noteq> Some i" using assms(2) by auto
  then show ?thesis using h(2) unfolding seen_at_def by blast
qed

lemma seen_at_new: "observes env b = Some i \<Longrightarrow> seen_at env (h @ [(True, now, b)]) i now"
  unfolding seen_at_def by (intro exI [of _ h] exI [of _ b] exI [of _ "[]"]) simp

lemma pinned_keep:
  assumes "pinned_now env h i" "m \<Longrightarrow> \<not> clears env b \<and> (\<forall>j. pins env b = Some j \<longrightarrow> j = i)"
  shows "pinned_now env (h @ [(m, now, b)]) i"
proof -
  obtain h1 t b1 h2 where h: "h = h1 @ (True, t, b1) # h2" "pins env b1 = Some i"
    "\<forall>t' b'. (True, t', b') \<in> set h2 \<longrightarrow> \<not> clears env b' \<and> (\<forall>j. pins env b' = Some j \<longrightarrow> j = i)"
    using assms(1) unfolding pinned_now_def by blast
  then have "h @ [(m, now, b)] = h1 @ (True, t, b1) # (h2 @ [(m, now, b)])"
    "\<forall>t' b'. (True, t', b') \<in> set (h2 @ [(m, now, b)]) \<longrightarrow> \<not> clears env b' \<and> (\<forall>j. pins env b' = Some j \<longrightarrow> j = i)"
    using assms(2) by auto
  then show ?thesis using h(2) unfolding pinned_now_def by blast
qed

lemma pinned_new: "pins env b = Some i \<Longrightarrow> pinned_now env (h @ [(True, now, b)]) i"
  unfolding pinned_now_def by (intro exI [of _ h] exI [of _ now] exI [of _ b] exI [of _ "[]"]) simp

lemma ttl_ok_keep:
  assumes "ttl_ok env h ix" "m \<Longrightarrow> pins env b = None" "m \<Longrightarrow> \<not> clears env b"
  shows "ttl_ok env (h @ [(m, now, b)]) ix"
  using assms(1) seen_at_keep pinned_keep assms(2,3) unfolding ttl_ok_def by (metis option.distinct(1))

lemma ttl_ok_clear:
  assumes "ttl_ok env h ix" "m \<Longrightarrow> pins env b = None"
  shows "ttl_ok env (h @ [(m, now, b)]) (clear_pin ix)"
  using assms(1) seen_at_keep assms(2) unfolding ttl_ok_def clear_pin_def
  by (metis mesh_ttl_index.select_convs(1,3) mesh_ttl_index.update_convs(3) mesh_ttl_index.surjective option.distinct(1))

lemma ttl_ok_pin:
  assumes "ttl_ok env h ix" "pins env b = Some i"
  shows "ttl_ok env (h @ [(True, now, b)]) (pin i ix)"
proof -
  have "\<exists>t. seen_at env (h @ [(True, now, b)]) j t \<and> e = t + MESH_EVENT_TTL" if "fmlookup (ttl_live (pin i ix)) j = Some e" for j e
  proof -
    have j: "fmlookup (ttl_live ix) j = Some e" "j \<noteq> i" using that by (auto simp: pin_def split: if_splits)
    then obtain t where "seen_at env h j t" "e = t + MESH_EVENT_TTL" using ttl_okD(1) [OF assms(1)] by blast
    then show ?thesis using seen_at_keep [of env h j t True b now] j(2) assms(2) by auto
  qed
  then show ?thesis using pinned_new [OF assms(2)] by (simp add: ttl_ok_def) (simp add: pin_def)
qed

lemma ttl_ok_observe:
  assumes "ttl_ok env h ix" "observes env b = Some i" "pins env b = None" "\<not> clears env b"
  shows "ttl_ok env (h @ [(True, now, b)]) (observe i now ix)"
proof -
  note keep = ttl_ok_keep [OF assms(1), of True b now]
  have "\<exists>t. seen_at env (h @ [(True, now, b)]) j t \<and> e = t + MESH_EVENT_TTL" if "fmlookup (ttl_live (observe i now ix)) j = Some e" for j e
  proof (cases "j = i")
    case True
    then show ?thesis using that seen_at_new [OF assms(2)] by (auto simp: observe_def Let_def)
  next
    case False
    then show ?thesis using that ttl_okD(1) [OF keep] assms(3,4) by (simp add: observe_def Let_def)
  qed
  then show ?thesis using ttl_okD(2) [OF keep] assms(3,4) by (simp add: ttl_ok_def) (simp add: observe_def Let_def)
qed

lemma prune_loop_sub: "fmlookup (snd (prune_loop now queue live)) i = Some e \<Longrightarrow> fmlookup live i = Some e"
  by (induction now queue live rule: prune_loop.induct) (auto split: if_splits)

lemma ttl_prune_sub:
  "fmlookup (ttl_live (ttl_prune now ix)) i = Some e \<Longrightarrow> fmlookup (ttl_live ix) i = Some e"
  "ttl_pinned (ttl_prune now ix) = ttl_pinned ix"
  using prune_loop_sub [of now "ttl_queue ix" "ttl_live ix"] by (auto simp: ttl_prune_def split: prod.splits)

lemma is_live_keeps: "ttl_ok env h ix \<Longrightarrow> ttl_ok env h (fst (is_live i now ix))"
  by (erule ttl_ok_sub) (auto simp: is_live_def Let_def ttl_prune_sub(2) dest: ttl_prune_sub(1) split: if_splits)

lemma is_live_fresh:
  assumes "ttl_ok env h ix" "snd (is_live i now ix)"
  shows "fresh_event env h now i"
proof (cases "ttl_pinned ix = Some i")
  case True
  then show ?thesis using ttl_okD(2) [OF assms(1)] by (simp add: fresh_event_def)
next
  case False
  then obtain e where "fmlookup (ttl_live (ttl_prune now ix)) i = Some e" "now < e"
    using assms(2) by (auto simp: is_live_def Let_def split: option.splits)
  then have e: "fmlookup (ttl_live ix) i = Some e" "now < e" using ttl_prune_sub(1) by blast+
  from ttl_okD(1) [OF assms(1) e(1)] e(2) show ?thesis by (auto simp: fresh_event_def)
qed

lemma retain_live_ok:
  assumes "ttl_ok env h ix" "retain_live (we_fb env) now bs ix = (ix', es)"
  shows "ttl_ok env h ix' \<and> set es \<subseteq> set bs \<and>
    (\<forall>e \<in> set es. \<exists>i. worker_message_event_id (we_fb env) e = Some i \<and> fresh_event env h now i)"
  using assms
proof (induction bs arbitrary: ix ix' es)
  case (Cons b bs)
  define p where "p = (case worker_message_event_id (we_fb env) b of Some i \<Rightarrow> is_live i now ix | None \<Rightarrow> (ix, False))"
  have p: "ttl_ok env h (fst p)" "snd p \<Longrightarrow> \<exists>i. worker_message_event_id (we_fb env) b = Some i \<and> fresh_event env h now i"
    using is_live_keeps [OF Cons.prems(1)] is_live_fresh [OF Cons.prems(1)] Cons.prems(1) by (auto simp: p_def split: option.splits)
  obtain rest where r: "retain_live (we_fb env) now bs (fst p) = (ix', rest)" "es = (if snd p then b # rest else rest)"
    using Cons.prems(2) by (auto simp: p_def [symmetric] Let_def split: prod.splits)
  from Cons.IH [OF p(1) r(1)] p(2) r(2) show ?case by auto
qed simp

section \<open>Steps of the worker\<close>

lemma query_request_ttl:
  assumes "ttl_ok env h (cw_ttl w)"
  shows "ttl_ok env h (cw_ttl (fst (query_request env ep now sub_id keep r w)))"
proof -
  have "ttl_ok env h ix" if "retain_live (we_fb env) now events (cw_ttl w) = (ix, es)" for events ix es
    using retain_live_ok [OF assms that] by blast
  then show ?thesis using assms by (simp add: query_request_def Let_def split: sum.splits prod.splits)
qed

lemma query_requests_ttl:
  "ttl_ok env h (cw_ttl w) \<Longrightarrow> ttl_ok env h (cw_ttl (fst (query_requests env ep now sub_id keep rs w)))"
proof (induction rs arbitrary: w)
  case (Cons r rs)
  from Cons.IH [OF query_request_ttl [OF Cons.prems]] show ?case by (simp add: Let_def case_prod_beta)
qed simp

lemma handle_query_parts:
  "\<exists>w1 skips events us. query_requests env ep now sub_id keep rs (register_watch ep sub_id keep rs w) = (w1, skips, events) \<and>
     handle_query env ep now sub_id keep rs w =
       send_result ep (we_response env sub_id [])
         ((if events \<noteq> [] then send_result ep (we_response env sub_id (lp_stream events)) w1 else w1)\<lparr>cw_upstream := us\<rparr>) \<and>
     (ep_upstream ep \<or> us = cw_upstream w)"
proof -
  obtain w1 skips events where q: "query_requests env ep now sub_id keep rs (register_watch ep sub_id keep rs w) = (w1, skips, events)"
    by (metis prod_cases3)
  have "cw_upstream w1 = cw_upstream w"
    using query_requests_frame [of env ep now sub_id keep rs "register_watch ep sub_id keep rs w"]
      register_watch_frame [of ep sub_id keep rs w] q by auto
  then show ?thesis
    by (intro exI [of _ w1] exI [of _ skips] exI [of _ events]) (auto simp: q handle_query_def forward_requests_eq Let_def send_result_def)
qed

lemma query_requests_mesh: "cw_mesh (fst (query_requests env ep now sub_id keep rs w)) = cw_mesh w"
  "cw_to_mesh (fst (query_requests env ep now sub_id keep rs w)) = cw_to_mesh w"
  "cw_client (fst (query_requests env ep now sub_id keep rs w)) = cw_client w"
  using query_requests_frame [of env ep now sub_id keep rs w] by auto

lemma register_watch_same: "cw_ttl (register_watch ep sub_id keep rs w) = cw_ttl w"
  "cw_mesh (register_watch ep sub_id keep rs w) = cw_mesh w" "cw_to_mesh (register_watch ep sub_id keep rs w) = cw_to_mesh w"
  "cw_client (register_watch ep sub_id keep rs w) = cw_client w"
  using register_watch_frame [of ep sub_id keep rs w] by auto

definition same_stores :: "'s cache_world \<Rightarrow> 's cache_world \<Rightarrow> bool" where
  "same_stores w w' \<longleftrightarrow> cw_client w' = cw_client w \<and> cw_mesh w' = cw_mesh w \<and> cw_ttl w' = cw_ttl w \<and>
     cw_to_mesh w' = cw_to_mesh w \<and> cw_upstream w' = cw_upstream w"

lemma notify_frame: "same_stores w (notify_mesh_watches env b w)"
proof -
  have step: "same_stores w (notify_watch env e b sub_id w)" for e sub_id and w :: "'a cache_world"
    by (simp add: same_stores_def notify_watch_def Let_def split: option.splits prod.splits)
  have "same_stores w (fold (notify_watch env e b) subs w)" for e subs and w :: "'a cache_world"
  proof (induction subs arbitrary: w)
    case (Cons sub_id subs)
    from Cons [of "notify_watch env e b sub_id w"] step [of w e sub_id] show ?case by (simp add: same_stores_def)
  qed (simp add: same_stores_def)
  then show ?thesis
    unfolding notify_mesh_watches_def by (simp add: same_stores_def split: option.splits wm_content.splits)
qed

lemma after_persist_frame:
  "cw_mesh (after_persist env ep mark b w) = cw_mesh w" "cw_client (after_persist env ep mark b w) = cw_client w"
  "cw_to_mesh (after_persist env ep mark b w) = cw_to_mesh w" "cw_upstream (after_persist env ep mark b w) = cw_upstream w"
  "cw_ttl (after_persist env ep mark b w) =
     (if ep_track ep \<and> ep_ttl ep
      then (case worker_message_event_id (we_fb env) b of Some i \<Rightarrow> mark i (cw_ttl w) | None \<Rightarrow> cw_ttl w) else cw_ttl w)"
proof -
  define w1 where "w1 = (if ep_track ep \<and> ep_ttl ep
      then (case worker_message_event_id (we_fb env) b of Some i \<Rightarrow> w\<lparr>cw_ttl := mark i (cw_ttl w)\<rparr> | None \<Rightarrow> w) else w)"
  have "after_persist env ep mark b w = (if ep_watches ep \<and> ep_notify ep then notify_mesh_watches env b w1 else w1)"
    unfolding after_persist_def Let_def w1_def [symmetric] ..
  then have "same_stores w1 (after_persist env ep mark b w)" using notify_frame [of w1 env b] by (simp add: same_stores_def)
  moreover have "cw_mesh w1 = cw_mesh w" "cw_client w1 = cw_client w" "cw_to_mesh w1 = cw_to_mesh w" "cw_upstream w1 = cw_upstream w"
    "cw_ttl w1 = (if ep_track ep \<and> ep_ttl ep
      then (case worker_message_event_id (we_fb env) b of Some i \<Rightarrow> mark i (cw_ttl w) | None \<Rightarrow> cw_ttl w) else cw_ttl w)"
    by (simp_all add: w1_def split: option.splits)
  ultimately show "cw_mesh (after_persist env ep mark b w) = cw_mesh w" "cw_client (after_persist env ep mark b w) = cw_client w"
    "cw_to_mesh (after_persist env ep mark b w) = cw_to_mesh w" "cw_upstream (after_persist env ep mark b w) = cw_upstream w"
    "cw_ttl (after_persist env ep mark b w) =
     (if ep_track ep \<and> ep_ttl ep
      then (case worker_message_event_id (we_fb env) b of Some i \<Rightarrow> mark i (cw_ttl w) | None \<Rightarrow> cw_ttl w) else cw_ttl w)"
    by (simp_all add: same_stores_def)
qed

lemma send_result_sel [simp]:
  "cw_ttl (send_result ep b w) = cw_ttl w" "cw_mesh (send_result ep b w) = cw_mesh w" "cw_client (send_result ep b w) = cw_client w"
  "cw_upstream (send_result ep b w) = cw_upstream w" "cw_watches (send_result ep b w) = cw_watches w"
  "cw_to_mesh (send_result ep b w) = (if ep_is_mesh ep then cw_to_mesh w @ [b] else cw_to_mesh w)"
  by (simp_all add: send_result_def)

lemma handle_query_sel:
  assumes "query_requests env ep now sub_id keep rs (register_watch ep sub_id keep rs w) = (w1, skips, events)"
  shows "cw_ttl (handle_query env ep now sub_id keep rs w) = cw_ttl w1"
    and "cw_mesh (handle_query env ep now sub_id keep rs w) = cw_mesh w"
    and "cw_client (handle_query env ep now sub_id keep rs w) = cw_client w"
    and "\<not> ep_upstream ep \<Longrightarrow> cw_upstream (handle_query env ep now sub_id keep rs w) = cw_upstream w"
    and "cw_to_mesh (handle_query env ep now sub_id keep rs w) = cw_to_mesh w @
      (if ep_is_mesh ep then (if events = [] then [] else [we_response env sub_id (lp_stream events)]) @ [we_response env sub_id []] else [])"
proof -
  obtain w2 skips2 events2 us where q: "query_requests env ep now sub_id keep rs (register_watch ep sub_id keep rs w) = (w2, skips2, events2)"
     "handle_query env ep now sub_id keep rs w =
       send_result ep (we_response env sub_id [])
         ((if events2 \<noteq> [] then send_result ep (we_response env sub_id (lp_stream events2)) w2 else w2)\<lparr>cw_upstream := us\<rparr>)"
     "ep_upstream ep \<or> us = cw_upstream w"
    using handle_query_parts by blast
  then have e: "w2 = w1" "events2 = events" using assms by simp_all
  have "cw_mesh w1 = cw_mesh w" "cw_client w1 = cw_client w" "cw_to_mesh w1 = cw_to_mesh w"
    using query_requests_mesh [of env ep now sub_id keep rs "register_watch ep sub_id keep rs w"] assms
    by (simp_all add: register_watch_same)
  then show "cw_ttl (handle_query env ep now sub_id keep rs w) = cw_ttl w1"
    "cw_mesh (handle_query env ep now sub_id keep rs w) = cw_mesh w"
    "cw_client (handle_query env ep now sub_id keep rs w) = cw_client w"
    "\<not> ep_upstream ep \<Longrightarrow> cw_upstream (handle_query env ep now sub_id keep rs w) = cw_upstream w"
    "cw_to_mesh (handle_query env ep now sub_id keep rs w) = cw_to_mesh w @
      (if ep_is_mesh ep then (if events = [] then [] else [we_response env sub_id (lp_stream events)]) @ [we_response env sub_id []] else [])"
    using q(3) by (auto simp: q(2) e)
qed

lemma handle_query_ttl:
  assumes "ttl_ok env h (cw_ttl w)"
  shows "ttl_ok env h (cw_ttl (handle_query env ep now sub_id keep rs w))"
proof -
  obtain w1 skips events where q: "query_requests env ep now sub_id keep rs (register_watch ep sub_id keep rs w) = (w1, skips, events)"
    by (metis prod_cases3)
  have "ttl_ok env h (cw_ttl w1)"
    using query_requests_ttl [of env h "register_watch ep sub_id keep rs w" ep now sub_id keep rs] assms q by (simp add: register_watch_same)
  then show ?thesis by (simp add: handle_query_sel(1) [OF q])
qed

lemma handle_request_ttl: "ttl_ok env h (cw_ttl w) \<Longrightarrow> ttl_ok env h (cw_ttl (handle_request env ep now inner w))"
  by (simp add: handle_request_def handle_publish_def send_upstream_def handle_query_ttl split: option.splits)

lemma handle_request_stores:
  "cw_mesh (handle_request env ep now inner w) = cw_mesh w" "cw_client (handle_request env ep now inner w) = cw_client w"
proof -
  have "cw_mesh (handle_query env ep now sub_id keep rs w) = cw_mesh w \<and> cw_client (handle_query env ep now sub_id keep rs w) = cw_client w"
    for sub_id keep rs using handle_query_sel(2,3) by (metis prod_cases3)
  then show "cw_mesh (handle_request env ep now inner w) = cw_mesh w" "cw_client (handle_request env ep now inner w) = cw_client w"
    by (simp_all add: handle_request_def handle_publish_def send_upstream_def split: option.splits)
qed

lemma handle_persist_cases:
  assumes "handle_persist env ep now inner w = Some w'"
  obtains "w' = w"
  | "ep_track ep" "w' = w\<lparr>cw_ttl := clear_pin (cw_ttl w)\<rparr>"
  | s r where "so_persist (we_ops env) inner (endpoint_storage ep w) = Some (s, r)" "w' = set_storage ep s w"
  | s r where "so_persist (we_ops env) inner (endpoint_storage ep w) = Some (s, r)"
      "w' = after_persist env ep (if ep_track ep \<and> we_sub_id env inner = Some ''mesh_pin_profile'' then pin else (\<lambda>i. observe i now))
         inner (set_storage ep s w)"
proof (cases "so_persist (we_ops env) inner (endpoint_storage ep w)")
  case None
  then show thesis using assms that(1,2) by (simp add: handle_persist_def split: option.splits if_splits)
next
  case (Some p)
  obtain s r where p: "p = (s, r)" by fastforce
  show thesis
    using assms that(1,2) that(3) [OF Some [unfolded p]] that(4) [OF Some [unfolded p]] Some
    by (cases r) (simp_all add: handle_persist_def p Let_def split: option.splits if_splits)
qed

lemma set_storage_sel [simp]:
  "cw_ttl (set_storage ep s w) = cw_ttl w" "cw_to_mesh (set_storage ep s w) = cw_to_mesh w"
  "cw_upstream (set_storage ep s w) = cw_upstream w" "cw_watches (set_storage ep s w) = cw_watches w"
  "cw_mesh (set_storage ep s w) = (if ep_is_mesh ep then s else cw_mesh w)"
  "cw_client (set_storage ep s w) = (if ep_is_mesh ep then cw_client w else s)"
  by (simp_all add: set_storage_def)

lemma handle_message_cases:
  assumes "handle_message env ep now b w = Some w'"
  obtains "w' = w"
  | inner where "split_frame b = Some (TAG_PERSIST, inner)" "handle_persist env ep now inner w = Some w'"
  | inner where "w' = handle_request env ep now inner w"
  using assms by (auto simp: handle_message_def split: option.splits prod.splits if_splits)

lemma persisted_as_cases:
  assumes "split_frame b = Some (TAG_PERSIST, inner)"
  shows "root_worker_message (we_fb env) inner = None \<Longrightarrow> \<not> clears env b \<and> pins env b = None"
    and "root_worker_message (we_fb env) inner \<noteq> None \<Longrightarrow> clears env b \<longleftrightarrow> we_sub_id env inner = Some ''mesh_clear_profile''"
    and "root_worker_message (we_fb env) inner \<noteq> None \<Longrightarrow>
      pins env b = (if we_sub_id env inner = Some ''mesh_pin_profile'' then worker_message_event_id (we_fb env) inner else None)"
    and "root_worker_message (we_fb env) inner \<noteq> None \<Longrightarrow>
      observes env b = (if we_sub_id env inner \<in> {Some ''mesh_clear_profile'', Some ''mesh_pin_profile''} then None
        else worker_message_event_id (we_fb env) inner)"
  using assms by (simp_all add: persisted_as_def clears_def pins_def observes_def)

lemma other_message: "\<forall>inner. split_frame b \<noteq> Some (TAG_PERSIST, inner) \<Longrightarrow> \<not> clears env b \<and> pins env b = None"
  by (auto simp: persisted_as_def clears_def pins_def split: option.splits)

lemma client_message_ttl:
  assumes "handle_message env ep now b w = Some w'" "\<not> ep_track ep" "ttl_ok env h (cw_ttl w)"
  shows "ttl_ok env h (cw_ttl w')"
  using assms(1)
proof (cases rule: handle_message_cases)
  case (2 inner)
  from 2(2) have "cw_ttl w' = cw_ttl w"
    by (cases rule: handle_persist_cases) (use assms(2) in \<open>simp_all add: after_persist_frame\<close>)
  then show ?thesis using assms(3) by simp
qed (use assms(3) handle_request_ttl in auto)

lemma mesh_persist_ttl:
  assumes ok: "ttl_ok env h (cw_ttl w)" and b: "split_frame b = Some (TAG_PERSIST, inner)"
    and run: "handle_persist env mesh_endpoint now inner w = Some w'"
    and stored: "root_worker_message (we_fb env) inner \<noteq> None \<Longrightarrow> \<exists>s. so_persist (we_ops env) inner (cw_mesh w) = Some (s, Ok ())"
  shows "ttl_ok env (h @ [(True, now, b)]) (cw_ttl w')"
proof (cases "root_worker_message (we_fb env) inner")
  case None
  then show ?thesis using run ok persisted_as_cases(1) [OF b None] by (auto simp: handle_persist_def intro: ttl_ok_keep)
next
  case (Some msg)
  then have root: "root_worker_message (we_fb env) inner \<noteq> None" by simp
  note kind = persisted_as_cases(2-4) [OF b root]
  obtain s where s: "so_persist (we_ops env) inner (cw_mesh w) = Some (s, Ok ())" using stored [OF root] by blast
  consider "we_sub_id env inner = Some ''mesh_clear_profile''" | "we_sub_id env inner = Some ''mesh_pin_profile''"
    | "we_sub_id env inner \<notin> {Some ''mesh_clear_profile'', Some ''mesh_pin_profile''}" by blast
  then show ?thesis
  proof cases
    case 1
    then have "cw_ttl w' = clear_pin (cw_ttl w)" using run Some by (auto simp: handle_persist_def)
    then show ?thesis using ttl_ok_clear [OF ok] kind 1 by simp
  next
    case 2
    then have "cw_ttl w' = (case worker_message_event_id (we_fb env) inner of Some i \<Rightarrow> pin i (cw_ttl w) | None \<Rightarrow> cw_ttl w)"
      using run Some s by (auto simp: handle_persist_def endpoint_storage_def after_persist_frame split: option.split)
    then show ?thesis using ttl_ok_pin [OF ok] ttl_ok_keep [OF ok] kind 2 by (simp split: option.split)
  next
    case 3
    then have "cw_ttl w' = (case worker_message_event_id (we_fb env) inner of Some i \<Rightarrow> observe i now (cw_ttl w) | None \<Rightarrow> cw_ttl w)"
      using run Some s by (auto simp: handle_persist_def endpoint_storage_def after_persist_frame split: option.split)
    then show ?thesis using ttl_ok_observe [OF ok] ttl_ok_keep [OF ok] kind 3 by (simp split: option.split)
  qed
qed

lemma mesh_message_ttl:
  assumes ok: "ttl_ok env h (cw_ttl w)" and run: "handle_message env mesh_endpoint now b w = Some w'"
    and stored: "\<And>inner. split_frame b = Some (TAG_PERSIST, inner) \<Longrightarrow> root_worker_message (we_fb env) inner \<noteq> None \<Longrightarrow>
      \<exists>s. so_persist (we_ops env) inner (cw_mesh w) = Some (s, Ok ())"
  shows "ttl_ok env (h @ [(True, now, b)]) (cw_ttl w')"
proof (cases "\<exists>inner. split_frame b = Some (TAG_PERSIST, inner)")
  case True
  then obtain inner where b: "split_frame b = Some (TAG_PERSIST, inner)" by blast
  then have "handle_persist env mesh_endpoint now inner w = Some w'" using run by (simp add: handle_message_def)
  from mesh_persist_ttl [OF ok b this stored [OF b]] show ?thesis .
next
  case False
  have "ttl_ok env h (cw_ttl w')"
    using run False ok handle_request_ttl [OF ok] by (auto simp: handle_message_def split: option.splits if_splits)
  then show ?thesis using other_message [of b env] False ttl_ok_keep by blast
qed

section \<open>Runs\<close>

definition endpoint_of :: "bool \<Rightarrow> endpoint" where
  "endpoint_of m = (if m then mesh_endpoint else client_endpoint)"

text \<open>Messages of both endpoints in any order; what the mesh endpoint persists is accepted by its storage.\<close>

inductive worker_run ::
  "'s worker_env \<Rightarrow> (bytes \<Rightarrow> 's \<Rightarrow> bool) \<Rightarrow> 's cache_world \<Rightarrow> cache_history \<Rightarrow> 's cache_world \<Rightarrow> bool"
  for env accepts w0 where
  run_start: "worker_run env accepts w0 [] w0"
| run_message: "worker_run env accepts w0 h w \<Longrightarrow>
    (\<And>inner. m \<Longrightarrow> split_frame b = Some (TAG_PERSIST, inner) \<Longrightarrow> accepts inner (cw_mesh w)) \<Longrightarrow>
    handle_message env (endpoint_of m) now b w = Some w' \<Longrightarrow> worker_run env accepts w0 (h @ [(m, now, b)]) w'"

definition mesh_answer :: "'s worker_env \<Rightarrow> cache_history \<Rightarrow> nat \<Rightarrow> bytes set \<Rightarrow> bytes \<Rightarrow> bool" where
  "mesh_answer env h now known b \<longleftrightarrow>
     (\<exists>sub_id events. b = we_response env sub_id (lp_stream events) \<and> set events \<subseteq> known \<and>
        (\<forall>e \<in> set events. \<exists>i. worker_message_event_id (we_fb env) e = Some i \<and> fresh_event env h now i))"

lemma mesh_answer_empty: "mesh_answer env h now known (we_response env sub_id [])"
  unfolding mesh_answer_def by (rule exI [of _ sub_id], rule exI [of _ "[]"]) simp

locale cache_storage = storage query persist stored accepts invar
  for query :: "nostr_filter list \<Rightarrow> 's \<Rightarrow> storage_failure + bytes list" and persist and stored and accepts and invar +
  fixes env :: "'s worker_env"
  assumes ops: "so_query (we_ops env) = query" "so_persist (we_ops env) = persist"
    and persist_ok: "invar s \<Longrightarrow> accepts b s \<Longrightarrow> root_worker_message (we_fb env) b \<noteq> None \<Longrightarrow> \<exists>s'. persist b s = Some (s', Ok ())"
begin

lemma query_request_fresh:
  assumes "invar (cw_mesh w)" "ttl_ok env h (cw_ttl w)"
  shows "set (snd (snd (query_request env mesh_endpoint now sub_id keep r w))) \<subseteq>
    {e \<in> stored (cw_mesh w). \<exists>i. worker_message_event_id (we_fb env) e = Some i \<and> fresh_event env h now i}"
proof (rule subsetI)
  let ?q = "from_flatbuffer r"
  fix e assume e: "e \<in> set (snd (snd (query_request env mesh_endpoint now sub_id keep r w)))"
  have m: "\<not> nr_mesh_only ?q"
  proof
    assume "nr_mesh_only ?q"
    then have "snd (snd (query_request env mesh_endpoint now sub_id keep r w)) = []"
      by (simp add: query_request_def lookup_events_def Let_def split: sum.splits option.splits)
    then show False using e by simp
  qed
  obtain f events ix es where r: "query [f] (cw_mesh w) = Ok events" "retain_live (we_fb env) now events (cw_ttl w) = (ix, es)" "e \<in> set es"
    using e m by (auto simp: query_request_def lookup_events_def endpoint_storage_def ops Let_def split: sum.splits prod.splits if_splits)
  from query_stored [OF assms(1) r(1)] retain_live_ok [OF assms(2) r(2)] r(3)
  show "e \<in> {e \<in> stored (cw_mesh w). \<exists>i. worker_message_event_id (we_fb env) e = Some i \<and> fresh_event env h now i}" by blast
qed

lemma query_requests_fresh:
  assumes "invar (cw_mesh w)" "ttl_ok env h (cw_ttl w)"
  shows "set (snd (snd (query_requests env mesh_endpoint now sub_id keep rs w))) \<subseteq>
    {e \<in> stored (cw_mesh w). \<exists>i. worker_message_event_id (we_fb env) e = Some i \<and> fresh_event env h now i}"
  using assms
proof (induction rs arbitrary: w)
  case (Cons r rs)
  define w1 where "w1 = fst (query_request env mesh_endpoint now sub_id keep r w)"
  have w1: "cw_mesh w1 = cw_mesh w" "ttl_ok env h (cw_ttl w1)"
    using query_request_frame [of env mesh_endpoint now sub_id keep r w] query_request_ttl [OF Cons.prems(2)] by (auto simp: w1_def)
  have "snd (snd (query_requests env mesh_endpoint now sub_id keep (r # rs) w)) =
      snd (snd (query_request env mesh_endpoint now sub_id keep r w)) @ snd (snd (query_requests env mesh_endpoint now sub_id keep rs w1))"
    by (simp add: w1_def Let_def case_prod_beta)
  then show ?case using Cons.IH [of w1] w1 Cons.prems query_request_fresh [OF Cons.prems] by simp
qed simp

lemma query_fresh:
  assumes "invar (cw_mesh w)" "ttl_ok env h (cw_ttl w)"
  shows "\<exists>new. cw_to_mesh (handle_query env mesh_endpoint now sub_id keep rs w) = cw_to_mesh w @ new \<and>
    list_all (mesh_answer env h now (stored (cw_mesh w))) new"
proof -
  obtain w1 skips events where q: "query_requests env mesh_endpoint now sub_id keep rs (register_watch mesh_endpoint sub_id keep rs w) =
      (w1, skips, events)" by (metis prod_cases3)
  have "set events \<subseteq> {e \<in> stored (cw_mesh w). \<exists>i. worker_message_event_id (we_fb env) e = Some i \<and> fresh_event env h now i}"
    using query_requests_fresh [of "register_watch mesh_endpoint sub_id keep rs w" h now sub_id keep rs] assms q
    by (simp add: register_watch_same)
  then have "mesh_answer env h now (stored (cw_mesh w)) (we_response env sub_id (lp_stream events))"
    unfolding mesh_answer_def by blast
  then show ?thesis using mesh_answer_empty by (simp add: handle_query_sel(5) [OF q])
qed

lemma message_fresh:
  assumes "invar (cw_mesh w)" "ttl_ok env h (cw_ttl w)" "handle_message env mesh_endpoint now b w = Some w'"
  shows "\<exists>new. cw_to_mesh w' = cw_to_mesh w @ new \<and> list_all (mesh_answer env h now (stored (cw_mesh w))) new"
  using assms(3)
proof (cases rule: handle_message_cases)
  case (2 inner)
  from 2(2) have "cw_to_mesh w' = cw_to_mesh w"
    by (cases rule: handle_persist_cases) (simp_all add: after_persist_frame)
  then show ?thesis by simp
next
  case (3 inner)
  then show ?thesis using query_fresh [OF assms(1,2)]
    by (simp add: handle_request_def handle_publish_def send_upstream_def split: option.splits)
qed simp

text \<open>The storage of the mesh holds what it held and what the mesh endpoint persisted.\<close>

lemma message_stored:
  assumes "invar (cw_mesh w)" "handle_message env (endpoint_of m) now b w = Some w'"
    "\<And>inner. m \<Longrightarrow> split_frame b = Some (TAG_PERSIST, inner) \<Longrightarrow> accepts inner (cw_mesh w)"
  shows "invar (cw_mesh w') \<and> stored (cw_mesh w') \<subseteq> stored (cw_mesh w) \<union> snd ` mesh_persisted [(m, now, b)]"
  using assms(2)
proof (cases rule: handle_message_cases)
  case (2 inner)
  have up: "invar s \<and> stored s \<subseteq> insert inner (stored (cw_mesh w))" if "m" "persist inner (cw_mesh w) = Some (s, r)" for s r
    using persist_stored [OF assms(1) assms(3) [OF that(1) 2(1)]] that(2) by auto
  have in_h: "m \<Longrightarrow> inner \<in> snd ` mesh_persisted [(m, now, b)]" using 2(1) by (force simp: mesh_persisted_def)
  from 2(2) show ?thesis
    by (cases rule: handle_persist_cases; cases m)
      (use assms(1) up in_h in \<open>auto simp: after_persist_frame endpoint_storage_def endpoint_of_def ops\<close>)
qed (use assms(1) handle_request_stores in \<open>auto simp: handle_request_stores\<close>)

lemma run_invariant:
  assumes "worker_run env accepts w0 h w" "invar (cw_mesh w0)" "cw_ttl w0 = ttl_new"
  shows "invar (cw_mesh w) \<and> ttl_ok env h (cw_ttl w) \<and> stored (cw_mesh w) \<subseteq> stored (cw_mesh w0) \<union> snd ` mesh_persisted h"
  using assms
proof (induction rule: worker_run.induct)
  case run_start
  then show ?case by (simp add: ttl_ok_def ttl_new_def)
next
  case (run_message h w m b now w')
  then have ih: "invar (cw_mesh w)" "ttl_ok env h (cw_ttl w)" "stored (cw_mesh w) \<subseteq> stored (cw_mesh w0) \<union> snd ` mesh_persisted h"
    by blast+
  have "ttl_ok env (h @ [(m, now, b)]) (cw_ttl w')"
  proof (cases m)
    case True
    then have run: "handle_message env mesh_endpoint now b w = Some w'" using run_message.hyps(3) by (simp add: endpoint_of_def)
    show ?thesis unfolding eqTrueI [OF True] by (rule mesh_message_ttl [OF ih(2) run]) (use persist_ok [OF ih(1)] run_message.hyps(2) True in \<open>auto simp: ops\<close>)
  next
    case False
    then have "ttl_ok env h (cw_ttl w')"
      using client_message_ttl [OF run_message.hyps(3) _ ih(2)] by (simp add: endpoint_of_def)
    then show ?thesis by (rule ttl_ok_keep) (use False in simp_all)
  qed
  moreover have "mesh_persisted h \<subseteq> mesh_persisted (h @ [(m, now, b)])" "mesh_persisted [(m, now, b)] \<subseteq> mesh_persisted (h @ [(m, now, b)])"
    by (auto intro!: mesh_persisted_mono)
  ultimately show ?case using message_stored [OF ih(1) run_message.hyps(3,2)] ih(3) by blast
qed

lemma run_fresh:
  assumes "worker_run env accepts w0 h w" "invar (cw_mesh w0)" "cw_ttl w0 = ttl_new"
    "handle_message env mesh_endpoint now b w = Some w'"
  shows "\<exists>new. cw_to_mesh w' = cw_to_mesh w @ new \<and>
    list_all (mesh_answer env h now (stored (cw_mesh w0) \<union> snd ` mesh_persisted h)) new"
proof -
  from run_invariant [OF assms(1-3)] have inv: "invar (cw_mesh w)" "ttl_ok env h (cw_ttl w)"
    "stored (cw_mesh w) \<subseteq> stored (cw_mesh w0) \<union> snd ` mesh_persisted h" by blast+
  have mono: "mesh_answer env h now A x \<Longrightarrow> A \<subseteq> B \<Longrightarrow> mesh_answer env h now B x" for A B x
    unfolding mesh_answer_def by (elim exE conjE, rule exI, rule exI, intro conjI, assumption, erule subset_trans, assumption+)
  from message_fresh [OF inv(1,2) assms(4)] obtain new where
    "cw_to_mesh w' = cw_to_mesh w @ new" "list_all (mesh_answer env h now (stored (cw_mesh w))) new" by blast
  then show ?thesis using mono inv(3) by (intro exI [of _ new]) (auto simp: list_all_iff)
qed

end

text \<open>The worker over the database, which keeps every readable message it has room for.\<close>

lemma storage_persist_ok:
  assumes "db_ok db" "db_accepts fb bs db" "root_worker_message fb bs \<noteq> None"
  shows "\<exists>db'. storage_persist fb bs db = Some (db', Ok ())"
proof (cases "decode_event fb bs")
  case (DecEvent f)
  obtain w where w: "store_ok w db" using assms(1) by (auto simp: db_ok_def)
  have "event_accepts f bs db" using assms(2) DecEvent by (simp add: db_accepts_def)
  then obtain db' where "store_and_index f bs db = Some (db', Ok ())" using store_and_index_step [OF w] by blast
  then show ?thesis using DecEvent by (simp add: storage_persist_def add_worker_message_bytes_def)
qed (use assms(3) in \<open>auto simp: storage_persist_def add_worker_message_bytes_def decode_event_def split: option.splits wm_content.splits\<close>)

definition db_worker_env :: "platform \<Rightarrow> hash_orders \<Rightarrow> nostr_db worker_env \<Rightarrow> nostr_db worker_env" where
  "db_worker_env pf ho env =
     env\<lparr>we_ops := \<lparr>so_query = storage_query pf (we_fb env) (we_hex env), so_persist = storage_persist (we_fb env),
        so_get_relays = storage_get_relays pf ho (we_fb env)\<rparr>\<rparr>"

interpretation db_cache: cache_storage "storage_query pf (we_fb env) (we_hex env)" "storage_persist (we_fb env)" db_stored
  "db_accepts (we_fb env)" "db_invar pf" "db_worker_env pf ho env"
 proof
  fix s b assume "db_invar pf s" "db_accepts (we_fb env) b s" "root_worker_message (we_fb (db_worker_env pf ho env)) b \<noteq> None"
  then show "\<exists>s'. storage_persist (we_fb env) b s = Some (s', Ok ())"
    using storage_persist_ok by (simp add: db_invar_def db_worker_env_def)
qed (simp_all add: db_worker_env_def)

text \<open>C27. Whatever messages both endpoints handled before, a message to the mesh endpoint never touches the client's
  storage nor the relays, and every event the mesh is sent was persisted and is fresh: it is the event the mesh has
  pinned at the moment, by a pin message that was neither cleared nor followed by the pin of another event, or it
  came in another message within the last ten minutes and was not pinned since. The storage accepts what the mesh endpoint persists.\<close>

theorem mesh_answers_fresh:
  assumes "worker_run (db_worker_env pf ho env) (db_accepts (we_fb env)) w0 h w" "db_invar pf (cw_mesh w0)"
    "cw_ttl w0 = ttl_new" "handle_message (db_worker_env pf ho env) mesh_endpoint now b w = Some w'"
  shows "cw_client w' = cw_client w \<and> cw_upstream w' = cw_upstream w \<and>
    (\<exists>new. cw_to_mesh w' = cw_to_mesh w @ new \<and>
      list_all (mesh_answer (db_worker_env pf ho env) h now (db_stored (cw_mesh w0) \<union> snd ` mesh_persisted h)) new)"
proof -
  have "cw_client w' = cw_client w \<and> cw_upstream w' = cw_upstream w" using assms(4)
  proof (cases rule: handle_message_cases)
    case (2 inner)
    from 2(2) show ?thesis by (cases rule: handle_persist_cases) (simp_all add: after_persist_frame)
  next
    case (3 inner)
    have "cw_upstream (handle_query (db_worker_env pf ho env) mesh_endpoint now sub_id keep rs w) = cw_upstream w" for sub_id keep rs
      using handle_query_sel(4) by (metis endpoint_sel(11) prod_cases3)
    then show ?thesis using 3 by (simp add: handle_request_stores)
      (simp add: handle_request_def handle_publish_def send_upstream_def split: option.splits)
  qed simp
  then show ?thesis using db_cache.run_fresh [OF assms] by blast
qed

section \<open>What the network is asked\<close>

text \<open>A request for the cache alone reaches the relays when it also bypasses the cache or names a malformed key.\<close>

lemma cache_only_escapes:
  assumes "rq_cache_only r" "\<not> rq_mesh_only r"
    "rq_no_cache r \<or> (\<exists>e. to_filter (we_hex env) (we_tag_order env) (from_flatbuffer r) = Err e)"
  shows "forwarded env s r"
  using assms by (auto simp: forwarded_def from_flatbuffer_def Let_def)

lemma storage_query_cong:
  "filter_to_query_filter hex f' = filter_to_query_filter hex f \<Longrightarrow> storage_query pf fb hex [f'] db = storage_query pf fb hex [f] db"
  by (simp add: storage_query_def)

lemma hashed_tag_map: "list_all hashed (tag_keys tags) \<Longrightarrow> fmpred (\<lambda>k _. hashed k) (fold tag_entry tags fmempty)"
  using tag_keys_map [of tags fmempty] by (auto simp: fmpred_iff list_all_iff fmlookup_dom'_iff subset_iff)

text \<open>Whether a request reaches the relays does not depend on a tag filter with a letter the database has no
  index for, such as a hashtag: a request for one hashtag that may be answered from the cache is kept from
  the relays whenever the cache holds any event that matches the rest of the request.\<close>

theorem hashtag_ignored:
  assumes "tag_order_ok (we_tag_order env)" "list_all hashed (tag_keys (or_default (rq_tags r)))"
    "hashed k" "strip_hash k \<notin> {''e'', ''p'', ''a'', ''d'', ''q'', ''E'', ''P''}" "vs \<noteq> []"
  shows "forwarded (db_worker_env pf ho env) db (r\<lparr>rq_tags := Some (or_default (rq_tags r) @ [Some (k # vs)])\<rparr>) \<longleftrightarrow>
    forwarded (db_worker_env pf ho env) db r"
proof -
  let ?q = "from_flatbuffer r" and ?hex = "we_hex env" and ?ord = "we_tag_order env"
  define q' where "q' = ?q\<lparr>nr_tags := fmupd k vs (nr_tags ?q)\<rparr>"
  have q': "from_flatbuffer (r\<lparr>rq_tags := Some (or_default (rq_tags r) @ [Some (k # vs)])\<rparr>) = q'"
    using assms(5) by (simp add: q'_def from_flatbuffer_def or_default_def tag_entry_def Suc_le_eq)
  have same: "nr_mesh_only q' = nr_mesh_only ?q" "nr_no_cache q' = nr_no_cache ?q" "nr_cache_first q' = nr_cache_first ?q"
    "nr_cache_only q' = nr_cache_only ?q" by (simp_all add: q'_def)
  have hashed: "fmpred (\<lambda>k _. hashed k) (nr_tags ?q)" using hashed_tag_map [OF assms(2)] by (simp add: from_flatbuffer_def)
  show ?thesis
  proof (cases "to_filter ?hex ?ord ?q")
    case (Inl e)
    then have "to_filter ?hex ?ord q' = Err e" by (auto simp: to_filter_def q'_def split: sum.splits)
    then show ?thesis using Inl by (simp add: forwarded_def q' same db_worker_env_def)
  next
    case (Inr f)
    obtain f' where f': "to_filter ?hex ?ord q' = Ok f'" "filter_to_query_filter ?hex f' = filter_to_query_filter ?hex f"
      using other_tag_ignored [OF assms(1) hashed Inr assms(3,4)] by (auto simp: q'_def)
    then show ?thesis using Inr storage_query_cong [OF f'(2)] by (simp add: forwarded_def q' same db_worker_env_def Let_def split: sum.splits)
  qed
qed

section \<open>Bounds of the watches\<close>

definition watch_ok :: "mesh_watch \<Rightarrow> bool" where
  "watch_ok w \<longleftrightarrow> distinct (mw_delivered_order w) \<and> mw_delivered_ids w = fset_of_list (mw_delivered_order w) \<and>
     length (mw_delivered_order w) \<le> MAX_DELIVERED_IDS_PER_WATCH"

definition watches_ok :: "(string, mesh_watch) fmap \<Rightarrow> bool" where
  "watches_ok ws \<longleftrightarrow> fcard (fmdom ws) \<le> MAX_MESH_WATCHES \<and> (\<forall>sub_id w. fmlookup ws sub_id = Some w \<longrightarrow> watch_ok w)"

lemma watch_new_ok: "watch_ok (mesh_watch_new rs)"
  by (simp add: watch_ok_def mesh_watch_new_def)

lemma watch_remember_ok:
  assumes "watch_ok w"
  shows "watch_ok (fst (watch_remember i w))"
proof (cases "i |\<in>| mw_delivered_ids w")
  case False
  define order where "order = mw_delivered_order w @ [i]"
  have d: "distinct order" using assms False by (simp add: order_def watch_ok_def fset_of_list_elem)
  have ids: "finsert i (mw_delivered_ids w) = fset_of_list order" using assms by (simp add: order_def watch_ok_def)
  obtain a rest where c: "order = a # rest" by (cases order) (simp_all add: order_def)
  have "fset_of_list order |-| {|a|} = fset_of_list rest" using d by (auto simp: c fset_of_list_elem)
  moreover have "length rest \<le> MAX_DELIVERED_IDS_PER_WATCH"
    using assms arg_cong [OF c, of length] by (simp add: order_def watch_ok_def)
  ultimately show ?thesis using False d
    by (simp add: watch_remember_def Let_def ids order_def [symmetric]) (simp add: watch_ok_def c)
qed (use assms in \<open>simp add: watch_remember_def\<close>)

lemma retain_new_ok: "watch_ok w \<Longrightarrow> watch_ok (fst (retain_new fb es w))"
proof (induction es arbitrary: w)
  case (Cons e es)
  define p where "p = (case worker_message_event_id fb e of Some i \<Rightarrow> watch_remember i w | None \<Rightarrow> (w, True))"
  have "watch_ok (fst p)" using Cons.prems watch_remember_ok by (simp add: p_def split: option.splits)
  from Cons.IH [OF this] show ?case by (simp add: p_def [symmetric] Let_def case_prod_beta)
qed simp

lemma watches_ok_upd:
  assumes "watches_ok ws" "watch_ok w" "sub_id |\<in>| fmdom ws \<or> fcard (fmdom ws) < MAX_MESH_WATCHES"
  shows "watches_ok (fmupd sub_id w ws)"
proof -
  have "fcard (fmdom (fmupd sub_id w ws)) \<le> MAX_MESH_WATCHES"
    using assms(1,3) by (auto simp: watches_ok_def fcard_finsert_if)
  then show ?thesis using assms(1,2) by (simp add: watches_ok_def)
qed

lemma watches_ok_replace:
  "watches_ok ws \<Longrightarrow> fmlookup ws sub_id = Some old \<Longrightarrow> watch_ok w \<Longrightarrow> watches_ok (fmupd sub_id w ws)"
  by (erule watches_ok_upd) (auto intro: fmdomI)

lemma watches_ok_drop: "watches_ok ws \<Longrightarrow> watches_ok (fmdrop sub_id ws)"
  by (auto simp: watches_ok_def split: if_splits intro: order.trans [OF fcard_mono])

lemma notify_watches_ok:
  assumes "watches_ok (cw_watches w)"
  shows "watches_ok (cw_watches (notify_mesh_watches env b w))"
proof -
  have step: "watches_ok (cw_watches (notify_watch env e b sub_id w))" if "watches_ok (cw_watches w)" for e sub_id and w :: "'a cache_world"
  proof (cases "fmlookup (cw_watches w) sub_id")
    case (Some watch)
    then have "watch_ok watch" using that by (simp add: watches_ok_def)
    from watches_ok_replace [OF that Some watch_remember_ok [OF this]] show ?thesis
      using that Some by (simp add: notify_watch_def Let_def case_prod_beta)
  qed (simp add: notify_watch_def that)
  have "watches_ok (cw_watches (fold (notify_watch env e b) subs w))" if "watches_ok (cw_watches w)" for e subs and w :: "'a cache_world"
    using that by (induction subs arbitrary: w) (simp_all add: step)
  then show ?thesis using assms by (simp add: notify_mesh_watches_def split: option.splits wm_content.splits)
qed

lemma register_watch_ok: "watches_ok (cw_watches w) \<Longrightarrow> watches_ok (cw_watches (register_watch ep sub_id keep rs w))"
  by (auto simp: register_watch_def Let_def watch_new_ok intro!: watches_ok_upd)

lemma query_request_watches_ok:
  assumes "watches_ok (cw_watches w)"
  shows "watches_ok (cw_watches (fst (query_request env ep now sub_id keep r w)))"
proof -
  have "watches_ok (fmupd sub_id watch' (cw_watches w))"
    if "fmlookup (cw_watches w) sub_id = Some watch" "retain_new fb es watch = (watch', es')" for fb es es' watch watch'
    using watches_ok_replace [OF assms that(1) retain_new_ok [of watch fb es]] assms that by (simp add: watches_ok_def)
  then show ?thesis using assms by (simp add: query_request_def Let_def split: sum.splits prod.splits option.splits)
qed

lemma query_requests_watches_ok:
  "watches_ok (cw_watches w) \<Longrightarrow> watches_ok (cw_watches (fst (query_requests env ep now sub_id keep rs w)))"
proof (induction rs arbitrary: w)
  case (Cons r rs)
  from Cons.IH [OF query_request_watches_ok [OF Cons.prems]] show ?case by (simp add: Let_def case_prod_beta)
qed simp

lemma handle_query_watches_ok:
  assumes "watches_ok (cw_watches w)"
  shows "watches_ok (cw_watches (handle_query env ep now sub_id keep rs w))"
proof -
  obtain w1 skips events us where q: "query_requests env ep now sub_id keep rs (register_watch ep sub_id keep rs w) = (w1, skips, events)"
     "handle_query env ep now sub_id keep rs w =
       send_result ep (we_response env sub_id [])
         ((if events \<noteq> [] then send_result ep (we_response env sub_id (lp_stream events)) w1 else w1)\<lparr>cw_upstream := us\<rparr>)"
    using handle_query_parts by blast
  have "watches_ok (cw_watches w1)"
    using query_requests_watches_ok [OF register_watch_ok [OF assms], of env ep now sub_id keep rs ep sub_id keep rs] q(1) by simp
  then show ?thesis by (simp add: q(2))
qed

lemma handle_persist_watches_ok:
  assumes "watches_ok (cw_watches w)" "handle_persist env ep now inner w = Some w'"
  shows "watches_ok (cw_watches w')"
proof -
  have "watches_ok (cw_watches (after_persist env ep mark inner (set_storage ep s w)))" for mark s
    using assms(1) by (auto simp: after_persist_def set_storage_def Let_def intro!: notify_watches_ok split: option.splits)
  note marked = this
  from assms(2) show ?thesis by (cases rule: handle_persist_cases) (simp_all add: assms(1) marked)
qed

lemma handle_message_watches_ok:
  assumes "watches_ok (cw_watches w)" "handle_message env ep now b w = Some w'"
  shows "watches_ok (cw_watches w')"
  using assms(2)
proof (cases rule: handle_message_cases)
  case (3 inner)
  then show ?thesis using assms(1) handle_query_watches_ok [OF assms(1)] watches_ok_drop [OF assms(1)]
    by (simp add: handle_request_def handle_publish_def send_upstream_def split: option.splits)
qed (use assms(1) handle_persist_watches_ok in auto)

text \<open>In every reachable state there are at most 128 watches of the mesh, and each remembers at most the last
  4096 ids it delivered, without repetition and with a set that equals the queue.\<close>

theorem mesh_watches_bounded:
  assumes "worker_run env accepts w0 h w" "cw_watches w0 = fmempty"
  shows "fcard (fmdom (cw_watches w)) \<le> 128 \<and>
    fmpred (\<lambda>_ watch. length (mw_delivered_order watch) \<le> 4096 \<and> distinct (mw_delivered_order watch) \<and>
      mw_delivered_ids watch = fset_of_list (mw_delivered_order watch)) (cw_watches w)"
proof -
  have "watches_ok (cw_watches w)" using assms
  proof (induction rule: worker_run.induct)
    case run_start
    then show ?case by (simp add: watches_ok_def fcard_fempty)
  next
    case (run_message h w m b now w')
    then show ?case using handle_message_watches_ok by blast
  qed
  then show ?thesis
    by (auto simp: watches_ok_def watch_ok_def MAX_MESH_WATCHES_def MAX_DELIVERED_IDS_PER_WATCH_def fmpred_iff)
qed

section \<open>Examples\<close>

definition example_cache_request :: "fb_request list \<Rightarrow> cache_request" where
  "example_cache_request rs = \<lparr>cr_sub_id = ''sub'', cr_close = False, cr_event = None, cr_relays = None, cr_requests = Some rs,
     cr_keep_mesh_watch = False\<rparr>"

definition example_worker_env :: "'s storage_ops \<Rightarrow> fb_request list \<Rightarrow> 's worker_env" where
  "example_worker_env ops rs = \<lparr>we_fb = example_codec, we_sub_id = (\<lambda>_. None), we_request = (\<lambda>_. Some (example_cache_request rs)),
     we_response = (\<lambda>_ p. p), we_json = (\<lambda>_. []), we_lower = id, we_hex = example_hex, we_tag_order = example_tag_order,
     we_watch_order = (\<lambda>m. sorted_list_of_fset (fmdom m)), we_ops = ops\<rparr>"

definition unit_ops :: "unit storage_ops" where
  "unit_ops = \<lparr>so_query = (\<lambda>_ _. Ok [[1, 2]]), so_persist = (\<lambda>_ _. None), so_get_relays = (\<lambda>_ _. None)\<rparr>"

definition example_world :: "'s \<Rightarrow> 's cache_world" where
  "example_world s = \<lparr>cw_client = s, cw_mesh = s, cw_watches = fmempty, cw_ttl = ttl_new, cw_to_parser = [], cw_to_mesh = [],
     cw_upstream = []\<rparr>"

definition no_cache_request :: fb_request where
  "no_cache_request = example_request\<lparr>rq_no_cache := True, rq_relays := Some [''wss://a'']\<rparr>"

lemma tags_differ: "TAG_REQUEST \<noteq> TAG_PERSIST"
  by (simp add: TAG_REQUEST_def TAG_PERSIST_def)

lemma example_request_frame: "split_frame (frame TAG_REQUEST [1]) = Some (TAG_REQUEST, [1])"
  by (rule split_frame_frame) simp

definition cache_only_request :: fb_request where
  "cache_only_request = example_request\<lparr>rq_cache_only := True\<rparr>"

theorem query_answered_witness:
  "\<exists>w'. handle_message (example_worker_env unit_ops [cache_only_request, no_cache_request]) client_endpoint 0
       (frame TAG_REQUEST [1]) (example_world ()) = Some w' \<and>
     cw_to_parser w' = [lp_stream [[1, 2]], []] \<and> length (cw_upstream w') = 1"
proof -
  let ?env = "example_worker_env unit_ops [cache_only_request, no_cache_request]" and ?reqs = "[cache_only_request, no_cache_request]"
  have a: "cached_answer ?env () cache_only_request = [[1, 2]]" "cached_answer ?env () no_cache_request = []"
    "\<not> relays_wanted ?env () cache_only_request" "relays_wanted ?env () no_cache_request"
    "nr_cache_only (from_flatbuffer cache_only_request)" "cache_can_answer ?env () cache_only_request"
    "\<not> nr_cache_only (from_flatbuffer no_cache_request)"
    "\<not> nr_mesh_only (from_flatbuffer cache_only_request)" "\<not> nr_mesh_only (from_flatbuffer no_cache_request)"
    by (simp_all add: cached_answer_def relays_wanted_def cache_can_answer_def example_worker_env_def unit_ops_def example_request_def
        cache_only_request_def no_cache_request_def from_flatbuffer_def or_default_def to_filter_def key_field_def Let_def)
  have "list_all (\<lambda>r. nr_cache_only (from_flatbuffer r) \<longrightarrow> cache_can_answer ?env (cw_client (example_world ())) r) ?reqs"
    using a by (simp add: example_world_def)
  from query_answered [OF example_request_frame _ _ _ _ this, of "example_cache_request ?reqs" 0]
  obtain w' parts where w': "handle_message ?env client_endpoint 0 (frame TAG_REQUEST [1]) (example_world ()) = Some w'"
    "parts = [[[1, 2]], []]"
    "cw_to_parser w' = (if concat parts = [] then [] else [lp_stream (concat parts)]) @ [[]]"
    "cw_upstream w' = map (request_envelope ?env ''sub'' ()) (filter (relays_wanted ?env ()) ?reqs)"
    using a by (auto simp: example_worker_env_def example_cache_request_def example_world_def list_all2_Cons1)
  then show ?thesis using a by simp
qed

definition example_db_env :: "nostr_db worker_env" where
  "example_db_env = example_worker_env \<lparr>so_query = (\<lambda>_ _. Ok []), so_persist = (\<lambda>_ _. None), so_get_relays = (\<lambda>_ _. None)\<rparr> [example_request]"

lemma example_worker_run: "worker_run (db_worker_env example_platform example_orders example_db_env) (db_accepts (we_fb example_db_env))
    (example_world empty_db) [] (example_world empty_db)"
  by (rule run_start)

text \<open>A note that the mesh persisted at time 0 is answered to a query at time 5.\<close>

abbreviation note_bytes :: bytes where
  "note_bytes \<equiv> [6, 7, 8, 9]"

lemma note_persisted:
  obtains db off where "storage_persist example_codec note_bytes empty_db = Some (db, Ok ())"
    "index_ok [(example_note ''n'' 300, off)] (db_indexes db)" "db_tombstones db = tombstones_clear"
    "sharded_get_event off (db_storage db) = Ok (Some note_bytes)"
proof -
  obtain db off where 1: "store_and_index (example_note ''n'' 300) note_bytes empty_db = Some (db, Ok ())"
    "store_ok ([] @ [(example_note ''n'' 300, off, note_bytes)]) db" "sharded_get_event off (db_storage db) = Ok (Some note_bytes)"
    using store_and_index_step [OF empty_db_ok example_accepts] by blast
  have "storage_persist example_codec note_bytes empty_db = Some (db, Ok ())"
    using 1(1) by (simp add: storage_persist_def add_worker_message_bytes_def example_codec_decodes)
  moreover have "index_ok [(example_note ''n'' 300, off)] (db_indexes db)"
    using 1(2) by (simp add: store_ok_def stored_history_def)
  moreover have "db_tombstones db = tombstones_clear"
    using 1(1) by (auto simp: store_and_index_def db_index_def empty_db_def index_event_fields_def upsert_event_record_def
        indexes_new_def apply_tombstones_to_event_def tombstones_is_empty_def tombstones_clear_def EVENT_DELETION_def example_note_def
        Let_def split: prod.splits sum.splits)
  ultimately show ?thesis using that 1(3) by blast
qed

lemma note_found:
  assumes "index_ok [(example_note ''n'' 300, off)] (db_indexes db)" "db_tombstones db = tombstones_clear"
    "sharded_get_event off (db_storage db) = Ok (Some note_bytes)"
    "filter_to_query_filter hex f = query_filter_new\<lparr>qf_kinds := Some [1], qf_limit := Some 1\<rparr>"
  shows "storage_query example_platform fb hex [f] db = Ok [note_bytes]"
proof -
  let ?h = "[(example_note ''n'' 300, off)]" and ?flt = "query_filter_new\<lparr>qf_kinds := Some [1], qf_limit := Some 1\<rparr>"
  have m: "matching_ids ?h ?flt db = {''n''}"
    using assms(2,3)
    by (auto simp: matching_ids_def latest_def matches_filter_def query_filter_new_def any_of_def example_note_def is_deleted_def
        tombstones_clear_def sharded_contains_iff_get split: if_splits)
  have "ids_unique ?h" by (simp add: ids_unique_def)
  from query_spec [OF assms(1) this example_platform_ok, of ?flt True]
  obtain res chosen rest where res: "query_events_with_filter example_platform ?flt db = Ok res"
    and ms: "mset (chosen @ rest) = {#stamp ?h ''n''#}" and one: "length chosen = 1"
    and rd: "list_all2 (\<lambda>x bs. sharded_get_event (snd x) (db_storage db) = Ok (Some bs)) chosen (qr_events res)"
    unfolding query_events_with_filter_def m by auto
  obtain c where c: "chosen = [c]" using one by (auto simp: length_Suc_conv)
  have "c = stamp ?h ''n''" using ms c by simp
  then have "qr_events res = [note_bytes]"
    using rd c assms(3) by (auto simp: list_all2_Cons1 stamp_def latest_def example_note_def)
  then have "\<exists>es. storage_query example_platform fb hex [f] db = Ok es \<and> mset es = {#note_bytes#}"
    using storage_query_perm [of example_platform fb hex "[f]" db] assms(4) res by auto
  then show ?thesis by auto
qed

lemma note_filter:
  "\<exists>f. to_filter example_hex example_tag_order (from_flatbuffer example_request) = Ok f
     \<and> filter_to_query_filter example_hex f = query_filter_new\<lparr>qf_kinds := Some [1], qf_limit := Some 1\<rparr>"
proof -
  have "example_tag_order fmempty = []" by (simp add: example_tag_order_def sorted_list_of_fset.rep_eq)
  then show ?thesis
    by (simp add: example_request_def from_flatbuffer_def or_default_def to_filter_def key_field_def filter_to_query_filter_def
        query_filter_new_def nostr_filter_new_def non_zero_def Let_def)
qed

theorem mesh_answers_fresh_witness:
  "\<exists>w w'. worker_run (db_worker_env example_platform example_orders example_db_env) (db_accepts example_codec)
       (example_world empty_db) [(True, 0, frame TAG_PERSIST note_bytes)] w
     \<and> handle_message (db_worker_env example_platform example_orders example_db_env) mesh_endpoint 5 (frame TAG_REQUEST [1]) w = Some w'
     \<and> cw_to_mesh w' = [lp_stream [note_bytes], []] \<and> cw_upstream w' = []
     \<and> list_all (mesh_answer (db_worker_env example_platform example_orders example_db_env) [(True, 0, frame TAG_PERSIST note_bytes)] 5
         (db_stored empty_db \<union> snd ` mesh_persisted [(True, 0, frame TAG_PERSIST note_bytes)])) [lp_stream [note_bytes], []]"
proof -
  let ?env = "db_worker_env example_platform example_orders example_db_env" and ?h = "[(True, 0, frame TAG_PERSIST note_bytes)]"
  have sel: "we_fb ?env = example_codec" "we_sub_id ?env = (\<lambda>_. None)" "so_persist (we_ops ?env) = storage_persist example_codec"
    "so_query (we_ops ?env) = storage_query example_platform example_codec example_hex"
    "we_hex ?env = example_hex" "we_tag_order ?env = example_tag_order" "we_response ?env = (\<lambda>_ p. p)"
    "we_request ?env = (\<lambda>_. Some (example_cache_request [example_request]))" "we_fb example_db_env = example_codec"
    by (simp_all add: db_worker_env_def example_db_env_def example_worker_env_def)
  obtain db off where db: "storage_persist example_codec note_bytes empty_db = Some (db, Ok ())"
    "index_ok [(example_note ''n'' 300, off)] (db_indexes db)" "db_tombstones db = tombstones_clear"
    "sharded_get_event off (db_storage db) = Ok (Some note_bytes)" by (rule note_persisted)
  have root: "root_worker_message example_codec note_bytes = Some (WmParsed (Some (example_parsed ''n'' 300)))"
    by (simp add: example_codec_def)
  then have i: "worker_message_event_id example_codec note_bytes = Some ''n''"
    by (simp add: worker_message_event_id_def example_parsed_def)
  have split: "split_frame (frame TAG_PERSIST note_bytes) = Some (TAG_PERSIST, note_bytes)" by (rule split_frame_frame) simp
  define w where "w = (example_world empty_db)\<lparr>cw_mesh := db, cw_ttl := observe ''n'' 0 ttl_new\<rparr>"
  have persisted: "handle_message ?env mesh_endpoint 0 (frame TAG_PERSIST note_bytes) (example_world empty_db) = Some w"
    using db(1) root i
    by (simp add: handle_message_def split handle_persist_def sel endpoint_storage_def set_storage_def after_persist_def
        notify_mesh_watches_def example_world_def w_def)
  have run: "worker_run ?env (db_accepts (we_fb example_db_env)) (example_world empty_db) ?h w"
    using run_message [OF run_start, of True "frame TAG_PERSIST note_bytes" "db_accepts (we_fb example_db_env)" "example_world empty_db" ?env 0 w]
      persisted example_accepts split
    by (simp add: endpoint_of_def sel db_accepts_def example_codec_decodes example_world_def)
  obtain f where f: "to_filter example_hex example_tag_order (from_flatbuffer example_request) = Ok f"
    "filter_to_query_filter example_hex f = query_filter_new\<lparr>qf_kinds := Some [1], qf_limit := Some 1\<rparr>"
    using note_filter by blast
  have q: "storage_query example_platform example_codec example_hex [f] db = Ok [note_bytes]"
    by (rule note_found [OF db(2-4) f(2)])
  define w' where "w' = handle_request ?env mesh_endpoint 5 [1] w"
  have h: "handle_message ?env mesh_endpoint 5 (frame TAG_REQUEST [1]) w = Some w'"
    using tags_differ by (simp add: handle_message_def example_request_frame w'_def)
  have "cw_mesh w = db" "cw_ttl w = observe ''n'' 0 ttl_new" "cw_to_mesh w = []" "cw_upstream w = []"
    by (simp_all add: w_def example_world_def)
  have flags: "\<not> nr_no_cache (from_flatbuffer example_request)" "\<not> nr_mesh_only (from_flatbuffer example_request)"
    by (simp_all add: from_flatbuffer_def example_request_def)
  have live: "retain_live example_codec 5 [note_bytes] (observe ''n'' 0 ttl_new) =
      (ttl_prune 5 (observe ''n'' 0 ttl_new), [note_bytes])"
    by (simp add: i is_live_def observe_def ttl_new_def ttl_prune_def MESH_EVENT_TTL_def)
  have "w' = w\<lparr>cw_ttl := ttl_prune 5 (observe ''n'' 0 ttl_new), cw_to_mesh := [lp_stream [note_bytes], []]\<rparr>"
    using f(1) q flags live
    by (simp add: w'_def handle_request_def sel example_cache_request_def handle_query_def register_watch_def query_request_def
        lookup_events_def endpoint_storage_def forward_requests_def send_upstream_def send_result_def w_def example_world_def
        case_prod_beta Let_def)
  then have out: "cw_to_mesh w' = [lp_stream [note_bytes], []]" "cw_upstream w' = []" by (simp_all add: w_def example_world_def)
  have inv: "db_invar example_platform (cw_mesh (example_world empty_db))"
    using empty_db_ok example_platform_ok by (auto simp: db_invar_def db_ok_def example_world_def)
  have "cw_ttl (example_world empty_db) = ttl_new" "cw_to_mesh w = []" "cw_mesh (example_world empty_db) = empty_db"
    by (simp_all add: example_world_def w_def)
  with mesh_answers_fresh [OF run inv _ h] have "list_all (mesh_answer ?env ?h 5 (db_stored empty_db \<union> snd ` mesh_persisted ?h)) (cw_to_mesh w')"
    by auto
  then show ?thesis using run [unfolded sel(9)] h out by auto
qed

theorem mesh_watches_bounded_witness:
  "fcard (fmdom (cw_watches (example_world empty_db))) \<le> 128"
  using mesh_watches_bounded [OF example_worker_run] by (simp add: example_world_def)

theorem hashtag_ignored_witness:
  "forwarded (db_worker_env example_platform example_orders example_db_env) example_db
     (example_request\<lparr>rq_tags := Some [Some [''#t'', ''bitcoin'']]\<rparr>) \<longleftrightarrow>
   forwarded (db_worker_env example_platform example_orders example_db_env) example_db example_request"
  using hashtag_ignored [of example_db_env example_request "''#t''" "[''bitcoin'']" example_platform example_orders example_db] example_tag_order_ok
  by (simp add: example_db_env_def example_worker_env_def example_request_def or_default_def tag_keys_def List.map_filter_simps hashed_def
      strip_hash_def)

end
