(* ===== verification/Frame_Utils.thy ===== *)
theory Frame_Utils
  imports Event_Json Sub_Dedup Batch_Buffer
begin

text \<open>
  The helpers around relay frames: the splitter of outgoing frames and the check of relay addresses of
  \<open>core/src/utils/mod.rs\<close>, and the worker messages built from incoming frames, after
  \<open>core/src/transport/fb_utils.rs\<close>. The incoming side is built on the scanner of \<open>Frame_Scan\<close>; the FlatBuffers
  tables it writes are records here, whose bytes are the business of a parameter. The outgoing splitter is
  a second, laxer scanner: it returns the elements of the frames that the program writes, and it slices past the end of
  a frame in which an object holds an unterminated string.
\<close>

section \<open>Splitting an outgoing frame\<close>

definition element_sep :: "u8 \<Rightarrow> bool" where
  "element_sep c = (c = 0x20 \<or> c = 0x0A \<or> c = 0x0D \<or> c = COMMA)"

definition primitive_byte :: "u8 \<Rightarrow> bool" where
  "primitive_byte c = (c \<noteq> COMMA \<and> c \<noteq> RBRACKET)"

lemma find_string_end_ge: "find_string_end bs i = Some j \<Longrightarrow> i \<le> j \<and> j < length bs \<and> bs ! j = QUOTE"
proof (induction bs i rule: find_string_end.induct)
  case (1 bs i)
  show ?case using 1 by (subst (asm) (2) find_string_end.simps) (auto split: if_splits)
qed

text \<open>
  The index after the object whose opening brace is before \<open>idx\<close>. \<open>None\<close> is an index past the end of the text,
  at which the slice of the object panics.
\<close>

function object_end :: "bytes \<Rightarrow> nat \<Rightarrow> int \<Rightarrow> nat option" where
  "object_end bs idx depth =
     (if idx < length bs \<and> depth > 0 then
        (if bs ! idx = LBRACE then object_end bs (idx + 1) (depth + 1)
         else if bs ! idx = RBRACE then object_end bs (idx + 1) (depth - 1)
         else if bs ! idx = QUOTE then
           (case find_string_end bs (idx + 1) of
              Some j \<Rightarrow> object_end bs (j + 1) depth
            | None \<Rightarrow> None)
         else object_end bs (idx + 1) depth)
      else Some idx)"
  by pat_completeness auto
termination
  by (relation "measure (\<lambda>(bs, idx, _). length bs - idx)") (auto dest!: find_string_end_ge)

declare object_end.simps [simp del]

definition extract_element :: "bytes \<Rightarrow> nat \<Rightarrow> (nat \<times> bytes option) option" where
  "extract_element bs idx =
     (if bs ! idx = QUOTE then
        (case find_string_end bs (idx + 1) of
           Some j \<Rightarrow> map_option (\<lambda>s. (j + 1, Some s)) (slice_str bs idx (j + 1))
         | None \<Rightarrow> Some (length bs, None))
      else if bs ! idx = LBRACE then
        (case object_end bs (idx + 1) 1 of
           Some j \<Rightarrow> map_option (\<lambda>s. (j, Some s)) (slice_str bs idx j)
         | None \<Rightarrow> None)
      else
        (let j = skip_while primitive_byte bs idx
         in map_option (\<lambda>s. (j, Some (trim s))) (slice_str bs idx j)))"

fun first_elements :: "nat \<Rightarrow> bytes \<Rightarrow> nat \<Rightarrow> bytes option list option" where
  "first_elements 0 bs idx = Some []"
| "first_elements (Suc n) bs idx =
     (let idx = skip_while element_sep bs idx
      in if idx \<ge> length bs \<or> bs ! idx = RBRACKET then Some []
         else
           (case extract_element bs idx of
              None \<Rightarrow> None
            | Some (idx, v) \<Rightarrow> map_option (Cons v) (first_elements n bs idx)))"

definition extract_first_three :: "bytes \<Rightarrow> bytes option list option option" where
  "extract_first_three bs =
     (if bs = [] \<or> hd bs \<noteq> LBRACKET then Some None
      else map_option (\<lambda>vs. Some (vs @ replicate (3 - length vs) None)) (first_elements 3 bs 1))"

text \<open>\<open>str::trim_matches('"')\<close>.\<close>

definition trim_quotes :: "bytes \<Rightarrow> bytes" where
  "trim_quotes s = rev (dropWhile (\<lambda>c. c = QUOTE) (rev (dropWhile (\<lambda>c. c = QUOTE) s)))"

section \<open>Addresses of relays\<close>

definition validate_relay_url :: "bytes \<Rightarrow> parser_error + unit" where
  "validate_relay_url url =
     (if url = [] then Err (InvalidFormat ''URL cannot be empty'')
      else if \<not> starts_with url (ascii ''ws://'') \<and> \<not> starts_with url (ascii ''wss://'')
      then Err (InvalidFormat ''URL must start with ws:// or wss://'')
      else Ok ())"

text \<open>The lower-casing of Unicode texts is a parameter.\<close>

definition normalize_relay_url :: "(bytes \<Rightarrow> bytes) \<Rightarrow> bytes \<Rightarrow> bytes" where
  "normalize_relay_url to_lowercase url =
     (let n = to_lowercase (trim url)
      in if n \<noteq> [] \<and> List.last n = 0x2F \<and> length n > 1 then butlast n else n)"

section \<open>Messages for the parser\<close>

record relay_response =
  rr_kind :: bytes
  rr_sub_id :: "bytes option"
  rr_raw_payload :: "bytes option"
  rr_is_eose :: bool
  rr_success :: bool

datatype relay_content =
    RcStatus (rc_relay_url: bytes) (rc_status: bytes) (rc_message: "bytes option")
  | RcRaw (rc_raw: bytes)
  | RcEoce bytes

record relay_message =
  rm_sub_id :: "bytes option"
  rm_url :: "bytes option"
  rm_content :: relay_content

text \<open>The inner text of an argument, or a panic.\<close>

definition arg_inner :: "scanned_frame \<Rightarrow> nat \<Rightarrow> bytes option option" where
  "arg_inner scan i = (case sf_args scan ! i of None \<Rightarrow> Some None | Some v \<Rightarrow> map_option Some (inner v))"

definition string_arg :: "scanned_frame \<Rightarrow> nat \<Rightarrow> bytes option option" where
  "string_arg scan i =
     (case sf_args scan ! i of
        None \<Rightarrow> Some None
      | Some v \<Rightarrow> if sv_is_string v then map_option Some (inner v) else Some None)"

definition parse_ok_status_reason :: "searcher \<Rightarrow> bytes \<Rightarrow> (bytes \<times> bytes option) option" where
  "parse_ok_status_reason m raw_msg =
     (case scan_relay_frame m raw_msg of
        None \<Rightarrow> None
      | Some None \<Rightarrow> Some (ascii ''false'', None)
      | Some (Some scan) \<Rightarrow>
          (case (arg_inner scan 1, arg_inner scan 2) of
             (Some accepted, Some reason) \<Rightarrow>
               Some (case accepted of Some a \<Rightarrow> a | None \<Rightarrow> ascii ''false'', reason)
           | _ \<Rightarrow> None))"

definition sub_kinds :: "bytes list" where
  "sub_kinds = map ascii [''EVENT'', ''EOSE'', ''OK'', ''CLOSED'']"

definition response_payload :: "scanned_frame \<Rightarrow> bytes option option" where
  "response_payload scan =
     (let k = sf_kind scan
      in if k = ascii ''EVENT'' \<or> k = ascii ''CLOSED'' then Some (map_option sv_raw (sf_args scan ! 1))
         else if k = ascii ''OK'' then arg_inner scan 1
         else if k = ascii ''NOTICE'' \<or> k = ascii ''AUTH'' then arg_inner scan 0
         else Some None)"

definition raw_is :: "scanned_value \<Rightarrow> string \<Rightarrow> bool" where
  "raw_is v s = (\<not> sv_is_string v \<and> sv_raw v = ascii s)"

definition response_success :: "scanned_frame \<Rightarrow> bool option" where
  "response_success scan =
     (if sf_kind scan \<noteq> ascii ''OK'' then Some False
      else
        (let fourth = (case sf_args scan ! 2 of Some f \<Rightarrow> raw_is f ''true'' | None \<Rightarrow> False)
         in case sf_args scan ! 1 of
              None \<Rightarrow> Some fourth
            | Some t \<Rightarrow>
                (if raw_is t ''true'' then Some True
                 else if raw_is t ''false'' then Some False
                 else if sv_is_string t then
                   map_option (\<lambda>s. s \<in> set (map ascii [''SUBSCRIBED'', ''SENT'', ''CLOSED'', ''OK''])) (inner t)
                 else Some fourth)))"

definition parse_relay_response :: "searcher \<Rightarrow> bytes \<Rightarrow> relay_response option option" where
  "parse_relay_response m raw_msg =
     (case scan_relay_frame m raw_msg of
        None \<Rightarrow> None
      | Some None \<Rightarrow> Some None
      | Some (Some scan) \<Rightarrow>
          (case (if sf_kind scan \<in> set sub_kinds then string_arg scan 0 else Some None,
                 response_payload scan, response_success scan) of
             (Some sub_id, Some payload, Some ok) \<Rightarrow>
               Some (Some \<lparr>rr_kind = sf_kind scan, rr_sub_id = sub_id, rr_raw_payload = payload,
                           rr_is_eose = (sf_kind scan = ascii ''EOSE''), rr_success = ok\<rparr>)
           | _ \<Rightarrow> None))"

definition status_kinds :: "bytes list" where
  "status_kinds = map ascii [''NOTICE'', ''AUTH'', ''CLOSED'', ''EOSE'', ''OK'']"

definition relay_worker_message :: "searcher \<Rightarrow> bytes \<Rightarrow> bytes \<Rightarrow> bytes \<Rightarrow> relay_message option" where
  "relay_worker_message m sub_id url raw_line =
     (case parse_relay_response m raw_line of
        None \<Rightarrow> None
      | Some parsed \<Rightarrow>
          (let kind = (case parsed of Some r \<Rightarrow> rr_kind r | None \<Rightarrow> ascii ''RAW'');
               payload = (case parsed of Some r \<Rightarrow> rr_raw_payload r | None \<Rightarrow> None);
               message = (\<lambda>c. \<lparr>rm_sub_id = Some sub_id, rm_url = Some url, rm_content = c\<rparr>)
           in if kind \<in> set status_kinds then
                (if kind = ascii ''OK''
                 then map_option (\<lambda>(st, reason). message (RcStatus url st reason)) (parse_ok_status_reason m raw_line)
                 else Some (message (RcStatus url kind payload)))
              else Some (message (RcRaw (case payload of Some p \<Rightarrow> p | None \<Rightarrow> raw_line)))))"

definition connection_status_message :: "bytes \<Rightarrow> bytes \<Rightarrow> bytes \<Rightarrow> relay_message" where
  "connection_status_message url status message =
     \<lparr>rm_sub_id = None, rm_url = Some url,
      rm_content = RcStatus url status (if message = [] then None else Some message)\<rparr>"

definition eoce_message :: relay_message where
  "eoce_message = \<lparr>rm_sub_id = None, rm_url = None, rm_content = RcEoce []\<rparr>"

section \<open>Incoming frames never panic\<close>

definition values_ok :: "scanned_frame \<Rightarrow> bool" where
  "values_ok scan = (length (sf_args scan) = 3 \<and> (\<forall>v. Some v \<in> set (sf_args scan) \<longrightarrow> inner v \<noteq> None))"

lemma scan_values_ok:
  assumes "searcher_ok m" "utf8_valid line"
  shows "scan_relay_frame m line = Some None \<or> (\<exists>scan. scan_relay_frame m line = Some (Some scan) \<and> values_ok scan)"
  using scan_relay_frame_total [OF assms] by (auto simp: values_ok_def) (metis not_None_eq option.exhaust)

lemma value_inner: "values_ok scan \<Longrightarrow> i < 3 \<Longrightarrow> sf_args scan ! i = Some v \<Longrightarrow> inner v \<noteq> None"
  unfolding values_ok_def by (metis nth_mem)

lemma arg_total:
  assumes "values_ok scan" "i < 3"
  shows "\<exists>r. arg_inner scan i = Some r" "\<exists>r. string_arg scan i = Some r"
  using value_inner [OF assms] by (auto simp: arg_inner_def string_arg_def split: option.split)

lemma response_total:
  assumes "values_ok scan"
  shows "\<exists>r. response_payload scan = Some r" "\<exists>r. response_success scan = Some r"
  using arg_total(1) [OF assms, of 0] arg_total(1) [OF assms, of 1] value_inner [OF assms, of 1]
  by (auto simp: response_payload_def response_success_def Let_def split: option.split)

lemma parse_ok_total:
  assumes "searcher_ok m" "utf8_valid line"
  shows "\<exists>r. parse_ok_status_reason m line = Some r"
  using scan_values_ok [OF assms]
proof (elim disjE exE conjE)
  fix scan
  assume s: "scan_relay_frame m line = Some (Some scan)" "values_ok scan"
  obtain a b where "arg_inner scan 1 = Some a" "arg_inner scan 2 = Some b" using arg_total(1) [OF s(2)] by fastforce
  then show ?thesis using s(1) by (simp add: parse_ok_status_reason_def)
qed (simp add: parse_ok_status_reason_def)

lemma parse_relay_response_total:
  assumes "searcher_ok m" "utf8_valid line"
  shows "\<exists>r. parse_relay_response m line = Some r"
  using scan_values_ok [OF assms]
proof (elim disjE exE conjE)
  fix scan
  assume s: "scan_relay_frame m line = Some (Some scan)" "values_ok scan"
  obtain a where "string_arg scan 0 = Some a" using arg_total(2) [OF s(2), of 0] by auto
  moreover obtain b c where "response_payload scan = Some b" "response_success scan = Some c" using response_total [OF s(2)] by blast
  ultimately show ?thesis using s(1) by (simp add: parse_relay_response_def)
qed (simp add: parse_relay_response_def)

lemma relay_worker_message_total:
  assumes "searcher_ok m" "utf8_valid line"
  shows "\<exists>r. relay_worker_message m sub_id url line = Some r"
  using parse_ok_total [OF assms] parse_relay_response_total [OF assms]
  by (auto simp: relay_worker_message_def Let_def)

section \<open>Outgoing frames\<close>

lemma find_string_end_none:
  "list_all (\<lambda>c. c \<noteq> QUOTE) s \<Longrightarrow> find_string_end (pre @ s) (length pre + k) = None"
proof (induction "length s - k" arbitrary: k rule: less_induct)
  case less
  show ?case
  proof (cases "k < length s")
    case True
    then have "s ! k \<noteq> QUOTE" using less.prems by (simp add: list_all_length)
    then show ?thesis
      using True less.hyps [of "k + 1"] less.hyps [of "k + 2"] less.prems
      by (subst find_string_end.simps) (auto simp: nth_append add.assoc)
  qed (subst find_string_end.simps, simp)
qed

lemma object_panics:
  assumes "list_all (\<lambda>c. c \<noteq> QUOTE) s"
  shows "extract_first_three (ascii ''[\"EVENT\",{\"'' @ s) = None"
proof -
  let ?bs = "ascii ''[\"EVENT\",{\"'' @ s"
  have eq: "?bs = ascii ''[\"'' @ ascii ''EVENT'' @ QUOTE # ascii '',{\"'' @ s" and len: "length (ascii ''[\"'') = 2" "length (ascii ''EVENT'') = 5" and len3: "length (ascii ''[\"EVENT\",{\"'') = 11"
    and plain: "list_all (\<lambda>c. c \<noteq> QUOTE \<and> c \<noteq> BACKSLASH) (ascii ''EVENT'')"
    by (simp_all add: ascii_def)
  have f: "find_string_end ?bs 2 = Some 7" using find_string_end_text [OF plain, of "ascii ''[\"''" "ascii '',{\"'' @ s"]
    unfolding eq by (simp only: len) simp
  have n: "find_string_end ?bs 11 = None"
    using find_string_end_none [OF assms, of "ascii ''[\"EVENT\",{\"''" 0] by (simp only: len3 add_0_right)
  have nth: "?bs ! 1 = QUOTE" "?bs ! 8 = COMMA" "?bs ! 9 = LBRACE" "?bs ! 10 = QUOTE" "length ?bs > 10"
    by (simp_all add: ascii_def)
  have s1: "slice_str ?bs 1 8 = Some (ascii ''\"EVENT\"'')" by (simp add: slice_str_def is_char_boundary_def subslice_def ascii_def)
  have stop: "skip_while P bs i = i" if "i < length bs" "\<not> P (bs ! i)" for P i and bs :: bytes
    using that by (subst skip_while.simps) simp
  have w1: "skip_while element_sep ?bs 1 = 1" by (rule stop) (use nth in \<open>simp_all add: element_sep_def\<close>)
  have "skip_while element_sep ?bs 9 = 9" by (rule stop) (use nth in \<open>simp_all add: element_sep_def\<close>)
  moreover have "skip_while element_sep ?bs 8 = skip_while element_sep ?bs (8 + 1)"
    using nth by (subst skip_while.simps) (simp add: element_sep_def)
  ultimately have w8: "skip_while element_sep ?bs 8 = 9" by simp
  have "extract_element ?bs 1 = Some (8, Some (ascii ''\"EVENT\"''))"
    using f s1 nth by (simp add: extract_element_def flip: numeral_2_eq_2)
  moreover have "object_end ?bs 10 1 = None" using n nth by (subst object_end.simps) simp
  then have "extract_element ?bs 9 = None" using nth by (simp add: extract_element_def)
  ultimately have "first_elements 3 ?bs 1 = None"
    using w1 w8 nth by (simp add: numeral_3_eq_3 Let_def del: One_nat_def)
  then show ?thesis by (simp add: extract_first_three_def) (simp add: ascii_def)
qed

end
