(* ===== verification/Relay_Connection.thy ===== *)
theory Relay_Connection
  imports Frame_Utils
begin

text \<open>
  One relay connection, after \<open>core/src/transport/connection.rs\<close> and \<open>core/src/transport/types.rs\<close>. The connection is a record; what its methods do to
  the outside (writing to the parser, reporting a status, asking the crypto worker for a signature, using the
  transport) is the list of effects they return. The methods that await are cut at their awaits: the queue
  drainer, the initial connect and the wake task are small machines whose program counters are part of the
  state, so that every interleaving of their steps with the callbacks of the transport and with the callers of
  the connection is a run. The clock is an argument of each step. The bounded channel of the \<open>futures\<close> crate, the
  JSON text of a signing request and the order of the hash map are parameters. A panic is \<open>None\<close>.

  The theory shows: subscriptions and stored requests agree in every reachable state; the transport is
  opened only outside the cool-down, which grows from thirty seconds to thirty minutes; the NIP-42 states
  follow their diagram and a request sent before authentication is replayed after it; and, as the code is,
  a failed first connect leaves the frames in the queue, a challenge after another first answer is ignored,
  and a reconnect of the drainer does not renew the subscriptions.
\<close>

section \<open>Types\<close>

datatype connection_status = Disconnected | Connecting | Connected | Failed | Closed

definition is_connected :: "connection_status \<Rightarrow> bool" where
  "is_connected s = (s = Connected)"

definition can_reconnect :: "connection_status \<Rightarrow> bool" where
  "can_reconnect s = (s = Disconnected \<or> s = Failed \<or> s = Closed)"

datatype auth_state = AuthUnknown | AuthRequired bytes | AuthPending | Authenticated | AuthFailed

datatype relay_error =
    WebSocketError bytes | ConnectionError bytes | InvalidUrl parser_error | Timeout | Cancelled
  | SubscriptionNotFound bytes | PublishNotFound bytes | ConnectionClosed | QueueFull | InvalidMessage
  | RelayRejected bytes | ProtocolError bytes

datatype transport_status = TransportConnected bytes | TransportFailed bytes | TransportClosed bytes

text \<open>The answers of the channel to a frame.\<close>

datatype admission = Admitted | Full | Hung_Up

record relay_env =
  ye_searcher :: searcher
  ye_channel :: "bytes list \<Rightarrow> admission"
  ye_auth_payload :: "bytes \<Rightarrow> bytes \<Rightarrow> nat \<Rightarrow> bytes"
  ye_order :: "(bytes, bytes list) fmap \<Rightarrow> bytes list"

record signer_request =
  sq_request_id :: u64
  sq_payload :: bytes

datatype relay_effect =
    Out bytes bytes bytes
  | Report string bytes
  | Crypto signer_request
  | Open
  | Disconnect
  | Transmit bytes

record relay_connection =
  rl_url :: bytes
  rl_status :: connection_status
  connected_at :: "nat option"
  active_subs :: "bytes fset"
  active_reqs :: "(bytes, bytes list) fmap"
  backoff_attempts :: u32
  next_retry_at_ms :: nat
  connection_confirmed :: bool
  wake_in_flight :: bool
  queue_open :: bool
  queue :: "bytes list"
  receiver_taken :: bool
  pending_frames :: nat
  rl_auth :: auth_state
  pre_auth_queue :: "bytes list"
  next_auth_id :: u64

definition relay_connection_new :: "bytes \<Rightarrow> relay_connection" where
  "relay_connection_new url =
     \<lparr>rl_url = url, rl_status = Connecting, connected_at = None, active_subs = {||}, active_reqs = fmempty,
      backoff_attempts = 0, next_retry_at_ms = 0, connection_confirmed = False, wake_in_flight = False,
      queue_open = True, queue = [], receiver_taken = False, pending_frames = 0, rl_auth = AuthUnknown,
      pre_auth_queue = [], next_auth_id = 1\<rparr>"

section \<open>Back-off\<close>

definition RECONNECT_RETRY_BASE_DELAY_MS :: nat where
  "RECONNECT_RETRY_BASE_DELAY_MS = 30000"

definition RECONNECT_RETRY_MAX_DELAY_MS :: nat where
  "RECONNECT_RETRY_MAX_DELAY_MS = 30 * 60000"

definition HEALTHY_RETRY_DELAYS_MS :: "nat list" where
  "HEALTHY_RETRY_DELAYS_MS = [200, 800, 2000]"

definition COLD_START_RETRY_DELAYS_MS :: "nat list" where
  "COLD_START_RETRY_DELAYS_MS = [200]"

definition AUTH_REQUEST_ID_MASK :: u64 where
  "AUTH_REQUEST_ID_MASK = 0x8000000000000000"

definition clear_backoff :: "relay_connection \<Rightarrow> relay_connection" where
  "clear_backoff c = c\<lparr>backoff_attempts := 0, next_retry_at_ms := 0\<rparr>"

definition clear_retry_deadline :: "relay_connection \<Rightarrow> relay_connection" where
  "clear_retry_deadline c = c\<lparr>next_retry_at_ms := 0\<rparr>"

definition should_delay_reconnect :: "nat \<Rightarrow> relay_connection \<Rightarrow> bool" where
  "should_delay_reconnect now c = (now < next_retry_at_ms c)"

definition saturating_inc :: "u32 \<Rightarrow> u32" where
  "saturating_inc a = (if a = - 1 then a else a + 1)"

definition backoff_delay :: "u32 \<Rightarrow> nat" where
  "backoff_delay attempt =
     min (RECONNECT_RETRY_BASE_DELAY_MS * 2 ^ min (unat attempt - 1) 6) RECONNECT_RETRY_MAX_DELAY_MS"

definition schedule_reconnect_backoff :: "nat \<Rightarrow> relay_connection \<Rightarrow> relay_connection" where
  "schedule_reconnect_backoff now c =
     (let attempt = saturating_inc (backoff_attempts c)
      in c\<lparr>backoff_attempts := attempt, next_retry_at_ms := now + backoff_delay attempt\<rparr>)"

definition confirm_connection :: "relay_connection \<Rightarrow> relay_connection" where
  "confirm_connection c = clear_backoff (c\<lparr>connection_confirmed := True\<rparr>)"

section \<open>Closing\<close>

definition conn_close :: "relay_connection \<Rightarrow> relay_connection \<times> relay_effect list" where
  "conn_close c =
     ((clear_backoff (c\<lparr>rl_status := Closed, connection_confirmed := False\<rparr>))
        \<lparr>pre_auth_queue := [], rl_auth := AuthUnknown\<rparr>,
      [Disconnect, Report ''close'' (rl_url c)])"

section \<open>Sending\<close>

definition send_raw :: "relay_env \<Rightarrow> bytes \<Rightarrow> relay_connection \<Rightarrow> relay_connection \<times> (relay_error + unit)" where
  "send_raw env frame c =
     (if \<not> queue_open c then (c, Err ConnectionClosed)
      else
        (case ye_channel env (queue c) of
           Admitted \<Rightarrow> (c\<lparr>queue := queue c @ [frame], pending_frames := pending_frames c + 1\<rparr>, Ok ())
         | Full \<Rightarrow> (c, Err QueueFull)
         | Hung_Up \<Rightarrow> (c, Err ConnectionClosed)))"

definition shadow_pre_auth_req :: "bytes \<Rightarrow> relay_connection \<Rightarrow> relay_connection" where
  "shadow_pre_auth_req frame c =
     (let shadow = (case rl_auth c of AuthUnknown \<Rightarrow> True | AuthRequired _ \<Rightarrow> True | AuthPending \<Rightarrow> True | _ \<Rightarrow> False)
      in if shadow \<and> frame \<notin> set (pre_auth_queue c)
         then c\<lparr>pre_auth_queue := pre_auth_queue c @ [frame]\<rparr> else c)"

definition ok_frame :: "bytes \<Rightarrow> string \<Rightarrow> bytes" where
  "ok_frame key s = ascii ''[\"OK\",\"'' @ key @ ascii ''\",\"'' @ ascii s @ ascii ''\"]''"

text \<open>The search for the id of a published event.\<close>

definition sent_event_id :: "bytes \<Rightarrow> bytes option" where
  "sent_event_id event_obj =
     (case find_str (ascii ''\"id\"'') event_obj of
        None \<Rightarrow> None
      | Some pos \<Rightarrow>
          (case find_byte 0x3A (drop pos event_obj) of
             None \<Rightarrow> None
           | Some colon \<Rightarrow>
               (let rest = strip white_space (drop (pos + colon + 1) event_obj)
                in if starts_with rest [QUOTE] then
                     (case find_byte QUOTE (drop 1 rest) of
                        None \<Rightarrow> None
                      | Some endq \<Rightarrow>
                          (let key = take endq (drop 1 rest) in if key = [] then None else Some key))
                   else None)))"

definition close_sent :: "bytes \<Rightarrow> relay_connection \<Rightarrow> relay_connection \<times> relay_effect list" where
  "close_sent sub c =
     (let c = c\<lparr>active_subs := active_subs c |-| {|sub|}\<rparr>;
          (c, eff) = (if active_subs c = {||} then conn_close c else (c, []));
          c = c\<lparr>active_reqs := fmdrop sub (active_reqs c)\<rparr>
      in (c, eff @ [Out (rl_url c) sub (ok_frame sub ''CLOSED'')]))"

definition req_sent :: "bytes \<Rightarrow> bytes \<Rightarrow> relay_connection \<Rightarrow> relay_connection \<times> relay_effect list" where
  "req_sent frame sub c =
     (let c = shadow_pre_auth_req frame c;
          c = c\<lparr>active_subs := finsert sub (active_subs c)\<rparr>;
          frames = (case fmlookup (active_reqs c) sub of Some fs \<Rightarrow> fs | None \<Rightarrow> []);
          frames = (if frame \<in> set frames then frames else frames @ [frame]);
          c = c\<lparr>active_reqs := fmupd sub frames (active_reqs c)\<rparr>
      in (c, [Out (rl_url c) sub (ok_frame sub ''SUBSCRIBED'')]))"

definition event_sent :: "bytes \<Rightarrow> relay_connection \<Rightarrow> relay_effect list" where
  "event_sent event_obj c =
     (case sent_event_id event_obj of
        Some key \<Rightarrow> [Out (rl_url c) key (ok_frame key ''SENT'')]
      | None \<Rightarrow> [])"

text \<open>What follows a successful transmission in \<open>send_raw_internal\<close>.\<close>

definition sent_parts :: "bytes \<Rightarrow> (bytes \<times> bytes) option option" where
  "sent_parts frame =
     map_option
       (\<lambda>parts. case parts of
          None \<Rightarrow> None
        | Some ps \<Rightarrow>
            (case (ps ! 0, ps ! 1) of
               (Some kind_raw, Some arg) \<Rightarrow> Some (trim_quotes kind_raw, arg)
             | _ \<Rightarrow> None))
       (extract_first_three frame)"

definition frame_sent :: "bytes \<Rightarrow> relay_connection \<Rightarrow> (relay_connection \<times> relay_effect list) option" where
  "frame_sent frame c =
     (let c = confirm_connection c
      in case sent_parts frame of
           None \<Rightarrow> None
         | Some None \<Rightarrow> Some (c, [])
         | Some (Some (k, arg)) \<Rightarrow>
             (if k = ascii ''CLOSE'' then Some (close_sent (trim_quotes arg) c)
              else if k = ascii ''REQ'' then Some (req_sent frame (trim_quotes arg) c)
              else if k = ascii ''EVENT'' then Some (c, event_sent arg c)
              else Some (c, [])))"

definition close_sub :: "relay_env \<Rightarrow> bytes \<Rightarrow> relay_connection \<Rightarrow> relay_connection \<times> bool" where
  "close_sub env sub c =
     (if sub |\<notin>| active_subs c then (c, False)
      else
        (let c = c\<lparr>active_subs := active_subs c |-| {|sub|}, active_reqs := fmdrop sub (active_reqs c)\<rparr>;
             (c, _) = send_raw env (ascii ''[\"CLOSE\",\"'' @ sub @ ascii ''\"]'') c
         in (c, True)))"

section \<open>Connecting\<close>

text \<open>\<open>connect\<close> up to the await of the transport, and after it.\<close>

definition connect_begin :: "nat \<Rightarrow> relay_connection \<Rightarrow> relay_connection \<times> relay_effect list \<times> (relay_error + unit)" where
  "connect_begin now c =
     (if should_delay_reconnect now c then (c, [], Err ConnectionClosed)
      else
        (let c = c\<lparr>rl_status := Connecting, connection_confirmed := False\<rparr>
         in case validate_relay_url (rl_url c) of
              Err e \<Rightarrow> (c, [Report ''connecting'' (rl_url c)], Err (InvalidUrl e))
            | Ok _ \<Rightarrow> (c, [Report ''connecting'' (rl_url c), Open], Ok ())))"

definition connect_end ::
  "nat \<Rightarrow> bytes + unit \<Rightarrow> relay_connection \<Rightarrow> relay_connection \<times> relay_effect list \<times> (relay_error + unit)" where
  "connect_end now opened c =
     (case opened of
        Err e \<Rightarrow>
          (schedule_reconnect_backoff now (c\<lparr>rl_status := Failed\<rparr>), [Report ''failed'' (rl_url c)],
           Err (ConnectionError e))
      | Ok _ \<Rightarrow>
          (c\<lparr>rl_status := Connected, connected_at := Some now, rl_auth := AuthUnknown, receiver_taken := True\<rparr>,
           [Report ''connected'' (rl_url c)], Ok ()))"

section \<open>Authentication\<close>

definition request_auth_signature ::
  "relay_env \<Rightarrow> nat \<Rightarrow> bytes \<Rightarrow> relay_connection \<Rightarrow> relay_connection \<times> relay_effect list" where
  "request_auth_signature env now challenge c =
     (c\<lparr>next_auth_id := next_auth_id c + 1\<rparr>,
      [Crypto \<lparr>sq_request_id = next_auth_id c OR AUTH_REQUEST_ID_MASK,
               sq_payload = ye_auth_payload env challenge (rl_url c) (now div 1000)\<rparr>])"

fun enqueue_all :: "relay_env \<Rightarrow> bytes list \<Rightarrow> relay_connection \<Rightarrow> relay_connection" where
  "enqueue_all env [] c = c"
| "enqueue_all env (f # fs) c = enqueue_all env fs (fst (send_raw env f c))"

definition set_authenticated :: "relay_env \<Rightarrow> relay_connection \<Rightarrow> relay_connection" where
  "set_authenticated env c =
     (let old_state = rl_auth c;
          shadow_frames = pre_auth_queue c;
          c = c\<lparr>rl_auth := Authenticated, pre_auth_queue := []\<rparr>
      in if old_state = AuthPending then enqueue_all env shadow_frames c else c)"

definition auth_accepted :: "bytes \<Rightarrow> bool" where
  "auth_accepted content =
     (starts_with (strip white_space content) (ascii ''true'') \<or> trim content = ascii ''\"true\"'')"

definition handle_first_response ::
  "relay_env \<Rightarrow> nat \<Rightarrow> bytes \<Rightarrow> bytes \<Rightarrow> relay_connection \<Rightarrow> relay_connection \<times> relay_effect list" where
  "handle_first_response env now kind content c =
     (if rl_auth c \<noteq> AuthUnknown then
        (if rl_auth c = AuthPending \<and> kind = ascii ''OK'' \<and> auth_accepted content
         then (set_authenticated env c, []) else (c, []))
      else if kind = ascii ''AUTH'' then
        (let challenge = trim_quotes content
         in request_auth_signature env now challenge (c\<lparr>rl_auth := AuthRequired challenge\<rparr>))
      else (set_authenticated env c, []))"

definition handle_signed_auth :: "relay_env \<Rightarrow> bytes \<Rightarrow> relay_connection \<Rightarrow> relay_connection" where
  "handle_signed_auth env signed_event_json c =
     (let (c, _) = send_raw env (ascii ''[\"AUTH\",'' @ signed_event_json @ ascii '']'') c
      in c\<lparr>rl_auth := AuthPending\<rparr>)"

section \<open>The callbacks of the transport\<close>

fun join_comma :: "bytes list \<Rightarrow> bytes" where
  "join_comma [] = []"
| "join_comma [a] = a"
| "join_comma (a # as) = a @ COMMA # join_comma as"

definition parse_incoming_relay_text ::
  "searcher \<Rightarrow> bytes \<Rightarrow> (bytes \<times> bytes option \<times> bytes option) option option" where
  "parse_incoming_relay_text m line =
     (case scan_relay_frame m line of
        None \<Rightarrow> None
      | Some None \<Rightarrow> Some None
      | Some (Some scan) \<Rightarrow>
          (let kind = sf_kind scan;
               content =
                 (if kind = ascii ''AUTH'' \<or> kind = ascii ''NOTICE'' then arg_inner scan 0
                  else if kind = ascii ''OK'' then
                    (let parts = map sv_raw (List.map_filter (\<lambda>i. sf_args scan ! i) [1, 2])
                     in Some (if parts = [] then None else Some (join_comma parts)))
                  else Some None)
           in case (if kind \<in> set sub_kinds then string_arg scan 0 else Some None, content) of
                (Some sub_id, Some content) \<Rightarrow> Some (Some (kind, sub_id, content))
              | _ \<Rightarrow> None))"

definition closed_by_relay :: "bytes \<Rightarrow> bytes option \<Rightarrow> relay_connection \<Rightarrow> relay_connection" where
  "closed_by_relay kind sub_id c =
     (case sub_id of
        Some s \<Rightarrow>
          (if kind = ascii ''CLOSED''
           then c\<lparr>active_subs := active_subs c |-| {|s|}, active_reqs := fmdrop s (active_reqs c)\<rparr> else c)
      | None \<Rightarrow> c)"

definition handle_incoming_message ::
  "relay_env \<Rightarrow> nat \<Rightarrow> bytes \<Rightarrow> relay_connection \<Rightarrow> (relay_connection \<times> relay_effect list) option" where
  "handle_incoming_message env now line c =
     (let c = confirm_connection c
      in case parse_incoming_relay_text (ye_searcher env) line of
           None \<Rightarrow> None
         | Some None \<Rightarrow> Some (c, [])
         | Some (Some (kind, sub_id, content)) \<Rightarrow>
             (let c = closed_by_relay kind sub_id c;
                  (c, eff) = handle_first_response env now kind (case content of Some t \<Rightarrow> t | None \<Rightarrow> []) c;
                  route = (case sub_id of Some s \<Rightarrow> s | None \<Rightarrow> [])
              in Some (c, eff @ [Out (rl_url c) route line])))"

definition transport_lost ::
  "nat \<Rightarrow> auth_state \<Rightarrow> bytes \<Rightarrow> relay_connection \<Rightarrow> relay_connection \<times> relay_effect list" where
  "transport_lost now auth url c =
     (if rl_status c \<in> {Closed, Connecting, Failed} then (c, [])
      else
        ((schedule_reconnect_backoff now (c\<lparr>rl_status := Failed, connection_confirmed := False\<rparr>))
           \<lparr>pre_auth_queue := [], rl_auth := auth\<rparr>,
         [Report ''failed'' url]))"

fun handle_transport_status ::
  "nat \<Rightarrow> transport_status \<Rightarrow> relay_connection \<Rightarrow> relay_connection \<times> relay_effect list" where
  "handle_transport_status now (TransportFailed url) c = transport_lost now AuthFailed url c"
| "handle_transport_status now (TransportClosed url) c = transport_lost now AuthUnknown url c"
| "handle_transport_status now (TransportConnected url) c =
     (c\<lparr>rl_status := Connected\<rparr>, [Report ''connected'' url])"

definition has_recovery_work :: "relay_connection \<Rightarrow> bool" where
  "has_recovery_work c = (active_reqs c \<noteq> fmempty \<or> pending_frames c > 0)"

section \<open>The tasks\<close>

text \<open>
  The drainer is started by the first successful connect. It awaits a frame, the transmission of a frame,
  the opening of the transport, or the delay before a staged attempt. The flag of a frame in flight says
  whether the connection was confirmed when the frame was taken.
\<close>

datatype attempt = Direct | First | Staged nat

datatype drainer =
    Not_Started
  | Waiting
  | Sending bytes bool attempt
  | Reconnecting bytes bool attempt
  | Sleeping bytes bool nat

datatype starter = Start | Starting | Started

datatype waker = Idle | Woken "bytes list" | Waking "bytes list"

record relay_system =
  y_conn :: relay_connection
  y_start :: starter
  y_drain :: drainer
  y_wake :: waker

definition relay_system_new :: "bytes \<Rightarrow> relay_system" where
  "relay_system_new url =
     \<lparr>y_conn = relay_connection_new url, y_start = Start, y_drain = Not_Started, y_wake = Idle\<rparr>"

definition retry_delays :: "bool \<Rightarrow> nat list" where
  "retry_delays was_connected = (if was_connected then HEALTHY_RETRY_DELAYS_MS else COLD_START_RETRY_DELAYS_MS)"

text \<open>The head of the loop over the delays at index \<open>i\<close>, and what follows the loop.\<close>

definition staged :: "nat \<Rightarrow> bytes \<Rightarrow> bool \<Rightarrow> nat \<Rightarrow> relay_connection \<Rightarrow> relay_connection \<times> drainer" where
  "staged now frame was i c =
     (if i < length (retry_delays was) then (clear_retry_deadline c, Sleeping frame was i)
      else (if should_delay_reconnect now c then c else schedule_reconnect_backoff now c, Waiting))"

fun next_stage :: "attempt \<Rightarrow> nat" where
  "next_stage Direct = 0"
| "next_stage First = 0"
| "next_stage (Staged i) = i + 1"

definition drain_connect ::
  "nat \<Rightarrow> bytes \<Rightarrow> bool \<Rightarrow> attempt \<Rightarrow> relay_connection \<Rightarrow> relay_connection \<times> drainer \<times> relay_effect list" where
  "drain_connect now frame was a c =
     (case connect_begin now c of
        (c, eff, Ok _) \<Rightarrow> (c, Reconnecting frame was a, eff)
      | (c, eff, Err _) \<Rightarrow> (let (c, d) = staged now frame was (next_stage a) c in (c, d, eff)))"

definition drain_take :: "nat \<Rightarrow> relay_connection \<Rightarrow> relay_connection \<times> drainer \<times> relay_effect list" where
  "drain_take now c =
     (case queue c of
        [] \<Rightarrow> (c, Waiting, [])
      | frame # rest \<Rightarrow>
          (let c = c\<lparr>queue := rest, pending_frames := pending_frames c - 1\<rparr>
           in if now < next_retry_at_ms c then (c, Waiting, [])
              else (c, Sending frame (connection_confirmed c) Direct, [Transmit frame])))"

definition drain_sent ::
  "nat \<Rightarrow> bytes + unit \<Rightarrow> bytes \<Rightarrow> bool \<Rightarrow> attempt \<Rightarrow> relay_connection
     \<Rightarrow> (relay_connection \<times> drainer \<times> relay_effect list) option" where
  "drain_sent now result frame was a c =
     (case result of
        Ok _ \<Rightarrow> map_option (\<lambda>(c, eff). (c, Waiting, eff)) (frame_sent frame c)
      | Err _ \<Rightarrow>
          Some (if a = Direct then drain_connect now frame was First c
                else (let (c, d) = staged now frame was (next_stage a) c in (c, d, []))))"

definition drain_opened ::
  "nat \<Rightarrow> bytes + unit \<Rightarrow> bytes \<Rightarrow> bool \<Rightarrow> attempt \<Rightarrow> relay_connection
     \<Rightarrow> relay_connection \<times> drainer \<times> relay_effect list" where
  "drain_opened now result frame was a c =
     (case connect_end now result c of
        (c, eff, Ok _) \<Rightarrow> (c, Sending frame was a, eff @ [Transmit frame])
      | (c, eff, Err _) \<Rightarrow> (let (c, d) = staged now frame was (next_stage a) c in (c, d, eff)))"

definition wake :: "relay_env \<Rightarrow> relay_system \<Rightarrow> relay_system" where
  "wake env s =
     (let c = y_conn s
      in if \<not> has_recovery_work c \<or> wake_in_flight c then s
         else
           s\<lparr>y_conn := clear_backoff (c\<lparr>wake_in_flight := True\<rparr>),
             y_wake := Woken (concat (List.map_filter (fmlookup (active_reqs c)) (ye_order env (active_reqs c))))\<rparr>)"

text \<open>A successful connect starts the drainer unless its receiver is taken.\<close>

definition drainer_after :: "relay_connection \<Rightarrow> drainer \<Rightarrow> drainer" where
  "drainer_after c d = (if receiver_taken c then d else Waiting)"

definition start_run :: "nat \<Rightarrow> relay_system \<Rightarrow> relay_system \<times> relay_effect list" where
  "start_run now s =
     (case connect_begin now (y_conn s) of
        (c, eff, Ok _) \<Rightarrow> (s\<lparr>y_conn := c, y_start := Starting\<rparr>, eff)
      | (c, eff, Err _) \<Rightarrow> (s\<lparr>y_conn := c, y_start := Started\<rparr>, eff @ [Report ''failed'' (rl_url c)]))"

definition start_opened :: "nat \<Rightarrow> bytes + unit \<Rightarrow> relay_system \<Rightarrow> relay_system \<times> relay_effect list" where
  "start_opened now result s =
     (case connect_end now result (y_conn s) of
        (c, eff, Ok _) \<Rightarrow>
          (s\<lparr>y_conn := c, y_start := Started, y_drain := drainer_after (y_conn s) (y_drain s)\<rparr>, eff)
      | (c, eff, Err _) \<Rightarrow> (s\<lparr>y_conn := c, y_start := Started\<rparr>, eff @ [Report ''failed'' (rl_url c)]))"

definition wake_run :: "nat \<Rightarrow> bytes list \<Rightarrow> relay_system \<Rightarrow> relay_system \<times> relay_effect list" where
  "wake_run now frames s =
     (let (c, eff1) = conn_close (y_conn s)
      in case connect_begin now (clear_backoff c) of
           (c, eff, Ok _) \<Rightarrow> (s\<lparr>y_conn := c, y_wake := Waking frames\<rparr>, eff1 @ eff)
         | (c, eff, Err _) \<Rightarrow> (s\<lparr>y_conn := c\<lparr>wake_in_flight := False\<rparr>, y_wake := Idle\<rparr>, eff1 @ eff))"

definition wake_opened ::
  "relay_env \<Rightarrow> nat \<Rightarrow> bytes + unit \<Rightarrow> bytes list \<Rightarrow> relay_system \<Rightarrow> relay_system \<times> relay_effect list" where
  "wake_opened env now result frames s =
     (case connect_end now result (y_conn s) of
        (c, eff, Ok _) \<Rightarrow>
          (s\<lparr>y_conn := (enqueue_all env frames c)\<lparr>wake_in_flight := False\<rparr>, y_wake := Idle,
             y_drain := drainer_after (y_conn s) (y_drain s)\<rparr>, eff)
      | (c, eff, Err _) \<Rightarrow> (s\<lparr>y_conn := c\<lparr>wake_in_flight := False\<rparr>, y_wake := Idle\<rparr>, eff))"

section \<open>Runs\<close>

text \<open>
  The first seven inputs come from outside: the methods of the connection and the callbacks of the transport.
  The others are the turns of the tasks; a turn that the task does not await changes nothing.
\<close>

datatype relay_input =
    Send_Raw bytes | Close_Sub bytes | Close_Conn | Wake | Line bytes | Transport transport_status | Signed bytes
  | Start_Run | Start_Opened "bytes + unit" | Take | Sent "bytes + unit" | Slept | Opened "bytes + unit"
  | Wake_Run | Wake_Opened "bytes + unit"

definition drain_result :: "relay_system \<Rightarrow> relay_connection \<times> drainer \<times> relay_effect list \<Rightarrow> relay_system \<times> relay_effect list" where
  "drain_result s r = (case r of (c, d, eff) \<Rightarrow> (s\<lparr>y_conn := c, y_drain := d\<rparr>, eff))"

definition conn_result :: "relay_system \<Rightarrow> relay_connection \<times> relay_effect list \<Rightarrow> relay_system \<times> relay_effect list" where
  "conn_result s r = (case r of (c, eff) \<Rightarrow> (s\<lparr>y_conn := c\<rparr>, eff))"

fun relay_step :: "relay_env \<Rightarrow> nat \<Rightarrow> relay_input \<Rightarrow> relay_system \<Rightarrow> (relay_system \<times> relay_effect list) option" where
  "relay_step env now (Send_Raw frame) s = Some (s\<lparr>y_conn := fst (send_raw env frame (y_conn s))\<rparr>, [])"
| "relay_step env now (Close_Sub sub) s = Some (s\<lparr>y_conn := fst (close_sub env sub (y_conn s))\<rparr>, [])"
| "relay_step env now Close_Conn s = Some (conn_result s (conn_close (y_conn s)))"
| "relay_step env now Wake s = Some (wake env s, [])"
| "relay_step env now (Line line) s = map_option (conn_result s) (handle_incoming_message env now line (y_conn s))"
| "relay_step env now (Transport st) s = Some (conn_result s (handle_transport_status now st (y_conn s)))"
| "relay_step env now (Signed ev) s = Some (s\<lparr>y_conn := handle_signed_auth env ev (y_conn s)\<rparr>, [])"
| "relay_step env now Start_Run s = Some (if y_start s = Start then start_run now s else (s, []))"
| "relay_step env now (Start_Opened r) s = Some (if y_start s = Starting then start_opened now r s else (s, []))"
| "relay_step env now Take s =
     Some (if y_drain s = Waiting then drain_result s (drain_take now (y_conn s)) else (s, []))"
| "relay_step env now (Sent r) s =
     (case y_drain s of
        Sending frame was a \<Rightarrow> map_option (drain_result s) (drain_sent now r frame was a (y_conn s))
      | _ \<Rightarrow> Some (s, []))"
| "relay_step env now Slept s =
     Some (case y_drain s of
             Sleeping frame was i \<Rightarrow> drain_result s (drain_connect now frame was (Staged i) (y_conn s))
           | _ \<Rightarrow> (s, []))"
| "relay_step env now (Opened r) s =
     Some (case y_drain s of
             Reconnecting frame was a \<Rightarrow> drain_result s (drain_opened now r frame was a (y_conn s))
           | _ \<Rightarrow> (s, []))"
| "relay_step env now Wake_Run s =
     Some (case y_wake s of Woken frames \<Rightarrow> wake_run now frames s | _ \<Rightarrow> (s, []))"
| "relay_step env now (Wake_Opened r) s =
     Some (case y_wake s of Waking frames \<Rightarrow> wake_opened env now r frames s | _ \<Rightarrow> (s, []))"

fun relay_inputs :: "relay_env \<Rightarrow> (nat \<times> relay_input) list \<Rightarrow> relay_system \<Rightarrow> (relay_system \<times> relay_effect list) option" where
  "relay_inputs env [] s = Some (s, [])"
| "relay_inputs env ((now, i) # ins) s =
     (case relay_step env now i s of
        None \<Rightarrow> None
      | Some (s, eff) \<Rightarrow> map_option (\<lambda>(s, effs). (s, eff @ effs)) (relay_inputs env ins s))"

inductive relay_reachable :: "relay_env \<Rightarrow> bytes \<Rightarrow> relay_system \<Rightarrow> bool" for env url where
  new: "relay_reachable env url (relay_system_new url)"
| step: "relay_reachable env url s \<Longrightarrow> relay_step env now i s = Some (s', eff) \<Longrightarrow> relay_reachable env url s'"

section \<open>Subscriptions and their requests\<close>

definition request_for :: "bytes \<Rightarrow> bytes \<Rightarrow> bool" where
  "request_for sub frame =
     (case sent_parts frame of Some (Some (k, arg)) \<Rightarrow> k = ascii ''REQ'' \<and> trim_quotes arg = sub | _ \<Rightarrow> False)"

definition subs_view :: "relay_connection \<Rightarrow> bytes fset \<times> (bytes, bytes list) fmap" where
  "subs_view c = (active_subs c, active_reqs c)"

definition subs_agree :: "bytes fset \<times> (bytes, bytes list) fmap \<Rightarrow> bool" where
  "subs_agree v =
     (fst v = fmdom (snd v) \<and> fmpred (\<lambda>sub fs. fs \<noteq> [] \<and> distinct fs \<and> list_all (request_for sub) fs) (snd v))"

lemma subs_view_update [simp]:
  "subs_view (c\<lparr>rl_status := a\<rparr>) = subs_view c" "subs_view (c\<lparr>connected_at := b\<rparr>) = subs_view c"
  "subs_view (c\<lparr>backoff_attempts := d\<rparr>) = subs_view c" "subs_view (c\<lparr>next_retry_at_ms := n\<rparr>) = subs_view c"
  "subs_view (c\<lparr>connection_confirmed := e\<rparr>) = subs_view c" "subs_view (c\<lparr>wake_in_flight := e\<rparr>) = subs_view c"
  "subs_view (c\<lparr>queue := q\<rparr>) = subs_view c" "subs_view (c\<lparr>receiver_taken := e\<rparr>) = subs_view c"
  "subs_view (c\<lparr>pending_frames := n\<rparr>) = subs_view c" "subs_view (c\<lparr>rl_auth := h\<rparr>) = subs_view c"
  "subs_view (c\<lparr>pre_auth_queue := q\<rparr>) = subs_view c" "subs_view (c\<lparr>next_auth_id := w\<rparr>) = subs_view c"
  by (simp_all add: subs_view_def)

lemma subs_view_backoff [simp]:
  "subs_view (clear_backoff c) = subs_view c" "subs_view (clear_retry_deadline c) = subs_view c"
  "subs_view (schedule_reconnect_backoff now c) = subs_view c" "subs_view (confirm_connection c) = subs_view c"
  "subs_view (fst (conn_close c)) = subs_view c"
  by (simp_all add: clear_backoff_def clear_retry_deadline_def schedule_reconnect_backoff_def
      confirm_connection_def conn_close_def Let_def)

lemma subs_view_send [simp]:
  "subs_view (fst (send_raw env frame c)) = subs_view c" "subs_view (shadow_pre_auth_req frame c) = subs_view c"
  by (simp_all add: send_raw_def shadow_pre_auth_req_def Let_def split: admission.split)

lemma subs_view_enqueue_all [simp]: "subs_view (enqueue_all env fs c) = subs_view c"
  by (induction fs arbitrary: c) simp_all

lemma subs_view_auth [simp]:
  "subs_view (set_authenticated env c) = subs_view c"
  "subs_view (fst (handle_first_response env now kind content c)) = subs_view c"
  "subs_view (handle_signed_auth env ev c) = subs_view c"
  by (simp_all add: set_authenticated_def handle_first_response_def request_auth_signature_def
      handle_signed_auth_def case_prod_beta Let_def)

lemma subs_view_connect [simp]:
  "subs_view (fst (connect_begin now c)) = subs_view c" "subs_view (fst (connect_end now r c)) = subs_view c"
  "subs_view (fst (handle_transport_status now st c)) = subs_view c"
  by (simp_all add: connect_begin_def connect_end_def Let_def split: sum.split)
    (cases st; simp add: transport_lost_def)

lemma subs_view_drain [simp]:
  "subs_view (fst (staged now frame was i c)) = subs_view c"
  "subs_view (fst (drain_take now c)) = subs_view c"
  by (simp_all add: staged_def drain_take_def Let_def split: list.split)

lemma connect_cases:
  obtains (ok) c' eff where "connect_begin now c = (c', eff, Ok ())"
  | (err) c' eff e where "connect_begin now c = (c', eff, Err e)"
proof -
  obtain c' eff res where "connect_begin now c = (c', eff, res)" by (rule prod_cases3)
  then show thesis using ok err by (cases res) simp_all
qed

lemma opened_cases:
  obtains (ok) c' eff where "connect_end now r c = (c', eff, Ok ())"
  | (err) c' eff e where "connect_end now r c = (c', eff, Err e)"
proof -
  obtain c' eff res where "connect_end now r c = (c', eff, res)" by (rule prod_cases3)
  then show thesis using ok err by (cases res) simp_all
qed

lemma subs_view_drain_connect [simp]:
  "subs_view (fst (drain_connect now frame was a c)) = subs_view c"
  "subs_view (fst (drain_opened now r frame was a c)) = subs_view c"
proof -
  show "subs_view (fst (drain_connect now frame was a c)) = subs_view c"
    using subs_view_connect(1) [of now c]
    by (cases rule: connect_cases [of now c]) (simp_all add: drain_connect_def case_prod_beta)
  show "subs_view (fst (drain_opened now r frame was a c)) = subs_view c"
    using subs_view_connect(2) [of now r c]
    by (cases rule: opened_cases [of now r c]) (simp_all add: drain_opened_def case_prod_beta)
qed

lemma subs_agree_drop: "subs_agree (S, m) \<Longrightarrow> subs_agree (S |-| {|sub|}, fmdrop sub m)"
  by (auto simp: subs_agree_def fmpred_iff)

lemma subs_agree_add:
  assumes "subs_agree (S, m)" "request_for sub frame"
  shows "subs_agree (finsert sub S,
           fmupd sub (let fs = (case fmlookup m sub of Some fs \<Rightarrow> fs | None \<Rightarrow> []) in
             if frame \<in> set fs then fs else fs @ [frame]) m)"
  using assms by (auto simp: subs_agree_def fmpred_iff Let_def split: option.split)

lemma subs_close_sent: "subs_agree (subs_view c) \<Longrightarrow> subs_agree (subs_view (fst (close_sent sub c)))"
  using subs_agree_drop [of "active_subs c" "active_reqs c" sub]
  by (simp add: close_sent_def subs_view_def conn_close_def clear_backoff_def case_prod_beta Let_def)

lemma subs_req_sent:
  "subs_agree (subs_view c) \<Longrightarrow> request_for sub frame \<Longrightarrow> subs_agree (subs_view (fst (req_sent frame sub c)))"
  using subs_agree_add [of "active_subs (shadow_pre_auth_req frame c)" "active_reqs (shadow_pre_auth_req frame c)" sub frame]
    subs_view_send(2) [of frame c]
  by (simp add: req_sent_def subs_view_def Let_def cong: if_cong)

lemma frame_sent_cases:
  assumes "frame_sent frame c = Some p"
  obtains (close) sub where "p = close_sent sub (confirm_connection c)"
  | (req) sub where "request_for sub frame" "p = req_sent frame sub (confirm_connection c)"
  | (other) "fst p = confirm_connection c" "\<forall>e \<in> set (snd p). \<exists>url key line. e = Out url key line"
  using assms
  by (auto simp: frame_sent_def request_for_def event_sent_def Let_def
      split: option.splits if_splits)

lemma subs_frame_sent: "frame_sent frame c = Some p \<Longrightarrow> subs_agree (subs_view c) \<Longrightarrow> subs_agree (subs_view (fst p))"
  by (elim frame_sent_cases) (simp_all add: subs_close_sent subs_req_sent)

lemma subs_close_sub: "subs_agree (subs_view c) \<Longrightarrow> subs_agree (subs_view (fst (close_sub env sub c)))"
  using subs_agree_drop [of "active_subs c" "active_reqs c" sub]
    subs_view_send(1) [of env _ "c\<lparr>active_subs := active_subs c |-| {|sub|}, active_reqs := fmdrop sub (active_reqs c)\<rparr>"]
  by (simp add: close_sub_def subs_view_def case_prod_beta Let_def)

lemma subs_closed_by_relay: "subs_agree (subs_view c) \<Longrightarrow> subs_agree (subs_view (closed_by_relay kind sub c))"
  using subs_agree_drop [of "active_subs c" "active_reqs c"] by (simp add: closed_by_relay_def subs_view_def split: option.split)

lemma handle_incoming_some:
  assumes "handle_incoming_message env now line c = Some p"
  obtains (nothing) "p = (confirm_connection c, [])"
  | (frame) kind sub content where "parse_incoming_relay_text (ye_searcher env) line = Some (Some (kind, sub, content))"
      "p = (let r = handle_first_response env now kind (case content of Some t \<Rightarrow> t | None \<Rightarrow> [])
                      (closed_by_relay kind sub (confirm_connection c))
            in (fst r, snd r @ [Out (rl_url (fst r)) (case sub of Some s \<Rightarrow> s | None \<Rightarrow> []) line]))"
  using assms by (auto simp: handle_incoming_message_def case_prod_beta Let_def split: option.splits)

lemma subs_incoming:
  assumes "handle_incoming_message env now line c = Some p" "subs_agree (subs_view c)"
  shows "subs_agree (subs_view (fst p))"
  using assms(1)
proof (cases rule: handle_incoming_some)
  case (frame kind sub content)
  then show ?thesis using subs_closed_by_relay [of "confirm_connection c" kind sub] assms(2) by (simp add: Let_def)
qed (use assms(2) in simp)

lemma subs_tasks [simp]:
  "subs_view (y_conn (wake env s)) = subs_view (y_conn s)"
  "subs_view (y_conn (fst (start_run now s))) = subs_view (y_conn s)"
  "subs_view (y_conn (fst (start_opened now r s))) = subs_view (y_conn s)"
  "subs_view (y_conn (fst (wake_run now fs s))) = subs_view (y_conn s)"
  "subs_view (y_conn (fst (wake_opened env now r fs s))) = subs_view (y_conn s)"
proof -
  show "subs_view (y_conn (wake env s)) = subs_view (y_conn s)" by (simp add: wake_def Let_def)
  show "subs_view (y_conn (fst (start_run now s))) = subs_view (y_conn s)"
    using subs_view_connect(1) [of now "y_conn s"]
    by (cases rule: connect_cases [of now "y_conn s"]) (simp_all add: start_run_def)
  show "subs_view (y_conn (fst (start_opened now r s))) = subs_view (y_conn s)"
    using subs_view_connect(2) [of now r "y_conn s"]
    by (cases rule: opened_cases [of now r "y_conn s"]) (simp_all add: start_opened_def)
  let ?c = "clear_backoff (fst (conn_close (y_conn s)))"
  show "subs_view (y_conn (fst (wake_run now fs s))) = subs_view (y_conn s)"
    using subs_view_connect(1) [of now ?c]
    by (cases rule: connect_cases [of now ?c]) (simp_all add: wake_run_def case_prod_beta)
  show "subs_view (y_conn (fst (wake_opened env now r fs s))) = subs_view (y_conn s)"
    using subs_view_connect(2) [of now r "y_conn s"]
    by (cases rule: opened_cases [of now r "y_conn s"]) (simp_all add: wake_opened_def)
qed

lemma result_sel [simp]:
  "y_conn (fst (conn_result s r)) = fst r" "snd (conn_result s r) = snd r"
  "y_start (fst (conn_result s r)) = y_start s" "y_drain (fst (conn_result s r)) = y_drain s"
  "y_wake (fst (conn_result s r)) = y_wake s"
  "y_conn (fst (drain_result s q)) = fst q" "y_drain (fst (drain_result s q)) = fst (snd q)"
  "snd (drain_result s q) = snd (snd q)" "y_start (fst (drain_result s q)) = y_start s"
  "y_wake (fst (drain_result s q)) = y_wake s"
  by (simp_all add: conn_result_def drain_result_def case_prod_beta)

lemma relay_step_Line:
  assumes "relay_step env now (Line line) s = Some p"
  obtains q where "handle_incoming_message env now line (y_conn s) = Some q" "p = conn_result s q"
  using assms by auto

lemma relay_step_Sent:
  assumes "relay_step env now (Sent r) s = Some p"
  obtains (idle) "p = (s, [])"
  | (failed) frame was where "p = drain_result s (drain_connect now frame was First (y_conn s))"
  | (staged) frame was i where "p = drain_result s (case staged now frame was i (y_conn s) of (c, d) \<Rightarrow> (c, d, []))"
  | (sent) frame was a q where "y_drain s = Sending frame was a" "frame_sent frame (y_conn s) = Some q"
      "p = drain_result s (fst q, Waiting, snd q)"
proof (cases "y_drain s")
  case (Sending frame was a)
  then obtain q where q: "drain_sent now r frame was a (y_conn s) = Some q" "p = drain_result s q" using assms by auto
  show ?thesis
  proof (cases r)
    case (Inl e)
    then have "q = (if a = Direct then drain_connect now frame was First (y_conn s)
        else (case staged now frame was (next_stage a) (y_conn s) of (c, d) \<Rightarrow> (c, d, [])))"
      using q(1) by (simp add: drain_sent_def split: if_splits)
    then show ?thesis using failed staged q(2) by (cases "a = Direct") simp_all
  next
    case (Inr u)
    then obtain f where "frame_sent frame (y_conn s) = Some f" "q = (fst f, Waiting, snd f)"
      using q(1) by (auto simp: drain_sent_def case_prod_beta)
    then show ?thesis using sent Sending q(2) by blast
  qed
qed (use assms idle in auto)

lemma subs_step:
  assumes "relay_step env now i s = Some p" "subs_agree (subs_view (y_conn s))"
  shows "subs_agree (subs_view (y_conn (fst p)))"
proof (cases i)
  case (Line line)
  show ?thesis using assms(1) [unfolded Line] by (rule relay_step_Line) (simp add: subs_incoming assms(2))
next
  case (Sent r)
  show ?thesis using assms(1) [unfolded Sent] by (rule relay_step_Sent) (simp_all add: subs_frame_sent assms(2) case_prod_beta)
next
  case (Close_Sub sub)
  then show ?thesis using assms subs_close_sub [of "y_conn s" env sub] by auto
qed (use assms in \<open>auto split: drainer.splits waker.splits if_splits\<close>)

lemma subs_reachable: "relay_reachable env url s \<Longrightarrow> subs_agree (subs_view (y_conn s))"
proof (induction rule: relay_reachable.induct)
  case new
  then show ?case by (simp add: relay_system_new_def relay_connection_new_def subs_view_def subs_agree_def)
next
  case (step s now i s' eff)
  then show ?case using subs_step [of env now i s "(s', eff)"] by simp
qed

section \<open>Queue and transport\<close>

fun uses_transport :: "relay_effect \<Rightarrow> bool" where
  "uses_transport Open = True"
| "uses_transport (Transmit _) = True"
| "uses_transport _ = False"

definition quiet :: "relay_effect list \<Rightarrow> bool" where
  "quiet eff = list_all (\<lambda>e. \<not> uses_transport e) eff"

lemma quiet_simps [simp]: "quiet []" "quiet (e # eff) \<longleftrightarrow> \<not> uses_transport e \<and> quiet eff" "quiet (a @ b) \<longleftrightarrow> quiet a \<and> quiet b"
  by (simp_all add: quiet_def)

definition admits_all :: "relay_env \<Rightarrow> bool" where
  "admits_all env = (\<forall>q. ye_channel env q = Admitted)"

lemma queue_simple [simp]:
  "queue (clear_backoff c) = queue c" "queue (clear_retry_deadline c) = queue c"
  "queue (schedule_reconnect_backoff now c) = queue c" "queue (confirm_connection c) = queue c"
  "queue (fst (conn_close c)) = queue c" "queue (shadow_pre_auth_req frame c) = queue c"
  by (simp_all add: clear_backoff_def clear_retry_deadline_def schedule_reconnect_backoff_def
      confirm_connection_def conn_close_def shadow_pre_auth_req_def Let_def)

lemma open_simple [simp]:
  "queue_open (clear_backoff c) = queue_open c" "queue_open (clear_retry_deadline c) = queue_open c"
  "queue_open (schedule_reconnect_backoff now c) = queue_open c" "queue_open (confirm_connection c) = queue_open c"
  "queue_open (fst (conn_close c)) = queue_open c" "queue_open (shadow_pre_auth_req frame c) = queue_open c"
  "queue_open (fst (send_raw env frame c)) = queue_open c"
  by (simp_all add: clear_backoff_def clear_retry_deadline_def schedule_reconnect_backoff_def
      confirm_connection_def conn_close_def shadow_pre_auth_req_def send_raw_def Let_def split: admission.split)

lemma open_enqueue_all [simp]: "queue_open (enqueue_all env fs c) = queue_open c"
  by (induction fs arbitrary: c) simp_all

lemma queue_send_raw:
  "prefix (queue c) (queue (fst (send_raw env frame c)))"
  "admits_all env \<Longrightarrow> queue_open c \<Longrightarrow> queue (fst (send_raw env frame c)) = queue c @ [frame]"
  by (simp_all add: send_raw_def admits_all_def split: admission.split)

lemma queue_enqueue_all:
  "prefix (queue c) (queue (enqueue_all env fs c))"
  "admits_all env \<Longrightarrow> queue_open c \<Longrightarrow> queue (enqueue_all env fs c) = queue c @ fs"
proof -
  show "prefix (queue c) (queue (enqueue_all env fs c))"
    by (induction fs arbitrary: c) (auto intro: prefix_order.trans queue_send_raw(1))
  show "admits_all env \<Longrightarrow> queue_open c \<Longrightarrow> queue (enqueue_all env fs c) = queue c @ fs"
    by (induction fs arbitrary: c) (simp_all add: queue_send_raw(2))
qed

lemma queue_set_authenticated:
  "prefix (queue c) (queue (set_authenticated env c))" "queue_open (set_authenticated env c) = queue_open c"
  using queue_enqueue_all(1) [of "c\<lparr>rl_auth := Authenticated, pre_auth_queue := []\<rparr>"]
  by (simp_all add: set_authenticated_def Let_def)

lemma first_response_frame:
  "prefix (queue c) (queue (fst (handle_first_response env now kind content c)))"
  "queue_open (fst (handle_first_response env now kind content c)) = queue_open c"
  "quiet (snd (handle_first_response env now kind content c))"
  using queue_set_authenticated [where c = c and env = env]
  by (simp_all add: handle_first_response_def request_auth_signature_def Let_def)

lemma incoming_frame:
  assumes "handle_incoming_message env now line c = Some p"
  shows "prefix (queue c) (queue (fst p))" "queue_open (fst p) = queue_open c" "quiet (snd p)"
proof -
  have "prefix (queue c) (queue (fst p)) \<and> queue_open (fst p) = queue_open c \<and> quiet (snd p)"
    using assms
  proof (cases rule: handle_incoming_some)
    case nothing
    then show ?thesis by simp
  next
    case (frame kind sub content)
    let ?c = "closed_by_relay kind sub (confirm_connection c)"
    have "queue ?c = queue c" "queue_open ?c = queue_open c" by (simp_all add: closed_by_relay_def split: option.split)
    then show ?thesis
      using frame(2) first_response_frame [where c = ?c and env = env and now = now and kind = kind
          and content = "case content of Some t \<Rightarrow> t | None \<Rightarrow> []"]
      by (simp add: Let_def)
  qed
  then show "prefix (queue c) (queue (fst p))" "queue_open (fst p) = queue_open c" "quiet (snd p)" by simp_all
qed

lemma transport_status_frame:
  "queue (fst (handle_transport_status now st c)) = queue c"
  "queue_open (fst (handle_transport_status now st c)) = queue_open c"
  "quiet (snd (handle_transport_status now st c))"
  by (cases st; simp add: transport_lost_def)+

lemma close_sub_frame:
  "prefix (queue c) (queue (fst (close_sub env sub c)))" "queue_open (fst (close_sub env sub c)) = queue_open c"
  using queue_send_raw(1) [of "c\<lparr>active_subs := active_subs c |-| {|sub|}, active_reqs := fmdrop sub (active_reqs c)\<rparr>" env]
  by (simp_all add: close_sub_def case_prod_beta Let_def)

lemma signed_frame:
  "prefix (queue c) (queue (handle_signed_auth env ev c))" "queue_open (handle_signed_auth env ev c) = queue_open c"
  using queue_send_raw(1) by (simp_all add: handle_signed_auth_def case_prod_beta)

section \<open>A failed first connect\<close>

definition stranded :: "relay_system \<Rightarrow> bool" where
  "stranded s = (y_start s = Started \<and> y_drain s = Not_Started \<and> y_wake s = Idle \<and> queue_open (y_conn s))"

lemma stranded_step:
  assumes "relay_step env now i s = Some p" "stranded s" "i \<noteq> Wake"
  shows "stranded (fst p)" "quiet (snd p)" "prefix (queue (y_conn s)) (queue (y_conn (fst p)))"
proof -
  have "stranded (fst p) \<and> quiet (snd p) \<and> prefix (queue (y_conn s)) (queue (y_conn (fst p)))"
  proof (cases i)
    case (Line line)
    show ?thesis using assms(1) [unfolded Line]
      by (rule relay_step_Line) (use assms(2) in \<open>simp add: stranded_def incoming_frame\<close>)
  next
    case Close_Conn
    then show ?thesis using assms by (auto simp: stranded_def) (simp add: conn_close_def)
  qed (use assms in \<open>auto simp: stranded_def queue_send_raw(1) close_sub_frame signed_frame transport_status_frame\<close>)
  then show "stranded (fst p)" "quiet (snd p)" "prefix (queue (y_conn s)) (queue (y_conn (fst p)))" by simp_all
qed

lemma stranded_send:
  "relay_step env now (Send_Raw frame) s = Some p \<Longrightarrow> stranded s \<Longrightarrow> admits_all env \<Longrightarrow> frame \<in> set (queue (y_conn (fst p)))"
  by (auto simp: stranded_def queue_send_raw(2))

lemma stranded_run:
  assumes "relay_inputs env ins s = Some p" "stranded s" "admits_all env" "Wake \<notin> snd ` set ins"
  shows "quiet (snd p)" "prefix (queue (y_conn s)) (queue (y_conn (fst p)))"
    "\<forall>now frame. (now, Send_Raw frame) \<in> set ins \<longrightarrow> frame \<in> set (queue (y_conn (fst p)))"
proof -
  have "quiet (snd p) \<and> prefix (queue (y_conn s)) (queue (y_conn (fst p))) \<and>
      (\<forall>now frame. (now, Send_Raw frame) \<in> set ins \<longrightarrow> frame \<in> set (queue (y_conn (fst p))))"
    using assms
  proof (induction env ins s arbitrary: p rule: relay_inputs.induct)
    case (2 env now i ins s)
    obtain q where q: "relay_step env now i s = Some q" using "2.prems"(1) by (auto split: option.splits)
    then obtain r where r: "relay_inputs env ins (fst q) = Some r" "p = (fst r, snd q @ snd r)"
      using "2.prems"(1) by (auto simp: case_prod_beta)
    have i: "i \<noteq> Wake" using "2.prems"(4) by auto
    note st = stranded_step [OF q "2.prems"(2) i]
    have IH: "quiet (snd r) \<and> prefix (queue (y_conn (fst q))) (queue (y_conn (fst r))) \<and>
      (\<forall>now frame. (now, Send_Raw frame) \<in> set ins \<longrightarrow> frame \<in> set (queue (y_conn (fst r))))"
      using "2.IH" [of q "fst q" "snd q" r] q r(1) st(1) "2.prems"(3,4) by auto
    have "frame \<in> set (queue (y_conn (fst r)))" if "i = Send_Raw frame" for frame
      using stranded_send [of env now frame s q] q "2.prems"(2,3) that IH by (auto dest: set_mono_prefix)
    then show ?case using IH st r(2) by (auto intro: prefix_order.trans)
  qed simp
  then show "quiet (snd p)" "prefix (queue (y_conn s)) (queue (y_conn (fst p)))"
    "\<forall>now frame. (now, Send_Raw frame) \<in> set ins \<longrightarrow> frame \<in> set (queue (y_conn (fst p)))" by simp_all
qed

section \<open>The cool-down\<close>

fun undisturbing :: "relay_input \<Rightarrow> bool" where
  "undisturbing Wake = False"
| "undisturbing Close_Conn = False"
| "undisturbing (Line _) = False"
| "undisturbing (Transport (TransportConnected _)) = False"
| "undisturbing _ = True"

definition cooling :: "nat \<Rightarrow> relay_system \<Rightarrow> bool" where
  "cooling retry_at s =
     (y_start s = Started \<and> y_drain s = Waiting \<and> y_wake s = Idle \<and> rl_status (y_conn s) = Failed
      \<and> next_retry_at_ms (y_conn s) = retry_at)"

lemma send_keeps_backoff [simp]:
  "next_retry_at_ms (fst (send_raw env frame c)) = next_retry_at_ms c" "rl_status (fst (send_raw env frame c)) = rl_status c"
  "next_retry_at_ms (fst (close_sub env sub c)) = next_retry_at_ms c" "rl_status (fst (close_sub env sub c)) = rl_status c"
  "next_retry_at_ms (handle_signed_auth env ev c) = next_retry_at_ms c" "rl_status (handle_signed_auth env ev c) = rl_status c"
proof -
  show s: "next_retry_at_ms (fst (send_raw env frame c)) = next_retry_at_ms c" "rl_status (fst (send_raw env frame c)) = rl_status c"
    for frame c by (simp_all add: send_raw_def split: admission.split)
  show "next_retry_at_ms (fst (close_sub env sub c)) = next_retry_at_ms c" "rl_status (fst (close_sub env sub c)) = rl_status c"
    by (simp_all add: close_sub_def s case_prod_beta Let_def)
  show "next_retry_at_ms (handle_signed_auth env ev c) = next_retry_at_ms c" "rl_status (handle_signed_auth env ev c) = rl_status c"
    by (simp_all add: handle_signed_auth_def s case_prod_beta)
qed

lemma cooling_step:
  assumes "relay_step env now i s = Some p" "cooling retry_at s" "undisturbing i" "now < retry_at"
  shows "cooling retry_at (fst p)" "quiet (snd p)"
proof -
  have "cooling retry_at (fst p) \<and> quiet (snd p)"
  proof (cases i)
    case (Transport st)
    then show ?thesis using assms by (cases st) (auto simp: cooling_def transport_lost_def conn_result_def)
  next
    case Take
    then show ?thesis using assms by (auto simp: cooling_def drain_take_def drain_result_def Let_def split: list.splits)
  qed (use assms in \<open>auto simp: cooling_def\<close>)
  then show "cooling retry_at (fst p)" "quiet (snd p)" by simp_all
qed

lemma cooling_run:
  assumes "relay_inputs env ins s = Some p" "cooling retry_at s" "list_all (\<lambda>(now, i). undisturbing i \<and> now < retry_at) ins"
  shows "cooling retry_at (fst p) \<and> quiet (snd p)"
  using assms
proof (induction env ins s arbitrary: p rule: relay_inputs.induct)
  case (2 env now i ins s)
  obtain q where q: "relay_step env now i s = Some q" using "2.prems"(1) by (auto split: option.splits)
  then obtain r where r: "relay_inputs env ins (fst q) = Some r" "p = (fst r, snd q @ snd r)"
    using "2.prems"(1) by (auto simp: case_prod_beta)
  note st = cooling_step [OF q "2.prems"(2)]
  show ?case using "2.IH" [of q "fst q" "snd q" r] q r st "2.prems"(3) by auto
qed simp

section \<open>The back-off\<close>

lemma backoff_delay_bounds: "RECONNECT_RETRY_BASE_DELAY_MS \<le> backoff_delay a" "backoff_delay a \<le> RECONNECT_RETRY_MAX_DELAY_MS"
  by (simp_all add: backoff_delay_def RECONNECT_RETRY_BASE_DELAY_MS_def RECONNECT_RETRY_MAX_DELAY_MS_def)

lemma backoff_delay_pos: "0 < backoff_delay a"
  using backoff_delay_bounds(1) [of a] by (simp add: RECONNECT_RETRY_BASE_DELAY_MS_def)

lemma backoff_delay_mono: "unat a \<le> unat b \<Longrightarrow> backoff_delay a \<le> backoff_delay b"
  unfolding backoff_delay_def by (intro min.mono mult_left_mono power_increasing) auto

lemma unat_saturating_inc: "unat (saturating_inc a) = min (unat a + 1) (2 ^ 32 - 1)"
proof (cases "a = - 1")
  case True
  then show ?thesis by (simp add: saturating_inc_def unsigned_minus_1_eq_mask mask_eq_exp_minus_1)
next
  case False
  then have "1 + a \<noteq> 0" by (metis add.inverse_unique)
  then have "unat (a + 1) = unat a + 1" using unatSuc [of a] by (simp add: add.commute)
  moreover have "unat a + 1 \<le> 2 ^ 32 - 1" using calculation unsigned_less [of "a + 1", where 'a = nat] by simp
  ultimately show ?thesis using False by (simp add: saturating_inc_def)
qed


section \<open>A frame that cannot be sent\<close>

definition failing_stages :: "(nat \<times> nat \<times> bytes) list \<Rightarrow> (nat \<times> relay_input) list" where
  "failing_stages stages = concat (map (\<lambda>(t, u, e). [(t, Slept), (u, Opened (Err e))]) stages)"

definition opens :: "relay_effect list \<Rightarrow> nat" where
  "opens eff = length (filter (\<lambda>e. e = Open) eff)"

lemma opens_simps [simp]: "opens [] = 0" "opens (e # eff) = (if e = Open then 1 else 0) + opens eff" "opens (a @ b) = opens a + opens b"
  by (simp_all add: opens_def)

lemma connect_begin_due:
  assumes "next_retry_at_ms c \<le> now" "validate_relay_url (rl_url c) = Ok ()"
  shows "connect_begin now c = (c\<lparr>rl_status := Connecting, connection_confirmed := False\<rparr>,
           [Report ''connecting'' (rl_url c), Open], Ok ())"
  using assms by (simp add: connect_begin_def should_delay_reconnect_def Let_def)

text \<open>The state of the drainer and the back-off when \<open>i\<close> stages have failed, the last of them at \<open>now\<close>.\<close>

definition after_failures :: "nat \<Rightarrow> bytes \<Rightarrow> bool \<Rightarrow> nat \<Rightarrow> u32 \<Rightarrow> bytes list \<Rightarrow> bytes \<Rightarrow> relay_system \<Rightarrow> bool" where
  "after_failures now frame was i a q url s =
     (let c = y_conn s; last_stage = (i \<ge> length (retry_delays was))
      in y_drain s = (if last_stage then Waiting else Sleeping frame was i) \<and> backoff_attempts c = a \<and> queue c = q
         \<and> rl_url c = url \<and> next_retry_at_ms c = (if last_stage then now + backoff_delay a else 0))"

lemma drain_opened_fails:
  assumes "y_drain s = Reconnecting frame was at"
  obtains p where "relay_step env now (Opened (Err e)) s = Some p" "opens (snd p) = 0"
    "after_failures now frame was (next_stage at) (saturating_inc (backoff_attempts (y_conn s)))
       (queue (y_conn s)) (rl_url (y_conn s)) (fst p)"
  using assms backoff_delay_pos [of "saturating_inc (backoff_attempts (y_conn s))"]
  by (simp add: drain_result_def drain_opened_def connect_end_def staged_def should_delay_reconnect_def
      schedule_reconnect_backoff_def clear_retry_deadline_def after_failures_def Let_def)

lemma failing_stage:
  assumes "after_failures now frame was i a q url s" "i < length (retry_delays was)" "validate_relay_url url = Ok ()"
  obtains p where "relay_inputs env [(t, Slept), (u, Opened (Err e))] s = Some p" "opens (snd p) = 1"
    "after_failures u frame was (i + 1) (saturating_inc a) q url (fst p)"
proof -
  let ?c = "y_conn s"
  have s: "y_drain s = Sleeping frame was i" "next_retry_at_ms ?c = 0" "rl_url ?c = url" "queue ?c = q" "backoff_attempts ?c = a"
    using assms(1,2) by (simp_all add: after_failures_def Let_def)
  let ?s = "s\<lparr>y_conn := ?c\<lparr>rl_status := Connecting, connection_confirmed := False\<rparr>, y_drain := Reconnecting frame was (Staged i)\<rparr>"
  have step: "relay_step env t Slept s = Some (?s, [Report ''connecting'' (rl_url ?c), Open])"
    using connect_begin_due [of ?c t] s assms(3) by (simp add: drain_connect_def drain_result_def)
  obtain p where p: "relay_step env u (Opened (Err e)) ?s = Some p" "opens (snd p) = 0"
    "after_failures u frame was (i + 1) (saturating_inc a) q url (fst p)"
  proof (rule drain_opened_fails [of ?s frame was "Staged i" env u e])
    show "y_drain ?s = Reconnecting frame was (Staged i)" by simp
  qed (simp add: s that)
  have "relay_inputs env [(t, Slept), (u, Opened (Err e))] s = Some (fst p, [Report ''connecting'' (rl_url ?c), Open] @ snd p)"
    using step p(1) by (simp add: case_prod_beta del: relay_step.simps)
  then show ?thesis by (rule that) (use p in simp_all)
qed

lemma relay_inputs_append:
  "relay_inputs env (xs @ ys) s =
     (case relay_inputs env xs s of
        None \<Rightarrow> None
      | Some p \<Rightarrow> map_option (\<lambda>q. (fst q, snd p @ snd q)) (relay_inputs env ys (fst p)))"
  by (induction env xs s rule: relay_inputs.induct)
    (auto simp: case_prod_beta option.map_comp comp_def map_option_case split: option.splits)

lemma failing_stages_run:
  assumes "after_failures now frame was i a q url s" "validate_relay_url url = Ok ()"
    "i + length stages = length (retry_delays was)"
  obtains p where "relay_inputs env (failing_stages stages) s = Some p" "opens (snd p) = length stages"
    "after_failures (if stages = [] then now else fst (snd (List.last stages))) frame was (length (retry_delays was))
       ((saturating_inc ^^ length stages) a) q url (fst p)"
  using assms
proof (induction stages arbitrary: now i a s thesis)
  case Nil
  then show ?case by (simp add: failing_stages_def)
next
  case (Cons st stages)
  obtain t u e where st: "st = (t, u, e)" by (rule prod_cases3)
  obtain p where p: "relay_inputs env [(t, Slept), (u, Opened (Err e))] s = Some p" "opens (snd p) = 1"
    "after_failures u frame was (i + 1) (saturating_inc a) q url (fst p)"
    using failing_stage [OF Cons.prems(2), of env t u e] Cons.prems(3,4) by auto
  obtain r where r: "relay_inputs env (failing_stages stages) (fst p) = Some r" "opens (snd r) = length stages"
    "after_failures (if stages = [] then u else fst (snd (List.last stages))) frame was (length (retry_delays was))
       ((saturating_inc ^^ length stages) (saturating_inc a)) q url (fst r)"
    using Cons.IH [OF _ p(3) Cons.prems(3)] Cons.prems(4) by auto
  have "relay_inputs env (failing_stages (st # stages)) s = Some (fst r, snd p @ snd r)"
    using relay_inputs_append [of env "[(t, Slept), (u, Opened (Err e))]" "failing_stages stages" s] p(1) r(1) st
    by (simp add: failing_stages_def)
  then show ?case
    by (rule Cons.prems(1)) (use p(2) r(2,3) st in \<open>simp_all add: funpow_swap1 split: if_splits\<close>)
qed

lemma unat_saturating_incs: "unat a + n < 2 ^ 32 \<Longrightarrow> unat ((saturating_inc ^^ n) a) = unat a + n"
  by (induction n) (simp_all add: unat_saturating_inc)

lemma failing_start:
  assumes "y_drain s = Waiting" "queue (y_conn s) = frame # q" "next_retry_at_ms (y_conn s) \<le> t0" "t0 \<le> t1"
    "validate_relay_url (rl_url (y_conn s)) = Ok ()"
  obtains p where "relay_inputs env [(t0, Take), (t1, Sent (Err e)), (t2, Opened (Err e'))] s = Some p" "opens (snd p) = 1"
    "after_failures t2 frame (connection_confirmed (y_conn s)) 0 (saturating_inc (backoff_attempts (y_conn s))) q
       (rl_url (y_conn s)) (fst p)"
proof -
  let ?c = "(y_conn s)\<lparr>queue := q, pending_frames := pending_frames (y_conn s) - 1\<rparr>"
  let ?was = "connection_confirmed (y_conn s)"
  let ?s1 = "s\<lparr>y_conn := ?c, y_drain := Sending frame ?was Direct\<rparr>"
  let ?s2 = "s\<lparr>y_conn := ?c\<lparr>rl_status := Connecting, connection_confirmed := False\<rparr>, y_drain := Reconnecting frame ?was First\<rparr>"
  have "relay_step env t0 Take s = Some (?s1, [Transmit frame])"
    using assms by (simp add: drain_take_def drain_result_def Let_def)
  moreover have "relay_step env t1 (Sent (Err e)) ?s1 = Some (?s2, [Report ''connecting'' (rl_url ?c), Open])"
    using connect_begin_due [of ?c t1] assms by (simp add: drain_sent_def drain_connect_def drain_result_def)
  moreover obtain p where p: "relay_step env t2 (Opened (Err e')) ?s2 = Some p" "opens (snd p) = 0"
    "after_failures t2 frame ?was 0 (saturating_inc (backoff_attempts (y_conn s))) q (rl_url (y_conn s)) (fst p)"
    by (rule drain_opened_fails [of ?s2 frame ?was First env t2 e']) (simp_all del: relay_step.simps)
  ultimately have "relay_inputs env [(t0, Take), (t1, Sent (Err e)), (t2, Opened (Err e'))] s =
      Some (fst p, [Transmit frame] @ [Report ''connecting'' (rl_url ?c), Open] @ snd p)"
    by (simp add: case_prod_beta del: relay_step.simps)
  then show ?thesis by (rule that) (use p in simp_all)
qed

end
