(* ===== verification/Relay_Session.thy ===== *)
theory Relay_Session
  imports Relay_Connection
begin

text \<open>
  The NIP-42 session of a relay connection (\<open>core/src/transport/connection.rs\<close>) and the properties of the
  connection as a whole: which answers authenticate, when a signature is asked for, and what becomes of
  the requests sent before. The examples are runs of the machine of \<open>Relay_Connection\<close> from its first connect.
\<close>

section \<open>Authentication\<close>

fun unauthenticated :: "auth_state \<Rightarrow> bool" where
  "unauthenticated AuthUnknown = True"
| "unauthenticated (AuthRequired _) = True"
| "unauthenticated AuthPending = True"
| "unauthenticated _ = False"

definition auth_view :: "relay_connection \<Rightarrow> auth_state \<times> bytes list" where
  "auth_view c = (rl_auth c, pre_auth_queue c)"

definition shadowed :: "bytes \<Rightarrow> auth_state \<times> bytes list \<Rightarrow> bool" where
  "shadowed frame v = (unauthenticated (fst v) \<and> frame \<in> set (snd v))"

lemma auth_view_update [simp]:
  "auth_view (c\<lparr>rl_status := a\<rparr>) = auth_view c" "auth_view (c\<lparr>connected_at := b\<rparr>) = auth_view c"
  "auth_view (c\<lparr>backoff_attempts := d\<rparr>) = auth_view c" "auth_view (c\<lparr>next_retry_at_ms := n\<rparr>) = auth_view c"
  "auth_view (c\<lparr>connection_confirmed := e\<rparr>) = auth_view c" "auth_view (c\<lparr>wake_in_flight := e\<rparr>) = auth_view c"
  "auth_view (c\<lparr>queue := q\<rparr>) = auth_view c" "auth_view (c\<lparr>receiver_taken := e\<rparr>) = auth_view c"
  "auth_view (c\<lparr>pending_frames := n\<rparr>) = auth_view c" "auth_view (c\<lparr>active_subs := h\<rparr>) = auth_view c"
  "auth_view (c\<lparr>active_reqs := m\<rparr>) = auth_view c" "auth_view (c\<lparr>next_auth_id := w\<rparr>) = auth_view c"
  by (simp_all add: auth_view_def)

lemma auth_view_keep [simp]:
  "auth_view (clear_backoff c) = auth_view c" "auth_view (clear_retry_deadline c) = auth_view c"
  "auth_view (schedule_reconnect_backoff now c) = auth_view c" "auth_view (confirm_connection c) = auth_view c"
  "auth_view (fst (send_raw env frame c)) = auth_view c" "auth_view (closed_by_relay kind sub c) = auth_view c"
  "auth_view (fst (connect_begin now c)) = auth_view c" "auth_view (fst (staged now frame was i c)) = auth_view c"
  "auth_view (fst (drain_take now c)) = auth_view c"
  by (simp_all add: clear_backoff_def clear_retry_deadline_def schedule_reconnect_backoff_def confirm_connection_def
      send_raw_def closed_by_relay_def connect_begin_def staged_def drain_take_def Let_def
      split: admission.split option.split list.split sum.split)

lemma auth_view_enqueue_all [simp]: "auth_view (enqueue_all env fs c) = auth_view c"
  by (induction fs arbitrary: c) simp_all

lemma auth_view_close_sub [simp]: "auth_view (fst (close_sub env sub c)) = auth_view c"
  by (simp add: close_sub_def case_prod_beta Let_def)

lemma auth_view_wake [simp]: "auth_view (y_conn (wake env s)) = auth_view (y_conn s)"
  by (simp add: wake_def Let_def)

lemma auth_view_drain_connect [simp]: "auth_view (fst (drain_connect now frame was a c)) = auth_view c"
  using auth_view_keep(7) [of now c]
  by (cases rule: connect_cases [of now c]) (simp_all add: drain_connect_def case_prod_beta)

lemma shadowed_connect_end: "shadowed f (auth_view c) \<Longrightarrow> shadowed f (auth_view (fst (connect_end now r c)))"
  by (simp add: connect_end_def shadowed_def split: sum.split) (simp add: auth_view_def)

lemma shadowed_drain_opened:
  assumes "shadowed f (auth_view c)"
  shows "shadowed f (auth_view (fst (drain_opened now r frame was a c)))"
  using shadowed_connect_end [OF assms, of now r]
  by (cases rule: opened_cases [of now r c]) (simp_all add: drain_opened_def case_prod_beta)

lemma shadowed_signed: "shadowed f (auth_view c) \<Longrightarrow> shadowed f (auth_view (handle_signed_auth env ev c))"
  using auth_view_keep(5) [of env _ c]
  by (simp add: handle_signed_auth_def shadowed_def auth_view_def case_prod_beta)

lemma shadowed_req: "shadowed f (auth_view c) \<Longrightarrow> shadowed f (auth_view (fst (req_sent frame sub c)))"
  by (simp add: req_sent_def Let_def) (auto simp: shadow_pre_auth_req_def shadowed_def auth_view_def Let_def)

lemma auth_view_close_sent:
  "auth_view (fst (close_sent sub c)) = auth_view c \<or> Disconnect \<in> set (snd (close_sent sub c))"
  by (simp add: close_sent_def case_prod_beta Let_def) (simp add: conn_close_def)

lemma shadowed_frame_sent:
  assumes "frame_sent frame c = Some p" "shadowed f (auth_view c)"
  shows "shadowed f (auth_view (fst p)) \<or> Disconnect \<in> set (snd p)"
  using assms(1)
proof (cases rule: frame_sent_cases)
  case (close sub)
  then show ?thesis using auth_view_close_sent [of sub "confirm_connection c"] assms(2) by auto
next
  case (req sub)
  then show ?thesis using shadowed_req [of f "confirm_connection c" frame sub] assms(2) by simp
qed (use assms(2) in simp)

text \<open>What the answers of the relay do to a shadowed frame.\<close>

definition replayed :: "bytes \<Rightarrow> relay_connection \<Rightarrow> relay_connection \<Rightarrow> bool" where
  "replayed frame c c' =
     (rl_auth c' = Authenticated \<and> (rl_auth c = AuthPending \<longrightarrow> frame \<in> set (queue c')))"

lemma replayed_set_authenticated:
  assumes "admits_all env" "queue_open c" "shadowed f (auth_view c)"
  shows "replayed f c (set_authenticated env c)"
proof -
  let ?c = "c\<lparr>rl_auth := Authenticated, pre_auth_queue := []\<rparr>"
  have "auth_view (enqueue_all env fs ?c) = auth_view ?c" for fs by simp
  then have "rl_auth (enqueue_all env fs ?c) = Authenticated" for fs by (simp add: auth_view_def)
  moreover have "queue (enqueue_all env fs ?c) = queue c @ fs" for fs using queue_enqueue_all(2) [of env ?c fs] assms by simp
  ultimately show ?thesis using assms(3) by (simp add: replayed_def set_authenticated_def shadowed_def auth_view_def Let_def)
qed

lemma shadowed_first_response:
  assumes "admits_all env" "queue_open c" "shadowed f (auth_view c)"
  shows "shadowed f (auth_view (fst (handle_first_response env now kind content c)))
         \<or> replayed f c (fst (handle_first_response env now kind content c))"
  using replayed_set_authenticated [OF assms] assms(3)
  by (auto simp: handle_first_response_def request_auth_signature_def Let_def) (auto simp: shadowed_def auth_view_def)

lemma shadowed_incoming:
  assumes "handle_incoming_message env now line c = Some p" "admits_all env" "queue_open c" "shadowed f (auth_view c)"
  shows "shadowed f (auth_view (fst p)) \<or> replayed f c (fst p)"
  using assms(1)
proof (cases rule: handle_incoming_some)
  case (frame kind sub content)
  let ?c = "closed_by_relay kind sub (confirm_connection c)"
  have "auth_view ?c = auth_view c" by simp
  moreover have "queue_open ?c = queue_open c" by (simp add: closed_by_relay_def split: option.split)
  ultimately show ?thesis
    using shadowed_first_response [of env ?c f now kind "case content of Some t \<Rightarrow> t | None \<Rightarrow> []"] assms(2-4) frame(2)
    by (simp add: replayed_def auth_view_def Let_def)
qed (use assms(4) in simp)

definition ends_session :: "relay_input \<Rightarrow> relay_effect list \<Rightarrow> bool" where
  "ends_session i eff =
     (Disconnect \<in> set eff \<or> (\<exists>url. i = Transport (TransportFailed url) \<or> i = Transport (TransportClosed url)))"

lemma shadowed_tasks:
  "shadowed f (auth_view (y_conn s)) \<Longrightarrow> shadowed f (auth_view (y_conn (fst (start_run now s))))"
  "shadowed f (auth_view (y_conn s)) \<Longrightarrow> shadowed f (auth_view (y_conn (fst (start_opened now r s))))"
  "shadowed f (auth_view (y_conn s)) \<Longrightarrow> shadowed f (auth_view (y_conn (fst (wake_opened env now r fs s))))"
  "Disconnect \<in> set (snd (wake_run now fs s))"
proof -
  show "shadowed f (auth_view (y_conn s)) \<Longrightarrow> shadowed f (auth_view (y_conn (fst (start_run now s))))"
    using auth_view_keep(7) [of now "y_conn s"]
    by (cases rule: connect_cases [of now "y_conn s"]) (simp_all add: start_run_def)
  show "shadowed f (auth_view (y_conn s)) \<Longrightarrow> shadowed f (auth_view (y_conn (fst (start_opened now r s))))"
    using shadowed_connect_end [of f "y_conn s" now r]
    by (cases rule: opened_cases [of now r "y_conn s"]) (simp_all add: start_opened_def)
  show "shadowed f (auth_view (y_conn s)) \<Longrightarrow> shadowed f (auth_view (y_conn (fst (wake_opened env now r fs s))))"
    using shadowed_connect_end [of f "y_conn s" now r]
    by (cases rule: opened_cases [of now r "y_conn s"]) (simp_all add: wake_opened_def)
  let ?c = "clear_backoff (fst (conn_close (y_conn s)))"
  show "Disconnect \<in> set (snd (wake_run now fs s))"
    by (cases rule: connect_cases [of now ?c]) (simp_all add: wake_run_def case_prod_beta, simp_all add: conn_close_def)
qed

lemma shadowed_step:
  assumes "relay_step env now i s = Some p" "admits_all env" "queue_open (y_conn s)" "shadowed f (auth_view (y_conn s))"
  shows "shadowed f (auth_view (y_conn (fst p))) \<or> replayed f (y_conn s) (y_conn (fst p)) \<or> ends_session i (snd p)"
proof (cases i)
  case (Line line)
  show ?thesis using assms(1) [unfolded Line]
    by (rule relay_step_Line) (use assms(2-4) shadowed_incoming [of env now line "y_conn s" _ f] in \<open>simp; blast\<close>)
next
  case (Sent r)
  show ?thesis using assms(1) [unfolded Sent]
  proof (rule relay_step_Sent)
    fix frame was a q
    assume "frame_sent frame (y_conn s) = Some q" "p = drain_result s (fst q, Waiting, snd q)"
    then show ?thesis using shadowed_frame_sent [of frame "y_conn s" q f] assms(4) by (auto simp: ends_session_def)
  qed (use assms(4) in \<open>simp_all add: case_prod_beta\<close>)
next
  case Close_Conn
  then show ?thesis using assms by (auto simp: ends_session_def conn_close_def)
next
  case (Transport st)
  then show ?thesis using assms by (cases st) (auto simp: ends_session_def)
qed (use assms shadowed_tasks in \<open>auto simp: shadowed_signed shadowed_drain_opened ends_session_def split: drainer.splits waker.splits if_splits\<close>)

section \<open>Who authenticates\<close>

definition relay_accepts :: "relay_env \<Rightarrow> bytes \<Rightarrow> auth_state \<Rightarrow> bool" where
  "relay_accepts env line old =
     (case parse_incoming_relay_text (ye_searcher env) line of
        Some (Some (kind, _, content)) \<Rightarrow>
          (old = AuthUnknown \<and> kind \<noteq> ascii ''AUTH'')
          \<or> (old = AuthPending \<and> kind = ascii ''OK'' \<and> auth_accepted (case content of Some t \<Rightarrow> t | None \<Rightarrow> []))
      | _ \<Rightarrow> False)"

lemma first_response_authenticates:
  assumes "rl_auth (fst (handle_first_response env now kind content c)) = Authenticated" "rl_auth c \<noteq> Authenticated"
  shows "(rl_auth c = AuthUnknown \<and> kind \<noteq> ascii ''AUTH'') \<or> (rl_auth c = AuthPending \<and> kind = ascii ''OK'' \<and> auth_accepted content)"
  using assms by (auto simp: handle_first_response_def request_auth_signature_def Let_def split: if_splits)

lemma open_connect [simp]:
  "queue_open (fst (connect_begin now c)) = queue_open c" "queue_open (fst (connect_end now r c)) = queue_open c"
  "queue_open (fst (staged now frame was i c)) = queue_open c" "queue_open (fst (drain_take now c)) = queue_open c"
  "queue_open (fst (close_sent sub c)) = queue_open c" "queue_open (fst (req_sent frame sub c)) = queue_open c"
  by (simp_all add: connect_begin_def connect_end_def staged_def drain_take_def close_sent_def req_sent_def
      case_prod_beta Let_def split: sum.split list.split)

lemma open_drain [simp]:
  "queue_open (fst (drain_connect now frame was a c)) = queue_open c"
  "queue_open (fst (drain_opened now r frame was a c)) = queue_open c"
proof -
  show "queue_open (fst (drain_connect now frame was a c)) = queue_open c"
    using open_connect(1) [of now c]
    by (cases rule: connect_cases [of now c]) (simp_all add: drain_connect_def case_prod_beta)
  show "queue_open (fst (drain_opened now r frame was a c)) = queue_open c"
    using open_connect(2) [of now r c]
    by (cases rule: opened_cases [of now r c]) (simp_all add: drain_opened_def case_prod_beta)
qed

lemma open_frame_sent: "frame_sent frame c = Some p \<Longrightarrow> queue_open (fst p) = queue_open c"
  by (elim frame_sent_cases) simp_all

lemma open_tasks [simp]:
  "queue_open (y_conn (wake env s)) = queue_open (y_conn s)"
  "queue_open (y_conn (fst (start_run now s))) = queue_open (y_conn s)"
  "queue_open (y_conn (fst (start_opened now r s))) = queue_open (y_conn s)"
  "queue_open (y_conn (fst (wake_run now fs s))) = queue_open (y_conn s)"
  "queue_open (y_conn (fst (wake_opened env now r fs s))) = queue_open (y_conn s)"
proof -
  show "queue_open (y_conn (wake env s)) = queue_open (y_conn s)" by (simp add: wake_def Let_def)
  show "queue_open (y_conn (fst (start_run now s))) = queue_open (y_conn s)"
    using open_connect(1) [of now "y_conn s"]
    by (cases rule: connect_cases [of now "y_conn s"]) (simp_all add: start_run_def)
  show "queue_open (y_conn (fst (start_opened now r s))) = queue_open (y_conn s)"
    using open_connect(2) [of now r "y_conn s"]
    by (cases rule: opened_cases [of now r "y_conn s"]) (simp_all add: start_opened_def)
  let ?c = "clear_backoff (fst (conn_close (y_conn s)))"
  show "queue_open (y_conn (fst (wake_run now fs s))) = queue_open (y_conn s)"
    using open_connect(1) [of now ?c]
    by (cases rule: connect_cases [of now ?c]) (simp_all add: wake_run_def case_prod_beta)
  show "queue_open (y_conn (fst (wake_opened env now r fs s))) = queue_open (y_conn s)"
    using open_connect(2) [of now r "y_conn s"]
    by (cases rule: opened_cases [of now r "y_conn s"]) (simp_all add: wake_opened_def)
qed

lemma open_step:
  assumes "relay_step env now i s = Some p"
  shows "queue_open (y_conn (fst p)) = queue_open (y_conn s)"
proof (cases i)
  case (Line line)
  show ?thesis using assms [unfolded Line] by (rule relay_step_Line) (simp add: incoming_frame)
next
  case (Sent r)
  show ?thesis using assms [unfolded Sent] by (rule relay_step_Sent) (simp_all add: open_frame_sent case_prod_beta)
qed (use assms in \<open>auto simp: transport_status_frame close_sub_frame signed_frame split: drainer.splits waker.splits if_splits\<close>)

text \<open>A shadowed frame over a run that does not end the session.\<close>

definition keeps_session :: "relay_input \<Rightarrow> bool" where
  "keeps_session i = (case i of Transport st \<Rightarrow> (case st of TransportConnected _ \<Rightarrow> True | _ \<Rightarrow> False) | _ \<Rightarrow> True)"

lemma shadowed_run:
  assumes "relay_inputs env ins s = Some p" "admits_all env" "queue_open (y_conn s)" "shadowed f (auth_view (y_conn s))"
    "Disconnect \<notin> set (snd p)" "list_all (keeps_session \<circ> snd) ins"
  shows "shadowed f (auth_view (y_conn (fst p))) \<or>
         (\<exists>pre now line post q r. ins = pre @ (now, line) # post \<and> relay_inputs env pre s = Some q \<and>
            relay_step env now line (fst q) = Some r \<and> replayed f (y_conn (fst q)) (y_conn (fst r)))"
  using assms
proof (induction env ins s arbitrary: p rule: relay_inputs.induct)
  case (2 env now i ins s)
  obtain q where q: "relay_step env now i s = Some q" using "2.prems"(1) by (auto split: option.splits)
  then obtain r where r: "relay_inputs env ins (fst q) = Some r" "p = (fst r, snd q @ snd r)"
    using "2.prems"(1) by (auto simp: case_prod_beta)
  have "\<not> ends_session i (snd q)"
    using "2.prems"(5,6) r(2) by (auto simp: ends_session_def keeps_session_def)
  then consider "shadowed f (auth_view (y_conn (fst q)))" | "replayed f (y_conn s) (y_conn (fst q))"
    using shadowed_step [OF q "2.prems"(2-4)] by blast
  then show ?case
  proof cases
    case 1
    have "shadowed f (auth_view (y_conn (fst r))) \<or>
         (\<exists>pre now line post q' r'. ins = pre @ (now, line) # post \<and> relay_inputs env pre (fst q) = Some q' \<and>
            relay_step env now line (fst q') = Some r' \<and> replayed f (y_conn (fst q')) (y_conn (fst r')))"
      using "2.IH" [of q "fst q" "snd q" r] q r 1 "2.prems"(2,3,5,6) open_step [OF q] by simp
    then show ?thesis
    proof
      assume "\<exists>pre now line post q' r'. ins = pre @ (now, line) # post \<and> relay_inputs env pre (fst q) = Some q' \<and>
            relay_step env now line (fst q') = Some r' \<and> replayed f (y_conn (fst q')) (y_conn (fst r'))"
      then obtain pre t line post q' r' where *: "ins = pre @ (t, line) # post" "relay_inputs env pre (fst q) = Some q'"
        "relay_step env t line (fst q') = Some r'" "replayed f (y_conn (fst q')) (y_conn (fst r'))" by blast
      have "relay_inputs env ((now, i) # pre) s = Some (fst q', snd q @ snd q')" using q *(2) by (simp add: case_prod_beta)
      then show ?thesis using * by (metis append_Cons fst_conv)
    qed (use r(2) in simp)
  next
    case 2
    have "relay_inputs env [] s = Some (s, [])" by simp
    then show ?thesis using q 2 by (metis append_Nil fst_conv)
  qed
qed simp

lemma ascii_words [simp]:
  "ascii ''REQ'' \<noteq> ascii ''CLOSE''" "ascii ''CLOSE'' \<noteq> ascii ''REQ''" by (simp_all add: ascii_def)

lemma frame_sent_request: "request_for sub frame \<Longrightarrow> frame_sent frame c = Some (req_sent frame sub (confirm_connection c))"
  by (auto simp: request_for_def frame_sent_def Let_def split: option.splits)

lemma unauthenticated_req_shadowed: "unauthenticated (rl_auth c) \<Longrightarrow> shadowed frame (auth_view (fst (req_sent frame sub c)))"
  by (simp add: req_sent_def Let_def)
    (auto simp: shadow_pre_auth_req_def shadowed_def auth_view_def Let_def split: auth_state.splits)

section \<open>Who authenticates, who asks for a signature\<close>

lemma frame_sent_auth:
  assumes "frame_sent frame c = Some p"
  shows "rl_auth c \<noteq> Authenticated \<Longrightarrow> rl_auth (fst p) \<noteq> Authenticated" "Crypto r \<notin> set (snd p)"
proof -
  have c: "rl_auth (confirm_connection c) = rl_auth c" by (simp add: confirm_connection_def clear_backoff_def)
  have "(rl_auth c \<noteq> Authenticated \<longrightarrow> rl_auth (fst p) \<noteq> Authenticated) \<and> Crypto r \<notin> set (snd p)"
    using assms
  proof (cases rule: frame_sent_cases)
    case (close sub)
    then show ?thesis using c by (simp add: close_sent_def conn_close_def clear_backoff_def case_prod_beta Let_def)
  next
    case (req sub)
    then show ?thesis using c by (simp add: req_sent_def shadow_pre_auth_req_def Let_def)
  next
    case other
    then show ?thesis using c by auto
  qed
  then show "rl_auth c \<noteq> Authenticated \<Longrightarrow> rl_auth (fst p) \<noteq> Authenticated" "Crypto r \<notin> set (snd p)" by auto
qed

lemma not_authenticated [simp]:
  "rl_auth (clear_backoff c) = rl_auth c" "rl_auth (confirm_connection c) = rl_auth c"
  "rl_auth (fst (conn_close c)) = AuthUnknown"
  "rl_auth (fst (send_raw env frame c)) = rl_auth c" "rl_auth (fst (close_sub env sub c)) = rl_auth c"
  "rl_auth (handle_signed_auth env ev c) = AuthPending" "rl_auth (fst (connect_begin now c)) = rl_auth c"
  "rl_auth (fst (staged now frame was i c)) = rl_auth c" "rl_auth (fst (drain_take now c)) = rl_auth c"
  "rl_auth (fst (drain_connect now frame was a c)) = rl_auth c" "rl_auth (y_conn (wake env s)) = rl_auth (y_conn s)"
  "rl_auth (enqueue_all env fs c) = rl_auth c" "rl_auth (closed_by_relay kind sb c) = rl_auth c"
  using auth_view_keep [where c = c] auth_view_close_sub [where c = c] auth_view_drain_connect [where c = c]
    auth_view_wake [where s = s] auth_view_enqueue_all [where c = c]
  by (simp_all add: auth_view_def handle_signed_auth_def case_prod_beta) (simp add: conn_close_def)

lemma connect_end_auth:
  "rl_auth c \<noteq> Authenticated \<Longrightarrow> rl_auth (fst (connect_end now r c)) \<noteq> Authenticated"
  by (simp add: connect_end_def schedule_reconnect_backoff_def Let_def split: sum.split)

lemma no_crypto [simp]:
  "Crypto q \<notin> set (snd (conn_close c))" "Crypto q \<notin> set (fst (snd (connect_begin now c)))"
  "Crypto q \<notin> set (fst (snd (connect_end now r c)))" "Crypto q \<notin> set (snd (snd (drain_take now c)))"
  by (auto simp: conn_close_def connect_begin_def connect_end_def drain_take_def Let_def split: sum.splits list.splits if_splits)

definition answers_challenge :: "relay_env \<Rightarrow> bytes \<Rightarrow> bool" where
  "answers_challenge env line =
     (case parse_incoming_relay_text (ye_searcher env) line of
        Some (Some (kind, _, _)) \<Rightarrow> kind = ascii ''AUTH''
      | _ \<Rightarrow> False)"

lemma first_response_crypto:
  assumes "Crypto q \<in> set (snd (handle_first_response env now kind content c))"
  shows "rl_auth c = AuthUnknown" "kind = ascii ''AUTH''" "AUTH_REQUEST_ID_MASK \<le> sq_request_id q"
  using assms
  by (auto simp: handle_first_response_def request_auth_signature_def Let_def le_word_or1 split: if_splits)

lemma incoming_auth:
  assumes "handle_incoming_message env now line c = Some p"
  shows "rl_auth (fst p) = Authenticated \<Longrightarrow> rl_auth c \<noteq> Authenticated \<Longrightarrow> relay_accepts env line (rl_auth c)"
    "Crypto q \<in> set (snd p) \<Longrightarrow> rl_auth c = AuthUnknown \<and> answers_challenge env line \<and> AUTH_REQUEST_ID_MASK \<le> sq_request_id q"
proof -
  have "(rl_auth (fst p) = Authenticated \<longrightarrow> rl_auth c \<noteq> Authenticated \<longrightarrow> relay_accepts env line (rl_auth c)) \<and>
      (Crypto q \<in> set (snd p) \<longrightarrow> rl_auth c = AuthUnknown \<and> answers_challenge env line \<and> AUTH_REQUEST_ID_MASK \<le> sq_request_id q)"
    using assms
  proof (cases rule: handle_incoming_some)
    case (frame kind sub content)
    let ?c = "closed_by_relay kind sub (confirm_connection c)" and ?t = "case content of Some t \<Rightarrow> t | None \<Rightarrow> []"
    have "rl_auth (fst (handle_first_response env now kind ?t ?c)) = Authenticated \<Longrightarrow> rl_auth c \<noteq> Authenticated
      \<Longrightarrow> relay_accepts env line (rl_auth c)"
      using first_response_authenticates [of env now kind ?t ?c] frame(1) by (auto simp: relay_accepts_def)
    moreover have "Crypto q \<in> set (snd (handle_first_response env now kind ?t ?c)) \<Longrightarrow>
        rl_auth c = AuthUnknown \<and> answers_challenge env line \<and> AUTH_REQUEST_ID_MASK \<le> sq_request_id q"
      using first_response_crypto [of q env now kind ?t ?c] frame(1) by (simp add: answers_challenge_def)
    ultimately show ?thesis using frame(2) by (auto simp: Let_def)
  qed simp
  then show "rl_auth (fst p) = Authenticated \<Longrightarrow> rl_auth c \<noteq> Authenticated \<Longrightarrow> relay_accepts env line (rl_auth c)"
    "Crypto q \<in> set (snd p) \<Longrightarrow> rl_auth c = AuthUnknown \<and> answers_challenge env line \<and> AUTH_REQUEST_ID_MASK \<le> sq_request_id q"
    by blast+
qed

definition auth_untouched :: "relay_system \<Rightarrow> relay_system \<times> relay_effect list \<Rightarrow> bool" where
  "auth_untouched s p =
     ((rl_auth (y_conn s) \<noteq> Authenticated \<longrightarrow> rl_auth (y_conn (fst p)) \<noteq> Authenticated) \<and> (\<forall>q. Crypto q \<notin> set (snd p)))"

lemma untouched_drain_connect: "auth_untouched s (drain_result s (drain_connect now frame was a (y_conn s)))"
  using no_crypto(2) [where now = now and c = "y_conn s"] not_authenticated(7) [of now "y_conn s"]
  by (cases rule: connect_cases [of now "y_conn s"]) (simp_all add: auth_untouched_def drain_connect_def case_prod_beta)

lemma untouched_drain_opened: "auth_untouched s (drain_result s (drain_opened now r frame was a (y_conn s)))"
  using no_crypto(3) [where now = now and c = "y_conn s" and r = r] connect_end_auth [of "y_conn s" now r]
  by (cases rule: opened_cases [of now r "y_conn s"]) (simp_all add: auth_untouched_def drain_opened_def case_prod_beta)

lemma untouched_tasks:
  "auth_untouched s (start_run now s)" "auth_untouched s (start_opened now r s)" "auth_untouched s (wake_run now fs s)"
  "auth_untouched s (wake_opened env now r fs s)"
proof -
  show "auth_untouched s (start_run now s)"
    using no_crypto(2) [where now = now and c = "y_conn s"] not_authenticated(7) [of now "y_conn s"]
    by (cases rule: connect_cases [of now "y_conn s"]) (simp_all add: auth_untouched_def start_run_def)
  show "auth_untouched s (start_opened now r s)"
    using no_crypto(3) [where now = now and c = "y_conn s" and r = r] connect_end_auth [of "y_conn s" now r]
    by (cases rule: opened_cases [of now r "y_conn s"]) (simp_all add: auth_untouched_def start_opened_def)
  show "auth_untouched s (wake_opened env now r fs s)"
    using no_crypto(3) [where now = now and c = "y_conn s" and r = r] connect_end_auth [of "y_conn s" now r]
    by (cases rule: opened_cases [of now r "y_conn s"]) (simp_all add: auth_untouched_def wake_opened_def)
  let ?c = "clear_backoff (fst (conn_close (y_conn s)))"
  show "auth_untouched s (wake_run now fs s)"
    using no_crypto(2) [where now = now and c = ?c] not_authenticated(7) [of now ?c]
    by (cases rule: connect_cases [of now ?c]) (simp_all add: auth_untouched_def wake_run_def case_prod_beta)
qed

lemma auth_untouched_step:
  assumes "relay_step env now i s = Some p" "\<forall>line. i \<noteq> Line line"
  shows "auth_untouched s p"
proof (cases i)
  case (Sent r)
  show ?thesis using assms(1) [unfolded Sent]
  proof (rule relay_step_Sent)
    fix frame was a q
    assume "frame_sent frame (y_conn s) = Some q" "p = drain_result s (fst q, Waiting, snd q)"
    then show ?thesis using frame_sent_auth [of frame "y_conn s" q] by (simp add: auth_untouched_def)
  qed (use untouched_drain_connect in \<open>simp_all add: auth_untouched_def case_prod_beta\<close>)
next
  case (Transport st)
  then show ?thesis using assms by (cases st) (auto simp: auth_untouched_def transport_lost_def split: if_splits)
next
  case (Slept)
  then show ?thesis using assms untouched_drain_connect by (auto split: drainer.splits) (auto simp: auth_untouched_def)
next
  case (Opened r)
  then show ?thesis using assms untouched_drain_opened by (auto split: drainer.splits) (auto simp: auth_untouched_def)
qed (use assms untouched_tasks in \<open>auto split: drainer.splits waker.splits if_splits\<close>, auto simp: auth_untouched_def)

text \<open>A valid text never makes the callback panic.\<close>

lemma incoming_total:
  assumes "searcher_ok (ye_searcher env)" "utf8_valid line"
  shows "\<exists>p. handle_incoming_message env now line c = Some p"
proof -
  let ?m = "ye_searcher env"
  have "\<exists>r. parse_incoming_relay_text ?m line = Some r"
    using scan_values_ok [OF assms]
  proof (elim disjE exE conjE)
    fix scan
    assume s: "scan_relay_frame ?m line = Some (Some scan)" "values_ok scan"
    obtain a b where "string_arg scan 0 = Some a" "arg_inner scan 0 = Some b" using arg_total [OF s(2), of 0] by auto
    then show ?thesis using s(1) by (simp add: parse_incoming_relay_text_def Let_def)
  qed (simp add: parse_incoming_relay_text_def)
  then show ?thesis by (auto simp: handle_incoming_message_def case_prod_beta Let_def split: option.split)
qed

section \<open>The address of a connection\<close>

lemma url_simple [simp]:
  "rl_url (clear_backoff c) = rl_url c" "rl_url (clear_retry_deadline c) = rl_url c"
  "rl_url (schedule_reconnect_backoff now c) = rl_url c" "rl_url (confirm_connection c) = rl_url c"
  "rl_url (fst (conn_close c)) = rl_url c" "rl_url (shadow_pre_auth_req frame c) = rl_url c"
  "rl_url (fst (send_raw e frame c)) = rl_url c" "rl_url (fst (connect_begin now c)) = rl_url c"
  "rl_url (fst (connect_end now r c)) = rl_url c" "rl_url (fst (staged now frame was i c)) = rl_url c"
  "rl_url (fst (drain_take now c)) = rl_url c" "rl_url (fst (close_sent sub c)) = rl_url c"
  "rl_url (fst (req_sent frame sub c)) = rl_url c" "rl_url (closed_by_relay kind sb c) = rl_url c"
  "rl_url (fst (handle_transport_status now st c)) = rl_url c"
proof -
  show simple: "rl_url (clear_backoff c) = rl_url c" "rl_url (clear_retry_deadline c) = rl_url c"
    "rl_url (schedule_reconnect_backoff now c) = rl_url c" "rl_url (confirm_connection c) = rl_url c"
    "rl_url (fst (conn_close c)) = rl_url c" "rl_url (shadow_pre_auth_req frame c) = rl_url c" for c
    by (simp_all add: clear_backoff_def clear_retry_deadline_def schedule_reconnect_backoff_def confirm_connection_def
        conn_close_def shadow_pre_auth_req_def Let_def)
  show "rl_url (fst (send_raw e frame c)) = rl_url c" "rl_url (fst (connect_begin now c)) = rl_url c"
    "rl_url (fst (connect_end now r c)) = rl_url c" "rl_url (fst (staged now frame was i c)) = rl_url c"
    "rl_url (fst (drain_take now c)) = rl_url c" "rl_url (fst (close_sent sub c)) = rl_url c"
    "rl_url (fst (req_sent frame sub c)) = rl_url c" "rl_url (closed_by_relay kind sb c) = rl_url c"
    by (simp_all add: simple send_raw_def connect_begin_def connect_end_def staged_def drain_take_def close_sent_def
        req_sent_def closed_by_relay_def case_prod_beta Let_def
        split: admission.split sum.split list.split option.split)
  show "rl_url (fst (handle_transport_status now st c)) = rl_url c"
    by (cases st) (simp_all add: transport_lost_def simple)
qed

lemma url_enqueue_all [simp]: "rl_url (enqueue_all e fs c) = rl_url c"
  by (induction fs arbitrary: c) simp_all

lemma url_auth [simp]:
  "rl_url (set_authenticated e c) = rl_url c" "rl_url (fst (handle_first_response e now kind content c)) = rl_url c"
  "rl_url (handle_signed_auth e ev c) = rl_url c" "rl_url (fst (close_sub e sub c)) = rl_url c"
  by (simp_all add: set_authenticated_def handle_first_response_def request_auth_signature_def handle_signed_auth_def
      close_sub_def case_prod_beta Let_def)

lemma url_drain [simp]:
  "rl_url (fst (drain_connect now frame was a c)) = rl_url c" "rl_url (fst (drain_opened now r frame was a c)) = rl_url c"
proof -
  show "rl_url (fst (drain_connect now frame was a c)) = rl_url c"
    using url_simple(8) [of now c]
    by (cases rule: connect_cases [of now c]) (simp_all add: drain_connect_def case_prod_beta)
  show "rl_url (fst (drain_opened now r frame was a c)) = rl_url c"
    using url_simple(9) [of now r c]
    by (cases rule: opened_cases [of now r c]) (simp_all add: drain_opened_def case_prod_beta)
qed

lemma url_tasks [simp]:
  "rl_url (y_conn (wake e s)) = rl_url (y_conn s)" "rl_url (y_conn (fst (start_run now s))) = rl_url (y_conn s)"
  "rl_url (y_conn (fst (start_opened now r s))) = rl_url (y_conn s)"
  "rl_url (y_conn (fst (wake_run now fs s))) = rl_url (y_conn s)"
  "rl_url (y_conn (fst (wake_opened e now r fs s))) = rl_url (y_conn s)"
proof -
  show "rl_url (y_conn (wake e s)) = rl_url (y_conn s)" by (simp add: wake_def Let_def)
  show "rl_url (y_conn (fst (start_run now s))) = rl_url (y_conn s)"
    using url_simple(8) [of now "y_conn s"]
    by (cases rule: connect_cases [of now "y_conn s"]) (simp_all add: start_run_def)
  show "rl_url (y_conn (fst (start_opened now r s))) = rl_url (y_conn s)"
    using url_simple(9) [of now r "y_conn s"]
    by (cases rule: opened_cases [of now r "y_conn s"]) (simp_all add: start_opened_def)
  let ?c = "clear_backoff (fst (conn_close (y_conn s)))"
  show "rl_url (y_conn (fst (wake_run now fs s))) = rl_url (y_conn s)"
    using url_simple(8) [of now ?c]
    by (cases rule: connect_cases [of now ?c]) (simp_all add: wake_run_def case_prod_beta)
  show "rl_url (y_conn (fst (wake_opened e now r fs s))) = rl_url (y_conn s)"
    using url_simple(9) [of now r "y_conn s"]
    by (cases rule: opened_cases [of now r "y_conn s"]) (simp_all add: wake_opened_def)
qed

lemma url_frame_sent: "frame_sent frame c = Some p \<Longrightarrow> rl_url (fst p) = rl_url c"
  by (elim frame_sent_cases) simp_all

lemma url_incoming: "handle_incoming_message e now line c = Some p \<Longrightarrow> rl_url (fst p) = rl_url c"
  by (elim handle_incoming_some) (simp_all add: Let_def)

lemma url_step:
  assumes "relay_step e now i s = Some p"
  shows "rl_url (y_conn (fst p)) = rl_url (y_conn s)"
proof (cases i)
  case (Line line)
  show ?thesis using assms [unfolded Line] by (rule relay_step_Line) (simp add: url_incoming)
next
  case (Sent r)
  show ?thesis using assms [unfolded Sent] by (rule relay_step_Sent) (simp_all add: url_frame_sent case_prod_beta)
qed (use assms in \<open>auto split: drainer.splits waker.splits if_splits\<close>)

section \<open>Properties\<close>

lemma reachable_inputs:
  "relay_inputs env ins s = Some p \<Longrightarrow> relay_reachable env url s \<Longrightarrow> relay_reachable env url (fst p)"
proof (induction env ins s arbitrary: p rule: relay_inputs.induct)
  case (2 env now i ins s)
  obtain q where q: "relay_step env now i s = Some q" using "2.prems"(1) by (auto split: option.splits)
  then obtain r where r: "relay_inputs env ins (fst q) = Some r" "p = (fst r, snd q @ snd r)"
    using "2.prems"(1) by (auto simp: case_prod_beta)
  have "relay_reachable env url (fst q)" using relay_reachable.step [of env url s now i "fst q" "snd q"] "2.prems"(2) q by simp
  then show ?case using "2.IH" [of q "fst q" "snd q" r] q r by simp
qed simp

text \<open>In every reachable state the active subscriptions are exactly those with stored requests, and what is stored
  for a subscription (what waking replays) is a non-empty list without repetition of REQ frames of that subscription.
\<close>

theorem subscriptions_have_requests:
  assumes "relay_reachable env url s"
  shows "active_subs (y_conn s) = fmdom (active_reqs (y_conn s)) \<and>
    fmpred (\<lambda>sub frames. frames \<noteq> [] \<and> distinct frames \<and> list_all (request_for sub) frames) (active_reqs (y_conn s))"
  using subs_reachable [OF assms] by (simp add: subs_agree_def subs_view_def)

text \<open>C30. When the first connect fails, and until the connection is woken, no input makes it open the transport or
  transmit anything: the queue only grows, and every frame sent meanwhile stays in it.
\<close>

theorem first_failure_strands_frames:
  assumes "y_start s = Starting" "y_drain s = Not_Started" "y_wake s = Idle" "queue_open (y_conn s)" "admits_all env"
    and "relay_inputs env ((t, Start_Opened (Err e)) # ins) s = Some (s', eff)" "list_all (\<lambda>(_, i). i \<noteq> Wake) ins"
  shows "list_all (\<lambda>x. \<not> uses_transport x) eff \<and> prefix (queue (y_conn s)) (queue (y_conn s')) \<and>
         (\<forall>now frame. (now, Send_Raw frame) \<in> set ins \<longrightarrow> frame \<in> set (queue (y_conn s')))"
proof -
  obtain q where q: "relay_step env t (Start_Opened (Err e)) s = Some q" by simp
  then have st: "stranded (fst q)" "quiet (snd q)" "queue (y_conn (fst q)) = queue (y_conn s)"
    using assms(1-4) by (auto simp: stranded_def start_opened_def connect_end_def)
  obtain r where r: "relay_inputs env ins (fst q) = Some r" "s' = fst r" "eff = snd q @ snd r"
    using assms(6) q by (auto simp: case_prod_beta)
  have "Wake \<notin> snd ` set ins" using assms(7) by (auto simp: list_all_iff)
  note run = stranded_run [OF r(1) st(1) assms(5) this]
  show ?thesis using run st r(2,3) by (simp add: quiet_def)
qed

text \<open>C31. A frame that cannot be sent is tried once, then after one reconnect and after each of the delays of the burst
  (three when the connection was confirmed, one otherwise); when all of it fails the frame is dropped, each failed
  open has counted as an attempt, and the cool-down after the last one has the length of that many attempts,
  between thirty seconds and thirty minutes.
\<close>

theorem failed_frame_backs_off:
  assumes "y_drain s = Waiting" "queue (y_conn s) = frame # q" "next_retry_at_ms (y_conn s) \<le> t0" "t0 \<le> t1"
    and "validate_relay_url (rl_url (y_conn s)) = Ok ()"
    and "length stages = (if connection_confirmed (y_conn s) then 3 else 1)"
    and "unat (backoff_attempts (y_conn s)) + 4 < 2 ^ 32"
  shows "\<exists>s' eff. relay_inputs env ((t0, Take) # (t1, Sent (Err e)) # (t2, Opened (Err e')) # failing_stages stages) s = Some (s', eff)
    \<and> y_drain s' = Waiting \<and> queue (y_conn s') = q \<and> opens eff = 1 + length stages
    \<and> unat (backoff_attempts (y_conn s')) = unat (backoff_attempts (y_conn s)) + 1 + length stages
    \<and> next_retry_at_ms (y_conn s') = fst (snd (List.last stages)) + backoff_delay (backoff_attempts (y_conn s'))
    \<and> 30000 \<le> backoff_delay (backoff_attempts (y_conn s')) \<and> backoff_delay (backoff_attempts (y_conn s')) \<le> 1800000"
proof -
  let ?was = "connection_confirmed (y_conn s)" and ?a = "backoff_attempts (y_conn s)"
  have len: "0 + length stages = length (retry_delays ?was)"
    using assms(6) by (simp add: retry_delays_def HEALTHY_RETRY_DELAYS_MS_def COLD_START_RETRY_DELAYS_MS_def)
  have ne: "stages \<noteq> []" using assms(6) by (auto split: if_splits)
  obtain p where p: "relay_inputs env [(t0, Take), (t1, Sent (Err e)), (t2, Opened (Err e'))] s = Some p" "opens (snd p) = 1"
    "after_failures t2 frame ?was 0 (saturating_inc ?a) q (rl_url (y_conn s)) (fst p)"
    by (rule failing_start [OF assms(1-5)])
  obtain r where r: "relay_inputs env (failing_stages stages) (fst p) = Some r" "opens (snd r) = length stages"
    "after_failures (if stages = [] then t2 else fst (snd (List.last stages))) frame ?was (length (retry_delays ?was))
       ((saturating_inc ^^ length stages) (saturating_inc ?a)) q (rl_url (y_conn s)) (fst r)"
    by (rule failing_stages_run [OF p(3) assms(5) len])
  let ?b = "(saturating_inc ^^ length stages) (saturating_inc ?a)"
  have "unat (saturating_inc ?a) = unat ?a + 1" using assms(7) by (simp add: unat_saturating_inc)
  then have "unat ?b = unat ?a + 1 + length stages"
    using unat_saturating_incs [of "saturating_inc ?a" "length stages"] assms(6,7) by (auto split: if_splits)
  moreover have "relay_inputs env ((t0, Take) # (t1, Sent (Err e)) # (t2, Opened (Err e')) # failing_stages stages) s = Some (fst r, snd p @ snd r)"
    using relay_inputs_append [of env "[(t0, Take), (t1, Sent (Err e)), (t2, Opened (Err e'))]" "failing_stages stages" s] p(1) r(1)
    by (simp del: relay_step.simps relay_inputs.simps)
  moreover have "30000 \<le> backoff_delay ?b" "backoff_delay ?b \<le> 1800000"
    using backoff_delay_bounds [of ?b] by (simp_all add: RECONNECT_RETRY_BASE_DELAY_MS_def RECONNECT_RETRY_MAX_DELAY_MS_def)
  ultimately show ?thesis using p(2) r(2,3) ne by (intro exI [of _ "fst r"] exI [of _ "snd p @ snd r"]) (simp add: after_failures_def Let_def)
qed

text \<open>C32. While a failed connection cools down, with its tasks at rest, nothing is opened or transmitted before the retry
  time, whatever is sent, closed or signed and whatever failures the transport reports.
\<close>

theorem cooldown_respected:
  assumes "y_start s = Started" "y_drain s = Waiting" "y_wake s = Idle" "rl_status (y_conn s) = Failed"
    and "relay_inputs env ins s = Some (s', eff)"
    and "list_all (\<lambda>(now, i). undisturbing i \<and> now < next_retry_at_ms (y_conn s)) ins"
  shows "list_all (\<lambda>x. \<not> uses_transport x) eff \<and> next_retry_at_ms (y_conn s') = next_retry_at_ms (y_conn s)"
proof -
  have "cooling (next_retry_at_ms (y_conn s)) s" using assms(1-4) by (simp add: cooling_def)
  then have "cooling (next_retry_at_ms (y_conn s)) s' \<and> quiet eff"
    using cooling_run [of env ins s "(s', eff)"] assms(5,6) by simp
  then show ?thesis by (simp add: quiet_def cooling_def)
qed

text \<open>C33. A REQ transmitted before the relay has said whether it wants authentication is not lost: through every run that
  keeps the session it stays shadowed, until an answer of the relay authenticates the connection; if that is the
  acceptance of a signed challenge, the request is queued again.
\<close>

theorem shadowed_request_replayed:
  assumes "relay_step env t (Sent (Ok ())) s = Some (s1, eff1)" "y_drain s = Sending frame was a" "request_for sub frame"
    and "unauthenticated (rl_auth (y_conn s))" "queue_open (y_conn s)" "admits_all env"
    and "relay_inputs env ins s1 = Some (s2, eff)" "Disconnect \<notin> set eff" "list_all (keeps_session \<circ> snd) ins"
  shows "shadowed frame (auth_view (y_conn s2)) \<or>
         (\<exists>pre now line post q r. ins = pre @ (now, line) # post \<and> relay_inputs env pre s1 = Some q \<and>
            relay_step env now line (fst q) = Some r \<and> replayed frame (y_conn (fst q)) (y_conn (fst r)))"
proof -
  have s1: "y_conn s1 = fst (req_sent frame sub (confirm_connection (y_conn s)))"
    using assms(1,2) frame_sent_request [OF assms(3), of "y_conn s"]
    by (auto simp: drain_sent_def drain_result_def case_prod_beta)
  have "shadowed frame (auth_view (y_conn s1))"
    unfolding s1 using unauthenticated_req_shadowed [of "confirm_connection (y_conn s)" frame sub] assms(4) by simp
  moreover have "queue_open (y_conn s1)" using s1 assms(5) by simp
  ultimately show ?thesis using shadowed_run [OF assms(7,6)] assms(8,9) by simp
qed

text \<open>C34. Only an answer of the relay authenticates a connection: its first frame, when that is no challenge, or an
  accepting OK while a signed challenge is pending. A signature is asked for only when the first frame is a
  challenge, so one that comes later is not answered; the ids of these requests lie above those of clients.
\<close>

theorem authenticated_by_relay:
  assumes "relay_step env now i s = Some (s', eff)"
  shows "(rl_auth (y_conn s) \<noteq> Authenticated \<and> rl_auth (y_conn s') = Authenticated \<longrightarrow>
           (\<exists>line. i = Line line \<and> relay_accepts env line (rl_auth (y_conn s)))) \<and>
         (Crypto q \<in> set eff \<longrightarrow>
           rl_auth (y_conn s) = AuthUnknown \<and> (\<exists>line. i = Line line \<and> answers_challenge env line)
           \<and> 0x8000000000000000 \<le> sq_request_id q)"
proof -
  have line: "\<exists>p. handle_incoming_message env now line (y_conn s) = Some p \<and> y_conn s' = fst p \<and> eff = snd p" if "i = Line line" for line
    using assms that by (auto simp: conn_result_def)
  have other: "auth_untouched s (s', eff)" if "\<forall>line. i \<noteq> Line line" using auth_untouched_step [OF assms that] .
  have "rl_auth (y_conn s) \<noteq> Authenticated \<Longrightarrow> rl_auth (y_conn s') = Authenticated \<Longrightarrow>
           \<exists>line. i = Line line \<and> relay_accepts env line (rl_auth (y_conn s))"
    using line incoming_auth(1) other by (metis auth_untouched_def fst_conv)
  moreover have "Crypto q \<in> set eff \<Longrightarrow>
           rl_auth (y_conn s) = AuthUnknown \<and> (\<exists>line. i = Line line \<and> answers_challenge env line)
           \<and> 0x8000000000000000 \<le> sq_request_id q"
    using line incoming_auth(2) other by (metis auth_untouched_def snd_conv AUTH_REQUEST_ID_MASK_def)
  ultimately show ?thesis by blast
qed

text \<open>A reconnect of the drainer transmits the frame it is for and queues none of the active requests.\<close>

lemma reconnect_renews_nothing:
  assumes "y_drain s = Reconnecting frame was a"
  shows "\<exists>s' url. relay_step env now (Opened (Ok ())) s = Some (s', [Report ''connected'' url, Transmit frame])
    \<and> queue (y_conn s') = queue (y_conn s) \<and> active_reqs (y_conn s') = active_reqs (y_conn s)"
  using assms by (simp add: drain_opened_def connect_end_def drain_result_def)

section \<open>Examples\<close>

definition example_relay_env :: relay_env where
  "example_relay_env =
     \<lparr>ye_searcher = std_searcher, ye_channel = (\<lambda>_. Admitted), ye_auth_payload = (\<lambda>challenge _ _. challenge), ye_order = (\<lambda>_. [])\<rparr>"

definition example_req :: bytes where
  "example_req = ascii ''[\"REQ\",\"s\",{}]''"

lemma example_admits: "admits_all example_relay_env"
  by (simp add: admits_all_def example_relay_env_def)

definition example_conn :: relay_connection where
  "example_conn = (relay_connection_new (ascii ''wss://r''))\<lparr>rl_status := Connected, connected_at := Some 1, receiver_taken := True\<rparr>"

definition example_sent :: relay_connection where
  "example_sent = example_conn\<lparr>connection_confirmed := True, active_subs := {|ascii ''s''|},
     active_reqs := fmupd (ascii ''s'') [example_req] fmempty, pre_auth_queue := [example_req]\<rparr>"

definition sys_at :: "relay_connection \<Rightarrow> drainer \<Rightarrow> relay_system" where
  "sys_at c d = \<lparr>y_conn = c, y_start = Started, y_drain = d, y_wake = Idle\<rparr>"

lemma example_parts: "sent_parts example_req = Some (Some (ascii ''REQ'', ascii ''\"s\"''))"
  unfolding example_req_def by code_simp

lemma example_url: "validate_relay_url (ascii ''wss://r'') = Ok ()"
  by code_simp

lemma example_quotes: "trim_quotes (ascii ''\"s\"'') = ascii ''s''"
  by code_simp

lemma example_request_for: "request_for (ascii ''s'') example_req"
  by (simp add: request_for_def example_parts example_quotes)

lemmas example_simps = example_relay_env_def example_conn_def example_sent_def sys_at_def relay_connection_new_def
  relay_system_new_def send_raw_def frame_sent_def example_parts example_quotes req_sent_def shadow_pre_auth_req_def
  confirm_connection_def clear_backoff_def Let_def

lemma example_transmitted:
  "relay_inputs example_relay_env [(2, Send_Raw example_req), (3, Take)] (sys_at example_conn Waiting) =
     Some (sys_at example_conn (Sending example_req False Direct), [Transmit example_req])"
  by (simp add: example_simps drain_take_def drain_result_def)

lemma example_answered:
  "relay_step example_relay_env 4 (Sent (Ok ())) (sys_at example_conn (Sending example_req False Direct)) =
     Some (sys_at example_sent Waiting, [Out (ascii ''wss://r'') (ascii ''s'') (ok_frame (ascii ''s'') ''SUBSCRIBED'')])"
  by (simp add: example_simps drain_sent_def drain_result_def)

lemma example_started:
  "relay_inputs example_relay_env [(0, Start_Run), (1, Start_Opened (Ok ()))] (relay_system_new (ascii ''wss://r'')) =
     Some (sys_at example_conn Waiting,
       [Report ''connecting'' (ascii ''wss://r''), Open, Report ''connected'' (ascii ''wss://r'')])"
  by (simp add: example_simps start_run_def start_opened_def connect_begin_def connect_end_def example_url
      should_delay_reconnect_def drainer_after_def)

lemma example_reachable: "relay_reachable example_relay_env (ascii ''wss://r'') (sys_at example_sent Waiting)"
proof -
  have "relay_reachable example_relay_env (ascii ''wss://r'') (sys_at example_conn Waiting)"
    using reachable_inputs [OF example_started relay_reachable.new] by simp
  then have "relay_reachable example_relay_env (ascii ''wss://r'') (sys_at example_conn (Sending example_req False Direct))"
    using reachable_inputs [OF example_transmitted] by simp
  then show ?thesis using relay_reachable.step example_answered by blast
qed

theorem subscriptions_have_requests_witness:
  "active_subs example_sent = {|ascii ''s''|} \<and> active_subs example_sent = fmdom (active_reqs example_sent)
   \<and> list_all (request_for (ascii ''s'')) (the (fmlookup (active_reqs example_sent) (ascii ''s'')))"
  using subscriptions_have_requests [OF example_reachable] example_request_for by (simp add: sys_at_def example_sent_def)

theorem first_failure_strands_frames_witness:
  "example_req \<in> set (queue (y_conn (fst (the (relay_inputs example_relay_env
     [(1, Start_Opened (Err [])), (2, Send_Raw example_req), (3, Take), (100000, Take)]
     ((relay_system_new (ascii ''wss://r''))\<lparr>y_start := Starting\<rparr>))))))"
proof -
  let ?s = "(relay_system_new (ascii ''wss://r''))\<lparr>y_start := Starting\<rparr>"
  let ?ins = "[(2, Send_Raw example_req), (3, Take), (100000, Take)]"
  obtain s' eff where "relay_inputs example_relay_env ((1, Start_Opened (Err [])) # ?ins) ?s = Some (s', eff)"
    by (simp add: relay_system_new_def start_opened_def connect_end_def)
  then show ?thesis using first_failure_strands_frames [of ?s example_relay_env 1 "[]" ?ins s' eff] example_admits
    by (auto simp: relay_system_new_def relay_connection_new_def)
qed

theorem failed_frame_backs_off_witness:
  "\<exists>s' eff. relay_inputs example_relay_env
     ((10, Take) # (11, Sent (Err [])) # (12, Opened (Err [])) # failing_stages [(212, 213, [])])
     (sys_at (example_conn\<lparr>queue := [example_req]\<rparr>) Waiting) = Some (s', eff)
   \<and> opens eff = 2 \<and> next_retry_at_ms (y_conn s') = 213 + backoff_delay (backoff_attempts (y_conn s'))
   \<and> unat (backoff_attempts (y_conn s')) = 2"
  using failed_frame_backs_off [of "sys_at (example_conn\<lparr>queue := [example_req]\<rparr>) Waiting" example_req "[]" 10 11
      "[(212, 213, [])]" example_relay_env "[]" 12 "[]"] example_url
  by (auto simp: sys_at_def example_conn_def relay_connection_new_def simp del: relay_inputs.simps)

theorem cooldown_respected_witness:
  "snd (the (relay_inputs example_relay_env [(5, Send_Raw example_req), (6, Take)]
     (sys_at (example_conn\<lparr>rl_status := Failed, next_retry_at_ms := 30000\<rparr>) Waiting))) = []
   \<and> list_all (\<lambda>x. \<not> uses_transport x) (snd (the (relay_inputs example_relay_env [(5, Send_Raw example_req), (6, Take)]
     (sys_at (example_conn\<lparr>rl_status := Failed, next_retry_at_ms := 30000\<rparr>) Waiting))))"
proof -
  let ?s = "sys_at (example_conn\<lparr>rl_status := Failed, next_retry_at_ms := 30000\<rparr>) Waiting"
  let ?ins = "[(5, Send_Raw example_req), (6, Take)]"
  obtain s' where r: "relay_inputs example_relay_env ?ins ?s = Some (s', [])"
    by (simp add: example_simps drain_take_def drain_result_def)
  show ?thesis using cooldown_respected [of ?s example_relay_env ?ins s' "[]"] r
    by (simp add: sys_at_def example_conn_def relay_connection_new_def del: relay_inputs.simps)
qed

definition example_challenge :: bytes where
  "example_challenge = ascii ''[\"AUTH\",\"c\"]''"

definition example_ok :: bytes where
  "example_ok = ascii ''[\"OK\",\"e\",true,\"\"]''"

lemma example_scans:
  "scan_relay_frame std_searcher example_challenge =
     Some (Some \<lparr>sf_kind = ascii ''AUTH'', sf_args = [Some \<lparr>sv_raw = ascii ''\"c\"'', sv_is_string = True\<rparr>, None, None]\<rparr>)"
  "scan_relay_frame std_searcher example_ok =
     Some (Some \<lparr>sf_kind = ascii ''OK'', sf_args = [Some \<lparr>sv_raw = ascii ''\"e\"'', sv_is_string = True\<rparr>,
       Some \<lparr>sv_raw = ascii ''true'', sv_is_string = False\<rparr>, Some \<lparr>sv_raw = ascii ''\"\"'', sv_is_string = True\<rparr>]\<rparr>)"
  using scan_relay_frame_text [OF std_searcher_ok, of "[]" "[]" "EString (map Plain (ascii ''AUTH''))"
      "[([], [], EString [Plain 0x63])]" "[]" "[]"]
    scan_relay_frame_text [OF std_searcher_ok, of "[]" "[]" "EString (map Plain (ascii ''OK''))"
      "[([], [], EString [Plain 0x65]), ([], [], EToken (ascii ''true'')), ([], [], EString [])]" "[]" "[]"]
  by (simp_all add: example_challenge_def example_ok_def ascii_def json_ws_def arg_ok_def structural_def frame_text_def
      rest_text_def arg_text_def str_text_def element_inner_def element_value_def token_end_def is_ascii_whitespace_def numeral_3_eq_3)

lemma example_lines:
  "parse_incoming_relay_text std_searcher example_challenge = Some (Some (ascii ''AUTH'', None, Some (ascii ''c'')))"
  "parse_incoming_relay_text std_searcher example_ok = Some (Some (ascii ''OK'', Some (ascii ''e''), Some (ascii ''true,\"\"'')))"
  unfolding parse_incoming_relay_text_def example_scans option.case by code_simp+

lemma example_accepted: "auth_accepted (ascii ''true,\"\"'')"
  by code_simp

lemma example_words: "ascii ''AUTH'' \<noteq> ascii ''CLOSED''" "ascii ''OK'' \<noteq> ascii ''CLOSED''" "ascii ''OK'' \<noteq> ascii ''AUTH''"
  by (simp_all add: ascii_def)

text \<open>The session of a relay that wants authentication: a request, the challenge, its signature, the acceptance.\<close>

definition example_auth_inputs :: "(nat \<times> relay_input) list" where
  "example_auth_inputs = [(5, Line example_challenge), (6, Signed (ascii ''{}'')), (7, Line example_ok)]"

lemma example_auth_run:
  "\<exists>s eff. relay_inputs example_relay_env example_auth_inputs (sys_at example_sent Waiting) = Some (s, eff)
     \<and> rl_auth (y_conn s) = Authenticated \<and> Disconnect \<notin> set eff"
  by (simp add: example_auth_inputs_def example_simps conn_result_def handle_incoming_message_def example_lines
      closed_by_relay_def handle_first_response_def request_auth_signature_def handle_signed_auth_def
      set_authenticated_def example_accepted example_words)

theorem shadowed_request_replayed_witness:
  "\<exists>pre now line post q r. example_auth_inputs = pre @ (now, line) # post \<and>
     relay_inputs example_relay_env pre (sys_at example_sent Waiting) = Some q \<and>
     relay_step example_relay_env now line (fst q) = Some r \<and> replayed example_req (y_conn (fst q)) (y_conn (fst r))"
proof -
  obtain s eff where run: "relay_inputs example_relay_env example_auth_inputs (sys_at example_sent Waiting) = Some (s, eff)"
    "rl_auth (y_conn s) = Authenticated" "Disconnect \<notin> set eff"
    using example_auth_run by blast
  have "y_drain (sys_at example_conn (Sending example_req False Direct)) = Sending example_req False Direct"
    "unauthenticated (rl_auth (y_conn (sys_at example_conn (Sending example_req False Direct))))"
    "queue_open (y_conn (sys_at example_conn (Sending example_req False Direct)))"
    by (simp_all add: sys_at_def example_conn_def relay_connection_new_def)
  moreover have "list_all (keeps_session \<circ> snd) example_auth_inputs" by (simp add: example_auth_inputs_def keeps_session_def)
  moreover have "\<not> shadowed example_req (auth_view (y_conn s))" using run(2) by (simp add: shadowed_def auth_view_def)
  ultimately show ?thesis
    using shadowed_request_replayed [OF example_answered _ example_request_for _ _ example_admits run(1) run(3)] by blast
qed

theorem authenticated_by_relay_witness:
  "relay_accepts example_relay_env example_ok AuthPending"
proof -
  let ?s = "sys_at (example_sent\<lparr>rl_auth := AuthPending\<rparr>) Waiting"
  obtain s' eff where "relay_step example_relay_env 7 (Line example_ok) ?s = Some (s', eff)" "rl_auth (y_conn s') = Authenticated"
    by (simp add: example_simps conn_result_def handle_incoming_message_def example_lines
      closed_by_relay_def handle_first_response_def set_authenticated_def example_accepted example_words)
  then show ?thesis using authenticated_by_relay [of example_relay_env 7 "Line example_ok" ?s s' eff]
    by (simp add: sys_at_def del: relay_step.simps)
qed

end
