(* ===== verification/Json_Value.thy ===== *)
theory Json_Value
  imports Event_Json "HOL-Library.Countable"
begin

text \<open>
  What the workers rely on in \<open>serde_json\<close>, whose code is not part of the repository. Its objects are B-trees: of
  equal keys the last counts, and the entries are written in the order of their keys (\<open>json_norm\<close>). Reading back
  a written value gives the value in this form, as long as its numbers have 64 bits, its strings are UTF-8 and it
  is nested at most 127 deep, the recursion limit of the reader (\<open>json_printable\<close>, \<open>json_codec_ok\<close>).
\<close>

fun key_before :: "string \<Rightarrow> string \<Rightarrow> bool" where
  "key_before [] ys = (ys \<noteq> [])"
| "key_before (x # xs) [] = False"
| "key_before (x # xs) (y # ys) = (if x = y then key_before xs ys else (of_char x :: nat) < of_char y)"

fun btree_insert :: "string \<Rightarrow> 'a \<Rightarrow> (string \<times> 'a) list \<Rightarrow> (string \<times> 'a) list" where
  "btree_insert k v [] = [(k, v)]"
| "btree_insert k v ((j, x) # kvs) =
     (if k = j then (k, v) # kvs else if key_before k j then (k, v) # (j, x) # kvs else (j, x) # btree_insert k v kvs)"

definition btree_of :: "(string \<times> 'a) list \<Rightarrow> (string \<times> 'a) list" where
  "btree_of kvs = fold (\<lambda>(k, v). btree_insert k v) kvs []"

primrec json_norm :: "json \<Rightarrow> json" where
  "json_norm JNull = JNull"
| "json_norm (JBool b) = JBool b"
| "json_norm (JNum n) = JNum n"
| "json_norm (JStr s) = JStr s"
| "json_norm (JArr xs) = JArr (map json_norm xs)"
| "json_norm (JObj kvs) = JObj (btree_of (map (map_prod (\<lambda>k. k) json_norm) kvs))"

text \<open>\<open>json_fits n v\<close>: the value is nested at most \<open>n\<close> deep, its numbers have 64 bits, its strings are UTF-8.\<close>

primrec json_fits :: "json \<Rightarrow> nat \<Rightarrow> bool" where
  "json_fits JNull = (\<lambda>n. True)"
| "json_fits (JBool b) = (\<lambda>n. True)"
| "json_fits (JNum i) = (\<lambda>n. - (2 ^ 63) \<le> i \<and> i < 2 ^ 64)"
| "json_fits (JStr s) = (\<lambda>n. utf8_valid (ascii s))"
| "json_fits (JArr xs) = (\<lambda>n. 0 < n \<and> list_all (\<lambda>f. f (n - 1)) (map json_fits xs))"
| "json_fits (JObj kvs) = (\<lambda>n. 0 < n \<and> list_all (\<lambda>(k, f). utf8_valid (ascii k) \<and> f (n - 1)) (map (map_prod (\<lambda>k. k) json_fits) kvs))"

definition json_printable :: "json \<Rightarrow> bool" where
  "json_printable v = json_fits v 127"

definition json_codec_ok :: "(bytes \<Rightarrow> json option) \<Rightarrow> (json \<Rightarrow> bytes) \<Rightarrow> bool" where
  "json_codec_ok parse print =
     (\<forall>v. json_printable v \<longrightarrow> parse (print v) = Some (json_norm v) \<and> utf8_valid (print v))"

lemma json_codecD:
  "json_codec_ok parse print \<Longrightarrow> json_printable v \<Longrightarrow> parse (print v) = Some (json_norm v)"
  "json_codec_ok parse print \<Longrightarrow> json_printable v \<Longrightarrow> utf8_valid (print v)"
  by (simp_all add: json_codec_ok_def)

lemma json_fits_simps [simp]:
  "json_fits (JArr xs) n = (0 < n \<and> list_all (\<lambda>v. json_fits v (n - 1)) xs)"
  "json_fits (JObj kvs) n = (0 < n \<and> list_all (\<lambda>(k, v). utf8_valid (ascii k) \<and> json_fits v (n - 1)) kvs)"
  by (simp_all add: list.pred_map comp_def map_prod_def case_prod_unfold)

declare json_fits.simps(5,6) [simp del]

section \<open>Normal forms\<close>

lemma key_before_irrefl: "\<not> key_before k k"
  by (induction k) simp_all

lemma key_before_trans: "key_before a b \<Longrightarrow> key_before b c \<Longrightarrow> key_before a c"
proof (induction a b arbitrary: c rule: key_before.induct)
  case (3 x xs y ys)
  then show ?case by (cases c) (auto split: if_splits)
qed (simp_all, metis key_before.elims(2) list.distinct(1))

lemma key_before_total: "a \<noteq> b \<Longrightarrow> \<not> key_before a b \<Longrightarrow> key_before b a"
proof (induction a b rule: key_before.induct)
  case (3 x xs y ys)
  have "of_char x < (of_char y :: nat) \<or> of_char y < (of_char x :: nat)" if "x \<noteq> y"
    using that by (meson linorder_neqE_nat of_char_eq_iff)
  then show ?case using 3 by (auto split: if_splits)
qed (auto elim: key_before.elims)

definition in_key_order :: "(string \<times> 'a) list \<Rightarrow> bool" where
  "in_key_order kvs = sorted_wrt key_before (map fst kvs)"

lemma btree_insert_keys: "fst ` set (btree_insert k v kvs) = insert k (fst ` set kvs)"
  by (induction k v kvs rule: btree_insert.induct) auto

lemma btree_insert_order: "in_key_order kvs \<Longrightarrow> in_key_order (btree_insert k v kvs)"
proof (induction k v kvs rule: btree_insert.induct)
  case (2 k v j x kvs)
  then have s: "in_key_order kvs" "\<forall>i \<in> fst ` set kvs. key_before j i" by (auto simp: in_key_order_def)
  consider "k = j" | "k \<noteq> j" "key_before k j" | "k \<noteq> j" "\<not> key_before k j" "key_before j k" using key_before_total by blast
  then show ?case
  proof cases
    case 3
    have "in_key_order (btree_insert k v kvs)" using 2(1) 3 s(1) by simp
    moreover have "\<forall>i \<in> fst ` set (btree_insert k v kvs). key_before j i" using 3 s(2) by (simp add: btree_insert_keys)
    ultimately show ?thesis using 3 by (auto simp: in_key_order_def)
  qed (use s key_before_trans in \<open>auto simp: in_key_order_def\<close>)
qed (simp add: in_key_order_def)

lemma btree_of_order: "in_key_order (btree_of kvs)"
proof -
  have "in_key_order acc \<Longrightarrow> in_key_order (fold (\<lambda>(k, v). btree_insert k v) kvs acc)" for acc
    by (induction kvs arbitrary: acc) (auto simp: btree_insert_order)
  then show ?thesis by (simp add: btree_of_def in_key_order_def)
qed

lemma btree_insert_last: "\<forall>j \<in> fst ` set kvs. key_before j k \<Longrightarrow> btree_insert k v kvs = kvs @ [(k, v)]"
proof (induction k v kvs rule: btree_insert.induct)
  case (2 k v j x kvs)
  then have "key_before j k" by simp
  then have "k \<noteq> j" "\<not> key_before k j" using key_before_irrefl key_before_trans by blast+
  then show ?case using 2 by simp
qed simp

lemma btree_of_ordered: "in_key_order kvs \<Longrightarrow> btree_of kvs = kvs"
proof (induction kvs rule: rev_induct)
  case (snoc kv kvs)
  obtain k v where kv: "kv = (k, v)" by (cases kv)
  have "in_key_order kvs" "\<forall>j \<in> fst ` set kvs. key_before j k"
    using snoc.prems by (auto simp: in_key_order_def sorted_wrt_append kv)
  then show ?case using snoc.IH btree_insert_last [of kvs k v] by (simp add: btree_of_def kv)
qed (simp add: btree_of_def)

lemma btree_insert_map: "btree_insert k (f v) (map (map_prod (\<lambda>k. k) f) kvs) = map (map_prod (\<lambda>k. k) f) (btree_insert k v kvs)"
  by (induction k v kvs rule: btree_insert.induct) auto

lemma btree_of_map: "btree_of (map (map_prod (\<lambda>k. k) f) kvs) = map (map_prod (\<lambda>k. k) f) (btree_of kvs)"
proof (induction kvs rule: rev_induct)
  case (snoc kv kvs)
  then show ?case by (cases kv) (simp add: btree_of_def btree_insert_map)
qed (simp add: btree_of_def)

lemma json_norm_idem [simp]: "json_norm (json_norm v) = json_norm v"
proof (induction v)
  case (JObj kvs)
  let ?n = "map_prod (\<lambda>k. k) json_norm"
  have n: "map ?n (map ?n kvs) = map ?n kvs" using JObj by (auto simp: snds.simps)
  have "map ?n (btree_of (map ?n kvs)) = btree_of (map ?n (map ?n kvs))" by (rule btree_of_map [symmetric])
  then have "btree_of (map ?n (btree_of (map ?n kvs))) = btree_of (btree_of (map ?n kvs))" unfolding n by simp
  also have "\<dots> = btree_of (map ?n kvs)" by (rule btree_of_ordered [OF btree_of_order])
  finally show ?case by simp
qed simp_all

lemma btree_of_set: "set (btree_of kvs) \<subseteq> set kvs"
proof -
  have ins: "set (btree_insert k v kvs) \<subseteq> insert (k, v) (set kvs)" for k :: string and v :: 'a and kvs
    by (induction k v kvs rule: btree_insert.induct) auto
  have "set (fold (\<lambda>(k, v). btree_insert k v) kvs acc) \<subseteq> set kvs \<union> set acc" for acc :: "(string \<times> 'a) list"
  proof (induction kvs arbitrary: acc)
    case (Cons kv kvs)
    obtain k v where kv: "kv = (k, v)" by (cases kv)
    show ?case using Cons.IH [of "btree_insert k v acc"] ins [of k v acc] by (auto simp: kv)
  qed simp
  from this [of "[]"] show ?thesis by (simp add: btree_of_def)
qed

lemma json_norm_fits: "json_fits v n \<Longrightarrow> json_fits (json_norm v) n"
proof (induction v arbitrary: n)
  case (JArr xs)
  then show ?case by (auto simp: list_all_iff)
next
  case (JObj kvs)
  let ?n = "map_prod (\<lambda>k. k) json_norm"
  have "utf8_valid (ascii k) \<and> json_fits x (n - 1)" if kx: "(k, x) \<in> set (btree_of (map ?n kvs))" for k x
  proof -
    obtain y where "(k, y) \<in> set kvs" "x = json_norm y" using kx btree_of_set [of "map ?n kvs"] by auto
    then show ?thesis using JObj by (auto simp: list_all_iff snds.simps)
  qed
  then show ?case using JObj.prems by (auto simp: list_all_iff)
qed simp_all

section \<open>A codec\<close>

text \<open>A codec that satisfies the law: the text of a value is as many letters as the number of its normal form in
  an enumeration of the values.\<close>

instance json :: countable
  by countable_datatype

definition counted_text :: "json \<Rightarrow> string" where
  "counted_text v = replicate (to_nat (json_norm v)) (CHR ''a'')"

definition counted_parse :: "bytes \<Rightarrow> json option" where
  "counted_parse b = Some (from_nat (length b))"

lemma counted_text_plain: "\<forall>b \<in> set (ascii (counted_text v)). b < 0x80"
  by (simp add: counted_text_def ascii_def)

lemma utf8_plain: "\<forall>b \<in> set bs. b < 0x80 \<Longrightarrow> utf8_valid bs"
  by (induction bs) simp_all

lemma counted_codec: "json_codec_ok counted_parse (\<lambda>v. ascii (counted_text v))"
  using utf8_plain [OF counted_text_plain] by (simp add: json_codec_ok_def counted_parse_def, simp add: counted_text_def ascii_def)

end
