(* ===== verification/Connections_Worker.thy ===== *)
theory Connections_Worker
  imports Relay_Session Nostr_Event Json_Value
begin

text \<open>
  The connections worker, after \<open>core/src/worker/connections_worker.rs\<close>: the table of relay connections, the
  shortening of long subscription ids, the relays and the deduplication window of each subscription, the
  writer through which the connections hand frames to the parser, and the loops over the messages of the
  parser, the cache and the crypto worker. A connection is a machine of \<open>Relay_Connection\<close>; the worker performs the effects
  that its steps return, so a step of the worker is one message of a loop, one turn of a connection or one
  sweep of the batches. A connection that the parser closes leaves the table but keeps running, so
  the table maps addresses to indices into the list of connections. \<open>serde_json\<close>, the FlatBuffers readers and
  builders, the hexadecimal decoder and the orders of hash maps are parameters. A panic is \<open>None\<close>.

  The theory shows: an event goes to the parser once per subscription, whichever relays send it; a control
  frame reaches the parser after the events that came before it; shortened ids are translated back unless they
  collide; and the last CLOSE of a subscription frees its window, which a late event takes again.
\<close>

section \<open>Types and parameters\<close>

datatype hub_content = HcRaw "bytes option" | HcEvent "nostr_event option" | HcStatus "bytes option" | HcOther

record hub_message =
  hm_url :: "bytes option"
  hm_content :: hub_content

record hub_env =
  hb_relay :: relay_env
  hb_hex :: "bytes \<Rightarrow> bytes option"
  hb_message :: "relay_message \<Rightarrow> bytes"
  hb_signer :: "signer_request \<Rightarrow> bytes"
  hb_root_message :: "bytes \<Rightarrow> hub_message option"
  hb_root_signer :: "bytes \<Rightarrow> (u64 \<times> bytes option) option"
  hb_parse :: "bytes \<Rightarrow> json option"
  hb_print :: "json \<Rightarrow> bytes"
  hb_set_order :: "bytes fset \<Rightarrow> bytes list"

record hub =
  hub_connections :: "(bytes, nat) fmap"
  hub_systems :: "relay_system list"
  full_to_relay :: "(bytes, bytes) fmap"
  relay_to_full :: "(bytes, bytes) fmap"
  sub_relays :: "(bytes, bytes fset) fmap"
  hub_dedup :: "(bytes, sub_dedup) fmap"
  parser_batches :: batch_buffer_manager
  to_parser :: "bytes list"
  to_crypto :: "bytes list"
  transport_log :: "(bytes \<times> relay_effect) list"

definition hub_new :: hub where
  "hub_new = \<lparr>hub_connections = fmempty, hub_systems = [], full_to_relay = fmempty, relay_to_full = fmempty,
     sub_relays = fmempty, hub_dedup = fmempty, parser_batches = manager_new, to_parser = [], to_crypto = [], transport_log = []\<rparr>"

section \<open>Subscription ids\<close>

text \<open>\<open>str::encode_utf16\<close> of a valid text.\<close>

definition utf16_units :: "nat \<Rightarrow> nat list" where
  "utf16_units cp =
     (if cp < 0x10000 then [cp]
      else [0xD800 + (cp - 0x10000) div 0x400, 0xDC00 + (cp - 0x10000) mod 0x400])"

abbreviation low6 :: "u8 \<Rightarrow> nat" where
  "low6 b \<equiv> unat b mod 64"

fun encode_utf16 :: "bytes \<Rightarrow> nat list" where
  "encode_utf16 [] = []"
| "encode_utf16 (a # bs) =
     (if a < 0x80 then utf16_units (unat a) @ encode_utf16 bs
      else
        (case bs of
           [] \<Rightarrow> []
         | b # bs1 \<Rightarrow>
             (if a < 0xE0 then utf16_units (unat a mod 32 * 64 + low6 b) @ encode_utf16 bs1
              else
                (case bs1 of
                   [] \<Rightarrow> []
                 | c # bs2 \<Rightarrow>
                     (if a < 0xF0 then utf16_units (unat a mod 16 * 4096 + low6 b * 64 + low6 c) @ encode_utf16 bs2
                      else
                        (case bs2 of
                           [] \<Rightarrow> []
                         | d # bs3 \<Rightarrow>
                             utf16_units (unat a mod 8 * 262144 + low6 b * 4096 + low6 c * 64 + low6 d) @ encode_utf16 bs3))))))"

definition hash_unit :: "nat \<Rightarrow> i32 \<Rightarrow> i32" where
  "hash_unit u h = push_bit 5 h - h + of_nat u"

definition base36_digit :: "nat \<Rightarrow> u8" where
  "base36_digit d = (if d < 10 then 0x30 + of_nat d else 0x61 + of_nat d - 10)"

fun base36 :: "nat \<Rightarrow> bytes" where
  "base36 n = (if n = 0 then [] else base36 (n div 36) @ [base36_digit (n mod 36)])"

declare base36.simps [simp del]

definition relay_safe_sub_id :: "bytes \<Rightarrow> bytes" where
  "relay_safe_sub_id input =
     (if length input < 64 then input
      else
        (let hash = fold hash_unit (encode_utf16 input) 0; v = nat \<bar>sint hash\<bar>
         in if v = 0 then [0x30] else take 63 (base36 v)))"

text \<open>The bytes of a JSON string and back.\<close>

definition chars :: "bytes \<Rightarrow> string" where
  "chars bs = map (\<lambda>b. char_of (unat b)) bs"

definition frame_fields :: "json option \<Rightarrow> (string \<times> bytes \<times> json list) option" where
  "frame_fields v =
     (case v of
        Some (JArr (JStr kind # JStr sub # rest)) \<Rightarrow>
          if kind = ''REQ'' \<or> kind = ''CLOSE'' then Some (kind, ascii sub, rest) else None
      | _ \<Rightarrow> None)"

definition encode_relay_frame :: "hub_env \<Rightarrow> bytes \<Rightarrow> hub \<Rightarrow> hub \<times> bytes" where
  "encode_relay_frame env frame w =
     (case frame_fields (hb_parse env frame) of
        None \<Rightarrow> (w, frame)
      | Some (kind, full, rest) \<Rightarrow>
          (let short = relay_safe_sub_id full
           in if short \<noteq> full then
                (w\<lparr>full_to_relay := fmupd full short (full_to_relay w), relay_to_full := fmupd short full (relay_to_full w)\<rparr>,
                 hb_print env (JArr (JStr kind # JStr (chars short) # rest)))
              else (w, frame)))"

definition decode_relay_sub_id :: "bytes \<Rightarrow> hub \<Rightarrow> bytes" where
  "decode_relay_sub_id sub w = (case fmlookup (relay_to_full w) sub of Some full \<Rightarrow> full | None \<Rightarrow> sub)"

definition relay_frame_state :: "hub_env \<Rightarrow> bytes \<Rightarrow> (string \<times> bytes) option" where
  "relay_frame_state env frame = map_option (\<lambda>(kind, sub, _). (kind, sub)) (frame_fields (hb_parse env frame))"

section \<open>The writers of the connections\<close>

definition push_parser :: "bytes \<Rightarrow> hub \<Rightarrow> hub" where
  "push_parser b w = w\<lparr>to_parser := to_parser w @ [b]\<rparr>"

definition push_crypto :: "bytes \<Rightarrow> hub \<Rightarrow> hub" where
  "push_crypto b w = w\<lparr>to_crypto := to_crypto w @ [b]\<rparr>"

definition push_batch :: "batch_buffer_manager \<times> bytes option \<Rightarrow> hub \<Rightarrow> hub" where
  "push_batch r w =
     (let w = w\<lparr>parser_batches := fst r\<rparr>
      in case snd r of Some payload \<Rightarrow> push_parser (encode_raw_conn_batch payload) w | None \<Rightarrow> w)"

datatype route = Control | Raw_Event bytes | Duplicate

definition mark_sub :: "bytes \<Rightarrow> bytes \<Rightarrow> hub \<Rightarrow> hub \<times> bool" where
  "mark_sub full key w =
     (let entry = (case fmlookup (hub_dedup w) full of Some d \<Rightarrow> d | None \<Rightarrow> sub_dedup_new);
          (entry', fresh) = mark key entry
      in (w\<lparr>hub_dedup := fmupd full entry' (hub_dedup w)\<rparr>, fresh))"

definition event_route :: "scanned_frame \<Rightarrow> route" where
  "event_route scan =
     (case sf_args scan ! 1 of Some v \<Rightarrow> if sv_is_string v then Control else Raw_Event (sv_raw v) | None \<Rightarrow> Control)"

definition choose_route :: "hub_env \<Rightarrow> bytes \<Rightarrow> bytes \<Rightarrow> hub \<Rightarrow> (hub \<times> route) option" where
  "choose_route env full msg w =
     (case scan_relay_frame (ye_searcher (hb_relay env)) msg of
        None \<Rightarrow> None
      | Some None \<Rightarrow> Some (w, Control)
      | Some (Some scan) \<Rightarrow>
          (if sf_kind scan \<noteq> EVENT_kind then Some (w, Control)
           else
             (case scanned_event_id (hb_hex env) scan of
                None \<Rightarrow> None
              | Some None \<Rightarrow> Some (w, event_route scan)
              | Some (Some key) \<Rightarrow>
                  (let (w, fresh) = mark_sub full key w in Some (w, if fresh then event_route scan else Duplicate)))))"

definition out_writer :: "hub_env \<Rightarrow> nat \<Rightarrow> bytes \<Rightarrow> bytes \<Rightarrow> bytes \<Rightarrow> hub \<Rightarrow> hub option" where
  "out_writer env now url sub msg w =
     (let full = decode_relay_sub_id sub w;
          message = relay_worker_message (ye_searcher (hb_relay env)) full url msg
      in if starts_with full (ascii ''n46:'') then map_option (\<lambda>m. push_crypto (hb_message env m) w) message
         else
           (case choose_route env full msg w of
              None \<Rightarrow> None
            | Some (w, Duplicate) \<Rightarrow> Some w
            | Some (w, Raw_Event event_json) \<Rightarrow>
                Some (push_batch (add_message full event_json now (parser_batches w)) w)
            | Some (w, Control) \<Rightarrow>
                map_option (\<lambda>m. push_parser (hb_message env m) (push_batch (flush_sub full (parser_batches w)) w)) message))"

definition status_writer :: "hub_env \<Rightarrow> string \<Rightarrow> bytes \<Rightarrow> hub \<Rightarrow> hub" where
  "status_writer env status url w = push_parser (hb_message env (connection_status_message url (ascii status) [])) w"

fun apply_effect :: "hub_env \<Rightarrow> nat \<Rightarrow> bytes \<Rightarrow> relay_effect \<Rightarrow> hub \<Rightarrow> hub option" where
  "apply_effect env now url (Out u sub msg) w = out_writer env now u sub msg w"
| "apply_effect env now url (Report status u) w = Some (status_writer env status u w)"
| "apply_effect env now url (Crypto q) w = Some (push_crypto (hb_signer env q) w)"
| "apply_effect env now url e w = Some (w\<lparr>transport_log := transport_log w @ [(url, e)]\<rparr>)"

fun apply_effects :: "hub_env \<Rightarrow> nat \<Rightarrow> bytes \<Rightarrow> relay_effect list \<Rightarrow> hub \<Rightarrow> hub option" where
  "apply_effects env now url [] w = Some w"
| "apply_effects env now url (e # es) w =
     (case apply_effect env now url e w of None \<Rightarrow> None | Some w \<Rightarrow> apply_effects env now url es w)"

section \<open>The connections\<close>

definition conn_input :: "hub_env \<Rightarrow> nat \<Rightarrow> nat \<Rightarrow> relay_input \<Rightarrow> hub \<Rightarrow> hub option" where
  "conn_input env now cid i w =
     (if cid < length (hub_systems w) then
        (case relay_step (hb_relay env) now i (hub_systems w ! cid) of
           None \<Rightarrow> None
         | Some (s, eff) \<Rightarrow>
             apply_effects env now (rl_url (y_conn s)) eff (w\<lparr>hub_systems := (hub_systems w)[cid := s]\<rparr>))
      else Some w)"

definition get_conn :: "hub_env \<Rightarrow> bytes \<Rightarrow> hub \<Rightarrow> hub \<times> nat" where
  "get_conn env url w =
     (case fmlookup (hub_connections w) url of
        Some cid \<Rightarrow> (w, cid)
      | None \<Rightarrow>
          (let cid = length (hub_systems w);
               w = status_writer env ''connecting'' url (w\<lparr>hub_systems := hub_systems w @ [relay_system_new url]\<rparr>)
           in (w\<lparr>hub_connections := fmupd url cid (hub_connections w)\<rparr>, cid)))"

definition hub_send :: "hub_env \<Rightarrow> nat \<Rightarrow> bytes \<Rightarrow> hub \<Rightarrow> hub \<times> bool" where
  "hub_send env cid frame w =
     (let s = hub_systems w ! cid; (c, r) = send_raw (hb_relay env) frame (y_conn s)
      in (w\<lparr>hub_systems := (hub_systems w)[cid := s\<lparr>y_conn := c\<rparr>]\<rparr>, r = Ok ()))"

section \<open>Envelopes\<close>

definition string_items :: "json \<Rightarrow> bytes list option" where
  "string_items v =
     (case v of
        JArr xs \<Rightarrow> those (map (\<lambda>x. case x of JStr s \<Rightarrow> Some (ascii s) | _ \<Rightarrow> None) xs)
      | _ \<Rightarrow> None)"

text \<open>The derived reader of \<open>Envelope\<close> takes an object, in which each field stands once, or an array.\<close>

definition envelope_of :: "json \<Rightarrow> (bytes list \<times> bytes list) option" where
  "envelope_of v =
     (let fields =
            (case v of
               JObj kvs \<Rightarrow>
                 (case (filter (\<lambda>kv. fst kv = ''relays'') kvs, filter (\<lambda>kv. fst kv = ''frames'') kvs) of
                    ([(_, r)], [(_, f)]) \<Rightarrow> Some (r, f)
                  | _ \<Rightarrow> None)
             | JArr [r, f] \<Rightarrow> Some (r, f)
             | _ \<Rightarrow> None)
      in case fields of
           None \<Rightarrow> None
         | Some (r, f) \<Rightarrow>
             (case (string_items r, string_items f) of (Some rs, Some fs) \<Rightarrow> Some (rs, fs) | _ \<Rightarrow> None))"

definition track_request :: "hub_env \<Rightarrow> bytes \<Rightarrow> bytes \<Rightarrow> hub \<Rightarrow> hub" where
  "track_request env relay frame w =
     (case relay_frame_state env frame of
        Some (kind, sub) \<Rightarrow>
          (if kind = ''REQ''
           then w\<lparr>sub_relays := fmupd sub (finsert relay (case fmlookup (sub_relays w) sub of Some rs \<Rightarrow> rs | None \<Rightarrow> {||})) (sub_relays w)\<rparr>
           else w)
      | None \<Rightarrow> w)"

definition release_close :: "hub_env \<Rightarrow> bytes \<Rightarrow> bytes \<Rightarrow> hub \<Rightarrow> hub" where
  "release_close env relay frame w =
     (case relay_frame_state env frame of
        Some (kind, sub) \<Rightarrow>
          (if kind = ''CLOSE'' then
             (case fmlookup (sub_relays w) sub of
                None \<Rightarrow> w
              | Some rs \<Rightarrow>
                  (if rs |-| {|relay|} = {||}
                   then w\<lparr>sub_relays := fmdrop sub (sub_relays w), hub_dedup := fmdrop sub (hub_dedup w)\<rparr>
                   else w\<lparr>sub_relays := fmupd sub (rs |-| {|relay|}) (sub_relays w)\<rparr>))
           else w)
      | None \<Rightarrow> w)"

definition envelope_frame :: "hub_env \<Rightarrow> bytes \<Rightarrow> nat \<Rightarrow> bytes \<Rightarrow> hub \<Rightarrow> hub" where
  "envelope_frame env relay cid frame w =
     (let w = track_request env relay frame w;
          (w, relay_frame) = encode_relay_frame env frame w;
          (w, _) = hub_send env cid relay_frame w
      in release_close env relay frame w)"

definition envelope_relay :: "hub_env \<Rightarrow> bytes list \<Rightarrow> bytes \<Rightarrow> hub \<Rightarrow> hub" where
  "envelope_relay env frames relay w =
     (if relay = [] then w
      else (let (w, cid) = get_conn env relay w in fold (envelope_frame env relay cid) frames w))"

definition send_envelope :: "hub_env \<Rightarrow> bytes \<Rightarrow> hub \<Rightarrow> hub" where
  "send_envelope env b w =
     (case Option.bind (hb_parse env b) envelope_of of
        None \<Rightarrow> w
      | Some (relays, frames) \<Rightarrow> fold (envelope_relay env frames) relays w)"

section \<open>The loops\<close>

definition close_everywhere :: "hub_env \<Rightarrow> bytes \<Rightarrow> hub \<Rightarrow> hub" where
  "close_everywhere env frame w =
     (case relay_frame_state env frame of
        Some (kind, sub) \<Rightarrow>
          (if kind = ''CLOSE'' then
             (let relays = (case fmlookup (sub_relays w) sub of Some rs \<Rightarrow> rs | None \<Rightarrow> {||});
                  w = w\<lparr>sub_relays := fmdrop sub (sub_relays w), hub_dedup := fmdrop sub (hub_dedup w)\<rparr>
              in fold (\<lambda>relay w.
                         let (w, cid) = get_conn env relay w;
                             (w, relay_frame) = encode_relay_frame env frame w
                         in fst (hub_send env cid relay_frame w))
                   (hb_set_order env relays) w)
           else w)
      | None \<Rightarrow> w)"

definition parser_raw :: "hub_env \<Rightarrow> bytes \<Rightarrow> bytes \<Rightarrow> hub \<Rightarrow> hub" where
  "parser_raw env url frame w =
     (if frame = [] then w
      else if url \<noteq> [] then
        (let (w, cid) = get_conn env url w;
             (w, relay_frame) = encode_relay_frame env frame w;
             (w, ok) = hub_send env cid relay_frame w
         in if ok then release_close env url frame w else w)
      else close_everywhere env frame w)"

definition event_value_of :: "nostr_event \<Rightarrow> json" where
  "event_value_of e =
     JObj [(''id'', JStr (ne_id e)), (''pubkey'', JStr (ne_pubkey e)), (''kind'', JNum (uint (ne_kind e))),
           (''content'', JStr (ne_content e)),
           (''tags'', JArr (map (\<lambda>t. JArr (map JStr (case t of Some items \<Rightarrow> items | None \<Rightarrow> []))) (ne_tags e))),
           (''created_at'', JNum (sint (ne_created_at e))), (''sig'', JStr (ne_sig e))]"

definition parser_event :: "hub_env \<Rightarrow> bytes \<Rightarrow> nostr_event \<Rightarrow> hub \<Rightarrow> hub" where
  "parser_event env url e w =
     (if url = [] then w
      else (let (w, cid) = get_conn env url w
            in fst (hub_send env cid (hb_print env (JArr [JStr ''EVENT'', event_value_of e])) w)))"

definition parser_close :: "hub_env \<Rightarrow> nat \<Rightarrow> bytes \<Rightarrow> hub \<Rightarrow> hub option" where
  "parser_close env now url w =
     (if url = [] then Some w
      else (let (w, cid) = get_conn env url w
            in map_option (\<lambda>w. w\<lparr>hub_connections := fmdrop url (hub_connections w)\<rparr>)
                 (conn_input env now cid Close_Conn w)))"

definition from_parser :: "hub_env \<Rightarrow> nat \<Rightarrow> bytes \<Rightarrow> hub \<Rightarrow> hub option" where
  "from_parser env now b w =
     (case hb_root_message env b of
        None \<Rightarrow> Some w
      | Some m \<Rightarrow>
          (let url = (case hm_url m of Some u \<Rightarrow> u | None \<Rightarrow> [])
           in case hm_content m of
                HcRaw (Some frame) \<Rightarrow> Some (parser_raw env url frame w)
              | HcEvent (Some e) \<Rightarrow> Some (parser_event env url e w)
              | HcStatus (Some status) \<Rightarrow> if status = ascii ''CLOSE'' then parser_close env now url w else Some w
              | _ \<Rightarrow> Some w))"

text \<open>\<open>value[key].as_str().unwrap_or("")\<close>; of equal keys the last counts.\<close>

definition json_field :: "string \<Rightarrow> json \<Rightarrow> bytes" where
  "json_field key v =
     (case v of
        JObj kvs \<Rightarrow> (case map_of (rev kvs) key of Some (JStr s) \<Rightarrow> ascii s | _ \<Rightarrow> [])
      | _ \<Rightarrow> [])"

definition from_crypto :: "hub_env \<Rightarrow> nat \<Rightarrow> bytes \<Rightarrow> hub \<Rightarrow> hub option" where
  "from_crypto env now b w =
     (case hb_root_signer env b of
        None \<Rightarrow> Some (send_envelope env b w)
      | Some (request_id, result) \<Rightarrow>
          (if request_id < AUTH_REQUEST_ID_MASK then Some w
           else
             (case Option.bind result (hb_parse env) of
                None \<Rightarrow> Some w
              | Some v \<Rightarrow>
                  (let relay = json_field ''relay'' v; event = json_field ''event'' v
                   in if relay = [] \<or> event = [] then Some w
                      else
                        (case fmlookup (hub_connections w) relay of
                           None \<Rightarrow> Some w
                         | Some cid \<Rightarrow> conn_input env now cid (Signed event) w)))))"

definition hub_sweep :: "bytes list \<Rightarrow> nat \<Rightarrow> hub \<Rightarrow> hub" where
  "hub_sweep order now w =
     (let (m, payloads) = drain_timed_out order now (parser_batches w)
      in fold (\<lambda>p. push_parser (encode_raw_conn_batch p)) payloads (w\<lparr>parser_batches := m\<rparr>))"

fun wake_all :: "hub_env \<Rightarrow> nat \<Rightarrow> nat list \<Rightarrow> hub \<Rightarrow> hub option" where
  "wake_all env now [] w = Some w"
| "wake_all env now (cid # cids) w =
     (case conn_input env now cid Wake w of None \<Rightarrow> None | Some w \<Rightarrow> wake_all env now cids w)"

definition wakeable :: "hub \<Rightarrow> nat list \<Rightarrow> nat list" where
  "wakeable w order = filter (\<lambda>cid. cid |\<in>| fmran (hub_connections w) \<and> has_recovery_work (y_conn (hub_systems w ! cid))) order"

fun is_turn :: "relay_input \<Rightarrow> bool" where
  "is_turn (Send_Raw _) = False"
| "is_turn (Close_Sub _) = False"
| "is_turn Close_Conn = False"
| "is_turn Wake = False"
| "is_turn (Signed _) = False"
| "is_turn _ = True"

datatype hub_input =
    From_Parser bytes | From_Cache bytes | From_Crypto bytes | Turn nat relay_input | Sweep "bytes list" | Wake_All "nat list"

fun hub_step :: "hub_env \<Rightarrow> nat \<Rightarrow> hub_input \<Rightarrow> hub \<Rightarrow> hub option" where
  "hub_step env now (From_Parser b) w = from_parser env now b w"
| "hub_step env now (From_Cache b) w = Some (send_envelope env b w)"
| "hub_step env now (From_Crypto b) w = from_crypto env now b w"
| "hub_step env now (Turn cid i) w = (if is_turn i then conn_input env now cid i w else Some w)"
| "hub_step env now (Sweep order) w = Some (hub_sweep order now w)"
| "hub_step env now (Wake_All order) w = wake_all env now (wakeable w order) w"

inductive hub_reachable :: "hub_env \<Rightarrow> hub \<Rightarrow> bool" for env where
  new: "hub_reachable env hub_new"
| step: "hub_reachable env w \<Longrightarrow> hub_step env now i w = Some w' \<Longrightarrow> hub_reachable env w'"

section \<open>Order on the channel to the parser\<close>

text \<open>What the relays of all connections write, in the order of arrival, with status reports and sweeps in between.\<close>

datatype writer_action = Write nat bytes bytes bytes | Status string bytes | Sweep_Due "bytes list" nat

fun write_one :: "hub_env \<Rightarrow> writer_action \<Rightarrow> hub \<Rightarrow> hub option" where
  "write_one env (Write now url sub msg) w = out_writer env now url sub msg w"
| "write_one env (Status status url) w = Some (status_writer env status url w)"
| "write_one env (Sweep_Due order now) w = Some (hub_sweep order now w)"

fun accepted_one :: "hub_env \<Rightarrow> writer_action \<Rightarrow> hub \<Rightarrow> (bytes \<times> bytes) list" where
  "accepted_one env (Write now url sub msg) w =
     (let full = decode_relay_sub_id sub w
      in if starts_with full (ascii ''n46:'') then []
         else (case choose_route env full msg w of Some (_, Raw_Event j) \<Rightarrow> [(full, j)] | _ \<Rightarrow> []))"
| "accepted_one env _ w = []"

fun writes :: "hub_env \<Rightarrow> writer_action list \<Rightarrow> hub \<Rightarrow> (hub \<times> (bytes \<times> bytes) list) option" where
  "writes env [] w = Some (w, [])"
| "writes env (a # as) w =
     (case write_one env a w of
        None \<Rightarrow> None
      | Some w1 \<Rightarrow> map_option (\<lambda>(w2, acc). (w2, accepted_one env a w @ acc)) (writes env as w1))"

definition raw_frames :: "bytes list \<Rightarrow> (bytes \<times> bytes) list" where
  "raw_frames msgs =
     concat (map (\<lambda>b. case decode_conn_batch b of Some cb \<Rightarrow> if raw_events cb then cb_frames cb else [] | None \<Rightarrow> []) msgs)"

definition plain_messages :: "hub_env \<Rightarrow> bool" where
  "plain_messages env = (\<forall>m. decode_conn_batch (hb_message env m) = None)"

definition batchable :: "bytes \<times> bytes \<Rightarrow> bool" where
  "batchable x = (utf8_valid (fst x) \<and> length (frame_of x) < BATCH_SIZE_THRESHOLD)"

lemma raw_frames_simps [simp]:
  "raw_frames [] = []" "raw_frames (a @ b) = raw_frames a @ raw_frames b"
  by (simp_all add: raw_frames_def)

lemma raw_frames_batches: "raw_frames (map encode_raw_conn_batch ps) = decoded ps"
  by (induction ps)
    (simp_all add: raw_frames_def decode_conn_batch_def encode_raw_conn_batch_def wrap_conn_batch_def
      CONN_BATCH_MAGIC_def CONN_RAW_BATCH_MAGIC_def)

lemma raw_frames_message: "plain_messages env \<Longrightarrow> raw_frames [hb_message env m] = []"
  by (simp add: raw_frames_def plain_messages_def)

lemma push_batch_sel:
  "to_parser (push_batch r w) = to_parser w @ map encode_raw_conn_batch (emitted (snd r))"
  "parser_batches (push_batch r w) = fst r" "relay_to_full (push_batch r w) = relay_to_full w"
  "hub_dedup (push_batch r w) = hub_dedup w"
  by (simp_all add: push_batch_def push_parser_def emitted_def Let_def split: option.split)

lemma push_sel [simp]:
  "to_parser (push_parser b w) = to_parser w @ [b]" "parser_batches (push_parser b w) = parser_batches w"
  "relay_to_full (push_parser b w) = relay_to_full w" "hub_dedup (push_parser b w) = hub_dedup w"
  "to_parser (push_crypto b w) = to_parser w" "parser_batches (push_crypto b w) = parser_batches w"
  "relay_to_full (push_crypto b w) = relay_to_full w" "hub_dedup (push_crypto b w) = hub_dedup w"
  by (simp_all add: push_parser_def push_crypto_def)

lemma mark_sub_sel [simp]:
  "to_parser (fst (mark_sub full key w)) = to_parser w" "parser_batches (fst (mark_sub full key w)) = parser_batches w"
  "relay_to_full (fst (mark_sub full key w)) = relay_to_full w"
  by (simp_all add: mark_sub_def case_prod_beta Let_def)

lemma choose_route_frame:
  assumes "choose_route env full msg w = Some (w1, r)"
  shows "to_parser w1 = to_parser w" "parser_batches w1 = parser_batches w" "relay_to_full w1 = relay_to_full w"
  using assms mark_sub_sel [of full _ w]
  by (auto simp: choose_route_def case_prod_beta Let_def split: option.splits if_splits)

lemma fold_push: "to_parser (fold (\<lambda>p. push_parser (f p)) ps w) = to_parser w @ map f ps"
  "parser_batches (fold (\<lambda>p. push_parser (f p)) ps w) = parser_batches w"
  "relay_to_full (fold (\<lambda>p. push_parser (f p)) ps w) = relay_to_full w"
  by (induction ps arbitrary: w) simp_all

lemma out_writer_cases:
  assumes "out_writer env now url sub msg w = Some w'"
  obtains (crypto) m where "starts_with (decode_relay_sub_id sub w) (ascii ''n46:'')" "w' = push_crypto (hb_message env m) w"
  | (duplicate) "\<not> starts_with (decode_relay_sub_id sub w) (ascii ''n46:'')"
      "choose_route env (decode_relay_sub_id sub w) msg w = Some (w', Duplicate)"
  | (event) w1 j where "\<not> starts_with (decode_relay_sub_id sub w) (ascii ''n46:'')"
      "choose_route env (decode_relay_sub_id sub w) msg w = Some (w1, Raw_Event j)"
      "w' = push_batch (add_message (decode_relay_sub_id sub w) j now (parser_batches w1)) w1"
  | (control) w1 m where "\<not> starts_with (decode_relay_sub_id sub w) (ascii ''n46:'')"
      "choose_route env (decode_relay_sub_id sub w) msg w = Some (w1, Control)"
      "relay_worker_message (ye_searcher (hb_relay env)) (decode_relay_sub_id sub w) url msg = Some m"
      "w' = push_parser (hb_message env m) (push_batch (flush_sub (decode_relay_sub_id sub w) (parser_batches w1)) w1)"
  using assms by (auto simp: out_writer_def Let_def split: if_splits option.splits route.splits)

lemma write_one_holds:
  assumes "write_one env a w = Some w'" "holds (parser_batches w) q" "plain_messages env"
    "list_all batchable (accepted_one env a w)"
  shows "\<exists>msgs q'. to_parser w' = to_parser w @ msgs \<and> holds (parser_batches w') q' \<and>
     (\<forall>s. for_sub s (raw_frames msgs) @ q' s = q s @ for_sub s (accepted_one env a w))"
proof (cases a)
  case (Write now url sub msg)
  let ?full = "decode_relay_sub_id sub w"
  have "out_writer env now url sub msg w = Some w'" using assms(1) Write by simp
  then show ?thesis
  proof (cases rule: out_writer_cases)
    case (crypto m)
    then show ?thesis using assms(2) Write by (intro exI [of _ "[]"] exI [of _ q]) simp
  next
    case duplicate
    then show ?thesis using assms(2) Write choose_route_frame [OF duplicate(2)] by (intro exI [of _ "[]"] exI [of _ q]) simp
  next
    case (event w1 j)
    note f = choose_route_frame [OF event(2)]
    have acc: "accepted_one env a w = [(?full, j)]" using event(1,2) Write by simp
    obtain m' p where p: "add_message ?full j now (parser_batches w1) = (m', p)" by force
    have small: "small_action (Add ?full j now)" using assms(4) acc by (simp add: batchable_def)
    have st: "batch_step (parser_batches w) (Add ?full j now) (emitted p) m'" using p f(2) by (auto intro: step_add)
    obtain q' where "holds m' q'" "\<forall>s. for_sub s (decoded (emitted p)) @ q' s = q s @ for_sub s (added [Add ?full j now])"
      using batch_step_holds [OF st assms(2) small] by blast
    then show ?thesis using event(3) p f acc
      by (intro exI [of _ "map encode_raw_conn_batch (emitted p)"] exI [of _ q']) (simp add: push_batch_sel raw_frames_batches)
  next
    case (control w1 m)
    note f = choose_route_frame [OF control(2)]
    have acc: "accepted_one env a w = []" using control(1,2) Write by simp
    obtain m' p where p: "flush_sub ?full (parser_batches w1) = (m', p)" by force
    have st: "batch_step (parser_batches w) (Flush ?full) (emitted p) m'" using p f(2) by (auto intro: step_flush)
    obtain q' where "holds m' q'" "\<forall>s. for_sub s (decoded (emitted p)) @ q' s = q s @ for_sub s (added [Flush ?full])"
      using batch_step_holds [OF st assms(2)] by auto
    then show ?thesis using control(4) p f acc
      by (intro exI [of _ "map encode_raw_conn_batch (emitted p) @ [hb_message env m]"] exI [of _ q'])
        (simp add: push_batch_sel raw_frames_batches raw_frames_message [OF assms(3)])
  qed
next
  case (Status status url)
  then show ?thesis using assms(1,2) raw_frames_message [OF assms(3)]
    by (intro exI [of _ "[hb_message env (connection_status_message url (ascii status) [])]"] exI [of _ q])
      (auto simp: status_writer_def)
next
  case (Sweep_Due order now)
  let ?ks = "filter (\<lambda>k. case fmlookup (parser_batches w) k of Some b \<Rightarrow> timed_out now b | None \<Rightarrow> False) order"
  obtain m out where fa: "flush_all ?ks (parser_batches w) = (m, out)" by force
  have w': "to_parser w' = to_parser w @ map encode_raw_conn_batch out" "parser_batches w' = m"
    using assms(1) Sweep_Due fa by (auto simp: hub_sweep_def drain_timed_out_def fold_push)
  have "for_sub s (decoded out) @ (if s \<in> set ?ks then [] else q s) = q s" for s
    using flush_all_holds [OF assms(2) fa, of s] by simp
  then show ?thesis using w' flush_all_holds [OF assms(2) fa] Sweep_Due
    by (intro exI [of _ "map encode_raw_conn_batch out"] exI [of _ "\<lambda>s. if s \<in> set ?ks then [] else q s"])
      (simp add: raw_frames_batches)
qed

lemma writes_hold:
  assumes "writes env as w = Some (w', acc)" "holds (parser_batches w) q" "plain_messages env" "list_all batchable acc"
  shows "\<exists>msgs q'. to_parser w' = to_parser w @ msgs \<and> holds (parser_batches w') q' \<and>
     (\<forall>s. for_sub s (raw_frames msgs) @ q' s = q s @ for_sub s acc)"
  using assms
proof (induction as arbitrary: w q acc)
  case (Cons a as)
  obtain w1 acc1 where w1: "write_one env a w = Some w1" "writes env as w1 = Some (w', acc1)" "acc = accepted_one env a w @ acc1"
    using Cons.prems(1) by (auto split: option.splits)
  obtain msgs1 q1 where 1: "to_parser w1 = to_parser w @ msgs1" "holds (parser_batches w1) q1"
    "\<forall>s. for_sub s (raw_frames msgs1) @ q1 s = q s @ for_sub s (accepted_one env a w)"
    using write_one_holds [OF w1(1) Cons.prems(2,3)] Cons.prems(4) w1(3) by auto
  obtain msgs2 q2 where 2: "to_parser w' = to_parser w1 @ msgs2" "holds (parser_batches w') q2"
    "\<forall>s. for_sub s (raw_frames msgs2) @ q2 s = q1 s @ for_sub s acc1"
    using Cons.IH [OF w1(2) 1(2) Cons.prems(3)] Cons.prems(4) w1(3) by auto
  have "for_sub s (raw_frames (msgs1 @ msgs2)) @ q2 s = q s @ for_sub s acc" for s
    using 1(3) 2(3) w1(3) by (metis append.assoc for_sub_append(1) raw_frames_simps(2))
  then show ?case using 1(1) 2(1,2) by (intro exI [of _ "msgs1 @ msgs2"] exI [of _ q2]) simp
qed (auto intro: exI [of _ "[]"])

lemma relay_worker_message_sub: "relay_worker_message m full url line = Some r \<Longrightarrow> rm_sub_id r = Some full"
  by (auto simp: relay_worker_message_def Let_def split: option.splits if_splits)

lemma control_route:
  "scan_relay_frame (ye_searcher (hb_relay env)) msg = Some (Some scan) \<Longrightarrow> sf_kind scan \<noteq> EVENT_kind \<Longrightarrow>
     choose_route env full msg w = Some (w, Control)"
  by (simp add: choose_route_def)

section \<open>Deduplication across relays\<close>

definition line_key :: "hub_env \<Rightarrow> bytes \<Rightarrow> bytes option" where
  "line_key env msg = (case event_frame_id (ye_searcher (hb_relay env)) (hb_hex env) msg of Some k \<Rightarrow> k | None \<Rightarrow> None)"


definition keys_of :: "bytes \<Rightarrow> (bytes \<times> bytes) list \<Rightarrow> bytes list" where
  "keys_of s log = map snd (for_sub s log)"

definition windows_ok :: "(bytes \<times> bytes) list \<Rightarrow> hub \<Rightarrow> bool" where
  "windows_ok log w =
     (\<forall>s. case fmlookup (hub_dedup w) s of Some d \<Rightarrow> dedup_ok (keys_of s log) d | None \<Rightarrow> keys_of s log = [])"

lemma keys_of_simps [simp]:
  "keys_of s [] = []" "keys_of s (a @ b) = keys_of s a @ keys_of s b" "keys_of s [(t, k)] = (if t = s then [k] else [])"
  by (simp_all add: keys_of_def for_sub_def)

lemma choose_route_unkeyed:
  assumes "choose_route env full msg w = Some (w1, r)" "line_key env msg = None"
  shows "w1 = w \<and> r \<noteq> Duplicate"
  using assms
  by (auto simp: choose_route_def line_key_def event_frame_id_def scanned_event_id_def event_route_def
      split: option.splits if_splits)

lemma choose_route_keyed:
  assumes "choose_route env full msg w = Some (w1, r)" "line_key env msg = Some key"
  shows "w1 = fst (mark_sub full key w) \<and> (r = Duplicate) = (\<not> snd (mark_sub full key w))"
proof -
  obtain scan where scan: "scan_relay_frame (ye_searcher (hb_relay env)) msg = Some (Some scan)"
      "scanned_event_id (hb_hex env) scan = Some (Some key)"
    using assms(2) by (auto simp: line_key_def event_frame_id_def split: option.splits)
  moreover have "sf_kind scan = EVENT_kind" using scan(2) by (auto simp: scanned_event_id_def split: if_splits)
  moreover have "event_route scan \<noteq> Duplicate" by (simp add: event_route_def split: option.split)
  ultimately show ?thesis using assms(1) by (auto simp: choose_route_def case_prod_beta Let_def)
qed

lemma mark_sub_windows:
  assumes "windows_ok log w" "mark_sub full key w = (w', fresh)"
  shows "windows_ok (if fresh then log @ [(full, key)] else log) w'" "fresh = (key \<notin> set (window (keys_of full log)))"
proof -
  let ?d = "case fmlookup (hub_dedup w) full of Some d \<Rightarrow> d | None \<Rightarrow> sub_dedup_new"
  have d: "dedup_ok (keys_of full log) ?d"
    using assms(1) [unfolded windows_ok_def, rule_format, of full]
    by (auto simp: dedup_ok_def sub_dedup_new_def window_def split: option.splits)
  obtain d' where m: "mark key ?d = (d', fresh)" "w' = w\<lparr>hub_dedup := fmupd full d' (hub_dedup w)\<rparr>"
    using assms(2) by (auto simp: mark_sub_def Let_def split: prod.splits)
  note ok = mark_ok [OF d m(1)]
  show "fresh = (key \<notin> set (window (keys_of full log)))" using ok by blast
  show "windows_ok (if fresh then log @ [(full, key)] else log) w'"
    unfolding windows_ok_def
  proof
    fix s
    show "case fmlookup (hub_dedup w') s of Some d \<Rightarrow> dedup_ok (keys_of s (if fresh then log @ [(full, key)] else log)) d
        | None \<Rightarrow> keys_of s (if fresh then log @ [(full, key)] else log) = []"
      using assms(1) [unfolded windows_ok_def, rule_format, of s] ok m(2)
      by (cases "s = full"; cases "fmlookup (hub_dedup w) s"; cases fresh) simp_all
  qed
qed

lemma windows_frame: "hub_dedup w' = hub_dedup w \<Longrightarrow> windows_ok log w \<Longrightarrow> windows_ok log w'"
  by (simp add: windows_ok_def)


lemma choose_route_windows:
  assumes "choose_route env full msg w = Some (w1, r)" "windows_ok log w"
  shows "windows_ok (log @ (case line_key env msg of Some key \<Rightarrow> if r = Duplicate then [] else [(full, key)] | None \<Rightarrow> [])) w1"
    "\<And>key. line_key env msg = Some key \<Longrightarrow> (r = Duplicate) = (key \<in> set (window (keys_of full log)))"
proof -
  show "windows_ok (log @ (case line_key env msg of Some key \<Rightarrow> if r = Duplicate then [] else [(full, key)] | None \<Rightarrow> [])) w1"
  proof (cases "line_key env msg")
    case None
    then show ?thesis using choose_route_unkeyed [OF assms(1)] assms(2) by simp
  next
    case (Some key)
    then show ?thesis using choose_route_keyed [OF assms(1) Some] mark_sub_windows(1) [OF assms(2), of full key w1 "r \<noteq> Duplicate"]
      by (cases "r = Duplicate") (simp_all add: prod_eq_iff)
  qed
  show "\<And>key. line_key env msg = Some key \<Longrightarrow> (r = Duplicate) = (key \<in> set (window (keys_of full log)))"
    using choose_route_keyed [OF assms(1)] mark_sub_windows(2) [OF assms(2) prod.collapse [symmetric]] by blast
qed







lemma line_key_scan:
  "scan_relay_frame (ye_searcher (hb_relay env)) msg = Some (Some scan) \<Longrightarrow>
     line_key env msg = (case scanned_event_id (hb_hex env) scan of Some k \<Rightarrow> k | None \<Rightarrow> None)"
  by (simp add: line_key_def event_frame_id_def)









section \<open>Properties\<close>


text \<open>C36. A control frame does not overtake events. When the relays have written any lines, the frame of each
  accepted event being smaller than the 16 KB batch limit, and then a frame that is no EVENT arrives for a subscription, the channel to the parser ends
  with the message made of that frame, and the raw batches before it hold all events accepted for the
  subscription, in the order of arrival.
\<close>

theorem control_after_events:
  assumes "parser_batches w = manager_new" "writes env as w = Some (w1, acc)" "list_all batchable acc" "plain_messages env"
    and "scan_relay_frame (ye_searcher (hb_relay env)) msg = Some (Some scan)" "sf_kind scan \<noteq> EVENT_kind"
    and "out_writer env now url sub msg w1 = Some w2" "\<not> starts_with (decode_relay_sub_id sub w1) (ascii ''n46:'')"
  shows "\<exists>msgs m. to_parser w2 = to_parser w @ msgs @ [hb_message env m]
    \<and> rm_sub_id m = Some (decode_relay_sub_id sub w1)
    \<and> for_sub (decode_relay_sub_id sub w1) (raw_frames msgs) = for_sub (decode_relay_sub_id sub w1) acc"
proof -
  let ?s = "decode_relay_sub_id sub w1"
  obtain msgs q where 1: "to_parser w1 = to_parser w @ msgs" "holds (parser_batches w1) q"
    "\<forall>s. for_sub s (raw_frames msgs) @ q s = for_sub s acc"
    using writes_hold [OF assms(2) _ assms(4,3), of "\<lambda>_. []"] holds_new assms(1) by auto
  obtain m where m: "relay_worker_message (ye_searcher (hb_relay env)) ?s url msg = Some m"
      "w2 = push_parser (hb_message env m) (push_batch (flush_sub ?s (parser_batches w1)) w1)"
    using assms(7)
  proof (cases rule: out_writer_cases)
    case (control w' m)
    then show ?thesis using control_route [OF assms(5,6), of ?s w1] by (intro that [of m]) simp_all
  qed (use assms(8) control_route [OF assms(5,6), of ?s w1] in simp_all)
  obtain b p where p: "flush_sub ?s (parser_batches w1) = (b, p)" by force
  have "decoded (emitted p) = q ?s" by (rule flush_sub_holds(2) [OF 1(2) p])
  then have "for_sub ?s (raw_frames (msgs @ map encode_raw_conn_batch (emitted p))) = for_sub ?s acc"
    using 1(3) for_sub_queue [OF 1(2), of ?s ?s] by (simp add: raw_frames_batches)
  moreover have "to_parser w2 = to_parser w @ (msgs @ map encode_raw_conn_batch (emitted p)) @ [hb_message env m]"
    using m(2) p 1(1) by (simp add: push_batch_sel)
  ultimately show ?thesis using relay_worker_message_sub [OF m(1)] by blast
qed

section \<open>The connections of a worker\<close>

definition conn_ok :: "hub_env \<Rightarrow> relay_system \<Rightarrow> bool" where
  "conn_ok env s = relay_reachable (hb_relay env) (rl_url (y_conn s)) s"

definition table_ok :: "hub_env \<Rightarrow> (bytes, nat) fmap \<times> relay_system list \<Rightarrow> bool" where
  "table_ok env t = (list_all (conn_ok env) (snd t) \<and>
     fmpred (\<lambda>url cid. cid < length (snd t) \<and> rl_url (y_conn (snd t ! cid)) = url) (fst t))"

definition table :: "hub \<Rightarrow> (bytes, nat) fmap \<times> relay_system list" where
  "table w = (hub_connections w, hub_systems w)"

lemma conn_ok_new: "conn_ok env (relay_system_new url)"
  using relay_reachable.new [of "hb_relay env" url] by (simp add: conn_ok_def relay_system_new_def relay_connection_new_def)

lemma conn_ok_step: "conn_ok env s \<Longrightarrow> relay_step (hb_relay env) now i s = Some p \<Longrightarrow> conn_ok env (fst p)"
  using relay_reachable.step [of "hb_relay env" "rl_url (y_conn s)" s now i "fst p" "snd p"] url_step [of "hb_relay env" now i s p]
  by (simp add: conn_ok_def)

lemma table_update:
  assumes "table_ok env (m, ss)" "cid < length ss" "conn_ok env s" "rl_url (y_conn s) = rl_url (y_conn (ss ! cid))"
  shows "table_ok env (m, ss[cid := s])"
  using assms by (auto simp: table_ok_def list_all_length nth_list_update fmpred_iff)

lemma table_add:
  assumes "table_ok env (m, ss)" "conn_ok env s" "rl_url (y_conn s) = url"
  shows "table_ok env (fmupd url (length ss) m, ss @ [s])"
  using assms by (auto simp: table_ok_def list_all_length nth_append fmpred_iff less_Suc_eq split: if_splits)

lemma table_push [simp]:
  "table (push_parser b w) = table w" "table (push_crypto b w) = table w" "table (push_batch r w) = table w"
  "table (fst (mark_sub full key w)) = table w" "table (status_writer env status url w) = table w"
  "table (w\<lparr>transport_log := l\<rparr>) = table w" "table (w\<lparr>sub_relays := sr\<rparr>) = table w" "table (w\<lparr>hub_dedup := dd\<rparr>) = table w"
  by (simp_all add: table_def push_parser_def push_crypto_def push_batch_def mark_sub_def status_writer_def
      case_prod_beta Let_def split: option.split)

lemma table_choose_route: "choose_route env full msg w = Some (w1, r) \<Longrightarrow> table w1 = table w"
  using table_push(4) [of full _ w]
  by (auto simp: choose_route_def case_prod_beta Let_def split: option.splits if_splits)

lemma table_out_writer: "out_writer env now url sub msg w = Some w' \<Longrightarrow> table w' = table w"
  by (elim out_writer_cases) (auto dest: table_choose_route)

lemma table_effects: "apply_effects env now url eff w = Some w' \<Longrightarrow> table w' = table w"
proof (induction eff arbitrary: w)
  case (Cons e eff)
  obtain w1 where w1: "apply_effect env now url e w = Some w1" "apply_effects env now url eff w1 = Some w'"
    using Cons.prems by (auto split: option.splits)
  have "table w1 = table w" using w1(1) by (cases e) (auto dest: table_out_writer)
  then show ?case using Cons.IH [OF w1(2)] by simp
qed simp


lemma table_okD: "table_ok env (table w) \<Longrightarrow> fmlookup (hub_connections w) url = Some cid \<Longrightarrow> cid < length (hub_systems w)"
  by (auto simp: table_ok_def table_def fmpred_iff)

lemma table_conn_input:
  assumes "conn_input env now cid i w = Some w'" "table_ok env (table w)"
  shows "table_ok env (table w')"
proof (cases "cid < length (hub_systems w)")
  case True
  obtain s eff where s: "relay_step (hb_relay env) now i (hub_systems w ! cid) = Some (s, eff)"
    "apply_effects env now (rl_url (y_conn s)) eff (w\<lparr>hub_systems := (hub_systems w)[cid := s]\<rparr>) = Some w'"
    using assms(1) True by (auto simp: conn_input_def split: option.splits)
  have "conn_ok env (hub_systems w ! cid)" using assms(2) True by (simp add: table_ok_def table_def list_all_length)
  then have "conn_ok env s" "rl_url (y_conn s) = rl_url (y_conn (hub_systems w ! cid))"
    using conn_ok_step [OF _ s(1)] url_step [OF s(1)] by simp_all
  then have "table_ok env (table (w\<lparr>hub_systems := (hub_systems w)[cid := s]\<rparr>))"
    using table_update [of env "hub_connections w" "hub_systems w" cid s] assms(2) True by (simp add: table_def)
  then show ?thesis using table_effects [OF s(2)] by simp
qed (use assms in \<open>simp add: conn_input_def\<close>)

lemma table_get_conn:
  assumes "table_ok env (table w)"
  shows "table_ok env (table (fst (get_conn env url w)))" "snd (get_conn env url w) < length (hub_systems (fst (get_conn env url w)))"
    "rl_url (y_conn (hub_systems (fst (get_conn env url w)) ! snd (get_conn env url w))) = url"
proof -
  have sel: "hub_connections (status_writer env st u x) = hub_connections x" "hub_systems (status_writer env st u x) = hub_systems x" for st u x
    by (simp_all add: status_writer_def push_parser_def)
  have u: "rl_url (y_conn (relay_system_new url)) = url" by (simp add: relay_system_new_def relay_connection_new_def)
  have "table_ok env (fmupd url (length (hub_systems w)) (hub_connections w), hub_systems w @ [relay_system_new url])"
    using table_add [OF _ conn_ok_new u, of env] assms by (simp add: table_def)
  then show "table_ok env (table (fst (get_conn env url w)))"
    using assms by (simp add: get_conn_def table_def sel Let_def split: option.split)
  show "snd (get_conn env url w) < length (hub_systems (fst (get_conn env url w)))"
    using table_okD [OF assms, of url] by (simp add: get_conn_def sel Let_def split: option.split)
  show "rl_url (y_conn (hub_systems (fst (get_conn env url w)) ! snd (get_conn env url w))) = url"
    using assms u by (auto simp: get_conn_def table_ok_def table_def fmpred_iff sel Let_def split: option.split)
qed

lemma table_encode [simp]: "table (fst (encode_relay_frame env frame w)) = table w"
  by (simp add: encode_relay_frame_def table_def case_prod_beta Let_def split: option.split)

lemma table_track [simp]: "table (track_request env relay frame w) = table w" "table (release_close env relay frame w) = table w"
  by (simp_all add: track_request_def release_close_def table_def case_prod_beta split: option.split)

lemma table_hub_send:
  assumes "table_ok env (table w)" "cid < length (hub_systems w)"
  shows "table_ok env (table (fst (hub_send env cid frame w)))"
proof -
  let ?s = "hub_systems w ! cid"
  have "conn_ok env ?s" using assms by (simp add: table_ok_def table_def list_all_length)
  then have "conn_ok env (?s\<lparr>y_conn := fst (send_raw (hb_relay env) frame (y_conn ?s))\<rparr>)"
    using conn_ok_step [of env ?s 0 "Send_Raw frame"] by simp
  then show ?thesis
    using table_update [of env "hub_connections w" "hub_systems w" cid] assms
    by (simp add: hub_send_def table_def case_prod_beta Let_def)
qed

lemma systems_encode [simp]: "hub_systems (fst (encode_relay_frame env frame w)) = hub_systems w"
  using arg_cong [OF table_encode [of env frame w], of snd] by (simp add: table_def)

lemma systems_track [simp]: "hub_systems (track_request env relay frame w) = hub_systems w"
  using arg_cong [OF table_track(1) [of env relay frame w], of snd] by (simp add: table_def)

lemma length_hub_send [simp]: "length (hub_systems (fst (hub_send env cid frame w))) = length (hub_systems w)"
  by (simp add: hub_send_def case_prod_beta Let_def)

lemma table_envelope_frame:
  assumes "table_ok env (table w)" "cid < length (hub_systems w)"
  shows "table_ok env (table (envelope_frame env relay cid frame w))"
    "length (hub_systems (envelope_frame env relay cid frame w)) = length (hub_systems w)"
proof -
  have rel: "length (hub_systems (release_close env relay frame x)) = length (hub_systems x)" for x
    using arg_cong [OF table_track(2) [of env relay frame x], of snd] by (simp add: table_def)
  show "table_ok env (table (envelope_frame env relay cid frame w))"
    "length (hub_systems (envelope_frame env relay cid frame w)) = length (hub_systems w)"
    using table_hub_send [of env "fst (encode_relay_frame env frame (track_request env relay frame w))" cid] assms
    by (simp_all add: envelope_frame_def rel case_prod_beta Let_def)
qed

lemma table_envelope_frames:
  "table_ok env (table w) \<Longrightarrow> cid < length (hub_systems w) \<Longrightarrow> table_ok env (table (fold (envelope_frame env relay cid) frames w))"
  by (induction frames arbitrary: w) (simp_all add: table_envelope_frame)

lemma table_envelope_relay: "table_ok env (table x) \<Longrightarrow> table_ok env (table (envelope_relay env frames relay x))"
  using table_get_conn(1,2) [of env x] by (simp add: envelope_relay_def table_envelope_frames case_prod_beta)

lemma table_send_envelope: "table_ok env (table w) \<Longrightarrow> table_ok env (table (send_envelope env b w))"
proof -
  have "table_ok env (table x) \<Longrightarrow> table_ok env (table (fold (envelope_relay env frames) relays x))" for frames relays x
    by (induction relays arbitrary: x) (simp_all add: table_envelope_relay)
  then show "table_ok env (table w) \<Longrightarrow> table_ok env (table (send_envelope env b w))"
    by (simp add: send_envelope_def case_prod_beta split: option.split)
qed

text \<open>Getting a connection, translating a frame and sending it.\<close>

lemma table_send_to:
  assumes "table_ok env (table w)"
  shows "table_ok env (table (fst (hub_send env (snd (get_conn env url w)) f (fst (encode_relay_frame env frame (fst (get_conn env url w)))))))"
    "table_ok env (table (fst (hub_send env (snd (get_conn env url w)) f (fst (get_conn env url w)))))"
  using table_get_conn(1,2) [OF assms] by (simp_all add: table_hub_send)

lemma table_from_parser:
  assumes "from_parser env now b w = Some w'" "table_ok env (table w)"
  shows "table_ok env (table w')"
proof -
  have close: "table_ok env (table (close_everywhere env frame x))" if "table_ok env (table x)" for frame x
  proof -
    have "table_ok env (table y) \<Longrightarrow> table_ok env (table (fold (\<lambda>relay w. let (w, cid) = get_conn env relay w;
        (w, relay_frame) = encode_relay_frame env frame w in fst (hub_send env cid relay_frame w)) relays y))" for relays y
      by (induction relays arbitrary: y) (simp_all add: table_send_to case_prod_beta)
    then show ?thesis using that by (simp add: close_everywhere_def case_prod_beta Let_def split: option.split)
  qed
  have raw: "table_ok env (table (parser_raw env url frame x))" if "table_ok env (table x)" for url frame x
    using table_send_to(1) [OF that] close [OF that] that by (simp add: parser_raw_def case_prod_beta Let_def)
  have ev: "table_ok env (table (parser_event env url e x))" if "table_ok env (table x)" for url e x
    using table_send_to(2) [OF that] that by (simp add: parser_event_def case_prod_beta)
  have cl: "table_ok env (table x')" if "parser_close env now url x = Some x'" "table_ok env (table x)" for url x x'
  proof -
    have "table_ok env (table (y\<lparr>hub_connections := fmdrop url (hub_connections y)\<rparr>))" if "table_ok env (table y)" for y
      using that by (auto simp: table_ok_def table_def fmpred_iff)
    then show ?thesis using that table_conn_input [OF _ table_get_conn(1) [OF that(2)]]
      by (auto simp: parser_close_def case_prod_beta split: if_splits)
  qed
  show ?thesis using assms raw ev cl
    by (auto simp: from_parser_def Let_def split: option.splits hub_content.splits if_splits)
qed

lemma table_step:
  assumes "hub_step env now i w = Some w'" "table_ok env (table w)"
  shows "table_ok env (table w')"
proof (cases i)
  case (From_Parser b)
  then show ?thesis using assms table_from_parser by simp
next
  case (From_Crypto b)
  then show ?thesis using assms table_conn_input table_send_envelope
    by (auto simp: from_crypto_def Let_def split: option.splits if_splits)
next
  case (Sweep order)
  have "table (fold (\<lambda>p. push_parser (f p)) ps x) = table x" for f :: "bytes \<Rightarrow> bytes" and ps x by (induction ps arbitrary: x) simp_all
  moreover have "table (x\<lparr>parser_batches := m\<rparr>) = table x" for m x by (simp add: table_def)
  ultimately show ?thesis using assms Sweep by (auto simp: hub_sweep_def case_prod_beta Let_def)
next
  case (Wake_All order)
  have "wake_all env now cids x = Some x' \<Longrightarrow> table_ok env (table x) \<Longrightarrow> table_ok env (table x')" for cids x x'
    by (induction cids arbitrary: x) (auto dest: table_conn_input split: option.splits)
  then show ?thesis using assms Wake_All by auto
qed (use assms table_conn_input table_send_envelope in \<open>auto split: if_splits\<close>)

lemma table_reachable: "hub_reachable env w \<Longrightarrow> table_ok env (table w)"
proof (induction rule: hub_reachable.induct)
  case new
  then show ?case by (simp add: hub_new_def table_def table_ok_def)
next
  case (step w now i w')
  then show ?case using table_step by blast
qed

section \<open>Translated ids\<close>

lemma relay_safe_short: "length x < 64 \<Longrightarrow> relay_safe_sub_id x = x"
  by (simp add: relay_safe_sub_id_def)

lemma relay_safe_length: "length (relay_safe_sub_id x) < 64"
  by (simp add: relay_safe_sub_id_def Let_def min_def)

lemma relay_safe_idem: "relay_safe_sub_id (relay_safe_sub_id x) = relay_safe_sub_id x"
  by (rule relay_safe_short) (rule relay_safe_length)

definition frame_sub :: "hub_env \<Rightarrow> bytes \<Rightarrow> bytes option" where
  "frame_sub env frame = map_option (\<lambda>(_, full, _). full) (frame_fields (hb_parse env frame))"

text \<open>A run of the translation over frames: the worker after it and the frames written to the relays.\<close>

fun encode_all :: "hub_env \<Rightarrow> bytes list \<Rightarrow> hub \<Rightarrow> hub \<times> bytes list" where
  "encode_all env [] w = (w, [])"
| "encode_all env (f # fs) w =
     (let (w, out) = encode_relay_frame env f w; (w, outs) = encode_all env fs w in (w, out # outs))"

text \<open>The table holds the shortened ids that differ from their originals; of two with the same form the last.\<close>

definition ids_ok :: "bytes list \<Rightarrow> hub \<Rightarrow> bool" where
  "ids_ok ids w =
     (\<forall>short full. fmlookup (relay_to_full w) short = Some full \<longrightarrow>
        full \<in> set ids \<and> relay_safe_sub_id full = short \<and> short \<noteq> full)"

definition ids_kept :: "bytes list \<Rightarrow> hub \<Rightarrow> bool" where
  "ids_kept ids w = (\<forall>full \<in> set ids. relay_safe_sub_id full \<noteq> full \<longrightarrow> fmlookup (relay_to_full w) (relay_safe_sub_id full) \<noteq> None)"

lemma encode_ids:
  assumes "ids_ok ids w" "ids_kept ids w"
  shows "ids_ok (ids @ (case frame_sub env f of Some full \<Rightarrow> [full] | None \<Rightarrow> [])) (fst (encode_relay_frame env f w))"
    "ids_kept (ids @ (case frame_sub env f of Some full \<Rightarrow> [full] | None \<Rightarrow> [])) (fst (encode_relay_frame env f w))"
  using assms
  by (auto simp: ids_ok_def ids_kept_def encode_relay_frame_def frame_sub_def Let_def split: option.splits if_splits)

lemma encode_all_ids:
  assumes "ids_ok ids w" "ids_kept ids w"
  shows "ids_ok (ids @ List.map_filter (frame_sub env) frames) (fst (encode_all env frames w))
    \<and> ids_kept (ids @ List.map_filter (frame_sub env) frames) (fst (encode_all env frames w))"
  using assms
proof (induction frames arbitrary: ids w)
  case (Cons f frames)
  have "List.map_filter (frame_sub env) (f # frames) =
      (case frame_sub env f of Some full \<Rightarrow> [full] | None \<Rightarrow> []) @ List.map_filter (frame_sub env) frames"
    by (simp add: List.map_filter_simps split: option.split)
  then show ?case using Cons.IH [OF encode_ids [OF Cons.prems, of env f]] by (simp add: case_prod_beta Let_def)
qed (simp add: List.map_filter_simps)

lemma decode_translated:
  assumes "ids_ok ids w" "ids_kept ids w" "inj_on relay_safe_sub_id (set ids)" "full \<in> set ids"
  shows "decode_relay_sub_id (relay_safe_sub_id full) w = full"
proof (cases "fmlookup (relay_to_full w) (relay_safe_sub_id full)")
  case None
  then show ?thesis using assms(2,4) by (auto simp: ids_kept_def decode_relay_sub_id_def)
next
  case (Some g)
  then have "g \<in> set ids" "relay_safe_sub_id g = relay_safe_sub_id full" using assms(1) by (auto simp: ids_ok_def)
  then have "g = full" using assms(3,4) by (meson inj_onD)
  then show ?thesis using Some by (simp add: decode_relay_sub_id_def)
qed

definition sent_frame :: "hub_env \<Rightarrow> bytes \<Rightarrow> bytes" where
  "sent_frame h fr =
     (case frame_fields (hb_parse h fr) of
        Some (kind, full, rest) \<Rightarrow>
          if relay_safe_sub_id full \<noteq> full then hb_print h (JArr (JStr kind # JStr (chars (relay_safe_sub_id full)) # rest)) else fr
      | None \<Rightarrow> fr)"

lemma encode_sent_frame: "snd (encode_relay_frame h fr w) = sent_frame h fr"
  by (simp add: encode_relay_frame_def sent_frame_def Let_def split: option.split)

lemma encode_all_sent: "snd (encode_all env fs w) = map (sent_frame env) fs"
  by (induction fs arbitrary: w) (simp_all add: encode_sent_frame case_prod_beta Let_def)

lemma ascii_chars [simp]: "ascii (chars bs) = bs"
proof -
  have "of_nat (of_char (char_of (unat b) :: char)) = b" for b :: u8
    using unsigned_less [of b, where ?'a = nat] by simp
  then show ?thesis by (induction bs) (simp_all add: ascii_def chars_def)
qed

lemma base36_digit_plain: "d < 36 \<Longrightarrow> base36_digit d < 0x80"
proof -
  have "list_all (\<lambda>d. base36_digit d < 0x80) [0..<36]" by code_simp
  then show "d < 36 \<Longrightarrow> base36_digit d < 0x80" by (simp add: list_all_iff)
qed

lemma base36_plain: "\<forall>b \<in> set (base36 n). b < 0x80"
proof (induction n rule: base36.induct)
  case (1 n)
  have "base36_digit (n mod 36) < 0x80" by (rule base36_digit_plain) simp
  then show ?case using 1 by (subst base36.simps) simp
qed

lemma short_id_plain: "relay_safe_sub_id full \<noteq> full \<Longrightarrow> utf8_valid (relay_safe_sub_id full)"
  using base36_plain by (auto simp: relay_safe_sub_id_def Let_def intro!: utf8_plain dest: in_set_takeD split: if_splits)

text \<open>What a frame written to a relay says.\<close>

lemma sent_frame_fields:
  assumes "json_codec_ok (hb_parse env) (hb_print env)" "hb_parse env f = Some v" "json_printable v"
    "frame_fields (Some v) = Some (kind, full, rest)"
  shows "\<exists>rest'. frame_fields (hb_parse env (sent_frame env f)) = Some (kind, relay_safe_sub_id full, rest')
    \<and> map json_norm rest' = map json_norm rest"
proof (cases "relay_safe_sub_id full = full")
  case True
  then show ?thesis using assms(2,4) by (simp add: sent_frame_def)
next
  case False
  let ?v = "JArr (JStr kind # JStr (chars (relay_safe_sub_id full)) # rest)"
  obtain sub where v: "v = JArr (JStr kind # JStr sub # rest)" "kind = ''REQ'' \<or> kind = ''CLOSE''"
    using assms(4) by (auto simp: frame_fields_def split: json.splits list.splits if_splits)
  have "json_printable ?v" using assms(3) v short_id_plain [OF False] by (auto simp: json_printable_def)
  note r = json_codecD(1) [OF assms(1) this]
  moreover have "sent_frame env f = hb_print env ?v" using assms(2,4) False by (simp add: sent_frame_def)
  ultimately show ?thesis using v(2) by (auto simp: frame_fields_def comp_def)
qed

text \<open>C37. Ids survive the relay. When frames are written to relays, each written frame that stands for a REQ or a
  CLOSE is one of the same kind with the same filters; the subscription id it carries is shorter than 64 bytes,
  and after all frames it is translated back to the original id, provided that no two of the ids have the same
  short form. The frames hold JSON within the limits of \<open>serde_json\<close>, whose law is \<open>json_codec_ok\<close>.
\<close>

theorem sub_ids_roundtrip:
  assumes "relay_to_full w = fmempty" "inj_on relay_safe_sub_id (set (List.map_filter (frame_sub env) frames))"
    and "json_codec_ok (hb_parse env) (hb_print env)"
    and "i < length frames" "hb_parse env (frames ! i) = Some v" "json_printable v" "frame_fields (Some v) = Some (kind, full, rest)"
    and "encode_all env frames w = (w', outs)"
  shows "\<exists>sub rest'. frame_fields (hb_parse env (outs ! i)) = Some (kind, sub, rest') \<and> length sub < 64
    \<and> map json_norm rest' = map json_norm rest \<and> decode_relay_sub_id sub w' = full"
proof -
  have out: "outs ! i = sent_frame env (frames ! i)" using encode_all_sent [of env frames w] assms(4,8) by simp
  have "frame_sub env (frames ! i) = Some full" using assms(5,7) by (simp add: frame_sub_def)
  then have "full \<in> set (List.map_filter (frame_sub env) frames)"
    using nth_mem [OF assms(4)] by (force simp: List.map_filter_def)
  moreover have "ids_ok [] w" "ids_kept [] w" using assms(1) by (simp_all add: ids_ok_def ids_kept_def)
  ultimately have "decode_relay_sub_id (relay_safe_sub_id full) (fst (encode_all env frames w)) = full"
    using encode_all_ids [of "[]" w env frames] decode_translated [OF _ _ assms(2)] by simp
  then show ?thesis using sent_frame_fields [OF assms(3,5-7)] relay_safe_length [of full] out assms(8) by auto
qed

text \<open>A long id takes over the frames of the subscription whose id is its short form.\<close>

lemma short_form_captured:
  assumes "frame_fields (hb_parse env frame) = Some (''REQ'', full, rest)" "64 \<le> length full"
  defines "short \<equiv> relay_safe_sub_id full"
  shows "relay_safe_sub_id short = short \<and> short \<noteq> full
    \<and> decode_relay_sub_id short (fst (encode_relay_frame env frame w)) = full"
proof -
  have "short \<noteq> full" using relay_safe_length [of full] assms(2) by (auto simp: short_def)
  then show ?thesis using assms(1) relay_safe_idem
    by (simp add: short_def encode_relay_frame_def decode_relay_sub_id_def Let_def)
qed

section \<open>Closing\<close>

lemma close_frees_window:
  assumes "relay_frame_state env frame = Some (''CLOSE'', sub)" "fmlookup (sub_relays w) sub = Some {|relay|}"
  shows "fmlookup (hub_dedup (release_close env relay frame w)) sub = None"
    "fmlookup (sub_relays (release_close env relay frame w)) sub = None"
  using assms by (simp_all add: release_close_def)

text \<open>
  An event that arrives after the CLOSE opens a new window, which the next REQ of the same id does not clear: the
  event is a duplicate for the new subscription.
\<close>

lemma late_event_hides_event:
  assumes "windows_ok log w" "choose_route env sub msg w = Some (w1, r)" "line_key env msg = Some key"
  shows "\<exists>w2. choose_route env sub msg (track_request env relay frame w1) = Some (w2, Duplicate)"
proof -
  let ?w = "track_request env relay frame w1" and ?log = "log @ (if r = Duplicate then [] else [(sub, key)])"
  have "windows_ok ?log w1" using choose_route_windows(1) [OF assms(2,1)] assms(3) by simp
  then have ok: "windows_ok ?log ?w" by (rule windows_frame [rotated]) (simp add: track_request_def split: option.split)
  have "key \<in> set (window (keys_of sub ?log))"
    using choose_route_windows(2) [OF assms(2,1,3)] window_snoc [of "keys_of sub log" key] by auto
  moreover obtain w2 r2 where r2: "choose_route env sub msg ?w = Some (w2, r2)"
    using assms(2) by (auto simp: choose_route_def case_prod_beta Let_def split: option.splits if_splits)
  ultimately show ?thesis using choose_route_windows(2) [OF r2 ok assms(3)] by auto
qed

text \<open>C38. The table of connections is sound in every reachable state of the worker: an address leads to a connection for
  that address, every connection, also one that has left the table, is in a state that its machine reaches, its
  subscriptions are those with stored requests, and what is stored for a subscription (what waking replays) is a
  non-empty list without repetition of REQ frames of that subscription.
\<close>

theorem worker_connections_sound:
  assumes "hub_reachable env w"
  shows "fmpred (\<lambda>url cid. cid < length (hub_systems w) \<and> rl_url (y_conn (hub_systems w ! cid)) = url) (hub_connections w)
    \<and> list_all (\<lambda>s. relay_reachable (hb_relay env) (rl_url (y_conn s)) s
         \<and> active_subs (y_conn s) = fmdom (active_reqs (y_conn s))
         \<and> fmpred (\<lambda>sub frames. frames \<noteq> [] \<and> distinct frames \<and> list_all (request_for sub) frames) (active_reqs (y_conn s)))
       (hub_systems w)"
proof -
  have "list_all (conn_ok env) (hub_systems w)"
    "fmpred (\<lambda>url cid. cid < length (hub_systems w) \<and> rl_url (y_conn (hub_systems w ! cid)) = url) (hub_connections w)"
    using table_reachable [OF assms] by (simp_all add: table_ok_def table_def)
  then show ?thesis
    using subs_reachable by (auto simp: list_all_iff conn_ok_def subs_agree_def subs_view_def)
qed

section \<open>Examples\<close>

definition example_hub_env :: hub_env where
  "example_hub_env = \<lparr>hb_relay = example_relay_env, hb_hex = (\<lambda>h. Some h), hb_message = (\<lambda>_. []), hb_signer = (\<lambda>_. []),
     hb_root_message = (\<lambda>_. Some \<lparr>hm_url = Some (ascii ''wss://r''), hm_content = HcRaw (Some example_req)\<rparr>), hb_root_signer = (\<lambda>_. None),
     hb_parse = (\<lambda>b. Some (JArr [JStr ''REQ'', JStr (if b = example_req then ''s'' else replicate 64 (CHR ''a''))])),
     hb_print = (\<lambda>_. []), hb_set_order = (\<lambda>_. [])\<rparr>"

definition example_line :: bytes where
  "example_line = ascii ''[\"EVENT\",\"s\",{\"id\":\"a\"}]''"

definition example_eose :: bytes where
  "example_eose = ascii ''[\"EOSE\",\"s\"]''"

definition example_object :: bytes where
  "example_object = ascii ''{\"id\":\"a\"}''"

lemma example_line_scans:
  "scan_relay_frame std_searcher example_line =
     Some (Some \<lparr>sf_kind = EVENT_kind, sf_args = [Some \<lparr>sv_raw = ascii ''\"s\"'', sv_is_string = True\<rparr>,
       Some \<lparr>sv_raw = example_object, sv_is_string = False\<rparr>, None]\<rparr>)"
  "scan_relay_frame std_searcher example_eose =
     Some (Some \<lparr>sf_kind = ascii ''EOSE'', sf_args = [Some \<lparr>sv_raw = ascii ''\"s\"'', sv_is_string = True\<rparr>, None, None]\<rparr>)"
  using scan_relay_frame_text [OF std_searcher_ok, of "[]" "[]" "EString (map Plain EVENT_kind)"
      "[([], [], EString [Plain 0x73]),
        ([], [], EGroup LBRACE [Quoted [Plain 0x69, Plain 0x64], Raw 0x3A, Quoted [Plain 0x61]] RBRACE)]" "[]" "[]"]
    scan_relay_frame_text [OF std_searcher_ok, of "[]" "[]" "EString (map Plain (ascii ''EOSE''))"
      "[([], [], EString [Plain 0x73])]" "[]" "[]"]
  by (simp_all add: example_line_def example_eose_def example_object_def EVENT_kind_def ascii_def json_ws_def arg_ok_def structural_def
      frame_text_def rest_text_def arg_text_def str_text_def element_inner_def element_value_def numeral_3_eq_3)

lemma example_object_id: "extract_event_id example_object = Some (Some [0x61])"
  by code_simp



lemma example_not_n46: "\<not> starts_with (ascii ''s'') (ascii ''n46:'')"
  by (simp add: starts_with_def ascii_def)

lemma example_route:
  "choose_route example_hub_env (ascii ''s'') example_line w =
     (let (w, fresh) = mark_sub (ascii ''s'') [0x61] w in Some (w, if fresh then Raw_Event example_object else Duplicate))"
  by (simp add: choose_route_def example_hub_env_def example_relay_env_def example_line_scans scanned_event_id_def example_object_id
      event_route_def case_prod_beta)

lemma example_decode: "relay_to_full w = fmempty \<Longrightarrow> decode_relay_sub_id x w = x"
  by (simp add: decode_relay_sub_id_def)

lemma example_written:
  obtains w1 where "out_writer example_hub_env 0 (ascii ''wss://r'') (ascii ''s'') example_line hub_new = Some w1"
    "relay_to_full w1 = fmempty" "fmlookup (hub_dedup w1) (ascii ''s'') = Some \<lparr>sd_ids = {|[0x61]|}, sd_order = [[0x61]]\<rparr>"
proof -
  let ?w = "hub_new\<lparr>hub_dedup := fmupd (ascii ''s'') \<lparr>sd_ids = {|[0x61]|}, sd_order = [[0x61]]\<rparr> fmempty\<rparr>"
  have "decode_relay_sub_id (ascii ''s'') hub_new = ascii ''s''" by (simp add: example_decode hub_new_def)
  moreover have "mark_sub (ascii ''s'') [0x61] hub_new = (?w, True)"
    by (simp add: mark_sub_def mark_def sub_dedup_new_def hub_new_def MAX_DEDUP_IDS_PER_SUB_def Let_def)
  ultimately have "out_writer example_hub_env 0 (ascii ''wss://r'') (ascii ''s'') example_line hub_new =
      Some (push_batch (add_message (ascii ''s'') example_object 0 (parser_batches ?w)) ?w)"
    by (simp add: out_writer_def example_not_n46 example_route Let_def)
  then show ?thesis by (rule that) (simp_all add: push_batch_sel, simp add: hub_new_def)
qed


lemma example_small: "batchable (ascii ''s'', example_object)"
  by (simp add: batchable_def frame_of_def lp_record_def example_object_def ascii_def BATCH_SIZE_THRESHOLD_def u32_to_le_bytes_def)

lemma example_plain: "plain_messages example_hub_env"
  by (simp add: plain_messages_def example_hub_env_def decode_conn_batch_def)



theorem control_after_events_witness:
  "\<exists>w1 w2 msgs m. out_writer example_hub_env 0 (ascii ''wss://r'') (ascii ''s'') example_line hub_new = Some w1
   \<and> out_writer example_hub_env 1 (ascii ''wss://r'') (ascii ''s'') example_eose w1 = Some w2
   \<and> to_parser w2 = msgs @ [hb_message example_hub_env m] \<and> rm_sub_id m = Some (ascii ''s'')
   \<and> for_sub (ascii ''s'') (raw_frames msgs) = [(ascii ''s'', example_object)]"
proof -
  let ?line = "Write 0 (ascii ''wss://r'') (ascii ''s'') example_line"
  obtain w1 where w1: "out_writer example_hub_env 0 (ascii ''wss://r'') (ascii ''s'') example_line hub_new = Some w1"
    "relay_to_full w1 = fmempty" by (rule example_written)
  have d: "decode_relay_sub_id (ascii ''s'') hub_new = ascii ''s''" "decode_relay_sub_id (ascii ''s'') w1 = ascii ''s''"
    using w1(2) by (simp_all add: decode_relay_sub_id_def hub_new_def)
  have m1: "snd (mark_sub (ascii ''s'') [0x61] hub_new)"
    by (simp add: mark_sub_def mark_def sub_dedup_new_def hub_new_def MAX_DEDUP_IDS_PER_SUB_def Let_def)
  have run: "writes example_hub_env [?line] hub_new = Some (w1, [(ascii ''s'', example_object)])"
    using w1(1) d(1) m1 by (simp add: example_not_n46 example_route case_prod_beta)
  have small: "list_all batchable [(ascii ''s'', example_object)]" using example_small by simp
  have scan: "scan_relay_frame (ye_searcher (hb_relay example_hub_env)) example_eose =
      Some (Some \<lparr>sf_kind = ascii ''EOSE'', sf_args = [Some \<lparr>sv_raw = ascii ''\"s\"'', sv_is_string = True\<rparr>, None, None]\<rparr>)"
    by (simp add: example_hub_env_def example_relay_env_def example_line_scans)
  have kind: "ascii ''EOSE'' \<noteq> EVENT_kind" by (simp add: ascii_def EVENT_kind_def)
  have "utf8_valid example_eose" unfolding example_eose_def by code_simp
  then obtain r where "relay_worker_message std_searcher (ascii ''s'') (ascii ''wss://r'') example_eose = Some r"
    using relay_worker_message_total [OF std_searcher_ok] by blast
  then obtain w2 where w2: "out_writer example_hub_env 1 (ascii ''wss://r'') (ascii ''s'') example_eose w1 = Some w2"
    using control_route [OF scan] kind d(2) example_not_n46
    by (simp add: out_writer_def example_hub_env_def example_relay_env_def Let_def)
  have "parser_batches hub_new = manager_new" "to_parser hub_new = []" by (simp_all add: hub_new_def)
  then show ?thesis
    using control_after_events [OF _ run small example_plain scan _ w2] kind d(2) example_not_n46 w1(1) w2 by (simp add: for_sub_def)
qed

definition counted_hub_env :: hub_env where
  "counted_hub_env = example_hub_env\<lparr>hb_parse := counted_parse, hb_print := (\<lambda>v. ascii (counted_text v))\<rparr>"

definition long_request :: json where
  "long_request = JArr [JStr ''REQ'', JStr (replicate 64 (CHR ''a'')), JObj [(''limit'', JNum 1)]]"

lemma long_request_ok: "json_printable long_request" "json_norm long_request = long_request"
  "frame_fields (Some long_request) = Some (''REQ'', replicate 64 0x61, [JObj [(''limit'', JNum 1)]])"
  by (simp_all add: long_request_def json_printable_def ascii_def utf8_plain btree_of_def frame_fields_def)

theorem sub_ids_roundtrip_witness:
  "\<exists>w out sub rest. encode_all counted_hub_env [ascii (counted_text long_request)] hub_new = (w, [out])
    \<and> frame_fields (hb_parse counted_hub_env out) = Some (''REQ'', sub, rest) \<and> length sub < 64
    \<and> decode_relay_sub_id sub w = replicate 64 0x61"
proof -
  let ?f = "ascii (counted_text long_request)"
  have codec: "json_codec_ok (hb_parse counted_hub_env) (hb_print counted_hub_env)"
    using counted_codec by (simp add: counted_hub_env_def)
  have p: "hb_parse counted_hub_env ([?f] ! 0) = Some long_request"
    using json_codecD(1) [OF codec long_request_ok(1)] long_request_ok(2) by (simp add: counted_hub_env_def)
  then have ids: "List.map_filter (frame_sub counted_hub_env) [?f] = [replicate 64 0x61]"
    using long_request_ok(3) by (simp add: List.map_filter_simps frame_sub_def)
  obtain w out where e: "encode_all counted_hub_env [?f] hub_new = (w, [out])" by (simp add: case_prod_beta Let_def)
  have new: "relay_to_full hub_new = fmempty" by (simp add: hub_new_def)
  have "inj_on relay_safe_sub_id (set (List.map_filter (frame_sub counted_hub_env) [?f]))" unfolding ids by simp
  from sub_ids_roundtrip [OF new this codec _ p long_request_ok(1,3) e] show ?thesis using e by auto
qed

theorem worker_connections_sound_witness:
  "\<exists>w. hub_step example_hub_env 0 (From_Parser []) hub_new = Some w
   \<and> fmlookup (hub_connections w) (ascii ''wss://r'') = Some 0 \<and> rl_url (y_conn (hub_systems w ! 0)) = ascii ''wss://r''"
proof -
  obtain w where w: "hub_step example_hub_env 0 (From_Parser []) hub_new = Some w" by (simp add: from_parser_def example_hub_env_def)
  then have "fmlookup (hub_connections w) (ascii ''wss://r'') = Some 0"
    by (auto simp: from_parser_def example_hub_env_def parser_raw_def get_conn_def encode_relay_frame_def frame_fields_def
        hub_send_def release_close_def relay_frame_state_def hub_new_def status_writer_def push_parser_def case_prod_beta
        relay_safe_short example_req_def ascii_def Let_def split: if_splits)
  moreover have "hub_reachable example_hub_env w" using hub_reachable.step [OF hub_reachable.new w] .
  ultimately show ?thesis using worker_connections_sound [of example_hub_env w] w by (auto simp: fmpred_iff)
qed

end
