(* ===== verification/Request_Path.thy ===== *)
theory Request_Path
  imports Cache_Worker Connections_Worker
begin

text \<open>
  The way of a request from the cache worker to the relays: the envelope that \<open>cache_worker.rs\<close> writes is read by
  \<open>send_envelope\<close> of \<open>connections_worker.rs\<close>, which queues the frame on the connection of every relay named and
  notes the relay for the subscription. The two workers are linked by the JSON text alone, and rely on the law of
  \<open>serde_json\<close> in \<open>Json_Value\<close>.
\<close>

section \<open>Requests in JSON\<close>

abbreviation valid_text :: "string \<Rightarrow> bool" where
  "valid_text s \<equiv> utf8_valid (ascii s)"

text \<open>The strings of a request are UTF-8, as those of every table that was verified are.\<close>

definition request_text_ok :: "fb_request \<Rightarrow> bool" where
  "request_text_ok r =
     (list_all valid_text (or_default (rq_ids r)) \<and> list_all valid_text (or_default (rq_authors r))
      \<and> (case rq_search r of Some x \<Rightarrow> valid_text x | None \<Rightarrow> True)
      \<and> list_all (\<lambda>tag. list_all valid_text (or_default tag)) (or_default (rq_tags r)))"

definition obj_fits :: "nat \<Rightarrow> (string \<times> json) list \<Rightarrow> bool" where
  "obj_fits n obj = list_all (\<lambda>(k, v). valid_text k \<and> json_fits v n) obj"

lemma obj_fits_Nil [simp]: "obj_fits n []"
  by (simp add: obj_fits_def)

lemma valid_names [simp]:
  "valid_text ''ids''" "valid_text ''authors''" "valid_text ''kinds''" "valid_text ''search''" "valid_text ''limit''"
  "valid_text ''since''" "valid_text ''until''" "valid_text ''REQ''" "valid_text ''relays''" "valid_text ''frames''"
  by (simp_all add: ascii_def)

lemma strings_fit: "list_all valid_text xs \<Longrightarrow> 0 < n \<Longrightarrow> json_fits (JArr (map JStr xs)) n"
  by (simp add: list.pred_map comp_def)

lemma obj_insert_fits: "obj_fits n obj \<Longrightarrow> valid_text k \<Longrightarrow> json_fits v n \<Longrightarrow> obj_fits n (obj_insert k v obj)"
  by (auto simp: obj_fits_def obj_insert_def list_all_iff)

lemma obj_strings_fits:
  "obj_fits n obj \<Longrightarrow> valid_text k \<Longrightarrow> 0 < n \<Longrightarrow> list_all valid_text (or_default v) \<Longrightarrow> obj_fits n (obj_strings k v obj)"
  using strings_fit by (simp add: obj_strings_def obj_insert_fits)

lemma obj_bound_fits: "obj_fits n obj \<Longrightarrow> valid_text k \<Longrightarrow> obj_fits n (obj_bound k b obj)"
  using sint_less [of b] by (simp add: obj_bound_def obj_insert_fits)

lemma obj_tags_fits:
  "obj_fits n obj \<Longrightarrow> 0 < n \<Longrightarrow> list_all (\<lambda>tag. list_all valid_text (or_default tag)) tags \<Longrightarrow> obj_fits n (fold obj_tag tags obj)"
proof (induction tags arbitrary: obj)
  case (Cons tag tags)
  have "obj_fits n (obj_tag tag obj)"
  proof (cases tag)
    case (Some items)
    show ?thesis
    proof (cases "2 \<le> length items")
      case True
      then obtain k vs where "items = k # vs" by (cases items) auto
      then show ?thesis using Some True Cons.prems strings_fit [of vs n] by (simp add: obj_tag_def or_default_def obj_insert_fits)
    qed (use Some Cons.prems(1) in \<open>simp add: obj_tag_def\<close>)
  qed (use Cons.prems(1) in \<open>simp add: obj_tag_def\<close>)
  then show ?case using Cons by simp
qed simp

lemma kinds_fit: "0 < n \<Longrightarrow> json_fits (JArr (map (\<lambda>k :: u16. JNum (uint k)) ks)) n"
proof -
  have "uint k < 2 ^ 64" for k :: u16 using uint_lt2p [of k] by simp
  then show "0 < n \<Longrightarrow> json_fits (JArr (map (\<lambda>k :: u16. JNum (uint k)) ks)) n" by (simp add: list_all_iff order_trans [OF _ uint_ge_0])
qed

lemma request_fits:
  assumes "request_text_ok r" "1 < n"
  shows "json_fits (fb_request_to_json r) n"
proof -
  have n: "0 < n - 1" using assms(2) by simp
  have "obj_fits (n - 1) kvs" if "fb_request_to_json r = JObj kvs" for kvs
    using that assms n kinds_fit [OF n]
    by (auto simp: fb_request_to_json_def request_text_ok_def
        intro!: obj_tags_fits obj_bound_fits obj_insert_fits obj_strings_fits split: option.splits)
  then show ?thesis using assms(2) by (auto simp: fb_request_to_json_def obj_fits_def)
qed

section \<open>The queues\<close>

definition queued_at :: "hub \<Rightarrow> bytes \<Rightarrow> bytes \<Rightarrow> bytes \<Rightarrow> bool" where
  "queued_at w relay sub fr =
     (case (fmlookup (hub_connections w) relay, fmlookup (sub_relays w) sub) of
        (Some cid, Some rs) \<Rightarrow> fr \<in> set (queue (y_conn (hub_systems w ! cid))) \<and> relay |\<in>| rs
      | _ \<Rightarrow> False)"

lemma open_reachable: "relay_reachable env url s \<Longrightarrow> queue_open (y_conn s)"
proof (induction rule: relay_reachable.induct)
  case new
  then show ?case by (simp add: relay_system_new_def relay_connection_new_def)
next
  case (step s now i s' eff)
  then show ?case using open_step [of env now i s "(s', eff)"] by simp
qed

lemma table_open: "table_ok h (table w) \<Longrightarrow> cid < length (hub_systems w) \<Longrightarrow> queue_open (y_conn (hub_systems w ! cid))"
  using open_reachable by (auto simp: table_ok_def table_def list_all_length conn_ok_def)

lemma get_conn_sel:
  "fmlookup (hub_connections (fst (get_conn h url w))) url = Some (snd (get_conn h url w))"
  "fmlookup (hub_connections w) u = Some cid \<Longrightarrow> fmlookup (hub_connections (fst (get_conn h url w))) u = Some cid"
  "cid < length (hub_systems w) \<Longrightarrow> hub_systems (fst (get_conn h url w)) ! cid = hub_systems w ! cid"
  "sub_relays (fst (get_conn h url w)) = sub_relays w"
  by (auto simp: get_conn_def status_writer_def push_parser_def nth_append Let_def split: option.split)

lemma encode_frame_sel:
  "hub_connections (fst (encode_relay_frame h fr w)) = hub_connections w" "sub_relays (fst (encode_relay_frame h fr w)) = sub_relays w"
  by (simp_all add: encode_relay_frame_def Let_def split: option.split)

lemma request_frame:
  assumes "frame_fields (hb_parse h fr) = Some (''REQ'', sub, rest)"
  shows "envelope_frame h relay cid fr w =
    (let w1 = w\<lparr>sub_relays := fmupd sub (finsert relay (case fmlookup (sub_relays w) sub of Some rs \<Rightarrow> rs | None \<Rightarrow> {||})) (sub_relays w)\<rparr>
     in fst (hub_send h cid (sent_frame h fr) (fst (encode_relay_frame h fr w1))))"
  using assms
  by (simp add: envelope_frame_def track_request_def release_close_def relay_frame_state_def case_prod_beta encode_sent_frame Let_def)

lemma hub_send_sel:
  "hub_connections (fst (hub_send h cid fr w)) = hub_connections w" "sub_relays (fst (hub_send h cid fr w)) = sub_relays w"
  "hub_systems (fst (hub_send h cid fr w)) =
     (hub_systems w)[cid := (hub_systems w ! cid)\<lparr>y_conn := fst (send_raw (hb_relay h) fr (y_conn (hub_systems w ! cid)))\<rparr>]"
  by (simp_all add: hub_send_def case_prod_beta Let_def)

lemma envelope_relay_request:
  assumes "frame_fields (hb_parse h fr) = Some (''REQ'', sub, rest)" "relay \<noteq> []" "table_ok h (table w)" "admits_all (hb_relay h)"
  shows "queued_at (envelope_relay h [fr] relay w) relay sub (sent_frame h fr)"
    "queued_at w relay' sub f' \<Longrightarrow> queued_at (envelope_relay h [fr] relay w) relay' sub f'"
proof -
  let ?w = "fst (get_conn h relay w)" and ?cid = "snd (get_conn h relay w)"
  note g = table_get_conn [OF assms(3), of relay]
  have "queue (fst (send_raw (hb_relay h) (sent_frame h fr) (y_conn (hub_systems ?w ! ?cid)))) =
      queue (y_conn (hub_systems ?w ! ?cid)) @ [sent_frame h fr]"
    by (rule queue_send_raw(2) [OF assms(4) table_open [OF g(1,2)]])
  moreover have e: "envelope_relay h [fr] relay w = envelope_frame h relay ?cid fr ?w"
    using assms(2) by (simp add: envelope_relay_def case_prod_beta)
  ultimately show "queued_at (envelope_relay h [fr] relay w) relay sub (sent_frame h fr)"
    using g(2) get_conn_sel(1) [of h relay w]
    by (simp add: e request_frame [OF assms(1)] queued_at_def hub_send_sel encode_frame_sel Let_def)
  assume q: "queued_at w relay' sub f'"
  then obtain cid rs where r: "fmlookup (hub_connections w) relay' = Some cid" "fmlookup (sub_relays w) sub = Some rs"
    "f' \<in> set (queue (y_conn (hub_systems w ! cid)))" "relay' |\<in>| rs"
    by (auto simp: queued_at_def split: option.splits)
  have "cid < length (hub_systems w)" using table_okD [OF assms(3) r(1)] .
  then have "hub_systems ?w ! cid = hub_systems w ! cid" "fmlookup (hub_connections ?w) relay' = Some cid"
    using get_conn_sel(2,3) r(1) by blast+
  then show "queued_at (envelope_relay h [fr] relay w) relay' sub f'"
    using r get_conn_sel(4) [of h relay w] queue_send_raw(1) [of "y_conn (hub_systems w ! cid)" "hb_relay h" "sent_frame h fr"] g(2)
    by (auto simp: e request_frame [OF assms(1)] queued_at_def hub_send_sel encode_frame_sel nth_list_update Let_def
        dest: set_mono_prefix)
qed

lemma envelope_relays_request:
  assumes "frame_fields (hb_parse h fr) = Some (''REQ'', sub, rest)" "admits_all (hb_relay h)"
  shows "table_ok h (table w) \<Longrightarrow> relay \<in> set relays \<or> queued_at w relay sub (sent_frame h fr) \<Longrightarrow> relay \<noteq> []
    \<Longrightarrow> queued_at (fold (envelope_relay h [fr]) relays w) relay sub (sent_frame h fr)"
proof (induction relays arbitrary: w)
  case (Cons r relays)
  have "queued_at (envelope_relay h [fr] r w) relay sub (sent_frame h fr)" if "r = relay \<or> queued_at w relay sub (sent_frame h fr)"
  proof (cases "r = []")
    case True
    then show ?thesis using that Cons.prems(3) by (simp add: envelope_relay_def)
  next
    case False
    then show ?thesis using envelope_relay_request [OF assms(1) False Cons.prems(1) assms(2)] that by blast
  qed
  then show ?case using Cons.IH [OF table_envelope_relay [OF Cons.prems(1)]] Cons.prems(2,3) by auto
qed simp

lemma string_items_strings: "string_items (JArr (map JStr xs)) = Some (map ascii xs)"
  by (induction xs) (simp_all add: string_items_def)

lemma envelope_read:
  assumes "json_codec_ok (hb_parse h) (\<lambda>v. ascii (we_json env v))" "json_printable frm" "list_all valid_text relays"
  shows "Option.bind (hb_parse h (ascii (relay_envelope env relays frm))) envelope_of =
    Some (map ascii relays, [ascii (we_json env frm)])"
proof -
  let ?v = "JObj [(''relays'', JArr (map JStr relays)), (''frames'', JArr [JStr (we_json env frm)])]"
  have "json_printable ?v"
    using json_codecD(2) [OF assms(1,2)] strings_fit [OF assms(3), of 126] by (simp add: json_printable_def)
  from json_codecD(1) [OF assms(1) this] show ?thesis
    using string_items_strings [of relays] string_items_strings [of "[we_json env frm]"]
    by (simp add: relay_envelope_def envelope_of_def btree_of_def comp_def)
qed

section \<open>Properties\<close>

text \<open>C39. A request that the cache forwards reaches the connections. When the connections worker, in any state it can be
  in, receives the envelope that the cache wrote for a request, then afterwards the queue of the connection of every
  relay the cache selected holds a frame that reads as the REQ with the filter of the request, under the
  subscription id or its short form, and the relay is noted for the subscription, so that its CLOSE will be sent
  there. The strings of the request, of its relays and its id are UTF-8, and \<open>serde_json\<close> reads back what it writes.
\<close>

theorem forwarded_request_queued:
  assumes "hub_reachable h w" "admits_all (hb_relay h)"
    and "json_codec_ok (hb_parse h) (\<lambda>v. ascii (we_json env v))" "json_codec_ok (hb_parse h) (hb_print h)"
    and "request_text_ok r" "valid_text sub_id" "list_all valid_text (request_relays env r s)"
    and "relay \<in> set (request_relays env r s)" "relay \<noteq> []"
  shows "\<exists>fr v. queued_at (send_envelope h (ascii (request_envelope env sub_id s r)) w) (ascii relay) (ascii sub_id) fr
    \<and> frame_fields (hb_parse h fr) = Some (''REQ'', relay_safe_sub_id (ascii sub_id), [v])
    \<and> json_norm v = json_norm (fb_request_to_json r)"
proof -
  let ?frm = "JArr [JStr ''REQ'', JStr sub_id, fb_request_to_json r]"
  let ?fr = "ascii (we_json env ?frm)"
  have ok: "json_printable ?frm" using assms(6) request_fits [OF assms(5), of 126] by (simp add: json_printable_def)
  have parse: "hb_parse h ?fr = Some (json_norm ?frm)" by (rule json_codecD(1) [OF assms(3) ok])
  have fields: "frame_fields (Some (json_norm ?frm)) = Some (''REQ'', ascii sub_id, [json_norm (fb_request_to_json r)])"
    by (simp add: frame_fields_def)
  have "queued_at (fold (envelope_relay h [?fr]) (map ascii (request_relays env r s)) w) (ascii relay) (ascii sub_id) (sent_frame h ?fr)"
    by (rule envelope_relays_request [OF fields [folded parse] assms(2) table_reachable [OF assms(1)]])
      (use assms(8,9) in \<open>auto simp: ascii_def\<close>)
  then have q: "queued_at (send_envelope h (ascii (request_envelope env sub_id s r)) w) (ascii relay) (ascii sub_id) (sent_frame h ?fr)"
    using envelope_read [OF assms(3) ok assms(7)] by (simp add: send_envelope_def request_envelope_def)
  have "json_printable (json_norm ?frm)"
    using assms(6) json_norm_fits [OF request_fits [OF assms(5), of 126]] by (simp add: json_printable_def)
  from sent_frame_fields [OF assms(4) parse this fields] q show ?thesis by auto
qed

section \<open>Example\<close>

definition counted_env :: "unit worker_env" where
  "counted_env = (example_worker_env unit_ops [no_cache_request])\<lparr>we_json := counted_text\<rparr>"

theorem forwarded_request_queued_witness:
  "\<exists>fr v. queued_at (send_envelope counted_hub_env (ascii (request_envelope counted_env ''s'' () no_cache_request)) hub_new)
       (ascii ''wss://a'') (ascii ''s'') fr
     \<and> frame_fields (hb_parse counted_hub_env fr) = Some (''REQ'', ascii ''s'', [v])
     \<and> json_norm v = json_norm (fb_request_to_json no_cache_request)"
proof -
  have relays: "request_relays counted_env no_cache_request () = [''wss://a'']"
    by (simp add: request_relays_def no_cache_request_def example_request_def non_empty_def Let_def)
  have "\<exists>fr v. queued_at (send_envelope counted_hub_env (ascii (request_envelope counted_env ''s'' () no_cache_request)) hub_new)
       (ascii ''wss://a'') (ascii ''s'') fr
     \<and> frame_fields (hb_parse counted_hub_env fr) = Some (''REQ'', relay_safe_sub_id (ascii ''s''), [v])
     \<and> json_norm v = json_norm (fb_request_to_json no_cache_request)"
  proof (rule forwarded_request_queued)
    show "hub_reachable counted_hub_env hub_new" by (rule hub_reachable.new)
    show "admits_all (hb_relay counted_hub_env)" by (simp add: counted_hub_env_def example_hub_env_def example_admits)
    show "json_codec_ok (hb_parse counted_hub_env) (\<lambda>v. ascii (we_json counted_env v))"
      "json_codec_ok (hb_parse counted_hub_env) (hb_print counted_hub_env)"
      using counted_codec by (simp_all add: counted_hub_env_def counted_env_def)
    show "request_text_ok no_cache_request"
      by (simp add: request_text_ok_def no_cache_request_def example_request_def or_default_def ascii_def)
    show "list_all valid_text (request_relays counted_env no_cache_request ())" "''wss://a'' \<in> set (request_relays counted_env no_cache_request ())"
      by (simp_all add: relays ascii_def)
  qed (simp_all add: ascii_def)
  then show ?thesis using relay_safe_short [of "ascii ''s''"] by (simp add: ascii_def)
qed

end
