(* ===== verification/Spec2Isabelle.thy ===== *)
theory Spec2Isabelle
  imports Persistent_Storage Mesh_Transport Batch_Buffer Cache_Input Sub_Dedup Shared_Ring Pipeline Mesh_Runtime Request_Path
begin

text \<open>
  \<^bold>\<open>Verification of nipworker.\<close>

  nipworker is a Nostr client engine in Rust (\<open>src/crates\<close>). Relay connections receive frames, scan and
  deduplicate them and hand them to a parser worker; parsed events go through pipes to a cache worker,
  whose database stores their bytes, indexes them in memory and answers subscriptions before the network
  does; the database is written to a blob store. Frames travel between the workers in batches. A mesh
  crate carries the same frames over Bluetooth writes of a few dozen bytes. This development models the
  parts that hold state or parse bytes, and proves what they promise each other.

  \<^bold>\<open>The theories, in the order in which data flows.\<close>

  \<^item> \<open>Prelude\<close>: machine integers as words, \<open>Result\<close> as a sum, little- and big-endian codecs, length-prefixed
    records and their parser, slices. \<open>Utf8\<close>: the lossy decoder of the standard library.
  \<^item> \<open>Frame_Scan\<close> (\<open>core/src/transport/frame_scan.rs\<close>): the zero-copy scanner of relay frames. It ends
    without a panic on every valid text, and on every frame written as JSON it returns the texts of the
    elements. \<open>Sub_Dedup\<close> (\<open>transport/sub_dedup.rs\<close>): the window of forwarded ids and the id of a frame.
  \<^item> \<open>Shared_Ring\<close> (\<open>core/src/parser_utils/ring_buffer.rs\<close>): the byte ring shared with the WebSocket worker,
    which answers as a bounded queue of payloads under every sequence of writes and reads that never fills it
    to the last byte.
  \<^item> \<open>Batch_Buffer\<close> (\<open>core/src/worker/batch_buffer.rs\<close>) and \<open>Cache_Input\<close> (\<open>core/src/cache_input.rs\<close>): the
    batching of worker-channel frames and the two wire formats; while frames are smaller than 16 KB, every
    message of a subscription is delivered once and in order.
  \<^item> \<open>Db_Types\<close>, \<open>Event_Storage\<close> (\<open>storage/db/types.rs\<close>): the types of the database, and the trait
    \<open>EventStorage\<close> as the locale \<open>event_storage\<close>, whose client lemma is that an offset always reads its own
    bytes or nothing. \<open>Ring_Buffer\<close> (\<open>storage/db/ring_buffer.rs\<close>) and \<open>Sharded_Storage\<close>
    (\<open>storage/db/sharded_storage.rs\<close>) interpret it; both have the snapshot round trip, the ring refines a
    queue that evicts its oldest events, and the nine shards share one budget.
  \<^item> \<open>Nostr_Event\<close>, \<open>Nostr_Index\<close>, \<open>Nostr_Query\<close>, \<open>Nostr_Deletion\<close>, \<open>Nostr_Store\<close>
    (\<open>storage/db/index.rs\<close>): the tables read from an event, adding and indexing with recycled keys, the
    query planner, NIP-09 deletions, and the database as a whole. A query equals a scan of the indexed
    events; only an author deletes an event, whichever of event and deletion arrives first; a lookup
    returns bytes that were added for the id; a rebuild indexes exactly the live records.
  \<^item> \<open>Net_Request\<close> (\<open>types/network.rs\<close>, \<open>types/nostr.rs\<close>): subscription requests and filters, and their translation
    into query filters. \<open>Relay_Selection\<close> (the last part of \<open>storage/db/index.rs\<close>): the choice of relays from the
    stored relay lists. \<open>Db_Facade\<close> (\<open>storage/db/nostr_db_storage.rs\<close>, \<open>traits.rs\<close>): the trait \<open>Storage\<close> as the locale \<open>storage\<close>,
    interpreted by the database.
  \<^item> \<open>Cache_Worker\<close> (\<open>worker/cache_worker.rs\<close>): both endpoints of the cache worker, one message being one
    step. Its contract with the database is the locale \<open>cache_storage\<close>, which extends \<open>storage\<close>. A query is
    answered with the events the storage finds and closed by one end marker, what goes on to the relays is
    what the request asked for, and the mesh endpoint answers with events that are still fresh.
  \<^item> \<open>Frame_Utils\<close> (\<open>utils/mod.rs\<close>, \<open>transport/fb_utils.rs\<close>), \<open>Relay_Connection\<close> and \<open>Relay_Session\<close>
    (\<open>transport/connection.rs\<close>): one relay connection. Its tasks (the drainer of the send queue, the first
    connect, waking) are cut at their awaits, so that \<open>relay_step\<close> takes one input (a frame, a status, the
    result of an await, a call of the worker) and returns the new state with the effects in their order;
    \<open>relay_reachable\<close> closes it under every interleaving. Shown are the back-off, the cool-down, the NIP-42
    session and what is stored for a replay.
  \<^item> \<open>Connections_Worker\<close> (\<open>worker/connections_worker.rs\<close>): the table of connections, the ids of subscriptions as
    relays see them, deduplication over relays, batches to the parser. \<open>Json_Value\<close> states what the workers rely on in
    \<open>serde_json\<close>: objects are written in the order of their keys, and a value within the limits of the reader is
    read back. \<open>Request_Path\<close> composes the two workers: a request that the cache forwards is queued at every
    relay of it.
  \<^item> \<open>Blob_Store\<close> (\<open>core/src/traits.rs\<close>, \<open>native-ffi/src/storage.rs\<close>): the trait \<open>BlobStore\<close> as a locale,
    interpreted by the file store, whose writes are atomic under failing file operations.
    \<open>Persistent_Storage\<close> (\<open>core/src/storage/persistent.rs\<close>): hydration, snapshots and the deletion log over
    any blob store. The log stays well formed in every reachable state, and a new deletion that was
    persisted is replayed at the next start.
  \<^item> \<open>Mesh_Framing\<close> (\<open>mesh/src/framing.rs\<close>) and \<open>Mesh_Transport\<close> (\<open>mesh/src/transport.rs\<close>): fragments,
    reassembly in any order, the limits of the reassembler against arbitrary bytes, the outbound queue,
    and the delivery of a frame from one transport to another.
  \<^item> \<open>Json_Base\<close> and \<open>Event_Json\<close> (\<open>core/src/utils/mod.rs\<close>, \<open>core/src/types/nostr.rs\<close>): the hand-written JSON
    reader and the writers and readers of events, templates and tags. An event survives the round trip unless a
    tag or the content looks like a field of it; on every text the reader ends with an event or an error.
  \<^item> \<open>Pipe_Types\<close>, \<open>Pipe_Filters\<close>, \<open>Proof_Pipe\<close>, \<open>Pipeline\<close> (\<open>core/src/pipeline\<close>): the trait \<open>Pipe\<close> as the locale
    \<open>pipe\<close>, interpreted by the pipes; the filters, limiters, counters and serialisers; the proof pipe with
    its pending and verified proofs; and the pipeline that runs a subscription's pipes over its set of seen
    ids. No id has an effect on the pipelines twice, an event that fails can be offered again, and a proof pipe emits
    only proofs that the mint confirmed.
  \<^item> \<open>Mesh_Session\<close> (\<open>mesh/src/lib.rs\<close>, \<open>mesh/src/session.rs\<close>) and \<open>Mesh_Runtime\<close> (\<open>mesh/src/runtime.rs\<close>,
    \<open>mesh/src/cache.rs\<close>): event stores, NIP-77 reconciliation between two nodes and as a session machine, and
    the runtime that answers the frames of a peer from the cache worker. Two nodes hold the same ids
    after a reconciliation; the cache receives only kind 0 events whose id and signature are valid.

  \<^bold>\<open>How code becomes definitions.\<close> A struct is a record, an enum a datatype, a method that takes
  \<open>&mut self\<close> a function that returns the new state. \<open>u8\<close> to \<open>u64\<close> are words where they wrap or are stored;
  \<open>usize\<close> counts of bytes in memory are \<open>nat\<close>. \<open>Result\<close> is a sum with the error on the left. A panic is
  \<open>None\<close>, and so is a loop that does not end: \<open>skip_string_loop\<close>, \<open>scan_container\<close> and \<open>make_space\<close> are
  partial functions over \<open>option\<close>, and the theorems prove that they return. No definition uses fuel. All other
  loops are recursive functions with a termination proof. An async function is the sequence of its steps,
  or, in the connection, a task with a state for each await; the calls it awaits can fail, by the result they return. Text is its UTF-8 bytes in the scanner and
  a string where only equality and splitting matter.

  \<^bold>\<open>Parameters.\<close> Code outside the repository is an argument of the definitions: the FlatBuffers reader
  (\<open>fb_codec\<close>), the iteration order of hash maps (\<open>shard_order\<close>), the byte searches of memchr (\<open>searcher\<close>),
  the hexadecimal codec, the JSON parser and the negentropy protocol of the mesh frames, the FlatBuffers
  builders, the clock, the request to a mint and the check of its proofs, the signature check, the admission of frames by a
  bounded channel, lower-casing, and the text of JSON values as serde_json reads and prints it. The parsers
  of single event kinds are a parameter of the pipelines. What the theorems need of them is a named
  predicate, and the witnesses instantiate it with a concrete function.

  \<^bold>\<open>What the model showed.\<close> Places where the code loses data or differs from its comments are stated as
  theorems: a misaligned ring offset reads payload bytes; a deletion by someone else masks the one of the
  author; an oversized mesh payload is encoded with a truncated length; a large frame drops the batch
  before it; a retried deletion is not stored; a nested id is taken for the event's; a record
  that fills the shared ring exactly empties it; a tag named content replaces the content of an event; an
  event the parser cannot read uses up its id; a session reports the difference of its last round only;
  a failed query of the mesh cache leaves an answer that the next query takes for its own; a hash-prefixed p tag and
  a hashtag are ignored by the filters of the cache; a request for the cache alone can reach the relays; frames are
  stranded when the first connect of a relay fails; a reconnect renews no subscription; a late challenge is not
  answered; the splitter of outgoing frames can panic; a shortened subscription id can capture another; and an event that
  arrives after its subscription was closed is hidden from the next one with the same id.

  \<^bold>\<open>Not modelled.\<close> Generated FlatBuffers code, bindings (C, JNI, wasm) and the front ends in other
  languages; the parser worker, the crypto worker and its clients, the engine that wires the workers; the
  WebSocket transports, which are callbacks of the platform; the signers and the cryptography they call;
  the parsers of single event kinds, which build FlatBuffers tables, and the content parser, which runs
  regular expressions of a crate. Locks and atomics of the storage are not modelled: each operation is one step.
\<close>

end
